(* ===== verification/Prelude.thy ===== *)
theory Prelude
  imports Main "HOL-Library.Word" "HOL-Library.Multiset"
begin

text \<open>
  Shared vocabulary of the development: the machine types of the modelled platform (a 64-bit
  \<^verbatim>\<open>size_t\<close>, a 32-bit \<^verbatim>\<open>unsigned\<close>), the exceptions the library throws, the result
  type of fallible operations, and the generic facts on lists and words that several components
  use. The collections \<open>word_to_nat\<close> and \<open>list_shift\<close> gather the rewrite rules
  that move a word equation to the naturals and that describe an array after an overlapping copy.
\<close>

unbundle bit_operations_syntax

named_theorems word_to_nat \<open>rules that move a word expression to the naturals\<close>
named_theorems list_shift \<open>rules that describe array contents after a block move\<close>

section \<open>Machine types and exceptions\<close>

type_synonym size_t = "64 word"
type_synonym uint32 = "32 word"
type_synonym byte = "8 word"

text \<open>The enumeration \<^verbatim>\<open>error_code_t\<close> of errors.hpp.\<close>

datatype error_code_t =
    no_error | system_error | other_error | security_error | read_only_error | io_error
  | path_error | not_found_error | busy_error | already_exists_error | not_empty_error
  | is_directory_error | out_of_space_error | out_of_memory_error | out_of_resource_error
  | lock_error | sem_error | mode_error | size_error | corrupted_error
  | not_such_file_or_directory | invalid_argument | timeout_when_locking_error
  | timeout_when_waiting_error | owner_dead_error | not_recoverable

text \<open>
  The exception classes of exceptions.hpp (and \<^verbatim>\<open>bad_weak_ptr\<close> of the smart pointers).
  Each carries what the program can observe of it, the error code.
\<close>

datatype ipc_exception =
    interprocess_exception error_code_t
  | lock_exception error_code_t
  | bad_alloc
  | bad_weak_ptr

fun get_error_code :: "ipc_exception \<Rightarrow> error_code_t" where
  "get_error_code (interprocess_exception ec) = ec"
| "get_error_code (lock_exception ec) = ec"
| "get_error_code bad_alloc = other_error"
| "get_error_code bad_weak_ptr = other_error"

type_synonym 'a result = "ipc_exception + 'a"

section \<open>Words and naturals\<close>

lemma unat_sub_one [word_to_nat]:
  fixes x :: "'a::len word"
  assumes "x \<noteq> 0"
  shows "unat (x - 1) = unat x - 1"
  using assms by (simp add: unat_minus_one)

lemma unat_add_lem' [word_to_nat]:
  fixes x y :: "'a::len word"
  assumes "unat x + unat y < 2 ^ LENGTH('a)"
  shows "unat (x + y) = unat x + unat y"
  using assms by (simp add: unat_word_ariths)

lemma unat_mult_lem' [word_to_nat]:
  fixes x y :: "'a::len word"
  assumes "unat x * unat y < 2 ^ LENGTH('a)"
  shows "unat (x * y) = unat x * unat y"
  using assms by (simp add: unat_word_ariths)

lemma word_of_nat_unat_eq: "(x = y) = (unat x = unat y)" for x y :: "'a::len word"
  by (rule word_unat_eq_iff)

lemma not_mask_eq_minus: "NOT (2 ^ k - 1 :: 'a::len word) = - (2 ^ k)"
  by (simp add: minus_eq_not_minus_1 [of "2 ^ k"])

lemma word_and_neg_pow2:
  fixes x :: "'a::len word"
  shows "x AND (- (2 ^ k)) = x div 2 ^ k * 2 ^ k"
proof -
  have "x AND (- (2 ^ k)) = x AND NOT (mask k)"
    by (simp add: mask_eq_exp_minus_1 not_mask_eq_minus)
  also have "\<dots> = push_bit k (drop_bit k x)"
    by (simp add: bit_eq_iff bit_simps) (auto simp: bit_simps)
  also have "\<dots> = x div 2 ^ k * 2 ^ k"
    by (simp add: push_bit_eq_mult drop_bit_eq_div)
  finally show ?thesis .
qed

lemma word_and_pred_pow2:
  fixes x :: "'a::len word"
  shows "x AND (2 ^ k - 1) = x mod 2 ^ k"
  by (simp add: mask_eq_exp_minus_1 [symmetric] take_bit_eq_mask [symmetric] take_bit_eq_mod)

lemma unat_mod_less: "b \<noteq> 0 \<Longrightarrow> unat (a mod b) < unat b" for a b :: "'a::len word"
  by (simp add: unat_mod unat_gt_0)

lemma unat_half_less: "s \<noteq> 0 \<Longrightarrow> unat (drop_bit (Suc 0) s) < unat s" for s :: "'a::len word"
proof -
  assume "s \<noteq> 0"
  then have "0 < unat s" by (simp add: unat_gt_0)
  moreover have "unat (drop_bit (Suc 0) s) = unat s div 2 ^ Suc 0"
    by (subst unat_drop_bit_eq) (simp only: drop_bit_eq_div)
  ultimately show ?thesis by simp
qed

section \<open>The range of size\_t\<close>

lemma size_t_bound: "unat (x :: size_t) < 2 ^ 64"
  using unsigned_less [of x] by simp

lemma size_t_max_unat: "unat (- 1 :: size_t) = 2 ^ 64 - 1"
  by (simp add: unsigned_minus_1_eq_mask mask_eq_exp_minus_1)

lemma unat_of_nat_size: "n < 2 ^ 64 \<Longrightarrow> unat (of_nat n :: size_t) = n"
  by (simp add: unat_of_nat)

lemma unat_drop_bit_size: "unat (drop_bit k (x :: size_t)) = unat x div 2 ^ k"
  by (subst unat_drop_bit_eq) (simp only: drop_bit_eq_div)

lemma unat_pow2_size: "j < 64 \<Longrightarrow> unat (2 ^ j :: size_t) = 2 ^ j"
proof -
  assume j: "j < 64"
  have "unat (2 ^ j :: size_t) = 2 ^ j mod 2 ^ 64"
    using unat_of_nat [of "2 ^ j", where ?'a = 64] by simp
  moreover have "(2::nat) ^ j < 2 ^ 64" using j by (rule power_strict_increasing) simp
  ultimately show ?thesis by simp
qed

lemma size_t_max_div: "unat ((- 1 :: size_t) div b) = (2 ^ 64 - 1) div unat b"
  by (simp add: unat_div size_t_max_unat)

section \<open>Rounding on the naturals\<close>

lemma round_up_nat:
  assumes "0 < (r::nat)" "0 < n"
  shows "n \<le> ((n - 1) div r + 1) * r" and "((n - 1) div r + 1) * r < n + r"
proof -
  define q where "q = (n - 1) div r * r"
  have e: "q + (n - 1) mod r = n - 1" unfolding q_def by (rule div_mult_mod_eq)
  have l: "(n - 1) mod r < r" using assms by simp
  have m: "((n - 1) div r + 1) * r = q + r" by (simp add: q_def)
  from e l assms have "n \<le> q + r" "q + r < n + r" by linarith+
  then show "n \<le> ((n - 1) div r + 1) * r" "((n - 1) div r + 1) * r < n + r"
    unfolding m .
qed

section \<open>Counting the threads in a phase\<close>

text \<open>
  The concurrent models keep a list with the phase of each thread; \<open>num_in P ts\<close> is the number of
  threads whose phase satisfies \<open>P\<close>.
\<close>

definition num_in :: "('a \<Rightarrow> bool) \<Rightarrow> 'a list \<Rightarrow> nat" where
  "num_in P xs = length (filter P xs)"

lemma num_in_update:
  assumes "i < length xs"
  shows "num_in P (xs[i := y]) = num_in P xs - (if P (xs ! i) then 1 else 0) + (if P y then 1 else 0)"
    and "P (xs ! i) \<Longrightarrow> 0 < num_in P xs"
proof -
  have split: "xs = take i xs @ xs ! i # drop (Suc i) xs" using assms by (rule id_take_nth_drop)
  have c: "num_in P xs = num_in P (take i xs) + (if P (xs ! i) then 1 else 0) + num_in P (drop (Suc i) xs)"
    by (subst (1) split) (simp add: num_in_def)
  have u: "num_in P (xs[i := y]) = num_in P (take i xs) + (if P y then 1 else 0) + num_in P (drop (Suc i) xs)"
    using assms by (simp add: upd_conv_take_nth_drop num_in_def)
  show "num_in P (xs[i := y]) = num_in P xs - (if P (xs ! i) then 1 else 0) + (if P y then 1 else 0)"
    by (simp add: c u)
  show "P (xs ! i) \<Longrightarrow> 0 < num_in P xs" by (simp add: c)
qed

lemma num_in_0: "num_in P xs = 0 \<longleftrightarrow> (\<forall>x\<in>set xs. \<not> P x)"
  by (simp add: num_in_def filter_empty_conv)

lemma num_in_pos: "x \<in> set xs \<Longrightarrow> P x \<Longrightarrow> 0 < num_in P xs"
  using num_in_0 [of P xs] by auto

lemma num_in_replicate [simp]: "num_in P (replicate n x) = (if P x then n else 0)"
  by (simp add: num_in_def)

end
