(* ===== verification/Arith_Utils.thy ===== *)
theory Arith_Utils
  imports Prelude
begin

text \<open>
  The integer helpers of detail/math_functions.hpp, detail/utilities.hpp and detail/min_max.hpp on
  a 64-bit \<^verbatim>\<open>size_t\<close>. Every operation wraps as the C++ one does. A division or
  remainder by zero, which is undefined in C++, is the value \<^term>\<open>None\<close>; so is a loop that
  never ends. The lemmas say when a helper computes the mathematical function its comment names,
  and what it does outside that range.
\<close>

section \<open>Definitions\<close>

subsection \<open>math_functions.hpp\<close>

text \<open>The body of the do-while loop of \<^verbatim>\<open>gcd\<close>; \<^verbatim>\<open>A % 0\<close> is undefined behaviour.\<close>

function gcd_w :: "size_t \<Rightarrow> size_t \<Rightarrow> size_t option" where
  "gcd_w A B =
     (if B = 0 then None
      else (let tmp = B; B' = A mod B; A' = tmp
            in if B' \<noteq> 0 then gcd_w A' B' else Some A'))"
  by pat_completeness auto
termination
  by (relation "measure (\<lambda>(A, B). unat B)") (simp_all add: unat_mod_less)

declare gcd_w.simps [simp del]

definition lcm_w :: "size_t \<Rightarrow> size_t \<Rightarrow> size_t option" where
  "lcm_w A B =
     (case gcd_w A B of None \<Rightarrow> None
      | Some g \<Rightarrow> if g = 0 then None else Some (A div g * B))"

partial_function (option) log2_ceil_loop :: "size_t \<Rightarrow> size_t \<Rightarrow> size_t \<Rightarrow> size_t option" where
  "log2_ceil_loop A power_of_2 i =
     (if power_of_2 < A then log2_ceil_loop A (push_bit 1 power_of_2) (i + 1) else Some i)"

definition log2_ceil :: "size_t \<Rightarrow> size_t option" where
  "log2_ceil A = log2_ceil_loop A 1 0"

partial_function (option) upper_power_of_2_loop :: "size_t \<Rightarrow> size_t \<Rightarrow> size_t option" where
  "upper_power_of_2_loop A power_of_2 =
     (if power_of_2 < A then upper_power_of_2_loop A (push_bit 1 power_of_2) else Some power_of_2)"

definition upper_power_of_2 :: "size_t \<Rightarrow> size_t option" where
  "upper_power_of_2 A = upper_power_of_2_loop A 1"

function floor_log2_loop :: "size_t \<Rightarrow> size_t \<Rightarrow> size_t \<Rightarrow> size_t" where
  "floor_log2_loop shift n log2 =
     (if shift = 0 then log2
      else (let tmp = drop_bit (unat shift) n
            in if tmp \<noteq> 0 then floor_log2_loop (drop_bit 1 shift) tmp (log2 + shift)
               else floor_log2_loop (drop_bit 1 shift) n log2))"
  by pat_completeness auto
termination
  by (relation "measure (\<lambda>(shift, n, log2). unat shift)")
     (simp_all only: in_measure case_prod_conv One_nat_def unat_half_less wf_measure not_False_eq_True)

declare floor_log2_loop.simps [simp del]

definition floor_log2 :: "size_t \<Rightarrow> size_t" where
  "floor_log2 x = floor_log2_loop (drop_bit 1 64) x 0"

subsection \<open>utilities.hpp and min\_max.hpp\<close>

definition get_rounded_size :: "size_t \<Rightarrow> size_t \<Rightarrow> size_t" where
  "get_rounded_size orig_size round_to = ((orig_size - 1) div round_to + 1) * round_to"

definition get_truncated_size :: "size_t \<Rightarrow> size_t \<Rightarrow> size_t" where
  "get_truncated_size orig_size multiple = orig_size div multiple * multiple"

definition get_rounded_size_po2 :: "size_t \<Rightarrow> size_t \<Rightarrow> size_t" where
  "get_rounded_size_po2 orig_size round_to = ((orig_size - 1) AND NOT (round_to - 1)) + round_to"

definition get_truncated_size_po2 :: "size_t \<Rightarrow> size_t \<Rightarrow> size_t" where
  "get_truncated_size_po2 orig_size multiple = orig_size AND NOT (multiple - 1)"

text \<open>The compile-time \<^verbatim>\<open>ct_rounded_size\<close>: None when one of its static assertions fails.\<close>

definition ct_rounded_size :: "size_t \<Rightarrow> size_t \<Rightarrow> size_t option" where
  "ct_rounded_size OrigSize RoundTo =
     (if RoundTo = 0 then None
      else (let intermediate_value = (OrigSize - 1) div RoundTo + 1
            in if intermediate_value \<le> (- 1) div RoundTo
               then Some (intermediate_value * RoundTo) else None))"

definition sqrt_size_type_max :: size_t where
  "sqrt_size_type_max = push_bit (8 * 4) 1 - 1"

definition multiplication_overflows :: "size_t \<Rightarrow> size_t \<Rightarrow> bool" where
  "multiplication_overflows a b \<longleftrightarrow>
     (a OR b) > sqrt_size_type_max \<and> b \<noteq> 0 \<and> a > (- 1) div b"

definition size_overflows :: "size_t \<Rightarrow> size_t \<Rightarrow> bool" where
  "size_overflows SztSizeOfType cnt = multiplication_overflows SztSizeOfType cnt"

definition sum_overflows :: "size_t \<Rightarrow> size_t \<Rightarrow> bool" where
  "sum_overflows a b \<longleftrightarrow> - 1 - a < b"

definition is_ptr_aligned :: "size_t \<Rightarrow> size_t \<Rightarrow> bool" where
  "is_ptr_aligned ptr align \<longleftrightarrow> ptr mod align = 0"

definition max_value :: "size_t \<Rightarrow> size_t \<Rightarrow> size_t" where
  "max_value a b = (if a > b then a else b)"

definition min_value :: "size_t \<Rightarrow> size_t \<Rightarrow> size_t" where
  "min_value a b = (if a < b then a else b)"

section \<open>Rounding\<close>

lemma get_rounded_size_nat:
  assumes "orig \<noteq> 0" and "r \<noteq> 0" and "unat orig + unat r \<le> 2 ^ 64"
  shows "unat (get_rounded_size orig r) = ((unat orig - 1) div unat r + 1) * unat r"
proof -
  let ?o = "unat orig" and ?r = "unat r"
  have pos: "0 < ?o" "0 < ?r" using assms by (simp_all add: unat_gt_0)
  have d: "unat ((orig - 1) div r) = (?o - 1) div ?r"
    using assms(1) by (simp add: unat_div unat_sub_one)
  have m: "((?o - 1) div ?r + 1) * ?r < 2 ^ 64"
    using round_up_nat(2) [OF pos(2,1)] assms(3) by linarith
  have s: "(?o - 1) div ?r + 1 < 2 ^ 64"
  proof -
    have "(?o - 1) div ?r \<le> ?o - 1" by simp
    moreover have "?o < 2 ^ 64" by (rule size_t_bound)
    ultimately show ?thesis using pos by linarith
  qed
  have "unat ((orig - 1) div r + 1) = (?o - 1) div ?r + 1"
    using s d by (simp add: unat_add_lem')
  with m show ?thesis
    by (simp add: get_rounded_size_def unat_mult_lem')
qed

text \<open>
  rounding up by excess. As long as size plus granularity fits the address space, the result of
  \<^verbatim>\<open>get_rounded_size\<close> is a multiple of the granularity, not below the size and less than one
  granule above it.
\<close>

theorem get_rounded_size_least_multiple:
  assumes "orig \<noteq> 0" and "r \<noteq> 0" and "unat orig + unat r \<le> 2 ^ 64"
  shows "unat r dvd unat (get_rounded_size orig r)
    \<and> unat orig \<le> unat (get_rounded_size orig r)
    \<and> unat (get_rounded_size orig r) < unat orig + unat r"
proof -
  have pos: "0 < unat r" "0 < unat orig" using assms by (simp_all add: unat_gt_0)
  show ?thesis
    unfolding get_rounded_size_nat [OF assms]
    using round_up_nat [OF pos] by simp
qed

theorem get_rounded_size_least_multiple_witness:
  "(100::size_t) \<noteq> 0 \<and> (16::size_t) \<noteq> 0 \<and> unat (100::size_t) + unat (16::size_t) \<le> 2 ^ 64
   \<and> get_rounded_size 100 16 = 112 \<and> unat (16::size_t) dvd unat (get_rounded_size 100 16)"
proof -
  have h: "(100::size_t) \<noteq> 0" "(16::size_t) \<noteq> 0" "unat (100::size_t) + unat (16::size_t) \<le> 2 ^ 64"
    by simp_all
  show ?thesis
    using h get_rounded_size_least_multiple [OF h] by (simp add: get_rounded_size_def)
qed

text \<open>
  Zero is special: \<open>orig_size - 1\<close> wraps to the largest value. For a power of two the second
  wrap-around brings the result back to zero; for any other granularity it does not, and the result
  is not even a multiple of the granularity.
\<close>

lemma round_zero_po2: "get_rounded_size 0 (2 ^ k) = 0"
proof -
  have "get_rounded_size 0 (2 ^ k) = (((- 1) AND (- (2 ^ k))) :: size_t) + 2 ^ k"
    by (simp add: get_rounded_size_def word_and_neg_pow2 distrib_right del: word_and_max and.left_neutral)
  also have "\<dots> = 0" by simp
  finally show ?thesis .
qed

text \<open>Rounding up to units of 16 bytes wraps to 0 for the 15 largest sizes.\<close>

lemma get_rounded_size_wraps:
  assumes "unat nbytes > 2 ^ 64 - 16"
  shows "get_rounded_size nbytes 16 = 0"
proof -
  have n0: "nbytes \<noteq> 0" using assms by auto
  have "unat (nbytes - 1) = unat nbytes - 1" by (rule unat_sub_one [OF n0])
  moreover have "unat nbytes < 2 ^ 64" by (rule size_t_bound)
  ultimately have "(2 ^ 60 - 1) * 16 \<le> unat (nbytes - 1)" "unat (nbytes - 1) < 2 ^ 60 * 16" using assms by simp_all
  then have "unat (nbytes - 1) div 16 = 2 ^ 60 - 1" by (simp add: div_nat_eqI)
  then have "unat ((nbytes - 1) div 16) = 2 ^ 60 - 1" by (simp add: unat_div)
  then have "(nbytes - 1) div 16 = 2 ^ 60 - 1" by (simp add: word_unat_eq_iff)
  then show ?thesis by (simp add: get_rounded_size_def)
qed

lemma get_rounded_size_zero_by_3: "get_rounded_size 0 3 = 2"
  by (simp add: get_rounded_size_def)

lemma po2_rounding:
  "get_rounded_size_po2 x (2 ^ k) = get_rounded_size x (2 ^ k)"
  "get_truncated_size_po2 x (2 ^ k) = get_truncated_size x (2 ^ k)"
  by (simp_all add: get_rounded_size_po2_def get_rounded_size_def get_truncated_size_po2_def
      get_truncated_size_def not_mask_eq_minus word_and_neg_pow2 distrib_right)

text \<open>
  the mask versions for powers of two agree with the dividing versions on every input,
  wrap-around included.
\<close>

theorem rounding_po2_equivalence:
  "get_rounded_size_po2 x (2 ^ k) = get_rounded_size x (2 ^ k)
   \<and> get_truncated_size_po2 x (2 ^ k) = get_truncated_size x (2 ^ k)"
  by (simp add: po2_rounding)

section \<open>Overflow tests\<close>

lemma multiplication_overflows_iff:
  "multiplication_overflows a b \<longleftrightarrow> 2 ^ 64 \<le> unat a * unat b"
proof
  assume "multiplication_overflows a b"
  then have b: "b \<noteq> 0" and "a > (- 1) div b" by (simp_all add: multiplication_overflows_def)
  then have "(2 ^ 64 - 1) div unat b < unat a"
    by (simp add: word_less_nat_alt size_t_max_div)
  moreover have "0 < unat b" using b by (simp add: unat_gt_0)
  ultimately have "2 ^ 64 - 1 < unat a * unat b"
    by (simp add: div_less_iff_less_mult)
  then show "2 ^ 64 \<le> unat a * unat b" by simp
next
  assume *: "2 ^ 64 \<le> unat a * unat b"
  then have b: "0 < unat b" by (cases "unat b") auto
  have "(2 ^ 64 - 1) div unat b < unat a"
    using * b by (simp add: div_less_iff_less_mult)
  moreover have "\<not> (a OR b) \<le> sqrt_size_type_max"
  proof
    assume le: "(a OR b) \<le> sqrt_size_type_max"
    have "a \<le> a OR b" "b \<le> a OR b"
      by (simp_all add: le_word_or1 le_word_or2)
    with le have "unat a \<le> 2 ^ 32 - 1" "unat b \<le> 2 ^ 32 - 1"
      by (auto simp: word_le_nat_alt sqrt_size_type_max_def push_bit_eq_mult)
    then have "unat a * unat b \<le> (2 ^ 32 - 1) * (2 ^ 32 - 1)" by (rule mult_le_mono)
    with * show False by simp
  qed
  ultimately show "multiplication_overflows a b"
    using b by (auto simp: multiplication_overflows_def word_less_nat_alt size_t_max_div not_le unat_gt_0)
qed

lemma sum_overflows_iff: "sum_overflows a b \<longleftrightarrow> 2 ^ 64 \<le> unat a + unat b"
proof -
  have "unat (- 1 - a) = 2 ^ 64 - 1 - unat a"
    by (subst unat_sub) (simp_all add: size_t_max_unat)
  then show ?thesis using size_t_bound [of a]
    by (auto simp: sum_overflows_def word_less_nat_alt)
qed

text \<open>
  C39: the overflow tests are exact. \<^verbatim>\<open>multiplication_overflows\<close>, with its fast path on the
  square root of the range, and \<^verbatim>\<open>sum_overflows\<close> answer true precisely when the
  mathematical product or sum does not fit in \<^verbatim>\<open>size_t\<close>.
\<close>

theorem overflow_tests_exact:
  "multiplication_overflows a b = (2 ^ 64 \<le> unat a * unat b)
   \<and> size_overflows a b = (2 ^ 64 \<le> unat a * unat b)
   \<and> sum_overflows a b = (2 ^ 64 \<le> unat a + unat b)"
  by (simp add: multiplication_overflows_iff sum_overflows_iff size_overflows_def)

section \<open>Greatest common divisor and least common multiple\<close>

lemma gcd_w_correct:
  "B \<noteq> 0 \<Longrightarrow> \<exists>g. gcd_w A B = Some g \<and> unat g = gcd (unat A) (unat B)"
proof (induction A B rule: gcd_w.induct)
  case (1 A B)
  show ?case
  proof (cases "A mod B = 0")
    case True
    then have "unat A mod unat B = 0" by (metis unat_mod unat_0)
    then have "gcd (unat A) (unat B) = unat B" by (simp add: mod_eq_0_iff_dvd gcd_nat.absorb2)
    with True "1.prems" show ?thesis by (simp add: gcd_w.simps [of A B])
  next
    case False
    have "\<exists>g. gcd_w B (A mod B) = Some g \<and> unat g = gcd (unat B) (unat (A mod B))"
      by (rule "1.IH") (use False "1.prems" in simp_all)
    moreover have "gcd (unat B) (unat (A mod B)) = gcd (unat A) (unat B)"
      by (metis unat_mod gcd_red_nat gcd.commute)
    ultimately show ?thesis using False "1.prems" by (auto simp: gcd_w.simps [of A B])
  qed
qed

lemma gcd_w_zero: "gcd_w A 0 = None"
  by (simp add: gcd_w.simps)

lemma lcm_w_correct:
  assumes "B \<noteq> 0" and "A \<noteq> 0" and "lcm (unat A) (unat B) < 2 ^ 64"
  shows "\<exists>l. lcm_w A B = Some l \<and> unat l = lcm (unat A) (unat B)"
proof -
  obtain g where g: "gcd_w A B = Some g" "unat g = gcd (unat A) (unat B)"
    using gcd_w_correct [OF assms(1)] by blast
  have "0 < unat A" using assms by (simp add: unat_gt_0)
  then have "0 < unat g" by (simp add: g)
  then have g0: "g \<noteq> 0" by auto
  have "unat A div unat g * unat B = lcm (unat A) (unat B)"
    by (simp add: g lcm_nat_def mult.commute div_mult_swap)
  with assms(3) have "unat (A div g * B) = lcm (unat A) (unat B)"
    by (simp add: unat_mult_lem' unat_div)
  with g g0 show ?thesis by (simp add: lcm_w_def)
qed

text \<open>
  Euclid's loop ends for every non-zero divisor with the greatest common divisor, and
  \<^verbatim>\<open>lcm\<close>, which divides before it multiplies, is exact whenever the least common multiple
  fits.
\<close>

theorem gcd_lcm_correct:
  assumes "B \<noteq> 0" and "A \<noteq> 0" and "lcm (unat A) (unat B) < 2 ^ 64"
  shows "(\<exists>g. gcd_w A B = Some g \<and> unat g = gcd (unat A) (unat B))
    \<and> (\<exists>l. lcm_w A B = Some l \<and> unat l = lcm (unat A) (unat B))"
  using gcd_w_correct [OF assms(1)] lcm_w_correct [OF assms] by blast

theorem gcd_lcm_correct_witness:
  "(6::size_t) \<noteq> 0 \<and> (4::size_t) \<noteq> 0 \<and> lcm (unat (4::size_t)) (unat (6::size_t)) < 2 ^ 64
   \<and> (\<exists>l. lcm_w 4 6 = Some l \<and> unat l = 12)"
proof -
  have e: "lcm (4::nat) 6 = 12"
    by (simp add: lcm_nat_def gcd_non_0_nat)
  have h: "(6::size_t) \<noteq> 0" "(4::size_t) \<noteq> 0" "lcm (unat (4::size_t)) (unat (6::size_t)) < 2 ^ 64"
    by (simp_all add: e)
  show ?thesis using h gcd_lcm_correct [OF h] by (simp add: e)
qed

section \<open>Powers of two\<close>

lemma upper_loop_diverges:
  assumes "upper_power_of_2_loop A p = Some r"
  shows "2 ^ 63 < unat A \<longrightarrow> p = 0 \<or> (\<exists>k<64. p = 2 ^ k) \<longrightarrow> False"
proof (rule upper_power_of_2_loop.raw_induct [where
    P = "\<lambda>A p r. 2 ^ 63 < unat A \<longrightarrow> p = 0 \<or> (\<exists>k<64. p = 2 ^ k) \<longrightarrow> False", OF _ assms])
  fix f :: "size_t \<Rightarrow> size_t \<Rightarrow> size_t option" and A p r
  assume IH: "\<And>A p r. f A p = Some r \<Longrightarrow> 2 ^ 63 < unat A \<longrightarrow> p = 0 \<or> (\<exists>k<64. p = 2 ^ k) \<longrightarrow> False"
    and eq: "(if p < A then f A (push_bit 1 p) else Some p) = Some r"
  show "2 ^ 63 < unat A \<longrightarrow> p = 0 \<or> (\<exists>k<64. p = 2 ^ k) \<longrightarrow> False"
  proof (intro impI)
    assume big: "2 ^ 63 < unat A" and p: "p = 0 \<or> (\<exists>k<64. p = 2 ^ k)"
    have "unat p \<le> 2 ^ 63"
      using p power_increasing [of _ 63 "2::nat"] by (auto simp: unat_pow2_size)
    with big have "p < A" by (simp add: word_less_nat_alt)
    with eq have f: "f A (push_bit 1 p) = Some r" by simp
    have "push_bit 1 p = 0 \<or> (\<exists>k<64. push_bit 1 p = 2 ^ k)"
    proof (cases "p = 0 \<or> p = 2 ^ 63")
      case True
      then show ?thesis by auto
    next
      case False
      with p obtain k where k: "k < 64" "p = 2 ^ k" by auto
      with False have "k \<noteq> 63" by auto
      with k have "push_bit 1 p = 2 ^ Suc k" "Suc k < 64" by (auto simp: push_bit_eq_mult)
      then show ?thesis by blast
    qed
    with IH [OF f] big show False by blast
  qed
qed

text \<open>
  Both loops double the same power: started at \<open>2 ^ k\<close> below the argument they stop together,
  one with the power and one with its exponent.
\<close>

lemma upper_loop_converges:
  assumes "unat A \<le> 2 ^ 63" and "k \<le> 63" and "\<forall>j<k. 2 ^ j < unat A"
  shows "\<exists>j\<le>63. upper_power_of_2_loop A (2 ^ k) = Some (2 ^ j)
    \<and> log2_ceil_loop A (2 ^ k) (of_nat k) = Some (of_nat j)
    \<and> unat A \<le> 2 ^ j \<and> (\<forall>i<j. 2 ^ i < unat A)"
  using assms
proof (induction "63 - k" arbitrary: k)
  case 0
  then have "k = 63" by simp
  with 0 have "\<not> (2 ^ 63 :: size_t) < A" using unat_pow2_size [of 63] by (simp add: word_less_nat_alt)
  with 0 \<open>k = 63\<close> show ?case
    by (intro exI [of _ 63])
       (simp add: upper_power_of_2_loop.simps [of A] log2_ceil_loop.simps [of A])
next
  case (Suc d)
  show ?case
  proof (cases "2 ^ k < unat A")
    case True
    have "d = 63 - Suc k" "Suc k \<le> 63" using Suc.hyps(2) by simp_all
    moreover have "\<forall>j<Suc k. 2 ^ j < unat A" using Suc.prems True by (auto simp: less_Suc_eq)
    moreover have "(2 ^ k :: size_t) < A" using True Suc.prems by (simp add: word_less_nat_alt unat_pow2_size)
    then have "upper_power_of_2_loop A (2 ^ k) = upper_power_of_2_loop A (2 ^ Suc k)"
      and "log2_ceil_loop A (2 ^ k) (of_nat k) = log2_ceil_loop A (2 ^ Suc k) (of_nat (Suc k))"
      by (simp_all add: upper_power_of_2_loop.simps [of A "2 ^ k"] log2_ceil_loop.simps [of A "2 ^ k"]
          push_bit_eq_mult mult.commute add.commute)
    ultimately show ?thesis using Suc.hyps(1) [of "Suc k"] Suc.prems by simp
  next
    case False
    then have "\<not> (2 ^ k :: size_t) < A" using Suc.prems by (simp add: word_less_nat_alt unat_pow2_size)
    then have "upper_power_of_2_loop A (2 ^ k) = Some (2 ^ k)"
      and "log2_ceil_loop A (2 ^ k) (of_nat k) = Some (of_nat k)"
      by (simp_all add: upper_power_of_2_loop.simps [of A] log2_ceil_loop.simps [of A])
    then show ?thesis using False Suc.prems by (intro exI [of _ k]) auto
  qed
qed

text \<open>
  C40: termination of the doubling loops. \<^verbatim>\<open>upper_power_of_2\<close> returns the least power of two
  not below its argument, and \<^verbatim>\<open>log2_ceil\<close> its exponent, up to \<open>2 ^ 63\<close>; for
  every larger argument the power is shifted out of the word, the guard stays true and
  \<^verbatim>\<open>upper_power_of_2\<close> never returns.
\<close>

theorem upper_power_of_2_returns_iff:
  "(unat A \<le> 2 ^ 63 \<and> (\<exists>j\<le>63. upper_power_of_2 A = Some (2 ^ j) \<and> log2_ceil A = Some (of_nat j)
      \<and> unat A \<le> 2 ^ j \<and> (j = 0 \<or> 2 ^ (j - 1) < unat A)))
   \<or> (2 ^ 63 < unat A \<and> upper_power_of_2 A = None)"
proof (cases "unat A \<le> 2 ^ 63")
  case True
  then obtain j where "j \<le> 63" "upper_power_of_2_loop A 1 = Some (2 ^ j)"
    "log2_ceil_loop A 1 0 = Some (of_nat j)" "unat A \<le> 2 ^ j" "\<forall>i<j. 2 ^ i < unat A"
    using upper_loop_converges [of A 0] by auto
  moreover from this have "j = 0 \<or> 2 ^ (j - 1) < unat A" by (cases j) auto
  ultimately show ?thesis using True
    by (auto simp: upper_power_of_2_def log2_ceil_def)
next
  case False
  have "upper_power_of_2 A = None"
  proof (cases "upper_power_of_2 A")
    case (Some r)
    have "\<exists>k<64. (1::size_t) = 2 ^ k" by (intro exI [of _ 0]) simp
    moreover have "2 ^ 63 < unat A" using False by simp
    ultimately have False
      using Some upper_loop_diverges [of A 1 r] unfolding upper_power_of_2_def by blast
    then show ?thesis ..
  qed
  with False show ?thesis by simp
qed
section \<open>Position of the highest bit\<close>

lemma floor_log2_loop_step:
  assumes "unat s \<noteq> 0"
  shows "floor_log2_loop s n l =
    (if unat n div 2 ^ unat s \<noteq> 0 then floor_log2_loop (drop_bit 1 s) (drop_bit (unat s) n) (l + s)
     else floor_log2_loop (drop_bit 1 s) n l)"
proof -
  have "s \<noteq> 0" using assms by auto
  moreover have "drop_bit (unat s) n = 0 \<longleftrightarrow> unat n div 2 ^ unat s = 0"
    by (metis unat_drop_bit_size unat_eq_zero)
  ultimately show ?thesis by (simp add: floor_log2_loop.simps [of s n l])
qed

definition log2_between :: "nat \<Rightarrow> nat \<Rightarrow> bool" where
  "log2_between m n \<longleftrightarrow> 2 ^ m \<le> n \<and> n < 2 ^ Suc m"

lemma log2_between_shift:
  assumes "log2_between m (n div 2 ^ s)"
  shows "log2_between (s + m) n"
  unfolding log2_between_def
proof
  from assms have "2 ^ m \<le> n div 2 ^ s" by (simp add: log2_between_def)
  then show "2 ^ (s + m) \<le> n" by (simp add: power_add less_eq_div_iff_mult_less_eq mult.commute)
  from assms have "n div 2 ^ s < 2 ^ Suc m" by (simp add: log2_between_def)
  then have "n < 2 ^ Suc m * 2 ^ s" by (subst (asm) div_less_iff_less_mult) simp_all
  then show "n < 2 ^ Suc (s + m)" by (simp add: power_add ac_simps)
qed

lemma floor_log2_loop_bounds:
  assumes "0 < unat n" and "unat n < 2 ^ (2 * 2 ^ k)" and "k \<le> 5" and "unat l + 2 * 2 ^ k \<le> 64"
  shows "\<exists>m. unat (floor_log2_loop (2 ^ k) n l) = unat l + m \<and> log2_between m (unat n)"
  using assms
proof (induction k arbitrary: n l)
  case 0
  have h: "drop_bit 1 (1::size_t) = 0" by simp
  have z: "floor_log2_loop 0 n' l' = l'" for n' l' by (simp add: floor_log2_loop.simps)
  have step: "floor_log2_loop (2 ^ 0) n l = (if unat n div 2 \<noteq> 0 then l + 1 else l)"
    using floor_log2_loop_step [of 1 n l] by (simp add: z h)
  show ?case
  proof (cases "unat n div 2 = 0")
    case True
    with 0 step show ?thesis by (intro exI [of _ 0]) (auto simp: log2_between_def)
  next
    case False
    have "unat (l + 1) = unat l + 1" using 0 by (simp add: unat_add_lem')
    with 0 step False show ?thesis by (intro exI [of _ 1]) (auto simp: log2_between_def)
  qed
next
  case (Suc k)
  let ?s = "2 ^ Suc k :: size_t" and ?ns = "2 * 2 ^ k :: nat"
  have "Suc k < 64" using Suc.prems by simp
  then have us: "unat ?s = ?ns" using unat_pow2_size [of "Suc k"] by simp
  have half: "drop_bit 1 ?s = 2 ^ k"
    using Suc.prems unat_pow2_size [of k] us
    by (simp add: word_unat_eq_iff unat_drop_bit_size del: drop_bit_Suc)
  have step: "floor_log2_loop ?s n l =
    (if unat n div 2 ^ ?ns \<noteq> 0 then floor_log2_loop (2 ^ k) (drop_bit ?ns n) (l + ?s)
     else floor_log2_loop (2 ^ k) n l)"
    using floor_log2_loop_step [of ?s n l] us half by simp
  show ?case
  proof (cases "unat n div 2 ^ ?ns = 0")
    case True
    then have "unat n < 2 ^ ?ns" by (simp add: div_eq_0_iff)
    then obtain m where "unat (floor_log2_loop (2 ^ k) n l) = unat l + m" "log2_between m (unat n)"
      using Suc.IH [of n l] Suc.prems by auto
    with True step show ?thesis by (intro exI [of _ m]) simp
  next
    case False
    let ?n = "drop_bit ?ns n" and ?l = "l + ?s"
    have un: "unat ?n = unat n div 2 ^ ?ns" by (rule unat_drop_bit_size)
    have ul: "unat ?l = unat l + ?ns"
      using Suc.prems us by (simp add: unat_add_lem')
    have "unat n < 2 ^ ?ns * 2 ^ ?ns"
      using Suc.prems(2) by (simp add: power_add [symmetric] mult_2)
    then have "unat n div 2 ^ ?ns < 2 ^ ?ns"
      by (simp add: div_less_iff_less_mult)
    then obtain m where "unat (floor_log2_loop (2 ^ k) ?n ?l) = unat ?l + m" "log2_between m (unat ?n)"
      using Suc.IH [of ?n ?l] Suc.prems False un ul by auto
    with False step ul un show ?thesis
      by (intro exI [of _ "?ns + m"]) (simp add: log2_between_shift)
  qed
qed

text \<open>
  the binary search of \<^verbatim>\<open>floor_log2\<close> finds the position of the highest set bit of every
  non-zero 64-bit value.
\<close>

theorem floor_log2_correct:
  assumes "x \<noteq> 0"
  shows "2 ^ unat (floor_log2 x) \<le> unat x \<and> unat x < 2 ^ Suc (unat (floor_log2 x))"
proof -
  have "drop_bit 1 64 = (2 ^ 5 :: size_t)" by simp
  moreover have "0 < unat x" using assms by (simp add: unat_gt_0)
  moreover have "unat x < 2 ^ (2 * 2 ^ 5)" using size_t_bound [of x] by simp
  ultimately obtain m where "unat (floor_log2 x) = 0 + m" "log2_between m (unat x)"
    using floor_log2_loop_bounds [of x 5 0] by (auto simp: floor_log2_def)
  then show ?thesis by (simp add: log2_between_def)
qed

theorem floor_log2_correct_witness:
  "(1000::size_t) \<noteq> 0 \<and> 2 ^ unat (floor_log2 1000) \<le> (1000::nat) \<and> 1000 < (2::nat) ^ Suc (unat (floor_log2 1000))"
proof -
  have h: "(1000::size_t) \<noteq> 0" by simp
  show ?thesis using h floor_log2_correct [OF h] by simp
qed

end
