(* ===== verification/Offset_Ptr.thy ===== *)
theory Offset_Ptr
  imports Prelude
begin

text \<open>
  The self-relative pointer of offset\_ptr.hpp. An object of class \<^verbatim>\<open>offset_ptr\<close> stores the
  distance from its own address to its pointee, and the distance 1 stands for the null pointer.
  What an operation does depends on where the object lives, so the state is a store from the address
  of each \<^verbatim>\<open>offset_ptr\<close> object to its \<^verbatim>\<open>m_offset\<close>; addresses and offsets are
  64-bit words and wrap. The member functions take the address of \<^verbatim>\<open>this\<close>.
\<close>

type_synonym address = size_t
type_synonym op_store = "address \<Rightarrow> size_t"

section \<open>Conversions between offsets and raw pointers\<close>

text \<open>The branchless conversions that are compiled in.\<close>

definition offset_ptr_to_raw_pointer :: "address \<Rightarrow> size_t \<Rightarrow> address" where
  "offset_ptr_to_raw_pointer this_ptr offset =
     (let mask = (if offset = 1 then 1 else 0);
          mask = mask - 1;
          target_offset = this_ptr + offset
      in target_offset AND mask)"

definition offset_ptr_to_offset :: "address \<Rightarrow> address \<Rightarrow> size_t" where
  "offset_ptr_to_offset ptr this_ptr =
     (let offset = ptr - this_ptr;
          offset = offset - 1;
          mask = (if ptr = 0 then 1 else 0);
          mask = mask - 1;
          offset = offset AND mask
      in offset + 1)"

definition offset_ptr_to_offset_from_other :: "address \<Rightarrow> address \<Rightarrow> size_t \<Rightarrow> size_t" where
  "offset_ptr_to_offset_from_other this_ptr other_ptr other_offset =
     (let mask = (if other_offset = 1 then 1 else 0);
          mask = mask - 1;
          offset = other_ptr - this_ptr;
          offset = offset AND mask
      in offset + other_offset)"

text \<open>The alternatives with branches; their assertion \<^verbatim>\<open>offset != 1\<close> is the value None.\<close>

definition offset_ptr_to_raw_pointer_branch :: "address \<Rightarrow> size_t \<Rightarrow> address" where
  "offset_ptr_to_raw_pointer_branch this_ptr offset =
     (if offset = 1 then 0 else this_ptr + offset)"

definition offset_ptr_to_offset_branch :: "address \<Rightarrow> address \<Rightarrow> size_t option" where
  "offset_ptr_to_offset_branch ptr this_ptr =
     (if ptr = 0 then Some 1
      else (let offset = ptr - this_ptr in if offset \<noteq> 1 then Some offset else None))"

definition offset_ptr_to_offset_from_other_branch ::
  "address \<Rightarrow> address \<Rightarrow> size_t \<Rightarrow> size_t option" where
  "offset_ptr_to_offset_from_other_branch this_ptr other_ptr other_offset =
     (if other_offset = 1 then Some 1
      else (let offset = other_ptr - this_ptr + other_offset
            in if offset \<noteq> 1 then Some offset else None))"

section \<open>Member functions\<close>

definition op_get :: "op_store \<Rightarrow> address \<Rightarrow> address" where
  "op_get st this = offset_ptr_to_raw_pointer this (st this)"

definition op_construct_null :: "op_store \<Rightarrow> address \<Rightarrow> op_store" where
  "op_construct_null st this = st(this := 1)"

definition op_construct_raw :: "op_store \<Rightarrow> address \<Rightarrow> address \<Rightarrow> op_store" where
  "op_construct_raw st this ptr = st(this := offset_ptr_to_offset ptr this)"

definition op_construct_copy :: "op_store \<Rightarrow> address \<Rightarrow> address \<Rightarrow> op_store" where
  "op_construct_copy st this ptr = st(this := offset_ptr_to_offset_from_other this ptr (st ptr))"

definition op_assign_raw :: "op_store \<Rightarrow> address \<Rightarrow> address \<Rightarrow> op_store" where
  "op_assign_raw st this ptr = st(this := offset_ptr_to_offset ptr this)"

definition op_assign :: "op_store \<Rightarrow> address \<Rightarrow> address \<Rightarrow> op_store" where
  "op_assign st this ptr = st(this := offset_ptr_to_offset_from_other this ptr (st ptr))"

definition op_assign_null :: "op_store \<Rightarrow> address \<Rightarrow> op_store" where
  "op_assign_null st this = st(this := 1)"

text \<open>
  Conversion from an \<^verbatim>\<open>offset_ptr<T2>\<close> whose pointer conversion moves the address (a base
  class sub-object): through the raw pointer. \<open>conv\<close> is the compiler's static cast.
\<close>

definition op_construct_convert ::
  "(address \<Rightarrow> address) \<Rightarrow> op_store \<Rightarrow> address \<Rightarrow> address \<Rightarrow> op_store" where
  "op_construct_convert conv st this ptr =
     st(this := offset_ptr_to_offset (conv (op_get st ptr)) this)"

definition op_inc_offset :: "op_store \<Rightarrow> address \<Rightarrow> size_t \<Rightarrow> op_store" where
  "op_inc_offset st this bytes = st(this := st this + bytes)"

definition op_dec_offset :: "op_store \<Rightarrow> address \<Rightarrow> size_t \<Rightarrow> op_store" where
  "op_dec_offset st this bytes = st(this := st this - bytes)"

text \<open>Arithmetic; \<open>sz\<close> is \<^verbatim>\<open>sizeof(PointedType)\<close>.\<close>

definition op_add_assign :: "size_t \<Rightarrow> op_store \<Rightarrow> address \<Rightarrow> size_t \<Rightarrow> op_store" where
  "op_add_assign sz st this offset = op_inc_offset st this (offset * sz)"

definition op_sub_assign :: "size_t \<Rightarrow> op_store \<Rightarrow> address \<Rightarrow> size_t \<Rightarrow> op_store" where
  "op_sub_assign sz st this offset = op_dec_offset st this (offset * sz)"

definition op_pre_inc :: "size_t \<Rightarrow> op_store \<Rightarrow> address \<Rightarrow> op_store" where
  "op_pre_inc sz st this = op_inc_offset st this sz"

definition op_pre_dec :: "size_t \<Rightarrow> op_store \<Rightarrow> address \<Rightarrow> op_store" where
  "op_pre_dec sz st this = op_dec_offset st this sz"

text \<open>The postfix operators copy the pointer to a temporary (at address \<open>tmp\<close>) first.\<close>

definition op_post_inc :: "size_t \<Rightarrow> op_store \<Rightarrow> address \<Rightarrow> address \<Rightarrow> op_store" where
  "op_post_inc sz st this tmp = op_inc_offset (op_construct_copy st tmp this) this sz"

definition op_post_dec :: "size_t \<Rightarrow> op_store \<Rightarrow> address \<Rightarrow> address \<Rightarrow> op_store" where
  "op_post_dec sz st this tmp = op_dec_offset (op_construct_copy st tmp this) this sz"

definition op_bool :: "op_store \<Rightarrow> address \<Rightarrow> bool" where
  "op_bool st this \<longleftrightarrow> st this \<noteq> 1"

definition op_not :: "op_store \<Rightarrow> address \<Rightarrow> bool" where
  "op_not st this \<longleftrightarrow> st this = 1"

definition op_eq :: "op_store \<Rightarrow> address \<Rightarrow> address \<Rightarrow> bool" where
  "op_eq st pt1 pt2 \<longleftrightarrow> op_get st pt1 = op_get st pt2"

definition op_less :: "op_store \<Rightarrow> address \<Rightarrow> address \<Rightarrow> bool" where
  "op_less st pt1 pt2 \<longleftrightarrow> op_get st pt1 < op_get st pt2"

definition op_swap :: "op_store \<Rightarrow> address \<Rightarrow> address \<Rightarrow> op_store" where
  "op_swap st left right =
     (let ptr = op_get st right;
          st1 = op_assign st right left
      in op_assign_raw st1 left ptr)"

section \<open>The conversions compute what their branching versions do\<close>

lemma to_raw_eq: "offset_ptr_to_raw_pointer a off = offset_ptr_to_raw_pointer_branch a off"
  by (simp add: offset_ptr_to_raw_pointer_def offset_ptr_to_raw_pointer_branch_def)

lemma to_offset_eq: "offset_ptr_to_offset p a = (if p = 0 then 1 else p - a)"
  by (simp add: offset_ptr_to_offset_def)

lemma from_other_eq:
  "offset_ptr_to_offset_from_other a b ob = (if ob = 1 then 1 else b - a + ob)"
  by (simp add: offset_ptr_to_offset_from_other_def)

lemmas op_conv = to_raw_eq offset_ptr_to_raw_pointer_branch_def to_offset_eq from_other_eq

lemmas op_member_defs = op_get_def op_construct_null_def op_construct_raw_def op_construct_copy_def
  op_assign_raw_def op_assign_def op_assign_null_def op_construct_convert_def op_inc_offset_def
  op_dec_offset_def op_add_assign_def op_sub_assign_def op_pre_inc_def op_pre_dec_def
  op_post_inc_def op_post_dec_def op_bool_def op_not_def op_swap_def

text \<open>
  C32: the branchless conversions agree with the branching ones wherever the latter's assertion
  holds, and the only pair of addresses it excludes is a pointee one byte after the pointer itself.
\<close>

theorem branchless_conversions_agree:
  "offset_ptr_to_raw_pointer a off = offset_ptr_to_raw_pointer_branch a off
   \<and> offset_ptr_to_offset_branch p a =
        (if p = a + 1 \<and> p \<noteq> 0 then None else Some (offset_ptr_to_offset p a))
   \<and> offset_ptr_to_offset_from_other_branch a b ob =
        (if ob \<noteq> 1 \<and> offset_ptr_to_raw_pointer b ob = a + 1 then None
         else Some (offset_ptr_to_offset_from_other a b ob))"
  by (auto simp: op_conv offset_ptr_to_offset_branch_def offset_ptr_to_offset_from_other_branch_def
      algebra_simps)

section \<open>Reading back what was stored\<close>

text \<open>
  C31: round trip. After construction or assignment from a raw pointer the object yields that
  pointer, null included, for every pair of addresses but one: a pointee one byte after the object
  reads back as null. A copy yields what the original yields, under the same exception, wherever
  the two objects are placed, and objects at other addresses are untouched.
\<close>

theorem offset_ptr_roundtrip:
  "op_get (op_construct_raw st a p) a = (if p = a + 1 then 0 else p)
   \<and> op_get (op_assign_raw st a p) a = (if p = a + 1 then 0 else p)
   \<and> op_get (op_construct_copy st a b) a = (if op_get st b = a + 1 then 0 else op_get st b)
   \<and> op_get (op_assign st a b) a = (if op_get st b = a + 1 then 0 else op_get st b)
   \<and> op_get (op_construct_null st a) a = 0 \<and> op_get (op_assign_null st a) a = 0
   \<and> (c = a \<or> op_get (op_assign st a b) c = op_get st c)"
  by (auto simp: op_member_defs op_conv algebra_simps)

section \<open>Relocation\<close>

text \<open>
  A segment mapped at another address holds the same bytes: the object at \<open>a\<close> moves to
  \<open>a + d\<close> with its offset unchanged.
\<close>

definition relocated :: "op_store \<Rightarrow> address \<Rightarrow> op_store" where
  "relocated st d = (\<lambda>x. st (x - d))"

text \<open>
  A pointer is null or points into (or just behind) the segment of \<open>len\<close> bytes at \<open>base\<close>.
\<close>

definition points_into :: "op_store \<Rightarrow> nat \<Rightarrow> nat \<Rightarrow> address \<Rightarrow> bool" where
  "points_into st base len p \<longleftrightarrow> op_not st p \<or> base \<le> unat (op_get st p) \<and> unat (op_get st p) \<le> base + len"

lemma moved_target:
  fixes g :: address
  assumes "base \<le> unat g" "unat g \<le> base + len" "base' + len < 2 ^ 64"
  shows "unat (g + (of_nat base' - of_nat base)) = unat g - base + base'"
proof -
  have "g = of_nat (unat g - base) + of_nat base" using assms(1) by (simp flip: of_nat_add)
  then have e: "g + (of_nat base' - of_nat base) = of_nat (unat g - base + base')" by (simp add: algebra_simps)
  have "unat g - base + base' < 2 ^ 64" using assms by linarith
  then show ?thesis unfolding e by (simp add: unsigned_of_nat take_bit_nat_eq_self del: of_nat_add)
qed

lemma relocated_get: "op_get (relocated st d) (a + d) = (if op_not st a then 0 else op_get st a + d)"
  by (auto simp: relocated_def op_member_defs op_conv algebra_simps)

lemma relocated_compare:
  assumes "0 < base" "0 < base'" "base' + len < 2 ^ 64" "points_into st base len a" "points_into st base len b"
  defines "d \<equiv> of_nat base' - of_nat base"
  shows "op_eq (relocated st d) (a + d) (b + d) = op_eq st a b \<and> op_less (relocated st d) (a + d) (b + d) = op_less st a b"
proof -
  have null: "op_get st p = 0" if "op_not st p" for p using that by (simp add: op_member_defs op_conv)
  have g: "unat (op_get (relocated st d) (p + d)) = (if op_not st p then 0 else unat (op_get st p) - base + base')
      \<and> (if op_not st p then unat (op_get st p) = 0 else base \<le> unat (op_get st p))" if "points_into st base len p" for p
    using that moved_target [of base "op_get st p" len base'] assms(3) null
    by (auto simp: relocated_get points_into_def d_def)
  show ?thesis using g [OF assms(4)] g [OF assms(5)] assms(1,2) unfolding op_eq_def op_less_def word_unat_eq_iff word_less_nat_alt
    by (auto split: if_splits)
qed

text \<open>
  C30: position independence. When the bytes of a segment appear at a distance \<open>d\<close> from the original mapping, every
  non-null pointer in it yields its pointee moved by the same distance, null pointers stay null, and the Boolean
  conversion and the copy operations give the same answers as in the original mapping. Equality and the order are
  kept for pointers that are null or point into the segment, when neither mapping begins at address zero or reaches
  the end of the address space; equality of two non-null (or two null) pointers is kept always.
\<close>

theorem offset_ptr_position_independent:
  "op_get (relocated st d) (a + d) = (if op_not st a then 0 else op_get st a + d)
   \<and> op_bool (relocated st d) (a + d) = op_bool st a
   \<and> (op_bool st a \<and> op_bool st b \<or> op_not st a \<and> op_not st b
      \<longrightarrow> op_eq (relocated st d) (a + d) (b + d) = op_eq st a b)
   \<and> (\<forall>base base' len. d = of_nat base' - of_nat base \<and> 0 < base \<and> 0 < base' \<and> base' + len < 2 ^ 64
        \<and> points_into st base len a \<and> points_into st base len b
      \<longrightarrow> op_eq (relocated st d) (a + d) (b + d) = op_eq st a b
        \<and> op_less (relocated st d) (a + d) (b + d) = op_less st a b)
   \<and> relocated (op_assign st a b) d = op_assign (relocated st d) (a + d) (b + d)"
proof -
  have "op_bool (relocated st d) (a + d) = op_bool st a
   \<and> (op_bool st a \<and> op_bool st b \<or> op_not st a \<and> op_not st b
      \<longrightarrow> op_eq (relocated st d) (a + d) (b + d) = op_eq st a b)
   \<and> relocated (op_assign st a b) d = op_assign (relocated st d) (a + d) (b + d)"
    by (auto simp: relocated_def op_member_defs op_conv op_eq_def fun_eq_iff algebra_simps)
  then show ?thesis using relocated_get relocated_compare by blast
qed

theorem offset_ptr_position_independent_witness:
  "op_eq (relocated ((\<lambda>_. 1)(1000 := 24, 1008 := 16)) 4096) (1000 + 4096) (1008 + 4096)
   \<and> op_less (relocated ((\<lambda>_. 1)(1000 := 24, 1008 := 40)) 4096) (1000 + 4096) (1008 + 4096)
   \<and> op_less (relocated ((\<lambda>_. 1)(1000 := 24)) 4096) (1008 + 4096) (1000 + 4096)"
proof -
  let ?s = "(\<lambda>_. 1)(1000 := 24, 1008 := 16) :: op_store" and ?t = "(\<lambda>_. 1)(1000 := 24, 1008 := 40) :: op_store"
    and ?u = "(\<lambda>_. 1)(1000 := 24) :: op_store"
  have d: "(4096 :: address) = of_nat 4596 - of_nat 500" by simp
  have h: "(0::nat) < 500" "(0::nat) < 4596" "(4596::nat) + 1000 < 2 ^ 64" by simp_all
  have p: "points_into ?t 500 1000 1000" "points_into ?t 500 1000 1008" "points_into ?u 500 1000 1000" "points_into ?u 500 1000 1008"
    by (simp_all add: points_into_def op_not_def op_get_def op_conv)
  have e: "op_bool ?s 1000" "op_bool ?s 1008" "op_eq ?s 1000 1008" "op_less ?t 1000 1008" "op_less ?u 1008 1000"
    by (simp_all add: op_bool_def op_eq_def op_less_def op_get_def op_conv)
  show ?thesis
    using offset_ptr_position_independent [of ?s 4096 1000 1008] offset_ptr_position_independent [of ?t 4096 1000 1008]
      offset_ptr_position_independent [of ?u 4096 1008 1000] d h p e by blast
qed

section \<open>Arithmetic and swap\<close>

lemma op_inc_dec_inverse: "op_dec_offset (op_inc_offset st a n) a n = st"
  by (simp add: op_member_defs fun_eq_iff)

lemma op_post_inc_result:
  assumes "tmp \<noteq> a" and "op_get st a \<noteq> tmp + 1"
  shows "op_get (op_post_inc sz st a tmp) tmp = op_get st a"
    and "op_post_inc sz st a tmp a = op_pre_inc sz st a a"
  using assms by (auto simp: op_member_defs op_conv algebra_simps)

text \<open>
  pointer arithmetic. On a non-null pointer whose result is not the excluded address,
  \<open>+=\<close> and \<open>-=\<close> move the pointee by that many elements, \<open>++\<close> and \<open>--\<close> by one, and
  each undoes the other exactly.
\<close>

theorem offset_ptr_arithmetic:
  assumes "op_bool st a" and "op_get st a + n * sz \<noteq> a + 1"
  shows "op_get (op_add_assign sz st a n) a = op_get st a + n * sz
    \<and> op_sub_assign sz (op_add_assign sz st a n) a n = st
    \<and> op_pre_dec sz (op_pre_inc sz st a) a = st
    \<and> op_pre_inc sz st a = op_add_assign sz st a 1"
  using assms by (auto simp: op_member_defs op_conv fun_eq_iff algebra_simps)

theorem offset_ptr_arithmetic_witness:
  "op_bool ((\<lambda>_. 1)(1000 := 24)) 1000
   \<and> op_get ((\<lambda>_. 1)(1000 := 24)) 1000 + 3 * 8 \<noteq> 1000 + 1
   \<and> op_get (op_add_assign 8 ((\<lambda>_. 1)(1000 := 24)) 1000 3) 1000 = 1048"
proof -
  have h: "op_bool ((\<lambda>_. 1)(1000 := 24)) 1000"
    "op_get ((\<lambda>_. 1)(1000 := 24)) 1000 + 3 * 8 \<noteq> 1000 + 1"
    by (simp_all add: op_bool_def op_get_def op_conv)
  then show ?thesis
    using offset_ptr_arithmetic [OF h] by (simp add: op_get_def op_conv)
qed

text \<open>
  \<^verbatim>\<open>swap\<close> exchanges the pointees of two pointers at different addresses, although
  each stored offset has to be rebuilt for its new position.
\<close>

theorem offset_ptr_swap:
  assumes "l \<noteq> r" and "op_get st l \<noteq> r + 1" and "op_get st r \<noteq> l + 1"
  shows "op_get (op_swap st l r) l = op_get st r \<and> op_get (op_swap st l r) r = op_get st l"
  using assms by (auto simp: op_member_defs op_conv algebra_simps Let_def)

theorem offset_ptr_swap_witness:
  "(1000::address) \<noteq> 1008 \<and> op_get ((\<lambda>_. 1)(1000 := 24)) 1000 \<noteq> 1008 + 1
   \<and> op_get ((\<lambda>_. 1)(1000 := 24)) 1008 \<noteq> 1000 + 1
   \<and> op_get (op_swap ((\<lambda>_. 1)(1000 := 24)) 1000 1008) 1008 = 1024"
proof -
  have h: "(1000::address) \<noteq> 1008" "op_get ((\<lambda>_. 1)(1000 := 24)) 1000 \<noteq> 1008 + 1"
    "op_get ((\<lambda>_. 1)(1000 := 24)) 1008 \<noteq> 1000 + 1"
    by (simp_all add: op_get_def op_conv)
  then show ?thesis using offset_ptr_swap [OF h] by (simp add: op_get_def op_conv)
qed

end
