(* ===== verification/Message_Queue.thy ===== *)
theory Message_Queue
  imports Arith_Utils
begin

text \<open>
  The message queue of ipc/message\_queue.hpp. The header \<^verbatim>\<open>mq_hdr_t\<close> keeps an index of
  pointers to preallocated messages and uses it as a circular buffer: the \<^verbatim>\<open>m_cur_num_msg\<close>
  entries from \<^verbatim>\<open>m_cur_first_msg\<close> on, in circular order, are the queued messages by
  ascending priority, the others are free. A pointer into the index (an \<^verbatim>\<open>iterator\<close>) is a
  position, a pointer to a message is the number of its slot. Counters stay within
  \<^verbatim>\<open>m_max_num_msg\<close>, so they are naturals; the byte sizes of \<^verbatim>\<open>get_mem_size\<close>, where
  overflow matters, are 64-bit words.
\<close>

section \<open>Definitions\<close>

subsection \<open>Standard algorithms on the index array\<close>

text \<open>\<^verbatim>\<open>std::copy\<close> and \<^verbatim>\<open>std::copy_backward\<close> inside one array, element by element.\<close>

function std_copy :: "'a list \<Rightarrow> nat \<Rightarrow> nat \<Rightarrow> nat \<Rightarrow> 'a list" where
  "std_copy a first lst dest =
     (if first < lst then std_copy (a[dest := a ! first]) (Suc first) lst (Suc dest) else a)"
  by pat_completeness auto
termination
  by (relation "measure (\<lambda>(a, first, lst, dest). lst - first)") auto

function std_copy_backward :: "'a list \<Rightarrow> nat \<Rightarrow> nat \<Rightarrow> nat \<Rightarrow> 'a list" where
  "std_copy_backward a first lst dest_last =
     (if first < lst
      then std_copy_backward (a[dest_last - 1 := a ! (lst - 1)]) first (lst - 1) (dest_last - 1)
      else a)"
  by pat_completeness auto
termination
  by (relation "measure (\<lambda>(a, first, lst, dest_last). lst - first)") auto

text \<open>\<^verbatim>\<open>std::lower_bound\<close>: bisection; \<open>cmp x\<close> is the comparison of \<open>x\<close> with the value.\<close>

function std_lower_bound :: "('a \<Rightarrow> bool) \<Rightarrow> 'a list \<Rightarrow> nat \<Rightarrow> nat \<Rightarrow> nat" where
  "std_lower_bound cmp a first cnt =
     (if cnt = 0 then first
      else (let half = cnt div 2; mid = first + half
            in if cmp (a ! mid) then std_lower_bound cmp a (Suc mid) (cnt - half - 1)
               else std_lower_bound cmp a first half))"
  by pat_completeness auto
termination
  by (relation "measure (\<lambda>(cmp, a, first, cnt). cnt)") auto

declare std_copy.simps [simp del] std_copy_backward.simps [simp del] std_lower_bound.simps [simp del]

subsection \<open>The shared header\<close>

record msg_hdr_t =
  msg_len :: nat
  msg_priority :: uint32
  msg_data :: "byte list"

record mq_hdr_t =
  mp_index :: "nat list"
  m_max_num_msg :: nat
  m_max_msg_size :: nat
  m_cur_num_msg :: nat
  m_cur_first_msg :: nat
  m_blocked_senders :: nat
  m_blocked_receivers :: nat
  messages :: "msg_hdr_t list"

definition is_full :: "mq_hdr_t \<Rightarrow> bool" where
  "is_full q \<longleftrightarrow> m_cur_num_msg q = m_max_num_msg q"

definition is_empty :: "mq_hdr_t \<Rightarrow> bool" where
  "is_empty q \<longleftrightarrow> m_cur_num_msg q = 0"

definition free_top_msg :: "mq_hdr_t \<Rightarrow> mq_hdr_t" where
  "free_top_msg q = q\<lparr>m_cur_num_msg := m_cur_num_msg q - 1\<rparr>"

definition end_pos :: "mq_hdr_t \<Rightarrow> nat" where
  "end_pos q =
     (let space_until_bufend = m_max_num_msg q - m_cur_first_msg q
      in if space_until_bufend > m_cur_num_msg q then m_cur_first_msg q + m_cur_num_msg q
         else m_cur_num_msg q - space_until_bufend)"

definition top_msg :: "mq_hdr_t \<Rightarrow> nat" where
  "top_msg q =
     (let pos = end_pos q in mp_index q ! (if pos \<noteq> 0 then pos - 1 else m_max_num_msg q - 1))"

definition bottom_msg :: "mq_hdr_t \<Rightarrow> nat" where
  "bottom_msg q = mp_index q ! m_cur_first_msg q"

definition inserted_ptr_begin :: "mq_hdr_t \<Rightarrow> nat" where
  "inserted_ptr_begin q = m_cur_first_msg q"

definition inserted_ptr_end :: "mq_hdr_t \<Rightarrow> nat" where
  "inserted_ptr_end q = end_pos q"

text \<open>\<^verbatim>\<open>priority_functor\<close>: the message in a slot is ordered before a header of priority \<open>p\<close>.\<close>

definition priority_functor :: "mq_hdr_t \<Rightarrow> uint32 \<Rightarrow> nat \<Rightarrow> bool" where
  "priority_functor q p slot \<longleftrightarrow> msg_priority (messages q ! slot) < p"

definition mq_lower_bound :: "mq_hdr_t \<Rightarrow> uint32 \<Rightarrow> nat" where
  "mq_lower_bound q p =
     (let beg = inserted_ptr_begin q; en = inserted_ptr_end q
      in if en < beg
         then (let idx_end = m_max_num_msg q;
                   ret = std_lower_bound (priority_functor q p) (mp_index q) beg (idx_end - beg)
               in if idx_end = ret
                  then std_lower_bound (priority_functor q p) (mp_index q) 0 en
                  else ret)
         else std_lower_bound (priority_functor q p) (mp_index q) beg (en - beg))"

text \<open>
  \<^verbatim>\<open>insert_at\<close> makes room at a position of the circular range and returns the slot of the free
  message now there. It grows the range at whichever end is nearer, moving one or two segments.
\<close>

definition insert_at_front :: "mq_hdr_t \<Rightarrow> nat \<Rightarrow> mq_hdr_t \<times> nat" where
  "insert_at_front q position =
     (let pos = (if position = 0 then m_max_num_msg q else position);
          wher = (if position = 0 then m_max_num_msg q - 1 else position - 1);
          unique_segment = (m_cur_first_msg q \<noteq> 0 \<and> m_cur_first_msg q \<le> pos);
          first_segment_beg = (if unique_segment then m_cur_first_msg q else 1);
          first_segment_end = pos;
          second_segment_beg =
            (if unique_segment \<or> m_cur_first_msg q = 0 then m_max_num_msg q else m_cur_first_msg q);
          second_segment_end = m_max_num_msg q;
          backup = mp_index q !
            ((if unique_segment then first_segment_beg else second_segment_beg) - 1);
          idx1 =
            (if unique_segment then mp_index q
             else (let i1 = std_copy (mp_index q) second_segment_beg second_segment_end
                              (second_segment_beg - 1)
                   in i1[m_max_num_msg q - 1 := i1 ! 0]));
          idx2 = std_copy idx1 first_segment_beg first_segment_end (first_segment_beg - 1);
          idx3 = idx2[wher := backup];
          first = (if m_cur_first_msg q \<noteq> 0 then m_cur_first_msg q else m_max_num_msg q) - 1
      in (q\<lparr>mp_index := idx3, m_cur_first_msg := first, m_cur_num_msg := m_cur_num_msg q + 1\<rparr>,
          idx3 ! wher))"

definition insert_at_back :: "mq_hdr_t \<Rightarrow> nat \<Rightarrow> mq_hdr_t \<times> nat" where
  "insert_at_back q pos =
     (let pos_end = end_pos q;
          unique_segment = pos < pos_end;
          first_segment_beg = pos;
          first_segment_end = (if unique_segment then pos_end else m_max_num_msg q - 1);
          second_segment_beg = 0;
          second_segment_end = (if unique_segment then 0 else pos_end);
          backup = mp_index q ! inserted_ptr_end q;
          idx1 =
            (if unique_segment then mp_index q
             else (let i1 = std_copy_backward (mp_index q) second_segment_beg second_segment_end
                              (second_segment_end + 1)
                   in i1[0 := i1 ! (m_max_num_msg q - 1)]));
          idx2 = std_copy_backward idx1 first_segment_beg first_segment_end (first_segment_end + 1);
          idx3 = idx2[pos := backup]
      in (q\<lparr>mp_index := idx3, m_cur_num_msg := m_cur_num_msg q + 1\<rparr>, idx3 ! pos))"

definition insert_at :: "mq_hdr_t \<Rightarrow> nat \<Rightarrow> mq_hdr_t \<times> nat" where
  "insert_at q wher =
     (let it_inserted_ptr_end = inserted_ptr_end q;
          it_inserted_ptr_beg = inserted_ptr_begin q
      in if wher = it_inserted_ptr_beg
         then (let first = (if m_cur_first_msg q \<noteq> 0 then m_cur_first_msg q
                            else m_max_num_msg q) - 1
               in (q\<lparr>m_cur_first_msg := first, m_cur_num_msg := m_cur_num_msg q + 1\<rparr>,
                   mp_index q ! first))
         else if wher = it_inserted_ptr_end
         then (q\<lparr>m_cur_num_msg := m_cur_num_msg q + 1\<rparr>, mp_index q ! it_inserted_ptr_end)
         else (let pos = wher;
                   circ_pos = (if pos \<ge> m_cur_first_msg q then pos - m_cur_first_msg q
                               else pos + (m_max_num_msg q - m_cur_first_msg q))
               in if circ_pos < m_cur_num_msg q div 2 then insert_at_front q pos
                  else insert_at_back q pos))"

definition queue_free_msg :: "mq_hdr_t \<Rightarrow> uint32 \<Rightarrow> mq_hdr_t \<times> nat" where
  "queue_free_msg q p =
     (let it = inserted_ptr_begin q; it_end = inserted_ptr_end q;
          it = (if m_cur_num_msg q \<noteq> 0 \<and> p > msg_priority (messages q ! bottom_msg q)
                then (if p > msg_priority (messages q ! top_msg q) then it_end
                      else mq_lower_bound q p)
                else it)
      in insert_at q it)"

text \<open>\<^verbatim>\<open>initialize_memory\<close> on fresh (zeroed) shared memory, and the constructor.\<close>

definition initialize_memory :: "mq_hdr_t \<Rightarrow> mq_hdr_t" where
  "initialize_memory q =
     q\<lparr>mp_index := [0..<m_max_num_msg q],
       messages := replicate (m_max_num_msg q)
         \<lparr>msg_len = 0, msg_priority = 0, msg_data = replicate (m_max_msg_size q) 0\<rparr>\<rparr>"

definition mq_construct :: "nat \<Rightarrow> nat \<Rightarrow> mq_hdr_t" where
  "mq_construct max_num_msg max_msg_size =
     initialize_memory
       \<lparr>mp_index = [], m_max_num_msg = max_num_msg, m_max_msg_size = max_msg_size,
        m_cur_num_msg = 0, m_cur_first_msg = 0, m_blocked_senders = 0, m_blocked_receivers = 0,
        messages = []\<rparr>"

subsection \<open>Sending and receiving\<close>

datatype mqblock_types = blocking | timed | non_blocking

text \<open>
  A call runs under the queue's mutex up to a wait on a condition variable. It ends by returning a
  Boolean, with a note whether it signals the other side after leaving the mutex, or it waits.
\<close>

datatype 'a outcome = Returned 'a bool | Waiting

text \<open>The part of \<^verbatim>\<open>do_send\<close> after the blocking logic.\<close>

definition send_finish :: "mq_hdr_t \<Rightarrow> byte list \<Rightarrow> uint32 \<Rightarrow> mq_hdr_t \<times> bool outcome" where
  "send_finish q buffer p =
     (let notify_blocked_receivers = (m_blocked_receivers q \<noteq> 0);
          (q1, slot) = queue_free_msg q p;
          old = messages q1 ! slot;
          new = old\<lparr>msg_priority := p, msg_len := length buffer,
                    msg_data := buffer @ drop (length buffer) (msg_data old)\<rparr>
      in (q1\<lparr>messages := (messages q1)[slot := new]\<rparr>, Returned True notify_blocked_receivers))"

definition do_send ::
  "mqblock_types \<Rightarrow> mq_hdr_t \<Rightarrow> byte list \<Rightarrow> uint32 \<Rightarrow> (mq_hdr_t \<times> bool outcome) result" where
  "do_send Block q buffer p =
     (if length buffer > m_max_msg_size q then Inl (interprocess_exception size_error)
      else if is_full q
      then (let q1 = q\<lparr>m_blocked_senders := m_blocked_senders q + 1\<rparr>
            in case Block of
                 non_blocking \<Rightarrow>
                   Inr (q1\<lparr>m_blocked_senders := m_blocked_senders q1 - 1\<rparr>, Returned False False)
               | blocking \<Rightarrow> Inr (q1, Waiting)
               | timed \<Rightarrow> Inr (q1, Waiting))
      else Inr (send_finish q buffer p))"

text \<open>
  One iteration of the wait loop: the condition wait returned, with \<open>timed_out\<close> the negation of its
  result, and the thread holds the mutex again.
\<close>

definition do_send_resume ::
  "mqblock_types \<Rightarrow> bool \<Rightarrow> mq_hdr_t \<Rightarrow> byte list \<Rightarrow> uint32 \<Rightarrow> mq_hdr_t \<times> bool outcome" where
  "do_send_resume Block timed_out q buffer p =
     (if Block = timed \<and> timed_out \<and> is_full q
      then (q\<lparr>m_blocked_senders := m_blocked_senders q - 1\<rparr>, Returned False False)
      else if is_full q then (q, Waiting)
      else send_finish (q\<lparr>m_blocked_senders := m_blocked_senders q - 1\<rparr>) buffer p)"

definition receive_finish ::
  "mq_hdr_t \<Rightarrow> mq_hdr_t \<times> (nat \<times> uint32 \<times> byte list) option outcome" where
  "receive_finish q =
     (let notify_blocked_senders = (m_blocked_senders q \<noteq> 0);
          slot = top_msg q;
          top = messages q ! slot;
          recvd_size = msg_len top;
          p = msg_priority top;
          q1 = q\<lparr>messages := (messages q)[slot := top\<lparr>msg_len := 0, msg_priority := 0\<rparr>]\<rparr>;
          received = take recvd_size (msg_data top)
      in (free_top_msg q1, Returned (Some (recvd_size, p, received)) notify_blocked_senders))"

definition do_receive ::
  "mqblock_types \<Rightarrow> mq_hdr_t \<Rightarrow> nat \<Rightarrow>
     (mq_hdr_t \<times> (nat \<times> uint32 \<times> byte list) option outcome) result" where
  "do_receive Block q buffer_size =
     (if buffer_size < m_max_msg_size q then Inl (interprocess_exception size_error)
      else if is_empty q
      then (let q1 = q\<lparr>m_blocked_receivers := m_blocked_receivers q + 1\<rparr>
            in case Block of
                 non_blocking \<Rightarrow>
                   Inr (q1\<lparr>m_blocked_receivers := m_blocked_receivers q1 - 1\<rparr>, Returned None False)
               | blocking \<Rightarrow> Inr (q1, Waiting)
               | timed \<Rightarrow> Inr (q1, Waiting))
      else Inr (receive_finish q))"

definition do_receive_resume ::
  "mqblock_types \<Rightarrow> bool \<Rightarrow> mq_hdr_t \<Rightarrow>
     mq_hdr_t \<times> (nat \<times> uint32 \<times> byte list) option outcome" where
  "do_receive_resume Block timed_out q =
     (if Block = timed \<and> timed_out \<and> is_empty q
      then (q\<lparr>m_blocked_receivers := m_blocked_receivers q - 1\<rparr>, Returned None False)
      else if is_empty q then (q, Waiting)
      else receive_finish (q\<lparr>m_blocked_receivers := m_blocked_receivers q - 1\<rparr>))"

text \<open>
  The public calls. \<^verbatim>\<open>timed_send\<close> and \<^verbatim>\<open>timed_receive\<close> with an infinite time point
  are the blocking calls.
\<close>

definition send :: "mq_hdr_t \<Rightarrow> byte list \<Rightarrow> uint32 \<Rightarrow> (mq_hdr_t \<times> bool outcome) result" where
  "send q buffer p = do_send blocking q buffer p"

definition timed_send ::
  "bool \<Rightarrow> mq_hdr_t \<Rightarrow> byte list \<Rightarrow> uint32 \<Rightarrow> (mq_hdr_t \<times> bool outcome) result" where
  "timed_send is_pos_infinity q buffer p =
     (if is_pos_infinity then send q buffer p else do_send timed q buffer p)"

definition receive ::
  "mq_hdr_t \<Rightarrow> nat \<Rightarrow> (mq_hdr_t \<times> (nat \<times> uint32 \<times> byte list) option outcome) result" where
  "receive q buffer_size = do_receive blocking q buffer_size"

definition timed_receive ::
  "bool \<Rightarrow> mq_hdr_t \<Rightarrow> nat \<Rightarrow>
     (mq_hdr_t \<times> (nat \<times> uint32 \<times> byte list) option outcome) result" where
  "timed_receive is_pos_infinity q buffer_size =
     (if is_pos_infinity then receive q buffer_size else do_receive timed q buffer_size)"

definition try_send ::
  "mq_hdr_t \<Rightarrow> byte list \<Rightarrow> uint32 \<Rightarrow> (mq_hdr_t \<times> bool outcome) result" where
  "try_send q buffer p = do_send non_blocking q buffer p"

definition try_receive ::
  "mq_hdr_t \<Rightarrow> nat \<Rightarrow> (mq_hdr_t \<times> (nat \<times> uint32 \<times> byte list) option outcome) result" where
  "try_receive q buffer_size = do_receive non_blocking q buffer_size"

definition get_max_msg :: "mq_hdr_t option \<Rightarrow> nat" where
  "get_max_msg p_hdr = (case p_hdr of None \<Rightarrow> 0 | Some q \<Rightarrow> m_max_num_msg q)"

definition get_max_msg_size :: "mq_hdr_t option \<Rightarrow> nat" where
  "get_max_msg_size p_hdr = (case p_hdr of None \<Rightarrow> 0 | Some q \<Rightarrow> m_max_msg_size q)"

definition get_num_msg :: "mq_hdr_t option \<Rightarrow> nat" where
  "get_num_msg p_hdr = (case p_hdr of None \<Rightarrow> 0 | Some q \<Rightarrow> m_cur_num_msg q)"

section \<open>Block moves and bisection\<close>

lemma length_std_copy [simp]: "length (std_copy a f l d) = length a"
  by (induction a f l d rule: std_copy.induct) (subst std_copy.simps, simp)

lemma length_std_copy_backward [simp]: "length (std_copy_backward a f l d) = length a"
  by (induction a f l d rule: std_copy_backward.induct) (subst std_copy_backward.simps, simp)

lemma nth_std_copy_down [list_shift]:
  assumes "0 < f" and "l \<le> length a" and "i < length a"
  shows "std_copy a f l (f - 1) ! i = (if f \<le> Suc i \<and> Suc i < l then a ! Suc i else a ! i)"
  using assms
proof (induction "l - f" arbitrary: a f)
  case 0
  then have "std_copy a f l (f - 1) = a" by (subst std_copy.simps) simp
  with 0 show ?case by auto
next
  case (Suc d)
  then have lt: "f < l" by simp
  let ?a = "a[f - 1 := a ! f]"
  have "std_copy a f l (f - 1) = std_copy ?a (Suc f) l (Suc f - 1)"
    using lt Suc.prems by (subst std_copy.simps) simp
  moreover have "std_copy ?a (Suc f) l (Suc f - 1) ! i
      = (if Suc f \<le> Suc i \<and> Suc i < l then ?a ! Suc i else ?a ! i)"
    using Suc.hyps(2) Suc.prems by (intro Suc.hyps(1)) auto
  ultimately show ?case using lt Suc.prems by (auto simp: nth_list_update)
qed

lemma nth_std_copy_backward_up [list_shift]:
  assumes "l < length a" and "i < length a"
  shows "std_copy_backward a f l (Suc l) ! i = (if f < i \<and> i \<le> l then a ! (i - 1) else a ! i)"
  using assms
proof (induction "l - f" arbitrary: a l)
  case 0
  then have "std_copy_backward a f l (Suc l) = a" by (subst std_copy_backward.simps) simp
  with 0 show ?case by auto
next
  case (Suc d)
  then have lt: "f < l" by simp
  let ?a = "a[l := a ! (l - 1)]"
  have "std_copy_backward a f l (Suc l) = std_copy_backward ?a f (l - 1) (Suc (l - 1))"
    using lt Suc.prems by (subst std_copy_backward.simps) simp
  moreover have "std_copy_backward ?a f (l - 1) (Suc (l - 1)) ! i
      = (if f < i \<and> i \<le> l - 1 then ?a ! (i - 1) else ?a ! i)"
    using Suc.hyps(2) Suc.prems by (intro Suc.hyps(1)) auto
  ultimately show ?case using lt Suc.prems by (auto simp: nth_list_update)
qed

definition lower_bound_at :: "('a \<Rightarrow> bool) \<Rightarrow> 'a list \<Rightarrow> nat \<Rightarrow> nat \<Rightarrow> nat \<Rightarrow> bool" where
  "lower_bound_at cmp a f e r \<longleftrightarrow> f \<le> r \<and> r \<le> e
     \<and> (\<forall>i. f \<le> i \<longrightarrow> i < r \<longrightarrow> cmp (a ! i)) \<and> (\<forall>i. r \<le> i \<longrightarrow> i < e \<longrightarrow> \<not> cmp (a ! i))"

lemma std_lower_bound_spec:
  assumes "\<And>i j. f \<le> i \<Longrightarrow> i \<le> j \<Longrightarrow> j < f + n \<Longrightarrow> cmp (a ! j) \<Longrightarrow> cmp (a ! i)"
  shows "lower_bound_at cmp a f (f + n) (std_lower_bound cmp a f n)"
  using assms
proof (induction n arbitrary: f rule: less_induct)
  case (less n)
  let ?m = "f + n div 2" and ?r = "std_lower_bound cmp a f n"
  consider "n = 0" | "n \<noteq> 0" "cmp (a ! ?m)" | "n \<noteq> 0" "\<not> cmp (a ! ?m)" by blast
  then show ?case
  proof cases
    case 1
    then show ?thesis by (simp add: std_lower_bound.simps lower_bound_at_def)
  next
    case 2
    let ?k = "n - n div 2 - 1"
    have e: "?r = std_lower_bound cmp a (Suc ?m) ?k"
      using 2 by (simp add: std_lower_bound.simps [of cmp a f n] Let_def)
    have k: "Suc ?m + ?k = f + n" using 2 by simp
    have "lower_bound_at cmp a (Suc ?m) (Suc ?m + ?k) ?r"
      unfolding e using 2 by (intro less.IH) (auto intro: less.prems)
    then have r: "Suc ?m \<le> ?r" "?r \<le> f + n" "\<And>i. Suc ?m \<le> i \<Longrightarrow> i < ?r \<Longrightarrow> cmp (a ! i)"
      "\<And>i. ?r \<le> i \<Longrightarrow> i < f + n \<Longrightarrow> \<not> cmp (a ! i)"
      unfolding k lower_bound_at_def by blast+
    have c: "cmp (a ! i)" if "f \<le> i" "i \<le> ?m" for i
      using less.prems [of i ?m] that 2 by auto
    have "cmp (a ! i)" if "f \<le> i" "i < ?r" for i
      using c [of i] r(3) [of i] that by linarith
    then show ?thesis using r(1,2,4) unfolding lower_bound_at_def by auto
  next
    case 3
    have e: "?r = std_lower_bound cmp a f (n div 2)"
      using 3 by (simp add: std_lower_bound.simps [of cmp a f n] Let_def)
    have "lower_bound_at cmp a f ?m ?r"
      unfolding e using 3 by (intro less.IH) (auto intro: less.prems)
    then have r: "f \<le> ?r" "?r \<le> ?m" "\<And>i. f \<le> i \<Longrightarrow> i < ?r \<Longrightarrow> cmp (a ! i)"
      "\<And>i. ?r \<le> i \<Longrightarrow> i < ?m \<Longrightarrow> \<not> cmp (a ! i)"
      unfolding lower_bound_at_def by blast+
    have c: "\<not> cmp (a ! i)" if "?m \<le> i" "i < f + n" for i
      using less.prems [of ?m i] that 3 by auto
    have "\<not> cmp (a ! i)" if "?r \<le> i" "i < f + n" for i
      using c [of i] r(4) [of i] that by linarith
    moreover have "?m \<le> f + n" by simp
    ultimately show ?thesis using r(1-3) unfolding lower_bound_at_def by (meson le_trans)
  qed
qed

section \<open>The circular index\<close>

text \<open>The whole index in circular order from \<^verbatim>\<open>m_cur_first_msg\<close>: used slots, then free ones.\<close>

definition circ :: "mq_hdr_t \<Rightarrow> nat list" where
  "circ q = rotate (m_cur_first_msg q) (mp_index q)"

definition circ_pos :: "mq_hdr_t \<Rightarrow> nat \<Rightarrow> nat" where
  "circ_pos q k = (m_cur_first_msg q + k) mod m_max_num_msg q"

definition ring_ok :: "mq_hdr_t \<Rightarrow> bool" where
  "ring_ok q \<longleftrightarrow> length (mp_index q) = m_max_num_msg q
     \<and> (m_max_num_msg q = 0 \<or> m_cur_first_msg q < m_max_num_msg q)
     \<and> m_cur_num_msg q \<le> m_max_num_msg q"

abbreviation wrap :: "nat \<Rightarrow> nat \<Rightarrow> nat" where
  "wrap N i \<equiv> (if i < N then i else i - N)"

lemma wrap_mod: "F < N \<Longrightarrow> i < N \<Longrightarrow> (F + i) mod N = wrap N (F + i)"
  for F i N :: nat
  by (simp add: mod_if)

lemma nth_circ:
  assumes "ring_ok q" "i < m_max_num_msg q"
  shows "circ q ! i = mp_index q ! wrap (m_max_num_msg q) (m_cur_first_msg q + i)"
  using assms by (auto simp: circ_def ring_ok_def nth_rotate wrap_mod)

lemma length_circ: "ring_ok q \<Longrightarrow> length (circ q) = m_max_num_msg q"
  by (simp add: circ_def ring_ok_def)

lemma end_pos_circ:
  assumes "ring_ok q" "\<not> is_full q"
  shows "end_pos q = circ_pos q (m_cur_num_msg q)"
  using assms by (auto simp: end_pos_def circ_pos_def ring_ok_def is_full_def Let_def wrap_mod)

lemma circ_pos_eq_iff:
  assumes "ring_ok q" "j < m_max_num_msg q" "k < m_max_num_msg q"
  shows "circ_pos q j = circ_pos q k \<longleftrightarrow> j = k"
  using assms by (auto simp: circ_pos_def ring_ok_def wrap_mod split: if_splits)

lemma std_copy_empty [simp]: "std_copy a i i d = a"
  by (simp add: std_copy.simps)

lemma std_copy_backward_empty [simp]: "std_copy_backward a i i d = a"
  by (simp add: std_copy_backward.simps)

lemma nth_std_copy_down_Suc:
  assumes "l \<le> length a" and "i < length a"
  shows "std_copy a (Suc f) l f ! i = (if f \<le> i \<and> Suc i < l then a ! Suc i else a ! i)"
  using nth_std_copy_down [of "Suc f" l a i] assms by simp

lemma front_unique:
  assumes "length a = N" "Suc F < N" "0 < k" "Suc F + k \<le> N" "i < N"
  shows "(std_copy a (Suc F) (Suc F + k) F)[F + k := a ! F] ! wrap N (F + i) =
    (if i < k then a ! wrap N (Suc F + i) else if i = k then a ! wrap N (Suc F + (N - 1)) else a ! wrap N (Suc F + (i - 1)))"
proof -
  consider "i < k" | "i = k" | "k < i" "F + i < N" | "k < i" "F + i \<ge> N" by linarith
  then show ?thesis
    by cases (use assms in \<open>auto simp: nth_list_update nth_std_copy_down_Suc Suc_diff_le\<close>)
qed

lemma front_wrapped:
  assumes "length a = N" "Suc F < N" "k < N" "Suc F + k > N" "i < N"
  shows "(std_copy ((std_copy a (Suc F) N F)[N - 1 := a ! 0]) 1 (Suc F + k - N) 0)[F + k - N := a ! F] ! wrap N (F + i) =
    (if i < k then a ! wrap N (Suc F + i) else if i = k then a ! wrap N (Suc F + (N - 1)) else a ! wrap N (Suc F + (i - 1)))"
proof -
  consider "i < k" "F + i < N - 1" |  "i < k" "F + i = N - 1" |  "i < k" "F + i \<ge> N" | "i = k" | "k < i" "F + i < N" | "k < i" "F + i \<ge> N" by linarith
  then show ?thesis
    by cases (use assms in \<open>auto simp: nth_list_update nth_std_copy_down_Suc Suc_diff_le\<close>)
qed

lemma front_zero:
  assumes "length a = N" "0 < k" "k < N" "i < N"
  shows "(std_copy (a[N - 1 := a ! 0]) 1 k 0)[k - 1 := a ! (N - 1)] ! wrap N (N - 1 + i) =
    (if i < k then a ! i else if i = k then a ! (N - 1) else a ! (i - 1))"
proof -
  consider "i < k" "i = 0" | "i < k" "i > 0" | "i = k" | "k < i" by linarith
  then show ?thesis
    by cases (use assms in \<open>auto simp: nth_list_update nth_std_copy_down_Suc Suc_diff_le\<close>)
qed
lemma insert_at_front_circ:
  assumes "ring_ok q" "0 < k" "k < m_cur_num_msg q" "\<not> is_full q"
    and "insert_at_front q (circ_pos q k) = (q', s)"
  shows "ring_ok q' \<and> s = circ q ! (m_max_num_msg q - 1) \<and>
    (\<forall>i<m_max_num_msg q. circ q' ! i =
      (if i < k then circ q ! i else if i = k then circ q ! (m_max_num_msg q - 1) else circ q ! (i - 1)))"
proof -
  let ?F = "m_cur_first_msg q" and ?N = "m_max_num_msg q" and ?a = "mp_index q"
  let ?q = "\<lambda>a f. q\<lparr>mp_index := a, m_cur_first_msg := f, m_cur_num_msg := Suc (m_cur_num_msg q)\<rparr>"
  have b: "?F < ?N" "k < ?N" "m_cur_num_msg q < ?N" "length ?a = ?N" "0 < k"
    using assms by (auto simp: ring_ok_def is_full_def)
  have goal: ?thesis if q': "q' = ?q a f" and a: "length a = ?N" "f < ?N" and s: "s = circ q ! (?N - 1)"
    and n: "\<And>i. i < ?N \<Longrightarrow> a ! wrap ?N (f + i) =
      (if i < k then circ q ! i else if i = k then circ q ! (?N - 1) else circ q ! (i - 1))" for a f
  proof -
    have ok: "ring_ok q'" using a b by (simp add: ring_ok_def q')
    moreover have "circ q' ! i = a ! wrap ?N (f + i)" if "i < ?N" for i
      using nth_circ [OF ok, of i] that by (simp add: q')
    ultimately show ?thesis using s n by simp
  qed
  consider (unique) G where "?F = Suc G" "Suc G + k \<le> ?N" | (wrapped) G where "?F = Suc G" "Suc G + k > ?N"
    | (zero) "?F = 0"
    by (meson not0_implies_Suc not_le)
  then show ?thesis
  proof cases
    case unique
    have g: "?N - Suc 0 = G + k" if "Suc (G + k) = ?N" using that by simp
    have h: "q' = ?q ((std_copy ?a (Suc G) (Suc G + k) G)[G + k := ?a ! G]) G \<and> s = ?a ! G"
      using assms(5) b unique g
      by (cases "Suc G + k = ?N") (auto simp: insert_at_front_def Let_def circ_pos_def wrap_mod)
    show ?thesis
      using b unique h front_unique [of ?a ?N G k]
      by (intro goal [OF conjunct1 [OF h]]) (simp_all add: nth_circ [OF assms(1)])
  next
    case wrapped
    have p: "circ_pos q k = Suc (G + k - ?N)" "\<not> G \<le> G + k - ?N" "G \<noteq> 0"
      "Suc G + k - ?N = Suc (G + k - ?N)"
      using b wrapped wrap_mod [of "Suc G" ?N k] by (simp_all add: circ_pos_def Suc_diff_le)
    have h: "q' = ?q ((std_copy ((std_copy ?a (Suc G) ?N G)[?N - 1 := ?a ! 0]) 1 (Suc G + k - ?N) 0)
        [G + k - ?N := ?a ! G]) G \<and> s = ?a ! G"
      using assms(5) b wrapped(1) unfolding insert_at_front_def Let_def p
      by (auto simp add: p nth_std_copy_down_Suc)
    show ?thesis
      using b wrapped h front_wrapped [of ?a ?N G k]
      by (intro goal [OF conjunct1 [OF h]]) (simp_all add: nth_circ [OF assms(1)])
  next
    case zero
    have h: "q' = ?q ((std_copy (?a[?N - 1 := ?a ! 0]) 1 k 0)[k - 1 := ?a ! (?N - 1)]) (?N - 1) \<and>
      s = ?a ! (?N - 1)"
      using assms(5) b zero by (auto simp: insert_at_front_def Let_def circ_pos_def)
    show ?thesis
      using b zero h front_zero [of ?a ?N k]
      by (intro goal [OF conjunct1 [OF h]]) (simp_all add: nth_circ [OF assms(1)])
  qed
qed

lemma nth_std_copy_backward_up' [list_shift]:
  assumes "0 < n" and "n \<le> length a" and "i < length a"
  shows "std_copy_backward a f (n - Suc 0) n ! i = (if f < i \<and> i < n then a ! (i - 1) else a ! i)"
  using nth_std_copy_backward_up [of "n - 1" a i f] assms by (auto simp: Suc_le_eq)

lemma back_straight:
  assumes "length a = N" "k < C" "F + C < N" "i < N"
  shows "(std_copy_backward a (F + k) (F + C) (Suc (F + C)))[F + k := a ! (F + C)] ! wrap N (F + i) =
    (if i = k then a ! wrap N (F + C) else if k < i \<and> i \<le> C then a ! wrap N (F + (i - 1))
     else a ! wrap N (F + i))"
proof -
  consider "i = k" | "i < k" | "k < i" "i \<le> C" | "C < i" "F + i < N" | "C < i" "F + i \<ge> N" by linarith
  then show ?thesis
    by cases (use assms in \<open>auto simp: nth_list_update nth_std_copy_backward_up Suc_diff_le\<close>)
qed

lemma back_both_wrapped:
  assumes "length a = N" "k < C" "C < N" "F < N" "N \<le> F + k" "i < N"
  shows "(std_copy_backward a (F + k - N) (F + C - N) (Suc (F + C - N)))[F + k - N := a ! (F + C - N)]
      ! wrap N (F + i) =
    (if i = k then a ! wrap N (F + C) else if k < i \<and> i \<le> C then a ! wrap N (F + (i - 1))
     else a ! wrap N (F + i))"
proof -
  consider "i = k" | "i < k" "F + i < N" | "i < k" "F + i \<ge> N" | "k < i" "i \<le> C" | "C < i" by linarith
  then show ?thesis
    by cases (use assms in \<open>auto simp: nth_list_update nth_std_copy_backward_up Suc_diff_le\<close>)
qed

lemma back_wrapped:
  assumes "length a = N" "k < C" "C < N" "F < N" "F + k < N" "N \<le> F + C" "i < N"
  shows "(std_copy_backward ((std_copy_backward a 0 (F + C - N) (Suc (F + C - N)))[0 := a ! (N - Suc 0)])
      (F + k) (N - Suc 0) N)[F + k := a ! (F + C - N)] ! wrap N (F + i) =
    (if i = k then a ! wrap N (F + C) else if k < i \<and> i \<le> C then a ! wrap N (F + (i - 1))
     else a ! wrap N (F + i))"
proof -
  consider "i = k" | "i < k" | "k < i" "F + i < N" | "F + i = N" "k < i" "i \<le> C"
    | "F + i > N" "k < i" "i \<le> C" | "C < i" using assms by linarith
  then show ?thesis
    by cases (use assms in \<open>auto simp: nth_list_update nth_std_copy_backward_up
        nth_std_copy_backward_up' Suc_diff_le\<close>)
qed

lemma insert_at_back_circ:
  assumes "ring_ok q" "k < m_cur_num_msg q" "\<not> is_full q"
    and "insert_at_back q (circ_pos q k) = (q', s)"
  shows "ring_ok q' \<and> s = circ q ! m_cur_num_msg q \<and>
    (\<forall>i<m_max_num_msg q. circ q' ! i =
      (if i = k then circ q ! m_cur_num_msg q
       else if k < i \<and> i \<le> m_cur_num_msg q then circ q ! (i - 1) else circ q ! i))"
proof -
  let ?F = "m_cur_first_msg q" and ?N = "m_max_num_msg q" and ?a = "mp_index q"
    and ?C = "m_cur_num_msg q"
  let ?q = "\<lambda>a. q\<lparr>mp_index := a, m_cur_num_msg := Suc (m_cur_num_msg q)\<rparr>"
  have b: "?F < ?N" "k < ?N" "?C < ?N" "length ?a = ?N" "k < ?C"
    using assms by (auto simp: ring_ok_def is_full_def)
  have e: "end_pos q = wrap ?N (?F + ?C)" using b by (auto simp: end_pos_def Let_def)
  have goal: ?thesis if q': "q' = ?q a" and a: "length a = ?N" and s: "s = circ q ! ?C"
    and n: "\<And>i. i < ?N \<Longrightarrow> a ! wrap ?N (?F + i) =
      (if i = k then circ q ! ?C else if k < i \<and> i \<le> ?C then circ q ! (i - 1) else circ q ! i)" for a
  proof -
    have ok: "ring_ok q'" using a b by (simp add: ring_ok_def q')
    moreover have "circ q' ! i = a ! wrap ?N (?F + i)" if "i < ?N" for i
      using nth_circ [OF ok, of i] that by (simp add: q')
    ultimately show ?thesis using s n by simp
  qed
  consider (straight) "?F + ?C < ?N" | (both_wrapped) "?N \<le> ?F + k"
    | (wrapped) "?F + k < ?N" "?N \<le> ?F + ?C" by linarith
  then show ?thesis
  proof cases
    case straight
    have h: "q' = ?q ((std_copy_backward ?a (?F + k) (?F + ?C) (Suc (?F + ?C)))[?F + k := ?a ! (?F + ?C)]) \<and>
      s = ?a ! (?F + ?C)"
      using assms(4) b straight
      by (auto simp: insert_at_back_def Let_def circ_pos_def wrap_mod e inserted_ptr_end_def)
    show ?thesis
      using b straight h back_straight [of ?a ?N k ?C ?F]
      by (intro goal [OF conjunct1 [OF h]]) (simp_all add: nth_circ [OF assms(1)])
  next
    case both_wrapped
    have h: "q' = ?q ((std_copy_backward ?a (?F + k - ?N) (?F + ?C - ?N) (Suc (?F + ?C - ?N)))
        [?F + k - ?N := ?a ! (?F + ?C - ?N)]) \<and> s = ?a ! (?F + ?C - ?N)"
      using assms(4) b both_wrapped
      by (auto simp: insert_at_back_def Let_def circ_pos_def wrap_mod e inserted_ptr_end_def)
    show ?thesis
      using b both_wrapped h back_both_wrapped [of ?a ?N k ?C ?F]
      by (intro goal [OF conjunct1 [OF h]]) (simp_all add: nth_circ [OF assms(1)])
  next
    case wrapped
    have h: "q' = ?q ((std_copy_backward
          ((std_copy_backward ?a 0 (?F + ?C - ?N) (Suc (?F + ?C - ?N)))[0 := ?a ! (?N - Suc 0)])
          (?F + k) (?N - Suc 0) ?N)[?F + k := ?a ! (?F + ?C - ?N)]) \<and> s = ?a ! (?F + ?C - ?N)"
      using assms(4) b wrapped
      by (auto simp: insert_at_back_def Let_def circ_pos_def wrap_mod e inserted_ptr_end_def
          nth_std_copy_backward_up)
    show ?thesis
      using b wrapped h back_wrapped [of ?a ?N k ?C ?F]
      by (intro goal [OF conjunct1 [OF h]]) (simp_all add: nth_circ [OF assms(1)])
  qed
qed

definition used :: "mq_hdr_t \<Rightarrow> nat list" where
  "used q = take (m_cur_num_msg q) (circ q)"

definition free :: "mq_hdr_t \<Rightarrow> nat list" where
  "free q = drop (m_cur_num_msg q) (circ q)"

lemma front_as_list:
  assumes "length R = N" "length R' = N" "k < N"
    and "\<forall>i<N. R' ! i = (if i < k then R ! i else if i = k then R ! (N - 1) else R ! (i - 1))"
  shows "R' = take k R @ R ! (N - 1) # drop k (take (N - 1) R)"
proof (rule nth_equalityI)
  fix i assume "i < length R'"
  moreover consider "i < k" | "i = k" | d where "i = Suc (k + d)"
    by (metis less_imp_Suc_add linorder_neqE_nat)
  ultimately show "R' ! i = (take k R @ R ! (N - 1) # drop k (take (N - 1) R)) ! i"
    using assms by cases (auto simp: nth_append add.commute)
qed (use assms in simp)

lemma back_as_list:
  assumes "length R = N" "length R' = N" "k \<le> C" "C < N"
    and "\<forall>i<N. R' ! i = (if i = k then R ! C else if k < i \<and> i \<le> C then R ! (i - 1) else R ! i)"
  shows "R' = take k R @ R ! C # drop k (take C R) @ drop (Suc C) R"
proof (rule nth_equalityI)
  fix i assume i: "i < length R'"
  obtain m where C: "C = k + m" using assms(3) le_Suc_ex by blast
  have n: "R' ! i = (if i = k then R ! C else if k < i \<and> i \<le> C then R ! (i - 1) else R ! i)"
    using assms(2,5) i by simp
  consider "i < k" | "i = k" | d where "i = Suc (k + d)" "d < m" | d where "i = Suc (k + (m + d))"
    by (metis less_imp_Suc_add linorder_neqE_nat le_Suc_ex not_less)
  then show "R' ! i = (take k R @ R ! C # drop k (take C R) @ drop (Suc C) R) ! i"
    unfolding n using assms(1-4) C i by cases (simp_all add: nth_append ac_simps)
qed (use assms in simp)

definition one_more :: "mq_hdr_t \<Rightarrow> mq_hdr_t \<Rightarrow> bool" where
  "one_more q q' \<longleftrightarrow> m_cur_num_msg q' = Suc (m_cur_num_msg q) \<and> m_max_num_msg q' = m_max_num_msg q
     \<and> m_max_msg_size q' = m_max_msg_size q \<and> messages q' = messages q
     \<and> m_blocked_senders q' = m_blocked_senders q \<and> m_blocked_receivers q' = m_blocked_receivers q"

text \<open>
  Both growth directions give the same outcome: the free slot picked joins the used ones at place
  \<open>k\<close>, and nothing else changes place among them.
\<close>

definition grown :: "mq_hdr_t \<Rightarrow> nat \<Rightarrow> mq_hdr_t \<Rightarrow> nat \<Rightarrow> bool" where
  "grown q k q' s \<longleftrightarrow> ring_ok q' \<and> used q' = take k (used q) @ s # drop k (used q)
     \<and> mset (free q) = add_mset s (mset (free q'))
     \<and> one_more q q'"

lemma grown_front:
  assumes "ring_ok q" "k \<le> m_cur_num_msg q" "\<not> is_full q" "ring_ok q'"
    and "s = circ q ! (m_max_num_msg q - 1)"
    and "one_more q q'"
    and "\<forall>i<m_max_num_msg q. circ q' ! i =
      (if i < k then circ q ! i else if i = k then circ q ! (m_max_num_msg q - 1) else circ q ! (i - 1))"
  shows "grown q k q' s"
proof -
  let ?R = "circ q" and ?N = "m_max_num_msg q" and ?C = "m_cur_num_msg q"
  have b: "length ?R = ?N" "length (circ q') = ?N" "?C < ?N" "m_cur_num_msg q' = Suc ?C"
    using assms length_circ [of q] length_circ [of q'] by (auto simp: ring_ok_def is_full_def one_more_def)
  have R': "circ q' = take k ?R @ s # drop k (take (?N - 1) ?R)"
    using front_as_list [OF b(1,2) _ assms(7)] b assms(2,5) by simp
  have "?R = take (?N - 1) ?R @ [s]"
    using b assms(5) take_Suc_conv_app_nth [of "?N - 1" ?R] by simp
  then have "drop ?C ?R = drop ?C (take (?N - 1) ?R @ [s])" by simp
  also have "\<dots> = drop ?C (take (?N - 1) ?R) @ [s]" using b by simp
  finally have "drop ?C ?R = drop ?C (take (?N - 1) ?R) @ [s]" .
  then show ?thesis
    using assms(2,4,6) b by (simp add: grown_def used_def free_def R' take_drop min_def Suc_diff_le)
qed

lemma grown_back:
  assumes "ring_ok q" "k \<le> m_cur_num_msg q" "\<not> is_full q" "ring_ok q'"
    and "s = circ q ! m_cur_num_msg q"
    and "one_more q q'"
    and "\<forall>i<m_max_num_msg q. circ q' ! i = (if i = k then circ q ! m_cur_num_msg q
       else if k < i \<and> i \<le> m_cur_num_msg q then circ q ! (i - 1) else circ q ! i)"
  shows "grown q k q' s"
proof -
  let ?R = "circ q" and ?N = "m_max_num_msg q" and ?C = "m_cur_num_msg q"
  have b: "length ?R = ?N" "length (circ q') = ?N" "?C < ?N" "m_cur_num_msg q' = Suc ?C"
    using assms length_circ [of q] length_circ [of q'] by (auto simp: ring_ok_def is_full_def one_more_def)
  have R': "circ q' = take k ?R @ s # drop k (take ?C ?R) @ drop (Suc ?C) ?R"
    using back_as_list [OF b(1,2) assms(2) b(3) assms(7)] assms(5) by simp
  have "drop ?C ?R = s # drop (Suc ?C) ?R"
    using b assms(5) by (simp add: Cons_nth_drop_Suc)
  then show ?thesis
    using assms(2,4,6) b by (simp add: grown_def used_def free_def R' take_drop min_def Suc_diff_le)
qed

lemma insert_at_grown:
  assumes q: "ring_ok q" "k \<le> m_cur_num_msg q" "\<not> is_full q"
    and "insert_at q (circ_pos q k) = (q', s)"
  shows "grown q k q' s"
proof -
  let ?F = "m_cur_first_msg q" and ?N = "m_max_num_msg q" and ?C = "m_cur_num_msg q"
  have b: "?F < ?N" "?C < ?N" "length (mp_index q) = ?N"
    using q by (auto simp: ring_ok_def is_full_def)
  have beg: "circ_pos q k = ?F \<longleftrightarrow> k = 0" and en: "circ_pos q k = end_pos q \<longleftrightarrow> k = ?C"
    using circ_pos_eq_iff [OF q(1), of k 0] circ_pos_eq_iff [OF q(1), of k ?C] q b end_pos_circ [OF q(1,3)]
    by (auto simp: circ_pos_def)
  have rec: "one_more q q'"
    using assms(4) unfolding insert_at_def insert_at_front_def insert_at_back_def Let_def one_more_def
    by (auto split: if_splits)
  consider (beg) "k = 0" | (en) "k \<noteq> 0" "k = ?C" | (mid) "0 < k" "k < ?C" using q by linarith
  then show ?thesis
  proof cases
    case beg
    let ?f = "(if ?F \<noteq> 0 then ?F else ?N) - 1"
    have e: "q' = q\<lparr>m_cur_first_msg := ?f, m_cur_num_msg := Suc ?C\<rparr>" "s = mp_index q ! ?f"
      using assms(4) beg \<open>circ_pos q k = ?F \<longleftrightarrow> k = 0\<close>
      by (simp_all add: insert_at_def inserted_ptr_begin_def Let_def)
    have "ring_ok q'" using b by (auto simp: e ring_ok_def)
    then show ?thesis
      using b q nth_circ [OF \<open>ring_ok q'\<close>] rec
      by (intro grown_front) (auto simp: e(1) e(2) beg nth_circ)
  next
    case en
    have e: "q' = q\<lparr>m_cur_num_msg := Suc ?C\<rparr>" "s = mp_index q ! end_pos q"
      using assms(4) en b \<open>circ_pos q k = ?F \<longleftrightarrow> k = 0\<close> \<open>circ_pos q k = end_pos q \<longleftrightarrow> k = ?C\<close>
      by (auto simp: insert_at_def inserted_ptr_begin_def inserted_ptr_end_def Let_def)
    have "ring_ok q'" using b by (auto simp: e ring_ok_def)
    moreover have "circ q' = circ q" by (simp add: e circ_def)
    moreover have "s = circ q ! ?C"
      using b q end_pos_circ [OF q(1,3)] by (simp add: e nth_circ circ_pos_def wrap_mod)
    ultimately show ?thesis using q rec en by (intro grown_back) auto
  next
    case mid
    show ?thesis
    proof (cases "insert_at q (circ_pos q k) = insert_at_front q (circ_pos q k)")
      case True
      then show ?thesis using insert_at_front_circ [OF q(1) mid q(3), of q' s] assms(4) q rec
        by (intro grown_front) auto
    next
      case False
      then have "insert_at q (circ_pos q k) = insert_at_back q (circ_pos q k)"
        using mid \<open>circ_pos q k = ?F \<longleftrightarrow> k = 0\<close> \<open>circ_pos q k = end_pos q \<longleftrightarrow> k = ?C\<close>
        by (auto simp: insert_at_def inserted_ptr_begin_def inserted_ptr_end_def Let_def split: if_splits)
      then show ?thesis using insert_at_back_circ [OF q(1) mid(2) q(3), of q' s] assms(4) q rec
        by (intro grown_back) auto
    qed
  qed
qed

section \<open>Where a message is inserted\<close>

definition slot_priority :: "mq_hdr_t \<Rightarrow> nat \<Rightarrow> uint32" where
  "slot_priority q s = msg_priority (messages q ! s)"

definition insert_place :: "mq_hdr_t \<Rightarrow> uint32 \<Rightarrow> nat" where
  "insert_place q p = length (takeWhile (\<lambda>s. slot_priority q s < p) (used q))"

lemma insert_place_eqI:
  assumes "k \<le> length (used q)"
    and "\<And>i. i < k \<Longrightarrow> slot_priority q (used q ! i) < p"
    and "k < length (used q) \<Longrightarrow> \<not> slot_priority q (used q ! k) < p"
  shows "insert_place q p = k"
  using takeWhile_eq_take_P_nth [of k "used q" "\<lambda>s. slot_priority q s < p"] assms
  by (simp add: insert_place_def)

lemma length_used: "ring_ok q \<Longrightarrow> length (used q) = m_cur_num_msg q"
  by (simp add: used_def length_circ ring_ok_def)

lemma nth_used:
  assumes "ring_ok q" "i < m_cur_num_msg q"
  shows "used q ! i = mp_index q ! wrap (m_max_num_msg q) (m_cur_first_msg q + i)"
proof -
  have "i < m_max_num_msg q" using assms by (simp add: ring_ok_def)
  with assms show ?thesis by (simp add: used_def nth_circ)
qed

lemma sorted_slots:
  assumes "sorted (map (slot_priority q) (used q))" "ring_ok q" "i \<le> j" "j < m_cur_num_msg q"
    and "slot_priority q (used q ! j) < p"
  shows "slot_priority q (used q ! i) < p"
  using sorted_nth_mono [OF assms(1), of i j] assms by (simp add: length_used)

lemma segment_bound:
  assumes "\<And>i. i < n \<Longrightarrow> a ! (lo + i) = u ! (d + i)" and "d + n \<le> length u"
    and "\<And>i j. i \<le> j \<Longrightarrow> j < length u \<Longrightarrow> P (u ! j) \<Longrightarrow> P (u ! i)"
  obtains m where "std_lower_bound P a lo n = lo + m" "m \<le> n" "\<And>i. i < m \<Longrightarrow> P (u ! (d + i))"
    "m < n \<Longrightarrow> \<not> P (u ! (d + m))"
proof -
  let ?r = "std_lower_bound P a lo n"
  have "lower_bound_at P a lo (lo + n) ?r"
  proof (rule std_lower_bound_spec)
    fix i j assume "lo \<le> i" "i \<le> j" "j < lo + n" "P (a ! j)"
    then show "P (a ! i)"
      using assms(1) [of "i - lo"] assms(1) [of "j - lo"] assms(2) assms(3) [of "d + (i - lo)" "d + (j - lo)"]
      by simp
  qed
  then have r: "lo \<le> ?r" "?r \<le> lo + n" "\<And>i. lo + i < ?r \<Longrightarrow> P (a ! (lo + i))"
    "?r < lo + n \<Longrightarrow> \<not> P (a ! ?r)"
    by (auto simp: lower_bound_at_def)
  obtain m where m: "?r = lo + m" using r(1) le_Suc_ex by blast
  show ?thesis
    by (rule that [of m]) (use r m assms(1) in \<open>force+\<close>)
qed

lemma mq_lower_bound_place:
  assumes ok: "ring_ok q" and full: "\<not> is_full q"
    and so: "sorted (map (slot_priority q) (used q))"
  shows "mq_lower_bound q p = circ_pos q (insert_place q p)"
proof -
  let ?F = "m_cur_first_msg q" and ?N = "m_max_num_msg q" and ?C = "m_cur_num_msg q"
  let ?P = "\<lambda>s. slot_priority q s < p" and ?a = "mp_index q"
  have P: "priority_functor q p = ?P" by (simp add: fun_eq_iff priority_functor_def slot_priority_def)
  have b: "?F < ?N" "?C < ?N" using ok full by (auto simp: ring_ok_def is_full_def)
  have e: "end_pos q = wrap ?N (?F + ?C)" using b by (auto simp: end_pos_def Let_def)
  note len = length_used [OF ok] and nth = nth_used [OF ok]
  note mono = sorted_slots [OF so ok, folded len]
  show ?thesis
  proof (cases "?F + ?C < ?N")
    case True
    obtain m where m: "std_lower_bound ?P ?a ?F ?C = ?F + m" "m \<le> ?C" "\<And>i. i < m \<Longrightarrow> ?P (used q ! (0 + i))"
      "m < ?C \<Longrightarrow> \<not> ?P (used q ! (0 + m))"
      by (rule segment_bound [of ?C ?a ?F "used q" 0 ?P]) (use True nth len mono in auto)
    have "insert_place q p = m" using m by (intro insert_place_eqI) (simp_all add: len)
    moreover have "mq_lower_bound q p = ?F + m"
      using True m(1) by (simp add: mq_lower_bound_def inserted_ptr_begin_def inserted_ptr_end_def e P Let_def)
    ultimately show ?thesis using True m(2) by (simp add: circ_pos_def)
  next
    case wrapped: False
    then have en: "end_pos q = ?F + ?C - ?N" "?F + ?C - ?N < ?F" using b e by auto
    obtain m where m: "std_lower_bound ?P ?a ?F (?N - ?F) = ?F + m" "m \<le> ?N - ?F"
      "\<And>i. i < m \<Longrightarrow> ?P (used q ! (0 + i))" "m < ?N - ?F \<Longrightarrow> \<not> ?P (used q ! (0 + m))"
      by (rule segment_bound [of "?N - ?F" ?a ?F "used q" 0 ?P]) (use wrapped nth len mono in auto)
    show ?thesis
    proof (cases "m < ?N - ?F")
      case True
      have "insert_place q p = m" using m True wrapped by (intro insert_place_eqI) (simp_all add: len)
      moreover have "mq_lower_bound q p = ?F + m"
        using True m(1) en by (auto simp add: mq_lower_bound_def inserted_ptr_begin_def inserted_ptr_end_def P Let_def)
      ultimately show ?thesis using True by (simp add: circ_pos_def)
    next
      case False
      then have mN: "m = ?N - ?F" using m(2) by simp
      let ?e = "?F + ?C - ?N"
      obtain l where l: "std_lower_bound ?P ?a 0 ?e = 0 + l" "l \<le> ?e"
        "\<And>i. i < l \<Longrightarrow> ?P (used q ! (?N - ?F + i))" "l < ?e \<Longrightarrow> \<not> ?P (used q ! (?N - ?F + l))"
        by (rule segment_bound [of ?e ?a 0 "used q" "?N - ?F" ?P])
          (use wrapped nth len mono b in \<open>auto\<close>)
      have "?P (used q ! i)" if "i < ?N - ?F + l" for i
        using m(3) [of i] l(3) [of "i - (?N - ?F)"] mN that by (cases "i < m") auto
      then have "insert_place q p = ?N - ?F + l"
        using l wrapped b by (intro insert_place_eqI) (simp_all add: len)
      moreover have "mq_lower_bound q p = l"
        using m(1) mN en b l(1) by (simp add: mq_lower_bound_def inserted_ptr_begin_def inserted_ptr_end_def P Let_def)
      ultimately show ?thesis using b l(2) wrapped by (simp add: circ_pos_def)
    qed
  qed
qed

lemma queue_free_msg_place:
  assumes ok: "ring_ok q" and full: "\<not> is_full q"
    and so: "sorted (map (slot_priority q) (used q))"
  shows "queue_free_msg q p = insert_at q (circ_pos q (insert_place q p))"
proof -
  let ?F = "m_cur_first_msg q" and ?N = "m_max_num_msg q" and ?C = "m_cur_num_msg q"
  have b: "?F < ?N" "?C < ?N" using ok full by (auto simp: ring_ok_def is_full_def)
  have beg: "inserted_ptr_begin q = circ_pos q 0" and en: "inserted_ptr_end q = circ_pos q ?C"
    using b end_pos_circ [OF ok full] by (simp_all add: circ_pos_def inserted_ptr_begin_def inserted_ptr_end_def)
  have bot: "msg_priority (messages q ! bottom_msg q) = slot_priority q (used q ! 0)" if "?C \<noteq> 0"
    using nth_used [OF ok, of 0] that b by (simp add: bottom_msg_def slot_priority_def)
  have top: "msg_priority (messages q ! top_msg q) = slot_priority q (used q ! (?C - 1))" if "?C \<noteq> 0"
    using nth_used [OF ok, of "?C - 1"] that b end_pos_circ [OF ok full] wrap_mod [of ?F ?N ?C]
    by (auto simp: top_msg_def slot_priority_def Let_def circ_pos_def)
  consider "?C = 0" | "?C \<noteq> 0" "p \<le> slot_priority q (used q ! 0)"
    | "?C \<noteq> 0" "p > slot_priority q (used q ! 0)" "p > slot_priority q (used q ! (?C - 1))"
    | "?C \<noteq> 0" "p > slot_priority q (used q ! 0)" "p \<le> slot_priority q (used q ! (?C - 1))"
    by fastforce
  then show ?thesis
  proof cases
    case 1
    then have "insert_place q p = 0" by (simp add: insert_place_def used_def)
    with 1 show ?thesis by (simp add: queue_free_msg_def beg Let_def)
  next
    case 2
    then have "insert_place q p = 0" by (intro insert_place_eqI) (auto simp: not_less)
    with 2 show ?thesis by (auto simp add: queue_free_msg_def beg bot Let_def)
  next
    case 3
    have "slot_priority q (used q ! i) < p" if "i < ?C" for i
      by (rule sorted_slots [OF so ok, of i "?C - 1"]) (use 3 that in auto)
    then have "insert_place q p = ?C"
      by (intro insert_place_eqI) (simp_all add: length_used [OF ok])
    with 3 show ?thesis by (simp add: queue_free_msg_def en bot top Let_def)
  next
    case 4
    then show ?thesis
      by (auto simp add: queue_free_msg_def mq_lower_bound_place [OF ok full so] bot top Let_def)
  qed
qed
end
