(* ===== verification/Message_Queue_Spec.thy ===== *)
theory Message_Queue_Spec
  imports Message_Queue
begin

text \<open>
  What the message queue promises. The abstract queue is the list of its messages, a priority and
  the bytes sent, from the lowest priority up and within one priority from the newest to the oldest.
  The first sections show that the header's operations keep the invariant \<open>mq_inv\<close> and implement
  the abstract operations; the interface \<open>priority_channel\<close> then carries the order of delivery from
  the abstract queue to the code.
\<close>

section \<open>The abstract queue and the invariant\<close>

text \<open>The abstract queue: messages (priority, bytes) from the lowest priority up, oldest last.\<close>

type_synonym message = "uint32 \<times> byte list"

definition pq_insert :: "message \<Rightarrow> message list \<Rightarrow> message list" where
  "pq_insert m xs = takeWhile (\<lambda>x. fst x < fst m) xs @ m # dropWhile (\<lambda>x. fst x < fst m) xs"

definition slot_message :: "mq_hdr_t \<Rightarrow> nat \<Rightarrow> message" where
  "slot_message q s =
     (msg_priority (messages q ! s), take (msg_len (messages q ! s)) (msg_data (messages q ! s)))"

definition mq_contents :: "mq_hdr_t \<Rightarrow> message list" where
  "mq_contents q = map (slot_message q) (used q)"

definition mq_inv :: "mq_hdr_t \<Rightarrow> bool" where
  "mq_inv q \<longleftrightarrow> ring_ok q \<and> length (messages q) = m_max_num_msg q
     \<and> mset (mp_index q) = mset [0..<m_max_num_msg q]
     \<and> sorted (map (slot_priority q) (used q))
     \<and> (\<forall>s\<in>set (free q). msg_len (messages q ! s) = 0 \<and> msg_priority (messages q ! s) = 0)
     \<and> (\<forall>m\<in>set (messages q). length (msg_data m) = m_max_msg_size q \<and> msg_len m \<le> m_max_msg_size q)"

lemma used_free: "used q @ free q = circ q"
  by (simp add: used_def free_def)

lemma mset_circ: "mset (circ q) = mset (mp_index q)"
  unfolding circ_def rotate_drop_take by (metis append_take_drop_id mset_append union_commute)

lemma slots_distinct:
  assumes "mq_inv q"
  shows "distinct (used q @ free q)" and "set (used q @ free q) = {..<m_max_num_msg q}"
proof -
  have "mset (used q @ free q) = mset [0..<m_max_num_msg q]"
    using assms by (simp only: used_free mset_circ mq_inv_def)
  then show "distinct (used q @ free q)" "set (used q @ free q) = {..<m_max_num_msg q}"
    by (metis distinct_upt mset_eq_imp_distinct_iff, metis mset_eq_setD set_upt atLeast0LessThan)
qed

lemma sorted_contents: "map (slot_priority q) (used q) = map fst (mq_contents q)"
  by (simp add: mq_contents_def slot_priority_def slot_message_def)

lemma sorted_pq_insert:
  assumes "sorted (map fst xs)"
  shows "sorted (map fst (pq_insert m xs))"
proof -
  let ?a = "takeWhile (\<lambda>x. fst x < fst m) xs" and ?b = "dropWhile (\<lambda>x. fst x < fst m) xs"
  have "sorted (map fst (?a @ ?b))" using assms by simp
  then have ab: "sorted (map fst ?a)" "sorted (map fst ?b)" "\<forall>x\<in>set ?a. \<forall>y\<in>set ?b. fst x \<le> fst y"
    unfolding map_append sorted_append by simp_all
  have a: "\<forall>x\<in>set ?a. fst x \<le> fst m" by (meson set_takeWhileD less_imp_le)
  have b: "\<forall>y\<in>set ?b. fst m \<le> fst y"
  proof (cases ?b)
    case (Cons y ys)
    then have "\<not> fst y < fst m" by (metis dropWhile_eq_Cons_conv)
    with ab(2) Cons show ?thesis by auto
  next
    case Nil
    then show ?thesis by (simp only: Nil) simp
  qed
  show ?thesis using ab a b by (auto simp: pq_insert_def sorted_append)
qed

text \<open>Storing a message in a slot that just joined the used ones.\<close>

lemma store_grown:
  assumes inv: "mq_inv q" and g: "grown q (insert_place q p) q1 s"
    and len: "length buffer \<le> m_max_msg_size q"
    and q': "q' = q1\<lparr>messages := (messages q1)[s := (messages q1 ! s)\<lparr>msg_priority := p,
      msg_len := length buffer, msg_data := buffer @ drop (length buffer) (msg_data (messages q1 ! s))\<rparr>]\<rparr>"
  shows "mq_contents q' = pq_insert (p, buffer) (mq_contents q)" and "mq_inv q'"
proof -
  define k where "k = insert_place q p"
  have g: "ring_ok q1" "used q1 = take k (used q) @ s # drop k (used q)"
    "mset (free q) = add_mset s (mset (free q1))" "one_more q q1"
    using g by (simp_all add: grown_def k_def)
  have u': "used q' = used q1" "free q' = free q1" "circ q' = circ q1" "ring_ok q' = ring_ok q1"
    by (simp_all add: q' used_def free_def circ_def ring_ok_def)
  have m: "messages q1 = messages q" using g(4) by (simp add: one_more_def)
  have lm: "length (messages q) = m_max_num_msg q" using inv by (simp add: mq_inv_def)
  have "s \<in> set (free q)" using g(3) by (metis set_mset_mset union_single_eq_member)
  then have s: "s < m_max_num_msg q" "s \<notin> set (used q)" using slots_distinct [OF inv] by auto
  have sm: "slot_message q' t = (if t = s then (p, buffer) else slot_message q t)" for t
    using s lm by (simp add: slot_message_def q' m)
  have tk: "set (take k (used q)) \<subseteq> set (used q)" "set (drop k (used q)) \<subseteq> set (used q)"
    by (rule set_take_subset, rule set_drop_subset)
  have split: "take k (used q) = takeWhile (\<lambda>t. fst (slot_message q t) < p) (used q)"
    "drop k (used q) = dropWhile (\<lambda>t. fst (slot_message q t) < p) (used q)"
    by (simp_all add: k_def insert_place_def slot_priority_def slot_message_def
        takeWhile_eq_take [symmetric] dropWhile_eq_drop [symmetric])
  have "map (slot_message q') (used q1) =
    map (slot_message q) (take k (used q)) @ (p, buffer) # map (slot_message q) (drop k (used q))"
    using s(2) tk by (auto simp: g(2) sm)
  then show c: "mq_contents q' = pq_insert (p, buffer) (mq_contents q)"
    unfolding mq_contents_def u' pq_insert_def split
    by (simp add: takeWhile_map dropWhile_map comp_def)
  have "mset (circ q1) = mset (circ q)"
    unfolding used_free [symmetric] using g(3)
    by (simp add: g(2)) (metis append_take_drop_id mset_append union_commute)
  then have idx: "mset (mp_index q') = mset [0..<m_max_num_msg q']"
    using inv g(4) by (simp add: mset_circ mq_inv_def q' one_more_def)
  have "mset (free q) = mset (s # free q1)" using g(3) by simp
  then have "s \<notin> set (free q1)"
    using slots_distinct(1) [OF inv] mset_eq_imp_distinct_iff by fastforce
  moreover have "set (free q1) \<subseteq> set (free q)"
    using g(3) by (metis set_mset_mset set_mset_add_mset_insert subset_insertI)
  moreover have "messages q' ! t = messages q ! t" if "t \<noteq> s" for t using that by (simp add: q' m)
  ultimately have fr: "\<forall>t\<in>set (free q'). msg_len (messages q' ! t) = 0 \<and> msg_priority (messages q' ! t) = 0"
    unfolding u' using inv by (metis mq_inv_def subsetD)
  have "\<forall>x\<in>set (messages q'). length (msg_data x) = m_max_msg_size q' \<and> msg_len x \<le> m_max_msg_size q'"
    using inv len s g(4) lm
    by (auto simp: q' m mq_inv_def one_more_def dest!: set_update_subset_insert [THEN subsetD])
  moreover have "sorted (map (slot_priority q') (used q'))"
    using inv sorted_pq_insert by (simp only: sorted_contents c mq_inv_def)
  moreover have "length (messages q') = m_max_num_msg q'" using lm g(4) by (simp add: q' m one_more_def)
  moreover have "ring_ok q'" using g(1) by (simp only: u')
  ultimately show "mq_inv q'" using idx fr unfolding mq_inv_def by blast
qed

lemma send_finish_facts:
  assumes inv: "mq_inv q" and full: "\<not> is_full q" and len: "length buffer \<le> m_max_msg_size q"
    and sf: "send_finish q buffer p = (q', r)"
  shows "mq_inv q'" and "mq_contents q' = pq_insert (p, buffer) (mq_contents q)"
    and "r = Returned True (m_blocked_receivers q \<noteq> 0)"
    and "m_cur_num_msg q' = Suc (m_cur_num_msg q)"
    and "m_max_num_msg q' = m_max_num_msg q" and "m_max_msg_size q' = m_max_msg_size q"
    and "m_blocked_senders q' = m_blocked_senders q" and "m_blocked_receivers q' = m_blocked_receivers q"
proof -
  have ok: "ring_ok q" and so: "sorted (map (slot_priority q) (used q))"
    using inv by (auto simp: mq_inv_def)
  obtain q1 s where qf: "queue_free_msg q p = (q1, s)" by fastforce
  have "insert_place q p \<le> m_cur_num_msg q"
    using length_takeWhile_le [of _ "used q"] length_used [OF ok] by (simp add: insert_place_def)
  then have g: "grown q (insert_place q p) q1 s"
    using insert_at_grown [OF ok _ full] qf queue_free_msg_place [OF ok full so] by simp
  have "send_finish q buffer p = (q1\<lparr>messages := (messages q1)[s := (messages q1 ! s)\<lparr>msg_priority := p,
      msg_len := length buffer, msg_data := buffer @ drop (length buffer) (msg_data (messages q1 ! s))\<rparr>]\<rparr>,
      Returned True (m_blocked_receivers q \<noteq> 0))"
    by (simp add: send_finish_def qf Let_def)
  then have q': "q' = q1\<lparr>messages := (messages q1)[s := (messages q1 ! s)\<lparr>msg_priority := p,
      msg_len := length buffer, msg_data := buffer @ drop (length buffer) (msg_data (messages q1 ! s))\<rparr>]\<rparr>"
    and r: "r = Returned True (m_blocked_receivers q \<noteq> 0)"
    using sf by simp_all
  show "mq_inv q'" "mq_contents q' = pq_insert (p, buffer) (mq_contents q)"
    using store_grown [OF inv g len q'] by blast+
  show "r = Returned True (m_blocked_receivers q \<noteq> 0)" by (fact r)
  show "m_cur_num_msg q' = Suc (m_cur_num_msg q)" "m_max_num_msg q' = m_max_num_msg q"
    "m_max_msg_size q' = m_max_msg_size q"
    "m_blocked_senders q' = m_blocked_senders q" "m_blocked_receivers q' = m_blocked_receivers q"
    using g by (simp_all add: q' grown_def one_more_def)
qed

text \<open>Taking the top message out.\<close>

lemma top_msg_last:
  assumes "ring_ok q" "\<not> is_empty q"
  shows "top_msg q = last (used q)" and "used q \<noteq> []"
proof -
  let ?F = "m_cur_first_msg q" and ?N = "m_max_num_msg q" and ?C = "m_cur_num_msg q"
  have b: "?F < ?N" "0 < ?C" "?C \<le> ?N" using assms by (auto simp: ring_ok_def is_empty_def)
  show "used q \<noteq> []" using b length_used [OF assms(1)] by auto
  then have "last (used q) = mp_index q ! wrap ?N (?F + (?C - 1))"
    using nth_used [OF assms(1), of "?C - 1"] b length_used [OF assms(1)] by (simp add: last_conv_nth)
  moreover have "(if end_pos q \<noteq> 0 then end_pos q - 1 else ?N - 1) = wrap ?N (?F + (?C - 1))"
    using b by (auto simp: end_pos_def Let_def)
  ultimately show "top_msg q = last (used q)" by (simp only: top_msg_def Let_def)
qed

lemma receive_finish_facts:
  assumes inv: "mq_inv q" and ne: "\<not> is_empty q" and rf: "receive_finish q = (q', r)"
  shows "mq_inv q'" and "mq_contents q' = butlast (mq_contents q)" and "mq_contents q \<noteq> []"
    and "r = Returned (Some (length (snd (last (mq_contents q))), last (mq_contents q)))
             (m_blocked_senders q \<noteq> 0)"
    and "m_cur_num_msg q = Suc (m_cur_num_msg q')"
    and "m_max_num_msg q' = m_max_num_msg q" and "m_max_msg_size q' = m_max_msg_size q"
    and "m_blocked_senders q' = m_blocked_senders q" and "m_blocked_receivers q' = m_blocked_receivers q"
proof -
  have ok: "ring_ok q" and lm: "length (messages q) = m_max_num_msg q" using inv by (auto simp: mq_inv_def)
  note top = top_msg_last [OF ok ne]
  define s where "s = last (used q)"
  have q': "q' = q\<lparr>m_cur_num_msg := m_cur_num_msg q - 1,
      messages := (messages q)[s := (messages q ! s)\<lparr>msg_len := 0, msg_priority := 0\<rparr>]\<rparr>"
    and r: "r = Returned (Some (msg_len (messages q ! s), slot_message q s)) (m_blocked_senders q \<noteq> 0)"
    using rf by (auto simp: receive_finish_def Let_def free_top_msg_def top(1) s_def slot_message_def)
  obtain n where n: "m_cur_num_msg q = Suc n" using ne by (cases "m_cur_num_msg q") (auto simp: is_empty_def)
  have n': "n < length (circ q)" using ok n length_circ [OF ok] by (simp add: ring_ok_def)
  have us: "used q = used q' @ [s]" and fr: "free q' = s # free q"
  proof -
    have u: "used q = take n (circ q) @ [circ q ! n]" using n n' by (simp add: used_def take_Suc_conv_app_nth)
    have "free q' = drop n (circ q)" "used q' = take n (circ q)"
      by (simp_all add: free_def used_def circ_def q' n)
    moreover have "s = circ q ! n" by (simp add: s_def u)
    ultimately show "used q = used q' @ [s]" "free q' = s # free q"
      using u n n' by (simp_all add: free_def Cons_nth_drop_Suc)
  qed
  have dis: "distinct (used q' @ s # free q)" and st: "set (used q' @ s # free q) = {..<m_max_num_msg q}"
    using slots_distinct [OF inv] by (simp_all add: us)
  have s: "s < length (messages q)" "s \<notin> set (used q')" "s \<notin> set (free q)"
    using dis st lm by auto
  have c: "mq_contents q = mq_contents q' @ [slot_message q s]"
  proof -
    have "slot_message q' t = slot_message q t" if "t \<in> set (used q')" for t
      using that s by (auto simp: slot_message_def q' nth_list_update)
    then show ?thesis by (simp add: mq_contents_def us)
  qed
  then show "mq_contents q' = butlast (mq_contents q)" "mq_contents q \<noteq> []" by simp_all
  have bounds: "\<forall>m\<in>set (messages q). length (msg_data m) = m_max_msg_size q \<and> msg_len m \<le> m_max_msg_size q"
    using inv by (simp add: mq_inv_def)
  then have "msg_len (messages q ! s) = length (snd (slot_message q s))"
    using s by (simp add: slot_message_def)
  then show "r = Returned (Some (length (snd (last (mq_contents q))), last (mq_contents q)))
             (m_blocked_senders q \<noteq> 0)"
    by (simp add: r c)
  show "m_cur_num_msg q = Suc (m_cur_num_msg q')" "m_max_num_msg q' = m_max_num_msg q"
    "m_max_msg_size q' = m_max_msg_size q" "m_blocked_senders q' = m_blocked_senders q"
    "m_blocked_receivers q' = m_blocked_receivers q"
    by (simp_all add: q' n)
  have "sorted (map (slot_priority q') (used q'))"
    using inv by (simp add: sorted_contents c mq_inv_def sorted_append)
  moreover have "\<forall>t\<in>set (free q'). msg_len (messages q' ! t) = 0 \<and> msg_priority (messages q' ! t) = 0"
    unfolding fr using inv s by (auto simp: q' mq_inv_def nth_list_update)
  moreover have "\<forall>m\<in>set (messages q'). length (msg_data m) = m_max_msg_size q' \<and> msg_len m \<le> m_max_msg_size q'"
    using bounds s by (auto simp: q' dest!: set_update_subset_insert [THEN subsetD])
  moreover have "ring_ok q'" using ok by (auto simp: q' ring_ok_def)
  ultimately show "mq_inv q'"
    using inv by (simp add: mq_inv_def q')
qed

lemma mq_construct_inv: "mq_inv (mq_construct n sz)" and mq_construct_contents: "mq_contents (mq_construct n sz) = []"
proof -
  have "set (free (mq_construct n sz)) \<subseteq> {..<n}"
    by (auto simp: free_def circ_def mq_construct_def initialize_memory_def dest!: in_set_dropD)
  then show "mq_inv (mq_construct n sz)"
    by (auto simp: mq_inv_def mq_construct_def initialize_memory_def ring_ok_def used_def)
  show "mq_contents (mq_construct n sz) = []"
    by (simp add: mq_contents_def used_def mq_construct_def initialize_memory_def)
qed

section \<open>The calls, branch by branch\<close>

lemmas mq_op_defs = do_send_def do_send_resume_def do_receive_def do_receive_resume_def

lemma slot_priority_blocked [simp]:
  "slot_priority (q\<lparr>m_blocked_senders := n\<rparr>) = slot_priority q"
  "slot_priority (q\<lparr>m_blocked_receivers := n\<rparr>) = slot_priority q"
  by (simp_all add: fun_eq_iff slot_priority_def)

lemma mq_inv_blocked [simp]:
  "mq_inv (q\<lparr>m_blocked_senders := n\<rparr>) = mq_inv q" "mq_inv (q\<lparr>m_blocked_receivers := n\<rparr>) = mq_inv q"
  by (simp_all add: mq_inv_def ring_ok_def used_def free_def circ_def)

lemma mq_contents_blocked [simp]:
  "mq_contents (q\<lparr>m_blocked_senders := n\<rparr>) = mq_contents q"
  "mq_contents (q\<lparr>m_blocked_receivers := n\<rparr>) = mq_contents q"
  by (simp_all add: mq_contents_def used_def circ_def slot_message_def)

lemma is_full_blocked [simp]:
  "is_full (q\<lparr>m_blocked_senders := n\<rparr>) = is_full q" "is_full (q\<lparr>m_blocked_receivers := n\<rparr>) = is_full q"
  "is_empty (q\<lparr>m_blocked_senders := n\<rparr>) = is_empty q" "is_empty (q\<lparr>m_blocked_receivers := n\<rparr>) = is_empty q"
  by (simp_all add: is_full_def is_empty_def)

lemma length_contents: "mq_inv q \<Longrightarrow> length (mq_contents q) = m_cur_num_msg q"
  by (simp add: mq_contents_def mq_inv_def length_used)

lemma contents_full: "mq_inv q \<Longrightarrow> is_full q \<longleftrightarrow> length (mq_contents q) = m_max_num_msg q"
  by (simp add: length_contents is_full_def)

lemma contents_empty: "mq_inv q \<Longrightarrow> is_empty q \<longleftrightarrow> mq_contents q = []"
  by (metis length_contents is_empty_def length_0_conv)

lemma send_finish_inv:
  "mq_inv q \<Longrightarrow> \<not> is_full q \<Longrightarrow> length buffer \<le> m_max_msg_size q \<Longrightarrow> mq_inv (fst (send_finish q buffer p))"
  using send_finish_facts(1) [of q buffer p] by (cases "send_finish q buffer p") auto

lemma receive_finish_inv:
  "mq_inv q \<Longrightarrow> \<not> is_empty q \<Longrightarrow> mq_inv (fst (receive_finish q))"
  using receive_finish_facts(1) [of q] by (cases "receive_finish q") auto

text \<open>A queue of three messages of at most four bytes, with one message sent.\<close>

definition demo_queue :: mq_hdr_t where
  "demo_queue = (case do_send blocking (mq_construct 3 4) [7, 8] 5 of
     Inr (q, _) \<Rightarrow> q | Inl _ \<Rightarrow> mq_construct 0 0)"

lemma demo_queue_eq:
  "demo_queue = \<lparr>mp_index = [0, 1, 2], m_max_num_msg = 3, m_max_msg_size = 4, m_cur_num_msg = 1,
     m_cur_first_msg = 2, m_blocked_senders = 0, m_blocked_receivers = 0,
     messages = [\<lparr>msg_len = 0, msg_priority = 0, msg_data = [0, 0, 0, 0]\<rparr>,
       \<lparr>msg_len = 0, msg_priority = 0, msg_data = [0, 0, 0, 0]\<rparr>,
       \<lparr>msg_len = 2, msg_priority = 5, msg_data = [7, 8, 0, 0]\<rparr>]\<rparr>"
  by code_simp

lemma demo_queue_inv: "mq_inv demo_queue" and demo_queue_contents: "mq_contents demo_queue = [(5, [7, 8])]"
  by (code_simp, code_simp)

lemma demo_queue_fields: "m_max_num_msg demo_queue = 3" "m_max_msg_size demo_queue = 4"
  "m_blocked_senders demo_queue = 0" "m_blocked_receivers demo_queue = 0"
  by (simp_all add: demo_queue_eq)

text \<open>
  A freshly constructed queue satisfies the invariant of the circular index (the index is a
  permutation of the slots, used slots are ordered by priority, free slots are clean, lengths are
  within the maximum), and every step of send and receive, blocking or not, and every wake-up from
  a wait keeps it.
\<close>
theorem mq_invariant_kept:
  assumes "mq_inv q" and "length buffer \<le> m_max_msg_size q" and "m_max_msg_size q \<le> n"
  shows "mq_inv (mq_construct max_num sz)
     \<and> mq_inv (fst (projr (do_send Block q buffer p)))
     \<and> mq_inv (fst (do_send_resume Block t q buffer p))
     \<and> mq_inv (fst (projr (do_receive Block q n)))
     \<and> mq_inv (fst (do_receive_resume Block t q))"
proof (intro conjI)
  show "mq_inv (mq_construct max_num sz)" by (rule mq_construct_inv)
  show "mq_inv (fst (projr (do_send Block q buffer p)))"
    using assms send_finish_inv [of q buffer p]
    by (cases Block) (simp_all add: do_send_def Let_def)
  show "mq_inv (fst (do_send_resume Block t q buffer p))"
    using assms by (simp add: do_send_resume_def send_finish_inv)
  show "mq_inv (fst (projr (do_receive Block q n)))"
    using assms receive_finish_inv [of q] by (cases Block) (simp_all add: do_receive_def Let_def)
  show "mq_inv (fst (do_receive_resume Block t q))"
    using assms by (simp add: do_receive_resume_def receive_finish_inv)
qed

theorem mq_invariant_kept_witness:
  "mq_inv (fst (projr (do_send blocking demo_queue [1] 9)))"
  using mq_invariant_kept [OF demo_queue_inv, of "[1]" 4 0 0 blocking 9 False]
  by (simp add: demo_queue_fields)

text \<open>
  C7: A send on a well-formed queue. A buffer above the maximum message size throws size_error;
  on a full queue a non-blocking call returns false and leaves the queue unchanged, and a blocking
  or timed one waits, counted as a blocked sender; otherwise the call returns true, the message
  enters the abstract queue at its priority, to be received after the messages of the same priority
  already there, and a receiver is notified exactly when one is blocked.
\<close>
theorem do_send_refines:
  assumes "mq_inv q"
  shows "(if length buffer > m_max_msg_size q
          then do_send Block q buffer p = Inl (interprocess_exception size_error)
          else if length (mq_contents q) = m_max_num_msg q
          then do_send Block q buffer p =
             (if Block = non_blocking then Inr (q, Returned False False)
              else Inr (q\<lparr>m_blocked_senders := m_blocked_senders q + 1\<rparr>, Waiting))
          else \<exists>q'. do_send Block q buffer p = Inr (q', Returned True (m_blocked_receivers q \<noteq> 0))
              \<and> mq_contents q' = pq_insert (p, buffer) (mq_contents q)
              \<and> m_max_num_msg q' = m_max_num_msg q \<and> m_max_msg_size q' = m_max_msg_size q)"
proof -
  obtain q' r where sf: "send_finish q buffer p = (q', r)" by fastforce
  consider "length buffer > m_max_msg_size q" | "length buffer \<le> m_max_msg_size q" "is_full q"
    | "length buffer \<le> m_max_msg_size q" "\<not> is_full q" by linarith
  then show ?thesis
  proof cases
    case 2
    then show ?thesis using contents_full [OF assms] by (cases Block) (simp_all add: do_send_def Let_def)
  next
    case 3
    then show ?thesis
      using contents_full [OF assms] send_finish_facts [OF assms 3(2,1) sf] sf by (simp add: do_send_def)
  qed (simp add: do_send_def)
qed

theorem do_send_refines_witness:
  "\<exists>q'. do_send timed demo_queue [1, 2, 3] 4 = Inr (q', Returned True False)
      \<and> mq_contents q' = [(4, [1, 2, 3]), (5, [7, 8])]"
  using do_send_refines [OF demo_queue_inv, of "[1, 2, 3]" timed 4]
  by (auto simp: demo_queue_contents demo_queue_fields pq_insert_def)

text \<open>
  C11: A receive on a well-formed queue. A receive buffer below the maximum message size throws
  size_error; on an empty queue a non-blocking call returns false and leaves the queue unchanged,
  and the others wait, counted as a blocked receiver; otherwise the call delivers the message of
  highest priority, the oldest of them, byte for byte with its length and priority, removes it, and
  notifies a sender exactly when one is blocked.
\<close>
theorem do_receive_refines:
  assumes "mq_inv q"
  shows "(if buffer_size < m_max_msg_size q
          then do_receive Block q buffer_size = Inl (interprocess_exception size_error)
          else if mq_contents q = []
          then do_receive Block q buffer_size =
             (if Block = non_blocking then Inr (q, Returned None False)
              else Inr (q\<lparr>m_blocked_receivers := m_blocked_receivers q + 1\<rparr>, Waiting))
          else \<exists>q'. do_receive Block q buffer_size =
                Inr (q', Returned (Some (length (snd (last (mq_contents q))), last (mq_contents q)))
                           (m_blocked_senders q \<noteq> 0))
              \<and> mq_contents q' = butlast (mq_contents q)
              \<and> m_max_num_msg q' = m_max_num_msg q \<and> m_max_msg_size q' = m_max_msg_size q)"
proof -
  obtain q' r where rf: "receive_finish q = (q', r)" by fastforce
  consider "buffer_size < m_max_msg_size q" | "m_max_msg_size q \<le> buffer_size" "is_empty q"
    | "m_max_msg_size q \<le> buffer_size" "\<not> is_empty q" by linarith
  then show ?thesis
  proof cases
    case 2
    then show ?thesis using contents_empty [OF assms] by (cases Block) (simp_all add: do_receive_def Let_def)
  next
    case 3
    then show ?thesis
      using contents_empty [OF assms] receive_finish_facts [OF assms 3(2) rf] rf
      by (simp add: do_receive_def)
  qed (simp add: do_receive_def)
qed

theorem do_receive_refines_witness:
  "\<exists>q'. do_receive non_blocking demo_queue 4 = Inr (q', Returned (Some (2, 5, [7, 8])) False)
      \<and> mq_contents q' = []"
  using do_receive_refines [OF demo_queue_inv, of 4 non_blocking]
  by (auto simp: demo_queue_contents demo_queue_fields numeral_2_eq_2)

section \<open>Order of delivery\<close>

text \<open>
  Calls that do not wait, in any order, and what they answer: whether the message was sent, the length and the
  message received if there was one, or an exception.
\<close>

datatype mq_op = Try_Send "byte list" uint32 | Try_Receive nat

datatype mq_reply = Sent bool | Got "(nat \<times> message) option" | Raised ipc_exception | Waits

fun run_ops :: "('o \<Rightarrow> 's \<Rightarrow> 'r \<times> 's) \<Rightarrow> 'o list \<Rightarrow> 's \<Rightarrow> 'r list \<times> 's" where
  "run_ops act [] s = ([], s)"
| "run_ops act (op # ops) s = (let (r, s') = act op s; (rs, s'') = run_ops act ops s' in (r # rs, s''))"

text \<open>
  The reference: a list of the messages in the order of their arrival. A message is put at the end; the oldest
  message of the highest priority in the list is the next to be received.
\<close>

definition oldest_of_highest :: "message list \<Rightarrow> message \<times> message list" where
  "oldest_of_highest xs =
     (let p = Max (fst ` set xs); us = takeWhile (\<lambda>x. fst x \<noteq> p) xs; vs = dropWhile (\<lambda>x. fst x \<noteq> p) xs
      in (hd vs, us @ tl vs))"

fun arrival_do :: "nat \<Rightarrow> nat \<Rightarrow> mq_op \<Rightarrow> message list \<Rightarrow> mq_reply \<times> message list" where
  "arrival_do max_num max_size (Try_Send buffer p) xs =
     (if length buffer > max_size then (Raised (interprocess_exception size_error), xs)
      else if length xs = max_num then (Sent False, xs)
      else (Sent True, xs @ [(p, buffer)]))"
| "arrival_do max_num max_size (Try_Receive buffer_size) xs =
     (if buffer_size < max_size then (Raised (interprocess_exception size_error), xs)
      else if xs = [] then (Got None, xs)
      else (let (m, ys) = oldest_of_highest xs in (Got (Some (length (snd m), m)), ys)))"

lemma mset_pq_insert [simp]: "mset (pq_insert m xs) = add_mset m (mset xs)"
proof -
  let ?a = "takeWhile (\<lambda>x. fst x < fst m) xs" and ?b = "dropWhile (\<lambda>x. fst x < fst m) xs"
  have "mset ?a + mset ?b = mset xs" by (metis mset_append takeWhile_dropWhile_id)
  then show ?thesis by (simp add: pq_insert_def)
qed

lemma length_pq_insert [simp]: "length (pq_insert m xs) = Suc (length xs)"
  by (metis mset_pq_insert size_add_mset size_mset)

lemma filter_pq_insert:
  "filter (\<lambda>x. fst x = p) (pq_insert m xs) =
     (if fst m = p then m # filter (\<lambda>x. fst x = p) xs else filter (\<lambda>x. fst x = p) xs)"
proof -
  let ?a = "takeWhile (\<lambda>x. fst x < fst m) xs" and ?b = "dropWhile (\<lambda>x. fst x < fst m) xs"
  have xs: "filter (\<lambda>x. fst x = p) xs = filter (\<lambda>x. fst x = p) ?a @ filter (\<lambda>x. fst x = p) ?b"
    by (metis filter_append takeWhile_dropWhile_id)
  have "filter (\<lambda>x. fst x = p) ?a = []" if "fst m = p"
    using that by (auto simp: filter_empty_conv dest: set_takeWhileD)
  then show ?thesis unfolding xs by (simp add: pq_insert_def)
qed

text \<open>The sorted list as a function of the list in the order of arrival.\<close>

abbreviation by_priority :: "message list \<Rightarrow> message list" where
  "by_priority xs \<equiv> sort_key fst (rev xs)"

lemma by_priority_insert: "by_priority (xs @ [m]) = pq_insert m (by_priority xs)"
proof -
  have "filter (\<lambda>x. fst k = fst x) (pq_insert m (by_priority xs)) = filter (\<lambda>x. fst k = fst x) (rev (xs @ [m]))" for k :: message
    using filter_pq_insert [of "fst k" m "by_priority xs"] sort_key_stable [of fst "fst k" "rev xs"]
    by (simp add: eq_commute [of "fst k"])
  then show ?thesis by (intro properties_for_sort_key) (simp_all add: sorted_pq_insert)
qed

lemma by_priority_remove:
  assumes "\<forall>u\<in>set us. fst u < fst m" "\<forall>v\<in>set vs. fst v \<le> fst m"
  shows "by_priority (us @ m # vs) = by_priority (us @ vs) @ [m]"
proof -
  have us: "filter (\<lambda>x. fst x = fst m) (rev us) = []" using assms(1) by (auto simp: filter_empty_conv)
  have f: "filter (\<lambda>x. fst x = k) (by_priority (us @ vs) @ [m]) = filter (\<lambda>x. fst x = k) (rev (us @ m # vs))" for k
    using sort_key_stable [of fst k "rev (us @ vs)"] us by auto
  show ?thesis
  proof (rule properties_for_sort_key)
    show "filter (\<lambda>x. fst k = fst x) (by_priority (us @ vs) @ [m]) = filter (\<lambda>x. fst k = fst x) (rev (us @ m # vs))" for k
      using f [of "fst k"] by (simp only: eq_commute [of "fst k"])
    show "sorted (map fst (by_priority (us @ vs) @ [m]))"
      using assms by (auto simp: sorted_append less_imp_le)
  qed simp
qed

lemma oldest_of_highest_last:
  assumes "xs \<noteq> []" "oldest_of_highest xs = (m, ys)"
  shows "by_priority xs = by_priority ys @ [m]" and "length xs = Suc (length ys)"
proof -
  let ?p = "Max (fst ` set xs)"
  let ?us = "takeWhile (\<lambda>x. fst x \<noteq> ?p) xs" and ?vs = "dropWhile (\<lambda>x. fst x \<noteq> ?p) xs"
  have "?p \<in> fst ` set xs" by (rule Max_in) (use assms(1) in simp_all)
  then have "\<exists>x\<in>set xs. fst x = ?p" by (metis (no_types, lifting) imageE)
  then have "?vs \<noteq> []" by (simp add: dropWhile_eq_Nil_conv)
  then have v: "?vs = hd ?vs # tl ?vs" "fst (hd ?vs) = ?p" using hd_dropWhile [of "\<lambda>x. fst x \<noteq> ?p" xs] by auto
  have m: "m = hd ?vs" "ys = ?us @ tl ?vs" using assms(2) by (simp_all add: oldest_of_highest_def Let_def)
  have xs: "xs = ?us @ m # tl ?vs" using v(1) m(1) takeWhile_dropWhile_id [of "\<lambda>x. fst x \<noteq> ?p" xs] by metis
  have le: "fst x \<le> fst m" if "x \<in> set xs" for x using that v(2) m(1) by simp
  have us: "\<forall>u\<in>set ?us. fst u < fst m"
  proof
    fix u assume "u \<in> set ?us"
    then have "u \<in> set xs" "fst u \<noteq> fst m" using v(2) m(1) by (auto dest: set_takeWhileD)
    then show "fst u < fst m" using le by (simp add: less_le)
  qed
  have vs: "\<forall>x\<in>set (tl ?vs). fst x \<le> fst m"
  proof
    fix x assume "x \<in> set (tl ?vs)"
    then have "x \<in> set ?vs" using v(1) by (metis list.set_intros(2))
    then have "x \<in> set xs" by (rule set_dropWhileD)
    then show "fst x \<le> fst m" by (rule le)
  qed
  show "by_priority xs = by_priority ys @ [m]" using by_priority_remove [OF us vs] xs m(2) by metis
  show "length xs = Suc (length ys)" using arg_cong [OF xs, of length] m(2) by simp
qed

text \<open>The contract a sender and a receiver rely on.\<close>

locale priority_channel =
  fixes invar :: "'s \<Rightarrow> bool" and contents :: "'s \<Rightarrow> message list"
    and max_num :: "'s \<Rightarrow> nat" and max_size :: "'s \<Rightarrow> nat" and act :: "mq_op \<Rightarrow> 's \<Rightarrow> mq_reply \<times> 's"
  assumes send_reply: "invar s \<Longrightarrow> act (Try_Send b p) s = (r, s') \<Longrightarrow>
      invar s' \<and> max_num s' = max_num s \<and> max_size s' = max_size s \<and>
      (if length b > max_size s then r = Raised (interprocess_exception size_error) \<and> contents s' = contents s
       else if length (contents s) = max_num s then r = Sent False \<and> contents s' = contents s
       else r = Sent True \<and> contents s' = pq_insert (p, b) (contents s))"
    and receive_reply: "invar s \<Longrightarrow> act (Try_Receive n) s = (r, s') \<Longrightarrow>
      invar s' \<and> max_num s' = max_num s \<and> max_size s' = max_size s \<and>
      (if n < max_size s then r = Raised (interprocess_exception size_error) \<and> contents s' = contents s
       else if contents s = [] then r = Got None \<and> contents s' = contents s
       else r = Got (Some (length (snd (last (contents s))), last (contents s))) \<and> contents s' = butlast (contents s))"
begin

lemma act_refines:
  assumes i: "invar s" and c: "contents s = by_priority xs" and a: "act op s = (r, s')"
  shows "invar s' \<and> max_num s' = max_num s \<and> max_size s' = max_size s
    \<and> (\<exists>ys. arrival_do (max_num s) (max_size s) op xs = (r, ys) \<and> contents s' = by_priority ys)"
proof (cases op)
  case (Try_Send b p)
  have "length (by_priority xs) = length xs" by simp
  then show ?thesis using send_reply [OF i a [unfolded Try_Send]] c Try_Send
    by (auto simp: by_priority_insert simp del: rev_append)
next
  case (Try_Receive n)
  note rr = receive_reply [OF i a [unfolded Try_Receive]]
  show ?thesis
  proof (cases "xs = []")
    case True
    then show ?thesis using rr c Try_Receive by (auto split: if_splits)
  next
    case False
    obtain m ys where o: "oldest_of_highest xs = (m, ys)" by fastforce
    have "contents s = by_priority ys @ [m]" using oldest_of_highest_last(1) [OF False o] c by simp
    then show ?thesis using rr c Try_Receive False o by (auto split: if_splits)
  qed
qed

lemma run_refines:
  assumes "invar s" "contents s = by_priority xs"
  shows "fst (run_ops act ops s) = fst (run_ops (arrival_do (max_num s) (max_size s)) ops xs)
    \<and> contents (snd (run_ops act ops s)) = by_priority (snd (run_ops (arrival_do (max_num s) (max_size s)) ops xs))"
  using assms
proof (induction ops arbitrary: s xs)
  case (Cons op ops)
  obtain r s' where a: "act op s = (r, s')" by fastforce
  obtain ys where s': "invar s'" "max_num s' = max_num s" "max_size s' = max_size s"
      "arrival_do (max_num s) (max_size s) op xs = (r, ys)" "contents s' = by_priority ys"
    using act_refines [OF Cons.prems a] by blast
  show ?case using Cons.IH [OF s'(1,5)] s'(2-4) a by (simp add: split_beta)
qed simp

end

text \<open>The calls of the message queue.\<close>

fun mq_do :: "mq_op \<Rightarrow> mq_hdr_t \<Rightarrow> mq_reply \<times> mq_hdr_t" where
  "mq_do (Try_Send buffer p) q =
     (case try_send q buffer p of
        Inl e \<Rightarrow> (Raised e, q) | Inr (q', Returned b _) \<Rightarrow> (Sent b, q') | Inr (q', Waiting) \<Rightarrow> (Waits, q'))"
| "mq_do (Try_Receive buffer_size) q =
     (case try_receive q buffer_size of
        Inl e \<Rightarrow> (Raised e, q) | Inr (q', Returned r _) \<Rightarrow> (Got r, q') | Inr (q', Waiting) \<Rightarrow> (Waits, q'))"

interpretation mq: priority_channel mq_inv mq_contents m_max_num_msg m_max_msg_size mq_do
proof
  fix q and b :: "byte list" and p :: uint32 and r q'
  assume inv: "mq_inv q" and d: "mq_do (Try_Send b p) q = (r, q')"
  obtain q1 r1 where sf: "send_finish q b p = (q1, r1)" by fastforce
  have "mq_inv q1 \<and> mq_contents q1 = pq_insert (p, b) (mq_contents q) \<and> r1 = Returned True (m_blocked_receivers q \<noteq> 0)
      \<and> m_max_num_msg q1 = m_max_num_msg q \<and> m_max_msg_size q1 = m_max_msg_size q"
    if "\<not> is_full q" "length b \<le> m_max_msg_size q" using send_finish_facts [OF inv that sf] by simp
  then show "mq_inv q' \<and> m_max_num_msg q' = m_max_num_msg q \<and> m_max_msg_size q' = m_max_msg_size q \<and>
      (if length b > m_max_msg_size q then r = Raised (interprocess_exception size_error) \<and> mq_contents q' = mq_contents q
       else if length (mq_contents q) = m_max_num_msg q then r = Sent False \<and> mq_contents q' = mq_contents q
       else r = Sent True \<and> mq_contents q' = pq_insert (p, b) (mq_contents q))"
    using inv d sf contents_full [OF inv] by (auto simp: try_send_def do_send_def Let_def split: if_splits)
next
  fix q and n :: nat and r q'
  assume inv: "mq_inv q" and d: "mq_do (Try_Receive n) q = (r, q')"
  obtain q1 r1 where rf: "receive_finish q = (q1, r1)" by fastforce
  have "mq_inv q1 \<and> mq_contents q1 = butlast (mq_contents q) \<and> r1 = Returned (Some (length (snd (last (mq_contents q))), last (mq_contents q)))
        (m_blocked_senders q \<noteq> 0) \<and> m_max_num_msg q1 = m_max_num_msg q \<and> m_max_msg_size q1 = m_max_msg_size q"
    if "\<not> is_empty q" using receive_finish_facts [OF inv that rf] by simp
  then show "mq_inv q' \<and> m_max_num_msg q' = m_max_num_msg q \<and> m_max_msg_size q' = m_max_msg_size q \<and>
      (if n < m_max_msg_size q then r = Raised (interprocess_exception size_error) \<and> mq_contents q' = mq_contents q
       else if mq_contents q = [] then r = Got None \<and> mq_contents q' = mq_contents q
       else r = Got (Some (length (snd (last (mq_contents q))), last (mq_contents q))) \<and> mq_contents q' = butlast (mq_contents q))"
    using inv d rf contents_empty [OF inv] by (auto simp: try_receive_def do_receive_def Let_def split: if_splits)
qed

text \<open>
  C29: For every sequence of \<^verbatim>\<open>try_send\<close> and \<^verbatim>\<open>try_receive\<close> calls on a fresh queue, in any order and with any
  arguments, every call answers what the list of messages in the order of their arrival answers: a message larger
  than the limit and a buffer smaller than it raise \<^verbatim>\<open>size_error\<close>, a full queue refuses the message, an empty one
  has nothing to receive, and otherwise exactly the oldest message of the highest priority in the queue comes
  out, complete and unchanged, with its length. The messages in the queue are those of the list.
\<close>

theorem messages_delivered_in_order:
  "fst (run_ops mq_do ops (mq_construct n sz)) = fst (run_ops (arrival_do n sz) ops [])
   \<and> mset (mq_contents (snd (run_ops mq_do ops (mq_construct n sz)))) = mset (snd (run_ops (arrival_do n sz) ops []))"
proof -
  have "m_max_num_msg (mq_construct n sz) = n" "m_max_msg_size (mq_construct n sz) = sz"
    by (simp_all add: mq_construct_def initialize_memory_def)
  then show ?thesis using mq.run_refines [OF mq_construct_inv, of n sz "[]" ops] mq_construct_contents by simp
qed

theorem messages_delivered_in_order_witness:
  "fst (run_ops mq_do [Try_Send [1] 2, Try_Send [2] 5, Try_Receive 1, Try_Send [3] 2, Try_Send [4] 2, Try_Receive 1,
      Try_Send [5, 6] 9, Try_Receive 1, Try_Receive 1] (mq_construct 2 1)) =
   [Sent True, Sent True, Got (Some (1, 5, [2])), Sent True, Sent False, Got (Some (1, 2, [1])),
    Raised (interprocess_exception size_error), Got (Some (1, 2, [3])), Got None]"
  unfolding messages_delivered_in_order [THEN conjunct1] by (simp add: oldest_of_highest_def Let_def)

end
