(* ===== verification/Message_Queue_Threads.thy ===== *)
theory Message_Queue_Threads
  imports Message_Queue_Spec
begin

text \<open>
  Threads at one message queue. The queue's mutex makes each critical section of
  \<^verbatim>\<open>do_send\<close> and \<^verbatim>\<open>do_receive\<close> one step; a wait on a condition variable releases the mutex and puts
  the thread to sleep in the same step, a notification is sent after the mutex is left and wakes one
  sleeping thread of its condition if there is any, and a sleeping thread may wake for no reason or,
  in a timed wait, by timeout. These are the documented properties of a mutex and a condition
  variable.
\<close>

section \<open>Threads and steps\<close>

datatype mq_thread =
    Idle
  | Send_Asleep mqblock_types "byte list" uint32
  | Send_Awake mqblock_types bool "byte list" uint32
  | Recv_Asleep mqblock_types
  | Recv_Awake mqblock_types bool
  | Notify_Recv
  | Notify_Send

fun is_send_asleep :: "mq_thread \<Rightarrow> bool" where
  "is_send_asleep (Send_Asleep _ _ _) = True" | "is_send_asleep _ = False"

fun is_send_awake :: "mq_thread \<Rightarrow> bool" where
  "is_send_awake (Send_Awake _ _ _ _) = True" | "is_send_awake _ = False"

fun is_recv_asleep :: "mq_thread \<Rightarrow> bool" where
  "is_recv_asleep (Recv_Asleep _) = True" | "is_recv_asleep _ = False"

fun is_recv_awake :: "mq_thread \<Rightarrow> bool" where
  "is_recv_awake (Recv_Awake _ _) = True" | "is_recv_awake _ = False"

record mq_system =
  hdr :: mq_hdr_t
  threads :: "mq_thread list"

definition after_send :: "mqblock_types \<Rightarrow> byte list \<Rightarrow> uint32 \<Rightarrow> bool outcome \<Rightarrow> mq_thread" where
  "after_send Block buffer p r =
     (case r of Waiting \<Rightarrow> Send_Asleep Block buffer p
      | Returned _ notify \<Rightarrow> if notify then Notify_Recv else Idle)"

definition after_receive :: "mqblock_types \<Rightarrow> 'a outcome \<Rightarrow> mq_thread" where
  "after_receive Block r =
     (case r of Waiting \<Rightarrow> Recv_Asleep Block | Returned _ notify \<Rightarrow> if notify then Notify_Send else Idle)"

inductive mq_step :: "mq_system \<Rightarrow> mq_system \<Rightarrow> bool" where
  send_step: "i < length ts \<Longrightarrow> ts ! i = Idle \<Longrightarrow> do_send Block q buffer p = Inr (q', r) \<Longrightarrow>
    mq_step \<lparr>hdr = q, threads = ts\<rparr> \<lparr>hdr = q', threads = ts[i := after_send Block buffer p r]\<rparr>"
| receive_step: "i < length ts \<Longrightarrow> ts ! i = Idle \<Longrightarrow> do_receive Block q n = Inr (q', r) \<Longrightarrow>
    mq_step \<lparr>hdr = q, threads = ts\<rparr> \<lparr>hdr = q', threads = ts[i := after_receive Block r]\<rparr>"
| send_wakes: "i < length ts \<Longrightarrow> ts ! i = Send_Asleep Block buffer p \<Longrightarrow> (t \<longrightarrow> Block = timed) \<Longrightarrow>
    mq_step \<lparr>hdr = q, threads = ts\<rparr> \<lparr>hdr = q, threads = ts[i := Send_Awake Block t buffer p]\<rparr>"
| recv_wakes: "i < length ts \<Longrightarrow> ts ! i = Recv_Asleep Block \<Longrightarrow> (t \<longrightarrow> Block = timed) \<Longrightarrow>
    mq_step \<lparr>hdr = q, threads = ts\<rparr> \<lparr>hdr = q, threads = ts[i := Recv_Awake Block t]\<rparr>"
| send_resumes: "i < length ts \<Longrightarrow> ts ! i = Send_Awake Block t buffer p \<Longrightarrow>
    do_send_resume Block t q buffer p = (q', r) \<Longrightarrow>
    mq_step \<lparr>hdr = q, threads = ts\<rparr> \<lparr>hdr = q', threads = ts[i := after_send Block buffer p r]\<rparr>"
| recv_resumes: "i < length ts \<Longrightarrow> ts ! i = Recv_Awake Block t \<Longrightarrow>
    do_receive_resume Block t q = (q', r) \<Longrightarrow>
    mq_step \<lparr>hdr = q, threads = ts\<rparr> \<lparr>hdr = q', threads = ts[i := after_receive Block r]\<rparr>"
| notify_recv: "i < length ts \<Longrightarrow> ts ! i = Notify_Recv \<Longrightarrow> j < length ts \<Longrightarrow> ts ! j = Recv_Asleep Block \<Longrightarrow>
    mq_step \<lparr>hdr = q, threads = ts\<rparr> \<lparr>hdr = q, threads = ts[i := Idle, j := Recv_Awake Block False]\<rparr>"
| notify_recv_none: "i < length ts \<Longrightarrow> ts ! i = Notify_Recv \<Longrightarrow> num_in is_recv_asleep ts = 0 \<Longrightarrow>
    mq_step \<lparr>hdr = q, threads = ts\<rparr> \<lparr>hdr = q, threads = ts[i := Idle]\<rparr>"
| notify_send: "i < length ts \<Longrightarrow> ts ! i = Notify_Send \<Longrightarrow> j < length ts \<Longrightarrow> ts ! j = Send_Asleep Block buffer p \<Longrightarrow>
    mq_step \<lparr>hdr = q, threads = ts\<rparr> \<lparr>hdr = q, threads = ts[i := Idle, j := Send_Awake Block False buffer p]\<rparr>"
| notify_send_none: "i < length ts \<Longrightarrow> ts ! i = Notify_Send \<Longrightarrow> num_in is_send_asleep ts = 0 \<Longrightarrow>
    mq_step \<lparr>hdr = q, threads = ts\<rparr> \<lparr>hdr = q, threads = ts[i := Idle]\<rparr>"

inductive mq_reach :: "nat \<Rightarrow> nat \<Rightarrow> nat \<Rightarrow> mq_system \<Rightarrow> bool" for n max_num sz where
  init: "mq_reach n max_num sz \<lparr>hdr = mq_construct max_num sz, threads = replicate n Idle\<rparr>"
| step: "mq_reach n max_num sz s \<Longrightarrow> mq_step s s' \<Longrightarrow> mq_reach n max_num sz s'"

fun buffer_fits :: "nat \<Rightarrow> mq_thread \<Rightarrow> bool" where
  "buffer_fits sz (Send_Asleep _ b _) = (length b \<le> sz)"
| "buffer_fits sz (Send_Awake _ _ b _) = (length b \<le> sz)"
| "buffer_fits sz _ = True"

definition sizes_ok :: "mq_system \<Rightarrow> bool" where
  "sizes_ok s \<longleftrightarrow> (\<forall>t\<in>set (threads s). buffer_fits (m_max_msg_size (hdr s)) t)"

definition wake_inv :: "mq_system \<Rightarrow> bool" where
  "wake_inv s \<longleftrightarrow>
     (let q = hdr s; ts = threads s; free_slots = m_max_num_msg q - m_cur_num_msg q
      in m_blocked_senders q = num_in is_send_asleep ts + num_in is_send_awake ts
       \<and> m_blocked_receivers q = num_in is_recv_asleep ts + num_in is_recv_awake ts
       \<and> (num_in is_recv_asleep ts > 0 \<longrightarrow>
           m_cur_num_msg q \<le> num_in (\<lambda>t. t = Notify_Recv) ts + num_in is_recv_awake ts)
       \<and> (num_in is_send_asleep ts > 0 \<longrightarrow>
           free_slots \<le> num_in (\<lambda>t. t = Notify_Send) ts + num_in is_send_awake ts))"

definition mq_sys_inv :: "mq_system \<Rightarrow> bool" where
  "mq_sys_inv s \<longleftrightarrow> mq_inv (hdr s) \<and> sizes_ok s \<and> wake_inv s"

lemma after_send_Returned [simp]: "after_send Block b p (Returned x n) = (if n then Notify_Recv else Idle)"
  by (simp add: after_send_def)

lemma after_send_Waiting [simp]: "after_send Block b p Waiting = Send_Asleep Block b p"
  by (simp add: after_send_def)

lemma after_receive_Returned [simp]: "after_receive Block (Returned x n) = (if n then Notify_Send else Idle)"
  by (simp add: after_receive_def)

lemma after_receive_Waiting [simp]: "after_receive Block Waiting = Recv_Asleep Block"
  by (simp add: after_receive_def)

text \<open>The effect of the critical sections on the counters.\<close>

inductive send_effect :: "mq_hdr_t \<Rightarrow> mq_hdr_t \<Rightarrow> bool outcome \<Rightarrow> bool" where
  sent: "m_cur_num_msg q < m_max_num_msg q \<Longrightarrow> m_cur_num_msg q' = Suc (m_cur_num_msg q) \<Longrightarrow>
    send_effect q q' (Returned True (m_blocked_receivers q \<noteq> 0))"
| refused: "m_cur_num_msg q = m_max_num_msg q \<Longrightarrow> m_cur_num_msg q' = m_cur_num_msg q \<Longrightarrow>
    send_effect q q' (Returned False False)"
| waits: "m_cur_num_msg q = m_max_num_msg q \<Longrightarrow> m_cur_num_msg q' = m_cur_num_msg q \<Longrightarrow>
    send_effect q q' Waiting"

definition keeps :: "mq_hdr_t \<Rightarrow> mq_hdr_t \<Rightarrow> bool" where
  "keeps q q' \<longleftrightarrow> mq_inv q' \<and> m_max_num_msg q' = m_max_num_msg q \<and> m_max_msg_size q' = m_max_msg_size q"

lemma send_finish_effect:
  assumes "mq_inv q" "\<not> is_full q" "length buffer \<le> m_max_msg_size q" "send_finish q buffer p = (q', r)"
  shows "keeps q q' \<and> send_effect q q' r \<and> m_blocked_receivers q' = m_blocked_receivers q
    \<and> m_blocked_senders q' = m_blocked_senders q \<and> r \<noteq> Waiting"
proof -
  have "m_cur_num_msg q < m_max_num_msg q"
    using assms(1,2) by (simp add: mq_inv_def ring_ok_def is_full_def)
  then show ?thesis using send_finish_facts [OF assms] by (simp add: keeps_def send_effect.simps)
qed

lemma do_send_effect:
  assumes "mq_inv q" "do_send Block q buffer p = Inr (q', r)"
  shows "keeps q q' \<and> send_effect q q' r \<and> m_blocked_receivers q' = m_blocked_receivers q
    \<and> m_blocked_senders q' = m_blocked_senders q + (if r = Waiting then 1 else 0)
    \<and> length buffer \<le> m_max_msg_size q"
proof (cases "is_full q")
  case True
  then show ?thesis
    using assms by (auto simp: do_send_def Let_def keeps_def is_full_def
        split: if_splits mqblock_types.splits intro: send_effect.intros)
next
  case False
  then show ?thesis
    using assms send_finish_effect [OF assms(1) False, of buffer p q' r]
    by (auto simp: do_send_def split: if_splits)
qed

lemma do_send_resume_effect:
  assumes "mq_inv q" "length buffer \<le> m_max_msg_size q" "do_send_resume Block t q buffer p = (q', r)"
  shows "keeps q q' \<and> send_effect q q' r \<and> m_blocked_receivers q' = m_blocked_receivers q
    \<and> m_blocked_senders q' = m_blocked_senders q - (if r = Waiting then 0 else 1)"
proof (cases "is_full q")
  case True
  then show ?thesis
    using assms by (auto simp: do_send_resume_def keeps_def is_full_def
        split: if_splits intro: send_effect.intros)
next
  case False
  let ?q = "q\<lparr>m_blocked_senders := m_blocked_senders q - 1\<rparr>"
  have e: "keeps ?q q' \<and> send_effect ?q q' r \<and> m_blocked_receivers q' = m_blocked_receivers ?q
    \<and> m_blocked_senders q' = m_blocked_senders ?q \<and> r \<noteq> Waiting"
    using assms False by (intro send_finish_effect) (auto simp: do_send_resume_def)
  then show ?thesis by (auto simp: keeps_def send_effect.simps)
qed

inductive receive_effect :: "mq_hdr_t \<Rightarrow> mq_hdr_t \<Rightarrow> 'a option outcome \<Rightarrow> bool" where
  received: "m_cur_num_msg q = Suc (m_cur_num_msg q') \<Longrightarrow>
    receive_effect q q' (Returned (Some x) (m_blocked_senders q \<noteq> 0))"
| nothing: "m_cur_num_msg q = 0 \<Longrightarrow> m_cur_num_msg q' = 0 \<Longrightarrow> receive_effect q q' (Returned None False)"
| waits: "m_cur_num_msg q = 0 \<Longrightarrow> m_cur_num_msg q' = 0 \<Longrightarrow> receive_effect q q' Waiting"

lemma receive_finish_effect:
  assumes "mq_inv q" "\<not> is_empty q" "receive_finish q = (q', r)"
  shows "keeps q q' \<and> receive_effect q q' r \<and> m_blocked_receivers q' = m_blocked_receivers q
    \<and> m_blocked_senders q' = m_blocked_senders q \<and> r \<noteq> Waiting"
  using receive_finish_facts [OF assms] by (simp add: keeps_def receive_effect.simps)

lemma do_receive_effect:
  assumes "mq_inv q" "do_receive Block q n = Inr (q', r)"
  shows "keeps q q' \<and> receive_effect q q' r \<and> m_blocked_senders q' = m_blocked_senders q
    \<and> m_blocked_receivers q' = m_blocked_receivers q + (if r = Waiting then 1 else 0)"
proof (cases "is_empty q")
  case True
  then show ?thesis
    using assms by (auto simp: do_receive_def Let_def keeps_def is_empty_def
        split: if_splits mqblock_types.splits intro: receive_effect.intros)
next
  case False
  then show ?thesis
    using assms receive_finish_effect [OF assms(1) False, of q' r]
    by (auto simp: do_receive_def split: if_splits)
qed

lemma do_receive_resume_effect:
  assumes "mq_inv q" "do_receive_resume Block t q = (q', r)"
  shows "keeps q q' \<and> receive_effect q q' r \<and> m_blocked_senders q' = m_blocked_senders q
    \<and> m_blocked_receivers q' = m_blocked_receivers q - (if r = Waiting then 0 else 1)"
proof (cases "is_empty q")
  case True
  then show ?thesis
    using assms by (auto simp: do_receive_resume_def keeps_def is_empty_def
        split: if_splits intro: receive_effect.intros)
next
  case False
  let ?q = "q\<lparr>m_blocked_receivers := m_blocked_receivers q - 1\<rparr>"
  have e: "keeps ?q q' \<and> receive_effect ?q q' r \<and> m_blocked_receivers q' = m_blocked_receivers ?q
    \<and> m_blocked_senders q' = m_blocked_senders ?q \<and> r \<noteq> Waiting"
    using assms False by (intro receive_finish_effect) (auto simp: do_receive_resume_def)
  then show ?thesis by (auto simp: keeps_def receive_effect.simps)
qed

lemma sizes_ok_update:
  assumes "sizes_ok \<lparr>hdr = q, threads = ts\<rparr>" "m_max_msg_size q' = m_max_msg_size q"
    and "sizes_ok \<lparr>hdr = q, threads = [t]\<rparr>"
  shows "sizes_ok \<lparr>hdr = q', threads = ts[i := t]\<rparr>"
  using assms set_update_subset_insert [of ts i t] by (force simp: sizes_ok_def)

lemma mq_step_sizes:
  assumes "mq_step s s'" "mq_inv (hdr s)" "sizes_ok s"
  shows "mq_inv (hdr s') \<and> sizes_ok s'"
  using assms
proof cases
  case (send_step i ts Block q buffer p q' r)
  have "sizes_ok \<lparr>hdr = q, threads = [after_send Block buffer p r]\<rparr>"
    using do_send_effect [of q Block buffer p q' r] send_step assms(2)
    by (cases r) (auto simp: sizes_ok_def)
  then show ?thesis
    using do_send_effect [of q Block buffer p q' r] send_step assms(2,3)
    by (auto simp: keeps_def intro!: sizes_ok_update)
next
  case (receive_step i ts Block q n q' r)
  have "sizes_ok \<lparr>hdr = q, threads = [after_receive Block r]\<rparr>"
    by (cases r) (auto simp: sizes_ok_def)
  then show ?thesis
    using do_receive_effect [of q Block n q' r] receive_step assms(2,3)
    by (auto simp: keeps_def intro!: sizes_ok_update)
next
  case (send_wakes i ts Block buffer p t q)
  have "sizes_ok \<lparr>hdr = q, threads = [Send_Awake Block t buffer p]\<rparr>"
    using send_wakes assms(3) nth_mem [of i ts] by (auto simp: sizes_ok_def)
  then show ?thesis
    using send_wakes assms(2,3) by (auto intro!: sizes_ok_update)
next
  case (recv_wakes i ts Block t q)
  have "sizes_ok \<lparr>hdr = q, threads = [Recv_Awake Block t]\<rparr>" by (simp add: sizes_ok_def)
  then show ?thesis using recv_wakes assms(2,3) by (auto intro!: sizes_ok_update)
next
  case (send_resumes i ts Block t buffer p q q' r)
  have "length buffer \<le> m_max_msg_size q"
    using send_resumes assms(3) nth_mem [of i ts] by (auto simp: sizes_ok_def)
  moreover from this have "sizes_ok \<lparr>hdr = q, threads = [after_send Block buffer p r]\<rparr>"
    by (cases r) (auto simp: sizes_ok_def)
  ultimately show ?thesis
    using do_send_resume_effect [of q buffer Block t p q' r] send_resumes assms(2,3)
    by (auto simp: keeps_def intro!: sizes_ok_update)
next
  case (recv_resumes i ts Block t q q' r)
  have "sizes_ok \<lparr>hdr = q, threads = [after_receive Block r]\<rparr>"
    by (cases r) (auto simp: sizes_ok_def)
  then show ?thesis
    using do_receive_resume_effect [of q Block t q' r] recv_resumes assms(2,3)
    by (auto simp: keeps_def intro!: sizes_ok_update)
next
  case (notify_send i ts j Block buffer p q)
  have "sizes_ok \<lparr>hdr = q, threads = [Send_Awake Block False buffer p]\<rparr>"
    using notify_send assms(3) nth_mem [of j ts] by (auto simp: sizes_ok_def)
  moreover have "sizes_ok \<lparr>hdr = q, threads = [Idle]\<rparr>" by (simp add: sizes_ok_def)
  ultimately show ?thesis
    using notify_send assms(2,3) by (auto intro!: sizes_ok_update)
qed (use assms(2,3) in \<open>auto intro!: sizes_ok_update simp: sizes_ok_def [of "\<lparr>hdr = _, threads = [_]\<rparr>"]\<close>)

lemma wake_inv_fields:
  "wake_inv \<lparr>hdr = q, threads = ts\<rparr> \<longleftrightarrow>
     m_blocked_senders q = num_in is_send_asleep ts + num_in is_send_awake ts
     \<and> m_blocked_receivers q = num_in is_recv_asleep ts + num_in is_recv_awake ts
     \<and> (num_in is_recv_asleep ts > 0 \<longrightarrow>
         m_cur_num_msg q \<le> num_in (\<lambda>t. t = Notify_Recv) ts + num_in is_recv_awake ts)
     \<and> (num_in is_send_asleep ts > 0 \<longrightarrow>
         m_max_num_msg q - m_cur_num_msg q \<le> num_in (\<lambda>t. t = Notify_Send) ts + num_in is_send_awake ts)"
  by (simp add: wake_inv_def Let_def)

lemma wake_inv_send_start:
  assumes w: "wake_inv \<lparr>hdr = q, threads = ts\<rparr>" and i: "i < length ts" "ts ! i = Idle"
    and e: "send_effect q q' r" and m: "m_max_num_msg q' = m_max_num_msg q"
      "m_blocked_receivers q' = m_blocked_receivers q"
      "m_blocked_senders q' = m_blocked_senders q + (if r = Waiting then 1 else 0)"
  shows "wake_inv \<lparr>hdr = q', threads = ts[i := after_send Block b p r]\<rparr>"
  using e by cases ((use w i m in \<open>simp add: wake_inv_fields num_in_update(1)\<close>; linarith)+)

lemma wake_inv_receive_start:
  assumes w: "wake_inv \<lparr>hdr = q, threads = ts\<rparr>" and i: "i < length ts" "ts ! i = Idle"
    and e: "receive_effect q q' r" and m: "m_max_num_msg q' = m_max_num_msg q"
      "m_blocked_senders q' = m_blocked_senders q"
      "m_blocked_receivers q' = m_blocked_receivers q + (if r = Waiting then 1 else 0)"
  shows "wake_inv \<lparr>hdr = q', threads = ts[i := after_receive Block r]\<rparr>"
  using e by cases ((use w i m in \<open>simp add: wake_inv_fields num_in_update(1)\<close>; linarith)+)

lemma wake_inv_send_resume:
  assumes w: "wake_inv \<lparr>hdr = q, threads = ts\<rparr>" and i: "i < length ts" "ts ! i = Send_Awake Block t b p"
    and e: "send_effect q q' r" and m: "m_max_num_msg q' = m_max_num_msg q"
      "m_blocked_receivers q' = m_blocked_receivers q"
      "m_blocked_senders q' = m_blocked_senders q - (if r = Waiting then 0 else 1)"
  shows "wake_inv \<lparr>hdr = q', threads = ts[i := after_send Block b p r]\<rparr>"
proof -
  have "0 < num_in is_send_awake ts" using num_in_update(2) [OF i(1), of is_send_awake] i(2) by simp
  with e show ?thesis
    by cases ((use w i m in \<open>simp add: wake_inv_fields num_in_update(1)\<close>; linarith)+)
qed

lemma wake_inv_recv_resume:
  assumes w: "wake_inv \<lparr>hdr = q, threads = ts\<rparr>" and i: "i < length ts" "ts ! i = Recv_Awake Block t"
    and e: "receive_effect q q' r" and m: "m_max_num_msg q' = m_max_num_msg q"
      "m_blocked_senders q' = m_blocked_senders q"
      "m_blocked_receivers q' = m_blocked_receivers q - (if r = Waiting then 0 else 1)"
  shows "wake_inv \<lparr>hdr = q', threads = ts[i := after_receive Block r]\<rparr>"
proof -
  have "0 < num_in is_recv_awake ts" using num_in_update(2) [OF i(1), of is_recv_awake] i(2) by simp
  with e show ?thesis
    by cases ((use w i m in \<open>simp add: wake_inv_fields num_in_update(1)\<close>; linarith)+)
qed

lemma wake_inv_notify:
  assumes w: "wake_inv \<lparr>hdr = q, threads = ts\<rparr>" and i: "i < length ts" and j: "j < length ts"
  shows "ts ! i = Notify_Recv \<Longrightarrow> ts ! j = Recv_Asleep Block \<Longrightarrow>
      wake_inv \<lparr>hdr = q, threads = ts[i := Idle, j := Recv_Awake Block False]\<rparr>"
    and "ts ! i = Notify_Send \<Longrightarrow> ts ! j = Send_Asleep Block b p \<Longrightarrow>
      wake_inv \<lparr>hdr = q, threads = ts[i := Idle, j := Send_Awake Block False b p]\<rparr>"
proof -
  have ij: "ts[i := Idle] ! j = ts ! j" if "ts ! i \<noteq> ts ! j" using that by (metis nth_list_update_neq)
  note pos = num_in_update(2) [OF i] num_in_update(2) [OF j]
  show "wake_inv \<lparr>hdr = q, threads = ts[i := Idle, j := Recv_Awake Block False]\<rparr>"
    if "ts ! i = Notify_Recv" "ts ! j = Recv_Asleep Block"
    using w i j ij that pos(1) [of "\<lambda>t. t = Notify_Recv"] pos(2) [of is_recv_asleep]
    by (auto simp: wake_inv_fields num_in_update(1))
  show "wake_inv \<lparr>hdr = q, threads = ts[i := Idle, j := Send_Awake Block False b p]\<rparr>"
    if "ts ! i = Notify_Send" "ts ! j = Send_Asleep Block b p"
    using w i j ij that pos(1) [of "\<lambda>t. t = Notify_Send"] pos(2) [of is_send_asleep]
    by (auto simp: wake_inv_fields num_in_update(1))
qed

lemma wake_inv_spurious:
  assumes w: "wake_inv \<lparr>hdr = q, threads = ts\<rparr>" and i: "i < length ts"
  shows "ts ! i = Send_Asleep Block b p \<Longrightarrow> wake_inv \<lparr>hdr = q, threads = ts[i := Send_Awake Block t b p]\<rparr>"
    and "ts ! i = Recv_Asleep Block \<Longrightarrow> wake_inv \<lparr>hdr = q, threads = ts[i := Recv_Awake Block t]\<rparr>"
  using w i num_in_update(2) [OF i, of is_send_asleep] num_in_update(2) [OF i, of is_recv_asleep]
  by (auto simp: wake_inv_fields num_in_update(1))

lemma mq_step_inv:
  assumes "mq_step s s'" "mq_sys_inv s"
  shows "mq_sys_inv s'"
proof -
  have inv: "mq_inv (hdr s)" "sizes_ok s" "wake_inv s" using assms(2) by (simp_all add: mq_sys_inv_def)
  have "wake_inv s'"
    using assms(1)
  proof cases
    case (send_step i ts Block q buffer p q' r)
    then show ?thesis
      using inv do_send_effect [of q Block buffer p q' r] wake_inv_send_start [of q ts i q' r Block buffer p]
      by (simp add: keeps_def)
  next
    case (receive_step i ts Block q n q' r)
    then show ?thesis
      using inv do_receive_effect [of q Block n q' r] wake_inv_receive_start [of q ts i q' r Block]
      by (simp add: keeps_def)
  next
    case (send_resumes i ts Block t buffer p q q' r)
    have "length buffer \<le> m_max_msg_size q"
      using send_resumes inv(2) nth_mem [of i ts] by (auto simp: sizes_ok_def)
    then show ?thesis
      using send_resumes inv do_send_resume_effect [of q buffer Block t p q' r]
        wake_inv_send_resume [of q ts i Block t buffer p q' r]
      by (simp add: keeps_def)
  next
    case (recv_resumes i ts Block t q q' r)
    then show ?thesis
      using inv do_receive_resume_effect [of q Block t q' r] wake_inv_recv_resume [of q ts i Block t q' r]
      by (simp add: keeps_def)
  next
    case (notify_recv_none i ts q)
    then show ?thesis using inv(3) by (auto simp: wake_inv_fields num_in_update(1))
  next
    case (notify_send_none i ts q)
    then show ?thesis using inv(3) by (auto simp: wake_inv_fields num_in_update(1))
  qed (use inv wake_inv_notify wake_inv_spurious in auto)
  then show ?thesis using mq_step_sizes [OF assms(1) inv(1,2)] by (simp add: mq_sys_inv_def)
qed

lemma mq_reach_inv: "mq_reach n max_num sz s \<Longrightarrow> mq_sys_inv s"
proof (induction rule: mq_reach.induct)
  case init
  have "m_blocked_senders (mq_construct max_num sz) = 0" "m_blocked_receivers (mq_construct max_num sz) = 0"
    by (simp_all add: mq_construct_def initialize_memory_def)
  then show ?case
    by (auto simp: mq_sys_inv_def mq_construct_inv sizes_ok_def wake_inv_fields)
next
  case (step s s')
  then show ?case using mq_step_inv by blast
qed

text \<open>A system is at rest when every thread is idle or asleep: no call is under way.\<close>

definition at_rest :: "mq_system \<Rightarrow> bool" where
  "at_rest s \<longleftrightarrow> (\<forall>t\<in>set (threads s). t = Idle \<or> is_send_asleep t \<or> is_recv_asleep t)"

text \<open>
  C15: No wake-up is lost. In every state that any number of threads reach by interleaving sends and
  receives of every kind, with spurious wake-ups and timeouts, whenever no call is under way a
  receiver is asleep only if the queue is empty and a sender only if it is full; and the counts of
  blocked senders and receivers in the header are those of the threads inside a wait.
\<close>
theorem mq_no_lost_wakeup:
  assumes "mq_reach n max_num sz s"
  shows "m_blocked_senders (hdr s) = num_in is_send_asleep (threads s) + num_in is_send_awake (threads s)
    \<and> m_blocked_receivers (hdr s) = num_in is_recv_asleep (threads s) + num_in is_recv_awake (threads s)
    \<and> (at_rest s \<longrightarrow> (\<exists>t\<in>set (threads s). is_recv_asleep t) \<longrightarrow> is_empty (hdr s))
    \<and> (at_rest s \<longrightarrow> (\<exists>t\<in>set (threads s). is_send_asleep t) \<longrightarrow> is_full (hdr s))"
proof -
  obtain q ts where s: "s = \<lparr>hdr = q, threads = ts\<rparr>" by (cases s) auto
  have w: "wake_inv \<lparr>hdr = q, threads = ts\<rparr>" and inv: "mq_inv q"
    using mq_reach_inv [OF assms] by (simp_all add: mq_sys_inv_def s)
  have rest: "num_in P ts = 0" if "at_rest s" "\<And>t. P t \<Longrightarrow> t \<noteq> Idle \<and> \<not> is_send_asleep t \<and> \<not> is_recv_asleep t"
    for P using that by (fastforce simp: num_in_0 at_rest_def s)
  have z: "num_in is_recv_awake ts = 0" "num_in (\<lambda>t. t = Notify_Recv) ts = 0"
    "num_in is_send_awake ts = 0" "num_in (\<lambda>t. t = Notify_Send) ts = 0" if "at_rest s"
    by (rule rest [OF that]; auto elim!: is_recv_awake.elims(2) is_send_awake.elims(2))+
  have "is_empty q" if "at_rest s" "\<exists>t\<in>set ts. is_recv_asleep t"
    using w z [OF that(1)] that(2) num_in_0 [of is_recv_asleep ts] by (auto simp: wake_inv_fields is_empty_def)
  moreover have "is_full q" if "at_rest s" "\<exists>t\<in>set ts. is_send_asleep t"
    using w z [OF that(1)] that(2) num_in_0 [of is_send_asleep ts] inv
    by (auto simp: wake_inv_fields is_full_def mq_inv_def ring_ok_def)
  ultimately show ?thesis using w by (auto simp: s wake_inv_fields)
qed

theorem mq_no_lost_wakeup_witness:
  "\<exists>s. mq_reach 2 1 4 s \<and> threads s = [Recv_Asleep blocking, Idle] \<and> at_rest s \<and> is_empty (hdr s)"
proof -
  let ?q = "mq_construct 1 4"
  let ?s = "\<lparr>hdr = ?q\<lparr>m_blocked_receivers := 1\<rparr>, threads = [Recv_Asleep blocking, Idle]\<rparr>"
  have "do_receive blocking ?q 4 = Inr (?q\<lparr>m_blocked_receivers := 1\<rparr>, Waiting)" by code_simp
  from mq_step.receive_step [OF _ _ this, of 0 "[Idle, Idle]"]
  have "mq_step \<lparr>hdr = ?q, threads = [Idle, Idle]\<rparr> ?s" by simp
  moreover have "mq_reach 2 1 4 \<lparr>hdr = ?q, threads = [Idle, Idle]\<rparr>"
    using mq_reach.init [of 2 1 4] by (simp add: numeral_2_eq_2)
  ultimately have r: "mq_reach 2 1 4 ?s" by (rule mq_reach.step [rotated])
  then have "is_empty (hdr ?s)"
    using mq_no_lost_wakeup [OF r] by (simp add: at_rest_def num_in_def)
  with r show ?thesis by (intro exI [of _ ?s]) (simp add: at_rest_def)
qed
end
