(* ===== verification/Message_Queue_Layout.thy ===== *)
theory Message_Queue_Layout
  imports Message_Queue
begin

text \<open>
  The shared memory of a message queue: \<^verbatim>\<open>get_mem_size\<close> computes how many bytes are requested
  and \<^verbatim>\<open>initialize_memory\<close> where index and messages are put. Both work on a 64-bit
  \<^verbatim>\<open>size_t\<close> without overflow tests. The sizes and alignments the compiler chooses are a
  record of parameters.
\<close>

section \<open>Definitions\<close>

record mq_layout =
  sizeof_mq_hdr :: size_t
  sizeof_msg_header :: size_t
  sizeof_msg_ptr :: size_t
  msg_hdr_align :: size_t
  index_align :: size_t
  user_offset :: size_t

definition r_hdr_size :: "mq_layout \<Rightarrow> size_t" where
  "r_hdr_size L = (case ct_rounded_size (sizeof_mq_hdr L) (index_align L) of Some r \<Rightarrow> r | None \<Rightarrow> 0)"

definition r_index_size :: "mq_layout \<Rightarrow> size_t \<Rightarrow> size_t" where
  "r_index_size L max_num_msg = get_rounded_size (max_num_msg * sizeof_msg_ptr L) (msg_hdr_align L)"

definition r_max_msg_size :: "mq_layout \<Rightarrow> size_t \<Rightarrow> size_t" where
  "r_max_msg_size L max_msg_size = get_rounded_size max_msg_size (msg_hdr_align L) + sizeof_msg_header L"

definition get_mem_size :: "mq_layout \<Rightarrow> size_t \<Rightarrow> size_t \<Rightarrow> size_t" where
  "get_mem_size L max_msg_size max_num_msg =
     r_hdr_size L + r_index_size L max_num_msg + max_num_msg * r_max_msg_size L max_msg_size + user_offset L"

definition get_min_size :: "mq_layout \<Rightarrow> size_t \<Rightarrow> size_t \<Rightarrow> size_t" where
  "get_min_size L m_maxmsg m_maxmsgsize = get_mem_size L m_maxmsgsize m_maxmsg - user_offset L"

text \<open>
  The loop of \<^verbatim>\<open>initialize_memory\<close>: the offsets from the header of the messages the index entries
  get, for \<open>n\<close> entries from a first message at \<open>msg_hdr\<close>.
\<close>

fun index_entries :: "nat \<Rightarrow> size_t \<Rightarrow> size_t \<Rightarrow> size_t list" where
  "index_entries 0 msg_hdr r_max_msg = []"
| "index_entries (Suc n) msg_hdr r_max_msg = msg_hdr # index_entries n (msg_hdr + r_max_msg) r_max_msg"

definition initial_index :: "mq_layout \<Rightarrow> size_t \<Rightarrow> size_t \<Rightarrow> size_t list" where
  "initial_index L max_num_msg max_msg_size =
     index_entries (unat max_num_msg) (r_hdr_size L + r_index_size L max_num_msg)
       (r_max_msg_size L max_msg_size)"

section \<open>Placement of the messages\<close>

lemma length_index_entries [simp]: "length (index_entries n a r) = n"
  by (induction n arbitrary: a) simp_all

lemma nth_index_entries: "i < n \<Longrightarrow> index_entries n a r ! i = a + of_nat i * r"
  by (induction n arbitrary: a i) (auto simp: nth_Cons' algebra_simps split: nat.splits)

text \<open>The sizes of one layout as the naturals they are meant to be.\<close>

definition no_overflow :: "mq_layout \<Rightarrow> size_t \<Rightarrow> size_t \<Rightarrow> bool" where
  "no_overflow L sz n \<longleftrightarrow>
     unat n * unat (sizeof_msg_ptr L) + unat (msg_hdr_align L) \<le> 2 ^ 64
     \<and> unat (get_rounded_size sz (msg_hdr_align L)) + unat (sizeof_msg_header L) < 2 ^ 64
     \<and> unat sz + unat (msg_hdr_align L) \<le> 2 ^ 64
     \<and> unat (r_hdr_size L) + unat (r_index_size L n) + unat n * unat (r_max_msg_size L sz)
         + unat (user_offset L) < 2 ^ 64"

definition sane_layout :: "mq_layout \<Rightarrow> bool" where
  "sane_layout L \<longleftrightarrow> msg_hdr_align L \<noteq> 0 \<and> sizeof_msg_ptr L \<noteq> 0"

lemma rounded_ge:
  assumes "a \<noteq> 0" "unat s + unat a \<le> 2 ^ 64" "s \<noteq> 0"
  shows "unat s \<le> unat (get_rounded_size s a)"
  using get_rounded_size_nat [OF assms(3,1,2)] round_up_nat(1) [of "unat a" "unat s"] assms
  by (simp add: unat_gt_0)

lemma rounded_ge':
  assumes "a \<noteq> 0" "unat s + unat a \<le> 2 ^ 64"
  shows "unat s \<le> unat (get_rounded_size s a)"
  using rounded_ge [OF assms] by (cases "s = 0") simp_all

lemma get_mem_size_nat:
  assumes "no_overflow L sz n"
  shows "unat (get_mem_size L sz n) = unat (r_hdr_size L) + unat (r_index_size L n)
    + unat n * unat (r_max_msg_size L sz) + unat (user_offset L)"
  using assms by (simp add: get_mem_size_def no_overflow_def unat_add_lem' unat_mult_lem')

text \<open>
  C37: As long as no size computation overflows, the messages the constructor puts into the index
  lie one behind the other: each starts after the index, has room for its header and the largest
  message, ends before the next one, and the last ends within the memory asked for.
\<close>
theorem mq_messages_fit:
  assumes "sane_layout L" and "no_overflow L sz n" and "i < unat n"
  shows "unat (r_hdr_size L) + unat n * unat (sizeof_msg_ptr L) \<le> unat (initial_index L n sz ! i)
    \<and> unat (initial_index L n sz ! i) + unat (sizeof_msg_header L) + unat sz \<le> unat (get_min_size L n sz)
    \<and> (Suc i < unat n \<longrightarrow> unat (initial_index L n sz ! i) + unat (sizeof_msg_header L) + unat sz
          \<le> unat (initial_index L n sz ! Suc i))"
proof -
  let ?h = "unat (r_hdr_size L)" and ?x = "unat (r_index_size L n)" and ?m = "unat (r_max_msg_size L sz)"
  have o: "?h + ?x + unat n * ?m + unat (user_offset L) < 2 ^ 64"
    and p: "unat n * unat (sizeof_msg_ptr L) + unat (msg_hdr_align L) \<le> 2 ^ 64"
    and z: "unat (get_rounded_size sz (msg_hdr_align L)) + unat (sizeof_msg_header L) < 2 ^ 64"
      "unat sz + unat (msg_hdr_align L) \<le> 2 ^ 64"
    and a: "msg_hdr_align L \<noteq> 0"
    using assms(1,2) by (simp_all add: no_overflow_def sane_layout_def)
  have "0 < unat (msg_hdr_align L)" using a by (simp add: unat_gt_0)
  then have np: "unat (n * sizeof_msg_ptr L) = unat n * unat (sizeof_msg_ptr L)"
    using p by (intro unat_mult_lem') simp
  have x: "unat n * unat (sizeof_msg_ptr L) \<le> ?x"
    using rounded_ge' [OF a, of "n * sizeof_msg_ptr L"] p by (simp add: r_index_size_def np)
  have m: "unat sz + unat (sizeof_msg_header L) \<le> ?m"
    using rounded_ge' [OF a z(2)] z(1) by (simp add: r_max_msg_size_def unat_add_lem')
  have at: "unat (initial_index L n sz ! j) = ?h + ?x + j * ?m" if "j < unat n" for j
  proof -
    have j: "unat (of_nat j :: size_t) = j" "j * ?m \<le> unat n * ?m"
      using that size_t_bound [of n] by (simp_all add: unat_of_nat)
    have lt: "?h + ?x + j * ?m < 2 ^ 64" using o j(2) by linarith
    have "unat (of_nat j * r_max_msg_size L sz) = j * ?m"
      using lt j(1) by (subst unat_mult_lem') simp_all
    moreover have "unat (r_hdr_size L + r_index_size L n) = ?h + ?x"
      using lt by (intro unat_add_lem') simp
    ultimately have "unat (r_hdr_size L + r_index_size L n + of_nat j * r_max_msg_size L sz) = ?h + ?x + j * ?m"
      using lt by (subst unat_add_lem') simp_all
    then show ?thesis using that by (simp add: initial_index_def nth_index_entries)
  qed
  have mn: "unat (get_min_size L n sz) = ?h + ?x + unat n * ?m"
    using get_mem_size_nat [OF assms(2)] by (simp add: get_min_size_def unat_sub_if_size word_le_nat_alt)
  have "Suc i * ?m \<le> unat n * ?m" using assms(3) by (intro mult_le_mono1) simp
  then show ?thesis using x m at assms(3) by (auto simp: mn)
qed

definition linux_layout :: mq_layout where
  "linux_layout = \<lparr>sizeof_mq_hdr = 192, sizeof_msg_header = 16, sizeof_msg_ptr = 8, msg_hdr_align = 8,
     index_align = 8, user_offset = 16\<rparr>"

theorem mq_messages_fit_witness:
  "sane_layout linux_layout \<and> no_overflow linux_layout 100 10
   \<and> unat (initial_index linux_layout 10 100 ! 9) + 16 + 100 \<le> unat (get_min_size linux_layout 10 100)"
proof -
  have h: "sane_layout linux_layout" "no_overflow linux_layout 100 10" "9 < unat (10 :: size_t)"
    by (simp_all add: sane_layout_def no_overflow_def linux_layout_def r_hdr_size_def r_index_size_def
        r_max_msg_size_def get_rounded_size_def ct_rounded_size_def)
  show ?thesis using h mq_messages_fit [OF h] by (simp add: linux_layout_def)
qed

text \<open>
  get_mem_size does not detect overflow. For 2^61 messages of at most 8 bytes (pointers of 8
  bytes, headers of 16, alignment 8) every term wraps to zero: the memory asked for holds only the
  header, though the constructor goes on to write 2^61 index entries.
\<close>
theorem get_mem_size_wraps:
  assumes "sizeof_msg_ptr L = 8" and "sizeof_msg_header L = 16" and "msg_hdr_align L = 8"
  shows "get_mem_size L 8 (2 ^ 61) = r_hdr_size L + user_offset L
    \<and> length (initial_index L (2 ^ 61) 8) = 2 ^ 61"
proof -
  have "r_index_size L (2 ^ 61) = 0" "2 ^ 61 * r_max_msg_size L 8 = 0"
    using assms by (simp_all add: r_index_size_def r_max_msg_size_def get_rounded_size_def)
  moreover have "unat (2 ^ 61 :: size_t) = 2 ^ 61" by (rule unat_pow2_size) simp
  ultimately show ?thesis by (simp only: get_mem_size_def initial_index_def length_index_entries) simp
qed

theorem get_mem_size_wraps_witness: "get_mem_size linux_layout 8 (2 ^ 61) = 208"
proof -
  have r: "r_hdr_size linux_layout = 192" by code_simp
  show ?thesis
    using get_mem_size_wraps [of linux_layout] unfolding r by (simp add: linux_layout_def)
qed

end
