(* ===== verification/Mem_Algo_Common.thy ===== *)
theory Mem_Algo_Common
  imports Arith_Utils "HOL-Library.Monad_Syntax"
begin

text \<open>
  The allocation functions shared by the memory algorithms, mem\_algo/detail/mem\_algo\_common.hpp:
  shrinking a buffer, over-aligned allocation, allocation of many buffers. The class
  \<^verbatim>\<open>memory_algorithm_common\<close> is a template over the algorithm; here the algorithm is a record of the
  constants and operations it provides. Addresses and the sizes of existing blocks, which live in
  the address space, are naturals; sizes asked for by the caller are 64-bit words, as their
  arithmetic may wrap. An operation that does not return is None.
\<close>

section \<open>What an algorithm provides\<close>

record 's memory_algorithm =
  Alignment :: nat
  AllocatedCtrlUnits :: nat
  BlockCtrlUnits :: nat
  UsableByPreviousChunk :: nat
  get_block_size :: "'s \<Rightarrow> nat \<Rightarrow> nat"
  set_block_size :: "'s \<Rightarrow> nat \<Rightarrow> nat \<Rightarrow> 's"
  priv_mark_new_allocated_block :: "'s \<Rightarrow> nat \<Rightarrow> 's"
  priv_deallocate :: "'s \<Rightarrow> nat \<Rightarrow> 's option"
  priv_allocate_new :: "'s \<Rightarrow> size_t \<Rightarrow> size_t \<Rightarrow> ('s \<times> nat) option"
  priv_get_total_units :: "size_t \<Rightarrow> size_t"

definition AllocatedCtrlBytes :: "'s memory_algorithm \<Rightarrow> nat" where
  "AllocatedCtrlBytes M = AllocatedCtrlUnits M * Alignment M"

definition BlockCtrlBytes :: "'s memory_algorithm \<Rightarrow> nat" where
  "BlockCtrlBytes M = BlockCtrlUnits M * Alignment M"

definition priv_get_block :: "'s memory_algorithm \<Rightarrow> nat \<Rightarrow> nat" where
  "priv_get_block M ptr = ptr - AllocatedCtrlBytes M"

definition priv_get_user_buffer :: "'s memory_algorithm \<Rightarrow> nat \<Rightarrow> nat" where
  "priv_get_user_buffer M block = block + AllocatedCtrlBytes M"

section \<open>Units\<close>

definition check_alignment :: "'s memory_algorithm \<Rightarrow> nat \<Rightarrow> bool" where
  "check_alignment M ptr \<longleftrightarrow> ptr mod Alignment M = 0"

definition ceil_units :: "'s memory_algorithm \<Rightarrow> size_t \<Rightarrow> size_t" where
  "ceil_units M sz = get_rounded_size sz (of_nat (Alignment M)) div of_nat (Alignment M)"

definition floor_units :: "'s memory_algorithm \<Rightarrow> size_t \<Rightarrow> size_t" where
  "floor_units M sz = sz div of_nat (Alignment M)"

definition user_buffer_ceil_units :: "'s memory_algorithm \<Rightarrow> size_t \<Rightarrow> size_t" where
  "user_buffer_ceil_units M sz =
     (if sz \<le> of_nat (UsableByPreviousChunk M) then 0
      else ceil_units M (sz - of_nat (UsableByPreviousChunk M)))"

definition multiple_of_units :: "'s memory_algorithm \<Rightarrow> size_t \<Rightarrow> size_t" where
  "multiple_of_units M sz = get_rounded_size sz (of_nat (Alignment M))"

section \<open>Shrinking\<close>

text \<open>The answer and the value left in \<^verbatim>\<open>received_size\<close>.\<close>

definition try_shrink ::
  "'s memory_algorithm \<Rightarrow> 's \<Rightarrow> nat \<Rightarrow> size_t \<Rightarrow> size_t \<Rightarrow> bool \<times> nat" where
  "try_shrink M s ptr max_size preferred_size =
     (let block = priv_get_block M ptr;
          old_block_units = get_block_size M s block;
          received_size = (old_block_units - AllocatedCtrlUnits M) * Alignment M + UsableByPreviousChunk M;
          max_user_units = unat (floor_units M (max_size - of_nat (UsableByPreviousChunk M)));
          preferred_user_units = unat (ceil_units M (preferred_size - of_nat (UsableByPreviousChunk M)))
      in if max_user_units < preferred_user_units then (False, received_size)
         else
           (let old_user_units = old_block_units - AllocatedCtrlUnits M
            in if old_user_units < preferred_user_units then (False, received_size)
               else if old_user_units = preferred_user_units then (True, received_size)
               else
                 (let shrunk_user_units =
                        (if BlockCtrlUnits M - AllocatedCtrlUnits M \<ge> preferred_user_units
                         then BlockCtrlUnits M - AllocatedCtrlUnits M else preferred_user_units)
                  in if max_user_units < shrunk_user_units then (False, received_size)
                     else if old_user_units - shrunk_user_units < BlockCtrlUnits M
                     then (False, received_size)
                     else (True, shrunk_user_units * Alignment M + UsableByPreviousChunk M))))"

definition shrink ::
  "'s memory_algorithm \<Rightarrow> 's \<Rightarrow> nat \<Rightarrow> size_t \<Rightarrow> size_t \<Rightarrow> ('s \<times> bool \<times> nat) option" where
  "shrink M s ptr max_size preferred_size =
     (let block = priv_get_block M ptr;
          old_block_units = get_block_size M s block;
          (ok, received_size) = try_shrink M s ptr max_size preferred_size
      in if \<not> ok then Some (s, False, received_size)
         else if old_block_units - AllocatedCtrlUnits M =
                 unat (ceil_units M (preferred_size - of_nat (UsableByPreviousChunk M)))
         then Some (s, True, received_size)
         else
           (let new_units =
                  (received_size - UsableByPreviousChunk M) div Alignment M + AllocatedCtrlUnits M;
                s1 = set_block_size M s block new_units;
                new_block = block + get_block_size M s1 block * Alignment M;
                s2 = set_block_size M s1 new_block (old_block_units - get_block_size M s1 block);
                s3 = priv_mark_new_allocated_block M s2 block;
                s4 = priv_mark_new_allocated_block M s3 new_block
            in do {
              s5 \<leftarrow> priv_deallocate M s4 (priv_get_user_buffer M new_block);
              Some (s5, True, received_size)
            }))"

section \<open>Over-aligned allocation\<close>

text \<open>\<open>give_back\<close>: write a block of \<open>units\<close> units as an allocated one and deallocate it.\<close>

definition give_back :: "'s memory_algorithm \<Rightarrow> 's \<Rightarrow> nat \<Rightarrow> nat \<Rightarrow> 's option" where
  "give_back M s block units =
     (let s1 = set_block_size M s block units;
          s2 = priv_mark_new_allocated_block M s1 block
      in priv_deallocate M s2 (priv_get_user_buffer M block))"

definition overaligned_request :: "'s memory_algorithm \<Rightarrow> size_t \<Rightarrow> size_t \<Rightarrow> size_t" where
  "overaligned_request M nbytes alignment =
     (let needed_units = user_buffer_ceil_units M nbytes;
          needed_units = needed_units +
            max_value needed_units (of_nat (BlockCtrlUnits M - AllocatedCtrlUnits M));
          needed_units = needed_units + of_nat (BlockCtrlUnits M);
          needed_units = needed_units + (alignment - of_nat (Alignment M)) div of_nat (Alignment M)
      in needed_units * of_nat (Alignment M) + of_nat (UsableByPreviousChunk M))"

definition min_block_units :: "'s memory_algorithm \<Rightarrow> size_t \<Rightarrow> nat" where
  "min_block_units M nbytes =
     unat (max_value (user_buffer_ceil_units M nbytes + of_nat (AllocatedCtrlUnits M))
             (of_nat (BlockCtrlUnits M)))"

definition priv_allocate_overaligned ::
  "'s memory_algorithm \<Rightarrow> 's \<Rightarrow> size_t \<Rightarrow> size_t \<Rightarrow> ('s \<times> nat) option" where
  "priv_allocate_overaligned M s nbytes alignment =
     (let request = overaligned_request M nbytes alignment
      in do {
        (s, buffer) \<leftarrow> priv_allocate_new M s request request;
        if buffer = 0 then Some (s, 0)
        else if of_nat buffer AND (alignment - 1) = 0
        then
          (let first = priv_get_block M buffer;
               orig_first_units = get_block_size M s first;
               first_min_units = min_block_units M nbytes
           in if orig_first_units \<ge> first_min_units + BlockCtrlUnits M
              then
                (let second = first + Alignment M * first_min_units;
                     s1 = set_block_size M s first first_min_units;
                     s2 = priv_mark_new_allocated_block M s1 first
                 in do {
                   s3 \<leftarrow> give_back M s2 second (orig_first_units - first_min_units);
                   Some (s3, buffer)
                 })
              else Some (s, buffer))
        else
          (let first = priv_get_block M buffer;
               usr_buf = unat ((of_nat (buffer + BlockCtrlBytes M) + alignment - 1) AND - alignment);
               orig_first_units = get_block_size M s first;
               second = priv_get_block M usr_buf;
               final_first_units = (second - first) div Alignment M;
               orig_second_units = orig_first_units - final_first_units;
               second_min_units = min_block_units M nbytes
           in do {
             s2 \<leftarrow>
               (if orig_second_units \<ge> second_min_units + BlockCtrlUnits M
                then
                  (let third = second + Alignment M * second_min_units;
                       s1 = set_block_size M s second second_min_units;
                       s1 = set_block_size M s1 third (orig_second_units - get_block_size M s1 second);
                       s1 = priv_mark_new_allocated_block M s1 second;
                       s1 = priv_mark_new_allocated_block M s1 third
                   in priv_deallocate M s1 (priv_get_user_buffer M third))
                else Some (priv_mark_new_allocated_block M (set_block_size M s second orig_second_units) second));
             s3 \<leftarrow> give_back M s2 first final_first_units;
             Some (s3, usr_buf)
           })
      })"

definition allocate_aligned ::
  "'s memory_algorithm \<Rightarrow> 's \<Rightarrow> size_t \<Rightarrow> size_t \<Rightarrow> ('s \<times> nat) option" where
  "allocate_aligned M s nbytes alignment =
     (if alignment AND (alignment - 1) \<noteq> 0 then Some (s, 0)
      else if alignment \<le> of_nat (Alignment M) then priv_allocate_new M s nbytes nbytes
      else priv_allocate_overaligned M s nbytes alignment)"

section \<open>Allocating many buffers\<close>

text \<open>
  \<^verbatim>\<open>priv_allocate_many\<close>. The elements' lengths are a list; \<open>sizeof_element = 0\<close> asks for
  \<open>n_elements\<close> buffers of the size at the head of the list. The chain of buffers is a list.
\<close>

definition elem_units_of :: "'s memory_algorithm \<Rightarrow> size_t \<Rightarrow> size_t" where
  "elem_units_of M bytes =
     (let ptr_size_units = priv_get_total_units M 8; elem_units = priv_get_total_units M bytes
      in if ptr_size_units > elem_units then ptr_size_units else elem_units)"

fun sum_request_units :: "'s memory_algorithm \<Rightarrow> size_t list \<Rightarrow> size_t \<Rightarrow> size_t \<Rightarrow> size_t" where
  "sum_request_units M [] sizeof_element sm = sm"
| "sum_request_units M (e # es) sizeof_element sm =
     (if multiplication_overflows e sizeof_element then 0
      else (let elem_units = elem_units_of M (e * sizeof_element)
            in if sum_overflows sm elem_units then 0
               else sum_request_units M es sizeof_element (sm + elem_units)))"

definition elem_units_at :: "'s memory_algorithm \<Rightarrow> size_t list \<Rightarrow> size_t \<Rightarrow> nat \<Rightarrow> nat" where
  "elem_units_at M elem_sizes sizeof_element i =
     unat (if sizeof_element = 0 then elem_units_of M (elem_sizes ! 0)
           else elem_units_of M (elem_sizes ! i * sizeof_element))"

text \<open>
  The inner loop carves a received block of \<open>received_units\<close> units into elements; it returns the
  state, the next element, the units still to request and the chain.
\<close>

partial_function (option) carve_many ::
  "'s memory_algorithm \<Rightarrow> size_t list \<Rightarrow> nat \<Rightarrow> size_t \<Rightarrow> 's \<Rightarrow> nat \<Rightarrow> size_t \<Rightarrow> nat list \<Rightarrow> nat \<Rightarrow> nat \<Rightarrow> nat
     \<Rightarrow> ('s \<times> nat \<times> size_t \<times> nat list) option" where
  "carve_many M elem_sizes n_elements sizeof_element s low_idx total_request_units chain
      block_address total_used_units received_units =
     (if \<not> total_used_units < received_units then Some (s, low_idx, total_request_units, chain)
      else
        (let elem_units = elem_units_at M elem_sizes sizeof_element low_idx
         in if total_used_units + elem_units > received_units
            then Some (s, low_idx, total_request_units, chain)
            else
              (let total_request_units = total_request_units - of_nat elem_units;
                   new_block = block_address;
                   is_last = (low_idx + 1 = n_elements \<or>
                     total_used_units + elem_units + elem_units_at M elem_sizes sizeof_element (low_idx + 1)
                       > received_units)
               in do {
                 (s, received_units) \<leftarrow>
                   (if is_last
                    then
                      (let rest = received_units - total_used_units;
                           s1 = priv_mark_new_allocated_block M (set_block_size M s new_block rest) new_block
                       in if rest \<ge> elem_units + BlockCtrlUnits M
                          then
                            (let shrunk_request = of_nat
                                   (elem_units * Alignment M - AllocatedCtrlBytes M + UsableByPreviousChunk M)
                             in do {
                               (s2, _, _) \<leftarrow>
                                 shrink M s1 (priv_get_user_buffer M new_block) shrunk_request shrunk_request;
                               Some (s2, elem_units + total_used_units)
                             })
                          else Some (s1, received_units))
                    else Some (priv_mark_new_allocated_block M (set_block_size M s new_block elem_units) new_block,
                               received_units));
                 carve_many M elem_sizes n_elements sizeof_element s (low_idx + 1) total_request_units
                   (chain @ [priv_get_user_buffer M new_block])
                   (block_address + get_block_size M s new_block * Alignment M)
                   (total_used_units + get_block_size M s new_block) received_units
               })))"

text \<open>
  The outer loop requests blocks until every element has its buffer. \<open>alloc\<close> is the algorithm's
  \<^verbatim>\<open>priv_allocate\<close> for new memory at an alignment.
\<close>

partial_function (option) request_many ::
  "'s memory_algorithm \<Rightarrow> ('s \<Rightarrow> size_t \<Rightarrow> size_t \<Rightarrow> size_t \<Rightarrow> ('s \<times> nat) option) \<Rightarrow> size_t list \<Rightarrow> nat \<Rightarrow>
     size_t \<Rightarrow> size_t \<Rightarrow> 's \<Rightarrow> nat \<Rightarrow> size_t \<Rightarrow> nat list \<Rightarrow> ('s \<times> nat \<times> nat list) option" where
  "request_many M alloc elem_sizes n_elements alignment sizeof_element s low_idx total_request_units chain =
     (if \<not> low_idx < n_elements then Some (s, low_idx, chain)
      else
        (let ctrl = of_nat (AllocatedCtrlBytes M); usable = of_nat (UsableByPreviousChunk M);
             total_bytes = total_request_units * of_nat (Alignment M) - ctrl + usable;
             min_allocation =
               (if sizeof_element = 0 then of_nat (elem_units_at M elem_sizes sizeof_element 0)
                else priv_get_total_units M (elem_sizes ! low_idx * sizeof_element));
             min_allocation = min_allocation * of_nat (Alignment M) - ctrl + usable
         in do {
           (s, ret) \<leftarrow> alloc s min_allocation total_bytes alignment;
           if ret = 0 then Some (s, low_idx, chain)
           else
             (let block = priv_get_block M ret
              in do {
                (s, low_idx, total_request_units, chain) \<leftarrow>
                  carve_many M elem_sizes n_elements sizeof_element s low_idx total_request_units chain
                    block 0 (get_block_size M s block);
                request_many M alloc elem_sizes n_elements alignment sizeof_element s low_idx
                  total_request_units chain
              })
         }))"

fun priv_deallocate_many :: "'s memory_algorithm \<Rightarrow> 's \<Rightarrow> nat list \<Rightarrow> 's option" where
  "priv_deallocate_many M s [] = Some s"
| "priv_deallocate_many M s (p # chain) =
     do { s' \<leftarrow> priv_deallocate M s p; priv_deallocate_many M s' chain }"

definition priv_allocate_many ::
  "'s memory_algorithm \<Rightarrow> ('s \<Rightarrow> size_t \<Rightarrow> size_t \<Rightarrow> size_t \<Rightarrow> ('s \<times> nat) option) \<Rightarrow> 's \<Rightarrow> size_t list \<Rightarrow> nat \<Rightarrow>
     size_t \<Rightarrow> size_t \<Rightarrow> ('s \<times> nat list) option" where
  "priv_allocate_many M alloc s elem_sizes n_elements alignment sizeof_element =
     (let total_request_units =
            (if sizeof_element = 0 then of_nat n_elements * elem_units_of M (elem_sizes ! 0)
             else sum_request_units M (take n_elements elem_sizes) sizeof_element 0)
      in if total_request_units \<noteq> 0 \<and> \<not> multiplication_overflows total_request_units (of_nat (Alignment M))
         then do {
           (s, low_idx, chain) \<leftarrow>
             request_many M alloc elem_sizes n_elements alignment sizeof_element s 0 total_request_units [];
           if low_idx \<noteq> n_elements
           then do { s' \<leftarrow> priv_deallocate_many M s chain; Some (s', []) }
           else Some (s, chain)
         }
         else Some (s, []))"

text \<open>
  The two public overloads. The second one passes \<^verbatim>\<open>sizeof_element\<close> and \<^verbatim>\<open>alignment\<close> in the
  order of its own parameters, which is not the order \<^verbatim>\<open>priv_allocate_many\<close> declares.
\<close>

definition allocate_many_same ::
  "'s memory_algorithm \<Rightarrow> ('s \<Rightarrow> size_t \<Rightarrow> size_t \<Rightarrow> size_t \<Rightarrow> ('s \<times> nat) option) \<Rightarrow> 's \<Rightarrow> size_t \<Rightarrow> nat \<Rightarrow> size_t \<Rightarrow>
     ('s \<times> nat list) option" where
  "allocate_many_same M alloc s elem_bytes n_elements alignment =
     priv_allocate_many M alloc s [elem_bytes] n_elements alignment 0"

definition allocate_many_sizes ::
  "'s memory_algorithm \<Rightarrow> ('s \<Rightarrow> size_t \<Rightarrow> size_t \<Rightarrow> size_t \<Rightarrow> ('s \<times> nat) option) \<Rightarrow> 's \<Rightarrow> size_t list \<Rightarrow> nat \<Rightarrow>
     size_t \<Rightarrow> size_t \<Rightarrow> ('s \<times> nat list) option" where
  "allocate_many_sizes M alloc s elem_sizes n_elements sizeof_element alignment =
     priv_allocate_many M alloc s elem_sizes n_elements sizeof_element alignment"

section \<open>Backwards expansion sizes\<close>

text \<open>
  \<^verbatim>\<open>calculate_lcm_and_needs_backwards_lcmed\<close>: None is the answer false; the pair is
  \<^verbatim>\<open>lcm_out\<close> and \<^verbatim>\<open>needs_backwards_lcmed_out\<close>. The inner option is a call of lcm that does not return.
\<close>

definition calculate_lcm_and_needs_backwards_lcmed ::
  "size_t \<Rightarrow> size_t \<Rightarrow> size_t \<Rightarrow> size_t \<Rightarrow> (size_t \<times> size_t) option option" where
  "calculate_lcm_and_needs_backwards_lcmed backwards_multiple alignment received_size size_to_achieve =
     (let mx = max_value backwards_multiple alignment; mn = min_value backwards_multiple alignment
      in if backwards_multiple AND (backwards_multiple - 1) = 0
         then
           if size_to_achieve AND (backwards_multiple - 1) \<noteq> 0 then None
           else (let lcm_val = mx;
                     current_forward = get_truncated_size_po2 received_size backwards_multiple;
                     needs_backwards = size_to_achieve - current_forward
                 in Some (Some (lcm_val, get_rounded_size_po2 needs_backwards lcm_val)))
         else
           (let current_forward = get_truncated_size received_size backwards_multiple;
                needs_backwards = size_to_achieve - current_forward
            in if backwards_multiple AND (alignment - 1) = 0
               then Some (Some (backwards_multiple, needs_backwards))
               else if backwards_multiple AND (alignment div 2 - 1) = 0
               then Some (Some (backwards_multiple * 2,
                      if needs_backwards AND (alignment - 1) \<noteq> 0
                      then needs_backwards + backwards_multiple else needs_backwards))
               else if backwards_multiple AND (alignment div 4 - 1) = 0
               then
                 (let remainder = drop_bit (unat (alignment div 8)) (needs_backwards AND (alignment - 1))
                  in Some (Some (backwards_multiple * 4,
                       if remainder \<noteq> 0
                       then if backwards_multiple AND (alignment div 2) \<noteq> 0
                            then needs_backwards + remainder * backwards_multiple
                            else needs_backwards + (4 - remainder) * backwards_multiple
                       else needs_backwards)))
               else (case lcm_w mx mn of
                       None \<Rightarrow> Some None
                     | Some lcm_val \<Rightarrow> Some (Some (lcm_val, get_rounded_size needs_backwards lcm_val)))))"

end
