(* ===== verification/Seq_Fit.thy ===== *)
theory Seq_Fit
  imports Mem_Algo_Common
begin

text \<open>
  The simple sequential fit algorithm, mem\_algo/detail/simple\_seq\_fit\_impl.hpp. The managed segment
  is cut into blocks of 16-byte units; each starts with a control structure that holds the block's
  size in units and, for a free block, the address of the next free block. The free blocks form a
  circular list through \<^verbatim>\<open>m_header.m_root\<close>, ordered by address; an allocated block has next address 0.
  The state keeps the control structures in a heap, a function from addresses. The numbers are those of
  a 64-bit platform: alignment 16, an \<^verbatim>\<open>offset_ptr\<close> and a \<^verbatim>\<open>size_t\<close> in 16 bytes of control data.
\<close>

section \<open>State\<close>

record block_ctrl =
  bc_next :: nat
  bc_size :: nat

record seq_fit =
  sf_this :: nat
  sf_root :: nat
  sf_heap :: "nat \<Rightarrow> block_ctrl"
  m_allocated :: nat
  sf_size :: nat
  m_extra_hdr_bytes :: nat

text \<open>The subtraction wraps when the size is 0.\<close>

definition get_user_bytes :: "block_ctrl \<Rightarrow> nat" where
  "get_user_bytes b = unat (of_nat (bc_size b * 16) - 16 :: size_t)"

definition get_total_bytes :: "block_ctrl \<Rightarrow> nat" where
  "get_total_bytes b = bc_size b * 16"

definition upd_next :: "seq_fit \<Rightarrow> nat \<Rightarrow> nat \<Rightarrow> seq_fit" where
  "upd_next st a n = st\<lparr>sf_heap := (sf_heap st)(a := (sf_heap st a)\<lparr>bc_next := n\<rparr>)\<rparr>"

definition upd_size :: "seq_fit \<Rightarrow> nat \<Rightarrow> nat \<Rightarrow> seq_fit" where
  "upd_size st a n = st\<lparr>sf_heap := (sf_heap st)(a := (sf_heap st a)\<lparr>bc_size := n\<rparr>)\<rparr>"

abbreviation next_of :: "seq_fit \<Rightarrow> nat \<Rightarrow> nat" where
  "next_of st a \<equiv> bc_next (sf_heap st a)"

abbreviation size_of :: "seq_fit \<Rightarrow> nat \<Rightarrow> nat" where
  "size_of st a \<equiv> bc_size (sf_heap st a)"

section \<open>Construction\<close>

text \<open>\<open>sz\<close> is \<^verbatim>\<open>sizeof(simple_seq_fit_impl)\<close>.\<close>

definition priv_first_block_offset :: "nat \<Rightarrow> nat \<Rightarrow> nat \<Rightarrow> nat" where
  "priv_first_block_offset sz this_ptr extra_hdr_bytes =
     (let uint_aligned_this = this_ptr div 16 * 16;
          this_disalignment = this_ptr - uint_aligned_this
      in unat (get_rounded_size (of_nat (sz + extra_hdr_bytes + this_disalignment)) 16) - this_disalignment)"

definition priv_block_end_offset :: "seq_fit \<Rightarrow> nat" where
  "priv_block_end_offset st =
     (let uint_aligned_this = sf_this st div 16 * 16;
          this_disalignment = sf_this st - uint_aligned_this
      in unat (get_truncated_size (of_nat (sf_size st + this_disalignment)) 16) - this_disalignment)"

text \<open>The constructor on memory with contents \<open>heap\<close>.\<close>

definition sf_construct :: "nat \<Rightarrow> nat \<Rightarrow> nat \<Rightarrow> (nat \<Rightarrow> block_ctrl) \<Rightarrow> nat \<Rightarrow> nat \<Rightarrow> seq_fit" where
  "sf_construct sz this_ptr root heap segment_size extra_hdr_bytes =
     (let st = \<lparr>sf_this = this_ptr, sf_root = root, sf_heap = heap, m_allocated = 0,
                sf_size = segment_size, m_extra_hdr_bytes = extra_hdr_bytes\<rparr>;
          block1_off = priv_first_block_offset sz this_ptr extra_hdr_bytes;
          st = upd_next st root (this_ptr + block1_off);
          st = upd_size st (next_of st root) ((segment_size - block1_off) div 16)
      in upd_next st (next_of st root) root)"

definition sf_get_min_size :: "nat \<Rightarrow> nat \<Rightarrow> nat" where
  "sf_get_min_size sz extra_hdr_bytes =
     unat (get_rounded_size (of_nat sz) 16 + get_rounded_size (of_nat extra_hdr_bytes) 16 + 16)"

section \<open>Deallocation\<close>

partial_function (option) sf_find_pos :: "seq_fit \<Rightarrow> nat \<Rightarrow> nat \<Rightarrow> nat \<Rightarrow> (nat \<times> nat) option" where
  "sf_find_pos st block prev pos =
     (if pos \<noteq> sf_root st \<and> block > pos then sf_find_pos st block pos (next_of st pos)
      else Some (prev, pos))"

definition sf_priv_deallocate :: "seq_fit \<Rightarrow> nat \<Rightarrow> seq_fit option" where
  "sf_priv_deallocate st addr =
     (if addr = 0 then Some st
      else
        (let block = addr - 16;
             total_size = 16 * size_of st block;
             st = st\<lparr>m_allocated := m_allocated st - total_size\<rparr>
         in do {
           (prev, pos) \<leftarrow> sf_find_pos st block (sf_root st) (next_of st (sf_root st));
           let st =
             (if block + 16 * size_of st block = pos
              then upd_next (upd_size st block (size_of st block + size_of st pos)) block (next_of st pos)
              else upd_next st block pos);
           Some
             (if prev + 16 * size_of st prev = block
              then upd_next (upd_size st prev (size_of st prev + size_of st block)) prev (next_of st block)
              else upd_next st prev block)
         }))"

definition sf_deallocate :: "seq_fit \<Rightarrow> nat \<Rightarrow> seq_fit option" where
  "sf_deallocate st addr = (if addr = 0 then Some st else sf_priv_deallocate st addr)"

section \<open>Allocation\<close>

text \<open>The user buffer (0 if the block is too small), the received size and the state.\<close>

definition priv_check_and_allocate :: "seq_fit \<Rightarrow> nat \<Rightarrow> nat \<Rightarrow> nat \<Rightarrow> seq_fit \<times> nat \<times> nat" where
  "priv_check_and_allocate st nunits prev block =
     (let upper_nunits = nunits + 1;
          (found, st) =
            (if size_of st block > upper_nunits
             then
               (let total_size = size_of st block;
                    st = upd_size st block nunits;
                    new_block = block + 16 * nunits;
                    st = upd_size st new_block (total_size - nunits);
                    st = upd_next st new_block (next_of st block);
                    st = upd_next st prev new_block
                in (True, st))
             else if size_of st block \<ge> nunits then (True, upd_next st prev (next_of st block))
             else (False, st))
      in if found
         then (let st = st\<lparr>m_allocated := m_allocated st + size_of st block * 16\<rparr>;
                   received_size = get_user_bytes (sf_heap st block);
                   st = upd_next st block 0
               in (st, block + 16, received_size))
         else (st, 0, 0))"

text \<open>
  The search loop of \<^verbatim>\<open>priv_allocate\<close>: state, address (0 if no block fits), received size, and the
  biggest block with its predecessor (0 if the list is empty).
\<close>

partial_function (option) sf_search ::
  "seq_fit \<Rightarrow> nat \<Rightarrow> nat \<Rightarrow> nat \<Rightarrow> nat \<Rightarrow> nat \<Rightarrow> nat \<Rightarrow> (seq_fit \<times> nat \<times> nat \<times> nat \<times> nat) option" where
  "sf_search st nunits prev block biggest_size prev_biggest_block biggest_block =
     (if block = sf_root st then Some (st, 0, 0, prev_biggest_block, biggest_block)
      else
        (let (biggest_size, prev_biggest_block, biggest_block) =
               (if size_of st block > biggest_size then (size_of st block, prev, block)
                else (biggest_size, prev_biggest_block, biggest_block));
             (st', addr, received) = priv_check_and_allocate st nunits prev block
         in if addr \<noteq> 0 then Some (st', addr, received, prev_biggest_block, biggest_block)
            else sf_search st' nunits block (next_of st' block) biggest_size prev_biggest_block biggest_block))"

text \<open>
  The branch of \<^verbatim>\<open>priv_allocate\<close> for new memory at the default alignment: state, address and received
  size.
\<close>

definition sf_allocate_branch :: "seq_fit \<Rightarrow> size_t \<Rightarrow> size_t \<Rightarrow> (seq_fit \<times> nat \<times> nat) option" where
  "sf_allocate_branch st limit_size preferred_size =
     (let nunits = unat (get_rounded_size preferred_size 16 div 16 + 1)
      in do {
        (st, addr, received, prev_biggest_block, biggest_block) \<leftarrow>
          sf_search st nunits (sf_root st) (next_of st (sf_root st)) 0 0 0;
        if addr \<noteq> 0 then Some (st, addr, received)
        else if biggest_block \<noteq> 0
        then
          (let limit_units = unat (get_rounded_size limit_size 16 div 16 + 1)
           in if size_of st biggest_block < limit_units then Some (st, 0, 0)
              else Some (priv_check_and_allocate st (size_of st biggest_block) prev_biggest_block biggest_block))
        else Some (st, 0, 0)
      })"

text \<open>\<^verbatim>\<open>priv_allocate(allocate_new, limit, preferred, reuse = 0)\<close>, as the common functions call it.\<close>

definition sf_priv_allocate_new :: "seq_fit \<Rightarrow> size_t \<Rightarrow> size_t \<Rightarrow> (seq_fit \<times> nat) option" where
  "sf_priv_allocate_new st limit_size preferred_size =
     (if limit_size > preferred_size then Some (st, 0)
      else do { (st, addr, _) \<leftarrow> sf_allocate_branch st limit_size preferred_size; Some (st, addr) })"

definition sf_priv_get_total_units :: "size_t \<Rightarrow> size_t" where
  "sf_priv_get_total_units userbytes =
     (let s = get_rounded_size userbytes 16 div 16 in 1 + (if s = 0 then s + 1 else s))"

definition sf_algo :: "seq_fit memory_algorithm" where
  "sf_algo = \<lparr>Alignment = 16, AllocatedCtrlUnits = 1, BlockCtrlUnits = 1, UsableByPreviousChunk = 0,
     get_block_size = size_of, set_block_size = upd_size,
     priv_mark_new_allocated_block = (\<lambda>st b. upd_next st b 0),
     priv_deallocate = sf_priv_deallocate, priv_allocate_new = sf_priv_allocate_new,
     priv_get_total_units = sf_priv_get_total_units\<rparr>"

section \<open>Expansion in place\<close>

definition sf_user_size :: "seq_fit \<Rightarrow> nat \<Rightarrow> nat" where
  "sf_user_size st ptr = get_user_bytes (sf_heap st (ptr - 16))"

definition priv_next_block_if_free :: "seq_fit \<Rightarrow> nat \<Rightarrow> nat" where
  "priv_next_block_if_free st ptr =
     (let next_block = ptr + size_of st ptr * 16;
          distance = (next_block - sf_this st) div 16
      in if distance \<ge> sf_size st div 16 then 0
         else if next_of st next_block = 0 then 0 else next_block)"

text \<open>The free block before \<open>ptr\<close> with its own predecessor in the list, or two null pointers.\<close>

partial_function (option) sf_prev_loop :: "seq_fit \<Rightarrow> nat \<Rightarrow> nat \<Rightarrow> nat \<Rightarrow> (nat \<times> nat) option" where
  "sf_prev_loop st ptr prev_2_block prev_block =
     (if prev_block + size_of st prev_block * 16 \<noteq> ptr \<and> prev_block \<noteq> sf_root st
      then sf_prev_loop st ptr prev_block (next_of st prev_block)
      else Some (prev_2_block, prev_block))"

definition priv_prev_block_if_free :: "seq_fit \<Rightarrow> nat \<Rightarrow> (nat \<times> nat) option" where
  "priv_prev_block_if_free st ptr =
     do {
       (prev_2_block, prev_block) \<leftarrow> sf_prev_loop st ptr (sf_root st) (next_of st (sf_root st));
       if prev_block = sf_root st \<or> next_of st prev_block = 0 then Some (0, 0)
       else (let distance = (prev_block - sf_this st) div 16
             in if distance \<ge> sf_size st div 16 then Some (0, 0) else Some (prev_2_block, prev_block))
     }"

partial_function (option) sf_find_prev :: "seq_fit \<Rightarrow> nat \<Rightarrow> nat \<Rightarrow> nat option" where
  "sf_find_prev st next_block prev =
     (if next_of st prev \<noteq> next_block then sf_find_prev st next_block (next_of st prev) else Some prev)"

text \<open>State, success and received size.\<close>

definition sf_priv_expand :: "seq_fit \<Rightarrow> nat \<Rightarrow> size_t \<Rightarrow> size_t \<Rightarrow> (seq_fit \<times> bool \<times> nat) option" where
  "sf_priv_expand st ptr min_size preferred_size =
     (if sf_user_size st ptr > unat min_size then Some (st, True, sf_user_size st ptr)
      else
        (let block = ptr - 16;
             old_block_size = size_of st block;
             received_size = old_block_size * 16 - 16;
             min_units = unat (get_rounded_size min_size 16 div 16);
             preferred_units = unat (get_rounded_size preferred_size 16 div 16)
         in if min_units > preferred_units then Some (st, False, received_size)
            else if old_block_size - 1 \<ge> min_units then Some (st, True, received_size)
            else
              (let next_block = priv_next_block_if_free st block
               in if next_block = 0 then Some (st, False, received_size)
                  else
                    (let merged_size = old_block_size + size_of st next_block;
                         received_size = merged_size * 16 - 16
                     in if merged_size < min_units + 1 then Some (st, False, received_size)
                        else
                          (let st = upd_size (upd_next st block (next_of st next_block)) block merged_size
                           in do {
                             prev \<leftarrow> sf_find_prev st next_block (sf_root st);
                             let st = upd_next (st\<lparr>m_allocated := m_allocated st - old_block_size * 16\<rparr>) prev block;
                             let preferred_units = preferred_units + 1;
                             let nunits = (if preferred_units < merged_size then preferred_units else merged_size);
                             let (st, addr, received_size) = priv_check_and_allocate st nunits prev block;
                             Some (st, addr \<noteq> 0, received_size)
                           })))))"

section \<open>The whole of priv\_allocate\<close>

record allocation_type =
  allocate_new :: bool
  expand_fwd :: bool
  expand_bwd :: bool
  shrink_in_place :: bool
  other_flags :: bool

text \<open>State, returned pointer, \<^verbatim>\<open>prefer_in_recvd_out_size\<close> and \<^verbatim>\<open>reuse_ptr\<close>.\<close>

definition sf_priv_allocate ::
  "seq_fit \<Rightarrow> allocation_type \<Rightarrow> size_t \<Rightarrow> size_t \<Rightarrow> nat \<Rightarrow> size_t \<Rightarrow> (seq_fit \<times> nat \<times> nat \<times> nat) option" where
  "sf_priv_allocate st command limit_size preferred_size reuse_ptr alignof_object =
     (if \<not> (allocate_new command \<or> expand_fwd command \<or> shrink_in_place command \<or> other_flags command)
      then Some (st, 0, unat preferred_size, 0)
      else
        (let alignof_object = (if alignof_object < 16 then 16 else alignof_object)
         in if shrink_in_place command
            then
              if reuse_ptr = 0 then Some (st, 0, unat preferred_size, reuse_ptr)
              else do {
                (st, success, received) \<leftarrow> shrink sf_algo st reuse_ptr limit_size preferred_size;
                Some (st, if success then reuse_ptr else 0, received, reuse_ptr)
              }
            else if limit_size > preferred_size then Some (st, 0, 0, 0)
            else do {
              (st, expanded, received) \<leftarrow>
                (if reuse_ptr \<noteq> 0 \<and> expand_fwd command
                 then sf_priv_expand st reuse_ptr limit_size preferred_size else Some (st, False, 0));
              if expanded then Some (st, reuse_ptr, received, reuse_ptr)
              else if allocate_new command
              then
                if alignof_object > 16
                then do {
                  (st, p) \<leftarrow> allocate_aligned sf_algo st limit_size alignof_object;
                  Some (st, p, received, reuse_ptr)
                }
                else do {
                  (st, p, received) \<leftarrow> sf_allocate_branch st limit_size preferred_size;
                  Some (st, p, received, 0)
                }
              else Some (st, 0, received, 0)
            }))"

section \<open>The public operations\<close>

definition only_new :: allocation_type where
  "only_new = \<lparr>allocate_new = True, expand_fwd = False, expand_bwd = False, shrink_in_place = False,
     other_flags = False\<rparr>"

definition sf_allocate :: "seq_fit \<Rightarrow> size_t \<Rightarrow> (seq_fit \<times> nat) option" where
  "sf_allocate st nbytes =
     do { (st, p, _, _) \<leftarrow> sf_priv_allocate st only_new nbytes nbytes 0 16; Some (st, p) }"

definition sf_allocate_aligned :: "seq_fit \<Rightarrow> size_t \<Rightarrow> size_t \<Rightarrow> (seq_fit \<times> nat) option" where
  "sf_allocate_aligned st nbytes alignment = allocate_aligned sf_algo st nbytes alignment"

definition allocation_command ::
  "seq_fit \<Rightarrow> allocation_type \<Rightarrow> size_t \<Rightarrow> size_t \<Rightarrow> nat \<Rightarrow> size_t \<Rightarrow> (seq_fit \<times> nat \<times> nat \<times> nat) option" where
  "allocation_command st command limit_size preferred_size reuse_ptr sizeof_object =
     (let max_count = sf_size st div unat sizeof_object
      in if unat limit_size > max_count \<or> unat preferred_size > max_count
         then Some (st, 0, unat preferred_size, 0)
         else do {
           (st, ret, r_size, reuse) \<leftarrow>
             sf_priv_allocate st command (limit_size * sizeof_object) (preferred_size * sizeof_object) reuse_ptr 16;
           Some (st, ret, r_size div unat sizeof_object, reuse)
         })"

text \<open>New memory at an alignment, as \<^verbatim>\<open>priv_allocate_many\<close> asks for it.\<close>

definition sf_alloc_at :: "seq_fit \<Rightarrow> size_t \<Rightarrow> size_t \<Rightarrow> size_t \<Rightarrow> (seq_fit \<times> nat) option" where
  "sf_alloc_at st limit_size preferred_size alignment =
     do { (st, p, _, _) \<leftarrow> sf_priv_allocate st only_new limit_size preferred_size 0 alignment; Some (st, p) }"

definition sf_allocate_many :: "seq_fit \<Rightarrow> size_t \<Rightarrow> nat \<Rightarrow> size_t \<Rightarrow> (seq_fit \<times> nat list) option" where
  "sf_allocate_many st elem_bytes num_elements alignment =
     allocate_many_same sf_algo sf_alloc_at st elem_bytes num_elements alignment"

definition sf_allocate_many_sizes ::
  "seq_fit \<Rightarrow> size_t list \<Rightarrow> nat \<Rightarrow> size_t \<Rightarrow> size_t \<Rightarrow> (seq_fit \<times> nat list) option" where
  "sf_allocate_many_sizes st elem_sizes n_elements sizeof_element alignment =
     allocate_many_sizes sf_algo sf_alloc_at st elem_sizes n_elements sizeof_element alignment"

definition sf_deallocate_many :: "seq_fit \<Rightarrow> nat list \<Rightarrow> seq_fit option" where
  "sf_deallocate_many st chain = priv_deallocate_many sf_algo st chain"

definition sf_grow :: "seq_fit \<Rightarrow> nat \<Rightarrow> seq_fit option" where
  "sf_grow st extra_size =
     (let old_end = priv_block_end_offset st;
          st = st\<lparr>sf_size := sf_size st + extra_size\<rparr>
      in if sf_size st - old_end < 16 then Some st
         else
           (let new_block = sf_this st + old_end;
                st = upd_next st new_block 0;
                st = upd_size st new_block ((sf_size st - old_end) div 16);
                st = st\<lparr>m_allocated := m_allocated st + size_of st new_block * 16\<rparr>
            in sf_priv_deallocate st (new_block + 16)))"

definition priv_add_segment :: "seq_fit \<Rightarrow> nat \<Rightarrow> nat \<Rightarrow> seq_fit option" where
  "priv_add_segment st addr segment_size =
     (if segment_size < 16 then Some st
      else
        (let st = upd_next (upd_size st addr (segment_size div 16)) addr 0;
             st = st\<lparr>m_allocated := m_allocated st + size_of st addr * 16\<rparr>
         in sf_priv_deallocate st (addr + 16)))"

partial_function (option) sf_find_last :: "seq_fit \<Rightarrow> nat \<Rightarrow> nat \<Rightarrow> nat \<Rightarrow> (nat \<times> nat) option" where
  "sf_find_last st prev lst block =
     (if block \<noteq> sf_root st then sf_find_last st lst block (next_of st block) else Some (prev, lst))"

definition sf_shrink_to_fit :: "seq_fit \<Rightarrow> seq_fit option" where
  "sf_shrink_to_fit st =
     (let root = sf_root st; block = next_of st root
      in if block = root then Some st
         else do {
           (prev, lst) \<leftarrow> sf_find_last st root root block;
           let last_free_end_address = lst + size_of st lst * 16;
           if last_free_end_address \<noteq> sf_this st + priv_block_end_offset st then Some st
           else do {
             (st, unique_block) \<leftarrow>
               (if m_allocated st = 0
                then do { (st, u) \<leftarrow> sf_priv_allocate_new st 0 0; Some (st, Some u) }
                else Some (st, None));
             if unique_block = Some 0 then Some st
             else
               (let lst = (if unique_block \<noteq> None then next_of st root else lst);
                    last_units = size_of st lst;
                    (st, _, _) = priv_check_and_allocate st last_units prev lst;
                    st = st\<lparr>sf_size := (sf_size st div 16 - size_of st lst) * 16,
                            m_allocated := m_allocated st - size_of st lst * 16\<rparr>
                in case unique_block of Some u \<Rightarrow> sf_priv_deallocate st u | None \<Rightarrow> Some st)
           }
         })"

definition sf_get_size :: "seq_fit \<Rightarrow> nat" where
  "sf_get_size st = sf_size st"

definition get_free_memory :: "nat \<Rightarrow> seq_fit \<Rightarrow> nat" where
  "get_free_memory sz st =
     unat (of_nat (sf_size st) - of_nat (m_allocated st)
           - multiple_of_units sf_algo (of_nat (sz + m_extra_hdr_bytes st)))"

definition all_memory_deallocated :: "seq_fit \<Rightarrow> bool" where
  "all_memory_deallocated st \<longleftrightarrow> m_allocated st = 0 \<and> next_of st (next_of st (sf_root st)) = sf_root st"

partial_function (option) sf_sanity_loop :: "seq_fit \<Rightarrow> nat \<Rightarrow> nat \<Rightarrow> nat option option" where
  "sf_sanity_loop st block free_memory =
     (if block = sf_root st then Some (Some free_memory)
      else if \<not> check_alignment sf_algo block then Some None
      else if next_of st block = 0 then Some None
      else sf_sanity_loop st (next_of st block) (free_memory + size_of st block * 16))"

definition check_sanity :: "seq_fit \<Rightarrow> bool option" where
  "check_sanity st =
     do {
       r \<leftarrow> sf_sanity_loop st (next_of st (sf_root st)) 0;
       Some (case r of None \<Rightarrow> False
             | Some free_memory \<Rightarrow> \<not> m_allocated st > sf_size st \<and> \<not> free_memory > sf_size st)
     }"

text \<open>The ranges (address, bytes) that \<^verbatim>\<open>zero_free_memory\<close> clears, in order.\<close>

partial_function (option) zero_loop :: "seq_fit \<Rightarrow> nat \<Rightarrow> (nat \<times> nat) list option" where
  "zero_loop st block =
     (let range = (block + 16, get_user_bytes (sf_heap st block)); next_block = next_of st block
      in if next_block = sf_root st then Some [range]
         else do { rs \<leftarrow> zero_loop st next_block; Some (range # rs) })"

definition zero_free_memory :: "seq_fit \<Rightarrow> (nat \<times> nat) list option" where
  "zero_free_memory st = zero_loop st (next_of st (sf_root st))"

end
