(* ===== verification/Seq_Fit_Rep.thy ===== *)
theory Seq_Fit_Rep
  imports Seq_Fit
begin

text \<open>
  The representation of the sequential fit algorithm's segment: a block is an address and a size in
  units; the free and the allocated blocks tile the segment, the free ones are linked through the
  heap in address order and never touch each other, and the counter of allocated bytes is exact. The
  lemmas show how taking a block and giving one back act on this representation.
\<close>

section \<open>Blocks that tile a segment\<close>

type_synonym block = "nat \<times> nat"

definition bytes :: "block \<Rightarrow> nat set" where
  "bytes b = {fst b ..< fst b + 16 * snd b}"

definition tiles :: "nat \<Rightarrow> nat \<Rightarrow> block set \<Rightarrow> bool" where
  "tiles lo hi S \<longleftrightarrow> (\<forall>b\<in>S. 0 < snd b \<and> fst b mod 16 = 0)
     \<and> pairwise (\<lambda>x y. bytes x \<inter> bytes y = {}) S \<and> (\<Union>x\<in>S. bytes x) = {lo..<hi}"

lemma bytes_nonempty: "0 < snd b \<Longrightarrow> fst b \<in> bytes b"
  by (simp add: bytes_def)

lemma bytes_split: "k \<le> n \<Longrightarrow> bytes (a, n) = bytes (a, k) \<union> bytes (a + 16 * k, n - k)"
  by (auto simp: bytes_def)

lemma bytes_parts_disjoint: "bytes (a, k) \<inter> bytes (a + 16 * k, m) = {}"
  by (auto simp: bytes_def)

lemma tilesD:
  assumes "tiles lo hi S"
  shows "b \<in> S \<Longrightarrow> 0 < snd b" and "b \<in> S \<Longrightarrow> fst b mod 16 = 0" and "b \<in> S \<Longrightarrow> lo \<le> fst b"
    and "b \<in> S \<Longrightarrow> fst b + 16 * snd b \<le> hi"
    and "x \<in> S \<Longrightarrow> y \<in> S \<Longrightarrow> x \<noteq> y \<Longrightarrow> bytes x \<inter> bytes y = {}"
proof -
  show pos: "0 < snd b" "fst b mod 16 = 0" if "b \<in> S" for b using assms that by (auto simp: tiles_def)
  show "bytes x \<inter> bytes y = {}" if "x \<in> S" "y \<in> S" "x \<noteq> y" using assms that by (auto simp: tiles_def pairwise_def)
  have sub: "bytes b \<subseteq> {lo..<hi}" if "b \<in> S" for b using assms that by (auto simp: tiles_def)
  show "lo \<le> fst b" if "b \<in> S" using sub [OF that] bytes_nonempty [OF pos(1) [OF that]] by auto
  show "fst b + 16 * snd b \<le> hi" if "b \<in> S"
    using sub [OF that] pos(1) [OF that] by (auto simp: bytes_def)
qed

lemma tiles_same_start:
  assumes "tiles lo hi S" "x \<in> S" "y \<in> S" "fst x = fst y"
  shows "x = y"
proof (rule ccontr)
  assume "x \<noteq> y"
  then have "bytes x \<inter> bytes y = {}" using tilesD(5) [OF assms(1-3)] by blast
  then show False
    using bytes_nonempty [OF tilesD(1) [OF assms(1,2)]] bytes_nonempty [OF tilesD(1) [OF assms(1,3)]] assms(4)
    by auto
qed

lemma tiles_order:
  assumes "tiles lo hi S" "x \<in> S" "y \<in> S" "fst x < fst y"
  shows "fst x + 16 * snd x \<le> fst y"
proof (rule ccontr)
  assume "\<not> fst x + 16 * snd x \<le> fst y"
  then have "fst y \<in> bytes x" using assms(4) by (simp add: bytes_def)
  moreover have "fst y \<in> bytes y" using bytes_nonempty [OF tilesD(1) [OF assms(1,3)]] .
  ultimately show False using tilesD(5) [OF assms(1-3)] assms(4) by auto
qed

text \<open>Splitting a block in two, and merging two neighbours.\<close>

lemma tiles_split_iff:
  assumes "0 < k" "k < n" "(a, n) \<notin> S" "(a, k) \<notin> S" "(a + 16 * k, n - k) \<notin> S"
  shows "tiles lo hi (insert (a, n) S) \<longleftrightarrow> tiles lo hi (insert (a, k) (insert (a + 16 * k, n - k) S))"
proof -
  let ?x = "(a, n)" and ?y = "(a, k)" and ?z = "(a + 16 * k, n - k)"
  have u: "bytes ?x = bytes ?y \<union> bytes ?z" using assms by (intro bytes_split) simp
  have d: "bytes ?y \<inter> bytes ?z = {}" by (rule bytes_parts_disjoint)
  have ne: "?y \<noteq> ?z" using assms by auto
  have m: "(a + 16 * k) mod 16 = a mod 16" by simp
  have pos: "(\<forall>b\<in>insert ?x S. 0 < snd b \<and> fst b mod 16 = 0) \<longleftrightarrow>
    (\<forall>b\<in>insert ?y (insert ?z S). 0 < snd b \<and> fst b mod 16 = 0)"
    using assms m by auto
  let ?R = "\<lambda>x y. bytes x \<inter> bytes y = {}"
  have e: "bytes ?x \<inter> bytes q = {} \<and> bytes q \<inter> bytes ?x = {} \<longleftrightarrow>
      bytes ?y \<inter> bytes q = {} \<and> bytes ?z \<inter> bytes q = {}" for q
    unfolding u by blast
  have px: "pairwise ?R (insert ?x S) \<longleftrightarrow> (\<forall>q\<in>S. bytes ?y \<inter> bytes q = {} \<and> bytes ?z \<inter> bytes q = {}) \<and> pairwise ?R S"
    unfolding pairwise_insert e using assms(3) by blast
  have pyz: "pairwise ?R (insert ?y (insert ?z S)) \<longleftrightarrow>
      (\<forall>q\<in>S. bytes ?y \<inter> bytes q = {}) \<and> (\<forall>q\<in>S. bytes ?z \<inter> bytes q = {}) \<and> pairwise ?R S"
    using d ne assms(4,5) unfolding pairwise_insert by blast
  have dis: "pairwise ?R (insert ?x S) \<longleftrightarrow> pairwise ?R (insert ?y (insert ?z S))"
    unfolding px pyz by blast
  have un: "(\<Union>p\<in>insert ?x S. bytes p) = (\<Union>p\<in>insert ?y (insert ?z S). bytes p)"
    using u by auto
  show ?thesis unfolding tiles_def pos dis un ..
qed

lemma tiles_fresh_parts:
  assumes "tiles lo hi (insert (a, n) S)" "(a, n) \<notin> S" "0 < k" "k < n"
  shows "(a, k) \<notin> S" and "(a + 16 * k, n - k) \<notin> S"
proof -
  show "(a, k) \<notin> S" using tiles_same_start [OF assms(1), of "(a, n)" "(a, k)"] assms by auto
  show "(a + 16 * k, n - k) \<notin> S"
  proof
    assume "(a + 16 * k, n - k) \<in> S"
    then have "bytes (a, n) \<inter> bytes (a + 16 * k, n - k) = {}"
      using tilesD(5) [OF assms(1), of "(a, n)" "(a + 16 * k, n - k)"] assms(3) by auto
    then show False using bytes_split [of k n a] bytes_nonempty [of "(a + 16 * k, n - k)"] assms by auto
  qed
qed

lemma tiles_split:
  assumes "tiles lo hi (insert (a, n) S)" "(a, n) \<notin> S" "0 < k" "k < n"
  shows "tiles lo hi (insert (a, k) (insert (a + 16 * k, n - k) S))"
  using tiles_split_iff [OF assms(3,4,2) tiles_fresh_parts [OF assms]] assms(1) by blast

lemma tiles_merge:
  assumes "tiles lo hi (insert (a, k) (insert (a + 16 * k, m) S))" "(a, k) \<notin> S" "(a + 16 * k, m) \<notin> S"
  shows "tiles lo hi (insert (a, k + m) S)" and "(a, k + m) \<notin> S"
proof -
  have pos: "0 < k" "0 < m"
    using tilesD(1) [OF assms(1), of "(a, k)"] tilesD(1) [OF assms(1), of "(a + 16 * k, m)"] by simp_all
  show x: "(a, k + m) \<notin> S"
  proof
    assume "(a, k + m) \<in> S"
    then show False using tiles_same_start [OF assms(1), of "(a, k + m)" "(a, k)"] pos by auto
  qed
  show "tiles lo hi (insert (a, k + m) S)"
    using tiles_split_iff [of k "k + m" a S lo hi] x assms pos by simp
qed

section \<open>The free list in the heap\<close>

fun seg :: "seq_fit \<Rightarrow> nat \<Rightarrow> block list \<Rightarrow> nat \<Rightarrow> bool" where
  "seg st p [] q \<longleftrightarrow> p = q"
| "seg st p (b # bs) q \<longleftrightarrow> p = fst b \<and> size_of st p = snd b \<and> seg st (next_of st p) bs q"

lemma seg_append: "seg st p (xs @ ys) q \<longleftrightarrow> (\<exists>r. seg st p xs r \<and> seg st r ys q)"
  by (induction xs arbitrary: p) auto

lemma seg_cong:
  assumes "\<And>a. a \<in> fst ` set xs \<Longrightarrow> sf_heap st' a = sf_heap st a"
  shows "seg st' p xs q = seg st p xs q"
  using assms
proof (induction xs arbitrary: p)
  case (Cons b xs)
  have "sf_heap st' (fst b) = sf_heap st (fst b)" by (rule Cons.prems) simp
  then show ?case using Cons by auto
qed simp

definition prev_of :: "seq_fit \<Rightarrow> block list \<Rightarrow> nat" where
  "prev_of st xs = (if xs = [] then sf_root st else fst (last xs))"

lemma prev_of_simps [simp]: "prev_of st [] = sf_root st" "prev_of st (xs @ [b]) = fst b"
  by (simp_all add: prev_of_def)

text \<open>Where the last link of a prefix points, and redirecting it.\<close>

lemma seg_prefix_next:
  assumes "seg st (next_of st (sf_root st)) xs q"
  shows "next_of st (prev_of st xs) = q"
  using assms by (cases xs rule: rev_cases) (auto simp: seg_append)

lemma seg_redirect:
  assumes "seg st (next_of st (sf_root st)) xs q" "distinct (sf_root st # map fst xs)"
    and "sf_root st' = sf_root st"
    and "\<And>a. a \<in> insert (sf_root st) (fst ` set xs) - {prev_of st xs} \<Longrightarrow> sf_heap st' a = sf_heap st a"
    and "bc_next (sf_heap st' (prev_of st xs)) = r" "bc_size (sf_heap st' (prev_of st xs)) = size_of st (prev_of st xs)"
  shows "seg st' (next_of st' (sf_root st')) xs r"
proof (cases xs rule: rev_cases)
  case Nil
  then show ?thesis using assms by simp
next
  case (snoc ys b)
  have root: "next_of st' (sf_root st') = next_of st (sf_root st)"
    using assms(2,3) assms(4) [of "sf_root st"] snoc by auto
  have "seg st' p ys q' = seg st p ys q'" for p q'
  proof (rule seg_cong)
    fix a assume "a \<in> fst ` set ys"
    then show "sf_heap st' a = sf_heap st a" using assms(2) snoc by (intro assms(4)) (auto simp: rev_image_eqI)
  qed
  then show ?thesis
    using assms(1,5,6) snoc unfolding root by (auto simp: seg_append)
qed

section \<open>The representation invariant\<close>

definition sf_end :: "seq_fit \<Rightarrow> nat" where
  "sf_end st = sf_this st + priv_block_end_offset st"

abbreviation apart :: "block \<Rightarrow> block \<Rightarrow> bool" where
  "apart x y \<equiv> fst x + 16 * snd x < fst y"

definition sf_rep :: "seq_fit \<Rightarrow> nat \<Rightarrow> block list \<Rightarrow> block set \<Rightarrow> bool" where
  "sf_rep st lo fl A \<longleftrightarrow>
     0 < sf_root st \<and> sf_root st < lo \<and> size_of st (sf_root st) = 0
     \<and> seg st (next_of st (sf_root st)) fl (sf_root st) \<and> sorted_wrt apart fl
     \<and> finite A \<and> set fl \<inter> A = {} \<and> tiles lo (sf_end st) (set fl \<union> A)
     \<and> (\<forall>b\<in>A. sf_heap st (fst b) = \<lparr>bc_next = 0, bc_size = snd b\<rparr>)
     \<and> m_allocated st = 16 * (\<Sum>b\<in>A. snd b) \<and> sf_end st < 2 ^ 64"

lemma sf_end_simps [simp]:
  "sf_end (st\<lparr>sf_heap := h\<rparr>) = sf_end st" "sf_end (st\<lparr>m_allocated := n\<rparr>) = sf_end st"
  by (simp_all add: sf_end_def priv_block_end_offset_def)

lemma upd_simps [simp]:
  "sf_root (upd_next st a n) = sf_root st" "sf_root (upd_size st a n) = sf_root st"
  "sf_this (upd_next st a n) = sf_this st" "sf_this (upd_size st a n) = sf_this st"
  "sf_size (upd_next st a n) = sf_size st" "sf_size (upd_size st a n) = sf_size st"
  "m_allocated (upd_next st a n) = m_allocated st" "m_allocated (upd_size st a n) = m_allocated st"
  "sf_heap (upd_next st a n) = (sf_heap st)(a := (sf_heap st a)\<lparr>bc_next := n\<rparr>)"
  "sf_heap (upd_size st a n) = (sf_heap st)(a := (sf_heap st a)\<lparr>bc_size := n\<rparr>)"
  "sf_end (upd_next st a n) = sf_end st" "sf_end (upd_size st a n) = sf_end st"
  by (simp_all add: upd_next_def upd_size_def)

lemma get_user_bytes_nat:
  assumes "0 < bc_size b" "bc_size b * 16 < 2 ^ 64"
  shows "get_user_bytes b = bc_size b * 16 - 16"
proof -
  let ?w = "of_nat (bc_size b * 16) :: size_t"
  have w: "unat ?w = bc_size b * 16" by (rule unat_of_nat_size) (fact assms(2))
  then have "(16 :: size_t) \<le> ?w" using assms(1) unfolding word_le_nat_alt by simp
  then show ?thesis unfolding get_user_bytes_def using w by (simp add: unat_sub)
qed

text \<open>Facts about the addresses of a represented state.\<close>

lemma sf_rep_addresses:
  assumes "sf_rep st lo fl A"
  shows "distinct (sf_root st # map fst fl)" and "b \<in> set fl \<Longrightarrow> fst b \<noteq> sf_root st"
    and "b \<in> A \<Longrightarrow> fst b \<noteq> sf_root st" and "b \<in> A \<Longrightarrow> c \<in> set fl \<Longrightarrow> fst b \<noteq> fst c"
    and "b \<in> set fl \<union> A \<Longrightarrow> fst b \<noteq> 0" and "b \<in> set fl \<union> A \<Longrightarrow> c \<in> set fl \<union> A \<Longrightarrow> fst b = fst c \<Longrightarrow> b = c"
    and "sf_root st \<notin> fst ` A" and "fst ` set fl \<inter> fst ` A = {}"
proof -
  have t: "tiles lo (sf_end st) (set fl \<union> A)" and r: "0 < sf_root st" "sf_root st < lo"
    and so: "sorted_wrt apart fl" and d: "set fl \<inter> A = {}"
    using assms by (auto simp: sf_rep_def)
  have lo: "lo \<le> fst b" if "b \<in> set fl \<union> A" for b using tilesD(3) [OF t that] .
  show "fst b \<noteq> sf_root st" if "b \<in> set fl" using lo [of b] r that by auto
  show "fst b \<noteq> sf_root st" if "b \<in> A" using lo [of b] r that by auto
  show "fst b \<noteq> 0" if "b \<in> set fl \<union> A" using lo [OF that] r by auto
  show same: "b = c" if "b \<in> set fl \<union> A" "c \<in> set fl \<union> A" "fst b = fst c" for b c
    using tiles_same_start [OF t that] .
  show ne: "fst b \<noteq> fst c" if "b \<in> A" "c \<in> set fl" for b c using same [of b c] that d by auto
  show "sf_root st \<notin> fst ` A"
  proof
    assume "sf_root st \<in> fst ` A"
    then obtain b where "b \<in> A" "fst b = sf_root st" by (metis imageE)
    then show False using lo [of b] r by auto
  qed
  show "fst ` set fl \<inter> fst ` A = {}"
  proof (intro equals0I, elim IntE)
    fix x assume "x \<in> fst ` set fl" "x \<in> fst ` A"
    then obtain b c where "b \<in> set fl" "x = fst b" "c \<in> A" "x = fst c" by (elim imageE)
    then show False using ne by metis
  qed
  have "sorted_wrt (<) (map fst fl)"
    using so by (auto simp: sorted_wrt_map intro: sorted_wrt_mono_rel [rotated])
  then have "distinct (map fst fl)" by (simp add: strict_sorted_iff)
  then show "distinct (sf_root st # map fst fl)" using lo r by fastforce
qed

lemma size_bound:
  assumes "sf_rep st lo fl A" "b \<in> set fl \<union> A"
  shows "snd b * 16 < 2 ^ 64" and "0 < snd b"
proof -
  have t: "tiles lo (sf_end st) (set fl \<union> A)" and e: "sf_end st < 2 ^ 64"
    using assms by (auto simp: sf_rep_def)
  show "snd b * 16 < 2 ^ 64" using tilesD(4) [OF t assms(2)] e by linarith
  show "0 < snd b" using tilesD(1) [OF t assms(2)] .
qed

text \<open>Taking \<open>u\<close> units from a free block of \<open>n\<close>: what is taken and what stays free.\<close>

definition taken :: "nat \<Rightarrow> nat \<Rightarrow> nat" where
  "taken u n = (if n > u + 1 then u else n)"

definition left_over :: "nat \<Rightarrow> block \<Rightarrow> block list" where
  "left_over u b = (if snd b > u + 1 then [(fst b + 16 * u, snd b - u)] else [])"

lemma check_and_allocate_unfold:
  assumes "u \<le> size_of st a" "0 < u" "p \<noteq> a" "sf_heap st a = \<lparr>bc_next = nx, bc_size = n\<rparr>"
    and "p \<noteq> a + 16 * u"
  shows "priv_check_and_allocate st u p a =
    (st\<lparr>sf_heap := (if n > u + 1
         then (sf_heap st)(a + 16 * u := \<lparr>bc_next = nx, bc_size = n - u\<rparr>,
                p := (sf_heap st p)\<lparr>bc_next := a + 16 * u\<rparr>, a := \<lparr>bc_next = 0, bc_size = u\<rparr>)
         else (sf_heap st)(p := (sf_heap st p)\<lparr>bc_next := nx\<rparr>, a := \<lparr>bc_next = 0, bc_size = n\<rparr>)),
        m_allocated := m_allocated st + taken u n * 16\<rparr>,
     a + 16, get_user_bytes \<lparr>bc_next = nx, bc_size = taken u n\<rparr>)"
  using assms
  by (auto simp: priv_check_and_allocate_def Let_def upd_next_def upd_size_def taken_def get_user_bytes_def
      fun_eq_iff)


lemma sorted_wrt_apart_middle:
  assumes "sorted_wrt apart (xs @ b # ys)"
  shows "sorted_wrt apart (xs @ left_over u b @ ys)"
  using assms by (auto simp: sorted_wrt_append left_over_def)

lemma allocate_at:
  assumes rep: "sf_rep st lo (xs @ (a, n) # ys) A" and u: "0 < u" "u \<le> n"
    and c: "priv_check_and_allocate st u (prev_of st xs) a = (st', p, rc)"
  shows "sf_rep st' lo (xs @ left_over u (a, n) @ ys) (insert (a, taken u n) A)"
    and "p = a + 16" and "rc = 16 * taken u n - 16" and "(a, taken u n) \<notin> A"
    and "sf_root st' = sf_root st" and "sf_end st' = sf_end st"
    and "sf_this st' = sf_this st" and "sf_size st' = sf_size st"
proof -
  let ?fl = "xs @ (a, n) # ys" and ?r = "sf_root st" and ?p = "prev_of st xs" and ?new = "(a + 16 * u, n - u)"
  have t: "tiles lo (sf_end st) (set ?fl \<union> A)" and so: "sorted_wrt apart ?fl"
    and d: "set ?fl \<inter> A = {}" and sg: "seg st (next_of st ?r) ?fl ?r" and fin: "finite A"
    and al: "\<And>b. b \<in> A \<Longrightarrow> sf_heap st (fst b) = \<lparr>bc_next = 0, bc_size = snd b\<rparr>"
    and r: "0 < ?r" "?r < lo" "size_of st ?r = 0" and acc: "m_allocated st = 16 * (\<Sum>b\<in>A. snd b)"
    and e: "sf_end st < 2 ^ 64"
    using rep by (auto simp: sf_rep_def)
  note ad = sf_rep_addresses [OF rep]
  have a: "size_of st a = n" "seg st (next_of st ?r) xs a" "seg st (next_of st a) ys ?r"
    using sg by (auto simp: seg_append)
  obtain nx where h: "sf_heap st a = \<lparr>bc_next = nx, bc_size = n\<rparr>"
    using a(1) by (cases "sf_heap st a") auto
  have pa: "?p \<noteq> a" "?p < a"
  proof -
    show "?p < a"
    proof (cases xs rule: rev_cases)
      case Nil
      then show ?thesis using r tilesD(3) [OF t, of "(a, n)"] by simp
    next
      case (snoc ws b)
      then show ?thesis using so by (auto simp: sorted_wrt_append)
    qed
    then show "?p \<noteq> a" by simp
  qed
  let ?h = "if n > u + 1
     then (sf_heap st)(a + 16 * u := \<lparr>bc_next = nx, bc_size = n - u\<rparr>,
            ?p := (sf_heap st ?p)\<lparr>bc_next := a + 16 * u\<rparr>, a := \<lparr>bc_next = 0, bc_size = u\<rparr>)
     else (sf_heap st)(?p := (sf_heap st ?p)\<lparr>bc_next := nx\<rparr>, a := \<lparr>bc_next = 0, bc_size = n\<rparr>)"
  have st': "st' = st\<lparr>sf_heap := ?h, m_allocated := m_allocated st + taken u n * 16\<rparr>"
    and p: "p = a + 16" and rc: "rc = get_user_bytes \<lparr>bc_next = nx, bc_size = taken u n\<rparr>"
    using check_and_allocate_unfold [of u st a ?p nx n] c u a(1) h pa by auto
  show "p = a + 16" by (fact p)
  show root: "sf_root st' = ?r" and en: "sf_end st' = sf_end st"
    and "sf_this st' = sf_this st" "sf_size st' = sf_size st" by (simp_all add: st')
  have tk: "0 < taken u n" "taken u n \<le> n" using u by (auto simp: taken_def)
  show "rc = 16 * taken u n - 16"
    using get_user_bytes_nat [of "\<lparr>bc_next = nx, bc_size = taken u n\<rparr>"] size_bound(1) [OF rep, of "(a, n)"] tk
    by (simp add: rc)
  show nin: "(a, taken u n) \<notin> A"
    using ad(4) [of "(a, taken u n)" "(a, n)"] by auto
  let ?S = "set xs \<union> set ys \<union> A"
  have S: "set ?fl \<union> A = insert (a, n) ?S" by auto
  have nS: "(a, n) \<notin> ?S"
    using ad(1) d by (auto simp: image_iff)
  have t': "tiles lo (sf_end st) (set (xs @ left_over u (a, n) @ ys) \<union> insert (a, taken u n) A)"
  proof (cases "n > u + 1")
    case True
    have "tiles lo (sf_end st) (insert (a, u) (insert ?new ?S))"
      using tiles_split [of lo "sf_end st" a n ?S u] t nS u True unfolding S by simp
    then show ?thesis using True by (simp add: left_over_def taken_def insert_commute Un_left_commute)
  next
    case False
    then show ?thesis using t by (simp add: left_over_def taken_def)
  qed
  have pin: "?p = ?r \<or> ?p \<in> fst ` set xs" by (cases xs rule: rev_cases) auto
  have anew: "a + 16 * u \<noteq> ?r" "a + 16 * u \<notin> fst ` ?S" "a + 16 * u \<noteq> a" if "n > u + 1"
  proof -
    have new: "?new \<in> set (xs @ left_over u (a, n) @ ys) \<union> insert (a, taken u n) A"
      using that by (simp add: left_over_def)
    show "a + 16 * u \<noteq> ?r" using r tilesD(3) [OF t, of "(a, n)"] by auto
    show "a + 16 * u \<noteq> a" using u by simp
    show "a + 16 * u \<notin> fst ` ?S"
    proof
      assume "a + 16 * u \<in> fst ` ?S"
      then obtain b where b: "b \<in> ?S" "fst b = a + 16 * u" by (metis imageE)
      then have "b = ?new" using tiles_same_start [OF t' _ new, of b] by auto
      then show False
        using b(1) tiles_fresh_parts(2) [of lo "sf_end st" a n ?S u] t nS u that unfolding S by auto
    qed
  qed
  have aS: "a \<noteq> ?r" "a \<notin> fst ` ?S"
  proof -
    show "a \<noteq> ?r" using ad(2) [of "(a, n)"] by simp
    show "a \<notin> fst ` ?S"
    proof
      assume "a \<in> fst ` ?S"
      then obtain b where "b \<in> ?S" "fst b = a" by (metis imageE)
      then show False using ad(6) [of b "(a, n)"] nS by auto
    qed
  qed
  have ys: "?p \<notin> fst ` set ys" "?p \<notin> fst ` A"
  proof -
    have "?r \<notin> fst ` set ys" "fst ` set xs \<inter> fst ` set ys = {}" using ad(1) by simp_all
    then show "?p \<notin> fst ` set ys" using pin by (metis disjoint_iff)
    have "fst ` set xs \<subseteq> fst ` set ?fl" by (rule image_mono) auto
    then have "\<forall>x\<in>fst ` set xs. x \<notin> fst ` A" using ad(8) by (meson disjoint_iff subsetD)
    then show "?p \<notin> fst ` A" using pin ad(7) by metis
  qed
  have keep: "sf_heap st' c = sf_heap st c" if "c \<noteq> a" "c \<noteq> ?p" "c \<noteq> a + 16 * u \<or> \<not> n > u + 1" for c
    using that by (auto simp: st')
  have hp: "sf_heap st' ?p = (sf_heap st ?p)\<lparr>bc_next := (if n > u + 1 then a + 16 * u else nx)\<rparr>"
    using pa by (simp add: st')
  have sxs: "seg st' (next_of st' ?r) xs (if n > u + 1 then a + 16 * u else nx)"
    unfolding root [symmetric]
  proof (rule seg_redirect [OF a(2)])
    show "distinct (?r # map fst xs)" using ad(1) by auto
    show "sf_heap st' c = sf_heap st c" if "c \<in> insert ?r (fst ` set xs) - {?p}" for c
      using that anew aS by (intro keep) auto
  qed (simp_all add: root hp)
  have sys: "seg st' nx ys ?r"
  proof -
    have "seg st' nx ys ?r = seg st nx ys ?r"
    proof (rule seg_cong, rule keep)
      fix c assume "c \<in> fst ` set ys"
      then show "c \<noteq> a" "c \<noteq> ?p" "c \<noteq> a + 16 * u \<or> \<not> n > u + 1"
        using anew(2) aS(2) ys(1) unfolding image_Un by (metis Un_iff)+
    qed
    then show ?thesis using a(3) h by simp
  qed
  have "seg st' (next_of st' ?r) (xs @ left_over u (a, n) @ ys) ?r"
  proof (cases "n > u + 1")
    case True
    have "sf_heap st' (a + 16 * u) = \<lparr>bc_next = nx, bc_size = n - u\<rparr>"
      using True anew [OF True] pin u by (force simp: st')
    then show ?thesis using True sxs sys by (auto simp: seg_append left_over_def)
  qed (use sxs sys in \<open>auto simp: seg_append left_over_def\<close>)
  moreover have "sf_heap st' (fst b) = \<lparr>bc_next = 0, bc_size = snd b\<rparr>" if "b \<in> insert (a, taken u n) A" for b
  proof (cases "b = (a, taken u n)")
    case True
    then show ?thesis by (simp add: st' taken_def)
  next
    case False
    then have "b \<in> A" using that by simp
    moreover from this have "fst b \<noteq> a" "fst b \<noteq> ?p" "fst b \<noteq> a + 16 * u \<or> \<not> n > u + 1"
      using aS(2) ys(2) anew(2) unfolding image_Un by (metis Un_iff imageI)+
    ultimately show ?thesis using keep al by simp
  qed
  moreover have "size_of st' ?r = 0"
  proof (cases "?r = ?p")
    case True
    then show ?thesis using r(3) hp by simp
  next
    case False
    have "sf_heap st' ?r = sf_heap st ?r" by (rule keep) (use aS(1) anew(1) False in auto)
    then show ?thesis using r(3) by simp
  qed
  moreover have "m_allocated st' = 16 * (\<Sum>b\<in>insert (a, taken u n) A. snd b)"
    using nin fin acc by (simp add: st')
  moreover have "set (xs @ left_over u (a, n) @ ys) \<inter> insert (a, taken u n) A = {}"
  proof -
    have "(a, taken u n) \<notin> set xs \<union> set ys" using aS(2) by (metis Un_iff fst_conv imageI)
    moreover have "?new \<notin> insert (a, taken u n) A" if "n > u + 1"
      using anew [OF that] by (metis Un_iff fst_conv imageI insertE)
    moreover have "b \<notin> A" if "b \<in> set xs \<union> set ys" for b using d that by auto
    ultimately show ?thesis by (auto simp: left_over_def)
  qed
  ultimately show "sf_rep st' lo (xs @ left_over u (a, n) @ ys) (insert (a, taken u n) A)"
    using t' r fin e sorted_wrt_apart_middle [OF so] unfolding sf_rep_def root en by simp
qed
section \<open>Giving a block back\<close>

abbreviation in_order :: "block \<Rightarrow> block \<Rightarrow> bool" where
  "in_order x y \<equiv> fst x + 16 * snd x \<le> fst y"

fun join_up :: "block \<Rightarrow> block list \<Rightarrow> block list" where
  "join_up b [] = [b]"
| "join_up b (y # ys) = (if fst b + 16 * snd b = fst y then (fst b, snd b + snd y) # ys else b # y # ys)"

definition join_down :: "block list \<Rightarrow> block list \<Rightarrow> block list" where
  "join_down xs zs =
     (if xs \<noteq> [] \<and> fst (last xs) + 16 * snd (last xs) = fst (hd zs)
      then butlast xs @ (fst (last xs), snd (last xs) + snd (hd zs)) # tl zs else xs @ zs)"

lemma join_up_not_Nil [simp]: "join_up b ys \<noteq> []"
  by (cases ys) auto

lemma fst_hd_join_up [simp]: "fst (hd (join_up b ys)) = fst b"
  by (cases ys) auto

lemma tiles_join_up:
  assumes "tiles lo hi (insert b (set ys \<union> S))" "b \<notin> set ys \<union> S" "distinct ys" "set ys \<inter> S = {}"
  shows "tiles lo hi (set (join_up b ys) \<union> S)" and "set (join_up b ys) \<inter> S = {}"
proof -
  have "tiles lo hi (set (join_up b ys) \<union> S) \<and> set (join_up b ys) \<inter> S = {}"
  proof (cases ys)
    case (Cons y zs)
    show ?thesis
    proof (cases "fst b + 16 * snd b = fst y")
      case True
      let ?T = "set zs \<union> S"
      obtain a n m where b: "b = (a, n)" "y = (a + 16 * n, m)" using True by (cases b; cases y) auto
      have "tiles lo hi (insert (a, n) (insert (a + 16 * n, m) ?T))"
        using assms(1) by (simp add: Cons b insert_commute)
      moreover have "(a, n) \<notin> ?T" "(a + 16 * n, m) \<notin> ?T" using assms Cons b by auto
      ultimately have "tiles lo hi (insert (a, n + m) ?T)" "(a, n + m) \<notin> ?T"
        by (rule tiles_merge)+
      then show ?thesis using assms(4) by (auto simp: Cons b)
    next
      case False
      then show ?thesis using assms by (auto simp: Cons insert_commute)
    qed
  qed (use assms in auto)
  then show "tiles lo hi (set (join_up b ys) \<union> S)" "set (join_up b ys) \<inter> S = {}" by blast+
qed

lemma tiles_join_down:
  assumes "tiles lo hi (set xs \<union> set zs \<union> S)" "zs \<noteq> []" "distinct (xs @ zs)" "(set xs \<union> set zs) \<inter> S = {}"
  shows "tiles lo hi (set (join_down xs zs) \<union> S)" and "set (join_down xs zs) \<inter> S = {}"
proof -
  have "tiles lo hi (set (join_down xs zs) \<union> S) \<and> set (join_down xs zs) \<inter> S = {}"
  proof (cases "xs \<noteq> [] \<and> fst (last xs) + 16 * snd (last xs) = fst (hd zs)")
    case True
    obtain ws x where xs: "xs = ws @ [x]" using True by (cases xs rule: rev_cases) auto
    obtain z vs where zs: "zs = z # vs" using assms(2) by (cases zs) auto
    obtain a n m where b: "x = (a, n)" "z = (a + 16 * n, m)" using True by (cases x; cases z) (auto simp: xs zs)
    let ?T = "set ws \<union> set vs \<union> S"
    have "set xs \<union> set zs \<union> S = insert (a, n) (insert (a + 16 * n, m) ?T)" by (auto simp: xs zs b)
    then have "tiles lo hi (insert (a, n) (insert (a + 16 * n, m) ?T))" using assms(1) by simp
    moreover have "(a, n) \<notin> ?T" "(a + 16 * n, m) \<notin> ?T" using assms(3,4) by (auto simp: xs zs b)
    ultimately have "tiles lo hi (insert (a, n + m) ?T)" "(a, n + m) \<notin> ?T"
      by (rule tiles_merge)+
    moreover have "join_down xs zs = ws @ (a, n + m) # vs" using True by (simp add: join_down_def xs zs b)
    ultimately show ?thesis using assms(4) by (auto simp: xs zs)
  next
    case False
    then have "join_down xs zs = xs @ zs" by (auto simp: join_down_def)
    then show ?thesis using assms by simp
  qed
  then show "tiles lo hi (set (join_down xs zs) \<union> S)" "set (join_down xs zs) \<inter> S = {}" by blast+
qed

lemma sorted_join_up:
  assumes "sorted_wrt apart ys" "\<forall>y\<in>set ys. in_order b y" "0 < snd b" "\<forall>y\<in>set ys. 0 < snd y"
  shows "sorted_wrt apart (join_up b ys)" and "\<forall>z\<in>set (join_up b ys). 0 < snd z \<and> fst b \<le> fst z"
proof -
  show "sorted_wrt apart (join_up b ys)"
  proof (cases ys)
    case (Cons y zs)
    have "apart b z" if "z \<in> set zs" for z
      using assms(1,2,4) that by (auto simp: Cons)
    then show ?thesis using assms(1,2) by (auto simp: Cons)
  qed simp
  show "\<forall>z\<in>set (join_up b ys). 0 < snd z \<and> fst b \<le> fst z"
  proof (cases ys)
    case (Cons y zs)
    have "fst b \<le> fst z" if "z \<in> set ys" for z using assms(2) that by auto
    then show ?thesis using assms(3,4) by (auto simp: Cons)
  qed (use assms(3) in simp)
qed

lemma sorted_join_down:
  assumes "sorted_wrt apart xs" "sorted_wrt apart zs" "zs \<noteq> []"
    and "\<forall>x\<in>set xs. in_order x (hd zs)" "\<forall>z\<in>set (xs @ zs). 0 < snd z" "\<forall>z\<in>set zs. fst (hd zs) \<le> fst z"
  shows "sorted_wrt apart (join_down xs zs)"
proof (cases xs rule: rev_cases)
  case Nil
  then show ?thesis using assms by (simp add: join_down_def)
next
  case (snoc ws x)
  obtain z vs where zs: "zs = z # vs" using assms(3) by (cases zs) auto
  have ws: "\<forall>w\<in>set ws. apart w x" "sorted_wrt apart ws" using assms(1) by (auto simp: snoc sorted_wrt_append)
  show ?thesis
  proof (cases "fst x + 16 * snd x = fst z")
    case True
    have "join_down xs zs = ws @ (fst x, snd x + snd z) # vs" using True by (simp add: join_down_def snoc zs)
    moreover have "\<forall>w\<in>set ws. \<forall>v\<in>set vs. apart w v"
      using ws assms(2,4) by (fastforce simp: snoc zs)
    ultimately show ?thesis using ws assms(2) True by (auto simp: sorted_wrt_append zs)
  next
    case False
    then have xz: "apart x z" using assms(4) by (simp add: snoc zs)
    have "\<forall>w\<in>set xs. \<forall>v\<in>set zs. apart w v"
      using ws xz assms(6) assms(2) by (fastforce simp: snoc zs)
    moreover have "join_down xs zs = xs @ zs" using False by (simp add: join_down_def snoc zs)
    ultimately show ?thesis using assms(1,2) by (simp add: sorted_wrt_append)
  qed
qed

lemma sf_find_pos_seg:
  assumes "seg st p (xs @ ys) (sf_root st)" "\<forall>x\<in>set xs. fst x < a \<and> fst x \<noteq> sf_root st"
    and "ys = [] \<or> a \<le> fst (hd ys)"
  shows "sf_find_pos st a pr p =
    Some (if xs = [] then pr else fst (last xs), if ys = [] then sf_root st else fst (hd ys))"
  using assms
proof (induction xs arbitrary: p pr)
  case Nil
  then show ?case by (cases ys) (auto simp: sf_find_pos.simps)
next
  case (Cons x xs)
  have p: "p = fst x" "seg st (next_of st p) (xs @ ys) (sf_root st)" using Cons.prems(1) by auto
  have "sf_find_pos st a p (next_of st p) =
      Some (if xs = [] then p else fst (last xs), if ys = [] then sf_root st else fst (hd ys))"
    using Cons.prems by (intro Cons.IH [OF p(2)]) auto
  then show ?case using Cons.prems p(1) by (subst sf_find_pos.simps) simp
qed

text \<open>The heap after \<^verbatim>\<open>priv_deallocate\<close> has found its place, with the block written back.\<close>

definition linked_back :: "seq_fit \<Rightarrow> nat \<Rightarrow> nat \<Rightarrow> nat \<Rightarrow> seq_fit" where
  "linked_back st prev pos block =
     (let st = (if block + 16 * size_of st block = pos
                then upd_next (upd_size st block (size_of st block + size_of st pos)) block (next_of st pos)
                else upd_next st block pos)
      in if prev + 16 * size_of st prev = block
         then upd_next (upd_size st prev (size_of st prev + size_of st block)) prev (next_of st block)
         else upd_next st prev block)"

lemma deallocate_unfold:
  assumes "addr \<noteq> 0"
    and "sf_find_pos (st\<lparr>m_allocated := m_allocated st - 16 * size_of st (addr - 16)\<rparr>) (addr - 16)
           (sf_root st) (next_of st (sf_root st)) = Some (prev, pos)"
  shows "sf_priv_deallocate st addr =
    Some (linked_back (st\<lparr>m_allocated := m_allocated st - 16 * size_of st (addr - 16)\<rparr>) prev pos (addr - 16))"
  using assms by (simp add: sf_priv_deallocate_def linked_back_def Let_def)

text \<open>First step: the block in front of the free blocks above it.\<close>

lemma seg_join_up:
  assumes "seg st q ys (sf_root st)" "a \<notin> fst ` set ys" "sf_root st < a"
    and "size_of st a = n"
    and "st1 = (if a + 16 * size_of st a = q
                then upd_next (upd_size st a (size_of st a + size_of st q)) a (next_of st q)
                else upd_next st a q)"
  shows "seg st1 a (join_up (a, n) ys) (sf_root st)"
    and "\<And>c. c \<noteq> a \<Longrightarrow> sf_heap st1 c = sf_heap st c" and "size_of st1 a = snd (hd (join_up (a, n) ys))"
proof -
  show other: "\<And>c. c \<noteq> a \<Longrightarrow> sf_heap st1 c = sf_heap st c" by (simp add: assms(5))
  have keep: "seg st1 p zs (sf_root st) = seg st p zs (sf_root st)" if "set zs \<subseteq> set ys" for p zs
  proof (rule seg_cong, rule other)
    fix c assume "c \<in> fst ` set zs"
    then show "c \<noteq> a" using assms(2) that by (metis image_mono subsetD)
  qed
  have "seg st1 a (join_up (a, n) ys) (sf_root st) \<and> size_of st1 a = snd (hd (join_up (a, n) ys))"
  proof (cases ys)
    case Nil
    then have "q = sf_root st" using assms(1) by simp
    then have "st1 = upd_next st a q" using assms(3,5) by simp
    then show ?thesis using Nil assms(4) \<open>q = sf_root st\<close> by simp
  next
    case (Cons y zs)
    then have q: "q = fst y" "size_of st q = snd y" "seg st (next_of st q) zs (sf_root st)" "q \<noteq> a"
      using assms(1,2) by auto
    have "seg st1 (next_of st q) zs (sf_root st)" using keep [of zs] q(3) by (auto simp: Cons)
    moreover have "seg st1 q (y # zs) (sf_root st)" using keep [OF order_refl] assms(1) unfolding Cons by blast
    ultimately show ?thesis
      using q assms(4) by (cases "a + 16 * n = q") (auto simp: Cons assms(5))
  qed
  then show "seg st1 a (join_up (a, n) ys) (sf_root st)" "size_of st1 a = snd (hd (join_up (a, n) ys))"
    by blast+
qed

text \<open>Second step: the blocks below.\<close>

lemma seg_join_down:
  assumes "seg st (next_of st (sf_root st)) xs q" "seg st a zs (sf_root st)" "zs \<noteq> []"
    and "size_of st (sf_root st) = 0" "sf_root st < a"
    and d: "distinct (sf_root st # map fst (xs @ zs))"
    and "st1 = (if prev_of st xs + 16 * size_of st (prev_of st xs) = a
         then upd_next (upd_size st (prev_of st xs) (size_of st (prev_of st xs) + size_of st a))
                (prev_of st xs) (next_of st a)
         else upd_next st (prev_of st xs) a)"
  shows "seg st1 (next_of st1 (sf_root st)) (join_down xs zs) (sf_root st)"
    and "\<And>c. c \<noteq> prev_of st xs \<Longrightarrow> sf_heap st1 c = sf_heap st c" and "size_of st1 (sf_root st) = 0"
proof -
  let ?r = "sf_root st" and ?p = "prev_of st xs"
  show other: "\<And>c. c \<noteq> ?p \<Longrightarrow> sf_heap st1 c = sf_heap st c" by (simp add: assms(7))
  obtain z vs where zs: "zs = z # vs" "fst z = a" "snd z = size_of st a" "seg st (next_of st a) vs ?r"
    using assms(2,3) by (cases zs) auto
  have pzs: "?p \<notin> fst ` set zs" using d by (cases xs rule: rev_cases) auto
  have keep: "seg st1 p us t = seg st p us t" if "set us \<subseteq> set zs" for p us t
  proof (rule seg_cong, rule other)
    fix c assume "c \<in> fst ` set us"
    then show "c \<noteq> ?p" using pzs that by (metis image_mono subsetD)
  qed
  have "seg st1 (next_of st1 ?r) (join_down xs zs) ?r \<and> size_of st1 ?r = 0"
  proof (cases "?p + 16 * size_of st ?p = a")
    case True
    then obtain ws x where xs: "xs = ws @ [x]" using assms(4,5) by (cases xs rule: rev_cases) auto
    have x: "seg st (next_of st ?r) ws (fst x)" "size_of st (fst x) = snd x"
      using assms(1) by (auto simp: xs seg_append)
    have st1: "st1 = upd_next (upd_size st (fst x) (snd x + size_of st a)) (fst x) (next_of st a)"
      using assms(7) True x by (simp add: xs)
    have "seg st1 p ws t = seg st p ws t" for p t
    proof (rule seg_cong, rule other)
      fix c assume "c \<in> fst ` set ws"
      moreover have "fst x \<notin> fst ` set ws" using d by (simp add: xs)
      ultimately show "c \<noteq> ?p" unfolding xs prev_of_simps by metis
    qed
    moreover have "?r \<noteq> fst x" using d by (auto simp: xs)
    moreover have "join_down xs zs = ws @ (fst x, snd x + snd z) # vs"
      using True x zs by (simp add: join_down_def xs)
    ultimately show ?thesis
      using x zs assms(4) keep [of vs] by (auto simp: seg_append st1)
  next
    case False
    then have st1: "st1 = upd_next st ?p a" using assms(7) by simp
    have "seg st1 (next_of st1 (sf_root st1)) xs a"
      by (rule seg_redirect [OF assms(1)]) (use d other in \<open>auto simp: st1\<close>)
    moreover have "join_down xs zs = xs @ zs"
    proof (cases xs rule: rev_cases)
      case (snoc ws x)
      then show ?thesis using False assms(1) zs by (auto simp: join_down_def seg_append)
    qed (simp add: join_down_def)
    ultimately show ?thesis
      using keep [of zs] assms(2,4) by (auto simp: seg_append st1)
  qed
  then show "seg st1 (next_of st1 ?r) (join_down xs zs) ?r" "size_of st1 ?r = 0" by blast+
qed

lemma join_up_starts: "fst ` set (join_up b ys) \<subseteq> insert (fst b) (fst ` set ys)"
  by (cases ys) auto

lemma sorted_starts_distinct:
  assumes "sorted_wrt apart xs"
  shows "distinct (map fst xs)"
proof -
  have "sorted_wrt (<) (map fst xs)"
    using assms by (auto simp: sorted_wrt_map intro: sorted_wrt_mono_rel [rotated])
  then show ?thesis by (simp add: strict_sorted_iff)
qed

definition freed :: "block list \<Rightarrow> block \<Rightarrow> block list" where
  "freed fl b = join_down (takeWhile (\<lambda>x. fst x < fst b) fl) (join_up b (dropWhile (\<lambda>x. fst x < fst b) fl))"

lemma dropWhile_above:
  assumes "sorted_wrt apart fl" "y \<in> set (dropWhile (\<lambda>x. fst x < a) fl)"
  shows "a \<le> fst y"
  using assms
proof (induction fl)
  case (Cons z fl)
  show ?case
  proof (cases "fst z < a")
    case False
    then show ?thesis using Cons.prems by auto
  qed (use Cons in auto)
qed simp

lemma freed_facts:
  assumes rep: "sf_rep st lo fl A" and b: "b \<in> A"
  shows "tiles lo (sf_end st) (set (freed fl b) \<union> (A - {b}))" and "set (freed fl b) \<inter> (A - {b}) = {}"
    and "sorted_wrt apart (freed fl b)"
proof -
  let ?xs = "takeWhile (\<lambda>x. fst x < fst b) fl" and ?ys = "dropWhile (\<lambda>x. fst x < fst b) fl"
  let ?zs = "join_up b ?ys" and ?S = "A - {b}"
  have t: "tiles lo (sf_end st) (set fl \<union> A)" and so: "sorted_wrt apart fl" and d: "set fl \<inter> A = {}"
    using rep by (auto simp: sf_rep_def)
  have fl: "set fl = set ?xs \<union> set ?ys" by (metis set_append takeWhile_dropWhile_id)
  have "sorted_wrt apart (?xs @ ?ys)" using so by simp
  then have so': "sorted_wrt apart ?xs" "sorted_wrt apart ?ys" unfolding sorted_wrt_append by blast+
  have bfl: "b \<notin> set fl" using b d by auto
  have neq: "fst x \<noteq> fst b" if "x \<in> set fl" for x using sf_rep_addresses(4) [OF rep b that] by metis
  have below: "in_order x b" if "x \<in> set ?xs" for x
    using tiles_order [OF t, of x b] set_takeWhileD [OF that] b by auto
  have above: "in_order b y" "fst b < fst y" if "y \<in> set ?ys" for y
  proof -
    have "fst b \<le> fst y" using dropWhile_above [OF so that] .
    then show lt: "fst b < fst y" using neq [of y] that fl by force
    show "in_order b y" using tiles_order [OF t, of b y] b lt that fl by blast
  qed
  have pos: "0 < snd x" if "x \<in> set fl \<union> A" for x using tilesD(1) [OF t that] .
  have dist: "distinct fl" using sorted_starts_distinct [OF so] by (simp add: distinct_map)
  have "set fl \<union> A = insert b (set ?ys \<union> (set ?xs \<union> ?S))" using b fl by auto
  then have tu: "tiles lo (sf_end st) (set ?zs \<union> (set ?xs \<union> ?S))" "set ?zs \<inter> (set ?xs \<union> ?S) = {}"
  proof -
    assume e: "set fl \<union> A = insert b (set ?ys \<union> (set ?xs \<union> ?S))"
    have "b \<notin> set ?ys \<union> (set ?xs \<union> ?S)" using bfl fl by auto
    moreover have "set ?ys \<inter> (set ?xs \<union> ?S) = {}"
    proof -
      have "set ?xs \<inter> set ?ys = {}" using dist by (metis distinct_append takeWhile_dropWhile_id)
      then show ?thesis using d fl by auto
    qed
    ultimately show "tiles lo (sf_end st) (set ?zs \<union> (set ?xs \<union> ?S))" "set ?zs \<inter> (set ?xs \<union> ?S) = {}"
      using t dist unfolding e by (intro tiles_join_up; simp)+
  qed
  note up = sorted_join_up [of ?ys b]
  have zs: "sorted_wrt apart ?zs" "\<forall>z\<in>set ?zs. 0 < snd z \<and> fst b \<le> fst z"
    using so' above pos b fl by (intro up; auto)+
  have "distinct (?xs @ ?zs)"
    using tu(2) dist sorted_starts_distinct [OF zs(1)] by (auto simp: distinct_map)
  moreover have "tiles lo (sf_end st) (set ?xs \<union> set ?zs \<union> ?S)" using tu(1) by (simp add: ac_simps)
  moreover have "(set ?xs \<union> set ?zs) \<inter> ?S = {}" using tu(2) d fl by auto
  ultimately show "tiles lo (sf_end st) (set (freed fl b) \<union> ?S)" "set (freed fl b) \<inter> ?S = {}"
    unfolding freed_def by (intro tiles_join_down; simp)+
  show "sorted_wrt apart (freed fl b)"
    unfolding freed_def
  proof (rule sorted_join_down [OF so'(1) zs(1)])
    show "\<forall>x\<in>set ?xs. in_order x (hd ?zs)" using below by simp
    show "\<forall>z\<in>set (?xs @ ?zs). 0 < snd z" using zs(2) pos fl by auto
    show "\<forall>z\<in>set ?zs. fst (hd ?zs) \<le> fst z" using zs(2) by simp
  qed simp
qed

lemma linked_back_simps:
  "sf_root (linked_back st p q a) = sf_root st" "sf_end (linked_back st p q a) = sf_end st"
  "m_allocated (linked_back st p q a) = m_allocated st"
  "sf_this (linked_back st p q a) = sf_this st" "sf_size (linked_back st p q a) = sf_size st"
  by (simp_all add: linked_back_def Let_def)

lemma linked_back_seg:
  assumes rep: "sf_rep st lo fl A" and b: "(a, n) \<in> A"
    and xy: "xs = takeWhile (\<lambda>x. fst x < a) fl" "ys = dropWhile (\<lambda>x. fst x < a) fl"
    and st0: "sf_heap st0 = sf_heap st" "sf_root st0 = sf_root st"
    and st': "st' = linked_back st0 (prev_of st xs) (if ys = [] then sf_root st else fst (hd ys)) a"
  shows "seg st' (next_of st' (sf_root st)) (freed fl (a, n)) (sf_root st)"
    and "size_of st' (sf_root st) = 0"
    and "\<And>c. c \<noteq> a \<Longrightarrow> c \<noteq> prev_of st xs \<Longrightarrow> sf_heap st' c = sf_heap st c"
proof -
  let ?r = "sf_root st" and ?q = "if ys = [] then sf_root st else fst (hd ys)" and ?p = "prev_of st xs"
  define st1 where "st1 = (if a + 16 * size_of st0 a = ?q
     then upd_next (upd_size st0 a (size_of st0 a + size_of st0 ?q)) a (next_of st0 ?q) else upd_next st0 a ?q)"
  have fl: "fl = xs @ ys" by (simp add: xy)
  have t: "tiles lo (sf_end st) (set fl \<union> A)" and sg: "seg st (next_of st ?r) fl ?r"
    and al: "sf_heap st a = \<lparr>bc_next = 0, bc_size = n\<rparr>" and r: "?r < lo" "size_of st ?r = 0"
    using rep b by (auto simp: sf_rep_def)
  note ad = sf_rep_addresses [OF rep]
  have an: "a \<notin> fst ` set fl" using ad(8) b by (metis disjoint_iff fst_conv imageI)
  have ra: "?r < a" using tilesD(3) [OF t, of "(a, n)"] b r by auto
  obtain q where q: "seg st (next_of st ?r) xs q" "seg st q ys ?r" using sg by (auto simp: fl seg_append)
  have qe: "q = ?q" using q(2) by (cases ys) auto
  have s0: "seg st0 q ys ?r" using q(2) seg_cong [of ys st0 st q ?r] st0 by simp
  have an': "a \<notin> fst ` set xs" "a \<notin> fst ` set ys" using an by (simp_all add: fl image_Un)
  have st1q: "st1 = (if a + 16 * size_of st0 a = q
     then upd_next (upd_size st0 a (size_of st0 a + size_of st0 q)) a (next_of st0 q) else upd_next st0 a q)"
    by (simp only: st1_def qe)
  have up: "seg st1 a (join_up (a, n) ys) ?r" "\<And>c. c \<noteq> a \<Longrightarrow> sf_heap st1 c = sf_heap st c"
    using seg_join_up [OF _ an'(2) _ _ st1q, of n] s0 ra al st0 by simp_all
  have p1: "prev_of st1 xs = ?p" "sf_root st1 = ?r" by (auto simp: prev_of_def st1_def st0)
  have rn: "sf_heap st1 ?r = sf_heap st ?r" using up(2) ra by auto
  have xs1: "seg st1 (next_of st1 ?r) xs q"
  proof -
    have "seg st1 (next_of st ?r) xs q = seg st (next_of st ?r) xs q"
    proof (rule seg_cong, rule up(2))
      fix c assume "c \<in> fst ` set xs"
      then show "c \<noteq> a" using an'(1) by metis
    qed
    then show ?thesis using q(1) rn by simp
  qed
  have st'1: "st' = (if ?p + 16 * size_of st1 ?p = a
     then upd_next (upd_size st1 ?p (size_of st1 ?p + size_of st1 a)) ?p (next_of st1 a)
     else upd_next st1 ?p a)"
    by (simp add: st' linked_back_def st1_def Let_def)
  have "a \<noteq> ?r" "distinct (?r # map fst (xs @ ys))" using ra ad(1) by (simp_all add: fl)
  then have "distinct (?r # map fst (xs @ join_up (a, n) ys))"
    using an' by (cases ys) simp_all
  note down = seg_join_down [of st1 xs q a "join_up (a, n) ys" st', unfolded p1,
      OF xs1 up(1) join_up_not_Nil _ ra this st'1]
  show "seg st' (next_of st' ?r) (freed fl (a, n)) ?r" "size_of st' ?r = 0"
    using down(1,3) r(2) rn by (simp_all add: freed_def xy)
  show "\<And>c. c \<noteq> a \<Longrightarrow> c \<noteq> ?p \<Longrightarrow> sf_heap st' c = sf_heap st c"
    using down(2) r(2) rn up(2) by simp
qed

lemma deallocate_rep:
  assumes rep: "sf_rep st lo fl A" and b: "(a, n) \<in> A"
  shows "\<exists>st'. sf_priv_deallocate st (a + 16) = Some st' \<and> sf_rep st' lo (freed fl (a, n)) (A - {(a, n)})
     \<and> sf_root st' = sf_root st \<and> sf_this st' = sf_this st \<and> sf_size st' = sf_size st"
proof -
  let ?xs = "takeWhile (\<lambda>x. fst x < a) fl" and ?ys = "dropWhile (\<lambda>x. fst x < a) fl"
  let ?st0 = "st\<lparr>m_allocated := m_allocated st - 16 * size_of st a\<rparr>" and ?r = "sf_root st"
  let ?q = "if ?ys = [] then ?r else fst (hd ?ys)"
  let ?st' = "linked_back ?st0 (prev_of st ?xs) ?q a"
  have al: "\<And>c. c \<in> A \<Longrightarrow> sf_heap st (fst c) = \<lparr>bc_next = 0, bc_size = snd c\<rparr>"
    and so: "sorted_wrt apart fl" and fin: "finite A" and sg: "seg st (next_of st ?r) fl ?r"
    and acc: "m_allocated st = 16 * (\<Sum>b\<in>A. snd b)" and r: "0 < ?r" "?r < lo" "sf_end st < 2 ^ 64"
    using rep by (auto simp: sf_rep_def)
  note ad = sf_rep_addresses [OF rep]
  have "seg ?st0 (next_of st ?r) (?xs @ ?ys) ?r"
    using sg seg_cong [of fl ?st0 st "next_of st ?r" ?r] by simp
  moreover have "\<forall>x\<in>set ?xs. fst x < a \<and> fst x \<noteq> sf_root ?st0" using ad(2) set_takeWhileD by fastforce
  moreover have "?ys = [] \<or> a \<le> fst (hd ?ys)" using dropWhile_above [OF so] hd_in_set by metis
  ultimately have "sf_find_pos ?st0 a ?r (next_of st ?r) = Some (prev_of st ?xs, ?q)"
    using sf_find_pos_seg [of ?st0 "next_of st ?r" ?xs ?ys a ?r] unfolding prev_of_def by simp
  then have dq: "sf_priv_deallocate st (a + 16) = Some ?st'"
    using deallocate_unfold [of "a + 16" st] by simp
  note lb = linked_back_seg [OF rep b refl refl, of ?st0 "?st'", simplified]
  have "sf_heap ?st' (fst c) = \<lparr>bc_next = 0, bc_size = snd c\<rparr>" if c: "c \<in> A - {(a, n)}" for c
  proof -
    have "fst c \<noteq> a" using ad(6) [of c "(a, n)"] c b by auto
    moreover have "fst c \<noteq> prev_of st ?xs"
    proof (cases "?xs = []")
      case False
      then have "last ?xs \<in> set fl" using last_in_set set_takeWhileD by metis
      then show ?thesis using ad(4) [of c "last ?xs"] c False by (simp add: prev_of_def)
    qed (use ad(3) c in \<open>simp add: prev_of_def\<close>)
    ultimately show ?thesis using lb(3) al c by auto
  qed
  moreover have "m_allocated ?st' = 16 * (\<Sum>b\<in>A - {(a, n)}. snd b)"
    using acc fin b al [OF b] by (simp add: linked_back_simps sum_diff1_nat diff_mult_distrib2)
  ultimately have "sf_rep ?st' lo (freed fl (a, n)) (A - {(a, n)})"
    using freed_facts [OF rep b] lb(1,2) r fin unfolding sf_rep_def linked_back_simps by simp
  then show ?thesis using dq by (intro exI [of _ "?st'"]) (simp add: linked_back_simps)
qed
end
