(* ===== verification/Seq_Fit_Search.thy ===== *)
theory Seq_Fit_Search
  imports Seq_Fit_Rep
begin

text \<open>
  The search for a free block: the loop of \<^verbatim>\<open>priv_allocate\<close> over the free list takes the first block
  that is large enough for the preferred size, and otherwise the biggest one if that is enough for the
  limit size. \<open>first_fit\<close> states this policy on the list of free blocks.
\<close>

section \<open>Searching the free list\<close>

lemma check_and_allocate_fails:
  "size_of st a < u \<Longrightarrow> priv_check_and_allocate st u p a = (st, 0, 0)"
  by (simp add: priv_check_and_allocate_def Let_def)

text \<open>The biggest block seen so far, as the loop of \<^verbatim>\<open>priv_allocate\<close> keeps it.\<close>

definition biggest_seen :: "seq_fit \<Rightarrow> block list \<Rightarrow> nat \<Rightarrow> nat \<Rightarrow> nat \<Rightarrow> bool" where
  "biggest_seen st xs sz pb bb \<longleftrightarrow>
     (if xs = [] then sz = 0 \<and> bb = 0
      else \<exists>us n vs. xs = us @ (bb, n) # vs \<and> pb = prev_of st us \<and> sz = n \<and> (\<forall>x\<in>set xs. snd x \<le> n))"

lemma biggest_seen_step:
  assumes "biggest_seen st xs sz pb bb" "0 < snd x"
    and "(sz', pb', bb') = (if snd x > sz then (snd x, prev_of st xs, fst x) else (sz, pb, bb))"
  shows "biggest_seen st (xs @ [x]) sz' pb' bb'"
proof (cases "snd x > sz")
  case True
  have "\<forall>y\<in>set xs. snd y \<le> sz" using assms(1) by (auto simp: biggest_seen_def split: if_splits)
  then have "\<forall>y\<in>set (xs @ [x]). snd y \<le> snd x" using True by force
  moreover have "sz' = snd x" "pb' = prev_of st xs" "bb' = fst x" using assms(3) True by simp_all
  moreover have "xs @ [x] = xs @ (fst x, snd x) # []" by simp
  ultimately show ?thesis unfolding biggest_seen_def by force
next
  case False
  then have e: "sz' = sz" "pb' = pb" "bb' = bb" using assms(3) by simp_all
  then have "xs \<noteq> []" using assms False by (auto simp: biggest_seen_def)
  then obtain us n vs where "xs = us @ (bb, n) # vs" "pb = prev_of st us" "sz = n" "\<forall>y\<in>set xs. snd y \<le> n"
    using assms(1) unfolding biggest_seen_def by (simp only: if_False simp_thms) blast
  then have "xs @ [x] = us @ (bb', n) # (vs @ [x]) \<and> pb' = prev_of st us \<and> sz' = n
      \<and> (\<forall>y\<in>set (xs @ [x]). snd y \<le> n)"
    using False by (auto simp: e)
  then have "\<exists>us n vs. xs @ [x] = us @ (bb', n) # vs \<and> pb' = prev_of st us \<and> sz' = n
      \<and> (\<forall>y\<in>set (xs @ [x]). snd y \<le> n)"
    by blast
  then show ?thesis unfolding biggest_seen_def by simp
qed

lemma sf_search_skip:
  assumes "p \<noteq> sf_root st" "size_of st p < u"
    and "(sz1, pb1, bb1) = (if size_of st p > sz then (size_of st p, p', p) else (sz, pb, bb))"
  shows "sf_search st u p' p sz pb bb = sf_search st u p (next_of st p) sz1 pb1 bb1"
  using assms check_and_allocate_fails [of st p u p']
  by (subst sf_search.simps) (auto split: if_splits)

lemma sf_search_seg:
  assumes "seg st p ys (sf_root st)" "\<forall>y\<in>set ys. 0 < snd y \<and> fst y \<noteq> sf_root st \<and> fst y \<noteq> 0"
    and "biggest_seen st xs sz pb bb" "p' = prev_of st xs"
  shows "(\<forall>y\<in>set ys. snd y < u) \<Longrightarrow>
      \<exists>sz' pb' bb'. sf_search st u p' p sz pb bb = Some (st, 0, 0, pb', bb') \<and> biggest_seen st (xs @ ys) sz' pb' bb'"
    and "ys = us @ (a, n) # vs \<Longrightarrow> \<forall>y\<in>set us. snd y < u \<Longrightarrow> u \<le> n \<Longrightarrow>
      priv_check_and_allocate st u (prev_of st (xs @ us)) a = (st', q, rc) \<Longrightarrow> q \<noteq> 0 \<Longrightarrow>
      \<exists>pb' bb'. sf_search st u p' p sz pb bb = Some (st', q, rc, pb', bb')"
proof -
  show "\<exists>sz' pb' bb'. sf_search st u p' p sz pb bb = Some (st, 0, 0, pb', bb') \<and>
      biggest_seen st (xs @ ys) sz' pb' bb'" if "\<forall>y\<in>set ys. snd y < u"
    using assms that
  proof (induction ys arbitrary: xs p p' sz pb bb)
    case Nil
    then show ?case by (auto simp: sf_search.simps)
  next
    case (Cons y ys)
    have y: "p = fst y" "size_of st p = snd y" "seg st (next_of st p) ys (sf_root st)" "0 < snd y" "snd y < u"
      "p \<noteq> sf_root st" using Cons.prems(1,2,5) by auto
    obtain sz1 pb1 bb1 where b: "(sz1, pb1, bb1) =
        (if size_of st p > sz then (size_of st p, p', p) else (sz, pb, bb))" by (metis prod_cases3)
    have "biggest_seen st (xs @ [y]) sz1 pb1 bb1"
      using biggest_seen_step [OF Cons.prems(3) y(4)] b y(1,2) Cons.prems(4) by simp
    moreover have "p = prev_of st (xs @ [y])" by (simp add: y(1))
    ultimately have "\<exists>sz' pb' bb'. sf_search st u p (next_of st p) sz1 pb1 bb1 = Some (st, 0, 0, pb', bb') \<and>
        biggest_seen st ((xs @ [y]) @ ys) sz' pb' bb'"
      using Cons.prems(2,5) by (intro Cons.IH [OF y(3)]) auto
    moreover have "sf_search st u p' p sz pb bb = sf_search st u p (next_of st p) sz1 pb1 bb1"
      using y b by (intro sf_search_skip) auto
    ultimately show ?case by simp
  qed
  show "\<exists>pb' bb'. sf_search st u p' p sz pb bb = Some (st', q, rc, pb', bb')"
    if "ys = us @ (a, n) # vs" "\<forall>y\<in>set us. snd y < u" "u \<le> n"
      "priv_check_and_allocate st u (prev_of st (xs @ us)) a = (st', q, rc)" "q \<noteq> 0"
    using assms that
  proof (induction us arbitrary: ys xs p p' sz pb bb)
    case Nil
    then show ?case by (subst sf_search.simps) (auto split: prod.splits)
  next
    case (Cons y us)
    have y: "p = fst y" "size_of st p = snd y" "seg st (next_of st p) (us @ (a, n) # vs) (sf_root st)"
      "0 < snd y" "snd y < u" "p \<noteq> sf_root st" using Cons.prems(1,2,5,6) by auto
    obtain sz1 pb1 bb1 where b: "(sz1, pb1, bb1) =
        (if size_of st p > sz then (size_of st p, p', p) else (sz, pb, bb))" by (metis prod_cases3)
    have "biggest_seen st (xs @ [y]) sz1 pb1 bb1"
      using biggest_seen_step [OF Cons.prems(3) y(4)] b y(1,2) Cons.prems(4) by simp
    moreover have "p = prev_of st (xs @ [y])" by (simp add: y(1))
    ultimately have "\<exists>pb' bb'. sf_search st u p (next_of st p) sz1 pb1 bb1 = Some (st', q, rc, pb', bb')"
      using Cons.prems by (intro Cons.IH [OF y(3)]) auto
    moreover have "sf_search st u p' p sz pb bb = sf_search st u p (next_of st p) sz1 pb1 bb1"
      using y b by (intro sf_search_skip) auto
    ultimately show ?case by simp
  qed
qed

section \<open>Allocation\<close>

text \<open>The units of a block for \<open>n\<close> user bytes, as \<^verbatim>\<open>priv_allocate\<close> computes them.\<close>

definition units_for :: "size_t \<Rightarrow> nat" where
  "units_for nbytes = unat (get_rounded_size nbytes 16 div 16 + 1)"

lemma units_for_eq: "units_for n = unat (get_rounded_size n 16) div 16 + 1"
proof -
  have d: "unat (get_rounded_size n 16 div 16) = unat (get_rounded_size n 16) div 16" by (simp add: unat_div)
  have "unat (get_rounded_size n 16) div 16 + 1 < 2 ^ 64"
    using size_t_bound [of "get_rounded_size n 16"] by simp
  then show ?thesis by (simp add: units_for_def unat_add_lem' d)
qed

lemma units_for_pos: "0 < units_for n"
  by (simp add: units_for_eq)

inductive first_fit :: "nat \<Rightarrow> nat \<Rightarrow> block list \<Rightarrow> block option \<Rightarrow> bool" where
  fits: "\<forall>x\<in>set us. snd x < u \<Longrightarrow> u \<le> n \<Longrightarrow> first_fit u limit (us @ (a, n) # vs) (Some (a, taken u n))"
| biggest: "\<forall>x\<in>set fl. snd x < u \<Longrightarrow> fl = us @ (a, n) # vs \<Longrightarrow> \<forall>x\<in>set fl. snd x \<le> n \<Longrightarrow> limit \<le> n \<Longrightarrow>
    first_fit u limit fl (Some (a, n))"
| none: "\<forall>x\<in>set fl. snd x < u \<and> snd x < limit \<Longrightarrow> first_fit u limit fl None"

lemma allocate_branch_rep:
  assumes rep: "sf_rep st lo fl A"
  shows "\<exists>st' p rc b. sf_allocate_branch st limit preferred = Some (st', p, rc)
    \<and> first_fit (units_for preferred) (units_for limit) fl b
    \<and> (case b of None \<Rightarrow> st' = st \<and> p = 0 \<and> rc = 0
       | Some (a, k) \<Rightarrow> p = a + 16 \<and> rc = 16 * k - 16 \<and> (a, k) \<notin> A \<and> sf_root st' = sf_root st
           \<and> sf_end st' = sf_end st \<and> sf_this st' = sf_this st \<and> sf_size st' = sf_size st \<and> (\<exists>fl'. sf_rep st' lo fl' (insert (a, k) A)))"
proof -
  let ?r = "sf_root st" and ?u = "units_for preferred" and ?l = "units_for limit"
  have sg: "seg st (next_of st ?r) fl ?r" using rep by (simp add: sf_rep_def)
  note ad = sf_rep_addresses [OF rep]
  have ok: "\<forall>y\<in>set fl. 0 < snd y \<and> fst y \<noteq> ?r \<and> fst y \<noteq> 0"
    using ad(2,5) size_bound(2) [OF rep] by blast
  have b0: "biggest_seen st [] 0 0 0" by (simp add: biggest_seen_def)
  note search = sf_search_seg [OF sg ok b0, of "?r", simplified]
  show ?thesis
  proof (cases "\<exists>x\<in>set fl. ?u \<le> snd x")
    case True
    then obtain us x vs where fl: "fl = us @ x # vs" "?u \<le> snd x" "\<forall>y\<in>set us. \<not> ?u \<le> snd y"
      using split_list_first_prop [of fl "\<lambda>x. ?u \<le> snd x"] by auto
    obtain a n where x: "x = (a, n)" by (cases x)
    obtain st' q rc where c: "priv_check_and_allocate st ?u (prev_of st us) a = (st', q, rc)"
      by (metis prod_cases3)
    have rep': "sf_rep st lo (us @ (a, n) # vs) A" using rep fl x by simp
    have un: "?u \<le> n" using fl(2) x by simp
    note at = allocate_at [OF rep' units_for_pos un c]
    have us: "\<forall>y\<in>set us. snd y < ?u" using fl(3) by auto
    obtain pb bb where "sf_search st ?u ?r (next_of st ?r) 0 0 0 = Some (st', q, rc, pb, bb)"
      using search(2) [of us a n vs ?u st' q rc] fl(1) x us un c at(2) by auto
    then have "sf_allocate_branch st limit preferred = Some (st', q, rc)"
      using at(2) by (simp add: sf_allocate_branch_def units_for_def)
    moreover have "first_fit ?u ?l fl (Some (a, taken ?u n))"
      unfolding fl(1) x using us un by (rule first_fit.fits)
    ultimately show ?thesis using at by (intro exI [of _ st'] exI [of _ q] exI [of _ rc] exI [of _ "Some (a, taken ?u n)"]) auto
  next
    case False
    then have small: "\<forall>y\<in>set fl. snd y < ?u" by auto
    obtain sz pb bb where s: "sf_search st ?u ?r (next_of st ?r) 0 0 0 = Some (st, 0, 0, pb, bb)"
      "biggest_seen st fl sz pb bb"
      using search(1) small by blast
    show ?thesis
    proof (cases fl)
      case Nil
      then have "bb = 0" using s(2) by (simp add: biggest_seen_def)
      then have "sf_allocate_branch st limit preferred = Some (st, 0, 0)"
        using s(1) by (simp add: sf_allocate_branch_def units_for_def)
      moreover have "first_fit ?u ?l fl None" using Nil by (auto intro: first_fit.none)
      ultimately show ?thesis by (intro exI [of _ st] exI [of _ 0] exI [of _ None]) auto
    next
      case (Cons y ys)
      then have ne: "fl \<noteq> []" by simp
      then obtain us n vs where b: "fl = us @ (bb, n) # vs" "pb = prev_of st us" "\<forall>x\<in>set fl. snd x \<le> n"
        using s(2) unfolding biggest_seen_def by (simp only: if_False simp_thms) blast
      have sz: "size_of st bb = n" using sg by (auto simp: b(1) seg_append)
      have bb: "bb \<noteq> 0" "0 < n" using ok by (auto simp: b(1))
      show ?thesis
      proof (cases "n < ?l")
        case True
        then have "sf_allocate_branch st limit preferred = Some (st, 0, 0)"
          using s(1) sz bb by (simp add: sf_allocate_branch_def units_for_def)
        moreover have "first_fit ?u ?l fl None" using True small b(3) by (intro first_fit.none) force
        ultimately show ?thesis by (intro exI [of _ st] exI [of _ 0] exI [of _ None]) auto
      next
        case False
        obtain st' q rc where c: "priv_check_and_allocate st n (prev_of st us) bb = (st', q, rc)"
          by (metis prod_cases3)
        have rep': "sf_rep st lo (us @ (bb, n) # vs) A" using rep b by simp
        note at = allocate_at [OF rep' bb(2) order_refl c]
        have "sf_allocate_branch st limit preferred = Some (st', q, rc)"
          using s(1) sz bb False b(2) c by (simp add: sf_allocate_branch_def units_for_def)
        moreover have "first_fit ?u ?l fl (Some (bb, n))"
          using first_fit.biggest [OF small b(1,3)] False by simp
        moreover have "taken n n = n" by (simp add: taken_def)
        ultimately show ?thesis
          using at by (intro exI [of _ st'] exI [of _ q] exI [of _ rc] exI [of _ "Some (bb, n)"]) auto
      qed
    qed
  qed
qed
end
