(* ===== verification/Seq_Fit_Correct.thy ===== *)
theory Seq_Fit_Correct
  imports Seq_Fit_Search
begin

text \<open>
  Correctness of the sequential fit algorithm: the constructor establishes the representation, allocation
  and deallocation keep it, expansion in place and growing keep it, and the queries answer what the
  representation says.
\<close>

section \<open>Construction\<close>

lemma get_rounded_16:
  assumes "n + 15 < 2 ^ 64" "0 < n"
  shows "unat (get_rounded_size (of_nat n) 16) = ((n - 1) div 16 + 1) * 16"
proof -
  have n: "unat (of_nat n :: size_t) = n" using assms by (intro unat_of_nat_size) simp
  then have "unat (get_rounded_size (of_nat n) 16) = ((unat (of_nat n :: size_t) - 1) div unat (16 :: size_t) + 1) * unat (16 :: size_t)"
    using assms by (intro get_rounded_size_nat) (auto simp: n word_of_nat_unat_eq)
  then show ?thesis by (simp add: n)
qed

lemma get_truncated_16:
  assumes "n < 2 ^ 64"
  shows "unat (get_truncated_size (of_nat n) 16) = n div 16 * 16"
proof -
  have "unat (of_nat n :: size_t) = n" using assms by (rule unat_of_nat_size)
  moreover have "n div 16 * 16 < 2 ^ 64" using assms by (simp add: le_less_trans [OF div_times_less_eq_dividend])
  ultimately show ?thesis by (simp add: get_truncated_size_def unat_mult_lem' unat_div)
qed

lemma get_truncated_16':
  "unat (get_truncated_size n 16) = unat n div 16 * 16"
  using get_truncated_16 [OF size_t_bound, of n] by simp

lemma block_ends:
  assumes "0 < sz" "sz + extra + 31 < 2 ^ 64" "sf_this st + sf_size st < 2 ^ 64 - 16"
  defines "off \<equiv> priv_first_block_offset sz (sf_this st) extra"
  assumes "off + 16 \<le> sf_size st"
  shows "sz + extra \<le> off" and "(sf_this st + off) mod 16 = 0"
    and "sf_end st = sf_this st + off + 16 * ((sf_size st - off) div 16)"
    and "sf_end st \<le> sf_this st + sf_size st"
proof -
  let ?t = "sf_this st" and ?d = "sf_this st mod 16"
  have d: "?t - ?t div 16 * 16 = ?d" by (simp add: minus_div_mult_eq_mod)
  have d16: "?d < 16" by simp
  let ?n = "sz + extra + ?d"
  have R: "unat (get_rounded_size (of_nat ?n) 16) = ((?n - 1) div 16 + 1) * 16"
    using assms(1,2) d16 by (intro get_rounded_16) linarith+
  have off: "off = ((?n - 1) div 16 + 1) * 16 - ?d"
    unfolding off_def priv_first_block_offset_def Let_def d R ..
  have T: "unat (get_truncated_size (of_nat (sf_size st + ?d)) 16) = (sf_size st + ?d) div 16 * 16"
    using assms(3) d16 by (intro get_truncated_16) linarith
  have e: "sf_end st = ?t + ((sf_size st + ?d) div 16 * 16 - ?d)"
    unfolding sf_end_def priv_block_end_offset_def Let_def d T ..
  define q where "q = (?n - 1) div 16 + 1"
  have q: "?n \<le> q * 16" "q * 16 < ?n + 16" unfolding q_def using round_up_nat [of 16 ?n] assms(1) by auto
  have off': "off = q * 16 - ?d" using off by (simp add: q_def)
  define g where "g = ?t div 16"
  have t: "?t = g * 16 + ?d" unfolding g_def by simp
  show "sz + extra \<le> off" using q off' by linarith
  have qd: "?d \<le> q * 16" using q by linarith
  then have ao: "?t + off = (g + q) * 16" using t off' by (simp add: algebra_simps)
  then show "(?t + off) mod 16 = 0" by simp
  define u where "u = (sf_size st - off) div 16"
  have "sf_size st + ?d = q * 16 + (sf_size st - off)" using assms(5) off' qd by linarith
  then have "(sf_size st + ?d) div 16 = q + u" by (simp add: u_def)
  then have "sf_end st = ?t + ((q + u) * 16 - ?d)" using e by simp
  then show "sf_end st = ?t + off + 16 * ((sf_size st - off) div 16)"
    unfolding u_def [symmetric] using off' qd by (simp add: algebra_simps)
  moreover have "16 * ((sf_size st - off) div 16) \<le> sf_size st - off" by simp
  ultimately show "sf_end st \<le> ?t + sf_size st" using assms(5) by linarith
qed

lemma tiles_single:
  assumes "0 < n" "a mod 16 = 0"
  shows "tiles a (a + 16 * n) {(a, n)}"
  using assms by (simp add: tiles_def bytes_def)

lemma construct_rep:
  assumes "0 < sz" "sz + extra + 31 < 2 ^ 64" "this_ptr + segment_size < 2 ^ 64 - 16"
    and "0 < this_ptr" "this_ptr \<le> root" "root < this_ptr + sz" "bc_size (heap root) = 0"
  defines "off \<equiv> priv_first_block_offset sz this_ptr extra"
  assumes "off + 16 \<le> segment_size"
  shows "sf_rep (sf_construct sz this_ptr root heap segment_size extra) (this_ptr + off)
           [(this_ptr + off, (segment_size - off) div 16)] {}"
proof -
  let ?st = "sf_construct sz this_ptr root heap segment_size extra" and ?a = "this_ptr + off"
  let ?n = "(segment_size - off) div 16"
  have f: "sf_this ?st = this_ptr" "sf_size ?st = segment_size" "sf_root ?st = root" "m_allocated ?st = 0"
    by (simp_all add: sf_construct_def Let_def)
  note be = block_ends [of sz extra ?st, unfolded f, folded off_def]
  have ne: "root < ?a" using be(1) assms by linarith
  then have h: "sf_heap ?st = heap(root := (heap root)\<lparr>bc_next := ?a\<rparr>, ?a := \<lparr>bc_next = root, bc_size = ?n\<rparr>)"
    by (simp add: sf_construct_def Let_def off_def fun_eq_iff)
  have n: "0 < ?n" using assms(9) by (simp add: div_greater_zero_iff)
  have e: "sf_end ?st = ?a + 16 * ?n" "sf_end ?st \<le> this_ptr + segment_size" "?a mod 16 = 0"
    using be(2-4) assms by auto
  have "tiles ?a (sf_end ?st) {(?a, ?n)}" unfolding e(1) using n e(3) by (rule tiles_single)
  then show ?thesis
    unfolding sf_rep_def using f h ne assms e(2) by auto
qed

section \<open>Sanity\<close>

lemma sum_snd_tiles:
  assumes "tiles lo hi S" "finite S" "S \<noteq> {}"
  shows "lo + 16 * (\<Sum>b\<in>S. snd b) = hi"
proof -
  have "card (\<Union>x\<in>S. bytes x) = (\<Sum>x\<in>S. card (bytes x))"
  proof (rule card_UN_disjoint [OF assms(2)])
    show "\<forall>x\<in>S. finite (bytes x)" by (simp add: bytes_def)
    show "\<forall>x\<in>S. \<forall>y\<in>S. x \<noteq> y \<longrightarrow> bytes x \<inter> bytes y = {}" using tilesD(5) [OF assms(1)] by blast
  qed
  moreover have "(\<Union>x\<in>S. bytes x) = {lo..<hi}" using assms(1) by (simp add: tiles_def)
  moreover have "(\<Sum>x\<in>S. card (bytes x)) = 16 * (\<Sum>x\<in>S. snd x)"
    by (simp add: bytes_def sum_distrib_left)
  ultimately have "hi - lo = 16 * (\<Sum>x\<in>S. snd x)" by simp
  moreover have "lo \<le> hi"
  proof -
    obtain b where "b \<in> S" using assms(3) by blast
    then show ?thesis using tilesD(3,4) [OF assms(1), of b] by linarith
  qed
  ultimately show ?thesis by simp
qed

lemma rep_accounting:
  assumes "sf_rep st lo fl A"
  shows "16 * sum_list (map snd fl) + m_allocated st \<le> sf_end st"
    and "set fl \<union> A \<noteq> {} \<Longrightarrow> lo + 16 * sum_list (map snd fl) + m_allocated st = sf_end st"
proof -
  have t: "tiles lo (sf_end st) (set fl \<union> A)" and fin: "finite A" and d: "set fl \<inter> A = {}"
    and acc: "m_allocated st = 16 * (\<Sum>b\<in>A. snd b)" using assms by (auto simp: sf_rep_def)
  have "distinct (map fst fl)" using sf_rep_addresses(1) [OF assms] by simp
  then have "distinct fl" by (simp add: distinct_map)
  then have "(\<Sum>b\<in>set fl. snd b) = sum_list (map snd fl)" by (simp add: sum_list_distinct_conv_sum_set)
  then have s: "(\<Sum>b\<in>set fl \<union> A. snd b) = sum_list (map snd fl) + (\<Sum>b\<in>A. snd b)"
    using fin d by (simp add: sum.union_disjoint)
  show ex: "lo + 16 * sum_list (map snd fl) + m_allocated st = sf_end st" if "set fl \<union> A \<noteq> {}"
    using sum_snd_tiles [OF t _ that] fin s acc by simp
  show "16 * sum_list (map snd fl) + m_allocated st \<le> sf_end st"
    by (cases "set fl \<union> A = {}") (use ex acc in auto)
qed

lemma sanity_loop_seg:
  assumes "seg st p fl (sf_root st)" "\<forall>b\<in>set fl. fst b \<noteq> sf_root st \<and> fst b mod 16 = 0 \<and> next_of st (fst b) \<noteq> 0"
  shows "sf_sanity_loop st p m = Some (Some (m + 16 * sum_list (map snd fl)))"
  using assms
proof (induction fl arbitrary: p m)
  case Nil
  then show ?case by (simp add: sf_sanity_loop.simps)
next
  case (Cons b fl)
  then show ?case
    by (subst sf_sanity_loop.simps) (auto simp: check_alignment_def sf_algo_def)
qed

lemma free_next_not_null:
  assumes "sf_rep st lo fl A" "b \<in> set fl"
  shows "next_of st (fst b) \<noteq> 0"
proof -
  obtain xs ys where fl: "fl = xs @ b # ys" using split_list [OF assms(2)] by blast
  have "seg st (next_of st (fst b)) ys (sf_root st)" "0 < sf_root st"
    using assms(1) by (auto simp: sf_rep_def fl seg_append)
  moreover have "fst c \<noteq> 0" if "c \<in> set ys" for c
    using sf_rep_addresses(5) [OF assms(1), of c] that by (auto simp: fl)
  ultimately show ?thesis by (cases ys) auto
qed

lemma sanity_rep:
  assumes "sf_rep st lo fl A" "sf_end st \<le> lo + sf_size st"
  shows "check_sanity st = Some True"
proof -
  have "sf_sanity_loop st (next_of st (sf_root st)) 0 = Some (Some (16 * sum_list (map snd fl)))"
  proof -
    have sg: "seg st (next_of st (sf_root st)) fl (sf_root st)" and t: "tiles lo (sf_end st) (set fl \<union> A)"
      using assms(1) by (auto simp: sf_rep_def)
    show ?thesis
      using sanity_loop_seg [OF sg, of 0] sf_rep_addresses(2) [OF assms(1)] tilesD(2) [OF t]
        free_next_not_null [OF assms(1)] by simp
  qed
  moreover have "16 * sum_list (map snd fl) + m_allocated st \<le> sf_size st"
  proof (cases "set fl \<union> A = {}")
    case True
    then show ?thesis using assms(1) by (simp add: sf_rep_def)
  qed (use rep_accounting(2) [OF assms(1)] assms(2) in linarith)
  ultimately show ?thesis by (simp add: check_sanity_def)
qed

text \<open>With no live block the free list is a single block: nothing stays fragmented.\<close>

lemma no_live_single:
  assumes "sf_rep st lo fl {}" "lo < sf_end st"
  shows "fl = [(lo, (sf_end st - lo) div 16)]"
proof -
  have t: "tiles lo (sf_end st) (set fl)" and so: "sorted_wrt apart fl" using assms(1) by (auto simp: sf_rep_def)
  have u: "(\<Union>x\<in>set fl. bytes x) = {lo..<sf_end st}" using t by (simp add: tiles_def)
  show ?thesis
  proof (cases fl)
    case Nil
    then show ?thesis using u assms(2) by auto
  next
    case (Cons b bs)
    have "lo \<in> (\<Union>x\<in>set fl. bytes x)" using u assms(2) by simp
    then obtain c where c: "c \<in> set fl" "fst c \<le> lo" by (auto simp: bytes_def)
    have b: "fst b = lo"
      using c tilesD(3) [OF t, of b] so Cons by (auto simp: order_less_imp_le) 
    have "bs = []"
    proof (rule ccontr)
      assume "bs \<noteq> []"
      then obtain y ys where ys: "bs = y # ys" by (cases bs) auto
      let ?e = "fst b + 16 * snd b"
      have "?e < sf_end st" "lo \<le> ?e"
        using so tilesD(4) [OF t, of y] b by (auto simp: Cons ys)
      then have "?e \<in> (\<Union>x\<in>set fl. bytes x)" using u by simp
      then obtain x where x: "x \<in> set fl" "?e \<in> bytes x" by blast
      moreover have "?e \<notin> bytes b" by (simp add: bytes_def)
      ultimately have "x \<in> set bs" using Cons by auto
      then have "?e < fst x" using so Cons by auto
      then show False using x(2) by (simp add: bytes_def)
    qed
    moreover from this have "lo + 16 * snd b = sf_end st"
      using sum_snd_tiles [OF t] Cons by simp
    ultimately show ?thesis using b Cons by (cases b) auto
  qed
qed

lemma all_deallocated_rep:
  assumes "sf_rep st lo fl A" "lo < sf_end st"
  shows "all_memory_deallocated st \<longleftrightarrow> A = {}"
proof
  assume "all_memory_deallocated st"
  then have "(\<Sum>b\<in>A. snd b) = 0" using assms(1) by (simp add: all_memory_deallocated_def sf_rep_def)
  moreover have "finite A" using assms(1) by (simp add: sf_rep_def)
  ultimately have "\<forall>b\<in>A. snd b = 0" by simp
  then show "A = {}" using size_bound(2) [OF assms(1)] by (metis Un_iff all_not_in_conv less_not_refl)
next
  assume A: "A = {}"
  then have "fl = [(lo, (sf_end st - lo) div 16)]" using no_live_single assms by blast
  then show "all_memory_deallocated st"
    using assms(1) A by (auto simp: all_memory_deallocated_def sf_rep_def)
qed
end
