(* ===== verification/Seq_Fit_Expand.thy ===== *)
theory Seq_Fit_Expand
  imports Seq_Fit_Correct
begin

text \<open>
  The operations of the sequential fit algorithm that change the extent of a block or of the segment: the
  allocated blocks can be described anew after a split or a join, \<^verbatim>\<open>priv_expand\<close> takes the free block
  behind an allocated one into it, and \<^verbatim>\<open>grow\<close> turns the new end of the segment into free memory.
\<close>

section \<open>Describing the allocated blocks anew\<close>

lemma re_describe:
  assumes "sf_rep st lo fl A" "sf_root st' = sf_root st" "m_allocated st' = 16 * (\<Sum>b\<in>A'. snd b)"
    and "\<And>c. c \<in> insert (sf_root st) (fst ` set fl) \<Longrightarrow> sf_heap st' c = sf_heap st c"
    and "\<And>b. b \<in> A' \<Longrightarrow> sf_heap st' (fst b) = \<lparr>bc_next = 0, bc_size = snd b\<rparr>"
    and "finite A'" "set fl \<inter> A' = {}" "tiles lo (sf_end st') (set fl \<union> A')" "sf_end st' < 2 ^ 64"
  shows "sf_rep st' lo fl A'"
proof -
  have r: "sf_heap st' (sf_root st) = sf_heap st (sf_root st)" by (rule assms(4)) simp
  have "seg st' p fl q = seg st p fl q" for p q by (rule seg_cong, rule assms(4)) simp
  then show ?thesis using assms r unfolding sf_rep_def by auto
qed

lemma start_not_among:
  assumes "tiles lo hi S" "b \<in> S" "b \<notin> T" "T \<subseteq> S"
  shows "fst b \<notin> fst ` T"
proof
  assume "fst b \<in> fst ` T"
  then obtain c where "c \<in> T" "fst c = fst b" by (metis imageE)
  then show False using tiles_same_start [OF assms(1), of c b] assms by auto
qed

lemma split_allocated:
  assumes rep: "sf_rep st lo fl (insert (a, n) A)" and "(a, n) \<notin> A" and k: "0 < k" "k < n"
    and f: "sf_root st' = sf_root st" "m_allocated st' = m_allocated st" "sf_end st' = sf_end st"
    and h: "sf_heap st' = (sf_heap st)(a := \<lparr>bc_next = 0, bc_size = k\<rparr>, a + 16 * k := \<lparr>bc_next = 0, bc_size = n - k\<rparr>)"
  shows "sf_rep st' lo fl (insert (a, k) (insert (a + 16 * k, n - k) A))"
    and "(a, k) \<notin> A" and "(a + 16 * k, n - k) \<notin> A"
proof -
  let ?A = "insert (a, k) (insert (a + 16 * k, n - k) A)" and ?S = "set fl \<union> A"
  have t: "tiles lo (sf_end st) (insert (a, n) ?S)" and d: "set fl \<inter> insert (a, n) A = {}" and fin: "finite A"
    and e: "sf_end st < 2 ^ 64" and acc: "m_allocated st = 16 * (\<Sum>b\<in>insert (a, n) A. snd b)"
    and r: "sf_root st < lo"
    and al: "\<And>b. b \<in> A \<Longrightarrow> sf_heap st (fst b) = \<lparr>bc_next = 0, bc_size = snd b\<rparr>"
    using rep by (auto simp: sf_rep_def)
  have nS: "(a, n) \<notin> ?S" using d assms(2) by auto
  have t': "tiles lo (sf_end st) (insert (a, k) (insert (a + 16 * k, n - k) ?S))"
    by (rule tiles_split [OF t nS k])
  note new = tiles_fresh_parts [OF t nS k]
  show "(a, k) \<notin> A" "(a + 16 * k, n - k) \<notin> A" using new by auto
  have s1: "fst (a, k) \<notin> fst ` ?S" by (rule start_not_among [OF t']) (use new in auto)
  have s2: "fst (a + 16 * k, n - k) \<notin> fst ` ?S" by (rule start_not_among [OF t']) (use new in auto)
  have hS: "sf_heap st' c = sf_heap st c" if "c \<in> fst ` ?S" for c
  proof -
    have "c \<noteq> a" "c \<noteq> a + 16 * k" using that s1 s2 by (metis fst_conv)+
    then show ?thesis by (simp add: h)
  qed
  have rt: "sf_heap st' (sf_root st) = sf_heap st (sf_root st)"
    using r tilesD(3) [OF t, of "(a, n)"] by (simp add: h)
  show "sf_rep st' lo fl ?A"
  proof (rule re_describe [OF rep f(1)])
    show "sf_heap st' c = sf_heap st c" if "c \<in> insert (sf_root st) (fst ` set fl)" for c
      using that rt hS [of c] unfolding image_Un by (metis Un_iff insertE)
    show "sf_heap st' (fst b) = \<lparr>bc_next = 0, bc_size = snd b\<rparr>" if bA: "b \<in> ?A" for b
    proof -
      consider "b = (a, k)" | "b = (a + 16 * k, n - k)" | "b \<in> A" using bA by blast
      then show ?thesis
      proof cases
        case 3
        then have "sf_heap st' (fst b) = sf_heap st (fst b)" by (intro hS imageI) simp
        then show ?thesis using al 3 by simp
      qed (use k in \<open>simp_all add: h\<close>)
    qed
    show "m_allocated st' = 16 * (\<Sum>b\<in>?A. snd b)" using acc f fin new k assms(2) by simp
    show "set fl \<inter> ?A = {}" using d new by auto
    show "tiles lo (sf_end st') (set fl \<union> ?A)" using t' f(3) by (simp add: insert_commute)
  qed (use fin e f in simp_all)
qed

lemma join_allocated:
  assumes rep: "sf_rep st lo fl (insert (a, k) (insert (a + 16 * k, m) A))"
    and n: "(a, k) \<notin> A" "(a + 16 * k, m) \<notin> A"
    and f: "sf_root st' = sf_root st" "m_allocated st' = m_allocated st" "sf_end st' = sf_end st"
    and h: "sf_heap st' a = \<lparr>bc_next = 0, bc_size = k + m\<rparr>"
      "\<And>c. c \<noteq> a \<Longrightarrow> c \<noteq> a + 16 * k \<Longrightarrow> sf_heap st' c = sf_heap st c"
  shows "sf_rep st' lo fl (insert (a, k + m) A)" and "(a, k + m) \<notin> A"
proof -
  let ?S = "set fl \<union> A" and ?A = "insert (a, k + m) A"
  have t: "tiles lo (sf_end st) (insert (a, k) (insert (a + 16 * k, m) ?S))"
    and d: "set fl \<inter> insert (a, k) (insert (a + 16 * k, m) A) = {}" and fin: "finite A"
    and e: "sf_end st < 2 ^ 64" and r: "sf_root st < lo"
    and acc: "m_allocated st = 16 * (\<Sum>b\<in>insert (a, k) (insert (a + 16 * k, m) A). snd b)"
    and al: "\<And>b. b \<in> A \<Longrightarrow> sf_heap st (fst b) = \<lparr>bc_next = 0, bc_size = snd b\<rparr>"
    using rep by (auto simp: sf_rep_def insert_commute)
  have nS: "(a, k) \<notin> ?S" "(a + 16 * k, m) \<notin> ?S" using d n by auto
  have pos: "0 < k" using tilesD(1) [OF t, of "(a, k)"] by simp
  note m = tiles_merge [OF t nS]
  then show "(a, k + m) \<notin> A" by blast
  have s1: "fst (a, k) \<notin> fst ` ?S" by (rule start_not_among [OF t]) (use nS in auto)
  have s2: "fst (a + 16 * k, m) \<notin> fst ` ?S" by (rule start_not_among [OF t]) (use nS in auto)
  have hS: "sf_heap st' c = sf_heap st c" if "c \<in> fst ` ?S" for c
  proof (rule h(2))
    show "c \<noteq> a" "c \<noteq> a + 16 * k" using that s1 s2 by (metis fst_conv)+
  qed
  have rt: "sf_heap st' (sf_root st) = sf_heap st (sf_root st)"
    by (rule h(2)) (use r tilesD(3) [OF t, of "(a, k)"] in auto)
  show "sf_rep st' lo fl ?A"
  proof (rule re_describe [OF rep f(1)])
    show "sf_heap st' c = sf_heap st c" if "c \<in> insert (sf_root st) (fst ` set fl)" for c
      using that rt hS [of c] unfolding image_Un by (metis Un_iff insertE)
    show "sf_heap st' (fst b) = \<lparr>bc_next = 0, bc_size = snd b\<rparr>" if "b \<in> ?A" for b
    proof (cases "b = (a, k + m)")
      case False
      then have "b \<in> A" using that by simp
      then have "sf_heap st' (fst b) = sf_heap st (fst b)" by (intro hS imageI) simp
      then show ?thesis using al \<open>b \<in> A\<close> by simp
    qed (simp add: h)
    show "m_allocated st' = 16 * (\<Sum>b\<in>?A. snd b)" using acc f fin n m(2) pos by simp
    show "set fl \<inter> ?A = {}" using d m by auto
    show "tiles lo (sf_end st') (set fl \<union> ?A)" using m(1) f(3) by simp
  qed (use fin e f in simp_all)
qed

section \<open>Allocation and expansion in place\<close>

lemma units_for_covers:
  assumes "unat nbytes \<le> 2 ^ 64 - 16"
  shows "units_for nbytes \<le> k \<longleftrightarrow> unat nbytes + 16 \<le> 16 * k"
proof (cases "nbytes = 0")
  case True
  then show ?thesis using round_zero_po2 [of 4] by (auto simp: units_for_eq)
next
  case False
  then have n: "0 < unat nbytes" by (simp add: unat_gt_0)
  have "unat (get_rounded_size nbytes 16) = ((unat nbytes - 1) div 16 + 1) * 16"
    using get_rounded_16 [of "unat nbytes"] n assms by simp
  then have "units_for nbytes = (unat nbytes - 1) div 16 + 1 + 1" unfolding units_for_eq by simp
  moreover obtain q where "q = (unat nbytes - 1) div 16 + 1" by blast
  ultimately have "units_for nbytes = q + 1" "unat nbytes \<le> q * 16" "q * 16 < unat nbytes + 16"
    using round_up_nat [of 16 "unat nbytes"] n by simp_all
  then show ?thesis by linarith
qed

lemma allocate_rep:
  assumes rep: "sf_rep st lo fl A" and n: "unat limit \<le> unat preferred" "unat preferred \<le> 2 ^ 64 - 16"
  shows "\<exists>st' p rc. sf_allocate_branch st limit preferred = Some (st', p, rc)
    \<and> sf_root st' = sf_root st \<and> sf_this st' = sf_this st \<and> sf_size st' = sf_size st
    \<and> (if \<exists>b\<in>set fl. unat limit + 16 \<le> 16 * snd b
       then \<exists>a k fl'. p = a + 16 \<and> rc = 16 * k - 16 \<and> (a, k) \<notin> A \<and> unat limit + 16 \<le> 16 * k
         \<and> sf_rep st' lo fl' (insert (a, k) A)
       else st' = st \<and> p = 0 \<and> rc = 0)"
proof -
  obtain st' p rc b where r: "sf_allocate_branch st limit preferred = Some (st', p, rc)"
      "first_fit (units_for preferred) (units_for limit) fl b"
    and c: "case b of None \<Rightarrow> st' = st \<and> p = 0 \<and> rc = 0
       | Some (a, k) \<Rightarrow> p = a + 16 \<and> rc = 16 * k - 16 \<and> (a, k) \<notin> A \<and> sf_root st' = sf_root st
           \<and> sf_end st' = sf_end st \<and> sf_this st' = sf_this st \<and> sf_size st' = sf_size st
           \<and> (\<exists>fl'. sf_rep st' lo fl' (insert (a, k) A))"
    using allocate_branch_rep [OF rep] by blast
  have lim: "units_for limit \<le> k \<longleftrightarrow> unat limit + 16 \<le> 16 * k" for k using units_for_covers n by simp
  have pref: "units_for preferred \<le> k \<longleftrightarrow> unat preferred + 16 \<le> 16 * k" for k using units_for_covers n by simp
  have lp: "units_for limit \<le> units_for preferred" using lim pref [of "units_for preferred"] n by simp
  have "(\<exists>b\<in>set fl. units_for limit \<le> snd b) \<longleftrightarrow> b \<noteq> None"
    using r(2) lp by cases (force simp: not_less)+
  moreover have "units_for limit \<le> k" if "b = Some (a, k)" for a k
    using r(2) lp that by cases (auto simp: taken_def split: if_splits)
  ultimately show ?thesis
    unfolding lim using r(1) c by (cases b) auto
qed

lemma tiles_next:
  assumes "tiles lo hi S" "b \<in> S" "fst b + 16 * snd b < hi"
  shows "\<exists>c\<in>S. fst c = fst b + 16 * snd b"
proof -
  let ?e = "fst b + 16 * snd b"
  have "?e \<in> (\<Union>x\<in>S. bytes x)" using assms tilesD(3) [OF assms(1,2)] by (simp add: tiles_def)
  then obtain c where c: "c \<in> S" "?e \<in> bytes c" by blast
  have "c \<noteq> b" using c(2) by (auto simp: bytes_def)
  then have "\<not> fst c < fst b" using tiles_order [OF assms(1) c(1) assms(2)] c(2) by (auto simp: bytes_def)
  moreover have "fst c \<noteq> fst b" using tiles_same_start [OF assms(1) c(1) assms(2)] \<open>c \<noteq> b\<close> by blast
  ultimately have "?e \<le> fst c" using tiles_order [OF assms(1,2) c(1)] by simp
  then show ?thesis using c by (auto simp: bytes_def)
qed

lemma next_block_if_free_rep:
  assumes rep: "sf_rep st lo fl A" and b: "(a, n) \<in> A"
    and al: "sf_this st mod 16 = 0" "sf_this st \<le> lo" "sf_this st + sf_size st < 2 ^ 64 - 16"
  shows "priv_next_block_if_free st a = 0
    \<or> (\<exists>m. priv_next_block_if_free st a = a + 16 * n \<and> (a + 16 * n, m) \<in> set fl)"
proof -
  have t: "tiles lo (sf_end st) (set fl \<union> A)"
    and hA: "\<And>c. c \<in> A \<Longrightarrow> sf_heap st (fst c) = \<lparr>bc_next = 0, bc_size = snd c\<rparr>"
    using rep by (auto simp: sf_rep_def)
  have sz: "size_of st a = n" using hA [OF b] by simp
  have e: "sf_end st = sf_this st + sf_size st div 16 * 16"
  proof -
    have "sf_this st div 16 * 16 = sf_this st" using al(1) by auto
    then show ?thesis
      unfolding sf_end_def priv_block_end_offset_def Let_def using al(3) by (simp add: get_truncated_16)
  qed
  show ?thesis
  proof (cases "(a + n * 16 - sf_this st) div 16 \<ge> sf_size st div 16")
    case True
    then show ?thesis by (simp add: priv_next_block_if_free_def sz)
  next
    case False
    then have "a + n * 16 - sf_this st < sf_size st div 16 * 16" by (simp add: div_less_iff_less_mult)
    then have "fst (a, n) + 16 * snd (a, n) < sf_end st" unfolding e by simp
    then obtain c where c: "c \<in> set fl \<union> A" "fst c = a + 16 * n"
      using tiles_next [OF t, of "(a, n)"] b by auto
    show ?thesis
    proof (cases "c \<in> A")
      case True
      then have "next_of st (a + 16 * n) = 0" using hA [OF True] c(2) by simp
      then show ?thesis by (simp add: priv_next_block_if_free_def sz mult.commute Let_def)
    next
      case False
      then have "(a + 16 * n, snd c) \<in> set fl" using c by (metis Un_iff prod.collapse)
      then show ?thesis by (auto simp: priv_next_block_if_free_def sz mult.commute Let_def)
    qed
  qed
qed

lemma sf_find_prev_seg:
  assumes "seg st (next_of st p) xs q" "q \<notin> fst ` set xs"
  shows "sf_find_prev st q p = Some (if xs = [] then p else fst (last xs))"
  using assms
proof (induction xs arbitrary: p)
  case Nil
  then show ?case by (simp add: sf_find_prev.simps)
next
  case (Cons x xs)
  then show ?case by (subst sf_find_prev.simps) auto
qed

text \<open>
  The free block after an allocated one is taken into it. The heap is the one that allocating from that
  free block and joining the two allocated blocks would give, but for the header in between.
\<close>

lemma merge_next_rep:
  assumes rep: "sf_rep st lo (xs @ (a + 16 * n, m) # ys) A" and b: "(a, n) \<in> A" and u: "n < u" "u \<le> n + m"
    and c: "priv_check_and_allocate
       (upd_next (upd_size (upd_next st a (next_of st (a + 16 * n))) a (n + m)
          \<lparr>m_allocated := m_allocated st - n * 16\<rparr>) (prev_of st xs) a) u (prev_of st xs) a = (st', p, rc)"
  shows "\<exists>fl'. sf_rep st' lo fl' (insert (a, taken u (n + m)) (A - {(a, n)}))"
    and "p = a + 16" and "rc = 16 * taken u (n + m) - 16" and "sf_root st' = sf_root st"
    and "sf_this st' = sf_this st" and "sf_size st' = sf_size st"
proof -
  let ?nb = "a + 16 * n" and ?p = "prev_of st xs" and ?t = "taken (u - n) m" and ?A = "A - {(a, n)}"
  obtain st1 p1 rc1 where c1: "priv_check_and_allocate st (u - n) ?p ?nb = (st1, p1, rc1)" by (metis prod_cases3)
  have u': "0 < u - n" "u - n \<le> m" using u by simp_all
  note at = allocate_at [OF rep u' c1]
  have hA: "sf_heap st a = \<lparr>bc_next = 0, bc_size = n\<rparr>" using rep b by (auto simp: sf_rep_def)
  have sg: "seg st (next_of st (sf_root st)) (xs @ (?nb, m) # ys) (sf_root st)" and fin: "finite A"
    and t: "tiles lo (sf_end st) (set (xs @ (?nb, m) # ys) \<union> A)"
    and acc: "m_allocated st = 16 * (\<Sum>b\<in>A. snd b)" using rep by (auto simp: sf_rep_def)
  obtain nx where hnb: "sf_heap st ?nb = \<lparr>bc_next = nx, bc_size = m\<rparr>"
    using sg by (cases "sf_heap st ?nb") (auto simp: seg_append)
  note ad = sf_rep_addresses [OF rep]
  have n0: "0 < n" using size_bound(2) [OF rep, of "(a, n)"] b by simp
  have pa: "?p \<noteq> a" "?p < ?nb"
  proof -
    have "sf_root st \<noteq> a" using ad(3) [OF b] by simp
    moreover have "fst x \<noteq> a" if "x \<in> set xs" for x using ad(4) [OF b, of x] that by simp
    ultimately show "?p \<noteq> a" by (simp add: prev_of_def)
    have "sf_root st < ?nb" using tilesD(3) [OF t, of "(?nb, m)"] rep by (auto simp: sf_rep_def)
    moreover have "fst x < ?nb" if "x \<in> set xs" for x using rep that by (auto simp: sf_rep_def sorted_wrt_append)
    ultimately show "?p < ?nb" by (simp add: prev_of_def)
  qed
  let ?st0 = "upd_next (upd_size (upd_next st a (next_of st ?nb)) a (n + m) \<lparr>m_allocated := m_allocated st - n * 16\<rparr>) ?p a"
  have h0: "sf_heap ?st0 = (sf_heap st)(a := \<lparr>bc_next = nx, bc_size = n + m\<rparr>, ?p := (sf_heap st ?p)\<lparr>bc_next := a\<rparr>)"
    using pa by (simp add: hnb hA fun_eq_iff)
  let ?tk = "taken u (n + m)"
  have tk: "?tk = n + ?t" using u by (auto simp: taken_def)
  have pu: "?p \<noteq> a + 16 * u" "?p \<noteq> ?nb + 16 * (u - n)" "?nb + 16 * (u - n) = a + 16 * u"
    using pa u by auto
  have mn: "m_allocated st - n * 16 + ?tk * 16 = m_allocated st + ?t * 16"
  proof -
    have "n \<le> (\<Sum>b\<in>A. snd b)" using fin b member_le_sum [of "(a, n)" A snd] by simp
    then show ?thesis using acc tk by simp
  qed
  have un: "priv_check_and_allocate ?st0 u ?p a = (?st0\<lparr>sf_heap := (if n + m > u + 1
         then (sf_heap ?st0)(a + 16 * u := \<lparr>bc_next = nx, bc_size = n + m - u\<rparr>,
                ?p := (sf_heap ?st0 ?p)\<lparr>bc_next := a + 16 * u\<rparr>, a := \<lparr>bc_next = 0, bc_size = u\<rparr>)
         else (sf_heap ?st0)(?p := (sf_heap ?st0 ?p)\<lparr>bc_next := nx\<rparr>, a := \<lparr>bc_next = 0, bc_size = n + m\<rparr>)),
        m_allocated := m_allocated ?st0 + ?tk * 16\<rparr>,
     a + 16, get_user_bytes \<lparr>bc_next = nx, bc_size = ?tk\<rparr>)"
    using u pa pu h0 by (intro check_and_allocate_unfold) auto
  have un1: "priv_check_and_allocate st (u - n) ?p ?nb = (st\<lparr>sf_heap := (if m > u - n + 1
         then (sf_heap st)(?nb + 16 * (u - n) := \<lparr>bc_next = nx, bc_size = m - (u - n)\<rparr>,
                ?p := (sf_heap st ?p)\<lparr>bc_next := ?nb + 16 * (u - n)\<rparr>, ?nb := \<lparr>bc_next = 0, bc_size = u - n\<rparr>)
         else (sf_heap st)(?p := (sf_heap st ?p)\<lparr>bc_next := nx\<rparr>, ?nb := \<lparr>bc_next = 0, bc_size = m\<rparr>)),
        m_allocated := m_allocated st + ?t * 16\<rparr>,
     ?nb + 16, get_user_bytes \<lparr>bc_next = nx, bc_size = ?t\<rparr>)"
    using u pa pu hnb by (intro check_and_allocate_unfold) auto
  have st': "sf_heap st' a = \<lparr>bc_next = 0, bc_size = ?tk\<rparr>" "p = a + 16" "sf_root st' = sf_root st"
    "sf_end st' = sf_end st" "sf_this st' = sf_this st" "sf_size st' = sf_size st"
    "rc = get_user_bytes \<lparr>bc_next = nx, bc_size = ?tk\<rparr>" "m_allocated st' = m_allocated st1"
    using un un1 c c1 mn by (auto simp: taken_def)
  have heap: "sf_heap st' d = sf_heap st1 d" if "d \<noteq> a" "d \<noteq> ?nb" for d
  proof -
    have "(n + m > u + 1) = (m > u - n + 1)" "n + m - u = m - (u - n)" using u by auto
    moreover have "st' = fst (priv_check_and_allocate ?st0 u ?p a)" "st1 = fst (priv_check_and_allocate st (u - n) ?p ?nb)"
      using c c1 by simp_all
    ultimately show ?thesis unfolding un un1 h0 pu(3) using that pa pu by simp
  qed
  have A1: "insert (?nb, ?t) A = insert (a, n) (insert (?nb, ?t) ?A)" using b n0 by auto
  have rep1: "sf_rep st1 lo (xs @ left_over (u - n) (?nb, m) @ ys) (insert (a, n) (insert (?nb, ?t) ?A))"
    using at(1) unfolding A1 .
  have fr: "(a, n) \<notin> ?A" "(?nb, ?t) \<notin> ?A" using at(4) by auto
  have f: "sf_root st' = sf_root st1" "m_allocated st' = m_allocated st1" "sf_end st' = sf_end st1"
    using st' at by simp_all
  have "sf_heap st' a = \<lparr>bc_next = 0, bc_size = n + ?t\<rparr>" using st'(1) tk by simp
  note j = join_allocated [OF rep1 fr f this heap]
  then show "\<exists>fl'. sf_rep st' lo fl' (insert (a, ?tk) ?A)" unfolding tk by blast
  show "p = a + 16" "sf_root st' = sf_root st" "sf_this st' = sf_this st" "sf_size st' = sf_size st" by (fact st')+
  show "rc = 16 * ?tk - 16"
    using get_user_bytes_nat [of "\<lparr>bc_next = nx, bc_size = ?tk\<rparr>"] size_bound [OF j(1), of "(a, n + ?t)"]
    by (simp add: st'(7) tk)
qed

lemma expand_units:
  assumes "unat x \<le> 2 ^ 64 - 16"
  shows "unat (get_rounded_size x 16 div 16) \<le> k \<longleftrightarrow> unat x \<le> 16 * k"
proof -
  have "units_for x \<le> k + 1 \<longleftrightarrow> unat x + 16 \<le> 16 * (k + 1)" by (rule units_for_covers [OF assms])
  moreover have "units_for x = unat (get_rounded_size x 16 div 16) + 1" by (simp add: units_for_eq unat_div)
  ultimately show ?thesis by simp
qed

definition placed :: "seq_fit \<Rightarrow> nat \<Rightarrow> bool" where
  "placed st lo \<longleftrightarrow> sf_this st mod 16 = 0 \<and> sf_this st \<le> lo \<and> lo < sf_end st
     \<and> sf_this st + sf_size st < 2 ^ 64 - 16"

lemma expand_rep:
  assumes rep: "sf_rep st lo fl A" and b: "(a, n) \<in> A" and pl: "placed st lo"
    and sz: "unat mn \<le> 2 ^ 64 - 16" "unat pref \<le> 2 ^ 64 - 16"
  shows "\<exists>st' ok rc. sf_priv_expand st (a + 16) mn pref = Some (st', ok, rc)
    \<and> sf_root st' = sf_root st \<and> sf_this st' = sf_this st \<and> sf_size st' = sf_size st
    \<and> (if ok then \<exists>k fl'. n \<le> k \<and> rc = 16 * k - 16 \<and> unat mn \<le> rc
           \<and> sf_rep st' lo fl' (insert (a, k) (A - {(a, n)}))
       else st' = st)"
    (is "\<exists>st' ok rc. ?e = Some (st', ok, rc) \<and> ?P st' ok rc")
proof -
  let ?mu = "unat (get_rounded_size mn 16 div 16)" and ?pu = "unat (get_rounded_size pref 16 div 16)"
  have hA: "sf_heap st a = \<lparr>bc_next = 0, bc_size = n\<rparr>" using rep b by (auto simp: sf_rep_def)
  have us: "sf_user_size st (a + 16) = n * 16 - 16"
    using get_user_bytes_nat [of "sf_heap st a"] size_bound [OF rep, of "(a, n)"] b
    by (simp add: sf_user_size_def hA)
  have A: "insert (a, n) (A - {(a, n)}) = A" using b by auto
  have same: "?P st True (n * 16 - 16)" if "unat mn \<le> n * 16 - 16"
  proof -
    have "\<exists>fl'. sf_rep st lo fl' (insert (a, n) (A - {(a, n)}))" unfolding A using rep by blast
    then have "n \<le> n \<and> n * 16 - 16 = 16 * n - 16 \<and> (\<exists>fl'. sf_rep st lo fl' (insert (a, n) (A - {(a, n)})))" by simp
    then show ?thesis using that by (simp only: if_True simp_thms) blast
  qed
  have none: "?P st False rc" for rc by simp
  note def = sf_priv_expand_def [of st "a + 16" mn pref, unfolded us Let_def, simplified, unfolded hA, simplified]
  show ?thesis
  proof (cases "unat mn < n * 16 - 16 \<or> ?pu < ?mu \<or> ?mu \<le> n - 1")
    case True
    show ?thesis
    proof (cases "unat mn < n * 16 - 16 \<or> \<not> ?pu < ?mu")
      case ok: True
      have "unat mn \<le> n * 16 - 16" if "?mu \<le> n - 1"
        using that expand_units [OF sz(1), of "n - 1"] by (simp add: diff_mult_distrib2 mult.commute)
      then have "?P st True (n * 16 - 16)" using True ok by (intro same) linarith
      moreover have "?e = Some (st, True, n * 16 - 16)" using True ok hA unfolding def by (auto simp del: split_paired_Ex)
      ultimately show ?thesis by blast
    next
      case False
      then have "?e = Some (st, False, n * 16 - 16)" using hA unfolding def by simp
      then show ?thesis using none by blast
    qed
  next
    case False
    note big = this
    consider "priv_next_block_if_free st a = 0"
      | m where "priv_next_block_if_free st a = a + 16 * n" "(a + 16 * n, m) \<in> set fl"
      using next_block_if_free_rep [OF rep b] pl unfolding placed_def by auto
    then show ?thesis
    proof cases
      case 1
      then have "?e = Some (st, False, n * 16 - 16)" using big hA unfolding def by simp
      then show ?thesis using none by blast
    next
      case 2
      let ?nb = "a + 16 * n"
      obtain xs ys where fl: "fl = xs @ (?nb, m) # ys" using split_list [OF 2(2)] by blast
      have rep': "sf_rep st lo (xs @ (?nb, m) # ys) A" using rep fl by simp
      have sg: "seg st (next_of st (sf_root st)) xs ?nb" "size_of st ?nb = m"
        using rep' by (auto simp: sf_rep_def seg_append)
      have a0: "a \<noteq> 0" using sf_rep_addresses(5) [OF rep, of "(a, n)"] b by simp
      have nb0: "?nb \<noteq> 0" using sf_rep_addresses(5) [OF rep, of "(?nb, m)"] 2(2) by simp
      show ?thesis
      proof (cases "n + m < ?mu + 1")
        case True
        then have "?e = Some (st, False, (n + m) * 16 - 16)" using big hA 2(1) sg(2) a0 unfolding def by simp
        then show ?thesis using none by blast
      next
        case False
        let ?st1 = "upd_size (upd_next st a (next_of st ?nb)) a (n + m)" and ?p = "prev_of st xs"
        let ?u = "if ?pu + 1 < n + m then ?pu + 1 else n + m"
        have ad: "a \<noteq> sf_root st" "a \<notin> fst ` set xs"
          using sf_rep_addresses(3) [OF rep' b] sf_rep_addresses(4) [OF rep' b] by (auto simp: fl)
        have "seg ?st1 (next_of ?st1 (sf_root st)) xs ?nb"
        proof -
          have "seg ?st1 q xs ?nb = seg st q xs ?nb" for q by (rule seg_cong) (use ad in auto)
          then show ?thesis using sg(1) ad by simp
        qed
        moreover have "?nb \<notin> fst ` set xs" using sf_rep_addresses(1) [OF rep'] by auto
        ultimately have fp: "sf_find_prev ?st1 ?nb (sf_root st) = Some ?p"
          using sf_find_prev_seg by (simp add: prev_of_def)
        obtain st' p rc where c: "priv_check_and_allocate
            (upd_next (?st1\<lparr>m_allocated := m_allocated st - n * 16\<rparr>) ?p a) ?u ?p a = (st', p, rc)"
          by (metis prod_cases3)
        have u: "n < ?u" "?u \<le> n + m" using big size_bound(2) [OF rep, of "(?nb, m)"] 2(2) by auto
        note mr = merge_next_rep [OF rep' b u c]
        have e: "?e = Some (st', True, rc)"
          using big False hA 2(1) nb0 sg(2) fp c mr(2) unfolding def
          by (cases "?pu + 1 < n + m") (simp_all add: mult.commute)
        have "?mu + 1 \<le> taken ?u (n + m)" using big False by (auto simp: taken_def)
        then have "?mu \<le> taken ?u (n + m) - 1" by simp
        then have "unat mn \<le> rc"
          using expand_units [OF sz(1)] unfolding mr(3) by (simp add: diff_mult_distrib2)
        moreover have "n \<le> taken ?u (n + m)" using u by (auto simp: taken_def)
        ultimately have "?P st' True rc" using mr by auto
        then show ?thesis using e by blast
      qed
    qed
  qed
qed

section \<open>Growing the segment\<close>

lemma tiles_extend:
  assumes "tiles lo hi S" "lo \<le> hi" "hi mod 16 = 0" "0 < n"
  shows "tiles lo (hi + 16 * n) (insert (hi, n) S)" and "(hi, n) \<notin> S"
proof -
  have d: "bytes (hi, n) \<inter> bytes b = {}" if "b \<in> S" for b
    using tilesD(4) [OF assms(1) that] by (auto simp: bytes_def)
  show "(hi, n) \<notin> S" using d [of "(hi, n)"] bytes_nonempty [of "(hi, n)"] assms(4) by auto
  have "(\<Union>x\<in>insert (hi, n) S. bytes x) = {lo..<hi + 16 * n}"
    using assms by (auto simp: tiles_def bytes_def)
  moreover have "pairwise (\<lambda>x y. bytes x \<inter> bytes y = {}) (insert (hi, n) S)"
    using assms(1) d unfolding pairwise_insert tiles_def by blast
  ultimately show "tiles lo (hi + 16 * n) (insert (hi, n) S)"
    using assms by (auto simp: tiles_def)
qed

lemma end_aligned:
  assumes "sf_this st mod 16 = 0" "sf_this st + sf_size st < 2 ^ 64 - 16"
  shows "priv_block_end_offset st = sf_size st div 16 * 16"
    and "sf_end st = sf_this st + sf_size st div 16 * 16" and "sf_end st mod 16 = 0"
proof -
  have "sf_this st div 16 * 16 = sf_this st" using assms(1) by auto
  then show e: "priv_block_end_offset st = sf_size st div 16 * 16"
    unfolding priv_block_end_offset_def Let_def using assms(2) by (simp add: get_truncated_16)
  show "sf_end st = sf_this st + sf_size st div 16 * 16" by (simp add: sf_end_def e)
  moreover have "(sf_this st + sf_size st div 16 * 16) mod 16 = sf_this st mod 16" by (rule mod_mult_self1)
  ultimately show "sf_end st mod 16 = 0" using assms(1) by simp
qed

lemma div_extended: "(s + x) div 16 * 16 = s div 16 * 16 + 16 * ((s + x - s div 16 * 16) div 16)" for s x :: nat
proof -
  obtain q r where s: "s = r + q * 16" "r < 16" by (metis add.commute div_mult_mod_eq mod_less_divisor zero_less_numeral)
  then have "s div 16 = q" by simp
  moreover have "(s + x) div 16 = q + (r + x) div 16"
    using div_mult_self1 [of 16 "r + x" q] by (simp add: s(1) ac_simps)
  moreover have "s + x - q * 16 = r + x" using s(1) by simp
  ultimately show ?thesis by simp
qed

lemma grow_rep:
  assumes rep: "sf_rep st lo fl A" and pl: "placed st lo" and ex: "sf_this st + sf_size st + extra < 2 ^ 64 - 16"
  shows "\<exists>st' fl'. sf_grow st extra = Some st' \<and> sf_rep st' lo fl' A \<and> placed st' lo
     \<and> sf_root st' = sf_root st \<and> sf_this st' = sf_this st \<and> sf_size st' = sf_size st + extra"
proof -
  let ?st0 = "st\<lparr>sf_size := sf_size st + extra\<rparr>" and ?old = "sf_size st div 16 * 16"
  let ?n = "(sf_size st + extra - ?old) div 16" and ?nb = "sf_end st"
  have al: "sf_this st mod 16 = 0" "sf_this st + sf_size st < 2 ^ 64 - 16" "sf_this st \<le> lo" "lo < sf_end st"
    using pl by (auto simp: placed_def)
  note e = end_aligned [OF al(1,2)]
  have e0: "sf_end ?st0 = sf_end st + 16 * ?n"
  proof -
    have "sf_end ?st0 = sf_this st + (sf_size st + extra) div 16 * 16"
      using end_aligned(2) [of ?st0] al ex by simp
    moreover have "(sf_size st + extra) div 16 * 16 = ?old + 16 * ?n"
      by (rule div_extended)
    ultimately show ?thesis unfolding e(2) by simp
  qed
  have rep0: "sf_heap ?st0 = sf_heap st" "sf_root ?st0 = sf_root st" "m_allocated ?st0 = m_allocated st" by simp_all
  show ?thesis
  proof (cases "sf_size st + extra - ?old < 16")
    case True
    then have "sf_grow st extra = Some ?st0" using e(1) by (simp add: sf_grow_def Let_def)
    moreover have "sf_end ?st0 = sf_end st" using True e0 by simp
    moreover from this have "sf_rep ?st0 lo fl A"
      using rep by (intro re_describe [OF rep]) (auto simp: sf_rep_def)
    moreover have "placed ?st0 lo" using al ex calculation(2) by (simp add: placed_def)
    ultimately show ?thesis by auto
  next
    case False
    then have n: "0 < ?n" by (simp add: div_greater_zero_iff)
    let ?st1 = "(upd_size (upd_next ?st0 ?nb 0) ?nb ?n)\<lparr>m_allocated := m_allocated st + 16 * ?n\<rparr>"
    have g: "sf_grow st extra = sf_priv_deallocate ?st1 (?nb + 16)"
      using False e(1) by (simp add: sf_grow_def Let_def sf_end_def mult.commute)
    have t: "tiles lo (sf_end st) (set fl \<union> A)" and fin: "finite A" and d: "set fl \<inter> A = {}"
      and acc: "m_allocated st = 16 * (\<Sum>b\<in>A. snd b)" and r: "sf_root st < lo"
      and hA: "\<And>b. b \<in> A \<Longrightarrow> sf_heap st (fst b) = \<lparr>bc_next = 0, bc_size = snd b\<rparr>"
      using rep by (auto simp: sf_rep_def)
    have lt: "fst b \<noteq> ?nb" if "b \<in> set fl \<union> A" for b
      using tilesD(1,4) [OF t that] by linarith
    note tx = tiles_extend [OF t less_imp_le [OF al(4)] e(3) n]
    have e1: "sf_end ?st1 = sf_end st + 16 * ?n" using e0 by simp
    have "sf_rep ?st1 lo fl (insert (?nb, ?n) A)"
    proof (rule re_describe [OF rep])
      show "sf_end ?st1 < 2 ^ 64" using end_aligned(2) [of ?st0] al ex by simp
      show "tiles lo (sf_end ?st1) (set fl \<union> insert (?nb, ?n) A)" unfolding e1 using tx(1) by simp
      show "sf_heap ?st1 c = sf_heap st c" if "c \<in> insert (sf_root st) (fst ` set fl)" for c
      proof -
        have "c \<noteq> ?nb" using that lt r al(4) by (metis Un_iff imageE insertE less_irrefl order_less_trans)
        then show ?thesis by simp
      qed
      show "m_allocated ?st1 = 16 * (\<Sum>b\<in>insert (?nb, ?n) A. snd b)" using acc fin tx(2) by simp
      show "sf_heap ?st1 (fst b) = \<lparr>bc_next = 0, bc_size = snd b\<rparr>" if "b \<in> insert (?nb, ?n) A" for b
      proof (cases "b = (?nb, ?n)")
        case False
        then have "b \<in> A" "fst b \<noteq> ?nb" using that lt by blast+
        then show ?thesis using hA by simp
      qed simp
    qed (use fin d tx in auto)
    then obtain st' where st': "sf_priv_deallocate ?st1 (?nb + 16) = Some st'"
        "sf_rep st' lo (freed fl (?nb, ?n)) (insert (?nb, ?n) A - {(?nb, ?n)})"
        "sf_root st' = sf_root ?st1" "sf_this st' = sf_this ?st1" "sf_size st' = sf_size ?st1"
      using deallocate_rep [of ?st1 lo fl "insert (?nb, ?n) A" ?nb ?n] by auto
    have "insert (?nb, ?n) A - {(?nb, ?n)} = A" using tx(2) by auto
    moreover have "sf_end st' = sf_end ?st1" unfolding sf_end_def priv_block_end_offset_def st'(4,5) ..
    moreover have f: "sf_root st' = sf_root st" "sf_this st' = sf_this st" "sf_size st' = sf_size st + extra"
      using st'(3-5) by simp_all
    moreover have "sf_end st \<le> sf_end ?st1" unfolding e1 by (rule le_add1)
    ultimately have "sf_rep st' lo (freed fl (?nb, ?n)) A" "lo < sf_end st'" using st'(2) al(4) by simp_all
    moreover from this(2) have "placed st' lo" using al(1,3) ex unfolding placed_def f by (simp add: add.assoc)
    ultimately have "sf_rep st' lo (freed fl (?nb, ?n)) A" "placed st' lo" by blast+
    then show ?thesis using st'(1) g f by metis
  qed
qed

end
