(* ===== verification/Mem_Algo_Laws.thy ===== *)
theory Mem_Algo_Laws
  imports Mem_Algo_Common
begin

text \<open>
  What the common allocation functions rely on. The locale \<open>mem_algo\<close> states the contract of a memory
  algorithm over a predicate \<open>live s A\<close>: in state \<open>s\<close> the allocated blocks are those of \<open>A\<close>, each an address
  and a number of units. In it shrinking, over-aligned allocation and the deallocation of a chain are
  proved once for every algorithm.
\<close>

locale mem_algo =
  fixes M :: "'s memory_algorithm" and i :: nat and live :: "'s \<Rightarrow> (nat \<times> nat) set \<Rightarrow> bool"
  assumes alignment_po2: "Alignment M = 2 ^ i" "i < 32"
    and ctrl_units: "0 < AllocatedCtrlUnits M" "AllocatedCtrlUnits M \<le> BlockCtrlUnits M" "BlockCtrlUnits M < 2 ^ 16"
    and usable: "UsableByPreviousChunk M < Alignment M"
    and live_block: "live s A \<Longrightarrow> (a, n) \<in> A \<Longrightarrow> get_block_size M s a = n \<and> BlockCtrlUnits M \<le> n
        \<and> a mod Alignment M = 0 \<and> 0 < a \<and> a + (n + 1) * Alignment M \<le> 2 ^ 64"
    and get_set_size: "get_block_size M (set_block_size M s a n) b = (if a = b then n else get_block_size M s b)"
    and get_mark_size: "get_block_size M (priv_mark_new_allocated_block M s a) b = get_block_size M s b"
    and set_set: "a \<noteq> b \<Longrightarrow> set_block_size M (set_block_size M s a m) b n = set_block_size M (set_block_size M s b n) a m"
    and set_mark: "a \<noteq> b \<Longrightarrow> set_block_size M (priv_mark_new_allocated_block M s a) b n =
        priv_mark_new_allocated_block M (set_block_size M s b n) a"
    and mark_mark: "priv_mark_new_allocated_block M (priv_mark_new_allocated_block M s a) b =
        priv_mark_new_allocated_block M (priv_mark_new_allocated_block M s b) a"
    and live_rewrite: "live s A \<Longrightarrow> (a, n) \<in> A \<Longrightarrow> live (priv_mark_new_allocated_block M (set_block_size M s a n) a) A"
    and split_unwritten: "live (priv_mark_new_allocated_block M (set_block_size M s a n) a) A \<Longrightarrow> (a, n) \<in> A \<Longrightarrow>
        BlockCtrlUnits M \<le> k \<Longrightarrow> k + BlockCtrlUnits M \<le> n \<Longrightarrow>
        b = a + k * Alignment M \<Longrightarrow>
        live (priv_mark_new_allocated_block M (priv_mark_new_allocated_block M
                (set_block_size M (set_block_size M s a k) b (n - k)) a) b)
          (insert (a, k) (insert (b, n - k) (A - {(a, n)})))
        \<and> (a, k) \<notin> A - {(a, n)} \<and> (b, n - k) \<notin> A - {(a, n)}"
    and dealloc_block: "live s A \<Longrightarrow> (a, n) \<in> A \<Longrightarrow>
        \<exists>s'. priv_deallocate M s (a + AllocatedCtrlBytes M) = Some s' \<and> live s' (A - {(a, n)})"
    and dealloc_frame: "live (priv_mark_new_allocated_block M (set_block_size M s b m) b) A \<Longrightarrow>
        (a, n) \<in> A \<Longrightarrow> (b, m) \<in> A \<Longrightarrow> a \<noteq> b \<Longrightarrow>
        b \<noteq> a + n * Alignment M \<Longrightarrow> a \<noteq> b + m * Alignment M \<Longrightarrow>
        \<exists>s'. priv_deallocate M s (a + AllocatedCtrlBytes M) = Some s'
          \<and> live (priv_mark_new_allocated_block M (set_block_size M s' b m) b) (A - {(a, n)})"
    and alloc_new: "live s A \<Longrightarrow> unat nbytes + Alignment M \<le> 2 ^ 64 \<Longrightarrow>
        \<exists>s' p. priv_allocate_new M s nbytes nbytes = Some (s', p)
          \<and> (p = 0 \<and> s' = s \<or> (\<exists>a k. p = a + AllocatedCtrlBytes M \<and> (a, k) \<notin> A \<and> live s' (insert (a, k) A)
               \<and> unat nbytes \<le> (k - AllocatedCtrlUnits M) * Alignment M + UsableByPreviousChunk M))"
begin

abbreviation "marked \<equiv> priv_mark_new_allocated_block M"
abbreviation "size_to \<equiv> set_block_size M"
abbreviation "user_bytes k \<equiv> (k - AllocatedCtrlUnits M) * Alignment M + UsableByPreviousChunk M"

lemma split_block:
  assumes "live s A" "(a, n) \<in> A" "BlockCtrlUnits M \<le> k" "k + BlockCtrlUnits M \<le> n" "b = a + k * Alignment M"
  shows "live (marked (marked (size_to (size_to s a k) b (n - k)) a) b) (insert (a, k) (insert (b, n - k) (A - {(a, n)})))
    \<and> (a, k) \<notin> A - {(a, n)} \<and> (b, n - k) \<notin> A - {(a, n)}"
  using assms live_rewrite by (intro split_unwritten)

text \<open>Shrinking: the tail that is cut off is a block of its own and is given back.\<close>

lemma shrink_live:
  assumes l: "live s A" and b: "(a, n) \<in> A"
  shows "\<exists>s' ok rc. shrink M s (a + AllocatedCtrlBytes M) mx pref = Some (s', ok, rc)
    \<and> (if ok then \<exists>k\<le>n. rc = user_bytes k \<and> live s' (insert (a, k) (A - {(a, n)}))
            \<and> unat (ceil_units M (pref - of_nat (UsableByPreviousChunk M))) + AllocatedCtrlUnits M \<le> k
       else s' = s)"
proof -
  let ?ptr = "a + AllocatedCtrlBytes M" and ?C = "AllocatedCtrlUnits M" and ?B = "BlockCtrlUnits M"
  let ?pu = "unat (ceil_units M (pref - of_nat (UsableByPreviousChunk M)))"
  have bk: "priv_get_block M ?ptr = a" by (simp add: priv_get_block_def)
  have gn: "get_block_size M s a = n" "?B \<le> n" using live_block [OF l b] by auto
  obtain ok rc where ts: "try_shrink M s ?ptr mx pref = (ok, rc)" by (metis prod.exhaust)
  have A: "insert (a, n) (A - {(a, n)}) = A" using b by auto
  show ?thesis
  proof (cases "\<not> ok \<or> n - ?C = ?pu")
    case True
    have "rc = user_bytes n" if "n - ?C = ?pu"
      using ts that unfolding try_shrink_def Let_def bk gn by (auto split: if_splits)
    moreover have "?pu + ?C \<le> n" if "n - ?C = ?pu" using that gn ctrl_units by simp
    moreover have "shrink M s ?ptr mx pref = Some (s, ok, rc)"
      using True ts gn bk by (auto simp: shrink_def Let_def)
    moreover have "live s (insert (a, n) (A - {(a, n)}))" using l unfolding A .
    ultimately show ?thesis using True by (metis order_refl)
  next
    case False
    define w where "w = (if ?B - ?C \<ge> ?pu then ?B - ?C else ?pu)"
    have w: "?B \<le> n - ?C - w" "rc = w * Alignment M + UsableByPreviousChunk M" "?pu \<le> w"
      using ts False unfolding try_shrink_def Let_def bk gn w_def by (auto split: if_splits)
    have Al: "0 < Alignment M" using alignment_po2 by simp
    define k where "k = w + ?C"
    have k: "?B \<le> k" "k + ?B \<le> n" "(rc - UsableByPreviousChunk M) div Alignment M + ?C = k"
      using w ctrl_units Al by (auto simp: k_def w_def split: if_splits)
    let ?nb = "a + k * Alignment M" and ?A = "insert (a, k) (insert (a + k * Alignment M, n - k) (A - {(a, n)}))"
    let ?s4 = "marked (marked (size_to (size_to s a k) ?nb (n - k)) a) ?nb"
    have sp: "live ?s4 ?A" "(?nb, n - k) \<notin> A - {(a, n)}" using split_block [OF l b k(1,2) refl] by auto
    have ne: "(a, k) \<noteq> (?nb, n - k)" using k ctrl_units Al by auto
    obtain s' where s': "priv_deallocate M ?s4 (?nb + AllocatedCtrlBytes M) = Some s'" "live s' (?A - {(?nb, n - k)})"
      using dealloc_block [OF sp(1), of ?nb "n - k"] by auto
    have "?A - {(?nb, n - k)} = insert (a, k) (A - {(a, n)})" using sp(2) ne by auto
    moreover have "shrink M s ?ptr mx pref = Some (s', True, rc)"
      using False ts bk gn k(3) s'(1) by (simp add: shrink_def Let_def get_set_size priv_get_user_buffer_def)
    moreover have "rc = user_bytes k" "k \<le> n" using w k by (simp_all add: k_def)
    moreover have "?pu + ?C \<le> k" using w(3) by (simp add: k_def)
    ultimately show ?thesis using s'(2) by auto
  qed
qed

text \<open>The arithmetic of over-aligned requests.\<close>

lemma Al_word: "unat (of_nat (Alignment M) :: size_t) = Alignment M" "(of_nat (Alignment M) :: size_t) = 2 ^ i"
  "Alignment M \<le> 2 ^ 31" "0 < Alignment M"
proof -
  have "(2 :: nat) ^ i \<le> 2 ^ 31" using alignment_po2(2) by (intro power_increasing) auto
  then show l: "Alignment M \<le> 2 ^ 31" by (simp add: alignment_po2)
  show "unat (of_nat (Alignment M) :: size_t) = Alignment M" using l by (intro unat_of_nat_size) simp
  show "(of_nat (Alignment M) :: size_t) = 2 ^ i" by (simp add: alignment_po2)
  show "0 < Alignment M" by (simp add: alignment_po2)
qed

lemma ceil_units_nat:
  assumes "unat x + Alignment M \<le> 2 ^ 64"
  shows "unat x \<le> unat (ceil_units M x) * Alignment M"
    and "unat (ceil_units M x) * Alignment M < unat x + Alignment M"
proof -
  let ?r = "of_nat (Alignment M) :: size_t"
  have "unat x \<le> unat (get_rounded_size x ?r) \<and> unat (get_rounded_size x ?r) < unat x + Alignment M
      \<and> Alignment M dvd unat (get_rounded_size x ?r)"
  proof (cases "x = 0")
    case True
    then show ?thesis using round_zero_po2 [of i] Al_word by simp
  next
    case False
    then have x: "0 < unat x" by (simp add: unat_gt_0)
    have e: "unat (get_rounded_size x ?r) = ((unat x - 1) div unat ?r + 1) * unat ?r"
    proof (rule get_rounded_size_nat)
      show "?r \<noteq> 0" using Al_word(1,4) by (metis less_irrefl unat_0)
    qed (use False assms Al_word x in auto)
    show ?thesis using round_up_nat [OF Al_word(4) x] unfolding e Al_word(1) by simp
  qed
  moreover from this have "unat (ceil_units M x) * Alignment M = unat (get_rounded_size x ?r)"
    by (simp add: ceil_units_def unat_div Al_word(1))
  ultimately show "unat x \<le> unat (ceil_units M x) * Alignment M"
    "unat (ceil_units M x) * Alignment M < unat x + Alignment M" by simp_all
qed

lemma user_units_nat:
  assumes "unat x + Alignment M \<le> 2 ^ 64"
  defines "N \<equiv> unat (user_buffer_ceil_units M x)"
  shows "unat x \<le> N * Alignment M + UsableByPreviousChunk M" and "N * Alignment M < unat x + Alignment M"
proof -
  let ?U = "UsableByPreviousChunk M"
  have U: "unat (of_nat ?U :: size_t) = ?U" using usable Al_word(3) by (intro unat_of_nat_size) simp
  have "unat x \<le> N * Alignment M + ?U \<and> N * Alignment M < unat x + Alignment M"
  proof (cases "x \<le> of_nat ?U")
    case True
    then have "unat x \<le> ?U" unfolding word_le_nat_alt U .
    then show ?thesis using True Al_word(4) by (simp add: N_def user_buffer_ceil_units_def)
  next
    case False
    then have "?U < unat x" by (simp add: word_less_nat_alt U not_le)
    then have "unat (x - of_nat ?U) = unat x - ?U" using False by (simp add: unat_sub U)
    moreover from this have "unat (x - of_nat ?U) + Alignment M \<le> 2 ^ 64" using assms(1) by simp
    note ceil_units_nat [OF this]
    moreover have N: "N = unat (ceil_units M (x - of_nat ?U))" using False by (simp add: N_def user_buffer_ceil_units_def)
    ultimately show ?thesis using \<open>?U < unat x\<close> unfolding N by linarith
  qed
  then show "unat x \<le> N * Alignment M + ?U" "N * Alignment M < unat x + Alignment M" by blast+
qed

lemma request_nat:
  assumes big: "2 * unat nbytes + unat alignment + (2 * BlockCtrlUnits M + 4) * Alignment M \<le> 2 ^ 64"
    and al: "alignment = 2 ^ j" "i < j" "j < 64"
  defines "N \<equiv> unat (user_buffer_ceil_units M nbytes)"
  shows "unat (overaligned_request M nbytes alignment) =
      (N + max N (BlockCtrlUnits M - AllocatedCtrlUnits M) + BlockCtrlUnits M + (2 ^ (j - i) - 1)) * Alignment M
        + UsableByPreviousChunk M"
    and "unat (overaligned_request M nbytes alignment) + Alignment M \<le> 2 ^ 64"
    and "min_block_units M nbytes = max (N + AllocatedCtrlUnits M) (BlockCtrlUnits M)"
proof -
  let ?B = "BlockCtrlUnits M" and ?C = "AllocatedCtrlUnits M" and ?Al = "Alignment M" and ?U = "UsableByPreviousChunk M"
  have n: "N * ?Al < unat nbytes + ?Al" unfolding N_def
    by (rule user_units_nat(2)) (use big in \<open>simp add: algebra_simps\<close>)
  have ua: "unat alignment = 2 ^ j" unfolding al(1) by (rule unat_pow2_size [OF al(3)])
  have e: "(2 :: nat) ^ j = 2 ^ (j - i) * ?Al" using al(2) by (simp add: alignment_po2 flip: power_add)
  define d where "d = 2 ^ (j - i) - (1 :: nat)"
  have d: "2 ^ (j - i) = d + 1" by (simp add: d_def)
  have dA: "unat ((alignment - of_nat ?Al) div of_nat ?Al) = d"
  proof -
    have "?Al \<le> 2 ^ j" unfolding e by simp
    then have "unat (alignment - of_nat ?Al) = 2 ^ j - ?Al" using Al_word(1) ua by (simp add: unat_sub word_le_nat_alt)
    then show ?thesis using Al_word(1,4) by (simp add: unat_div e d)
  qed
  have sz: "unat (of_nat x :: size_t) = x" if "x \<le> 2 ^ 17" for x
    using that by (intro unat_of_nat_size) simp
  have bc: "?B \<le> 2 ^ 17" "?C \<le> 2 ^ 17" "?B - ?C \<le> 2 ^ 17" using ctrl_units by simp_all
  note B = sz [OF bc(1)] sz [OF bc(2)] sz [OF bc(3)]
  have U: "unat (of_nat ?U :: size_t) = ?U" using usable Al_word(3) by (intro unat_of_nat_size) simp
  let ?T = "N + max N (?B - ?C) + ?B + d"
  have T: "?T * ?Al + ?U + 2 * ?Al \<le> 2 ^ 64"
  proof -
    have "max N (?B - ?C) * ?Al \<le> (N + ?B) * ?Al" by (intro mult_le_mono1) simp
    then have "max N (?B - ?C) * ?Al \<le> N * ?Al + ?B * ?Al" by (simp only: add_mult_distrib)
    moreover have "d * ?Al + ?Al = unat alignment" unfolding ua e d by simp
    ultimately show ?thesis using big n usable by (simp add: algebra_simps)
  qed
  have T64: "?T < 2 ^ 64"
  proof -
    have "?T * 1 \<le> ?T * ?Al" using Al_word(4) by (intro mult_le_mono2) simp
    then show ?thesis using T Al_word(4) unfolding mult_1_right by linarith
  qed
  let ?n = "user_buffer_ceil_units M nbytes"
  have m: "unat (max_value ?n (of_nat (?B - ?C))) = max N (?B - ?C)"
    by (auto simp: max_value_def word_less_nat_alt B N_def max_def)
  have w: "unat (?n + max_value ?n (of_nat (?B - ?C)) + of_nat ?B + (alignment - of_nat ?Al) div of_nat ?Al) = ?T"
    using T64 by (simp add: unat_add_lem' m B dA N_def)
  have ml: "unat ((?n + max_value ?n (of_nat (?B - ?C)) + of_nat ?B + (alignment - of_nat ?Al) div of_nat ?Al)
      * of_nat ?Al) = ?T * ?Al"
  proof (subst unat_mult_lem')
    have "?T * ?Al < 2 ^ 64" using T Al_word(4) by linarith
    then show "unat (?n + max_value ?n (of_nat (?B - ?C)) + of_nat ?B + (alignment - of_nat ?Al) div of_nat ?Al)
      * unat (of_nat ?Al :: size_t) < 2 ^ LENGTH(64)" unfolding w Al_word(1) by simp
  qed (simp add: w Al_word(1))
  have r: "unat (overaligned_request M nbytes alignment) = ?T * ?Al + ?U"
  proof -
    have "?T * ?Al + ?U < 2 ^ 64" using T Al_word(4) by linarith
    then show ?thesis unfolding overaligned_request_def Let_def by (subst unat_add_lem') (simp_all add: ml U)
  qed
  then show "unat (overaligned_request M nbytes alignment) = (N + max N (?B - ?C) + ?B + (2 ^ (j - i) - 1)) * ?Al + ?U"
    unfolding d_def .
  show "unat (overaligned_request M nbytes alignment) + ?Al \<le> 2 ^ 64" using r T by linarith
  have "unat (?n + of_nat ?C) = N + ?C"
    using T64 ctrl_units by (subst unat_add_lem') (simp_all add: B N_def)
  then show "min_block_units M nbytes = max (N + ?C) ?B"
    by (auto simp: min_block_units_def max_value_def word_less_nat_alt B max_def)
qed

text \<open>Over-aligned allocation, first the case in which the buffer is aligned already.\<close>

lemma cut_tail_live:
  assumes l: "live s (insert (a, n) A)" "(a, n) \<notin> A" and k: "BlockCtrlUnits M \<le> k" "k + BlockCtrlUnits M \<le> n"
  shows "\<exists>s'. give_back M (marked (size_to s a k) a) (a + k * Alignment M) (n - k) = Some s'
    \<and> live s' (insert (a, k) A) \<and> (a, k) \<notin> A"
proof -
  let ?nb = "a + k * Alignment M"
  have A: "insert (a, n) A - {(a, n)} = A" using l(2) by auto
  have ne: "a \<noteq> ?nb" using k ctrl_units Al_word(4) by auto
  let ?s4 = "marked (marked (size_to (size_to s a k) ?nb (n - k)) a) ?nb"
  have sp: "live ?s4 (insert (a, k) (insert (?nb, n - k) A))" "(a, k) \<notin> A" "(?nb, n - k) \<notin> A"
    using split_block [OF l(1) insertI1 k refl] unfolding A by blast+
  then obtain s' where s': "priv_deallocate M ?s4 (?nb + AllocatedCtrlBytes M) = Some s'"
      "live s' (insert (a, k) (insert (?nb, n - k) A) - {(?nb, n - k)})"
    using dealloc_block [OF sp(1), of ?nb "n - k"] by auto
  moreover have "insert (a, k) (insert (?nb, n - k) A) - {(?nb, n - k)} = insert (a, k) A" using ne sp by auto
  ultimately show ?thesis
    using sp(2) ne by (simp add: give_back_def Let_def priv_get_user_buffer_def set_mark)
qed

text \<open>Cutting off a head of \<open>f\<close> units and, if it is large enough, a tail.\<close>

lemma cut_head_live:
  assumes l: "live s (insert (a, n) A)" "(a, n) \<notin> A"
    and f: "BlockCtrlUnits M \<le> f" "f + m \<le> n" "BlockCtrlUnits M \<le> m"
  defines "b \<equiv> a + f * Alignment M"
  shows "\<exists>s2 s3 k. m \<le> k \<and>
     (if n - f \<ge> m + BlockCtrlUnits M
      then let third = b + Alignment M * m; s1 = size_to s b m;
               s1 = size_to s1 third (n - f - get_block_size M s1 b);
               s1 = marked s1 b; s1 = marked s1 third
           in priv_deallocate M s1 (priv_get_user_buffer M third)
      else Some (marked (size_to s b (n - f)) b)) = Some s2
     \<and> give_back M s2 a f = Some s3 \<and> live s3 (insert (b, k) A) \<and> (b, k) \<notin> A"
proof -
  let ?B = "BlockCtrlUnits M"
  have A: "insert (a, n) A - {(a, n)} = A" using l(2) by auto
  have pos: "0 < ?B" using ctrl_units by linarith
  have ne: "a \<noteq> b" using f pos Al_word(4) by (auto simp: b_def)
  let ?r = "marked (marked (size_to (size_to s a f) b (n - f)) a) b"
  have sp: "live ?r (insert (a, f) (insert (b, n - f) A))" "(a, f) \<notin> A" "(b, n - f) \<notin> A"
    using split_block [OF l(1) insertI1 f(1) _ b_def [THEN meta_eq_to_obj_eq]] f unfolding A by auto
  have fin: "\<exists>s3. give_back M s2 a f = Some s3 \<and> live s3 (insert (b, k) A)"
    if h: "live (marked (size_to s2 a f) a) (insert (a, f) (insert (b, k) A))" for s2 k
  proof -
    obtain s3 where "priv_deallocate M (marked (size_to s2 a f) a) (a + AllocatedCtrlBytes M) = Some s3"
        "live s3 (insert (a, f) (insert (b, k) A) - {(a, f)})"
      using dealloc_block [OF h, of a f] by auto
    moreover have "insert (a, f) (insert (b, k) A) - {(a, f)} = insert (b, k) A" using sp(2) ne by auto
    ultimately show ?thesis by (simp add: give_back_def Let_def priv_get_user_buffer_def)
  qed
  show ?thesis
  proof (cases "n - f \<ge> m + ?B")
    case False
    let ?s2 = "marked (size_to s b (n - f)) b"
    have "marked (size_to ?s2 a f) a = ?r" using ne by (simp add: set_mark set_set mark_mark)
    then obtain s3 where "give_back M ?s2 a f = Some s3" "live s3 (insert (b, n - f) A)"
      using fin [of ?s2 "n - f"] sp(1) by auto
    then show ?thesis using False sp(3) f by (intro exI [of _ ?s2] exI [of _ s3] exI [of _ "n - f"]) simp
  next
    case True
    let ?t = "b + m * Alignment M" and ?A = "insert (a, f) A"
    let ?T = "marked (marked (size_to (size_to s b m) ?t (n - f - m)) b) ?t"
    have net: "b \<noteq> ?t" "a \<noteq> ?t" using f pos Al_word(4) by (auto simp: b_def)
    have bA: "(b, n - f) \<notin> ?A" using sp(3) ne by auto
    let ?s' = "marked (size_to s a f) a"
    have "?r = marked (size_to ?s' b (n - f)) b" using ne by (simp add: set_mark)
    then have "live (marked (size_to ?s' b (n - f)) b) (insert (a, f) (insert (b, n - f) A))" using sp(1) by simp
    from split_unwritten [OF this, of m ?t]
    have "live (marked (marked (size_to (size_to ?s' b m) ?t (n - f - m)) b) ?t)
        (insert (b, m) (insert (?t, n - f - m) (insert (a, f) (insert (b, n - f) A) - {(b, n - f)})))
      \<and> (b, m) \<notin> insert (a, f) (insert (b, n - f) A) - {(b, n - f)}
      \<and> (?t, n - f - m) \<notin> insert (a, f) (insert (b, n - f) A) - {(b, n - f)}"
      using f True by simp
    moreover have "insert (a, f) (insert (b, n - f) A) - {(b, n - f)} = ?A" using bA by auto
    moreover have "marked (marked (size_to (size_to ?s' b m) ?t (n - f - m)) b) ?t = marked (size_to ?T a f) a"
      using ne net by (simp add: set_mark set_set mark_mark)
    ultimately have c: "live (marked (size_to ?T a f) a) (insert (b, m) (insert (?t, n - f - m) ?A))"
      "(b, m) \<notin> ?A" "(?t, n - f - m) \<notin> ?A" by simp_all
    have mem: "(?t, n - f - m) \<in> insert (b, m) (insert (?t, n - f - m) ?A)"
      "(a, f) \<in> insert (b, m) (insert (?t, n - f - m) ?A)" by auto
    obtain s2 where s2: "priv_deallocate M ?T (?t + AllocatedCtrlBytes M) = Some s2"
        "live (marked (size_to s2 a f) a) (insert (b, m) (insert (?t, n - f - m) ?A) - {(?t, n - f - m)})"
      using dealloc_frame [OF c(1) mem] net by (auto simp: b_def)
    have "insert (b, m) (insert (?t, n - f - m) ?A) - {(?t, n - f - m)} = insert (a, f) (insert (b, m) A)"
      using c net by auto
    then obtain s3 where "give_back M s2 a f = Some s3" "live s3 (insert (b, m) A)"
      using fin [of s2 m] s2(2) by auto
    moreover have "get_block_size M (size_to s b m) b = m" by (simp add: get_set_size)
    ultimately show ?thesis
      using True s2(1) c(2) by (intro exI [of _ s2] exI [of _ s3] exI [of _ m])
        (simp add: Let_def priv_get_user_buffer_def mult.commute)
  qed
qed

lemma round_up_po2:
  assumes "X mod 2 ^ i = 0" "i < j" "j < 64" "X + 2 ^ j - 1 < 2 ^ 64"
  defines "y \<equiv> unat ((of_nat X + (2 ^ j :: size_t) - 1) AND - (2 ^ j))"
  shows "y mod 2 ^ j = 0" and "X \<le> y" and "y + 2 ^ i \<le> X + 2 ^ j"
proof -
  let ?p = "2 ^ j :: nat"
  have p: "0 < ?p" by simp
  have "unat (of_nat X + (2 ^ j :: size_t) - 1) = X + ?p - 1"
  proof -
    have "of_nat X + (2 ^ j :: size_t) - 1 = of_nat (X + ?p - 1)" by (simp add: of_nat_diff Suc_leI)
    then show ?thesis using assms(4) unat_of_nat_size by metis
  qed
  then have y: "y = (X + ?p - 1) div ?p * ?p"
    unfolding y_def word_and_neg_pow2 using assms(3,4)
    by (subst unat_mult_lem') (auto simp: unat_div unat_pow2_size intro: le_less_trans [OF div_times_less_eq_dividend])
  show "y mod ?p = 0" by (simp add: y)
  define z where "z = X + ?p - 1"
  have z: "y + z mod ?p = z" unfolding y z_def by (simp only: div_mult_mod_eq)
  have "z mod ?p < ?p" by simp
  then show "X \<le> y" using z p unfolding z_def by linarith
  have d: "2 ^ i dvd ?p" using assms(2) by (intro le_imp_power_dvd) simp
  then have "2 ^ i dvd y" by (simp add: y)
  moreover have "2 ^ i dvd X + ?p" using assms(1) d by (simp add: mod_eq_0_iff_dvd)
  ultimately obtain u v where "y = 2 ^ i * u" "X + ?p = 2 ^ i * v" by (auto elim!: dvdE)
  moreover have "y < X + ?p" using z p unfolding z_def by linarith
  ultimately have "u + 1 \<le> v" by simp
  then have "2 ^ i * (u + 1) \<le> 2 ^ i * v" by (intro mult_le_mono2)
  then show "y + 2 ^ i \<le> X + ?p" using \<open>y = 2 ^ i * u\<close> \<open>X + ?p = 2 ^ i * v\<close> by simp
qed

lemma overaligned_live:
  assumes l: "live s A"
    and big: "2 * unat nbytes + unat alignment + (2 * BlockCtrlUnits M + 4) * Alignment M \<le> 2 ^ 64"
    and al: "alignment = 2 ^ j" "i < j" "j < 64"
  shows "\<exists>s' p. priv_allocate_overaligned M s nbytes alignment = Some (s', p)
    \<and> (p = 0 \<and> s' = s \<or> (\<exists>a k. p = a + AllocatedCtrlBytes M \<and> p mod 2 ^ j = 0 \<and> (a, k) \<notin> A
         \<and> live s' (insert (a, k) A) \<and> unat nbytes \<le> user_bytes k))"
proof -
  let ?B = "BlockCtrlUnits M" and ?C = "AllocatedCtrlUnits M" and ?Al = "Alignment M" and ?U = "UsableByPreviousChunk M"
  define N where "N = unat (user_buffer_ceil_units M nbytes)"
  note rq = request_nat [OF big al, folded N_def]
  let ?rq = "overaligned_request M nbytes alignment"
  obtain s1 p where a1: "priv_allocate_new M s ?rq ?rq = Some (s1, p)"
    and c1: "p = 0 \<and> s1 = s \<or> (\<exists>a k. p = a + AllocatedCtrlBytes M \<and> (a, k) \<notin> A \<and> live s1 (insert (a, k) A)
               \<and> unat ?rq \<le> user_bytes k)"
    using alloc_new [OF l rq(2)] by blast
  show ?thesis
  proof (cases "p = 0")
    case True
    then have "s1 = s" using c1 ctrl_units Al_word(4) by (auto simp: AllocatedCtrlBytes_def)
    then show ?thesis using a1 True by (simp add: priv_allocate_overaligned_def)
  next
    case False
    then obtain a n where b: "p = a + AllocatedCtrlBytes M" "(a, n) \<notin> A" "live s1 (insert (a, n) A)"
        "unat ?rq \<le> user_bytes n" using c1 by auto
    define m where "m = max (N + ?C) ?B"
    have lb: "get_block_size M s1 a = n" "a mod ?Al = 0" "0 < a" "a + (n + 1) * ?Al \<le> 2 ^ 64"
      using live_block [OF b(3), of a n] by auto
    have big_n: "N + max N (?B - ?C) + ?B + (2 ^ (j - i) - 1) + ?C \<le> n"
    proof -
      have "(N + max N (?B - ?C) + ?B + (2 ^ (j - i) - 1)) * ?Al \<le> (n - ?C) * ?Al" using b(4) rq(1) by simp
      then have "N + max N (?B - ?C) + ?B + (2 ^ (j - i) - 1) \<le> n - ?C" using Al_word(4) by simp
      then show ?thesis using ctrl_units by linarith
    qed
    have nb: "unat nbytes + ?Al \<le> 2 ^ 64" using big by (simp add: algebra_simps)
    have enough: "unat nbytes \<le> user_bytes k" if "m \<le> k" for k
    proof -
      have "N * ?Al \<le> (k - ?C) * ?Al" using that by (intro mult_le_mono1) (auto simp: m_def)
      then show ?thesis using user_units_nat(1) [OF nb, folded N_def] by linarith
    qed
    have pb: "priv_get_block M p = a" by (simp add: priv_get_block_def b(1))
    have ap: "p mod ?Al = 0" using lb(2) by (simp add: b(1) AllocatedCtrlBytes_def)
    have p64: "p + ?Al \<le> 2 ^ 64"
    proof -
      have "?C * ?Al \<le> n * ?Al" using big_n by (intro mult_le_mono1) simp
      then show ?thesis using lb(4) unfolding b(1) AllocatedCtrlBytes_def add_mult_distrib by linarith
    qed
    show ?thesis
    proof (cases "of_nat p AND (alignment - 1) = (0 :: size_t)")
      case True
      have pa: "p mod 2 ^ j = 0"
      proof -
        have "of_nat p mod (2 ^ j :: size_t) = 0" using True unfolding al(1) word_and_pred_pow2 .
        then have "unat (of_nat p mod (2 ^ j :: size_t)) = 0" by simp
        moreover have "unat (of_nat p :: size_t) = p" using p64 Al_word(4) by (intro unat_of_nat_size) simp
        ultimately show ?thesis by (simp add: unat_mod unat_pow2_size [OF al(3)])
      qed
      show ?thesis
      proof (cases "n \<ge> m + ?B")
        case cut: True
        obtain s3 where "give_back M (marked (size_to s1 a m) a) (a + m * ?Al) (n - m) = Some s3"
            "live s3 (insert (a, m) A)" "(a, m) \<notin> A"
          using cut_tail_live [OF b(3,2), of m] cut by (auto simp: m_def)
        moreover from this have "priv_allocate_overaligned M s nbytes alignment = Some (s3, p)"
          using a1 False True pb lb cut rq(3)
          by (simp add: priv_allocate_overaligned_def Let_def m_def mult.commute)
        ultimately show ?thesis using enough [of m] b(1) pa by auto
      next
        case cut: False
        then have "priv_allocate_overaligned M s nbytes alignment = Some (s1, p)"
          using a1 False True pb lb rq(3) by (simp add: priv_allocate_overaligned_def Let_def m_def)
        moreover have "m \<le> n" using big_n ctrl_units by (auto simp: m_def)
        ultimately show ?thesis using enough [of n] b pa by auto
      qed
    next
      case unaligned: False
      let ?X = "p + ?B * ?Al"
      define y where "y = unat ((of_nat ?X + alignment - 1) AND - alignment :: size_t)"
      have pj: "(2 :: nat) ^ j = 2 ^ (j - i) * ?Al" using al(2) by (simp add: alignment_po2 flip: power_add)
      have Xb: "?X + 2 ^ j \<le> a + (n + 1) * ?Al"
      proof -
        have "(?B + (2 ^ (j - i) - 1) + ?C) * ?Al \<le> n * ?Al" using big_n by (intro mult_le_mono1) simp
        moreover have "(2 ^ (j - i) - 1) * ?Al + ?Al = 2 ^ j" unfolding pj by (simp add: diff_mult_distrib)
        ultimately show ?thesis by (simp add: b(1) AllocatedCtrlBytes_def algebra_simps)
      qed
      have y: "y mod 2 ^ j = 0" "?X \<le> y" "y + ?Al \<le> ?X + 2 ^ j"
        using round_up_po2 [of ?X j] ap Xb lb(4) al unfolding y_def al(1) alignment_po2(1) by auto
      define f where "f = (y - p) div ?Al"
      have yp: "y = p + f * ?Al"
      proof -
        have "?Al dvd y" using y(1) al(2) alignment_po2 by (metis dvd_trans le_imp_power_dvd less_imp_le mod_0_imp_dvd)
        moreover have "?Al dvd p" using ap by (simp add: mod_eq_0_iff_dvd)
        ultimately have "?Al dvd y - p" by (rule dvd_diff_nat)
        then show ?thesis using y(2) by (simp add: f_def)
      qed
      have f: "?B \<le> f" "f \<le> ?B + (2 ^ (j - i) - 1)"
      proof -
        have "?B * ?Al \<le> f * ?Al" using y(2) unfolding yp by simp
        then show "?B \<le> f" using Al_word(4) by simp
        have "f * ?Al \<le> (?B + (2 ^ (j - i) - 1)) * ?Al"
          using y(3) unfolding yp pj by (simp add: algebra_simps diff_mult_distrib)
        then show "f \<le> ?B + (2 ^ (j - i) - 1)" using Al_word(4) by simp
      qed
      have sec: "priv_get_block M y = a + f * ?Al" "(priv_get_block M y - a) div ?Al = f"
        using Al_word(4) by (simp_all add: priv_get_block_def yp b(1))
      have "f + m \<le> n" using f(2) big_n ctrl_units unfolding m_def by linarith
      from cut_head_live [OF b(3,2) f(1) this] obtain s2 s3 k where h: "m \<le> k"
        "(if n - f \<ge> m + ?B
          then let third = a + f * ?Al + ?Al * m; s' = size_to s1 (a + f * ?Al) m;
                   s' = size_to s' third (n - f - get_block_size M s' (a + f * ?Al));
                   s' = marked s' (a + f * ?Al); s' = marked s' third
               in priv_deallocate M s' (priv_get_user_buffer M third)
          else Some (marked (size_to s1 (a + f * ?Al) (n - f)) (a + f * ?Al))) = Some s2"
        "give_back M s2 a f = Some s3" "live s3 (insert (a + f * ?Al, k) A)" "(a + f * ?Al, k) \<notin> A"
        by (auto simp: m_def)
      have al0: "?Al \<noteq> 0" using Al_word(4) by simp
      have "priv_allocate_overaligned M s nbytes alignment = Some (s3, y)"
        using a1 False unaligned h(2,3)
        unfolding priv_allocate_overaligned_def Let_def BlockCtrlBytes_def
        by (cases "m + ?B \<le> n - f")
          (simp_all add: y_def [symmetric] pb lb(1) sec rq(3) m_def [symmetric] al0 del: of_nat_add of_nat_mult)
      moreover have "y = a + f * ?Al + AllocatedCtrlBytes M" by (simp add: yp b(1))
      ultimately show ?thesis using h(4,5) enough [OF h(1)] y(1)
        by (intro exI [of _ s3] exI [of _ y] conjI disjI2 exI [of _ "a + f * ?Al"] exI [of _ k])
    qed
  qed
qed

lemma deallocate_many_live:
  assumes "live s A" "distinct bs" "set bs \<subseteq> A"
  shows "\<exists>s'. priv_deallocate_many M s (map (\<lambda>b. fst b + AllocatedCtrlBytes M) bs) = Some s' \<and> live s' (A - set bs)"
  using assms
proof (induction bs arbitrary: s A)
  case (Cons b bs)
  obtain s1 where s1: "priv_deallocate M s (fst b + AllocatedCtrlBytes M) = Some s1" "live s1 (A - {b})"
    using dealloc_block [OF Cons.prems(1), of "fst b" "snd b"] Cons.prems(3) by auto
  moreover obtain s' where "priv_deallocate_many M s1 (map (\<lambda>b. fst b + AllocatedCtrlBytes M) bs) = Some s'"
      "live s' (A - {b} - set bs)"
    using Cons.IH [OF s1(2)] Cons.prems by auto
  ultimately show ?case by (auto simp: Diff_insert2 [symmetric])
qed simp

lemma allocate_aligned_live:
  assumes l: "live s A"
    and big: "2 * unat nbytes + unat alignment + (2 * BlockCtrlUnits M + 4) * Alignment M \<le> 2 ^ 64"
    and al: "alignment = 2 ^ j" "j < 64"
  shows "\<exists>s' p. allocate_aligned M s nbytes alignment = Some (s', p)
    \<and> (p = 0 \<and> s' = s \<or> (\<exists>a k. p = a + AllocatedCtrlBytes M \<and> p mod 2 ^ j = 0 \<and> (a, k) \<notin> A
         \<and> live s' (insert (a, k) A) \<and> unat nbytes \<le> user_bytes k))"
proof -
  have po2: "alignment AND (alignment - 1) = 0"
    unfolding al(1) word_and_pred_pow2 by simp
  have nb: "unat nbytes + Alignment M \<le> 2 ^ 64" using big by (simp add: algebra_simps)
  have le: "alignment \<le> of_nat (Alignment M) \<longleftrightarrow> j \<le> i"
    unfolding word_le_nat_alt Al_word(1) al(1) unat_pow2_size [OF al(2)] unfolding alignment_po2(1) by simp
  show ?thesis
  proof (cases "j \<le> i")
    case True
    then have e: "allocate_aligned M s nbytes alignment = priv_allocate_new M s nbytes nbytes"
      using po2 le by (simp add: allocate_aligned_def)
    have "(a + AllocatedCtrlBytes M) mod 2 ^ j = 0" if "live s' (insert (a, k) A)" for s' a k
    proof -
      have "2 ^ j dvd Alignment M" using True by (simp add: alignment_po2 le_imp_power_dvd)
      moreover have "Alignment M dvd a" using live_block [OF that, of a k] by (auto simp: mod_eq_0_iff_dvd)
      ultimately show ?thesis by (simp add: AllocatedCtrlBytes_def mod_eq_0_iff_dvd dvd_trans)
    qed
    then show ?thesis using alloc_new [OF l nb] unfolding e by blast
  next
    case False
    then have "allocate_aligned M s nbytes alignment = priv_allocate_overaligned M s nbytes alignment"
      using po2 le by (simp add: allocate_aligned_def)
    then show ?thesis using overaligned_live [OF l big al(1) _ al(2)] False by simp
  qed
qed

end

end
