(* ===== verification/Seq_Fit_Contract.thy ===== *)
theory Seq_Fit_Contract
  imports Seq_Fit_Expand Mem_Algo_Laws
begin

text \<open>
  The sequential fit algorithm provides what the common allocation functions rely on: the interpretation of
  \<open>mem_algo\<close> on its operations, with \<open>sf_live\<close> as the description of a state.
\<close>

section \<open>The sequential fit algorithm keeps the contract\<close>

definition sf_live :: "nat \<Rightarrow> nat \<Rightarrow> nat \<Rightarrow> nat \<Rightarrow> seq_fit \<Rightarrow> block set \<Rightarrow> bool" where
  "sf_live lo t z r st A \<longleftrightarrow> (\<exists>fl. sf_rep st lo fl A) \<and> sf_this st = t \<and> sf_size st = z \<and> sf_root st = r"

lemma sf_liveI: "sf_rep st lo fl A \<Longrightarrow> sf_live lo (sf_this st) (sf_size st) (sf_root st) st A"
  by (auto simp: sf_live_def)

text \<open>Deallocating a block neither reads nor writes the header of another allocated block.\<close>

lemma linked_back_other:
  assumes "b \<noteq> block" "b \<noteq> prev" "b \<noteq> pos"
  shows "linked_back (st\<lparr>sf_heap := (sf_heap st)(b := h)\<rparr>) prev pos block =
    (linked_back st prev pos block)\<lparr>sf_heap := (sf_heap (linked_back st prev pos block))(b := h)\<rparr>"
  using assms by (simp add: linked_back_def Let_def upd_next_def upd_size_def fun_upd_twist)

lemma deallocate_other:
  assumes rep: "sf_rep (st\<lparr>sf_heap := (sf_heap st)(b := h)\<rparr>) lo fl A"
    and b: "(a, n) \<in> A" "(b, m) \<in> A" "a \<noteq> b"
    and d: "sf_priv_deallocate (st\<lparr>sf_heap := (sf_heap st)(b := h)\<rparr>) (a + 16) = Some st'"
  shows "\<exists>st''. sf_priv_deallocate st (a + 16) = Some st'' \<and> st''\<lparr>sf_heap := (sf_heap st'')(b := h)\<rparr> = st'
    \<and> sf_root st'' = sf_root st \<and> sf_this st'' = sf_this st \<and> sf_size st'' = sf_size st"
proof -
  let ?st = "st\<lparr>sf_heap := (sf_heap st)(b := h)\<rparr>"
  let ?al = "\<lambda>s. s\<lparr>m_allocated := m_allocated st - 16 * size_of st a\<rparr>" and ?r = "sf_root st"
  let ?xs = "takeWhile (\<lambda>x. fst x < a) fl" and ?ys = "dropWhile (\<lambda>x. fst x < a) fl"
  let ?p = "if ?xs = [] then ?r else fst (last ?xs)" and ?q = "if ?ys = [] then ?r else fst (hd ?ys)"
  note ad = sf_rep_addresses [OF rep, simplified]
  have so: "sorted_wrt apart fl" and sg: "seg ?st (next_of ?st ?r) fl ?r" using rep by (simp_all add: sf_rep_def)
  have bf: "b \<notin> fst ` set fl" using ad(4) [OF b(2)] by auto
  have br: "b \<noteq> ?r" using ad(3) [OF b(2)] by simp
  have sz: "size_of ?st a = size_of st a" using b(3) by simp
  have "seg (?al ?st) p zs q = seg ?st p zs q" for p zs q by (rule seg_cong) simp
  then have s1: "seg (?al ?st) (next_of st ?r) (?xs @ ?ys) ?r" using sg br by simp
  have "seg (?al st) p fl q = seg ?st p fl q" for p q by (rule seg_cong) (use bf in auto)
  then have s2: "seg (?al st) (next_of st ?r) (?xs @ ?ys) ?r" using sg br by simp
  have x: "\<forall>x\<in>set ?xs. fst x < a \<and> fst x \<noteq> ?r" using ad(2) set_takeWhileD by fastforce
  have y: "?ys = [] \<or> a \<le> fst (hd ?ys)" using dropWhile_above [OF so] hd_in_set by metis
  have find: "sf_find_pos s a ?r (next_of st ?r) = Some (?p, ?q)"
    if "seg s (next_of st ?r) (?xs @ ?ys) ?r" "sf_root s = ?r" for s
    using sf_find_pos_seg [of s "next_of st ?r" ?xs ?ys a ?r, unfolded that(2), OF that(1) x y] .
  have f1: "sf_find_pos (?al ?st) a ?r (next_of st ?r) = Some (?p, ?q)" by (rule find [OF s1]) simp
  have f2: "sf_find_pos (?al st) a ?r (next_of st ?r) = Some (?p, ?q)" by (rule find [OF s2]) simp
  have ne: "b \<noteq> ?p" "b \<noteq> ?q"
    using br bf last_in_set [of ?xs] hd_in_set [of ?ys] set_takeWhileD [of _ _ fl] set_dropWhileD [of _ _ fl]
    by (metis imageI)+
  obtain p q where pq: "p = ?p" "q = ?q" by blast
  have e1: "sf_priv_deallocate ?st (a + 16) = Some (linked_back (?al ?st) p q a)"
    using deallocate_unfold [of "a + 16" ?st p q] f1 [folded pq] br b(3) by simp
  have e2: "sf_priv_deallocate st (a + 16) = Some (linked_back (?al st) p q a)"
    using deallocate_unfold [of "a + 16" st p q] f2 [folded pq] by simp
  have c: "?al ?st = (?al st)\<lparr>sf_heap := (sf_heap (?al st))(b := h)\<rparr>" by simp
  have "linked_back (?al ?st) p q a =
      (linked_back (?al st) p q a)\<lparr>sf_heap := (sf_heap (linked_back (?al st) p q a))(b := h)\<rparr>"
    by (subst c, rule linked_back_other) (use b(3) ne [folded pq] in auto)
  then show ?thesis using e1 e2 d by (simp add: linked_back_simps)
qed

lemma written_block: "upd_next (upd_size st b m) b 0 = st\<lparr>sf_heap := (sf_heap st)(b := \<lparr>bc_next = 0, bc_size = m\<rparr>)\<rparr>"
  by (cases "sf_heap st b") (simp add: upd_next_def upd_size_def)

interpretation sfm: mem_algo sf_algo 4 "sf_live lo t z r" for lo t z r
proof unfold_locales
  fix s A a n
  assume l: "sf_live lo t z r s A" and b: "(a, n) \<in> A"
  then obtain fl where rep: "sf_rep s lo fl A" by (auto simp: sf_live_def)
  have t: "tiles lo (sf_end s) (set fl \<union> A)" and e: "sf_end s < 2 ^ 64" and h: "sf_heap s a = \<lparr>bc_next = 0, bc_size = n\<rparr>"
    using rep b by (auto simp: sf_rep_def)
  have a: "a mod 16 = 0" "0 < n" "a + 16 * n \<le> sf_end s"
    using tilesD(1,2,4) [OF t, of "(a, n)"] b by auto
  have "a \<noteq> 0" using sf_rep_addresses(5) [OF rep, of "(a, n)"] b by simp
  moreover have "a + 16 * n + 16 \<le> 2 ^ 64"
  proof -
    obtain c where "a = 16 * c" using a(1) by auto
    then have "16 * (c + n) < 16 * 2 ^ 60" using a(3) e by simp
    then have "c + n + 1 \<le> 2 ^ 60" by simp
    then show ?thesis using \<open>a = 16 * c\<close> by simp
  qed
  ultimately show "get_block_size sf_algo s a = n \<and> BlockCtrlUnits sf_algo \<le> n \<and> a mod Alignment sf_algo = 0 \<and> 0 < a
      \<and> a + (n + 1) * Alignment sf_algo \<le> 2 ^ 64"
    using a h by (simp add: sf_algo_def)
  show "sf_live lo t z r (priv_mark_new_allocated_block sf_algo (set_block_size sf_algo s a n) a) A"
    using l h by (simp add: sf_algo_def written_block fun_upd_idem)
  show "\<exists>s'. priv_deallocate sf_algo s (a + AllocatedCtrlBytes sf_algo) = Some s' \<and> sf_live lo t z r s' (A - {(a, n)})"
    using deallocate_rep [OF rep b] l by (auto simp: sf_algo_def AllocatedCtrlBytes_def sf_live_def)
next
  fix s a n A k b
  assume l: "sf_live lo t z r (priv_mark_new_allocated_block sf_algo (set_block_size sf_algo s a n) a) A"
    and b: "(a, n) \<in> A" and k: "BlockCtrlUnits sf_algo \<le> k" "k + BlockCtrlUnits sf_algo \<le> n"
    and e: "b = a + k * Alignment sf_algo"
  let ?st = "s\<lparr>sf_heap := (sf_heap s)(a := \<lparr>bc_next = 0, bc_size = n\<rparr>)\<rparr>"
  let ?st' = "s\<lparr>sf_heap := (sf_heap s)(a := \<lparr>bc_next = 0, bc_size = k\<rparr>, b := \<lparr>bc_next = 0, bc_size = n - k\<rparr>)\<rparr>"
  have b': "b = a + 16 * k" using e by (simp add: sf_algo_def)
  obtain fl where rep: "sf_rep ?st lo fl (insert (a, n) (A - {(a, n)}))"
    using l b by (auto simp: sf_live_def sf_algo_def written_block insert_absorb)
  have k': "0 < k" "k < n" using k by (auto simp: sf_algo_def)
  have parts: "sf_rep ?st' lo fl (insert (a, k) (insert (b, n - k) (A - {(a, n)})))" "(a, k) \<notin> A - {(a, n)}"
      "(b, n - k) \<notin> A - {(a, n)}"
  proof -
    have nm: "(a, n) \<notin> A - {(a, n)}" by simp
    have f: "sf_root ?st' = sf_root ?st" "m_allocated ?st' = m_allocated ?st" "sf_end ?st' = sf_end ?st"
      "sf_heap ?st' = (sf_heap ?st)(a := \<lparr>bc_next = 0, bc_size = k\<rparr>, a + 16 * k := \<lparr>bc_next = 0, bc_size = n - k\<rparr>)"
      by (simp_all add: b')
    show "sf_rep ?st' lo fl (insert (a, k) (insert (b, n - k) (A - {(a, n)})))" "(a, k) \<notin> A - {(a, n)}"
      "(b, n - k) \<notin> A - {(a, n)}"
      using split_allocated [OF rep nm k' f] unfolding b' by blast+
  qed
  have "sf_this ?st' = t" "sf_size ?st' = z" "sf_root ?st' = r" using l by (simp_all add: sf_live_def sf_algo_def)
  then have "sf_live lo t z r ?st' (insert (a, k) (insert (b, n - k) (A - {(a, n)})))"
    unfolding sf_live_def using parts(1) by blast
  moreover have "priv_mark_new_allocated_block sf_algo (priv_mark_new_allocated_block sf_algo
      (set_block_size sf_algo (set_block_size sf_algo s a k) b (n - k)) a) b = ?st'"
    using k' b' by (cases "sf_heap s a"; cases "sf_heap s b") (simp add: sf_algo_def upd_next_def upd_size_def fun_upd_twist)
  ultimately show "sf_live lo t z r (priv_mark_new_allocated_block sf_algo (priv_mark_new_allocated_block sf_algo
        (set_block_size sf_algo (set_block_size sf_algo s a k) b (n - k)) a) b)
        (insert (a, k) (insert (b, n - k) (A - {(a, n)})))
      \<and> (a, k) \<notin> A - {(a, n)} \<and> (b, n - k) \<notin> A - {(a, n)}"
    using parts(2,3) by (simp only: simp_thms)
next
  fix s b m A a n
  assume l: "sf_live lo t z r (priv_mark_new_allocated_block sf_algo (set_block_size sf_algo s b m) b) A"
    and b: "(a, n) \<in> A" "(b, m) \<in> A" "a \<noteq> b"
  let ?h = "\<lparr>bc_next = 0, bc_size = m\<rparr>"
  obtain fl where rep: "sf_rep (s\<lparr>sf_heap := (sf_heap s)(b := ?h)\<rparr>) lo fl A"
    using l by (auto simp: sf_live_def sf_algo_def written_block)
  obtain st' where st': "sf_priv_deallocate (s\<lparr>sf_heap := (sf_heap s)(b := ?h)\<rparr>) (a + 16) = Some st'"
      "sf_rep st' lo (freed fl (a, n)) (A - {(a, n)})"
    using deallocate_rep [OF rep b(1)] by auto
  obtain st'' where "sf_priv_deallocate s (a + 16) = Some st''" "st''\<lparr>sf_heap := (sf_heap st'')(b := ?h)\<rparr> = st'"
      "sf_root st'' = sf_root s" "sf_this st'' = sf_this s" "sf_size st'' = sf_size s"
    using deallocate_other [OF rep b st'(1)] by auto
  then show "\<exists>s'. priv_deallocate sf_algo s (a + AllocatedCtrlBytes sf_algo) = Some s'
      \<and> sf_live lo t z r (priv_mark_new_allocated_block sf_algo (set_block_size sf_algo s' b m) b) (A - {(a, n)})"
    using st'(2) l by (auto simp: sf_algo_def AllocatedCtrlBytes_def sf_live_def written_block)
next
  fix s A and nbytes :: size_t
  assume l: "sf_live lo t z r s A" and n: "unat nbytes + Alignment sf_algo \<le> 2 ^ 64"
  then obtain fl where rep: "sf_rep s lo fl A" by (auto simp: sf_live_def)
  have "unat nbytes \<le> 2 ^ 64 - 16" using n by (simp add: sf_algo_def)
  from allocate_rep [OF rep order_refl this] show "\<exists>s' p. priv_allocate_new sf_algo s nbytes nbytes = Some (s', p)
      \<and> (p = 0 \<and> s' = s \<or> (\<exists>a k. p = a + AllocatedCtrlBytes sf_algo \<and> (a, k) \<notin> A \<and> sf_live lo t z r s' (insert (a, k) A)
           \<and> unat nbytes \<le> (k - AllocatedCtrlUnits sf_algo) * Alignment sf_algo + UsableByPreviousChunk sf_algo))"
    using l by (force simp: sf_algo_def sf_priv_allocate_new_def AllocatedCtrlBytes_def sf_live_def split: if_splits)
qed (auto simp: sf_algo_def upd_next_def upd_size_def fun_upd_twist)
end
