(* ===== verification/Seq_Fit_Shrink.thy ===== *)
theory Seq_Fit_Shrink
  imports Seq_Fit_Expand
begin

text \<open>
  \<^verbatim>\<open>shrink_to_fit\<close> of the sequential fit algorithm: the free block at the end of the segment is cut off. In an empty
  segment the code allocates an object of size 0 first, cuts off what is left and gives the object back; this needs
  a free block of more than two units, as a smaller one is taken whole and the code goes on with the root of the
  free list as if it were the last free block.
\<close>

text \<open>The last free block and its predecessor.\<close>

lemma sf_find_last_seg:
  assumes "seg st q (xs @ [b]) (sf_root st)" "\<forall>y\<in>set (xs @ [b]). fst y \<noteq> sf_root st"
  shows "sf_find_last st prev lst q = Some (if xs = [] then lst else fst (last xs), fst b)"
  using assms
proof (induction xs arbitrary: q prev lst)
  case Nil
  then show ?case by (subst sf_find_last.simps, subst sf_find_last.simps) auto
next
  case (Cons x xs)
  have s: "q = fst x" "seg st (next_of st q) (xs @ [b]) (sf_root st)" "q \<noteq> sf_root st" using Cons.prems by auto
  have "sf_find_last st prev lst q = sf_find_last st lst q (next_of st q)"
    using s(3) by (subst sf_find_last.simps) simp
  then show ?case using Cons.IH [OF s(2)] Cons.prems(2) s(1) by simp
qed

lemma tiles_cut:
  assumes t: "tiles lo (a + 16 * n) (insert (a, n) S)" and a: "(a, n) \<notin> S" "lo \<le> a"
  shows "tiles lo a S"
proof -
  have d: "bytes (a, n) \<inter> bytes x = {}" if "x \<in> S" for x using tilesD(5) [OF t, of "(a, n)" x] that a(1) by auto
  have "(\<Union>x\<in>S. bytes x) = {lo..<a + 16 * n} - bytes (a, n)"
    using t d unfolding tiles_def by auto
  also have "\<dots> = {lo..<a}" using a(2) by (auto simp: bytes_def)
  finally show ?thesis using t unfolding tiles_def by (auto intro: pairwise_subset)
qed

text \<open>Cutting off the free block at the end.\<close>

lemma sf_cut_rep:
  assumes rep: "sf_rep st lo (xs @ [(a, n)]) A" and pl: "placed st lo" and e: "a + 16 * n = sf_end st" and lo: "lo < a"
    and c: "priv_check_and_allocate st n (prev_of st xs) a = (st1, p, rc)"
  defines "st2 \<equiv> st1\<lparr>sf_size := (sf_size st1 div 16 - size_of st1 a) * 16, m_allocated := m_allocated st1 - size_of st1 a * 16\<rparr>"
  shows "sf_rep st2 lo xs A \<and> placed st2 lo \<and> sf_end st2 = a \<and> sf_this st2 = sf_this st \<and> sf_size st2 = a - sf_this st
    \<and> sf_root st2 = sf_root st"
proof -
  have n: "0 < n" using size_bound(2) [OF rep, of "(a, n)"] by simp
  note at = allocate_at [OF rep n order_refl c]
  have tk: "taken n n = n" "left_over n (a, n) = []" by (simp_all add: taken_def left_over_def)
  have rep1: "sf_rep st1 lo xs (insert (a, n) A)" and na: "(a, n) \<notin> A" using at(1,4) tk by simp_all
  have sz: "size_of st1 a = n" and fin: "finite A" and acc: "m_allocated st1 = 16 * (\<Sum>b\<in>insert (a, n) A. snd b)"
    and t1: "tiles lo (sf_end st1) (set xs \<union> insert (a, n) A)" and dj: "set xs \<inter> insert (a, n) A = {}"
    using rep1 by (auto simp: sf_rep_def)
  have al: "sf_this st mod 16 = 0" "sf_this st + sf_size st < 2 ^ 64 - 16" "sf_this st \<le> lo" using pl by (auto simp: placed_def)
  have en: "a + 16 * n = sf_this st + sf_size st div 16 * 16" using e end_aligned(2) [OF al(1,2)] by simp
  have s2: "sf_size st2 = a - sf_this st" "sf_this st2 = sf_this st"
    using en sz at(7,8) al(3) lo by (auto simp: st2_def diff_mult_distrib)
  have e2: "sf_end st2 = a"
  proof -
    have "a - sf_this st = (sf_size st div 16 - n) * 16" using s2(1) sz at(8) by (simp add: st2_def)
    then have "(a - sf_this st) mod 16 = 0" by simp
    then have "(a - sf_this st) div 16 * 16 = a - sf_this st" by (simp add: mod_eq_0_iff_dvd)
    moreover have "sf_end st2 = sf_this st2 + sf_size st2 div 16 * 16"
      by (rule end_aligned(2)) (use al en s2 lo in auto)
    ultimately show ?thesis using s2 al(3) lo by simp
  qed
  have "sf_rep st2 lo xs A"
  proof (rule re_describe [OF rep1])
    show "m_allocated st2 = 16 * (\<Sum>b\<in>A. snd b)" using acc sz fin na by (simp add: st2_def)
    show "sf_heap st2 (fst b) = \<lparr>bc_next = 0, bc_size = snd b\<rparr>" if "b \<in> A" for b using rep1 that by (simp add: sf_rep_def st2_def)
    have "set xs \<union> insert (a, n) A = insert (a, n) (set xs \<union> A)" by blast
    then show "tiles lo (sf_end st2) (set xs \<union> A)"
      using tiles_cut [of lo a n "set xs \<union> A"] t1 at(6) e e2 dj na lo by simp
    show "sf_end st2 < 2 ^ 64" using e2 en al(2) by simp
  qed (use fin dj in \<open>auto simp: st2_def\<close>)
  moreover have "placed st2 lo" unfolding placed_def using s2 e2 al lo en by auto
  moreover have "sf_root st2 = sf_root st" using at(5) by (simp add: st2_def)
  ultimately show ?thesis using s2 e2 by blast
qed

lemma sf_shrink_to_fit_rep:
  assumes rep: "sf_rep st lo fl A" and pl: "placed st lo" and big: "A = {} \<Longrightarrow> 2 < size_of st (next_of st (sf_root st))"
  shows "\<exists>st' fl'. sf_shrink_to_fit st = Some st' \<and> sf_rep st' lo fl' A \<and> placed st' lo \<and> sf_this st' = sf_this st
    \<and> sf_size st' \<le> sf_size st"
proof (cases fl rule: rev_cases)
  case Nil
  then have "next_of st (sf_root st) = sf_root st" using rep by (simp add: sf_rep_def)
  then show ?thesis using rep pl by (auto simp: sf_shrink_to_fit_def Let_def)
next
  case (snoc xs b)
  obtain a n where b: "b = (a, n)" by (cases b)
  have rep: "sf_rep st lo (xs @ [(a, n)]) A" using rep snoc b by simp
  note ad = sf_rep_addresses [OF rep]
  have sg: "seg st (next_of st (sf_root st)) (xs @ [(a, n)]) (sf_root st)" and t: "tiles lo (sf_end st) (set (xs @ [(a, n)]) \<union> A)"
    and acc: "m_allocated st = 16 * (\<Sum>b\<in>A. snd b)" and fin: "finite A" and d: "set (xs @ [(a, n)]) \<inter> A = {}"
    using rep by (auto simp: sf_rep_def)
  have nr: "next_of st (sf_root st) \<noteq> sf_root st" using sg ad(2) by (cases xs) auto
  have fl: "sf_find_last st (sf_root st) (sf_root st) (next_of st (sf_root st)) = Some (prev_of st xs, a)"
    using sf_find_last_seg [OF sg, of "sf_root st" "sf_root st"] ad(2) by (auto simp: prev_of_def)
  have sa: "size_of st a = n" using sg by (auto simp: seg_append)
  show ?thesis
  proof (cases "a + n * 16 = sf_end st")
    case False
    then have "sf_shrink_to_fit st = Some st" using nr fl sa by (simp add: sf_shrink_to_fit_def Let_def sf_end_def)
    then show ?thesis using rep pl by blast
  next
    case end': True
    then have e: "a + 16 * n = sf_end st" by simp
    have es: "sf_end st \<le> sf_this st + sf_size st"
      using end_aligned(2) [of st] pl div_times_less_eq_dividend [of "sf_size st" 16] by (simp add: placed_def)
    then have sl: "a - sf_this st \<le> sf_size st" using e by simp
    show ?thesis
    proof (cases "A = {}")
      case False
      then obtain c where c: "c \<in> A" by blast
      then have i: "c \<in> set (xs @ [(a, n)]) \<union> A" "(a, n) \<in> set (xs @ [(a, n)]) \<union> A" "c \<noteq> (a, n)" using d by auto
      have "0 < snd c" "lo \<le> fst c" "fst c + 16 * snd c \<le> sf_end st" "bytes c \<inter> bytes (a, n) = {}"
        using tilesD(1,3,4) [OF t i(1)] tilesD(5) [OF t i] by blast+
      moreover have "0 < n" using size_bound(2) [OF rep, of "(a, n)"] by simp
      ultimately have lo: "lo < a" using e by (cases "lo < a") (auto simp: bytes_def disjoint_iff Ball_def)
      have m: "m_allocated st \<noteq> 0" using acc c fin tilesD(1) [OF t, of c] by auto
      obtain st1 p rc where k: "priv_check_and_allocate st n (prev_of st xs) a = (st1, p, rc)" by (metis prod_cases3)
      from sf_cut_rep [OF rep pl e lo k] show ?thesis
        using nr fl sa end' m k sl by (auto simp: sf_shrink_to_fit_def Let_def sf_end_def)
    next
      case True
      have single: "xs @ [(a, n)] = [(lo, (sf_end st - lo) div 16)]"
        using no_live_single rep pl True by (auto simp: placed_def)
      then have x: "xs = []" "a = lo" by (cases xs; simp)+
      have n: "2 < n" using big [OF True] sg x sa by simp
      have m: "m_allocated st = 0" using acc True by simp
      obtain st1 p rc where k: "priv_check_and_allocate st 1 (sf_root st) lo = (st1, p, rc)" by (metis prod_cases3)
      have rl: "sf_rep st lo ([] @ (lo, n) # []) {}" using rep x True by simp
      have "(1::nat) \<le> n" using n by simp
      from allocate_at [OF rl _ this, of st1 p rc] k
      have at: "sf_rep st1 lo [(lo + 16, n - 1)] {(lo, 1)}" "p = lo + 16" "sf_root st1 = sf_root st" "sf_end st1 = sf_end st"
        "sf_this st1 = sf_this st" "sf_size st1 = sf_size st"
        using n by (auto simp: taken_def left_over_def)
      have lr: "lo \<noteq> sf_root st" "next_of st (sf_root st) = lo" using ad(2) x sg by auto
      have u: "sf_priv_allocate_new st 0 0 = Some (st1, lo + 16)"
      proof -
        have "unat (get_rounded_size (0 :: size_t) 16 div 16 + 1) = 1" using units_for_eq [of 0] by (simp add: units_for_def round_zero_po2 [of 4, simplified])
        then show ?thesis using lr k at(2)
          by (simp add: sf_priv_allocate_new_def sf_allocate_branch_def Let_def sf_search.simps [of st])
      qed
      have nx: "next_of st1 (sf_root st) = lo + 16" "size_of st1 (lo + 16) = n - 1" using at(1,3) by (auto simp: sf_rep_def)
      obtain st2 p2 rc2 where k2: "priv_check_and_allocate st1 (n - 1) (sf_root st) (lo + 16) = (st2, p2, rc2)" by (metis prod_cases3)
      let ?st3 = "st2\<lparr>sf_size := (sf_size st2 div 16 - size_of st2 (lo + 16)) * 16, m_allocated := m_allocated st2 - size_of st2 (lo + 16) * 16\<rparr>"
      have pl1: "placed st1 lo" using pl at by (simp add: placed_def)
      have r1: "sf_rep st1 lo ([] @ [(lo + 16, n - 1)]) {(lo, 1)}" using at(1) by simp
      have e1: "lo + 16 + 16 * (n - 1) = sf_end st1" using e x n at(4) by simp
      have "priv_check_and_allocate st1 (n - 1) (prev_of st1 []) (lo + 16) = (st2, p2, rc2)" using k2 at(3) by simp
      from sf_cut_rep [OF r1 pl1 e1 _ this, unfolded at(5)]
      have c: "sf_rep ?st3 lo [] {(lo, 1)}" "placed ?st3 lo" "sf_this ?st3 = sf_this st" "sf_size ?st3 = lo + 16 - sf_this st"
        by (simp_all only: less_add_same_cancel1 zero_less_numeral simp_thms)
      obtain st4 where d4: "sf_priv_deallocate ?st3 (lo + 16) = Some st4" "sf_rep st4 lo (freed [] (lo, 1)) ({(lo, 1)} - {(lo, 1)})"
          "sf_this st4 = sf_this ?st3" "sf_size st4 = sf_size ?st3" using deallocate_rep [OF c(1), of lo 1] by auto
      have "sf_shrink_to_fit st = Some st4"
        using nr fl sa end' m u nx k2 d4(1) x by (simp add: sf_shrink_to_fit_def Let_def sf_end_def prev_of_def)
      moreover have "placed st4 lo" using c(2) d4(3,4) by (simp add: placed_def sf_end_def priv_block_end_offset_def)
      moreover have "sf_size st4 \<le> sf_size st" using d4(4) c(4) es e x n by linarith
      ultimately show ?thesis using d4(2,3) c(3) True by auto
    qed
  qed
qed

text \<open>
  In an empty segment with at most two units, as a first \<^verbatim>\<open>shrink_to_fit\<close> leaves it, the call takes the root of the free list
  for the last free block and marks it as allocated: the list that the deallocation then searches begins with a
  null pointer.
\<close>

lemma shrink_to_fit_small:
  assumes rep: "sf_rep st lo [(lo, n)] {}" and e: "lo + 16 * n = sf_end st" and n: "n \<le> 2"
  shows "\<exists>st'. sf_shrink_to_fit st = sf_priv_deallocate st' (lo + 16) \<and> sf_root st' = sf_root st \<and> next_of st' (sf_root st') = 0"
proof -
  note ad = sf_rep_addresses [OF rep]
  have sg: "seg st (next_of st (sf_root st)) ([] @ [(lo, n)]) (sf_root st)" and m: "m_allocated st = 0" using rep by (auto simp: sf_rep_def)
  have lr: "lo \<noteq> sf_root st" "next_of st (sf_root st) = lo" "size_of st lo = n" using ad(2) sg by auto
  have fl: "sf_find_last st (sf_root st) (sf_root st) lo = Some (sf_root st, lo)"
    using sf_find_last_seg [OF sg, of "sf_root st" "sf_root st"] ad(2) lr by auto
  obtain st1 p rc where k: "priv_check_and_allocate st 1 (sf_root st) lo = (st1, p, rc)" by (metis prod_cases3)
  have n1: "(1::nat) \<le> n" using size_bound(2) [OF rep, of "(lo, n)"] by simp
  have rl: "sf_rep st lo ([] @ (lo, n) # []) {}" using rep by simp
  from allocate_at [OF rl _ n1, of st1 p rc] k n
  have at: "sf_rep st1 lo [] {(lo, n)}" "p = lo + 16" "sf_root st1 = sf_root st" by (auto simp: taken_def left_over_def)
  have u: "sf_priv_allocate_new st 0 0 = Some (st1, lo + 16)"
  proof -
    have "unat (get_rounded_size (0 :: size_t) 16 div 16 + 1) = 1" using units_for_eq [of 0] by (simp add: units_for_def round_zero_po2 [of 4, simplified])
    then show ?thesis using lr k at(2)
      by (simp add: sf_priv_allocate_new_def sf_allocate_branch_def Let_def sf_search.simps [of st])
  qed
  have r1: "next_of st1 (sf_root st) = sf_root st" "size_of st1 (sf_root st) = 0" using at(1,3) by (auto simp: sf_rep_def)
  let ?st2 = "fst (priv_check_and_allocate st1 0 (sf_root st) (sf_root st))"
  have "next_of ?st2 (sf_root st) = 0" "sf_root ?st2 = sf_root st"
    using r1 at(3) by (simp_all add: priv_check_and_allocate_def Let_def)
  moreover have "sf_shrink_to_fit st =
      sf_priv_deallocate (?st2\<lparr>sf_size := (sf_size ?st2 div 16 - size_of ?st2 (sf_root st)) * 16,
        m_allocated := m_allocated ?st2 - size_of ?st2 (sf_root st) * 16\<rparr>) (lo + 16)"
    using lr fl e m u r1 by (simp add: sf_shrink_to_fit_def Let_def sf_end_def split_beta mult.commute)
  ultimately show ?thesis by (intro exI conjI) (assumption, simp_all)
qed

end
