(* ===== verification/Seq_Fit_Props.thy ===== *)
theory Seq_Fit_Props
  imports Seq_Fit_Contract Seq_Fit_Shrink
begin

text \<open>
  The properties of the sequential fit algorithm: construction, allocation, deallocation, the allocation
  commands, over-aligned allocation, growing, shrinking, the sequences of these operations, and the behaviour at
  the boundaries of \<^verbatim>\<open>size_t\<close> and with a full segment.
\<close>

section \<open>Requests through the common functions\<close>

lemma sf_aligned_request:
  assumes "sf_rep st lo fl A" "alignment = 2 ^ j" "j < 64" "2 * unat nbytes + unat alignment + 96 \<le> 2 ^ 64"
  shows "\<exists>st' p. sf_allocate_aligned st nbytes alignment = Some (st', p)
    \<and> (p = 0 \<and> st' = st \<or> (\<exists>a k fl'. p = a + 16 \<and> p mod 2 ^ j = 0 \<and> (a, k) \<notin> A
         \<and> sf_rep st' lo fl' (insert (a, k) A) \<and> unat nbytes + 16 \<le> 16 * k
         \<and> sf_this st' = sf_this st \<and> sf_size st' = sf_size st \<and> sf_root st' = sf_root st))"
proof -
  have "\<exists>s' p. allocate_aligned sf_algo st nbytes alignment = Some (s', p)
    \<and> (p = 0 \<and> s' = st \<or> (\<exists>a k. p = a + AllocatedCtrlBytes sf_algo \<and> p mod 2 ^ j = 0 \<and> (a, k) \<notin> A
         \<and> sf_live lo (sf_this st) (sf_size st) (sf_root st) s' (insert (a, k) A)
         \<and> unat nbytes \<le> (k - AllocatedCtrlUnits sf_algo) * Alignment sf_algo + UsableByPreviousChunk sf_algo))"
    by (rule sfm.allocate_aligned_live [OF sf_liveI [OF assms(1)] _ assms(2,3)])
      (use assms(4) in \<open>simp add: sf_algo_def\<close>)
  then obtain s' p where e: "allocate_aligned sf_algo st nbytes alignment = Some (s', p)"
    and c: "p = 0 \<and> s' = st \<or> (\<exists>a k. p = a + AllocatedCtrlBytes sf_algo \<and> p mod 2 ^ j = 0 \<and> (a, k) \<notin> A
         \<and> sf_live lo (sf_this st) (sf_size st) (sf_root st) s' (insert (a, k) A)
         \<and> unat nbytes \<le> (k - AllocatedCtrlUnits sf_algo) * Alignment sf_algo + UsableByPreviousChunk sf_algo)"
    by (elim exE conjE)
  have blk: "\<exists>fl'. p = a + 16 \<and> p mod 2 ^ j = 0 \<and> (a, k) \<notin> A \<and> sf_rep s' lo fl' (insert (a, k) A)
      \<and> unat nbytes + 16 \<le> 16 * k \<and> sf_this s' = sf_this st \<and> sf_size s' = sf_size st \<and> sf_root s' = sf_root st"
    if h: "p = a + AllocatedCtrlBytes sf_algo" "p mod 2 ^ j = 0" "(a, k) \<notin> A"
      "sf_live lo (sf_this st) (sf_size st) (sf_root st) s' (insert (a, k) A)"
      "unat nbytes \<le> (k - AllocatedCtrlUnits sf_algo) * Alignment sf_algo + UsableByPreviousChunk sf_algo" for a k
  proof -
    obtain fl' where r: "sf_rep s' lo fl' (insert (a, k) A)" using h(4) by (auto simp: sf_live_def)
    have "0 < k" using size_bound(2) [OF r, of "(a, k)"] by simp
    then have "unat nbytes + 16 \<le> 16 * k" using h(5) by (simp add: sf_algo_def)
    then show ?thesis using r h by (auto simp: sf_live_def sf_algo_def AllocatedCtrlBytes_def)
  qed
  from c show ?thesis
  proof (elim disjE exE conjE)
    assume "p = 0" "s' = st"
    then show ?thesis using e by (simp add: sf_allocate_aligned_def)
  next
    fix a k
    assume "p = a + AllocatedCtrlBytes sf_algo" "p mod 2 ^ j = 0" "(a, k) \<notin> A"
      "sf_live lo (sf_this st) (sf_size st) (sf_root st) s' (insert (a, k) A)"
      "unat nbytes \<le> (k - AllocatedCtrlUnits sf_algo) * Alignment sf_algo + UsableByPreviousChunk sf_algo"
    note blk [OF this]
    then show ?thesis using e unfolding sf_allocate_aligned_def
      by (intro exI [of _ s'] exI [of _ p] conjI disjI2 exI [of _ a] exI [of _ k])
  qed
qed

lemma sf_shrink_request:
  assumes rep: "sf_rep st lo fl A" and b: "(a, n) \<in> A"
  shows "\<exists>st' ok rc. shrink sf_algo st (a + 16) mx pref = Some (st', ok, rc)
    \<and> (if ok then \<exists>k fl'. k \<le> n \<and> rc = 16 * k - 16 \<and> sf_rep st' lo fl' (insert (a, k) (A - {(a, n)}))
          \<and> unat (get_rounded_size pref 16 div 16) + 1 \<le> k
          \<and> sf_this st' = sf_this st \<and> sf_size st' = sf_size st \<and> sf_root st' = sf_root st
       else st' = st)"
proof -
  obtain s' ok rc where e: "shrink sf_algo st (a + AllocatedCtrlBytes sf_algo) mx pref = Some (s', ok, rc)"
    and c: "if ok then \<exists>k\<le>n. rc = (k - AllocatedCtrlUnits sf_algo) * Alignment sf_algo + UsableByPreviousChunk sf_algo
            \<and> sf_live lo (sf_this st) (sf_size st) (sf_root st) s' (insert (a, k) (A - {(a, n)}))
            \<and> unat (ceil_units sf_algo (pref - of_nat (UsableByPreviousChunk sf_algo))) + AllocatedCtrlUnits sf_algo \<le> k
       else s' = st"
    using sfm.shrink_live [OF sf_liveI [OF rep] b, of mx pref] by blast
  have "if ok then \<exists>k fl'. k \<le> n \<and> rc = 16 * k - 16 \<and> sf_rep s' lo fl' (insert (a, k) (A - {(a, n)}))
          \<and> unat (get_rounded_size pref 16 div 16) + 1 \<le> k
          \<and> sf_this s' = sf_this st \<and> sf_size s' = sf_size st \<and> sf_root s' = sf_root st
       else s' = st"
  proof (cases ok)
    case True
    then obtain k where k: "k \<le> n" "rc = (k - 1) * 16" "unat (get_rounded_size pref 16 div 16) + 1 \<le> k"
        "sf_live lo (sf_this st) (sf_size st) (sf_root st) s' (insert (a, k) (A - {(a, n)}))"
      using c by (auto simp: sf_algo_def ceil_units_def)
    then have "rc = 16 * k - 16" by (simp add: diff_mult_distrib mult.commute)
    then show ?thesis using True k unfolding sf_live_def by auto
  qed (use c in auto)
  moreover have "shrink sf_algo st (a + 16) mx pref = Some (s', ok, rc)"
    using e by (simp add: sf_algo_def AllocatedCtrlBytes_def)
  ultimately show ?thesis by blast
qed

text \<open>
  The outcome of a request that may reuse the block \<open>(a, n)\<close>: nothing, the block with a new size, or a new
  block.
\<close>

definition outcome :: "seq_fit \<Rightarrow> nat \<Rightarrow> block set \<Rightarrow> block \<Rightarrow> seq_fit \<times> nat \<times> nat \<times> nat \<Rightarrow> bool" where
  "outcome st lo A b r \<longleftrightarrow>
     (case r of (st', p, rc, reuse) \<Rightarrow>
        (if p = 0 then st' = st
         else sf_this st' = sf_this st \<and> sf_size st' = sf_size st \<and> sf_root st' = sf_root st \<and>
           (\<exists>k fl'. rc = 16 * k - 16 \<and>
              (if reuse \<noteq> 0 then p = fst b + 16 \<and> sf_rep st' lo fl' (insert (fst b, k) (A - {b}))
               else (p - 16, k) \<notin> A \<and> 16 \<le> p \<and> sf_rep st' lo fl' (insert (p - 16, k) A)))))"

lemma command_rep:
  assumes rep: "sf_rep st lo fl A" and b: "(a, n) \<in> A" and pl: "placed st lo"
    and sz: "unat limit \<le> 2 ^ 64 - 16" "unat pref \<le> 2 ^ 64 - 16"
  shows "\<exists>r. sf_priv_allocate st command limit pref (a + 16) 16 = Some r \<and> outcome st lo A (a, n) r
    \<and> (fst (snd r) \<noteq> 0 \<and> \<not> shrink_in_place command \<longrightarrow> unat limit \<le> fst (snd (snd r)))
    \<and> (fst (snd r) \<noteq> 0 \<and> shrink_in_place command \<longrightarrow> unat pref \<le> fst (snd (snd r)) \<and> fst (snd (snd r)) \<le> 16 * n - 16)"
proof -
  let ?none = "\<not> (allocate_new command \<or> expand_fwd command \<or> shrink_in_place command \<or> other_flags command)"
  have nothing: "outcome st lo A (a, n) (st, 0, x, y)" for x y by (simp add: outcome_def)
  consider "?none" | "\<not> ?none" "shrink_in_place command" | "\<not> ?none" "\<not> shrink_in_place command" "limit > pref"
    | "\<not> ?none" "\<not> shrink_in_place command" "\<not> limit > pref" by blast
  then show ?thesis
  proof cases
    case 1
    then have "sf_priv_allocate st command limit pref (a + 16) 16 = Some (st, 0, unat pref, 0)"
      by (simp add: sf_priv_allocate_def)
    then show ?thesis by (intro exI [of _ "(st, 0, unat pref, 0)"]) (simp add: outcome_def)
  next
    case 2
    obtain st' ok rc where s: "shrink sf_algo st (a + 16) limit pref = Some (st', ok, rc)"
      and c: "if ok then \<exists>k fl'. k \<le> n \<and> rc = 16 * k - 16 \<and> sf_rep st' lo fl' (insert (a, k) (A - {(a, n)}))
          \<and> unat (get_rounded_size pref 16 div 16) + 1 \<le> k
          \<and> sf_this st' = sf_this st \<and> sf_size st' = sf_size st \<and> sf_root st' = sf_root st
       else st' = st"
      using sf_shrink_request [OF rep b] by blast
    have e: "sf_priv_allocate st command limit pref (a + 16) 16 = Some (st', if ok then a + 16 else 0, rc, a + 16)"
      using 2 s by (auto simp: sf_priv_allocate_def)
    have "unat pref \<le> rc \<and> rc \<le> 16 * n - 16" if okay: ok
    proof -
      obtain k where k: "k \<le> n" "rc = 16 * k - 16" "unat (get_rounded_size pref 16 div 16) + 1 \<le> k" using c okay by auto
      then have "unat (get_rounded_size pref 16 div 16) \<le> k - 1" by linarith
      then have "unat pref \<le> 16 * (k - 1)" using expand_units [OF sz(2)] by blast
      then show ?thesis using k by (simp add: diff_mult_distrib2)
    qed
    moreover have "outcome st lo A (a, n) (st', if ok then a + 16 else 0, rc, a + 16)"
      using c by (cases ok) (auto simp: outcome_def)
    ultimately show ?thesis using e 2 by auto
  next
    case 3
    then have "sf_priv_allocate st command limit pref (a + 16) 16 = Some (st, 0, 0, 0)"
      by (simp add: sf_priv_allocate_def)
    then show ?thesis by (intro exI [of _ "(st, 0, 0, 0)"]) (simp add: outcome_def)
  next
    case 4
    have lp: "unat limit \<le> unat pref" using 4(3) by (simp add: word_less_nat_alt not_less)
    obtain st' ok rc where x: "(if expand_fwd command then sf_priv_expand st (a + 16) limit pref else Some (st, False, 0))
        = Some (st', ok, rc)"
      and c: "sf_root st' = sf_root st \<and> sf_this st' = sf_this st \<and> sf_size st' = sf_size st
        \<and> (if ok then \<exists>k fl'. n \<le> k \<and> rc = 16 * k - 16 \<and> unat limit \<le> rc
               \<and> sf_rep st' lo fl' (insert (a, k) (A - {(a, n)}))
           else st' = st)"
      using expand_rep [OF rep b pl sz] by (cases "expand_fwd command") auto
    show ?thesis
    proof (cases ok)
      case True
      then have "sf_priv_allocate st command limit pref (a + 16) 16 = Some (st', a + 16, rc, a + 16)"
        using 4 x by (simp add: sf_priv_allocate_def)
      moreover have "outcome st lo A (a, n) (st', a + 16, rc, a + 16)" using c True by (auto simp: outcome_def)
      ultimately show ?thesis using c True 4 by auto
    next
      case False
      then have st: "st' = st" using c by simp
      obtain st2 p rc2 where al: "sf_allocate_branch st limit pref = Some (st2, p, rc2)"
        and c2: "sf_root st2 = sf_root st \<and> sf_this st2 = sf_this st \<and> sf_size st2 = sf_size st
          \<and> (if \<exists>b\<in>set fl. unat limit + 16 \<le> 16 * snd b
             then \<exists>a k fl'. p = a + 16 \<and> rc2 = 16 * k - 16 \<and> (a, k) \<notin> A \<and> unat limit + 16 \<le> 16 * k
               \<and> sf_rep st2 lo fl' (insert (a, k) A)
             else st2 = st \<and> p = 0 \<and> rc2 = 0)"
        using allocate_rep [OF rep lp sz(2)] by blast
      show ?thesis
      proof (cases "allocate_new command")
        case True
        then have e: "sf_priv_allocate st command limit pref (a + 16) 16 = Some (st2, p, rc2, 0)"
          using 4 x False al st by (simp add: sf_priv_allocate_def)
        have "outcome st lo A (a, n) (st2, p, rc2, 0)"
        proof (cases "\<exists>b\<in>set fl. unat limit + 16 \<le> 16 * snd b")
          case fits: True
          then obtain c k fl' where "p = c + 16" "rc2 = 16 * k - 16" "(c, k) \<notin> A" "sf_rep st2 lo fl' (insert (c, k) A)"
            using c2 by auto
          then show ?thesis using c2 by (auto simp: outcome_def intro!: exI [of _ k] exI [of _ fl'])
        qed (use c2 in \<open>auto simp: outcome_def\<close>)
        moreover have "p \<noteq> 0 \<longrightarrow> unat limit \<le> rc2" using c2 by (auto split: if_splits)
        ultimately show ?thesis using e 4 by auto
      next
        case no_new: False
        then have "sf_priv_allocate st command limit pref (a + 16) 16 = Some (st, 0, rc, 0)"
          using 4 x False st by (simp add: sf_priv_allocate_def)
        then show ?thesis by (intro exI [of _ "(st, 0, rc, 0)"]) (simp add: outcome_def)
      qed
    qed
  qed
qed

section \<open>Properties\<close>

text \<open>A segment of 4096 bytes at address 65536, with a header of 64 bytes whose root is 16 bytes in.\<close>

definition sample_heap :: "nat \<Rightarrow> block_ctrl" where
  "sample_heap = (\<lambda>_. \<lparr>bc_next = 0, bc_size = 0\<rparr>)"

definition sample_sf :: seq_fit where
  "sample_sf = sf_construct 64 65536 65552 sample_heap 4096 0"

lemma sample_offset: "priv_first_block_offset 64 65536 0 = 64"
  by (simp add: priv_first_block_offset_def get_rounded_size_def)

lemma sample_rep: "sf_rep sample_sf 65600 [(65600, 252)] {}"
  using construct_rep [of 64 0 65536 4096 65552 sample_heap] by (simp add: sample_offset sample_sf_def sample_heap_def)

lemma sample_place: "sf_this sample_sf = 65536" "sf_size sample_sf = 4096" "sf_root sample_sf = 65552"
  by (simp_all add: sample_sf_def sf_construct_def Let_def)

lemma sample_placed: "sf_end sample_sf = 69632" "placed sample_sf 65600"
proof -
  show e: "sf_end sample_sf = 69632" using end_aligned(2) [of sample_sf] by (simp add: sample_place)
  show "placed sample_sf 65600" by (simp add: placed_def sample_place e)
qed

text \<open>The same segment after an allocation of 100 bytes, which takes 8 units from the front.\<close>

lemma sample_used: "\<exists>st fl. sf_rep st 65600 fl {(65600, 8)} \<and> placed st 65600"
proof -
  obtain st p rc where c: "priv_check_and_allocate sample_sf 8 65552 65600 = (st, p, rc)" by (metis prod_cases3)
  have "sf_rep sample_sf 65600 ([] @ (65600, 252) # []) {}" using sample_rep by simp
  note at = allocate_at [OF this, of 8 st p rc]
  have "sf_rep st 65600 ([] @ left_over 8 (65600, 252) @ []) {(65600, taken 8 252)}"
    "sf_this st = 65536" "sf_size st = 4096" "sf_end st = 69632"
    using at c by (simp_all add: sample_place sample_placed)
  then show ?thesis by (auto simp: placed_def taken_def)
qed

text \<open>
  The constructor of the sequential fit algorithm leaves the whole segment behind the header as one free
  block: the representation holds with no allocated block, \<^verbatim>\<open>check_sanity\<close> and
  \<^verbatim>\<open>all_memory_deallocated\<close> answer true. The memory of the header's \<^verbatim>\<open>m_root.m_size\<close>, which the
  constructor does not write, is assumed to be zero.
\<close>

theorem seq_fit_construct:
  assumes "0 < sz" "sz + extra + 31 < 2 ^ 64" "this_ptr + segment_size < 2 ^ 64 - 16"
    and "0 < this_ptr" "this_ptr \<le> root" "root < this_ptr + sz" "bc_size (heap root) = 0"
    and "priv_first_block_offset sz this_ptr extra + 16 \<le> segment_size"
  shows "let st = sf_construct sz this_ptr root heap segment_size extra;
             lo = this_ptr + priv_first_block_offset sz this_ptr extra
         in sf_rep st lo [(lo, (sf_end st - lo) div 16)] {}
            \<and> check_sanity st = Some True \<and> all_memory_deallocated st \<and> lo mod 16 = 0 \<and> lo < sf_end st
            \<and> this_ptr + sz + extra \<le> lo \<and> sf_end st \<le> this_ptr + segment_size"
proof -
  let ?st = "sf_construct sz this_ptr root heap segment_size extra"
  let ?lo = "this_ptr + priv_first_block_offset sz this_ptr extra"
  have f: "sf_this ?st = this_ptr" "sf_size ?st = segment_size" by (simp_all add: sf_construct_def Let_def)
  note rep = construct_rep [of sz extra this_ptr segment_size root heap, OF assms(1-8)]
  note be = block_ends [of sz extra ?st, unfolded f, OF assms(1,2,3) assms(8)]
  have n: "0 < (segment_size - priv_first_block_offset sz this_ptr extra) div 16"
    using assms(8) by (simp add: div_greater_zero_iff)
  have lt: "?lo < sf_end ?st" using n be(3) by simp
  then have "[(?lo, (sf_end ?st - ?lo) div 16)] = [(?lo, (segment_size - priv_first_block_offset sz this_ptr extra) div 16)]"
    using be(3) by simp
  then have rep': "sf_rep ?st ?lo [(?lo, (sf_end ?st - ?lo) div 16)] {}" using rep by simp
  moreover have "check_sanity ?st = Some True" by (rule sanity_rep [OF rep']) (use be(4) f in simp)
  moreover have "all_memory_deallocated ?st" using all_deallocated_rep [OF rep' lt] by simp
  ultimately show ?thesis using lt be by (simp add: Let_def)
qed

theorem seq_fit_construct_witness:
  "sf_rep sample_sf 65600 [(65600, (sf_end sample_sf - 65600) div 16)] {} \<and> check_sanity sample_sf = Some True"
  using seq_fit_construct [of 64 0 65536 4096 65552 sample_heap]
  by (simp add: sample_offset sample_sf_def Let_def sample_heap_def)

lemma units_for_wraps:
  assumes "unat nbytes > 2 ^ 64 - 16"
  shows "units_for nbytes = 1"
  using get_rounded_size_wraps [OF assms] by (simp add: units_for_eq)

text \<open>
  A request of more than \<open>2 ^ 64 - 16\<close> bytes is not refused: rounding it up to units wraps to zero, and as
  long as any block is free \<^verbatim>\<open>allocate\<close> returns a buffer with room for at most 16 bytes.
\<close>

lemma allocate_wraps:
  assumes rep: "sf_rep st lo fl A" and big: "unat nbytes > 2 ^ 64 - 16"
  shows "\<exists>st' p. sf_allocate st nbytes = Some (st', p) \<and>
    (if fl = [] then p = 0 \<and> st' = st
     else p = fst (hd fl) + 16 \<and> (\<exists>k fl'. k \<le> 2 \<and> (fst (hd fl), k) \<notin> A \<and> sf_rep st' lo fl' (insert (fst (hd fl), k) A)))"
proof -
  obtain st' p rc x where r: "sf_allocate_branch st nbytes nbytes = Some (st', p, rc)"
      "first_fit (units_for nbytes) (units_for nbytes) fl x"
    and c: "case x of None \<Rightarrow> st' = st \<and> p = 0 \<and> rc = 0
       | Some (a, k) \<Rightarrow> p = a + 16 \<and> rc = 16 * k - 16 \<and> (a, k) \<notin> A \<and> sf_root st' = sf_root st
           \<and> sf_end st' = sf_end st \<and> sf_this st' = sf_this st \<and> sf_size st' = sf_size st
           \<and> (\<exists>fl'. sf_rep st' lo fl' (insert (a, k) A))"
    using allocate_branch_rep [OF rep] by blast
  have e: "sf_allocate st nbytes = Some (st', p)"
    using r(1) by (simp add: sf_allocate_def sf_priv_allocate_def only_new_def)
  have pos: "0 < snd y" if "y \<in> set fl" for y using size_bound(2) [OF rep, of y] that by blast
  have "x = (if fl = [] then None else Some (fst (hd fl), taken 1 (snd (hd fl))))"
    using r(2) pos unfolding units_for_wraps [OF big]
  proof cases
    case (fits us n a vs)
    then have "us = []" using pos [of "hd fl"] by (cases us) auto
    then show ?thesis using fits by auto
  next
    case none
    then show ?thesis using pos [of "hd fl"] by (cases fl) auto
  qed auto
  moreover have "taken 1 (snd (hd fl)) \<le> 2" by (simp add: taken_def)
  ultimately show ?thesis using e c by (cases "fl = []") auto
qed

lemma allocate_fits:
  assumes "sf_rep st lo fl A" "unat nbytes \<le> 2 ^ 64 - 16"
  shows "\<exists>st' p. sf_allocate st nbytes = Some (st', p) \<and>
    (if \<exists>b\<in>set fl. unat nbytes + 16 \<le> 16 * snd b
     then \<exists>k fl'. p mod 16 = 0 \<and> lo + 16 \<le> p \<and> p + unat nbytes \<le> sf_end st \<and> unat nbytes + 16 \<le> 16 * k
       \<and> (\<forall>b\<in>A. {p ..< p + unat nbytes} \<inter> bytes b = {})
       \<and> (p - 16, k) \<notin> A \<and> sf_rep st' lo fl' (insert (p - 16, k) A)
     else p = 0 \<and> st' = st)"
proof -
  obtain st' p rc where r: "sf_allocate_branch st nbytes nbytes = Some (st', p, rc)"
    and f: "sf_this st' = sf_this st" "sf_size st' = sf_size st"
    and c: "if \<exists>b\<in>set fl. unat nbytes + 16 \<le> 16 * snd b
       then \<exists>a k fl'. p = a + 16 \<and> rc = 16 * k - 16 \<and> (a, k) \<notin> A \<and> unat nbytes + 16 \<le> 16 * k
         \<and> sf_rep st' lo fl' (insert (a, k) A)
       else st' = st \<and> p = 0 \<and> rc = 0"
    using allocate_rep [OF assms(1) order_refl assms(2)] by blast
  have e: "sf_allocate st nbytes = Some (st', p)"
    using r by (simp add: sf_allocate_def sf_priv_allocate_def only_new_def)
  have end': "sf_end st' = sf_end st" using f by (simp add: sf_end_def priv_block_end_offset_def)
  show ?thesis
  proof (cases "\<exists>b\<in>set fl. unat nbytes + 16 \<le> 16 * snd b")
    case True
    then obtain a k fl' where b: "p = a + 16" "(a, k) \<notin> A" "unat nbytes + 16 \<le> 16 * k"
        "sf_rep st' lo fl' (insert (a, k) A)" using c by auto
    have t: "tiles lo (sf_end st) (set fl' \<union> insert (a, k) A)" using b(4) end' by (simp add: sf_rep_def)
    have d: "{p ..< p + unat nbytes} \<inter> bytes x = {}" if x: "x \<in> A" for x
    proof -
      have "(a, k) \<noteq> x" using x b(2) by metis
      then have "bytes (a, k) \<inter> bytes x = {}" using tilesD(5) [OF t, of "(a, k)" x] x by simp
      moreover have "{p ..< p + unat nbytes} \<subseteq> bytes (a, k)" using b(1,3) by (auto simp: bytes_def)
      ultimately show ?thesis by blast
    qed
    moreover have "p mod 16 = 0" "lo + 16 \<le> p" "p + unat nbytes \<le> sf_end st"
      using tilesD(2-4) [OF t, of "(a, k)"] b(1,3) by simp_all
    moreover have "p - 16 = a" by (simp add: b(1))
    ultimately have "\<exists>k fl'. p mod 16 = 0 \<and> lo + 16 \<le> p \<and> p + unat nbytes \<le> sf_end st \<and> unat nbytes + 16 \<le> 16 * k
       \<and> (\<forall>b\<in>A. {p ..< p + unat nbytes} \<inter> bytes b = {})
       \<and> (p - 16, k) \<notin> A \<and> sf_rep st' lo fl' (insert (p - 16, k) A)"
      using b by (intro exI [of _ k] exI [of _ fl'] conjI ballI) auto
    then show ?thesis using e True by (intro exI [of _ st'] exI [of _ p]) (simp only: if_True simp_thms)
  qed (use c e in auto)
qed

text \<open>
  C13: \<^verbatim>\<open>allocate\<close> always returns. For a request of at most \<open>2 ^ 64 - 16\<close> bytes: if some free block is large enough
  for the request and its control data, the result is a 16-byte aligned buffer inside the segment, at least as
  large as asked for, that overlaps no allocated block, and exactly that block is added to the allocated ones;
  otherwise the result is null and nothing changes. For a larger request the number of units wraps to one: the
  result is the first free block, cut down to at most two units, whatever was asked for, and null only if no
  block is free; the blocks stay consistent, only the buffer is too small.
\<close>

theorem seq_fit_allocate:
  assumes "sf_rep st lo fl A"
  shows "\<exists>st' p. sf_allocate st nbytes = Some (st', p) \<and>
    (if unat nbytes \<le> 2 ^ 64 - 16
     then (if \<exists>b\<in>set fl. unat nbytes + 16 \<le> 16 * snd b
       then \<exists>k fl'. p mod 16 = 0 \<and> lo + 16 \<le> p \<and> p + unat nbytes \<le> sf_end st \<and> unat nbytes + 16 \<le> 16 * k
         \<and> (\<forall>b\<in>A. {p ..< p + unat nbytes} \<inter> bytes b = {})
         \<and> (p - 16, k) \<notin> A \<and> sf_rep st' lo fl' (insert (p - 16, k) A)
       else p = 0 \<and> st' = st)
     else (if fl = [] then p = 0 \<and> st' = st
       else p = fst (hd fl) + 16
         \<and> (\<exists>k fl'. k \<le> 2 \<and> (fst (hd fl), k) \<notin> A \<and> sf_rep st' lo fl' (insert (fst (hd fl), k) A))))"
proof (cases "unat nbytes \<le> 2 ^ 64 - 16")
  case True
  show ?thesis unfolding if_P [OF True] by (rule allocate_fits [OF assms True])
next
  case False
  then show ?thesis unfolding if_not_P [OF False] by (intro allocate_wraps [OF assms]) linarith
qed

theorem seq_fit_allocate_witness:
  "(\<exists>st' p. sf_allocate sample_sf 100 = Some (st', p) \<and>
    (\<exists>k fl'. p mod 16 = 0 \<and> 65616 \<le> p \<and> p + 100 \<le> 69632 \<and> 116 \<le> 16 * k \<and> sf_rep st' 65600 fl' {(p - 16, k)}))
   \<and> (\<exists>st' k fl'. sf_allocate sample_sf (- 1) = Some (st', 65616) \<and> k \<le> 2 \<and> sf_rep st' 65600 fl' {(65600, k)})"
  using seq_fit_allocate [OF sample_rep, of 100] seq_fit_allocate [OF sample_rep, of "- 1"]
  by (auto simp: sample_placed size_t_max_unat)

text \<open>
  C27: Deallocating an allocated block returns, removes exactly that block from the allocated ones and keeps
  the representation; in particular the freed block is joined with its free neighbours, so that no two
  free blocks ever touch. If it was the last one, the whole segment is again one free block and
  \<^verbatim>\<open>all_memory_deallocated\<close> answers true.
\<close>

theorem seq_fit_deallocate:
  assumes "sf_rep st lo fl A" "(a, n) \<in> A" "lo < sf_end st"
  shows "\<exists>st' fl'. sf_deallocate st (a + 16) = Some st' \<and> sf_rep st' lo fl' (A - {(a, n)})
    \<and> sorted_wrt (\<lambda>x y. fst x + 16 * snd x < fst y) fl'
    \<and> (all_memory_deallocated st' \<longleftrightarrow> A = {(a, n)})
    \<and> (A = {(a, n)} \<longrightarrow> fl' = [(lo, (sf_end st - lo) div 16)])"
proof -
  obtain st' where r: "sf_priv_deallocate st (a + 16) = Some st'" "sf_rep st' lo (freed fl (a, n)) (A - {(a, n)})"
    and f: "sf_this st' = sf_this st" "sf_size st' = sf_size st"
    using deallocate_rep [OF assms(1,2)] by blast
  have e: "sf_end st' = sf_end st" using f by (simp add: sf_end_def priv_block_end_offset_def)
  have one: "A - {(a, n)} = {} \<longleftrightarrow> A = {(a, n)}" using assms(2) by blast
  have "sf_deallocate st (a + 16) = Some st'" using r(1) by (simp add: sf_deallocate_def)
  moreover have "all_memory_deallocated st' \<longleftrightarrow> A = {(a, n)}"
    using all_deallocated_rep [OF r(2)] assms(3) e one by simp
  moreover have "freed fl (a, n) = [(lo, (sf_end st - lo) div 16)]" if "A = {(a, n)}"
    using no_live_single [of st' lo "freed fl (a, n)"] r(2) assms(3) e that by simp
  moreover have "sorted_wrt apart (freed fl (a, n))" using r(2) by (simp add: sf_rep_def)
  ultimately show ?thesis using r(2) by (intro exI [of _ st'] exI [of _ "freed fl (a, n)"]) blast
qed

theorem seq_fit_deallocate_witness:
  "\<exists>st st'. (\<exists>fl. sf_rep st 65600 fl {(65600, 8)}) \<and> sf_deallocate st 65616 = Some st' \<and> all_memory_deallocated st'"
proof -
  obtain st fl where u: "sf_rep st 65600 fl {(65600, 8)}" "placed st 65600" using sample_used by blast
  then show ?thesis using seq_fit_deallocate [OF u(1), of 65600 8] by (auto simp: placed_def)
qed

text \<open>
  C28: \<^verbatim>\<open>priv_allocate\<close> with a buffer to reuse, for every combination of flags: it returns; a null result
  changes nothing; if it reports that the buffer is reused, the buffer keeps its address, its block
  has the reported size and every other block is untouched; otherwise exactly one new block was
  allocated. A granted request to expand or allocate has at least the limit size; a granted request to
  shrink keeps at least the preferred size and does not exceed the old size.
\<close>

theorem seq_fit_command:
  assumes "sf_rep st lo fl A" "(a, n) \<in> A" "placed st lo"
    and "unat limit \<le> 2 ^ 64 - 16" "unat pref \<le> 2 ^ 64 - 16"
  shows "\<exists>st' p rc reuse. sf_priv_allocate st command limit pref (a + 16) 16 = Some (st', p, rc, reuse)
    \<and> (if p = 0 then st' = st
       else (\<exists>k fl'. rc = 16 * k - 16 \<and>
              (if reuse \<noteq> 0 then p = a + 16 \<and> sf_rep st' lo fl' (insert (a, k) (A - {(a, n)}))
               else (p - 16, k) \<notin> A \<and> sf_rep st' lo fl' (insert (p - 16, k) A)))
            \<and> (if shrink_in_place command then unat pref \<le> rc \<and> rc \<le> 16 * n - 16 else unat limit \<le> rc))"
proof -
  obtain st' p rc reuse where r: "sf_priv_allocate st command limit pref (a + 16) 16 = Some (st', p, rc, reuse)"
    and o: "outcome st lo A (a, n) (st', p, rc, reuse)"
    and c: "p \<noteq> 0 \<and> \<not> shrink_in_place command \<longrightarrow> unat limit \<le> rc"
      "p \<noteq> 0 \<and> shrink_in_place command \<longrightarrow> unat pref \<le> rc \<and> rc \<le> 16 * n - 16"
    using command_rep [OF assms, of command] by auto
  have "if p = 0 then st' = st
       else (\<exists>k fl'. rc = 16 * k - 16 \<and>
              (if reuse \<noteq> 0 then p = a + 16 \<and> sf_rep st' lo fl' (insert (a, k) (A - {(a, n)}))
               else (p - 16, k) \<notin> A \<and> sf_rep st' lo fl' (insert (p - 16, k) A)))
            \<and> (if shrink_in_place command then unat pref \<le> rc \<and> rc \<le> 16 * n - 16 else unat limit \<le> rc)"
  proof (cases "p = 0")
    case False
    then obtain k fl' where k: "rc = 16 * k - 16"
        "if reuse \<noteq> 0 then p = a + 16 \<and> sf_rep st' lo fl' (insert (a, k) (A - {(a, n)}))
         else (p - 16, k) \<notin> A \<and> 16 \<le> p \<and> sf_rep st' lo fl' (insert (p - 16, k) A)"
      using o unfolding outcome_def prod.case if_not_P [OF False] fst_conv by (elim conjE exE)
    then have "\<exists>k fl'. rc = 16 * k - 16 \<and>
        (if reuse \<noteq> 0 then p = a + 16 \<and> sf_rep st' lo fl' (insert (a, k) (A - {(a, n)}))
         else (p - 16, k) \<notin> A \<and> sf_rep st' lo fl' (insert (p - 16, k) A))"
      by (intro exI [of _ k] exI [of _ fl']) (simp split: if_splits)
    then show ?thesis using False c by (simp only: if_False simp_thms) (simp split: if_splits)
  qed (use o in \<open>simp add: outcome_def\<close>)
  then show ?thesis using r by (intro exI [of _ st'] exI [of _ p] exI [of _ rc] exI [of _ reuse] conjI)
qed

definition only_expand :: allocation_type where
  "only_expand = \<lparr>allocate_new = False, expand_fwd = True, expand_bwd = False, shrink_in_place = False,
     other_flags = False\<rparr>"

theorem seq_fit_command_witness:
  "\<exists>st st' p rc reuse. sf_priv_allocate st only_expand 200 300 65616 16 = Some (st', p, rc, reuse)
     \<and> (p = 0 \<longrightarrow> st' = st) \<and> (p \<noteq> 0 \<longrightarrow> 200 \<le> rc)"
proof -
  obtain st fl where u: "sf_rep st 65600 fl {(65600, 8)}" "placed st 65600" using sample_used by blast
  have "\<not> shrink_in_place only_expand" by (simp add: only_expand_def)
  then obtain st' p rc reuse where "sf_priv_allocate st only_expand 200 300 (65600 + 16) 16 = Some (st', p, rc, reuse)"
      "p = 0 \<longrightarrow> st' = st" "p \<noteq> 0 \<longrightarrow> unat (200 :: size_t) \<le> rc"
    using seq_fit_command [OF u(1) _ u(2), of 65600 8 200 300 only_expand] by (auto split: if_splits)
  then show ?thesis by (intro exI [of _ st] exI [of _ st'] exI [of _ p] exI [of _ rc] exI [of _ reuse]) simp
qed

text \<open>
  Over-aligned allocation: for a power of two alignment (and sizes whose request does not overflow) the
  result is null with nothing changed, or a buffer at a multiple of the alignment, at least as large as
  asked for, in a block that did not exist before; what was cut off in front of and behind the buffer is
  free memory again, and no other block has changed.
\<close>

theorem seq_fit_allocate_aligned:
  assumes "sf_rep st lo fl A" "j < 64" "2 * unat nbytes + 2 ^ j + 96 \<le> 2 ^ 64"
  shows "\<exists>st' p. sf_allocate_aligned st nbytes (2 ^ j) = Some (st', p)
    \<and> (p = 0 \<and> st' = st \<or> (\<exists>k fl'. 16 \<le> p \<and> p mod 2 ^ j = 0 \<and> (p - 16, k) \<notin> A
         \<and> sf_rep st' lo fl' (insert (p - 16, k) A) \<and> unat nbytes + 16 \<le> 16 * k))"
proof -
  have big: "2 * unat nbytes + unat (2 ^ j :: size_t) + 96 \<le> 2 ^ 64" using assms(2,3) by (simp add: unat_pow2_size)
  from sf_aligned_request [OF assms(1) refl assms(2) big]
  obtain st' p where r: "sf_allocate_aligned st nbytes (2 ^ j) = Some (st', p)"
    and c: "p = 0 \<and> st' = st \<or> (\<exists>a k fl'. p = a + 16 \<and> p mod 2 ^ j = 0 \<and> (a, k) \<notin> A
         \<and> sf_rep st' lo fl' (insert (a, k) A) \<and> unat nbytes + 16 \<le> 16 * k
         \<and> sf_this st' = sf_this st \<and> sf_size st' = sf_size st \<and> sf_root st' = sf_root st)"
    by (elim exE conjE)
  from c show ?thesis
  proof (elim disjE exE conjE)
    fix a k fl'
    assume "p = a + 16" "p mod 2 ^ j = 0" "(a, k) \<notin> A" "sf_rep st' lo fl' (insert (a, k) A)" "unat nbytes + 16 \<le> 16 * k"
    then have "\<exists>k fl'. 16 \<le> p \<and> p mod 2 ^ j = 0 \<and> (p - 16, k) \<notin> A
         \<and> sf_rep st' lo fl' (insert (p - 16, k) A) \<and> unat nbytes + 16 \<le> 16 * k"
      by (intro exI [of _ k] exI [of _ fl']) simp
    with r show ?thesis by (intro exI [of _ st'] exI [of _ p]) (rule conjI [OF _ disjI2])
  next
    assume "p = 0" "st' = st"
    then show ?thesis using r by simp
  qed
qed

theorem seq_fit_allocate_aligned_witness:
  "\<exists>st' p. sf_allocate_aligned sample_sf 100 (2 ^ 8) = Some (st', p) \<and> (p = 0 \<and> st' = sample_sf \<or> p mod 256 = 0)"
  using seq_fit_allocate_aligned [OF sample_rep, of 8 100] by auto

text \<open>
  \<^verbatim>\<open>grow\<close> makes the new end of the segment available: the allocated blocks stay as they are, the
  representation holds for the larger segment, and the new memory is joined with a free block that
  ends at the old end.
\<close>

theorem seq_fit_grow:
  assumes "sf_rep st lo fl A" "placed st lo" "sf_this st + sf_size st + extra < 2 ^ 64 - 16"
  shows "\<exists>st' fl'. sf_grow st extra = Some st' \<and> sf_rep st' lo fl' A \<and> placed st' lo
     \<and> sf_get_size st' = sf_get_size st + extra
     \<and> sf_end st' = sf_this st + (sf_size st + extra) div 16 * 16 \<and> check_sanity st' = Some True"
proof -
  obtain st' fl' where r: "sf_grow st extra = Some st'" "sf_rep st' lo fl' A" "placed st' lo"
      "sf_this st' = sf_this st" "sf_size st' = sf_size st + extra"
    using grow_rep [OF assms] by blast
  have al: "sf_this st' mod 16 = 0" "sf_this st' + sf_size st' < 2 ^ 64 - 16" "sf_this st' \<le> lo"
    using r(3) by (auto simp: placed_def)
  have e: "sf_end st' = sf_this st + (sf_size st + extra) div 16 * 16" using end_aligned(2) [OF al(1,2)] r(4,5) by simp
  have "sf_end st' \<le> lo + sf_size st'"
    using e al(3) r(4,5) div_times_less_eq_dividend [of "sf_size st + extra" 16] by linarith
  then have "check_sanity st' = Some True" by (rule sanity_rep [OF r(2)])
  then show ?thesis using r e by (intro exI [of _ st'] exI [of _ fl'] conjI) (simp_all add: sf_get_size_def)
qed

theorem seq_fit_grow_witness:
  "\<exists>st' fl'. sf_grow sample_sf 1000 = Some st' \<and> sf_rep st' 65600 fl' {} \<and> sf_get_size st' = 5096"
  using seq_fit_grow [OF sample_rep sample_placed(2), of 1000] by (auto simp: sample_place sf_get_size_def)

section \<open>Sequences of operations\<close>

text \<open>
  The states a program can reach from the constructor, with the blocks it owns: it may allocate any number of
  bytes, allocate with an alignment (a power of two, with \<open>2 * nbytes + alignment + 96 \<le> 2 ^ 64\<close>), issue any
  command on a block it owns (with sizes up to \<open>2 ^ 64 - 16\<close>, which \<^verbatim>\<open>allocation_command\<close> ensures), give back a
  block it owns, grow the segment and shrink it to fit. \<^verbatim>\<open>shrink_to_fit\<close> in an empty segment needs a free block of
  more than two units: with a smaller one, as a first \<^verbatim>\<open>shrink_to_fit\<close> leaves it, the code takes the root of the
  free list for a free block (lemma \<open>shrink_to_fit_small\<close>). The multiple allocations are not among the operations.
\<close>

inductive sf_reach :: "nat \<Rightarrow> seq_fit \<Rightarrow> block set \<Rightarrow> bool" for lo where
  construct: "lo = this_ptr + priv_first_block_offset sz this_ptr extra \<Longrightarrow>
    0 < sz \<Longrightarrow> sz + extra + 31 < 2 ^ 64 \<Longrightarrow> this_ptr + segment_size < 2 ^ 64 - 16 \<Longrightarrow> this_ptr mod 16 = 0 \<Longrightarrow>
    0 < this_ptr \<Longrightarrow> this_ptr \<le> root \<Longrightarrow> root < this_ptr + sz \<Longrightarrow> bc_size (heap root) = 0 \<Longrightarrow>
    priv_first_block_offset sz this_ptr extra + 16 \<le> segment_size \<Longrightarrow>
    sf_reach lo (sf_construct sz this_ptr root heap segment_size extra) {}"
| allocate: "sf_reach lo st A \<Longrightarrow> sf_allocate st nbytes = Some (st', p) \<Longrightarrow>
    sf_reach lo st' (if p = 0 then A else insert (p - 16, size_of st' (p - 16)) A)"
| aligned: "sf_reach lo st A \<Longrightarrow> j < 64 \<Longrightarrow> 2 * unat nbytes + 2 ^ j + 96 \<le> 2 ^ 64 \<Longrightarrow>
    sf_allocate_aligned st nbytes (2 ^ j) = Some (st', p) \<Longrightarrow>
    sf_reach lo st' (if p = 0 then A else insert (p - 16, size_of st' (p - 16)) A)"
| command: "sf_reach lo st A \<Longrightarrow> (a, n) \<in> A \<Longrightarrow> unat limit \<le> 2 ^ 64 - 16 \<Longrightarrow> unat pref \<le> 2 ^ 64 - 16 \<Longrightarrow>
    sf_priv_allocate st cmd limit pref (a + 16) 16 = Some (st', p, rc, reuse) \<Longrightarrow>
    sf_reach lo st'
      (if p = 0 then A
       else insert (p - 16, size_of st' (p - 16)) (if reuse \<noteq> 0 then A - {(a, n)} else A))"
| deallocate: "sf_reach lo st A \<Longrightarrow> (a, n) \<in> A \<Longrightarrow> sf_deallocate st (a + 16) = Some st' \<Longrightarrow>
    sf_reach lo st' (A - {(a, n)})"
| grow: "sf_reach lo st A \<Longrightarrow> sf_this st + sf_size st + extra < 2 ^ 64 - 16 \<Longrightarrow> sf_grow st extra = Some st' \<Longrightarrow>
    sf_reach lo st' A"
| shrink_to_fit: "sf_reach lo st A \<Longrightarrow> (A = {} \<longrightarrow> 2 < size_of st (next_of st (sf_root st))) \<Longrightarrow>
    sf_shrink_to_fit st = Some st' \<Longrightarrow> sf_reach lo st' A"

lemma rep_size: "sf_rep st lo fl A \<Longrightarrow> (a, n) \<in> A \<Longrightarrow> size_of st a = n"
  by (auto simp: sf_rep_def)

lemma placed_keep:
  assumes "placed st lo" "sf_this st' = sf_this st" "sf_size st' = sf_size st"
  shows "placed st' lo"
proof -
  have "sf_end st' = sf_end st" using assms by (simp add: sf_end_def priv_block_end_offset_def)
  then show ?thesis using assms by (simp add: placed_def)
qed

lemma reach_rep:
  assumes "sf_reach lo st A"
  shows "(\<exists>fl. sf_rep st lo fl A) \<and> placed st lo"
  using assms
proof induction
  case (construct this_ptr sz extra segment_size root heap)
  let ?st = "sf_construct sz this_ptr root heap segment_size extra"
  have f: "sf_this ?st = this_ptr" "sf_size ?st = segment_size" by (simp_all add: sf_construct_def Let_def)
  note rep = construct_rep [of sz extra this_ptr segment_size root heap, OF construct(2-4,6-10)]
  note be = block_ends [of sz extra ?st, unfolded f, OF construct(2,3,4) construct(10)]
  have "0 < (segment_size - priv_first_block_offset sz this_ptr extra) div 16"
    using construct(10) by (simp add: div_greater_zero_iff)
  then have "lo < sf_end ?st" using be(3) construct(1) by simp
  then have "placed ?st lo" using construct(1,4,5) by (simp add: placed_def f)
  then show ?case using rep construct(1) by blast
next
  case (allocate st A nbytes st' p)
  then obtain fl where rep: "sf_rep st lo fl A" by blast
  obtain st2 p2 rc x where r: "sf_allocate_branch st nbytes nbytes = Some (st2, p2, rc)"
    and c: "case x of None \<Rightarrow> st2 = st \<and> p2 = 0 \<and> rc = 0
       | Some (a, k) \<Rightarrow> p2 = a + 16 \<and> rc = 16 * k - 16 \<and> (a, k) \<notin> A \<and> sf_root st2 = sf_root st
           \<and> sf_end st2 = sf_end st \<and> sf_this st2 = sf_this st \<and> sf_size st2 = sf_size st
           \<and> (\<exists>fl'. sf_rep st2 lo fl' (insert (a, k) A))"
    using allocate_branch_rep [OF rep] by blast
  have eq: "st2 = st'" "p2 = p" using r allocate.hyps(2) by (simp_all add: sf_allocate_def sf_priv_allocate_def only_new_def)
  show ?case
  proof (cases x)
    case (Some b)
    obtain a k where b: "b = (a, k)" by (cases b)
    then obtain fl' where b': "p = a + 16" "sf_rep st' lo fl' (insert (a, k) A)" "sf_this st' = sf_this st" "sf_size st' = sf_size st"
      using c eq Some by auto
    have "size_of st' a = k" using rep_size [OF b'(2)] by blast
    then show ?thesis using b'(1,2) placed_keep [OF conjunct2 [OF allocate.IH] b'(3,4)] by auto
  qed (use c eq allocate.IH in auto)
next
  case (aligned st A j nbytes st' p)
  then obtain fl where rep: "sf_rep st lo fl A" by blast
  have "2 * unat nbytes + unat (2 ^ j :: size_t) + 96 \<le> 2 ^ 64" using aligned.hyps by (simp add: unat_pow2_size)
  from sf_aligned_request [OF rep refl aligned.hyps(2) this] aligned.hyps(4)
  have "p = 0 \<and> st' = st \<or> (\<exists>a k fl'. p = a + 16 \<and> p mod 2 ^ j = 0 \<and> (a, k) \<notin> A
         \<and> sf_rep st' lo fl' (insert (a, k) A) \<and> unat nbytes + 16 \<le> 16 * k
         \<and> sf_this st' = sf_this st \<and> sf_size st' = sf_size st \<and> sf_root st' = sf_root st)"
    by (elim exE conjE) (simp only: option.inject prod.inject)
  then show ?case
  proof (elim disjE exE conjE)
    fix a k fl'
    assume a: "p = a + 16" and r: "sf_rep st' lo fl' (insert (a, k) A)" and k: "sf_this st' = sf_this st" "sf_size st' = sf_size st"
    have "size_of st' a = k" using rep_size [OF r] by blast
    then show ?thesis using a r placed_keep [OF conjunct2 [OF aligned.IH] k] by auto
  qed (use aligned.IH in auto)
next
  case (command st A a n limit pref cmd st' p rc reuse)
  then obtain fl where rep: "sf_rep st lo fl A" and pl: "placed st lo" by blast
  have o: "outcome st lo A (a, n) (st', p, rc, reuse)"
    using command_rep [OF rep command.hyps(2) pl command.hyps(3,4), of cmd] command.hyps(5) by auto
  show ?case
  proof (cases "p = 0")
    case False
    then obtain k fl' where k: "sf_this st' = sf_this st" "sf_size st' = sf_size st"
        "if reuse \<noteq> 0 then p = a + 16 \<and> sf_rep st' lo fl' (insert (a, k) (A - {(a, n)}))
         else (p - 16, k) \<notin> A \<and> 16 \<le> p \<and> sf_rep st' lo fl' (insert (p - 16, k) A)"
      using o unfolding outcome_def prod.case if_not_P [OF False] fst_conv by (elim conjE exE)
    have "sf_rep st' lo fl' (insert (p - 16, k) (if reuse \<noteq> 0 then A - {(a, n)} else A))"
      using k(3) by (cases "reuse \<noteq> 0") simp_all
    moreover from rep_size [OF this] have "size_of st' (p - 16) = k" by blast
    ultimately show ?thesis using False placed_keep [OF pl k(1,2)] by auto
  qed (use o rep pl in \<open>auto simp: outcome_def\<close>)
next
  case (deallocate st A a n st')
  then obtain fl where rep: "sf_rep st lo fl A" by blast
  show ?case using deallocate_rep [OF rep deallocate.hyps(2)] deallocate.hyps(3) deallocate.IH placed_keep [of st lo st']
    by (auto simp: sf_deallocate_def)
next
  case (grow st A extra st')
  then obtain fl where rep: "sf_rep st lo fl A" and pl: "placed st lo" by blast
  show ?case using grow_rep [OF rep pl grow.hyps(2)] grow.hyps(3) by auto
next
  case (shrink_to_fit st A st')
  then obtain fl where rep: "sf_rep st lo fl A" and pl: "placed st lo" by blast
  show ?case using sf_shrink_to_fit_rep [OF rep pl] shrink_to_fit.hyps(2,3) by auto
qed

text \<open>
  C1: After any sequence of allocations (of any size), aligned allocations, commands on an owned block,
  deallocations, \<^verbatim>\<open>grow\<close> and \<^verbatim>\<open>shrink_to_fit\<close> from the constructor, with the bounds of \<^const>\<open>sf_reach\<close> (in an empty
  segment \<^verbatim>\<open>shrink_to_fit\<close> only while the free block has more than two units; no multiple allocation), the blocks the program owns are pairwise disjoint,
  16-byte aligned and inside the segment, the counter of allocated bytes is the sum of their sizes,
  \<^verbatim>\<open>check_sanity\<close> answers true, and \<^verbatim>\<open>all_memory_deallocated\<close> answers true exactly when the program
  owns nothing.
\<close>

theorem seq_fit_reachable_sane:
  assumes "sf_reach lo st A"
  shows "pairwise (\<lambda>x y. bytes x \<inter> bytes y = {}) A
    \<and> (\<forall>b\<in>A. fst b mod 16 = 0 \<and> lo \<le> fst b \<and> fst b + 16 * snd b \<le> sf_this st + sf_size st)
    \<and> m_allocated st = 16 * (\<Sum>b\<in>A. snd b)
    \<and> check_sanity st = Some True \<and> (all_memory_deallocated st \<longleftrightarrow> A = {})"
proof -
  obtain fl where rep: "sf_rep st lo fl A" and pl: "placed st lo" using reach_rep [OF assms] by blast
  have t: "tiles lo (sf_end st) (set fl \<union> A)" and acc: "m_allocated st = 16 * (\<Sum>b\<in>A. snd b)"
    using rep by (auto simp: sf_rep_def)
  have al: "sf_this st mod 16 = 0" "sf_this st + sf_size st < 2 ^ 64 - 16" "sf_this st \<le> lo" "lo < sf_end st"
    using pl by (auto simp: placed_def)
  have e: "sf_end st \<le> sf_this st + sf_size st"
    using end_aligned(2) [OF al(1,2)] div_times_less_eq_dividend [of "sf_size st" 16] by linarith
  have "pairwise (\<lambda>x y. bytes x \<inter> bytes y = {}) A"
    using t by (auto simp: tiles_def intro: pairwise_subset)
  moreover have "fst b mod 16 = 0 \<and> lo \<le> fst b \<and> fst b + 16 * snd b \<le> sf_this st + sf_size st" if "b \<in> A" for b
    using tilesD(2-4) [OF t, of b] that e by simp
  moreover have "check_sanity st = Some True" by (rule sanity_rep [OF rep]) (use e al(3) in simp)
  moreover have "all_memory_deallocated st \<longleftrightarrow> A = {}" by (rule all_deallocated_rep [OF rep al(4)])
  ultimately show ?thesis using acc by blast
qed

theorem seq_fit_reachable_sane_witness:
  "\<exists>st p st'. sf_allocate sample_sf 100 = Some (st, p) \<and> sf_shrink_to_fit st = Some st' \<and> check_sanity st' = Some True
     \<and> \<not> all_memory_deallocated st' \<and> p + 100 \<le> sf_this st' + sf_size st' \<and> m_allocated st' = 16 * size_of st (p - 16)"
proof -
  have r: "sf_reach 65600 sample_sf {}"
    unfolding sample_sf_def by (rule sf_reach.construct) (simp_all add: sample_offset sample_heap_def)
  obtain st p k fl where al: "sf_allocate sample_sf 100 = Some (st, p)" "65616 \<le> p" "116 \<le> 16 * k" "sf_rep st 65600 fl {(p - 16, k)}"
    using allocate_fits [OF sample_rep, of 100] by (auto simp: sample_placed)
  have p: "p \<noteq> 0" and k: "size_of st (p - 16) = k" using al(2) rep_size [OF al(4)] by auto
  have r1: "sf_reach 65600 st {(p - 16, k)}" using sf_reach.allocate [OF r al(1)] p k by simp
  have pl: "placed st 65600" using reach_rep [OF r1] by blast
  obtain st' where s: "sf_shrink_to_fit st = Some st'" using sf_shrink_to_fit_rep [OF al(4) pl] by auto
  have r2: "sf_reach 65600 st' {(p - 16, k)}" using sf_reach.shrink_to_fit [OF r1 _ s] by simp
  from seq_fit_reachable_sane [OF r2] have "check_sanity st' = Some True \<and> \<not> all_memory_deallocated st'
      \<and> p + 100 \<le> sf_this st' + sf_size st' \<and> m_allocated st' = 16 * size_of st (p - 16)"
    using al(2,3) k by auto
  then show ?thesis using al(1) s by blast
qed

section \<open>Boundary behaviour\<close>

lemma zero_loop_seg:
  assumes "seg st p (b # fl) (sf_root st)" "\<forall>x\<in>set (b # fl). fst x \<noteq> sf_root st \<and> 0 < snd x \<and> snd x * 16 < 2 ^ 64"
  shows "zero_loop st p = Some (map (\<lambda>x. (fst x + 16, snd x * 16 - 16)) (b # fl))"
  using assms
proof (induction fl arbitrary: p b)
  case Nil
  then show ?case
    by (subst zero_loop.simps) (auto simp: get_user_bytes_nat)
next
  case (Cons c fl)
  have s: "p = fst b" "size_of st p = snd b" "seg st (next_of st p) (c # fl) (sf_root st)" using Cons.prems(1) by auto
  have "zero_loop st (next_of st p) = Some (map (\<lambda>x. (fst x + 16, snd x * 16 - 16)) (c # fl))"
    using Cons.IH [OF s(3)] Cons.prems(2) by auto
  moreover have "next_of st p \<noteq> sf_root st" using s(3) Cons.prems(2) by auto
  moreover have "get_user_bytes (sf_heap st p) = snd b * 16 - 16" using Cons.prems(2) s(2) by (simp add: get_user_bytes_nat)
  ultimately show ?case using s(1) by (subst zero_loop.simps) (simp add: Let_def)
qed

text \<open>
  \<^verbatim>\<open>zero_free_memory\<close> clears exactly the user part of every free block when some memory is free. When
  none is, it takes the list's root for a free block: the root's size is zero, the number of its user
  bytes wraps, and the call asks to clear \<open>2 ^ 64 - 16\<close> bytes from behind the root.
\<close>

theorem seq_fit_zero_free_memory:
  assumes "sf_rep st lo fl A"
  shows "zero_free_memory st =
    Some (if fl = [] then [(sf_root st + 16, 2 ^ 64 - 16)] else map (\<lambda>b. (fst b + 16, snd b * 16 - 16)) fl)"
proof (cases fl)
  case Nil
  have "next_of st (sf_root st) = sf_root st" "size_of st (sf_root st) = 0" using assms Nil by (auto simp: sf_rep_def)
  moreover have "unat (- 16 :: size_t) = 2 ^ 64 - 16" by simp
  ultimately show ?thesis
    using Nil by (simp add: zero_free_memory_def zero_loop.simps get_user_bytes_def)
next
  case (Cons b bs)
  have "seg st (next_of st (sf_root st)) (b # bs) (sf_root st)" using assms unfolding Cons sf_rep_def by (elim conjE)
  moreover have "fst x \<noteq> sf_root st \<and> 0 < snd x \<and> snd x * 16 < 2 ^ 64" if "x \<in> set (b # bs)" for x
    using sf_rep_addresses(2) [OF assms, of x] size_bound [OF assms, of x] that Cons by auto
  ultimately have "zero_loop st (next_of st (sf_root st)) = Some (map (\<lambda>x. (fst x + 16, snd x * 16 - 16)) (b # bs))"
    by (intro zero_loop_seg) blast+
  then show ?thesis unfolding zero_free_memory_def Cons by simp
qed

theorem seq_fit_zero_free_memory_witness: "zero_free_memory sample_sf = Some [(65616, 4016)]"
  using seq_fit_zero_free_memory [OF sample_rep] by simp

end
