(* ===== verification/Block_Header.thy ===== *)
theory Block_Header
  imports Arith_Utils
begin

text \<open>
  The memory of a segment as bytes, and the control data in front of and behind every object that the segment
  manager constructs: \<^verbatim>\<open>block_header\<close> of detail/segment\_manager\_helper.hpp (layout version 2, the default). An object
  with a name is stored as

    front space, index node, block header (8 bytes), value, padding, length of the name (2 bytes), name, 0

  and one without a name as front space, block header, value. Sizes are 64-bit words, addresses naturals. The
  character type is \<^verbatim>\<open>char\<close>, and words are stored with the least significant byte first.
\<close>

section \<open>Bytes\<close>

type_synonym bytes = "nat \<Rightarrow> byte"

definition get_bytes :: "bytes \<Rightarrow> nat \<Rightarrow> nat \<Rightarrow> byte list" where
  "get_bytes m a n = map m [a..<a + n]"

definition put_bytes :: "bytes \<Rightarrow> nat \<Rightarrow> byte list \<Rightarrow> bytes" where
  "put_bytes m a bs = (\<lambda>x. if a \<le> x \<and> x < a + length bs then bs ! (x - a) else m x)"

primrec le_bytes :: "nat \<Rightarrow> nat \<Rightarrow> byte list" where
  "le_bytes 0 v = []"
| "le_bytes (Suc n) v = of_nat v # le_bytes n (v div 256)"

primrec le_value :: "byte list \<Rightarrow> nat" where
  "le_value [] = 0"
| "le_value (b # bs) = unat b + 256 * le_value bs"

text \<open>\<^verbatim>\<open>std::char_traits<char>::length\<close>; without a terminator it does not return.\<close>

partial_function (option) char_traits_length :: "bytes \<Rightarrow> nat \<Rightarrow> nat option" where
  "char_traits_length m p =
     (if m p = 0 then Some 0
      else Option.bind (char_traits_length m (p + 1)) (\<lambda>n. Some (n + 1)))"

section \<open>Kinds of objects and sizes of types\<close>

datatype instance_type = anonymous_type | named_type | unique_type | max_allocation_type

fun instance_code :: "instance_type \<Rightarrow> byte" where
  "instance_code anonymous_type = 0"
| "instance_code named_type = 1"
| "instance_code unique_type = 2"
| "instance_code max_allocation_type = 3"

definition instance_of_code :: "byte \<Rightarrow> instance_type" where
  "instance_of_code c = (if c = 0 then anonymous_type else if c = 1 then named_type
     else if c = 2 then unique_type else max_allocation_type)"

record extent =
  sizeof :: size_t
  alignof :: size_t

section \<open>Offsets known at compile time\<close>

text \<open>
  \<^verbatim>\<open>sizeof(block_header)\<close> and its alignment are 8. The static assertion in \<^verbatim>\<open>ct_rounded_size\<close> holds for every
  type that compiles, so its value is the rounded size.
\<close>

definition sizeof_block_header :: size_t where
  "sizeof_block_header = 8"

definition sm_between_headers :: "extent \<Rightarrow> size_t" where
  "sm_between_headers H = sizeof H + get_rounded_size sizeof_block_header (alignof H) - sizeof_block_header"

definition both_headers :: "extent \<Rightarrow> size_t" where
  "both_headers H = sm_between_headers H + sizeof_block_header"

definition total_prefix_with_header :: "size_t \<Rightarrow> extent \<Rightarrow> size_t" where
  "total_prefix_with_header TypeAlignment H = get_rounded_size (both_headers H) TypeAlignment"

definition block_header_prefix_with_header :: "size_t \<Rightarrow> extent \<Rightarrow> size_t" where
  "block_header_prefix_with_header TypeAlignment H = total_prefix_with_header TypeAlignment H - sizeof_block_header"

definition front_space_with_header :: "size_t \<Rightarrow> extent \<Rightarrow> size_t" where
  "front_space_with_header TypeAlignment H = total_prefix_with_header TypeAlignment H - both_headers H"

definition block_header_prefix_without_header :: "size_t \<Rightarrow> size_t" where
  "block_header_prefix_without_header TypeAlignment =
     get_rounded_size sizeof_block_header TypeAlignment - sizeof_block_header"

definition front_space_without_header :: "size_t \<Rightarrow> size_t" where
  "front_space_without_header TypeAlignment = block_header_prefix_without_header TypeAlignment"

section \<open>The header\<close>

record block_header =
  m_alloc_type :: "2 word"
  m_value_bytes :: "62 word"

definition block_header_ctor :: "size_t \<Rightarrow> byte \<Rightarrow> block_header" where
  "block_header_ctor val_bytes al_type =
     \<lparr>m_alloc_type = ucast (al_type AND 3), m_value_bytes = ucast (val_bytes AND drop_bit 2 (NOT 0))\<rparr>"

definition value_bytes :: "block_header \<Rightarrow> size_t" where
  "value_bytes h = ucast (m_value_bytes h)"

definition alloc_type :: "block_header \<Rightarrow> byte" where
  "alloc_type h = ucast (m_alloc_type h)"

definition value_offset :: size_t where
  "value_offset = sizeof_block_header"

definition name_length_offset :: "block_header \<Rightarrow> size_t" where
  "name_length_offset h = value_offset + get_rounded_size (value_bytes h) 2"

definition name_offset :: "block_header \<Rightarrow> size_t" where
  "name_offset h = get_rounded_size (name_length_offset h + 2) 1"

definition total_anonymous_size :: "size_t \<Rightarrow> block_header \<Rightarrow> size_t" where
  "total_anonymous_size TypeAlignment h =
     block_header_prefix_without_header TypeAlignment + value_offset + value_bytes h"

definition total_named_size_with_header :: "size_t \<Rightarrow> extent \<Rightarrow> block_header \<Rightarrow> size_t \<Rightarrow> size_t" where
  "total_named_size_with_header TypeAlignment H h namelen =
     block_header_prefix_with_header TypeAlignment H + name_offset h + (namelen + 1) * 1"

text \<open>The bits of the header: the kind in the two lowest, the size in the others.\<close>

definition header_code :: "block_header \<Rightarrow> nat" where
  "header_code h = unat (m_alloc_type h) + 4 * unat (m_value_bytes h)"

definition header_of_code :: "nat \<Rightarrow> block_header" where
  "header_of_code v = \<lparr>m_alloc_type = of_nat v, m_value_bytes = of_nat (v div 4)\<rparr>"

definition store_header :: "bytes \<Rightarrow> nat \<Rightarrow> block_header \<Rightarrow> bytes" where
  "store_header m a h = put_bytes m a (le_bytes 8 (header_code h))"

definition header_at :: "bytes \<Rightarrow> nat \<Rightarrow> block_header" where
  "header_at m a = header_of_code (le_value (get_bytes m a 8))"

definition store_name_length :: "bytes \<Rightarrow> nat \<Rightarrow> 16 word \<Rightarrow> bytes" where
  "store_name_length m a namelen =
     put_bytes m (a + unat (name_length_offset (header_at m a))) (le_bytes 2 (unat namelen))"

definition name_length :: "bytes \<Rightarrow> nat \<Rightarrow> 16 word" where
  "name_length m a =
     (if m_alloc_type (header_at m a) = ucast (instance_code anonymous_type) then 0
      else of_nat (le_value (get_bytes m (a + unat (name_length_offset (header_at m a))) 2)))"

definition name_ptr :: "bytes \<Rightarrow> nat \<Rightarrow> nat" where
  "name_ptr m a = a + unat (name_offset (header_at m a))"

definition value_ptr :: "nat \<Rightarrow> nat" where
  "value_ptr a = a + unat value_offset"

definition block_header_from_value :: "nat \<Rightarrow> nat" where
  "block_header_from_value v = v - unat value_offset"

definition from_first_header :: "extent \<Rightarrow> nat \<Rightarrow> nat" where
  "from_first_header H a = a + unat (sm_between_headers H)"

definition to_first_header :: "extent \<Rightarrow> nat \<Rightarrow> nat" where
  "to_first_header H a = a - unat (sm_between_headers H)"

text \<open>The characters that the index compares: as many as the stored length says.\<close>

definition name_at :: "bytes \<Rightarrow> nat \<Rightarrow> byte list" where
  "name_at m a = get_bytes m (name_ptr m a) (unat (name_length m a))"

section \<open>Reading and writing bytes\<close>

named_theorems byte_rw \<open>reading bytes after a write\<close>

lemma length_get_bytes [simp]: "length (get_bytes m a n) = n"
  by (simp add: get_bytes_def)

lemma nth_get_bytes [simp]: "i < n \<Longrightarrow> get_bytes m a n ! i = m (a + i)"
  by (simp add: get_bytes_def)

lemma get_bytes_eqI: "(\<And>x. a \<le> x \<Longrightarrow> x < a + n \<Longrightarrow> m x = m' x) \<Longrightarrow> get_bytes m a n = get_bytes m' a n"
  by (simp add: get_bytes_def)

lemma get_put_same [byte_rw]: "n = length bs \<Longrightarrow> get_bytes (put_bytes m a bs) a n = bs"
  by (simp add: list_eq_iff_nth_eq put_bytes_def)

lemma get_put_other [byte_rw]: "a + n \<le> b \<or> b + length bs \<le> a \<Longrightarrow> get_bytes (put_bytes m b bs) a n = get_bytes m a n"
  by (rule get_bytes_eqI) (auto simp: put_bytes_def)

lemma put_bytes_outside: "x < a \<or> a + length bs \<le> x \<Longrightarrow> put_bytes m a bs x = m x"
  by (auto simp: put_bytes_def)

lemma length_le_bytes [simp]: "length (le_bytes n v) = n"
  by (induction n arbitrary: v) auto

lemma le_value_bytes: "v < 256 ^ n \<Longrightarrow> le_value (le_bytes n v) = v"
proof (induction n arbitrary: v)
  case (Suc n)
  then have "v div 256 < 256 ^ n" by (simp add: div_less_iff_less_mult mult.commute)
  then show ?case using Suc.IH by (simp add: unat_of_nat)
qed simp

lemma char_traits_length_at:
  "get_bytes m p (Suc n) = s @ [0] \<Longrightarrow> 0 \<notin> set s \<Longrightarrow> char_traits_length m p = Some n"
proof (induction n arbitrary: p s)
  case 0
  then have "s = []" by (cases s) (auto dest: arg_cong [where f = length])
  then show ?case using 0 by (subst char_traits_length.simps) (simp add: get_bytes_def)
next
  case (Suc n)
  have "length s = Suc n" using arg_cong [OF Suc.prems(1), of length] by simp
  then obtain c t where s: "s = c # t" by (cases s) auto
  have u: "get_bytes m p (Suc (Suc n)) = m p # get_bytes m (p + 1) (Suc n)"
    by (simp add: get_bytes_def upt_conv_Cons del: upt_Suc)
  have "char_traits_length m (p + 1) = Some n" using Suc.prems Suc.IH [of "p + 1" t] unfolding u s by simp
  moreover have "m p \<noteq> 0" using Suc.prems unfolding u s by auto
  ultimately show ?case by (subst char_traits_length.simps) simp
qed

section \<open>The header is read as it was written\<close>

lemma header_code_bound: "header_code h < 256 ^ 8"
proof -
  have "unat (m_alloc_type h) < 2 ^ 2" "unat (m_value_bytes h) < 2 ^ 62"
    by (rule order_less_le_trans [OF unsigned_less], simp)+
  then show ?thesis by (simp add: header_code_def)
qed

lemma header_of_code [simp]: "header_of_code (header_code h) = h"
proof -
  have a: "unat (m_alloc_type h) < 4" by (rule order_less_le_trans [OF unsigned_less]) simp
  have z: "(of_nat (4 * n) :: 2 word) = 0" for n
    by (simp add: word_of_nat_eq_0_iff del: of_nat_mult)
  have "(of_nat (header_code h) :: 2 word) = m_alloc_type h" unfolding header_code_def of_nat_add z by simp
  moreover have "header_code h div 4 = unat (m_value_bytes h)" using a by (simp add: header_code_def)
  ultimately show ?thesis by (simp add: header_of_code_def)
qed

lemma header_at_store [simp]: "header_at (store_header m a h) a = h"
  using header_code_bound [of h] by (simp add: header_at_def store_header_def get_put_same le_value_bytes)

lemma header_at_eqI: "(\<And>x. a \<le> x \<Longrightarrow> x < a + 8 \<Longrightarrow> m x = m' x) \<Longrightarrow> header_at m a = header_at m' a"
  by (simp add: header_at_def get_bytes_eqI [of a 8 m m'])

lemma value_bytes_ctor: "unat n < 2 ^ 62 \<Longrightarrow> value_bytes (block_header_ctor n k) = n"
proof -
  assume "unat n < 2 ^ 62"
  then have "take_bit 62 n = n" by (simp add: take_bit_eq_mod word_of_nat_unat_eq unat_mod unat_pow2_size)
  moreover have "value_bytes (block_header_ctor n k) = take_bit 62 (n AND drop_bit 2 (NOT 0))"
    by (simp add: value_bytes_def block_header_ctor_def unsigned_ucast_eq)
  moreover have "(drop_bit 2 (NOT 0) :: size_t) = mask 62"
    by (rule bit_word_eqI) (auto simp: bit_simps)
  ultimately show ?thesis by (simp flip: take_bit_eq_mask)
qed

lemma alloc_type_ctor [simp]:
  "instance_of_code (alloc_type (block_header_ctor n (instance_code k))) = k"
  by (cases k) (simp_all add: alloc_type_def block_header_ctor_def instance_of_code_def)

section \<open>The offsets on the naturals\<close>

definition header_extent_ok :: "extent \<Rightarrow> bool" where
  "header_extent_ok H \<longleftrightarrow> alignof H = 8 \<and> unat (sizeof H) mod 8 = 0 \<and> unat (sizeof H) < 2 ^ 16"

lemma rounded_po2:
  assumes "unat x + 2 ^ j \<le> 2 ^ 64" "j < 64"
  defines "R \<equiv> unat (get_rounded_size x (2 ^ j))"
  shows "unat x \<le> R" "R < unat x + 2 ^ j" "R mod 2 ^ j = 0"
proof -
  have "unat x \<le> R \<and> R < unat x + 2 ^ j \<and> R mod 2 ^ j = 0"
  proof (cases "x = 0")
    case True
    then show ?thesis by (simp add: R_def round_zero_po2)
  next
    case False
    note p = unat_pow2_size [OF assms(2)]
    have "(2 ^ j :: size_t) \<noteq> 0" using p by (metis unat_0 power_not_zero zero_neq_numeral)
    then have "R = ((unat x - 1) div 2 ^ j + 1) * 2 ^ j"
      unfolding R_def using get_rounded_size_nat [OF False, of "2 ^ j"] assms(1) by (simp add: p)
    moreover have "0 < unat x" using False by (simp add: unat_gt_0)
    ultimately show ?thesis using round_up_nat [of "2 ^ j" "unat x"] by simp
  qed
  then show "unat x \<le> R" "R < unat x + 2 ^ j" "R mod 2 ^ j = 0" by blast+
qed

lemma between_headers_nat: "header_extent_ok H \<Longrightarrow> sm_between_headers H = sizeof H"
  by (simp add: header_extent_ok_def sm_between_headers_def sizeof_block_header_def get_rounded_size_def)

lemma named_prefix_nat:
  assumes H: "header_extent_ok H" and j: "TA = 2 ^ j" "j < 32"
  defines "P \<equiv> unat (total_prefix_with_header TA H)"
  shows "P mod 2 ^ j = 0" "unat (sizeof H) + 8 \<le> P" "P < unat (sizeof H) + 8 + 2 ^ j"
    "unat (block_header_prefix_with_header TA H) = P - 8"
    "unat (front_space_with_header TA H) = P - 8 - unat (sizeof H)"
proof -
  have s: "unat (sizeof H) < 2 ^ 16" using H by (simp add: header_extent_ok_def)
  have b: "both_headers H = sizeof H + 8" using between_headers_nat [OF H] by (simp add: both_headers_def sizeof_block_header_def)
  have ub: "unat (sizeof H + 8) = unat (sizeof H) + 8" using s by (subst unat_add_lem') simp_all
  have "(2::nat) ^ j \<le> 2 ^ 31" using j(2) by (intro power_increasing) auto
  then have lim: "unat (sizeof H + 8) + 2 ^ j \<le> 2 ^ 64" unfolding ub using s by simp
  have j64: "j < 64" using j(2) by simp
  note R = rounded_po2 [OF lim j64, folded j(1) b, folded total_prefix_with_header_def P_def, unfolded b ub j(1)]
  then show "P mod 2 ^ j = 0" "unat (sizeof H) + 8 \<le> P" "P < unat (sizeof H) + 8 + 2 ^ j" by blast+
  show "unat (block_header_prefix_with_header TA H) = P - 8"
    using R(1) by (simp add: block_header_prefix_with_header_def sizeof_block_header_def unat_sub word_le_nat_alt P_def)
  show "unat (front_space_with_header TA H) = P - 8 - unat (sizeof H)"
    using R(1) by (simp add: front_space_with_header_def b unat_sub word_le_nat_alt P_def ub)
qed

lemma anonymous_prefix_nat:
  assumes j: "TA = 2 ^ j" "j < 32"
  defines "A \<equiv> unat (block_header_prefix_without_header TA)"
  shows "(A + 8) mod 2 ^ j = 0" "A < 2 ^ j"
proof -
  have "(2::nat) ^ j \<le> 2 ^ 31" using j(2) by (intro power_increasing) auto
  then have lim: "unat (8 :: size_t) + 2 ^ j \<le> 2 ^ 64" by simp
  have j64: "j < 64" using j(2) by simp
  note R = rounded_po2 [OF lim j64, folded j(1)]
  then have "A + 8 = unat (get_rounded_size 8 TA)"
    by (simp add: A_def block_header_prefix_without_header_def sizeof_block_header_def unat_sub word_le_nat_alt)
  then show "(A + 8) mod 2 ^ j = 0" "A < 2 ^ j" using R unfolding j(1) by simp_all
qed

lemma name_offset_nat:
  assumes "unat (value_bytes h) < 2 ^ 62"
  shows "8 + unat (value_bytes h) \<le> unat (name_length_offset h)" "unat (name_length_offset h) \<le> unat (value_bytes h) + 9"
    "unat (name_offset h) = unat (name_length_offset h) + 2"
proof -
  let ?v = "unat (value_bytes h)" and ?R = "get_rounded_size (value_bytes h) 2"
  have R: "?v \<le> unat ?R" "unat ?R < ?v + 2" using rounded_po2 [of "value_bytes h" 1] assms by simp_all
  have n: "unat (name_length_offset h) = 8 + unat ?R"
    using R assms by (simp add: name_length_offset_def value_offset_def sizeof_block_header_def unat_add_lem')
  then show "8 + ?v \<le> unat (name_length_offset h)" "unat (name_length_offset h) \<le> ?v + 9" using R by simp_all
  have "name_offset h = name_length_offset h + 2" by (simp add: name_offset_def get_rounded_size_def)
  then show "unat (name_offset h) = unat (name_length_offset h) + 2" using n R assms by (simp add: unat_add_lem')
qed

lemma total_size_nat:
  assumes j: "TA = 2 ^ j" "j < 32" and v: "unat (value_bytes h) < 2 ^ 62"
  shows "unat (total_anonymous_size TA h) = unat (block_header_prefix_without_header TA) + 8 + unat (value_bytes h)"
    and "header_extent_ok H \<Longrightarrow> unat n < 2 ^ 16 \<Longrightarrow> unat (total_named_size_with_header TA H h n) =
      unat (block_header_prefix_with_header TA H) + unat (name_offset h) + unat n + 1"
proof -
  have p: "(2::nat) ^ j \<le> 2 ^ 31" using j(2) by (intro power_increasing) auto
  note A = anonymous_prefix_nat [OF j]
  have "unat (block_header_prefix_without_header TA + 8) = unat (block_header_prefix_without_header TA) + 8"
    using A(2) p by (subst unat_add_lem') simp_all
  then show "unat (total_anonymous_size TA h) = unat (block_header_prefix_without_header TA) + 8 + unat (value_bytes h)"
    unfolding total_anonymous_size_def value_offset_def sizeof_block_header_def
    using A(2) p v by (subst unat_add_lem') simp_all
  assume H: "header_extent_ok H" and n: "unat n < 2 ^ 16"
  note P = named_prefix_nat [OF H j]
  have s: "unat (sizeof H) < 2 ^ 16" using H by (simp add: header_extent_ok_def)
  note N = name_offset_nat [OF v]
  have b: "unat (block_header_prefix_with_header TA H) < 2 ^ 33" using P(3,4) s p by simp
  have n1: "unat (n + 1) = unat n + 1" using n by (subst unat_add_lem') simp_all
  have "unat (block_header_prefix_with_header TA H + name_offset h) =
      unat (block_header_prefix_with_header TA H) + unat (name_offset h)"
    using b N v by (subst unat_add_lem') simp_all
  then show "unat (total_named_size_with_header TA H h n) =
      unat (block_header_prefix_with_header TA H) + unat (name_offset h) + unat n + 1"
    unfolding total_named_size_with_header_def mult_1_right using n1 b N v n by (subst unat_add_lem') simp_all
qed

end
