(* ===== verification/Named_Index.thy ===== *)
theory Named_Index
  imports Block_Header
begin

text \<open>
  The index of named objects. The segment manager uses an index type through \<^verbatim>\<open>find\<close>, \<^verbatim>\<open>insert_check\<close>,
  \<^verbatim>\<open>insert_commit\<close> and \<^verbatim>\<open>erase\<close>, collected in the record \<open>index_ops\<close>; the locale \<open>name_index\<close> states what it relies on.
  The provider is the default index, indexes/iset\_index.hpp, an intrusive set ordered by the names that the block
  headers carry: its elements are the addresses of the nodes, and the order is read from memory. The intrusive
  set itself is code of Boost.Intrusive and a parameter.
\<close>

section \<open>What an index provides\<close>

text \<open>An iterator is the address of the node it refers to; \<^verbatim>\<open>insert_check\<close> answers the node that has the name, or
  commit data.\<close>

record 'x index_ops =
  ix_find :: "bytes \<Rightarrow> byte list \<Rightarrow> 'x \<Rightarrow> nat option"
  ix_insert_check :: "bytes \<Rightarrow> byte list \<Rightarrow> 'x \<Rightarrow> (nat + nat) result"
  ix_insert_commit :: "bytes \<Rightarrow> byte list \<Rightarrow> nat \<Rightarrow> nat \<Rightarrow> nat \<Rightarrow> 'x \<Rightarrow> 'x result"
  ix_erase :: "nat \<Rightarrow> 'x \<Rightarrow> 'x"
  ix_size :: "'x \<Rightarrow> nat"
  ix_construct :: 'x

text \<open>The name under which a node is stored.\<close>

definition key_at :: "extent \<Rightarrow> bytes \<Rightarrow> nat \<Rightarrow> byte list" where
  "key_at H m v = name_at m (from_first_header H v)"

locale name_index =
  fixes X :: "'x index_ops" and H :: extent and names :: "bytes \<Rightarrow> 'x \<Rightarrow> (byte list \<rightharpoonup> nat) \<Rightarrow> bool"
  assumes construct_names: "names m (ix_construct X) Map.empty"
    and names_keys: "names m x f \<Longrightarrow> f k = Some v \<Longrightarrow> key_at H m v = k"
    and names_frame: "names m x f \<Longrightarrow> (\<And>v. v \<in> ran f \<Longrightarrow> key_at H m' v = key_at H m v) \<Longrightarrow> names m' x f"
    and find_names: "names m x f \<Longrightarrow> ix_find X m k x = f k"
    and check_found: "names m x f \<Longrightarrow> f k = Some v \<Longrightarrow>
        ix_insert_check X m k x = Inr (Inl v) \<or> (\<exists>e. ix_insert_check X m k x = Inl e)"
    and check_fresh: "names m x f \<Longrightarrow> f k = None \<Longrightarrow>
        (\<exists>c. ix_insert_check X m k x = Inr (Inr c)) \<or> (\<exists>e. ix_insert_check X m k x = Inl e)"
    and commit_names: "names m x f \<Longrightarrow> f k = None \<Longrightarrow> ix_insert_check X m k x = Inr (Inr c) \<Longrightarrow>
        (\<And>u. u \<in> ran f \<Longrightarrow> key_at H m' u = key_at H m u) \<Longrightarrow> key_at H m' v = k \<Longrightarrow> v \<notin> ran f \<Longrightarrow>
        (\<exists>x'. ix_insert_commit X m' k h v c x = Inr x' \<and> names m' x' (f(k \<mapsto> v)))
          \<or> (\<exists>e. ix_insert_commit X m' k h v c x = Inl e)"
    and erase_names: "names m x f \<Longrightarrow> f k = Some v \<Longrightarrow> names m (ix_erase X v x) (f(k := None))"
    and size_names: "names m x f \<Longrightarrow> finite (dom f) \<and> ix_size X x = card (dom f)"

section \<open>The order of names\<close>

text \<open>\<^verbatim>\<open>std::char_traits<char>::compare\<close> on equally many characters.\<close>

fun char_traits_compare :: "byte list \<Rightarrow> byte list \<Rightarrow> int" where
  "char_traits_compare (a # as) (b # bs) =
     (if a < b then - 1 else if b < a then 1 else char_traits_compare as bs)"
| "char_traits_compare _ _ = 0"

definition less_name :: "byte list \<Rightarrow> byte list \<Rightarrow> bool" where
  "less_name a b \<longleftrightarrow> length a < length b \<or> length a = length b \<and> char_traits_compare a b < 0"

definition less_key_value :: "extent \<Rightarrow> bytes \<Rightarrow> byte list \<Rightarrow> nat \<Rightarrow> bool" where
  "less_key_value H m i b = less_name i (key_at H m b)"

definition less_value_key :: "extent \<Rightarrow> bytes \<Rightarrow> nat \<Rightarrow> byte list \<Rightarrow> bool" where
  "less_value_key H m b i = less_name (key_at H m b) i"

lemma compare_antisym: "char_traits_compare a b < 0 \<longleftrightarrow> char_traits_compare b a > 0"
  by (induction a b rule: char_traits_compare.induct) (auto simp: not_less_iff_gr_or_eq)

lemma compare_eq: "length a = length b \<Longrightarrow> char_traits_compare a b = 0 \<longleftrightarrow> a = b"
  by (induction a b rule: char_traits_compare.induct) auto

lemma compare_trans:
  "length a = length b \<Longrightarrow> length b = length c \<Longrightarrow> char_traits_compare a b < 0 \<Longrightarrow> char_traits_compare b c < 0
    \<Longrightarrow> char_traits_compare a c < 0"
proof (induction a arbitrary: b c)
  case (Cons x a)
  then obtain y b' z c' where "b = y # b'" "c = z # c'" by (metis length_Suc_conv)
  then show ?case using Cons.prems Cons.IH [of b' c'] by (auto split: if_splits)
qed simp

lemma less_name_irrefl [simp]: "\<not> less_name a a"
  using compare_eq [of a a] by (simp add: less_name_def)

lemma less_name_trans: "less_name a b \<Longrightarrow> less_name b c \<Longrightarrow> less_name a c"
  by (auto simp: less_name_def intro: compare_trans)

lemma less_name_total: "less_name a b \<or> a = b \<or> less_name b a"
  using compare_eq [of a b] compare_antisym [of b a] by (auto simp: less_name_def)

lemma transp_less_name: "transp less_name"
  using less_name_trans by (auto intro: transpI)

section \<open>Intrusive sets\<close>

text \<open>
  The operations of \<^verbatim>\<open>boost::intrusive::set\<close> that the index calls, on the sequence of the elements. \<open>lt\<close> and
  \<open>gt\<close> are the two directions of the comparison with the key.
\<close>

record intrusive_set =
  is_find :: "(nat \<Rightarrow> bool) \<Rightarrow> (nat \<Rightarrow> bool) \<Rightarrow> nat list \<Rightarrow> nat option"
  is_insert_check :: "(nat \<Rightarrow> bool) \<Rightarrow> (nat \<Rightarrow> bool) \<Rightarrow> nat list \<Rightarrow> nat + nat"
  is_insert_commit :: "nat \<Rightarrow> nat \<Rightarrow> nat list \<Rightarrow> nat list"
  is_erase :: "nat \<Rightarrow> nat list \<Rightarrow> nat list"

text \<open>
  Its documented behaviour on a sequence that the comparison divides into smaller, equivalent and greater
  elements, the equivalent at most one.
\<close>

definition divided :: "(nat \<Rightarrow> bool) \<Rightarrow> (nat \<Rightarrow> bool) \<Rightarrow> nat list \<Rightarrow> nat list \<Rightarrow> nat list \<Rightarrow> bool" where
  "divided lt gt us ws vs \<longleftrightarrow> (\<forall>x\<in>set us. lt x \<and> \<not> gt x) \<and> (\<forall>x\<in>set ws. \<not> lt x \<and> \<not> gt x)
     \<and> (\<forall>x\<in>set vs. gt x \<and> \<not> lt x)"

definition intrusive_set_ok :: "intrusive_set \<Rightarrow> bool" where
  "intrusive_set_ok S \<longleftrightarrow>
     (\<forall>lt gt us w vs. divided lt gt us [w] vs \<longrightarrow>
        is_find S lt gt (us @ w # vs) = Some w \<and> is_insert_check S lt gt (us @ w # vs) = Inl w)
   \<and> (\<forall>lt gt us vs. divided lt gt us [] vs \<longrightarrow>
        is_find S lt gt (us @ vs) = None
        \<and> (\<exists>c. is_insert_check S lt gt (us @ vs) = Inr c
             \<and> (\<forall>v. is_insert_commit S v c (us @ vs) = us @ v # vs)))
   \<and> (\<forall>us v vs. v \<notin> set us \<union> set vs \<longrightarrow> is_erase S v (us @ v # vs) = us @ vs)"

lemma set_absent:
  assumes "intrusive_set_ok S" "divided lt gt us [] vs"
  obtains c where "is_insert_check S lt gt (us @ vs) = Inr c" "\<And>v. is_insert_commit S v c (us @ vs) = us @ v # vs"
  using assms unfolding intrusive_set_ok_def by blast

section \<open>The set index\<close>

definition iset_find :: "intrusive_set \<Rightarrow> extent \<Rightarrow> bytes \<Rightarrow> byte list \<Rightarrow> nat list \<Rightarrow> nat option" where
  "iset_find S H m key xs = is_find S (\<lambda>v. less_value_key H m v key) (less_key_value H m key) xs"

definition iset_insert_check :: "intrusive_set \<Rightarrow> extent \<Rightarrow> bytes \<Rightarrow> byte list \<Rightarrow> nat list \<Rightarrow> (nat + nat) result" where
  "iset_insert_check S H m key xs =
     Inr (is_insert_check S (\<lambda>v. less_value_key H m v key) (less_key_value H m key) xs)"

definition iset_insert_commit ::
  "intrusive_set \<Rightarrow> bytes \<Rightarrow> byte list \<Rightarrow> nat \<Rightarrow> nat \<Rightarrow> nat \<Rightarrow> nat list \<Rightarrow> nat list result" where
  "iset_insert_commit S m key hdr v commit_data xs = Inr (is_insert_commit S v commit_data xs)"

definition iset_index :: "intrusive_set \<Rightarrow> extent \<Rightarrow> nat list index_ops" where
  "iset_index S H = \<lparr>ix_find = iset_find S H, ix_insert_check = iset_insert_check S H,
     ix_insert_commit = iset_insert_commit S, ix_erase = is_erase S, ix_size = length, ix_construct = []\<rparr>"

text \<open>The names in a set index: the nodes are sorted by name.\<close>

definition iset_names :: "extent \<Rightarrow> bytes \<Rightarrow> nat list \<Rightarrow> (byte list \<rightharpoonup> nat) \<Rightarrow> bool" where
  "iset_names H m xs f \<longleftrightarrow> sorted_wrt less_name (map (key_at H m) xs) \<and> f = map_of (map (\<lambda>v. (key_at H m v, v)) xs)"

lemma sorted_names_distinct: "sorted_wrt less_name ks \<Longrightarrow> distinct ks"
  by (induction ks) auto

lemma map_of_keys:
  assumes "distinct (map k xs)"
  shows "map_of (map (\<lambda>v. (k v, v)) xs) n = Some v \<longleftrightarrow> v \<in> set xs \<and> k v = n"
  using assms by (subst map_of_eq_Some_iff) (auto simp: comp_def)

lemma iset_names_Some: "iset_names H m xs f \<Longrightarrow> f n = Some v \<longleftrightarrow> v \<in> set xs \<and> key_at H m v = n"
  unfolding iset_names_def using map_of_keys [OF sorted_names_distinct, of "key_at H m" xs n v] by blast

lemma iset_names_ran: "iset_names H m xs f \<Longrightarrow> ran f = set xs"
  by (auto simp: ran_def iset_names_Some)

lemma iset_namesI:
  assumes "sorted_wrt less_name (map (key_at H m) xs)" "\<And>n v. f n = Some v \<longleftrightarrow> v \<in> set xs \<and> key_at H m v = n"
  shows "iset_names H m xs f"
proof -
  define g where "g = map_of (map (\<lambda>v. (key_at H m v, v)) xs)"
  have "g n = Some v \<longleftrightarrow> v \<in> set xs \<and> key_at H m v = n" for n v
    unfolding g_def by (rule map_of_keys [OF sorted_names_distinct, OF assms(1)])
  then have "f n = Some v \<longleftrightarrow> g n = Some v" for n v using assms(2) by simp
  then have "f = g" by (metis ext not_None_eq)
  then show ?thesis using assms(1) by (simp add: iset_names_def g_def)
qed

text \<open>A sorted index is divided by every key.\<close>

lemma index_divided:
  assumes "sorted_wrt less_name (map (key_at H m) xs)"
  obtains us ws vs where "xs = us @ ws @ vs" "divided (\<lambda>v. less_value_key H m v k) (less_key_value H m k) us ws vs"
    "ws = [] \<and> k \<notin> key_at H m ` set xs \<or> (\<exists>w. ws = [w] \<and> key_at H m w = k)"
proof -
  let ?k = "key_at H m"
  define us where "us = takeWhile (\<lambda>v. less_name (?k v) k) xs"
  define rest where "rest = dropWhile (\<lambda>v. less_name (?k v) k) xs"
  have xs: "xs = us @ rest" by (simp add: us_def rest_def)
  have us: "less_name (?k x) k \<and> \<not> less_name k (?k x)" if "x \<in> set us" for x
    using that set_takeWhileD less_name_trans less_name_irrefl unfolding us_def by metis
  have sr: "sorted_wrt less_name (map ?k rest)" using assms by (simp add: xs sorted_wrt_append)
  show ?thesis
  proof (cases rest)
    case Nil
    have "k \<notin> ?k ` set xs" using us xs Nil by fastforce
    then show ?thesis using that [of us "[]" "[]"] xs Nil us by (auto simp: divided_def less_value_key_def less_key_value_def)
  next
    case (Cons r rs)
    have r: "\<not> less_name (?k r) k" using Cons hd_dropWhile [of "\<lambda>v. less_name (?k v) k" xs] unfolding rest_def by auto
    have rs: "less_name (?k r) (?k x)" if "x \<in> set rs" for x using sr that by (simp add: Cons)
    show ?thesis
    proof (cases "?k r = k")
      case True
      then have "less_name k (?k x) \<and> \<not> less_name (?k x) k" if "x \<in> set rs" for x
        using rs [OF that] less_name_trans less_name_irrefl by metis
      then show ?thesis using that [of us "[r]" rs] xs Cons us True
        by (auto simp: divided_def less_value_key_def less_key_value_def)
    next
      case False
      then have kr: "less_name k (?k r)" using r less_name_total by blast
      have v: "less_name k (?k x) \<and> \<not> less_name (?k x) k" if "x \<in> set rest" for x
      proof -
        have "less_name k (?k x)" using that Cons kr rs less_name_trans by auto
        then show ?thesis using less_name_trans less_name_irrefl by blast
      qed
      have "k \<notin> ?k ` set xs"
      proof
        assume "k \<in> ?k ` set xs"
        then obtain x where "x \<in> set us \<or> x \<in> set rest" "?k x = k" using xs by auto
        then show False using us v less_name_irrefl by metis
      qed
      then show ?thesis using that [of us "[]" rest] xs us v by (auto simp: divided_def less_value_key_def less_key_value_def)
    qed
  qed
qed

lemma iset_name_index:
  assumes S: "intrusive_set_ok S"
  shows "name_index (iset_index S H) H (iset_names H)"
proof unfold_locales
  fix m show "iset_names H m (ix_construct (iset_index S H)) Map.empty" by (simp add: iset_names_def iset_index_def)
next
  fix m x f k v assume "iset_names H m x f" "f k = Some v"
  then show "key_at H m v = k" using iset_names_Some by blast
next
  fix m x f m' assume n: "iset_names H m x f" and eq: "\<And>v. v \<in> ran f \<Longrightarrow> key_at H m' v = key_at H m v"
  have k: "\<forall>v\<in>set x. key_at H m' v = key_at H m v" using eq iset_names_ran [OF n] by blast
  have "map (key_at H m') x = map (key_at H m) x" "map (\<lambda>v. (key_at H m' v, v)) x = map (\<lambda>v. (key_at H m v, v)) x"
    using k by (auto intro: map_cong)
  then show "iset_names H m' x f" using n unfolding iset_names_def by (simp only:)
next
  fix m x f k assume n: "iset_names H m x f"
  then have srt0: "sorted_wrt less_name (map (key_at H m) x)" by (simp add: iset_names_def)
  obtain us ws vs where d: "x = us @ ws @ vs" "divided (\<lambda>v. less_value_key H m v k) (less_key_value H m k) us ws vs"
    "ws = [] \<and> k \<notin> key_at H m ` set x \<or> (\<exists>w. ws = [w] \<and> key_at H m w = k)"
    by (rule index_divided [OF srt0])
  show "ix_find (iset_index S H) m k x = f k"
  proof (cases "ws = []")
    case True
    then have "f k = None" using d iset_names_Some [OF n] by (metis image_eqI list.distinct(1) not_None_eq)
    then show ?thesis using True S d by (simp add: iset_index_def iset_find_def intrusive_set_ok_def)
  next
    case False
    then obtain w where w: "ws = [w]" "key_at H m w = k" using d by blast
    then have "f k = Some w" using d(1) iset_names_Some [OF n] by simp
    then show ?thesis using w S d by (simp add: iset_index_def iset_find_def intrusive_set_ok_def)
  qed
  show "ix_insert_check (iset_index S H) m k x = Inr (Inl v) \<or> (\<exists>e. ix_insert_check (iset_index S H) m k x = Inl e)"
    if "f k = Some v" for v
  proof -
    have "key_at H m v = k" "v \<in> set x" using iset_names_Some [OF n] that by auto
    then obtain w where w: "ws = [w]" "key_at H m w = k" using d(3) by blast
    then have "f k = Some w" using d(1) iset_names_Some [OF n] by simp
    then show ?thesis using that w S d by (simp add: iset_index_def iset_insert_check_def intrusive_set_ok_def)
  qed
  assume fk: "f k = None"
  have e: "ws = []"
  proof (rule ccontr)
    assume "ws \<noteq> []"
    then obtain w where "ws = [w]" "key_at H m w = k" using d(3) by blast
    then have "f k = Some w" using d(1) iset_names_Some [OF n] by simp
    then show False using fk by simp
  qed
  have x: "x = us @ vs" using d(1) e by simp
  obtain c where c: "is_insert_check S (\<lambda>v. less_value_key H m v k) (less_key_value H m k) x = Inr c"
      "\<And>v. is_insert_commit S v c x = us @ v # vs" using set_absent [OF S d(2) [unfolded e], folded x] by blast
  then show "(\<exists>c. ix_insert_check (iset_index S H) m k x = Inr (Inr c)) \<or> (\<exists>e. ix_insert_check (iset_index S H) m k x = Inl e)"
    by (simp add: iset_index_def iset_insert_check_def)
  fix c' m' v h
  assume c': "ix_insert_check (iset_index S H) m k x = Inr (Inr c')" and eq: "\<And>u. u \<in> ran f \<Longrightarrow> key_at H m' u = key_at H m u"
    and v: "key_at H m' v = k" "v \<notin> ran f"
  have cc: "c' = c" using c' c by (simp add: iset_index_def iset_insert_check_def)
  have keys: "key_at H m' u = key_at H m u" if "u \<in> set us \<union> set vs" for u using that eq iset_names_ran [OF n] d(1) by auto
  have srt: "sorted_wrt less_name (map (key_at H m) (us @ vs))" using n d(1) e by (simp add: iset_names_def)
  have "sorted_wrt less_name (map (key_at H m') (us @ v # vs))"
    using srt d(2) keys v(1) by (auto simp: sorted_wrt_append divided_def less_value_key_def less_key_value_def e
        intro: less_name_trans cong: map_cong)
  moreover have "(f(k \<mapsto> v)) n' = Some u \<longleftrightarrow> u \<in> set (us @ v # vs) \<and> key_at H m' u = n'" for n' u
    using iset_names_Some [OF n, of n' u] keys v fk d(1) e iset_names_Some [OF n, of k u] by (auto split: if_splits)
  ultimately have "iset_names H m' (us @ v # vs) (f(k \<mapsto> v))" by (rule iset_namesI)
  then show "(\<exists>x'. ix_insert_commit (iset_index S H) m' k h v c' x = Inr x' \<and> iset_names H m' x' (f(k \<mapsto> v)))
      \<or> (\<exists>e. ix_insert_commit (iset_index S H) m' k h v c' x = Inl e)"
    using c(2) cc by (simp add: iset_index_def iset_insert_commit_def)
next
  fix m x f k v assume n: "iset_names H m x f" and k: "f k = Some v"
  have srt: "sorted_wrt less_name (map (key_at H m) x)" using n by (simp add: iset_names_def)
  have dis: "distinct (map (key_at H m) x)" by (rule sorted_names_distinct [OF srt])
  have v: "v \<in> set x" "key_at H m v = k" using iset_names_Some [OF n] k by auto
  then obtain us vs where x: "x = us @ v # vs" by (meson split_list)
  have nv: "v \<notin> set us \<union> set vs" using dis x by auto
  then have "ix_erase (iset_index S H) v x = us @ vs" using S x by (simp add: iset_index_def intrusive_set_ok_def)
  moreover have "iset_names H m (us @ vs) (f(k := None))"
  proof (rule iset_namesI)
    show "sorted_wrt less_name (map (key_at H m) (us @ vs))" using srt x by (simp add: sorted_wrt_append)
    have "u \<in> set (us @ vs) \<longrightarrow> key_at H m u \<noteq> k" for u using dis x v by (force simp: image_iff)
    then show "(f(k := None)) n' = Some u \<longleftrightarrow> u \<in> set (us @ vs) \<and> key_at H m u = n'" for n' u
      using iset_names_Some [OF n, of n' u] x v(2) by auto
  qed
  ultimately show "iset_names H m (ix_erase (iset_index S H) v x) (f(k := None))" by simp
next
  fix m x f assume n: "iset_names H m x f"
  have d: "distinct (map (key_at H m) x)" using n sorted_names_distinct by (auto simp: iset_names_def)
  have "dom f = set (map (key_at H m) x)" using n by (auto simp: iset_names_def dom_map_of_conv_image_fst image_image)
  then show "finite (dom f) \<and> ix_size (iset_index S H) x = card (dom f)"
    using distinct_card [OF d] by (simp add: iset_index_def)
qed

section \<open>Sorted sequences as sets\<close>

text \<open>The interface to Boost.Intrusive, and the sequence itself as one set that keeps it.\<close>

locale ordered_set =
  fixes S :: intrusive_set
  assumes set_contract: "intrusive_set_ok S"

sublocale ordered_set \<subseteq> ix: name_index "iset_index S H" H "iset_names H" for H
  by (rule iset_name_index [OF set_contract])

definition list_set :: intrusive_set where
  "list_set = \<lparr>is_find = (\<lambda>lt gt xs. List.find (\<lambda>x. \<not> lt x \<and> \<not> gt x) xs),
     is_insert_check = (\<lambda>lt gt xs. case List.find (\<lambda>x. \<not> lt x \<and> \<not> gt x) xs of
         Some w \<Rightarrow> Inl w | None \<Rightarrow> Inr (length (takeWhile lt xs))),
     is_insert_commit = (\<lambda>v c xs. take c xs @ v # drop c xs), is_erase = remove1\<rparr>"

lemma find_divided:
  "divided lt gt us [w] vs \<Longrightarrow> List.find (\<lambda>x. \<not> lt x \<and> \<not> gt x) (us @ w # vs) = Some w"
  "divided lt gt us [] vs \<Longrightarrow> List.find (\<lambda>x. \<not> lt x \<and> \<not> gt x) (us @ vs) = None"
  by (induction us) (auto simp: divided_def find_None_iff)

lemma takeWhile_divided: "divided lt gt us [] vs \<Longrightarrow> takeWhile lt (us @ vs) = us"
  by (induction us) (auto simp: divided_def takeWhile_eq_Nil_iff)

lemma list_set_ok: "intrusive_set_ok list_set"
  unfolding intrusive_set_ok_def list_set_def intrusive_set.select_convs
  by (intro conjI allI impI) (simp_all add: find_divided takeWhile_divided remove1_append)

interpretation ls: ordered_set list_set
  by unfold_locales (rule list_set_ok)

end
