(* ===== verification/Segment_Manager.thy ===== *)
theory Segment_Manager
  imports Named_Index Mem_Algo_Common
begin

text \<open>
  The segment manager, segment\_manager.hpp and detail/named\_proxy.hpp: construction of named, unique and anonymous
  objects in a segment, search by name, destruction by name or by address, and raw allocation. The memory
  algorithm \<open>M\<close> and the index type \<open>X\<close> are template parameters of the class and parameters of the operations; the
  index is an intrusive one, as is the default, so each node lies in front of its block header. The constructors,
  destructors and the name of the object type are the user's. An operation runs under the recursive mutex of the
  segment and is one step here. None stands for a failed assertion or an operation that does not return; the
  assertions that an address is aligned and that a stored size is a multiple of the size of the object type are not
  repeated here, they hold for every object that a program constructed.
\<close>

section \<open>State\<close>

text \<open>The constructions and destructions of objects that have taken place.\<close>

datatype call = Ctor nat | Dtor nat

record ('s, 'x) segment =
  sg_algo :: 's
  sg_bytes :: bytes
  m_named_index :: 'x
  m_unique_index :: 'x
  sg_calls :: "call list"

text \<open>An object type: its size and alignment, the name that \<^verbatim>\<open>typeid\<close> gives it, and its destructor.\<close>

record ctype = extent +
  type_name :: "byte list"
  dtor :: "nat \<Rightarrow> bytes \<Rightarrow> bytes"

text \<open>A constructor call with its arguments: the number of the array element, its address and the memory give the
  memory afterwards and the exception if it throws.\<close>

type_synonym 'e proxy = "nat \<Rightarrow> nat \<Rightarrow> bytes \<Rightarrow> bytes \<times> 'e option"

datatype 'e thrown = Library ipc_exception | Object 'e

definition null_or_bad_alloc :: "bool \<Rightarrow> 'e thrown + nat" where
  "null_or_bad_alloc dothrow = (if dothrow then Inl (Library bad_alloc) else Inr 0)"

definition null_or_already_exists :: "bool \<Rightarrow> 'e thrown + nat" where
  "null_or_already_exists dothrow =
     (if dothrow then Inl (Library (interprocess_exception already_exists_error)) else Inr 0)"

definition null_or_rethrow :: "bool \<Rightarrow> ipc_exception \<Rightarrow> 'e thrown + nat" where
  "null_or_rethrow dothrow e = (if dothrow then Inl (Library e) else Inr 0)"

definition index_of :: "instance_type \<Rightarrow> ('s, 'x) segment \<Rightarrow> 'x" where
  "index_of type st = (if type = unique_type then m_unique_index st else m_named_index st)"

definition set_index :: "instance_type \<Rightarrow> 'x \<Rightarrow> ('s, 'x) segment \<Rightarrow> ('s, 'x) segment" where
  "set_index type ix st = (if type = unique_type then st\<lparr>m_unique_index := ix\<rparr> else st\<lparr>m_named_index := ix\<rparr>)"

definition segment_manager :: "'x index_ops \<Rightarrow> 's \<Rightarrow> bytes \<Rightarrow> ('s, 'x) segment" where
  "segment_manager X algo mem = \<lparr>sg_algo = algo, sg_bytes = mem, m_named_index = ix_construct X,
     m_unique_index = ix_construct X, sg_calls = []\<rparr>"

section \<open>Raw memory\<close>

definition sm_allocate_nothrow ::
  "'s memory_algorithm \<Rightarrow> size_t \<Rightarrow> ('s, 'x) segment \<Rightarrow> (('s, 'x) segment \<times> nat) option" where
  "sm_allocate_nothrow M nbytes st =
     do { (s, p) \<leftarrow> priv_allocate_new M (sg_algo st) nbytes nbytes; Some (st\<lparr>sg_algo := s\<rparr>, p) }"

definition sm_allocate ::
  "'s memory_algorithm \<Rightarrow> size_t \<Rightarrow> ('s, 'x) segment \<Rightarrow> (('s, 'x) segment \<times> nat result) option" where
  "sm_allocate M nbytes st =
     do { (st, ret) \<leftarrow> sm_allocate_nothrow M nbytes st; Some (st, if ret = 0 then Inl bad_alloc else Inr ret) }"

definition sm_allocate_aligned_nothrow ::
  "'s memory_algorithm \<Rightarrow> size_t \<Rightarrow> size_t \<Rightarrow> ('s, 'x) segment \<Rightarrow> (('s, 'x) segment \<times> nat) option" where
  "sm_allocate_aligned_nothrow M nbytes alignment st =
     do { (s, p) \<leftarrow> allocate_aligned M (sg_algo st) nbytes alignment; Some (st\<lparr>sg_algo := s\<rparr>, p) }"

definition sm_allocate_aligned ::
  "'s memory_algorithm \<Rightarrow> size_t \<Rightarrow> size_t \<Rightarrow> ('s, 'x) segment \<Rightarrow> (('s, 'x) segment \<times> nat result) option" where
  "sm_allocate_aligned M nbytes alignment st =
     do { (st, ret) \<leftarrow> sm_allocate_aligned_nothrow M nbytes alignment st;
          Some (st, if ret = 0 then Inl bad_alloc else Inr ret) }"

definition sm_deallocate :: "'s memory_algorithm \<Rightarrow> nat \<Rightarrow> ('s, 'x) segment \<Rightarrow> ('s, 'x) segment option" where
  "sm_deallocate M addr st = do { s \<leftarrow> priv_deallocate M (sg_algo st) addr; Some (st\<lparr>sg_algo := s\<rparr>) }"

text \<open>The destructor of \<^verbatim>\<open>mem_algo_deallocator\<close>, when \<^verbatim>\<open>release\<close> was not called.\<close>

definition mem_algo_deallocator :: "'s memory_algorithm \<Rightarrow> nat \<Rightarrow> ('s, 'x) segment \<Rightarrow> ('s, 'x) segment option" where
  "mem_algo_deallocator M m_ptr st = (if m_ptr \<noteq> 0 then sm_deallocate M m_ptr st else Some st)"

section \<open>Constructing and destroying arrays\<close>

definition destroy_one :: "ctype \<Rightarrow> nat \<Rightarrow> ('s, 'x) segment \<Rightarrow> ('s, 'x) segment" where
  "destroy_one T p st = st\<lparr>sg_bytes := dtor T p (sg_bytes st), sg_calls := sg_calls st @ [Dtor p]\<rparr>"

fun priv_destroy_n :: "ctype \<Rightarrow> nat \<Rightarrow> nat \<Rightarrow> ('s, 'x) segment \<Rightarrow> ('s, 'x) segment" where
  "priv_destroy_n T memory 0 st = st"
| "priv_destroy_n T memory (Suc num) st = priv_destroy_n T (memory + unat (sizeof T)) num (destroy_one T memory st)"

text \<open>The loop of \<^verbatim>\<open>construct_n\<close> with the number of objects constructed so far and the number left. If a
  constructor throws, the objects constructed so far are destroyed.\<close>

fun construct_from ::
  "'e proxy \<Rightarrow> ctype \<Rightarrow> nat \<Rightarrow> nat \<Rightarrow> nat \<Rightarrow> ('s, 'x) segment \<Rightarrow> ('s, 'x) segment \<times> 'e option" where
  "construct_from pr T mem constructed 0 st = (st, None)"
| "construct_from pr T mem constructed (Suc left) st =
     (let p = mem + constructed * unat (sizeof T)
      in case pr constructed p (sg_bytes st) of
           (m, None) \<Rightarrow> construct_from pr T mem (Suc constructed) left
                          (st\<lparr>sg_bytes := m, sg_calls := sg_calls st @ [Ctor p]\<rparr>)
         | (m, Some e) \<Rightarrow> (priv_destroy_n T mem constructed (st\<lparr>sg_bytes := m\<rparr>), Some e))"

definition construct_n ::
  "'e proxy \<Rightarrow> ctype \<Rightarrow> nat \<Rightarrow> size_t \<Rightarrow> ('s, 'x) segment \<Rightarrow> ('s, 'x) segment \<times> 'e option" where
  "construct_n pr T mem num st = construct_from pr T mem 0 (unat num) st"

section \<open>Construction\<close>

definition priv_anonymous_construct ::
  "'s memory_algorithm \<Rightarrow> 'e proxy \<Rightarrow> ctype \<Rightarrow> size_t \<Rightarrow> bool \<Rightarrow> ('s, 'x) segment \<Rightarrow>
     (('s, 'x) segment \<times> ('e thrown + nat)) option" where
  "priv_anonymous_construct M pr T num dothrow st =
     (let t_alignment = alignof T;
          block_info = block_header_ctor (sizeof T * num) (instance_code anonymous_type);
          total_size = total_anonymous_size t_alignment block_info
      in do {
           (st, ptr_struct) \<leftarrow> sm_allocate_aligned_nothrow M total_size t_alignment st;
           if ptr_struct = 0 then Some (st, null_or_bad_alloc dothrow)
           else
             (let hdr = ptr_struct + unat (front_space_without_header t_alignment);
                  st = st\<lparr>sg_bytes := store_header (sg_bytes st) hdr block_info\<rparr>;
                  ptr = value_ptr hdr
              in case construct_n pr T ptr num st of
                   (st, None) \<Rightarrow> Some (st, Inr ptr)
                 | (st, Some e) \<Rightarrow> do { st \<leftarrow> mem_algo_deallocator M ptr_struct st; Some (st, Inl (Object e)) })
         })"

text \<open>
  The body of \<^verbatim>\<open>priv_generic_named_construct\<close> once the buffer is there: the headers and the name are
  written, the node is inserted, and the objects are constructed. When the insertion or a constructor throws, the
  node is erased and the buffer given back.
\<close>

definition construct_in_buffer ::
  "'s memory_algorithm \<Rightarrow> 'x index_ops \<Rightarrow> extent \<Rightarrow> 'e proxy \<Rightarrow> ctype \<Rightarrow> instance_type \<Rightarrow> byte list \<Rightarrow> size_t \<Rightarrow> bool \<Rightarrow>
     nat \<Rightarrow> nat \<Rightarrow> ('s, 'x) segment \<Rightarrow> (('s, 'x) segment \<times> ('e thrown + nat)) option" where
  "construct_in_buffer M X H pr T type name num dothrow commit_data buffer_ptr st =
     (let t_alignment = alignof T;
          block_info = block_header_ctor (sizeof T * num) (instance_code type);
          namelen = of_nat (length name) :: size_t;
          front_space = front_space_with_header t_alignment H;
          index_data = buffer_ptr + unat front_space;
          hdr = from_first_header H index_data;
          m = store_header (sg_bytes st) hdr block_info;
          ptr = value_ptr hdr;
          m = store_name_length m hdr (ucast namelen);
          m = put_bytes m (name_ptr m hdr) (name @ [0]);
          st = st\<lparr>sg_bytes := m\<rparr>
      in case ix_insert_commit X m name hdr index_data commit_data (index_of type st) of
           Inl e \<Rightarrow> do { st \<leftarrow> mem_algo_deallocator M buffer_ptr st; Some (st, null_or_rethrow dothrow e) }
         | Inr ix \<Rightarrow>
             (case construct_n pr T ptr num (set_index type ix st) of
                (st, None) \<Rightarrow> Some (st, Inr ptr)
              | (st, Some e) \<Rightarrow>
                  do { st \<leftarrow> mem_algo_deallocator M buffer_ptr (set_index type (ix_erase X index_data (index_of type st)) st);
                       Some (st, Inl (Object e)) }))"

definition priv_generic_named_construct ::
  "'s memory_algorithm \<Rightarrow> 'x index_ops \<Rightarrow> extent \<Rightarrow> 'e proxy \<Rightarrow> ctype \<Rightarrow> instance_type \<Rightarrow> byte list \<Rightarrow> size_t \<Rightarrow> bool \<Rightarrow>
     bool \<Rightarrow> ('s, 'x) segment \<Rightarrow> (('s, 'x) segment \<times> ('e thrown + nat)) option" where
  "priv_generic_named_construct M X H pr T type name num try2find dothrow st =
     (let namelen = of_nat (length name) :: size_t;
          t_alignment = alignof T;
          block_info = block_header_ctor (sizeof T * num) (instance_code type)
      in case ix_insert_check X (sg_bytes st) name (index_of type st) of
           Inl e \<Rightarrow> Some (st, null_or_rethrow dothrow e)
         | Inr (Inl existing_it) \<Rightarrow>
             Some (st, if try2find then Inr (value_ptr (from_first_header H existing_it)) else null_or_already_exists dothrow)
         | Inr (Inr commit_data) \<Rightarrow>
             (let total_size = total_named_size_with_header t_alignment H block_info namelen
              in do {
                   (st, buffer_ptr) \<leftarrow> sm_allocate_aligned_nothrow M total_size t_alignment st;
                   if buffer_ptr = 0 then Some (st, null_or_bad_alloc dothrow)
                   else construct_in_buffer M X H pr T type name num dothrow commit_data buffer_ptr st
                 }))"

text \<open>\<^verbatim>\<open>char_ptr_holder\<close>: a name, or one of the two special pointers.\<close>

datatype char_ptr_holder = Name "byte list" | anonymous_instance | unique_instance

definition generic_construct ::
  "'s memory_algorithm \<Rightarrow> 'x index_ops \<Rightarrow> extent \<Rightarrow> 'e proxy \<Rightarrow> ctype \<Rightarrow> char_ptr_holder \<Rightarrow> size_t \<Rightarrow> bool \<Rightarrow> bool \<Rightarrow>
     ('s, 'x) segment \<Rightarrow> (('s, 'x) segment \<times> ('e thrown + nat)) option" where
  "generic_construct M X H pr T name num try2find dothrow st =
     (if num > (- 1) div sizeof T then Some (st, null_or_bad_alloc dothrow)
      else case name of
             anonymous_instance \<Rightarrow> priv_anonymous_construct M pr T num dothrow st
           | unique_instance \<Rightarrow> priv_generic_named_construct M X H pr T unique_type (type_name T) num try2find dothrow st
           | Name n \<Rightarrow> priv_generic_named_construct M X H pr T named_type n num try2find dothrow st)"

text \<open>The proxy that \<^verbatim>\<open>construct\<close> and \<^verbatim>\<open>find_or_construct\<close> return; \<^verbatim>\<open>[n]\<close> multiplies the number of objects.\<close>

record named_proxy =
  mp_name :: char_ptr_holder
  m_num :: size_t
  m_find :: bool
  m_dothrow :: bool

definition segment_construct :: "char_ptr_holder \<Rightarrow> bool \<Rightarrow> named_proxy" where
  "segment_construct name dothrow = \<lparr>mp_name = name, m_num = 1, m_find = False, m_dothrow = dothrow\<rparr>"

definition segment_find_or_construct :: "char_ptr_holder \<Rightarrow> bool \<Rightarrow> named_proxy" where
  "segment_find_or_construct name dothrow = \<lparr>mp_name = name, m_num = 1, m_find = True, m_dothrow = dothrow\<rparr>"

definition proxy_index :: "named_proxy \<Rightarrow> size_t \<Rightarrow> named_proxy" where
  "proxy_index np num = np\<lparr>m_num := m_num np * num\<rparr>"

definition proxy_call ::
  "'s memory_algorithm \<Rightarrow> 'x index_ops \<Rightarrow> extent \<Rightarrow> 'e proxy \<Rightarrow> ctype \<Rightarrow> named_proxy \<Rightarrow> ('s, 'x) segment \<Rightarrow>
     (('s, 'x) segment \<times> ('e thrown + nat)) option" where
  "proxy_call M X H pr T np st = generic_construct M X H pr T (mp_name np) (m_num np) (m_find np) (m_dothrow np) st"

section \<open>Search\<close>

definition priv_generic_find ::
  "'x index_ops \<Rightarrow> extent \<Rightarrow> ctype \<Rightarrow> instance_type \<Rightarrow> byte list \<Rightarrow> ('s, 'x) segment \<Rightarrow> nat \<times> size_t" where
  "priv_generic_find X H T type name st =
     (case ix_find X (sg_bytes st) name (index_of type st) of
        None \<Rightarrow> (0, 0)
      | Some it \<Rightarrow>
          (let ctrl_data = from_first_header H it
           in (value_ptr ctrl_data, value_bytes (header_at (sg_bytes st) ctrl_data) div sizeof T)))"

definition sm_find ::
  "'x index_ops \<Rightarrow> extent \<Rightarrow> ctype \<Rightarrow> char_ptr_holder \<Rightarrow> ('s, 'x) segment \<Rightarrow> (nat \<times> size_t) option" where
  "sm_find X H T name st =
     (case name of
        anonymous_instance \<Rightarrow> None
      | unique_instance \<Rightarrow> Some (priv_generic_find X H T unique_type (type_name T) st)
      | Name n \<Rightarrow> Some (priv_generic_find X H T named_type n st))"

definition get_instance_name :: "nat \<Rightarrow> ('s, 'x) segment \<Rightarrow> nat option" where
  "get_instance_name ptr st =
     (let m = sg_bytes st; ctrl_data = block_header_from_value ptr
      in if instance_of_code (alloc_type (header_at m ctrl_data)) = anonymous_type
         then if name_length m ctrl_data = 0 then Some 0 else None
         else if name_length m ctrl_data = 0 then None
         else
           (let name = name_ptr m ctrl_data
            in do { n \<leftarrow> char_traits_length m name;
                    if unat (name_length m ctrl_data) = n then Some name else None }))"

definition get_instance_length :: "ctype \<Rightarrow> nat \<Rightarrow> ('s, 'x) segment \<Rightarrow> size_t" where
  "get_instance_length T ptr st = value_bytes (header_at (sg_bytes st) (block_header_from_value ptr)) div sizeof T"

definition get_instance_type :: "nat \<Rightarrow> ('s, 'x) segment \<Rightarrow> instance_type" where
  "get_instance_type ptr st = instance_of_code (alloc_type (header_at (sg_bytes st) (block_header_from_value ptr)))"

definition get_num_named_objects :: "'x index_ops \<Rightarrow> ('s, 'x) segment \<Rightarrow> nat" where
  "get_num_named_objects X st = ix_size X (m_named_index st)"

definition get_num_unique_objects :: "'x index_ops \<Rightarrow> ('s, 'x) segment \<Rightarrow> nat" where
  "get_num_unique_objects X st = ix_size X (m_unique_index st)"

section \<open>Destruction\<close>

definition priv_generic_named_destroy_impl ::
  "'s memory_algorithm \<Rightarrow> 'x index_ops \<Rightarrow> extent \<Rightarrow> ctype \<Rightarrow> instance_type \<Rightarrow> nat \<Rightarrow> ('s, 'x) segment \<Rightarrow>
     (('s, 'x) segment \<times> bool) option" where
  "priv_generic_named_destroy_impl M X H T type it st =
     (let ctrl_data = from_first_header H it;
          num = value_bytes (header_at (sg_bytes st) ctrl_data) div sizeof T;
          st = set_index type (ix_erase X it (index_of type st)) st;
          ihdr = to_first_header H ctrl_data;
          memory = ihdr - unat (front_space_with_header (alignof T) H);
          st = priv_destroy_n T (value_ptr ctrl_data) (unat num) st
      in do { st \<leftarrow> sm_deallocate M memory st; Some (st, True) })"

definition priv_generic_named_destroy ::
  "'s memory_algorithm \<Rightarrow> 'x index_ops \<Rightarrow> extent \<Rightarrow> ctype \<Rightarrow> instance_type \<Rightarrow> byte list \<Rightarrow> ('s, 'x) segment \<Rightarrow>
     (('s, 'x) segment \<times> bool) option" where
  "priv_generic_named_destroy M X H T type name st =
     (case ix_find X (sg_bytes st) name (index_of type st) of
        None \<Rightarrow> Some (st, False)
      | Some it \<Rightarrow> priv_generic_named_destroy_impl M X H T type it st)"

text \<open>Destruction by header reads the name stored behind the object and searches it.\<close>

definition destroy_by_header ::
  "'s memory_algorithm \<Rightarrow> 'x index_ops \<Rightarrow> extent \<Rightarrow> ctype \<Rightarrow> instance_type \<Rightarrow> nat \<Rightarrow> ('s, 'x) segment \<Rightarrow>
     (('s, 'x) segment \<times> bool) option" where
  "destroy_by_header M X H T type block_header st =
     (let name = name_ptr (sg_bytes st) block_header
      in do { n \<leftarrow> char_traits_length (sg_bytes st) name;
              priv_generic_named_destroy M X H T type (get_bytes (sg_bytes st) name n) st })"

definition sm_destroy ::
  "'s memory_algorithm \<Rightarrow> 'x index_ops \<Rightarrow> extent \<Rightarrow> ctype \<Rightarrow> char_ptr_holder \<Rightarrow> ('s, 'x) segment \<Rightarrow>
     (('s, 'x) segment \<times> bool) option" where
  "sm_destroy M X H T name st =
     (case name of
        anonymous_instance \<Rightarrow> None
      | unique_instance \<Rightarrow> priv_generic_named_destroy M X H T unique_type (type_name T) st
      | Name n \<Rightarrow> priv_generic_named_destroy M X H T named_type n st)"

definition priv_anonymous_destroy ::
  "'s memory_algorithm \<Rightarrow> ctype \<Rightarrow> nat \<Rightarrow> ('s, 'x) segment \<Rightarrow> ('s, 'x) segment option" where
  "priv_anonymous_destroy M T object st =
     (let ctrl_data = block_header_from_value object;
          num = value_bytes (header_at (sg_bytes st) ctrl_data) div sizeof T;
          st = priv_destroy_n T object (unat num) st
      in sm_deallocate M (ctrl_data - unat (front_space_without_header (alignof T))) st)"

definition sm_destroy_ptr ::
  "'s memory_algorithm \<Rightarrow> 'x index_ops \<Rightarrow> extent \<Rightarrow> ctype \<Rightarrow> nat \<Rightarrow> ('s, 'x) segment \<Rightarrow> ('s, 'x) segment option" where
  "sm_destroy_ptr M X H T ptr st =
     (let ctrl_data = block_header_from_value ptr
      in case instance_of_code (alloc_type (header_at (sg_bytes st) ctrl_data)) of
           anonymous_type \<Rightarrow> priv_anonymous_destroy M T ptr st
         | named_type \<Rightarrow> map_option fst (destroy_by_header M X H T named_type ctrl_data st)
         | unique_type \<Rightarrow> map_option fst (destroy_by_header M X H T unique_type ctrl_data st)
         | max_allocation_type \<Rightarrow> None)"

end
