(* ===== verification/Segment_Rep.thy ===== *)
theory Segment_Rep
  imports Segment_Manager Mem_Algo_Laws
begin

text \<open>
  What a segment holds. \<open>sm_rep\<close> relates a state to the set of its objects and the set of the blocks that the
  user allocated raw: each object lies in an allocated block of its own with its control data in place, nothing
  else is allocated, and the two indexes lead from each name to its object. The locale \<open>segment_parts\<close> collects what
  the segment manager relies on, a memory algorithm whose blocks do not overlap and an index.
\<close>

section \<open>Objects\<close>

record sm_object =
  ob_block :: nat
  ob_units :: nat
  ob_kind :: instance_type
  ob_name :: "byte list"
  ob_align :: size_t
  ob_vbytes :: size_t

definition blk :: "sm_object \<Rightarrow> nat \<times> nat" where
  "blk ob = (ob_block ob, ob_units ob)"

definition ob_header :: "sm_object \<Rightarrow> block_header" where
  "ob_header ob = block_header_ctor (ob_vbytes ob) (instance_code (ob_kind ob))"

definition ob_prefix :: "extent \<Rightarrow> sm_object \<Rightarrow> nat" where
  "ob_prefix H ob = (if ob_kind ob = anonymous_type then unat (block_header_prefix_without_header (ob_align ob))
     else unat (block_header_prefix_with_header (ob_align ob) H))"

definition ob_hdr :: "'s memory_algorithm \<Rightarrow> extent \<Rightarrow> sm_object \<Rightarrow> nat" where
  "ob_hdr M H ob = ob_block ob + AllocatedCtrlBytes M + ob_prefix H ob"

definition ob_value :: "'s memory_algorithm \<Rightarrow> extent \<Rightarrow> sm_object \<Rightarrow> nat" where
  "ob_value M H ob = value_ptr (ob_hdr M H ob)"

definition ob_node :: "'s memory_algorithm \<Rightarrow> extent \<Rightarrow> sm_object \<Rightarrow> nat" where
  "ob_node M H ob = to_first_header H (ob_hdr M H ob)"

text \<open>The end of what belongs to the object, behind the name if there is one.\<close>

definition ob_end :: "'s memory_algorithm \<Rightarrow> extent \<Rightarrow> sm_object \<Rightarrow> nat" where
  "ob_end M H ob = (if ob_kind ob = anonymous_type then ob_hdr M H ob + 8 + unat (ob_vbytes ob)
     else ob_hdr M H ob + unat (name_offset (ob_header ob)) + length (ob_name ob) + 1)"

definition ob_shape :: "sm_object \<Rightarrow> bool" where
  "ob_shape ob \<longleftrightarrow> ob_kind ob \<noteq> max_allocation_type \<and> (\<exists>j<32. ob_align ob = 2 ^ j) \<and> unat (ob_vbytes ob) < 2 ^ 62
     \<and> 0 \<notin> set (ob_name ob) \<and> length (ob_name ob) < 2 ^ 16 \<and> (ob_kind ob = anonymous_type \<longrightarrow> ob_name ob = [])"

text \<open>The control data is in memory.\<close>

definition ob_stored :: "'s memory_algorithm \<Rightarrow> extent \<Rightarrow> bytes \<Rightarrow> sm_object \<Rightarrow> bool" where
  "ob_stored M H m ob \<longleftrightarrow> header_at m (ob_hdr M H ob) = ob_header ob
     \<and> (ob_kind ob \<noteq> anonymous_type \<longrightarrow>
          get_bytes m (ob_hdr M H ob + unat (name_length_offset (ob_header ob))) 2 = le_bytes 2 (length (ob_name ob))
          \<and> get_bytes m (ob_hdr M H ob + unat (name_offset (ob_header ob))) (Suc (length (ob_name ob))) = ob_name ob @ [0])"

definition ob_placed :: "'s memory_algorithm \<Rightarrow> extent \<Rightarrow> sm_object \<Rightarrow> bool" where
  "ob_placed M H ob \<longleftrightarrow> ob_end M H ob \<le> ob_block ob + ob_units ob * Alignment M + UsableByPreviousChunk M
     \<and> ob_value M H ob mod unat (ob_align ob) = 0"

definition object_ok :: "'s memory_algorithm \<Rightarrow> extent \<Rightarrow> bytes \<Rightarrow> sm_object \<Rightarrow> bool" where
  "object_ok M H m ob \<longleftrightarrow> ob_shape ob \<and> ob_stored M H m ob \<and> ob_placed M H ob"

text \<open>The names of a kind of objects.\<close>

definition named_as :: "'s memory_algorithm \<Rightarrow> extent \<Rightarrow> sm_object set \<Rightarrow> instance_type \<Rightarrow> (byte list \<rightharpoonup> nat) \<Rightarrow> bool" where
  "named_as M H Obs type f \<longleftrightarrow>
     (\<forall>k v. f k = Some v \<longleftrightarrow> (\<exists>ob\<in>Obs. ob_kind ob = type \<and> ob_name ob = k \<and> ob_node M H ob = v))"

definition sm_rep ::
  "'s memory_algorithm \<Rightarrow> extent \<Rightarrow> ('s \<Rightarrow> (nat \<times> nat) set \<Rightarrow> bool) \<Rightarrow> (bytes \<Rightarrow> 'x \<Rightarrow> (byte list \<rightharpoonup> nat) \<Rightarrow> bool) \<Rightarrow>
     ('s, 'x) segment \<Rightarrow> (nat \<times> nat) set \<Rightarrow> sm_object set \<Rightarrow> bool" where
  "sm_rep M H live names st R Obs \<longleftrightarrow>
     live (sg_algo st) (R \<union> blk ` Obs) \<and> inj_on blk Obs \<and> R \<inter> blk ` Obs = {}
     \<and> (\<forall>ob\<in>Obs. object_ok M H (sg_bytes st) ob)
     \<and> (\<exists>f. names (sg_bytes st) (m_named_index st) f \<and> named_as M H Obs named_type f)
     \<and> (\<exists>f. names (sg_bytes st) (m_unique_index st) f \<and> named_as M H Obs unique_type f)"

text \<open>User code keeps to the object it is called for.\<close>

definition proxy_ok :: "ctype \<Rightarrow> 'e proxy \<Rightarrow> bool" where
  "proxy_ok T pr \<longleftrightarrow> (\<forall>k p m x. x < p \<or> p + unat (sizeof T) \<le> x \<longrightarrow> fst (pr k p m) x = m x)"

definition ctype_ok :: "ctype \<Rightarrow> bool" where
  "ctype_ok T \<longleftrightarrow> sizeof T \<noteq> 0 \<and> (\<exists>j<32. alignof T = 2 ^ j) \<and> 0 \<notin> set (type_name T) \<and> length (type_name T) < 2 ^ 16
     \<and> (\<forall>p m x. x < p \<or> p + unat (sizeof T) \<le> x \<longrightarrow> dtor T p m x = m x)"

text \<open>The bytes of a block that its owner may use.\<close>

definition user_region :: "'s memory_algorithm \<Rightarrow> nat \<times> nat \<Rightarrow> nat set" where
  "user_region M b = {fst b + AllocatedCtrlBytes M..<fst b + snd b * Alignment M + UsableByPreviousChunk M}"

definition unchanged :: "'s memory_algorithm \<Rightarrow> (nat \<times> nat) set \<Rightarrow> bytes \<Rightarrow> bytes \<Rightarrow> bool" where
  "unchanged M A m m' \<longleftrightarrow> (\<forall>b\<in>A. \<forall>x\<in>user_region M b. m' x = m x)"

section \<open>Arrays of objects\<close>

definition elem_addrs :: "ctype \<Rightarrow> nat \<Rightarrow> nat \<Rightarrow> nat list" where
  "elem_addrs T mem num = map (\<lambda>k. mem + k * unat (sizeof T)) [0..<num]"

lemma elem_addrs_Suc: "elem_addrs T mem (Suc n) = mem # elem_addrs T (mem + unat (sizeof T)) n"
  by (simp add: elem_addrs_def upt_conv_Cons map_Suc_upt [symmetric] comp_def add.assoc del: upt_Suc)

lemma elem_addrs_snoc: "elem_addrs T mem (Suc n) = elem_addrs T mem n @ [mem + n * unat (sizeof T)]"
  by (simp add: elem_addrs_def)

lemma destroy_n_effect:
  assumes "ctype_ok T"
  shows "\<exists>m. priv_destroy_n T mem num st = st\<lparr>sg_bytes := m, sg_calls := sg_calls st @ map Dtor (elem_addrs T mem num)\<rparr>
    \<and> (\<forall>x. x < mem \<or> mem + num * unat (sizeof T) \<le> x \<longrightarrow> m x = sg_bytes st x)"
proof (induction num arbitrary: mem st)
  case 0
  show ?case by (auto simp: elem_addrs_def intro: exI [of _ "sg_bytes st"])
next
  case (Suc num)
  let ?s = "unat (sizeof T)" and ?st = "destroy_one T mem st"
  obtain m where m: "priv_destroy_n T (mem + ?s) num ?st =
      ?st\<lparr>sg_bytes := m, sg_calls := sg_calls ?st @ map Dtor (elem_addrs T (mem + ?s) num)\<rparr>"
      "\<And>x. x < mem + ?s \<or> mem + ?s + num * ?s \<le> x \<Longrightarrow> m x = sg_bytes ?st x"
    using Suc.IH [of "mem + ?s" ?st] by blast
  have "m x = sg_bytes st x" if "x < mem \<or> mem + Suc num * ?s \<le> x" for x
  proof -
    have "m x = sg_bytes ?st x" using that by (intro m(2)) auto
    also have "\<dots> = sg_bytes st x" using assms that by (auto simp: destroy_one_def ctype_ok_def)
    finally show ?thesis .
  qed
  then show ?case using m(1) by (auto simp: destroy_one_def elem_addrs_Suc)
qed

text \<open>
  Either all objects are constructed, or a constructor throws and exactly the objects constructed before are
  destroyed again; only the memory of the array changes.
\<close>

lemma construct_from_effect:
  assumes T: "ctype_ok T" and pr: "proxy_ok T pr" and c: "sg_calls st = cs @ map Ctor (elem_addrs T mem k)"
  shows "\<exists>m r calls. construct_from pr T mem k n st = (st\<lparr>sg_bytes := m, sg_calls := cs @ calls\<rparr>, r)
    \<and> (\<forall>x. x < mem \<or> mem + (k + n) * unat (sizeof T) \<le> x \<longrightarrow> m x = sg_bytes st x)
    \<and> (if r = None then calls = map Ctor (elem_addrs T mem (k + n))
       else \<exists>i<k + n. calls = map Ctor (elem_addrs T mem i) @ map Dtor (elem_addrs T mem i))"
  using c
proof (induction n arbitrary: k st)
  case 0
  then have "st\<lparr>sg_bytes := sg_bytes st, sg_calls := cs @ map Ctor (elem_addrs T mem k)\<rparr> = st" by simp
  then show ?case by (auto intro!: exI [of _ "sg_bytes st"] exI [of _ None])
next
  case (Suc n)
  let ?s = "unat (sizeof T)" and ?p = "mem + k * unat (sizeof T)"
  obtain m r where pk: "pr k ?p (sg_bytes st) = (m, r)" by (cases "pr k ?p (sg_bytes st)")
  have fm: "m x = sg_bytes st x" if "x < ?p \<or> ?p + ?s \<le> x" for x
    using pr that pk unfolding proxy_ok_def by (metis fst_conv)
  have out: "m x = sg_bytes st x" if "x < mem \<or> mem + (k + Suc n) * ?s \<le> x" for x
  proof (rule fm)
    have "k * ?s + ?s \<le> (k + Suc n) * ?s" by (simp add: add_mult_distrib)
    then show "x < ?p \<or> ?p + ?s \<le> x" using that by linarith
  qed
  show ?case
  proof (cases r)
    case None
    let ?st = "st\<lparr>sg_bytes := m, sg_calls := sg_calls st @ [Ctor ?p]\<rparr>"
    have "sg_calls ?st = cs @ map Ctor (elem_addrs T mem (Suc k))" using Suc.prems by (simp add: elem_addrs_snoc)
    from Suc.IH [OF this] obtain m' r' calls where h:
      "construct_from pr T mem (Suc k) n ?st = (?st\<lparr>sg_bytes := m', sg_calls := cs @ calls\<rparr>, r')"
      "\<forall>x. x < mem \<or> mem + (Suc k + n) * ?s \<le> x \<longrightarrow> m' x = sg_bytes ?st x"
      "if r' = None then calls = map Ctor (elem_addrs T mem (Suc k + n))
       else \<exists>i<Suc k + n. calls = map Ctor (elem_addrs T mem i) @ map Dtor (elem_addrs T mem i)" by blast
    have e: "Suc k + n = k + Suc n" by simp
    have "construct_from pr T mem k (Suc n) st = (st\<lparr>sg_bytes := m', sg_calls := cs @ calls\<rparr>, r')"
      using h(1) pk None by simp
    moreover have "\<forall>x. x < mem \<or> mem + (k + Suc n) * ?s \<le> x \<longrightarrow> m' x = sg_bytes st x"
      using h(2) out unfolding e by simp
    ultimately show ?thesis using h(3) unfolding e by blast
  next
    case (Some e)
    obtain m' where d: "priv_destroy_n T mem k (st\<lparr>sg_bytes := m\<rparr>) =
        st\<lparr>sg_bytes := m', sg_calls := sg_calls st @ map Dtor (elem_addrs T mem k)\<rparr>"
        "\<forall>x. x < mem \<or> mem + k * ?s \<le> x \<longrightarrow> m' x = m x"
      using destroy_n_effect [OF T, of mem k "st\<lparr>sg_bytes := m\<rparr>"] by auto
    have "construct_from pr T mem k (Suc n) st =
        (st\<lparr>sg_bytes := m', sg_calls := cs @ (map Ctor (elem_addrs T mem k) @ map Dtor (elem_addrs T mem k))\<rparr>, r)"
      using d(1) pk Some Suc.prems by simp
    moreover have "\<forall>x. x < mem \<or> mem + (k + Suc n) * ?s \<le> x \<longrightarrow> m' x = sg_bytes st x"
    proof (intro allI impI)
      fix x assume x: "x < mem \<or> mem + (k + Suc n) * ?s \<le> x"
      have "k * ?s \<le> (k + Suc n) * ?s" by (intro mult_le_mono1) simp
      then have "x < mem \<or> mem + k * ?s \<le> x" using x by linarith
      then show "m' x = sg_bytes st x" using d(2) out [OF x] by metis
    qed
    moreover have "\<exists>i<k + Suc n. map Ctor (elem_addrs T mem k) @ map Dtor (elem_addrs T mem k) =
        map Ctor (elem_addrs T mem i) @ map Dtor (elem_addrs T mem i)" by (intro exI [of _ k]) simp
    ultimately show ?thesis using Some by (auto intro!: exI [of _ m'] exI [of _ r])
  qed
qed

lemma construct_n_effect:
  assumes "ctype_ok T" "proxy_ok T pr"
  obtains m r calls where "construct_n pr T mem num st = (st\<lparr>sg_bytes := m, sg_calls := sg_calls st @ calls\<rparr>, r)"
    "\<And>x. x < mem \<or> mem + unat num * unat (sizeof T) \<le> x \<Longrightarrow> m x = sg_bytes st x"
    "if r = None then calls = map Ctor (elem_addrs T mem (unat num))
     else \<exists>i<unat num. calls = map Ctor (elem_addrs T mem i) @ map Dtor (elem_addrs T mem i)"
proof -
  have "sg_calls st = sg_calls st @ map Ctor (elem_addrs T mem 0)" by (simp add: elem_addrs_def)
  from construct_from_effect [OF assms this, of "unat num"] show ?thesis
    using that unfolding construct_n_def add_0 by blast
qed

section \<open>Outcomes\<close>

text \<open>
  The possible outcomes of a construction: a new object, null or an exception of the library with everything as
  before, or an exception of a constructor after which the objects constructed before it have been destroyed
  and everything is as before. The blocks that were allocated before are never touched.
\<close>

definition made_as :: "ctype \<Rightarrow> instance_type \<Rightarrow> byte list \<Rightarrow> size_t \<Rightarrow> sm_object \<Rightarrow> bool" where
  "made_as T type name num ob \<longleftrightarrow> ob_kind ob = type \<and> ob_name ob = name \<and> ob_align ob = alignof T \<and> ob_vbytes ob = sizeof T * num"

definition construct_outcome ::
  "'s memory_algorithm \<Rightarrow> extent \<Rightarrow> (('s, 'x) segment \<Rightarrow> (nat \<times> nat) set \<Rightarrow> sm_object set \<Rightarrow> bool) \<Rightarrow> ctype \<Rightarrow> instance_type \<Rightarrow>
     byte list \<Rightarrow> size_t \<Rightarrow> bool \<Rightarrow> ('s, 'x) segment \<Rightarrow> (nat \<times> nat) set \<Rightarrow> sm_object set \<Rightarrow> ('s, 'x) segment \<Rightarrow> 'e thrown + nat \<Rightarrow> bool"
where
  "construct_outcome M H rp T type name num dothrow st R Obs st' res \<longleftrightarrow>
     unchanged M (R \<union> blk ` Obs) (sg_bytes st) (sg_bytes st')
     \<and> (case res of
          Inr p \<Rightarrow>
            if p = 0 then \<not> dothrow \<and> rp st' R Obs \<and> sg_calls st' = sg_calls st
            else \<exists>ob. ob \<notin> Obs \<and> p = ob_value M H ob \<and> made_as T type name num ob \<and> rp st' R (insert ob Obs)
                   \<and> sg_calls st' = sg_calls st @ map Ctor (elem_addrs T p (unat num))
        | Inl (Library e) \<Rightarrow> dothrow \<and> rp st' R Obs \<and> sg_calls st' = sg_calls st
        | Inl (Object e) \<Rightarrow> rp st' R Obs \<and> (\<exists>p. \<exists>k<unat num.
            sg_calls st' = sg_calls st @ map Ctor (elem_addrs T p k) @ map Dtor (elem_addrs T p k)))"

text \<open>The outcome of the destruction of an object: its elements are destroyed, its block and its name are free
  again, and nothing else is touched.\<close>

definition destroy_outcome ::
  "'s memory_algorithm \<Rightarrow> extent \<Rightarrow> (('s, 'x) segment \<Rightarrow> (nat \<times> nat) set \<Rightarrow> sm_object set \<Rightarrow> bool) \<Rightarrow> ctype \<Rightarrow> sm_object \<Rightarrow>
     ('s, 'x) segment \<Rightarrow> (nat \<times> nat) set \<Rightarrow> sm_object set \<Rightarrow> ('s, 'x) segment \<Rightarrow> bool" where
  "destroy_outcome M H rp T ob st R Obs st' \<longleftrightarrow>
     rp st' R (Obs - {ob}) \<and> unchanged M (R \<union> blk ` (Obs - {ob})) (sg_bytes st) (sg_bytes st')
     \<and> sg_calls st' = sg_calls st @ map Dtor (elem_addrs T (ob_value M H ob) (unat (ob_vbytes ob div sizeof T)))"

end
