(* ===== verification/Segment_Correct.thy ===== *)
theory Segment_Correct
  imports Segment_Rep
begin

text \<open>
  The operations of the segment manager on represented states, proved once for every memory algorithm and every
  index that keep their contracts. A block that is allocated but not yet (or no longer) an object counts as a raw
  block: construction allocates a raw block, writes it and adopts it as an object, destruction abandons the object
  and gives the block back.
\<close>

locale segment_memory = mem_algo M i live for M :: "'s memory_algorithm" and i live +
  assumes live_apart: "live s A \<Longrightarrow> (a, n) \<in> A \<Longrightarrow> (b, m) \<in> A \<Longrightarrow> (a, n) \<noteq> (b, m) \<Longrightarrow>
      a + n * Alignment M \<le> b \<or> b + m * Alignment M \<le> a"

locale segment_parts = segment_memory M i live + name_index X H names
  for M :: "'s memory_algorithm" and i live and X :: "'x index_ops" and H names +
  assumes header_extent: "header_extent_ok H"
begin

abbreviation "rep \<equiv> sm_rep M H live names"
abbreviation "ctrl \<equiv> AllocatedCtrlBytes M"
abbreviation "reg \<equiv> user_region M"

lemma regs_disjoint:
  assumes "live s A" "b \<in> A" "c \<in> A" "b \<noteq> c"
  shows "reg b \<inter> reg c = {}"
proof -
  have u: "UsableByPreviousChunk M < ctrl"
    using usable ctrl_units(1) by (cases "AllocatedCtrlUnits M") (auto simp: AllocatedCtrlBytes_def)
  have "fst b + snd b * Alignment M \<le> fst c \<or> fst c + snd c * Alignment M \<le> fst b"
    using live_apart [OF assms(1), of "fst b" "snd b" "fst c" "snd c"] assms(2-4) by auto
  then show ?thesis using u by (auto simp: user_region_def)
qed

section \<open>The layout of an object\<close>

lemma between: "unat (sm_between_headers H) = unat (sizeof H)"
  by (simp add: between_headers_nat [OF header_extent])

lemma shape_layout:
  assumes "ob_shape ob"
  shows "ob_value M H ob = ob_hdr M H ob + 8" "ob_hdr M H ob + 8 + unat (ob_vbytes ob) \<le> ob_end M H ob"
    "ob_block ob + ctrl \<le> ob_hdr M H ob" "value_bytes (ob_header ob) = ob_vbytes ob"
    "instance_of_code (alloc_type (ob_header ob)) = ob_kind ob"
proof -
  have v: "unat (ob_vbytes ob) < 2 ^ 62" using assms by (simp add: ob_shape_def)
  show vb: "value_bytes (ob_header ob) = ob_vbytes ob" unfolding ob_header_def by (rule value_bytes_ctor [OF v])
  show "ob_value M H ob = ob_hdr M H ob + 8" by (simp add: ob_value_def value_ptr_def value_offset_def sizeof_block_header_def)
  show "ob_hdr M H ob + 8 + unat (ob_vbytes ob) \<le> ob_end M H ob"
    using name_offset_nat [of "ob_header ob"] v by (simp add: ob_end_def vb)
  show "ob_block ob + ctrl \<le> ob_hdr M H ob" by (simp add: ob_hdr_def)
  show "instance_of_code (alloc_type (ob_header ob)) = ob_kind ob" by (simp add: ob_header_def)
qed

lemma named_layout:
  assumes "ob_shape ob" "ob_kind ob \<noteq> anonymous_type"
  shows "ob_node M H ob = ob_block ob + ctrl + unat (front_space_with_header (ob_align ob) H)"
    "from_first_header H (ob_node M H ob) = ob_hdr M H ob" "ob_node M H ob \<le> ob_hdr M H ob"
    "8 + unat (ob_vbytes ob) \<le> unat (name_length_offset (ob_header ob))"
    "unat (name_offset (ob_header ob)) = unat (name_length_offset (ob_header ob)) + 2"
    "ob_end M H ob = ob_hdr M H ob + unat (name_offset (ob_header ob)) + length (ob_name ob) + 1"
proof -
  obtain j where j: "ob_align ob = 2 ^ j" "j < 32" using assms(1) by (auto simp: ob_shape_def)
  note P = named_prefix_nat [OF header_extent j]
  have p: "ob_prefix H ob = unat (front_space_with_header (ob_align ob) H) + unat (sizeof H)"
    using assms(2) P by (simp add: ob_prefix_def)
  then show "ob_node M H ob = ob_block ob + ctrl + unat (front_space_with_header (ob_align ob) H)"
    by (simp add: ob_node_def to_first_header_def between ob_hdr_def)
  then show "from_first_header H (ob_node M H ob) = ob_hdr M H ob" "ob_node M H ob \<le> ob_hdr M H ob"
    using p by (simp_all add: from_first_header_def between ob_hdr_def)
  have v: "unat (ob_vbytes ob) < 2 ^ 62" using assms by (simp add: ob_shape_def)
  note N = name_offset_nat [of "ob_header ob", unfolded shape_layout(4) [OF assms(1)], OF v]
  show "8 + unat (ob_vbytes ob) \<le> unat (name_length_offset (ob_header ob))"
    "unat (name_offset (ob_header ob)) = unat (name_length_offset (ob_header ob)) + 2" using N by simp_all
  show "ob_end M H ob = ob_hdr M H ob + unat (name_offset (ob_header ob)) + length (ob_name ob) + 1"
    using assms(2) by (simp add: ob_end_def)
qed

text \<open>The control bytes: the header, and everything behind the value.\<close>

definition control :: "sm_object \<Rightarrow> nat set" where
  "control ob = {ob_hdr M H ob..<ob_hdr M H ob + 8} \<union> {ob_hdr M H ob + 8 + unat (ob_vbytes ob)..<ob_end M H ob}"

lemma stored_frame:
  assumes s: "ob_shape ob" "ob_stored M H m ob" and eq: "\<And>x. x \<in> control ob \<Longrightarrow> m' x = m x"
  shows "ob_stored M H m' ob"
proof -
  have h: "header_at m' (ob_hdr M H ob) = header_at m (ob_hdr M H ob)"
    by (rule header_at_eqI) (auto intro!: eq simp: control_def)
  show ?thesis
  proof (cases "ob_kind ob = anonymous_type")
    case True
    then show ?thesis using s(2) h by (simp add: ob_stored_def)
  next
    case False
    note L = named_layout [OF s(1) False]
    have "get_bytes m' (ob_hdr M H ob + unat (name_length_offset (ob_header ob))) 2 =
        get_bytes m (ob_hdr M H ob + unat (name_length_offset (ob_header ob))) 2"
      by (rule get_bytes_eqI) (rule eq, use L in \<open>auto simp: control_def\<close>)
    moreover have "get_bytes m' (ob_hdr M H ob + unat (name_offset (ob_header ob))) (Suc (length (ob_name ob))) =
        get_bytes m (ob_hdr M H ob + unat (name_offset (ob_header ob))) (Suc (length (ob_name ob)))"
      by (rule get_bytes_eqI) (rule eq, use L in \<open>auto simp: control_def\<close>)
    ultimately show ?thesis using s(2) h by (simp add: ob_stored_def)
  qed
qed

lemma stored_name:
  assumes s: "ob_shape ob" "ob_stored M H m ob" and k: "ob_kind ob \<noteq> anonymous_type"
  shows "key_at H m (ob_node M H ob) = ob_name ob" "name_ptr m (ob_hdr M H ob) = ob_hdr M H ob + unat (name_offset (ob_header ob))"
    "char_traits_length m (name_ptr m (ob_hdr M H ob)) = Some (length (ob_name ob))"
    "get_bytes m (name_ptr m (ob_hdr M H ob)) (length (ob_name ob)) = ob_name ob"
proof -
  let ?n = "length (ob_name ob)"
  have h: "header_at m (ob_hdr M H ob) = ob_header ob" using s by (simp add: ob_stored_def)
  show np: "name_ptr m (ob_hdr M H ob) = ob_hdr M H ob + unat (name_offset (ob_header ob))" by (simp add: name_ptr_def h)
  have g: "get_bytes m (name_ptr m (ob_hdr M H ob)) (Suc ?n) = ob_name ob @ [0]"
    using s k unfolding np by (simp add: ob_stored_def)
  then show "char_traits_length m (name_ptr m (ob_hdr M H ob)) = Some ?n"
    using s(1) by (intro char_traits_length_at) (auto simp: ob_shape_def)
  show gn: "get_bytes m (name_ptr m (ob_hdr M H ob)) ?n = ob_name ob"
    using g by (simp add: get_bytes_def)
  have "m_alloc_type (ob_header ob) \<noteq> ucast (instance_code anonymous_type)"
    using k s(1) by (cases "ob_kind ob") (simp_all add: ob_header_def block_header_ctor_def)
  moreover have "get_bytes m (ob_hdr M H ob + unat (name_length_offset (ob_header ob))) 2 = le_bytes 2 ?n"
    using s k by (simp add: ob_stored_def)
  moreover have "?n < 256 ^ 2" using s(1) by (simp add: ob_shape_def)
  ultimately have "name_length m (ob_hdr M H ob) = of_nat ?n" by (simp add: name_length_def h le_value_bytes)
  then have "unat (name_length m (ob_hdr M H ob)) = ?n" using s(1) by (simp add: ob_shape_def unat_of_nat)
  then show "key_at H m (ob_node M H ob) = ob_name ob"
    by (simp add: key_at_def named_layout(2) [OF s(1) k] name_at_def gn)
qed

lemma object_in_reg:
  assumes "object_ok M H m ob"
  shows "control ob \<subseteq> reg (blk ob)" "{ob_value M H ob..<ob_value M H ob + unat (ob_vbytes ob)} \<subseteq> reg (blk ob)"
    "ob_kind ob \<noteq> anonymous_type \<Longrightarrow> ob_node M H ob \<in> reg (blk ob)"
    "control ob \<inter> {ob_value M H ob..<ob_value M H ob + unat (ob_vbytes ob)} = {}"
proof -
  have s: "ob_shape ob" and e: "ob_end M H ob \<le> ob_block ob + ob_units ob * Alignment M + UsableByPreviousChunk M"
    using assms by (auto simp: object_ok_def ob_placed_def)
  note L = shape_layout [OF s]
  show "control ob \<subseteq> reg (blk ob)" "{ob_value M H ob..<ob_value M H ob + unat (ob_vbytes ob)} \<subseteq> reg (blk ob)"
    using L(1-3) e by (auto simp: control_def user_region_def blk_def)
  show "control ob \<inter> {ob_value M H ob..<ob_value M H ob + unat (ob_vbytes ob)} = {}"
    using L(1) by (auto simp: control_def)
  assume k: "ob_kind ob \<noteq> anonymous_type"
  show "ob_node M H ob \<in> reg (blk ob)" using named_layout(1,3) [OF s k] L(2) e by (auto simp: user_region_def blk_def)
qed

section \<open>Frames\<close>

lemma repD:
  assumes "rep st R Obs"
  shows "live (sg_algo st) (R \<union> blk ` Obs)" "inj_on blk Obs" "R \<inter> blk ` Obs = {}"
    "ob \<in> Obs \<Longrightarrow> object_ok M H (sg_bytes st) ob" "ob \<in> Obs \<Longrightarrow> ob_shape ob"
  using assms unfolding sm_rep_def object_ok_def by blast+

lemma rep_index:
  assumes "rep st R Obs" "type = named_type \<or> type = unique_type"
  obtains f where "names (sg_bytes st) (index_of type st) f" "named_as M H Obs type f"
  using assms unfolding sm_rep_def index_of_def by auto

lemma node_keys:
  assumes "named_as M H Obs type f" "type \<noteq> anonymous_type" "v \<in> ran f"
    and "\<And>ob. ob \<in> Obs \<Longrightarrow> ob_shape ob \<and> ob_stored M H m ob \<and> ob_stored M H m' ob"
  shows "key_at H m' v = key_at H m v"
proof -
  obtain ob where ob: "ob \<in> Obs" "ob_kind ob = type" "ob_node M H ob = v"
    using assms(1,3) by (auto simp: named_as_def ran_def)
  then show ?thesis using assms(2) assms(4) [OF ob(1)] stored_name(1) [of ob] by metis
qed

text \<open>Memory outside the control bytes may change.\<close>

lemma rep_bytes:
  assumes r: "rep st R Obs" and eq: "\<And>ob x. ob \<in> Obs \<Longrightarrow> x \<in> control ob \<Longrightarrow> m x = sg_bytes st x"
  shows "rep (st\<lparr>sg_bytes := m, sg_calls := cs\<rparr>) R Obs"
proof -
  have st: "ob_shape ob \<and> ob_stored M H (sg_bytes st) ob \<and> ob_stored M H m ob" if "ob \<in> Obs" for ob
    using repD(4) [OF r that] stored_frame [of ob "sg_bytes st" m] eq that unfolding object_ok_def by blast
  have k: "names m x f" if "names (sg_bytes st) x f" "named_as M H Obs type f" "type \<noteq> anonymous_type" for x f type
    by (rule names_frame [OF that(1)], rule node_keys [OF that(2,3)]) (simp_all add: st)
  show ?thesis using r st k unfolding sm_rep_def object_ok_def by simp blast
qed

text \<open>In particular the bytes of raw blocks.\<close>

lemma rep_raw_write:
  assumes r: "rep st R Obs" and b: "b \<in> R" and eq: "\<And>x. x \<notin> reg b \<Longrightarrow> m x = sg_bytes st x"
  shows "rep (st\<lparr>sg_bytes := m, sg_calls := cs\<rparr>) R Obs"
proof (rule rep_bytes [OF r])
  fix ob x assume ob: "ob \<in> Obs" "x \<in> control ob"
  have "b \<noteq> blk ob" using repD(3) [OF r] b ob(1) by blast
  then have "reg b \<inter> reg (blk ob) = {}" using regs_disjoint [OF repD(1) [OF r]] b ob(1) by blast
  then show "m x = sg_bytes st x" using object_in_reg(1) [OF repD(4) [OF r ob(1)]] ob(2) by (intro eq) blast
qed

text \<open>And the values of objects.\<close>

lemma rep_value_write:
  assumes r: "rep st R Obs" and ob: "ob \<in> Obs"
    and eq: "\<And>x. x \<notin> {ob_value M H ob..<ob_value M H ob + unat (ob_vbytes ob)} \<Longrightarrow> m x = sg_bytes st x"
  shows "rep (st\<lparr>sg_bytes := m, sg_calls := cs\<rparr>) R Obs"
proof (rule rep_bytes [OF r])
  fix ob' x assume o': "ob' \<in> Obs" "x \<in> control ob'"
  note I = object_in_reg [OF repD(4) [OF r ob]]
  show "m x = sg_bytes st x"
  proof (cases "ob' = ob")
    case True
    then show ?thesis using o'(2) I(4) by (intro eq) blast
  next
    case False
    then have "blk ob' \<noteq> blk ob" using repD(2) [OF r] ob o'(1) by (meson inj_onD)
    then have "reg (blk ob) \<inter> reg (blk ob') = {}" using regs_disjoint [OF repD(1) [OF r]] ob o'(1) by blast
    then show ?thesis using o'(2) object_in_reg(1) [OF repD(4) [OF r o'(1)]] I(2) by (intro eq) blast
  qed
qed

section \<open>Raw blocks\<close>

lemma allocate_raw:
  assumes r: "rep st R Obs" and al: "alignment = 2 ^ j" "j < 32" and n: "unat nbytes \<le> 2 ^ 62 + 2 ^ 34"
  shows "\<exists>st' p. sm_allocate_aligned_nothrow M nbytes alignment st = Some (st', p)
    \<and> (p = 0 \<and> st' = st \<or> (\<exists>a k s. p = a + ctrl \<and> p mod 2 ^ j = 0 \<and> 0 < p \<and> st' = st\<lparr>sg_algo := s\<rparr> \<and> (a, k) \<notin> R \<union> blk ` Obs
         \<and> rep st' (insert (a, k) R) Obs \<and> p + unat nbytes \<le> a + k * Alignment M + UsableByPreviousChunk M))"
proof -
  have p: "unat alignment \<le> 2 ^ 31"
  proof -
    have "(2::nat) ^ j \<le> 2 ^ 31" using al(2) by (intro power_increasing) auto
    then show ?thesis using al unat_pow2_size [of j] by simp
  qed
  have "(2 * BlockCtrlUnits M + 4) * Alignment M \<le> 2 ^ 18 * 2 ^ 31"
    using ctrl_units(3) Al_word(3) by (intro mult_le_mono) simp_all
  then have big: "2 * unat nbytes + unat alignment + (2 * BlockCtrlUnits M + 4) * Alignment M \<le> 2 ^ 64" using n p by simp
  have j: "j < 64" using al(2) by simp
  obtain s p where s: "allocate_aligned M (sg_algo st) nbytes alignment = Some (s, p)"
    "p = 0 \<and> s = sg_algo st \<or> (\<exists>a k. p = a + ctrl \<and> p mod 2 ^ j = 0 \<and> (a, k) \<notin> R \<union> blk ` Obs
         \<and> live s (insert (a, k) (R \<union> blk ` Obs)) \<and> unat nbytes \<le> user_bytes k)"
    using allocate_aligned_live [OF repD(1) [OF r] big al(1) j] by (elim exE conjE) (rule that)
  have e: "sm_allocate_aligned_nothrow M nbytes alignment st = Some (st\<lparr>sg_algo := s\<rparr>, p)"
    using s(1) by (simp add: sm_allocate_aligned_nothrow_def)
  show ?thesis
  proof (cases "p = 0 \<and> s = sg_algo st")
    case True
    then show ?thesis using e by simp
  next
    case False
    then obtain a k where b: "p = a + ctrl" "p mod 2 ^ j = 0" "(a, k) \<notin> R \<union> blk ` Obs"
        "live s (insert (a, k) (R \<union> blk ` Obs))" "unat nbytes \<le> user_bytes k"
      using s(2) by (elim disjE exE conjE) (fast, rule that)
    have lb: "BlockCtrlUnits M \<le> k" "0 < a" using live_block [OF b(4), of a k] by simp_all
    have "ctrl \<le> k * Alignment M" using lb(1) ctrl_units(2) unfolding AllocatedCtrlBytes_def by (intro mult_le_mono1) simp
    then have "p + unat nbytes \<le> a + k * Alignment M + UsableByPreviousChunk M"
      using b(1,5) unfolding AllocatedCtrlBytes_def diff_mult_distrib by linarith
    moreover have "rep (st\<lparr>sg_algo := s\<rparr>) (insert (a, k) R) Obs" using r b(3,4) by (auto simp: sm_rep_def index_of_def)
    moreover have "0 < p" using b(1) lb(2) by simp
    ultimately show ?thesis using e b
      by (intro exI [of _ "st\<lparr>sg_algo := s\<rparr>"] exI [of _ p] conjI disjI2 exI [of _ a] exI [of _ k] exI [of _ s]) simp_all
  qed
qed

lemma deallocate_raw:
  assumes r: "rep st (insert (a, k) R) Obs" and b: "(a, k) \<notin> R"
  shows "\<exists>s. sm_deallocate M (a + ctrl) st = Some (st\<lparr>sg_algo := s\<rparr>) \<and> rep (st\<lparr>sg_algo := s\<rparr>) R Obs"
proof -
  obtain s where s: "priv_deallocate M (sg_algo st) (a + ctrl) = Some s" "live s (insert (a, k) R \<union> blk ` Obs - {(a, k)})"
    using dealloc_block [OF repD(1) [OF r], of a k] by auto
  have "insert (a, k) R \<union> blk ` Obs - {(a, k)} = R \<union> blk ` Obs" using repD(3) [OF r] b by auto
  then show ?thesis using s r by (auto simp: sm_deallocate_def sm_rep_def index_of_def)
qed

section \<open>Adopting and abandoning objects\<close>

lemma node_inj:
  assumes r: "rep st R Obs" and ob: "ob \<in> Obs" "ob' \<in> Obs" "ob_kind ob \<noteq> anonymous_type" "ob_kind ob' \<noteq> anonymous_type"
    and eq: "ob_node M H ob = ob_node M H ob'"
  shows "ob = ob'"
proof (rule ccontr)
  assume ne: "ob \<noteq> ob'"
  then have "blk ob \<noteq> blk ob'" using repD(2) [OF r] ob by (meson inj_onD)
  then have "reg (blk ob) \<inter> reg (blk ob') = {}" using regs_disjoint [OF repD(1) [OF r]] ob by blast
  then show False using object_in_reg(3) [OF repD(4) [OF r]] ob eq by fastforce
qed

lemma named_unique:
  assumes r: "rep st R Obs" and f: "named_as M H Obs type f" "type \<noteq> anonymous_type"
    and ob: "ob \<in> Obs" "ob' \<in> Obs" "ob_kind ob = type" "ob_kind ob' = type" "ob_name ob = ob_name ob'"
  shows "ob = ob'"
proof (rule node_inj [OF r ob(1,2)])
  show "ob_node M H ob = ob_node M H ob'" using f(1) ob unfolding named_as_def by (metis option.inject)
qed (use f(2) ob in auto)

lemma adopt_anonymous:
  assumes r: "rep st (insert (blk ob) R) Obs" and b: "blk ob \<notin> R" and ok: "object_ok M H (sg_bytes st) ob"
    and k: "ob_kind ob = anonymous_type"
  shows "rep st R (insert ob Obs)"
proof -
  have n: "blk ob \<notin> blk ` Obs" using repD(3) [OF r] by blast
  have na: "named_as M H (insert ob Obs) type f = named_as M H Obs type f" if "type \<noteq> anonymous_type" for type f
    using k that by (auto simp: named_as_def)
  show ?thesis using r ok n b by (auto simp: sm_rep_def na)
qed

lemma abandon_anonymous:
  assumes r: "rep st R Obs" and ob: "ob \<in> Obs" "ob_kind ob = anonymous_type"
  shows "rep st (insert (blk ob) R) (Obs - {ob})" "blk ob \<notin> R"
proof -
  have na: "named_as M H (Obs - {ob}) type f = named_as M H Obs type f" if "type \<noteq> anonymous_type" for type f
    using ob that unfolding named_as_def by (metis Diff_iff empty_iff insert_iff)
  have inj: "inj_on blk Obs" by (rule repD(2) [OF r])
  then have "blk ` (Obs - {ob}) = blk ` Obs - {blk ob}" using ob(1) by (simp add: inj_on_image_set_diff [of blk Obs])
  moreover from this have "insert (blk ob) R \<union> blk ` (Obs - {ob}) = R \<union> blk ` Obs" using ob(1) by auto
  moreover show "blk ob \<notin> R" using repD(3) [OF r] ob(1) by blast
  ultimately show "rep st (insert (blk ob) R) (Obs - {ob})"
    using r inj by (auto simp: sm_rep_def na intro: inj_on_subset)
qed

lemma index_of_set [simp]:
  "type' = named_type \<or> type' = unique_type \<Longrightarrow> type = named_type \<or> type = unique_type \<Longrightarrow>
    index_of type' (set_index type ix st) = (if type' = type then ix else index_of type' st)"
  by (auto simp: index_of_def set_index_def)

lemma set_index_fields [simp]:
  "sg_algo (set_index type ix st) = sg_algo st" "sg_bytes (set_index type ix st) = sg_bytes st"
  "sg_calls (set_index type ix st) = sg_calls st"
  by (simp_all add: set_index_def)

text \<open>A representation with the index of one kind given separately.\<close>

lemma repI:
  assumes "live (sg_algo st) (R \<union> blk ` Obs)" "inj_on blk Obs" "R \<inter> blk ` Obs = {}"
    and "\<And>ob. ob \<in> Obs \<Longrightarrow> object_ok M H (sg_bytes st) ob"
    and "\<And>type. type = named_type \<or> type = unique_type \<Longrightarrow> \<exists>f. names (sg_bytes st) (index_of type st) f \<and> named_as M H Obs type f"
  shows "rep st R Obs"
  using assms(1-4) assms(5) [of named_type] assms(5) [of unique_type] unfolding sm_rep_def by (simp add: index_of_def)

lemma adopt_named:
  assumes r: "rep st (insert (blk ob) R) Obs" and b: "blk ob \<notin> R" and ok: "object_ok M H (sg_bytes st) ob"
    and k: "ob_kind ob = type" "type = named_type \<or> type = unique_type"
    and f: "named_as M H Obs type f" "f (ob_name ob) = None"
    and ix: "names (sg_bytes st) ix (f(ob_name ob \<mapsto> ob_node M H ob))"
  shows "rep (set_index type ix st) R (insert ob Obs)"
proof (rule repI)
  have n: "blk ob \<notin> blk ` Obs" using repD(3) [OF r] by blast
  show "live (sg_algo (set_index type ix st)) (R \<union> blk ` insert ob Obs)" using repD(1) [OF r] by simp
  show "inj_on blk (insert ob Obs)" using repD(2) [OF r] n by (auto simp: inj_on_insert)
  show "R \<inter> blk ` insert ob Obs = {}" using repD(3) [OF r] b by auto
  show "object_ok M H (sg_bytes (set_index type ix st)) x" if "x \<in> insert ob Obs" for x
    using that ok repD(4) [OF r] by auto
  fix type' assume t: "type' = named_type \<or> type' = unique_type"
  show "\<exists>f. names (sg_bytes (set_index type ix st)) (index_of type' (set_index type ix st)) f \<and> named_as M H (insert ob Obs) type' f"
  proof (cases "type' = type")
    case True
    have "named_as M H (insert ob Obs) type (f(ob_name ob \<mapsto> ob_node M H ob))"
      unfolding named_as_def
    proof (intro allI)
      fix n v
      have none: "\<not> (\<exists>ob'\<in>Obs. ob_kind ob' = type \<and> ob_name ob' = ob_name ob)"
        using f by (force simp: named_as_def)
      show "(f(ob_name ob \<mapsto> ob_node M H ob)) n = Some v \<longleftrightarrow>
          (\<exists>ob'\<in>insert ob Obs. ob_kind ob' = type \<and> ob_name ob' = n \<and> ob_node M H ob' = v)"
        using f(1) none k(1) by (auto simp: named_as_def)
    qed
    then show ?thesis using ix True k(2) by auto
  next
    case False
    obtain g where g: "names (sg_bytes st) (index_of type' st) g" "named_as M H Obs type' g" by (rule rep_index [OF r t])
    have "named_as M H (insert ob Obs) type' g" using g(2) k(1) False by (auto simp: named_as_def)
    then show ?thesis using g(1) False t k(2) by auto
  qed
qed

lemma abandon_named:
  assumes r: "rep st R Obs" and ob: "ob \<in> Obs" "ob_kind ob = type" and t: "type = named_type \<or> type = unique_type"
  shows "rep (set_index type (ix_erase X (ob_node M H ob) (index_of type st)) st) (insert (blk ob) R) (Obs - {ob})" "blk ob \<notin> R"
proof -
  let ?st = "set_index type (ix_erase X (ob_node M H ob) (index_of type st)) st"
  have inj: "inj_on blk Obs" by (rule repD(2) [OF r])
  then have bs: "blk ` (Obs - {ob}) = blk ` Obs - {blk ob}" using ob(1) by (simp add: inj_on_image_set_diff [of blk Obs])
  show bR: "blk ob \<notin> R" using repD(3) [OF r] ob(1) by blast
  show "rep ?st (insert (blk ob) R) (Obs - {ob})"
  proof (rule repI)
    have "insert (blk ob) R \<union> blk ` (Obs - {ob}) = R \<union> blk ` Obs" using bs ob(1) by auto
    then show "live (sg_algo ?st) (insert (blk ob) R \<union> blk ` (Obs - {ob}))" using repD(1) [OF r] by simp
    show "inj_on blk (Obs - {ob})" using inj by (rule inj_on_subset) blast
    show "insert (blk ob) R \<inter> blk ` (Obs - {ob}) = {}" using repD(3) [OF r] bs by auto
    show "object_ok M H (sg_bytes ?st) x" if "x \<in> Obs - {ob}" for x using that repD(4) [OF r] by auto
    fix type' assume t': "type' = named_type \<or> type' = unique_type"
    obtain f where f: "names (sg_bytes st) (index_of type' st) f" "named_as M H Obs type' f" by (rule rep_index [OF r t'])
    show "\<exists>f. names (sg_bytes ?st) (index_of type' ?st) f \<and> named_as M H (Obs - {ob}) type' f"
    proof (cases "type' = type")
      case True
      have fn: "f (ob_name ob) = Some (ob_node M H ob)" using f(2) ob True by (auto simp: named_as_def)
      have tn: "type \<noteq> anonymous_type" using t by auto
      have other: "ob' = ob" if "ob' \<in> Obs" "ob_kind ob' = type" "ob_name ob' = ob_name ob" for ob'
        using named_unique [OF r f(2) [unfolded True] tn that(1) ob(1) that(2) ob(2) that(3)] .
      have "named_as M H (Obs - {ob}) type (f(ob_name ob := None))"
        using f(2) other True unfolding named_as_def by (auto split: if_splits)
      moreover have "names (sg_bytes st) (ix_erase X (ob_node M H ob) (index_of type st)) (f(ob_name ob := None))"
        using erase_names [OF f(1) fn] True by simp
      ultimately show ?thesis using True t by auto
    next
      case False
      have "named_as M H (Obs - {ob}) type' f" using f(2) ob(2) False unfolding named_as_def by (metis Diff_iff empty_iff insert_iff)
      then show ?thesis using f(1) False t t' by auto
    qed
  qed
qed

end

end
