(* ===== verification/Segment_Ops.thy ===== *)
theory Segment_Ops
  imports Segment_Correct
begin

text \<open>
  The outcomes of construction, search and destruction on represented states, for every memory algorithm and
  index that keep their contracts.
\<close>

context segment_parts
begin

section \<open>Control data\<close>

lemma type_size:
  assumes "ctype_ok T" "unat (sizeof T) * unat num < 2 ^ 62"
  shows "unat (sizeof T * num) = unat (sizeof T) * unat num" "unat (sizeof T * num) < 2 ^ 62"
    "(sizeof T * num) div sizeof T = num"
proof -
  show e: "unat (sizeof T * num) = unat (sizeof T) * unat num" using assms(2) by (intro unat_mult_lem') simp
  then show "unat (sizeof T * num) < 2 ^ 62" using assms(2) by simp
  have "unat (sizeof T) \<noteq> 0" using assms(1) by (simp add: ctype_ok_def unat_eq_0)
  then show "(sizeof T * num) div sizeof T = num" by (simp add: word_of_nat_unat_eq unat_div e)
qed

lemma written_header:
  fixes m :: bytes
  assumes s: "ob_shape ob" and k: "ob_kind ob = anonymous_type"
  defines "m' \<equiv> store_header m (ob_hdr M H ob) (ob_header ob)"
  shows "ob_stored M H m' ob" "x \<notin> control ob \<Longrightarrow> m' x = m x"
proof -
  show "ob_stored M H m' ob" using k by (simp add: ob_stored_def m'_def)
  show "x \<notin> control ob \<Longrightarrow> m' x = m x"
    unfolding m'_def store_header_def by (rule put_bytes_outside) (auto simp: control_def)
qed

lemma written_control:
  fixes m :: bytes
  assumes s: "ob_shape ob" and k: "ob_kind ob \<noteq> anonymous_type"
  defines "h \<equiv> ob_hdr M H ob"
  defines "m1 \<equiv> store_header m h (ob_header ob)"
  defines "m2 \<equiv> store_name_length m1 h (ucast (of_nat (length (ob_name ob)) :: size_t))"
  defines "m3 \<equiv> put_bytes m2 (name_ptr m2 h) (ob_name ob @ [0])"
  shows "ob_stored M H m3 ob" "x \<notin> control ob \<Longrightarrow> m3 x = m x"
proof -
  let ?n = "length (ob_name ob)" and ?l = "unat (name_length_offset (ob_header ob))" and ?o = "unat (name_offset (ob_header ob))"
  note L = named_layout [OF s k]
  have len: "?n < 2 ^ 16" using s by (simp add: ob_shape_def)
  have uc: "unat (ucast (of_nat ?n :: size_t) :: 16 word) = ?n" using len by (simp add: unsigned_ucast_eq unat_of_nat take_bit_eq_mod)
  have h1: "header_at m1 h = ob_header ob" by (simp add: m1_def)
  have m2: "m2 = put_bytes m1 (h + ?l) (le_bytes 2 ?n)" by (simp add: m2_def store_name_length_def h1 uc)
  have "header_at m2 h = header_at m1 h"
    unfolding m2 by (rule header_at_eqI, rule put_bytes_outside) (use L(4) in linarith)
  then have h2: "header_at m2 h = ob_header ob" using h1 by simp
  have m3: "m3 = put_bytes m2 (h + ?o) (ob_name ob @ [0])" by (simp add: m3_def name_ptr_def h2)
  have "header_at m3 h = header_at m2 h"
    unfolding m3 by (rule header_at_eqI, rule put_bytes_outside) (use L(4,5) in linarith)
  then have h3: "header_at m3 h = ob_header ob" using h2 by simp
  have "get_bytes m3 (h + ?l) 2 = le_bytes 2 ?n"
    unfolding m3 by (subst get_put_other) (use L in \<open>simp_all add: m2 get_put_same\<close>)
  moreover have "get_bytes m3 (h + ?o) (Suc ?n) = ob_name ob @ [0]" unfolding m3 by (rule get_put_same) simp
  ultimately show "ob_stored M H m3 ob" using h3 by (simp add: ob_stored_def h_def)
  assume x: "x \<notin> control ob"
  have x1: "x < h \<or> h + 8 \<le> x" and x2: "x < h + 8 + unat (ob_vbytes ob) \<or> ob_end M H ob \<le> x"
    using x by (auto simp: control_def h_def)
  have "m3 x = m2 x" unfolding m3 by (rule put_bytes_outside) (use x2 L in \<open>auto simp: h_def\<close>)
  also have "\<dots> = m1 x" unfolding m2 by (rule put_bytes_outside) (use x2 L in \<open>auto simp: h_def\<close>)
  also have "\<dots> = m x" unfolding m1_def store_header_def by (rule put_bytes_outside) (use x1 in simp)
  finally show "m3 x = m x" .
qed

lemma others_unchanged:
  assumes "rep st (insert b R) Obs" "b \<notin> R" "\<And>x. x \<notin> reg b \<Longrightarrow> m' x = m x"
  shows "unchanged M (R \<union> blk ` Obs) m m'"
  unfolding unchanged_def
proof (intro ballI)
  fix c x assume c: "c \<in> R \<union> blk ` Obs" and x: "x \<in> reg c"
  have "c \<noteq> b" using c assms(2) repD(3) [OF assms(1)] by auto
  then have "reg b \<inter> reg c = {}" using regs_disjoint [OF repD(1) [OF assms(1)], of b c] c by auto
  then show "m' x = m x" using x by (intro assms(3)) auto
qed

section \<open>Construction with a name\<close>

text \<open>The object that a construction puts into the block \<open>b\<close>.\<close>

definition new_ob :: "nat \<times> nat \<Rightarrow> ctype \<Rightarrow> instance_type \<Rightarrow> byte list \<Rightarrow> size_t \<Rightarrow> sm_object" where
  "new_ob b T type name num = \<lparr>ob_block = fst b, ob_units = snd b, ob_kind = type, ob_name = name, ob_align = alignof T,
     ob_vbytes = sizeof T * num\<rparr>"

lemma new_ob_simps [simp]:
  "ob_block (new_ob b T type name num) = fst b" "ob_units (new_ob b T type name num) = snd b"
  "ob_kind (new_ob b T type name num) = type" "ob_name (new_ob b T type name num) = name"
  "ob_align (new_ob b T type name num) = alignof T" "ob_vbytes (new_ob b T type name num) = sizeof T * num"
  "blk (new_ob b T type name num) = b" "made_as T type name num (new_ob b T type name num)"
  by (simp_all add: new_ob_def blk_def made_as_def)

lemma new_ob_shape:
  assumes "ctype_ok T" "unat (sizeof T) * unat num < 2 ^ 62" "0 \<notin> set name" "length name < 2 ^ 16"
    and "type \<noteq> max_allocation_type" "type = anonymous_type \<longrightarrow> name = []"
  shows "ob_shape (new_ob b T type name num)"
  using assms type_size(2) [OF assms(1,2)] by (auto simp: ob_shape_def ctype_ok_def)

lemma new_ob_placed:
  assumes sh: "ob_shape (new_ob (a, k) T type name num)"
    and al: "(a + ctrl) mod unat (alignof T) = 0"
    and fit: "a + ctrl + unat (if type = anonymous_type then total_anonymous_size (alignof T) (ob_header (new_ob (a, k) T type name num))
        else total_named_size_with_header (alignof T) H (ob_header (new_ob (a, k) T type name num)) (of_nat (length name)))
        \<le> a + k * Alignment M + UsableByPreviousChunk M"
  shows "ob_placed M H (new_ob (a, k) T type name num)"
proof -
  let ?ob = "new_ob (a, k) T type name num"
  obtain j where j: "alignof T = 2 ^ j" "j < 32" using sh by (auto simp: ob_shape_def)
  note L0 = shape_layout [OF sh]
  have vb: "unat (value_bytes (ob_header ?ob)) < 2 ^ 62" using L0(4) sh by (simp add: ob_shape_def)
  have "ob_end M H ?ob \<le> a + k * Alignment M + UsableByPreviousChunk M"
  proof (cases "type = anonymous_type")
    case True
    then show ?thesis using fit total_size_nat(1) [OF j vb] L0(4) by (simp add: ob_end_def ob_hdr_def ob_prefix_def)
  next
    case False
    have len: "length name < 2 ^ 16" using sh by (simp add: ob_shape_def)
    then have "unat (of_nat (length name) :: size_t) = length name" by (intro unat_of_nat_size) simp
    then show ?thesis using False fit total_size_nat(2) [OF j vb header_extent, of "of_nat (length name)"] len
      by (simp add: ob_end_def ob_hdr_def ob_prefix_def)
  qed
  moreover have "unat (alignof T) dvd ob_value M H ?ob"
  proof -
    have d: "unat (alignof T) dvd a + ctrl" using al by (simp add: mod_eq_0_iff_dvd)
    have p: "unat (alignof T) = 2 ^ j" using unat_pow2_size [of j] j by simp
    note A = anonymous_prefix_nat(1) [OF j] and P = named_prefix_nat [OF header_extent j]
    have "ob_value M H ?ob = a + ctrl + (if type = anonymous_type then unat (block_header_prefix_without_header (alignof T)) + 8
        else unat (total_prefix_with_header (alignof T) H))"
      using L0(1) P(2,4) by (simp add: ob_hdr_def ob_prefix_def)
    then show ?thesis using d A P(1) by (auto simp: p mod_eq_0_iff_dvd)
  qed
  ultimately show ?thesis by (simp add: ob_placed_def mod_eq_0_iff_dvd)
qed

text \<open>Constructing the array of an object that is in place.\<close>

lemma construct_n_rep:
  assumes r: "rep st R Obs" and ob: "ob \<in> Obs" and T: "ctype_ok T" and pr: "proxy_ok T pr"
    and vb: "ob_vbytes ob = sizeof T * num" "unat (sizeof T) * unat num < 2 ^ 62"
  obtains m calls res where "construct_n pr T (ob_value M H ob) num st = (st\<lparr>sg_bytes := m, sg_calls := sg_calls st @ calls\<rparr>, res)"
    "rep (st\<lparr>sg_bytes := m, sg_calls := sg_calls st @ calls\<rparr>) R Obs" "\<And>x. x \<notin> reg (blk ob) \<Longrightarrow> m x = sg_bytes st x"
    "if res = None then calls = map Ctor (elem_addrs T (ob_value M H ob) (unat num))
     else \<exists>i<unat num. calls = map Ctor (elem_addrs T (ob_value M H ob) i) @ map Dtor (elem_addrs T (ob_value M H ob) i)"
proof (rule construct_n_effect [OF T pr, where mem = "ob_value M H ob" and num = num and st = st])
  fix m res calls
  assume c: "construct_n pr T (ob_value M H ob) num st = (st\<lparr>sg_bytes := m, sg_calls := sg_calls st @ calls\<rparr>, res)"
    "\<And>x. x < ob_value M H ob \<or> ob_value M H ob + unat num * unat (sizeof T) \<le> x \<Longrightarrow> m x = sg_bytes st x"
    "if res = None then calls = map Ctor (elem_addrs T (ob_value M H ob) (unat num))
     else \<exists>i<unat num. calls = map Ctor (elem_addrs T (ob_value M H ob) i) @ map Dtor (elem_addrs T (ob_value M H ob) i)"
  have eq: "m x = sg_bytes st x" if "x \<notin> {ob_value M H ob..<ob_value M H ob + unat (ob_vbytes ob)}" for x
    using c(2) that type_size(1) [OF T vb(2)] vb(1) by (auto simp: mult.commute)
  have rg: "m x = sg_bytes st x" if "x \<notin> reg (blk ob)" for x
    using eq object_in_reg(2) [OF repD(4) [OF r ob]] that by blast
  show thesis by (rule that [OF c(1) rep_value_write [OF r ob eq] rg c(3)])
qed

text \<open>The node of an object in a raw block is not in the index.\<close>

lemma raw_node_fresh:
  assumes r: "rep st (insert (blk ob) R) Obs" and f: "named_as M H Obs type f" "type \<noteq> anonymous_type"
    and ok: "object_ok M H m ob" "ob_kind ob \<noteq> anonymous_type"
  shows "ob_node M H ob \<notin> ran f"
proof
  assume "ob_node M H ob \<in> ran f"
  then obtain ob' where o': "ob' \<in> Obs" "ob_kind ob' = type" "ob_node M H ob' = ob_node M H ob"
    using f(1) by (auto simp: named_as_def ran_def)
  have "reg (blk ob) \<inter> reg (blk ob') = {}"
    using regs_disjoint [OF repD(1) [OF r], of "blk ob" "blk ob'"] repD(3) [OF r] o'(1) by auto
  then show False using object_in_reg(3) [OF ok] object_in_reg(3) [OF repD(4) [OF r o'(1)]] o' f(2) by auto
qed

lemma deallocator_raw:
  assumes "rep st (insert (a, k) R) Obs" "(a, k) \<notin> R" "0 < a + ctrl"
  obtains s where "mem_algo_deallocator M (a + ctrl) st = Some (st\<lparr>sg_algo := s\<rparr>)" "rep (st\<lparr>sg_algo := s\<rparr>) R Obs"
  using deallocate_raw [OF assms(1,2)] assms(3) unfolding mem_algo_deallocator_def by auto

lemma construct_in_buffer_outcome:
  assumes r: "rep st (insert (a, k) R) Obs" and b: "(a, k) \<notin> R" and T: "ctype_ok T" and pr: "proxy_ok T pr"
    and t: "type = named_type \<or> type = unique_type" and name: "0 \<notin> set name" "length name < 2 ^ 16"
    and num: "unat (sizeof T) * unat num < 2 ^ 62"
    and fit: "a + ctrl + unat (total_named_size_with_header (alignof T) H (block_header_ctor (sizeof T * num) (instance_code type))
        (of_nat (length name))) \<le> a + k * Alignment M + UsableByPreviousChunk M"
    and al: "(a + ctrl) mod unat (alignof T) = 0" and a0: "0 < a + ctrl"
    and f: "names (sg_bytes st) (index_of type st) f" "named_as M H Obs type f" "f name = None"
    and c: "ix_insert_check X (sg_bytes st) name (index_of type st) = Inr (Inr cd)"
  shows "\<exists>st' res. construct_in_buffer M X H pr T type name num dothrow cd (a + ctrl) st = Some (st', res)
    \<and> construct_outcome M H rep T type name num dothrow st R Obs st' res"
proof -
  define ob where "ob = new_ob (a, k) T type name num"
  have tn: "type \<noteq> anonymous_type" "type \<noteq> max_allocation_type" using t by auto
  have sh: "ob_shape ob" unfolding ob_def by (rule new_ob_shape) (use T num name tn in auto)
  have kn: "ob_kind ob \<noteq> anonymous_type" and bo: "blk ob = (a, k)" using tn by (simp_all add: ob_def)
  have bi: "block_header_ctor (sizeof T * num) (instance_code type) = ob_header ob" by (simp add: ob_header_def ob_def)
  have pl: "ob_placed M H ob"
    unfolding ob_def by (rule new_ob_placed) (use sh al fit tn bi in \<open>simp_all add: ob_def\<close>)
  have L: "a + ctrl + unat (front_space_with_header (alignof T) H) = ob_node M H ob"
    "from_first_header H (ob_node M H ob) = ob_hdr M H ob" using named_layout(1,2) [OF sh kn] by (simp_all add: ob_def)
  define m1 where "m1 = store_header (sg_bytes st) (ob_hdr M H ob) (ob_header ob)"
  define m2 where "m2 = store_name_length m1 (ob_hdr M H ob) (ucast (of_nat (length name) :: size_t))"
  define m where "m = put_bytes m2 (name_ptr m2 (ob_hdr M H ob)) (name @ [0])"
  have W: "ob_stored M H m ob" "\<And>x. x \<notin> control ob \<Longrightarrow> m x = sg_bytes st x"
    using written_control [where m = "sg_bytes st", OF sh kn] by (simp_all add: m_def m2_def m1_def ob_def)
  have ok: "object_ok M H m ob" using sh W(1) pl by (simp add: object_ok_def)
  have mreg: "m x = sg_bytes st x" if "x \<notin> reg (a, k)" for x using W(2) object_in_reg(1) [OF ok] that bo by auto
  let ?st = "st\<lparr>sg_bytes := m\<rparr>"
  have r1: "rep ?st (insert (a, k) R) Obs" using rep_raw_write [OF r, of "(a, k)" m "sg_calls st"] mreg by simp
  have un: "unchanged M (R \<union> blk ` Obs) (sg_bytes st) m'" if "\<And>x. x \<notin> reg (a, k) \<Longrightarrow> m' x = m x" for m'
    by (rule others_unchanged [OF r b]) (simp add: that mreg)
  have body: "construct_in_buffer M X H pr T type name num dothrow cd (a + ctrl) st =
      (case ix_insert_commit X m name (ob_hdr M H ob) (ob_node M H ob) cd (index_of type st) of
           Inl e \<Rightarrow> do { st \<leftarrow> mem_algo_deallocator M (a + ctrl) ?st; Some (st, null_or_rethrow dothrow e) }
         | Inr ix \<Rightarrow>
             (case construct_n pr T (ob_value M H ob) num (set_index type ix ?st) of
                (st, None) \<Rightarrow> Some (st, Inr (ob_value M H ob))
              | (st, Some e) \<Rightarrow>
                  do { st \<leftarrow> mem_algo_deallocator M (a + ctrl) (set_index type (ix_erase X (ob_node M H ob) (index_of type st)) st);
                       Some (st, Inl (Object e)) }))"
    unfolding construct_in_buffer_def Let_def L bi m_def m2_def m1_def ob_value_def by (simp add: index_of_def)
  have keys: "key_at H m u = key_at H (sg_bytes st) u" if "u \<in> ran f" for u
    by (rule node_keys [OF f(2) tn(1) that]) (use repD(4) [OF r] repD(4) [OF r1] in \<open>auto simp: object_ok_def\<close>)
  have key: "key_at H m (ob_node M H ob) = name" using stored_name(1) [OF sh W(1) kn] by (simp add: ob_def)
  have fresh: "ob_node M H ob \<notin> ran f" by (rule raw_node_fresh [OF _ f(2) tn(1) ok kn]) (use r bo in simp)
  note commit = commit_names [OF f(1,3) c keys key fresh, of "ob_hdr M H ob"]
  show ?thesis
  proof (cases "ix_insert_commit X m name (ob_hdr M H ob) (ob_node M H ob) cd (index_of type st)")
    case (Inl e)
    obtain s where s: "mem_algo_deallocator M (a + ctrl) ?st = Some (?st\<lparr>sg_algo := s\<rparr>)" "rep (?st\<lparr>sg_algo := s\<rparr>) R Obs"
      by (rule deallocator_raw [OF r1 b a0])
    have "construct_outcome M H rep T type name num dothrow st R Obs (?st\<lparr>sg_algo := s\<rparr>) (null_or_rethrow dothrow e)"
      using s(2) un [of m] by (simp add: construct_outcome_def null_or_rethrow_def)
    then show ?thesis using body Inl s(1) by simp
  next
    case (Inr ix)
    let ?st2 = "set_index type ix ?st"
    have "names m ix (f(name \<mapsto> ob_node M H ob))" using Inr commit by auto
    then have r2: "rep ?st2 R (insert ob Obs)"
      by (intro adopt_named [where f = f]) (use r1 b ok t f bo in \<open>simp_all add: ob_def\<close>)
    obtain m' calls res where cn: "construct_n pr T (ob_value M H ob) num ?st2 =
        (?st2\<lparr>sg_bytes := m', sg_calls := sg_calls ?st2 @ calls\<rparr>, res)"
      "rep (?st2\<lparr>sg_bytes := m', sg_calls := sg_calls ?st2 @ calls\<rparr>) R (insert ob Obs)"
      "\<And>x. x \<notin> reg (blk ob) \<Longrightarrow> m' x = sg_bytes ?st2 x"
      "if res = None then calls = map Ctor (elem_addrs T (ob_value M H ob) (unat num))
       else \<exists>i<unat num. calls = map Ctor (elem_addrs T (ob_value M H ob) i) @ map Dtor (elem_addrs T (ob_value M H ob) i)"
      by (rule construct_n_rep [OF r2 insertI1 T pr _ num]) (simp add: ob_def, rule that)
    let ?st3 = "?st2\<lparr>sg_bytes := m', sg_calls := sg_calls ?st2 @ calls\<rparr>"
    have un': "unchanged M (R \<union> blk ` Obs) (sg_bytes st) m'" by (rule un) (use cn(3) bo in simp)
    have ni: "ob \<notin> Obs" using repD(3) [OF r] bo by (metis Int_iff empty_iff image_eqI insertI1)
    show ?thesis
    proof (cases res)
      case None
      have "ob_value M H ob \<noteq> 0" "made_as T type name num ob" using shape_layout(1) [OF sh] by (simp_all add: ob_def)
      then have "construct_outcome M H rep T type name num dothrow st R Obs ?st3 (Inr (ob_value M H ob))"
        unfolding construct_outcome_def using un' cn(2,4) None ni by auto
      then show ?thesis using body Inr cn(1) None by simp
    next
      case (Some e)
      let ?st4 = "set_index type (ix_erase X (ob_node M H ob) (index_of type ?st3)) ?st3"
      have "rep ?st4 (insert (blk ob) R) (insert ob Obs - {ob})"
        by (rule abandon_named(1) [OF cn(2) insertI1 _ t]) (simp add: ob_def)
      then have r4: "rep ?st4 (insert (a, k) R) Obs" using ni bo by simp
      obtain s where s: "mem_algo_deallocator M (a + ctrl) ?st4 = Some (?st4\<lparr>sg_algo := s\<rparr>)" "rep (?st4\<lparr>sg_algo := s\<rparr>) R Obs"
        by (rule deallocator_raw [OF r4 b a0])
      have "construct_outcome M H rep T type name num dothrow st R Obs (?st4\<lparr>sg_algo := s\<rparr>) (Inl (Object e))"
        unfolding construct_outcome_def using un' s(2) cn(4) Some by auto
      then show ?thesis using body Inr cn(1) Some s(1) by simp
    qed
  qed
qed

lemma outcome_algo:
  "construct_outcome M H rep T type name num dothrow (st\<lparr>sg_algo := s\<rparr>) R Obs st' res =
    construct_outcome M H rep T type name num dothrow st R Obs st' res"
proof -
  have "sg_calls (st\<lparr>sg_algo := s\<rparr>) = sg_calls st" "sg_bytes (st\<lparr>sg_algo := s\<rparr>) = sg_bytes st" by simp_all
  then show ?thesis unfolding construct_outcome_def by (simp only:)
qed

text \<open>The whole construction. If there is an object with the name, nothing happens.\<close>

lemma named_construct_found:
  assumes r: "rep st R Obs" and t: "type = named_type \<or> type = unique_type"
    and ob: "ob \<in> Obs" "ob_kind ob = type" "ob_name ob = name"
  shows "\<exists>res. priv_generic_named_construct M X H pr T type name num try2find dothrow st = Some (st, res)
    \<and> (res = (if try2find then Inr (ob_value M H ob) else null_or_already_exists dothrow) \<or> (\<exists>e. res = null_or_rethrow dothrow e))"
proof -
  obtain f where f: "names (sg_bytes st) (index_of type st) f" "named_as M H Obs type f" by (rule rep_index [OF r t])
  have fn: "f name = Some (ob_node M H ob)" using f(2) ob by (auto simp: named_as_def)
  have "from_first_header H (ob_node M H ob) = ob_hdr M H ob" using named_layout(2) [OF repD(5) [OF r ob(1)]] ob(2) t by auto
  then show ?thesis using check_found [OF f(1) fn]
    by (auto simp: priv_generic_named_construct_def Let_def ob_value_def)
qed

lemma named_construct_fresh:
  assumes r: "rep st R Obs" and T: "ctype_ok T" and pr: "proxy_ok T pr"
    and t: "type = named_type \<or> type = unique_type" and name: "0 \<notin> set name" "length name < 2 ^ 16"
    and num: "unat (sizeof T) * unat num < 2 ^ 62"
    and no: "\<not> (\<exists>ob\<in>Obs. ob_kind ob = type \<and> ob_name ob = name)"
  shows "\<exists>st' res. priv_generic_named_construct M X H pr T type name num try2find dothrow st = Some (st', res)
    \<and> construct_outcome M H rep T type name num dothrow st R Obs st' res"
proof -
  obtain f where f: "names (sg_bytes st) (index_of type st) f" "named_as M H Obs type f" by (rule rep_index [OF r t])
  have fn: "f name = None"
  proof (rule ccontr)
    assume "f name \<noteq> None"
    then obtain v where "f name = Some v" by blast
    then show False using f(2) no by (auto simp: named_as_def)
  qed
  let ?h = "block_header_ctor (sizeof T * num) (instance_code type)"
  let ?tot = "total_named_size_with_header (alignof T) H ?h (of_nat (length name))"
  obtain j where j: "alignof T = 2 ^ j" "j < 32" using T by (auto simp: ctype_ok_def)
  have same: "construct_outcome M H rep T type name num dothrow st R Obs st res"
    if "res = null_or_bad_alloc dothrow \<or> (\<exists>e. res = null_or_rethrow dothrow e)" for res
    using that r by (auto simp: construct_outcome_def unchanged_def null_or_bad_alloc_def null_or_rethrow_def)
  have tot: "unat ?tot \<le> 2 ^ 62 + 2 ^ 34"
  proof -
    have v: "value_bytes ?h = sizeof T * num" by (rule value_bytes_ctor [OF type_size(2) [OF T num]])
    have vb: "unat (value_bytes ?h) < 2 ^ 62" using v type_size(2) [OF T num] by simp
    have len: "unat (of_nat (length name) :: size_t) = length name" using name by (intro unat_of_nat_size) simp
    have "(2::nat) ^ j \<le> 2 ^ 31" using j(2) by (intro power_increasing) auto
    moreover have "unat (sizeof H) < 2 ^ 16" using header_extent by (simp add: header_extent_ok_def)
    ultimately show ?thesis
      using total_size_nat(2) [OF j vb header_extent, of "of_nat (length name)"] len name(2) named_prefix_nat [OF header_extent j]
        name_offset_nat [OF vb] vb by simp
  qed
  from check_fresh [OF f(1) fn] show ?thesis
  proof (elim disjE exE)
    fix e assume "ix_insert_check X (sg_bytes st) name (index_of type st) = Inl e"
    then show ?thesis using same [of "null_or_rethrow dothrow e"] by (auto simp: priv_generic_named_construct_def)
  next
    fix cd assume c: "ix_insert_check X (sg_bytes st) name (index_of type st) = Inr (Inr cd)"
    obtain st' p where a: "sm_allocate_aligned_nothrow M ?tot (alignof T) st = Some (st', p)"
      "p = 0 \<and> st' = st \<or> (\<exists>a k s. p = a + ctrl \<and> p mod 2 ^ j = 0 \<and> 0 < p \<and> st' = st\<lparr>sg_algo := s\<rparr> \<and> (a, k) \<notin> R \<union> blk ` Obs
         \<and> rep st' (insert (a, k) R) Obs \<and> p + unat ?tot \<le> a + k * Alignment M + UsableByPreviousChunk M)"
      using allocate_raw [OF r j tot] by (elim exE conjE) (rule that)
    have e: "priv_generic_named_construct M X H pr T type name num try2find dothrow st =
        (if p = 0 then Some (st', null_or_bad_alloc dothrow) else construct_in_buffer M X H pr T type name num dothrow cd p st')"
      using a(1) c by (simp add: priv_generic_named_construct_def Let_def)
    from a(2) show ?thesis
    proof (elim disjE exE conjE)
      assume "p = 0" "st' = st"
      then show ?thesis using e same by auto
    next
      fix a k s assume h: "p = a + ctrl" "p mod 2 ^ j = 0" "0 < p" "st' = st\<lparr>sg_algo := s\<rparr>" "(a, k) \<notin> R \<union> blk ` Obs"
        "rep st' (insert (a, k) R) Obs" "p + unat ?tot \<le> a + k * Alignment M + UsableByPreviousChunk M"
      have "(a + ctrl) mod unat (alignof T) = 0" using h(1,2) j unat_pow2_size [of j] by simp
      moreover have "index_of type st' = index_of type st" "sg_bytes st' = sg_bytes st" by (simp_all add: h(4) index_of_def)
      ultimately have "\<exists>st'' res. construct_in_buffer M X H pr T type name num dothrow cd (a + ctrl) st' = Some (st'', res)
          \<and> construct_outcome M H rep T type name num dothrow st' R Obs st'' res"
        by (intro construct_in_buffer_outcome [OF h(6) _ T pr t name num _ _ _ _ f(2) fn]) (use h f c in simp_all)
      moreover have "priv_generic_named_construct M X H pr T type name num try2find dothrow st =
          construct_in_buffer M X H pr T type name num dothrow cd (a + ctrl) st'" using e h(1,3) by auto
      ultimately show ?thesis unfolding h(4) outcome_algo by (simp only:)
    qed
  qed
qed

section \<open>Construction without a name\<close>

lemma anonymous_construct_outcome:
  assumes r: "rep st R Obs" and T: "ctype_ok T" and pr: "proxy_ok T pr" and num: "unat (sizeof T) * unat num < 2 ^ 62"
  shows "\<exists>st' res. priv_anonymous_construct M pr T num dothrow st = Some (st', res)
    \<and> construct_outcome M H rep T anonymous_type [] num dothrow st R Obs st' res"
proof -
  let ?h = "block_header_ctor (sizeof T * num) (instance_code anonymous_type)"
  let ?tot = "total_anonymous_size (alignof T) ?h"
  obtain j where j: "alignof T = 2 ^ j" "j < 32" using T by (auto simp: ctype_ok_def)
  have v: "value_bytes ?h = sizeof T * num" by (rule value_bytes_ctor [OF type_size(2) [OF T num]])
  have tot: "unat ?tot \<le> 2 ^ 62 + 2 ^ 34"
  proof -
    have vb: "unat (value_bytes ?h) < 2 ^ 62" using v type_size(2) [OF T num] by simp
    have "(2::nat) ^ j \<le> 2 ^ 31" using j(2) by (intro power_increasing) auto
    then show ?thesis using total_size_nat(1) [OF j vb] anonymous_prefix_nat(2) [OF j] vb by simp
  qed
  obtain st1 p where a: "sm_allocate_aligned_nothrow M ?tot (alignof T) st = Some (st1, p)"
    "p = 0 \<and> st1 = st \<or> (\<exists>a k s. p = a + ctrl \<and> p mod 2 ^ j = 0 \<and> 0 < p \<and> st1 = st\<lparr>sg_algo := s\<rparr> \<and> (a, k) \<notin> R \<union> blk ` Obs
       \<and> rep st1 (insert (a, k) R) Obs \<and> p + unat ?tot \<le> a + k * Alignment M + UsableByPreviousChunk M)"
    using allocate_raw [OF r j tot] by (elim exE conjE) (rule that)
  from a(2) show ?thesis
  proof (elim disjE exE conjE)
    assume "p = 0" "st1 = st"
    then show ?thesis using a(1) r
      by (auto simp: priv_anonymous_construct_def construct_outcome_def unchanged_def null_or_bad_alloc_def)
  next
    fix a k s assume h: "p = a + ctrl" "p mod 2 ^ j = 0" "0 < p" "st1 = st\<lparr>sg_algo := s\<rparr>" "(a, k) \<notin> R \<union> blk ` Obs"
      "rep st1 (insert (a, k) R) Obs" "p + unat ?tot \<le> a + k * Alignment M + UsableByPreviousChunk M"
    define ob where "ob = new_ob (a, k) T anonymous_type [] num"
    have sh: "ob_shape ob" unfolding ob_def by (rule new_ob_shape) (use T num in auto)
    have bi: "?h = ob_header ob" by (simp add: ob_header_def ob_def)
    have kn: "ob_kind ob = anonymous_type" and bo: "blk ob = (a, k)" by (simp_all add: ob_def)
    have "(a + ctrl) mod unat (alignof T) = 0" using h(1,2) j unat_pow2_size [of j] by simp
    then have pl: "ob_placed M H ob"
      unfolding ob_def by (intro new_ob_placed) (use sh h(1,7) bi in \<open>simp_all add: ob_def\<close>)
    have hd: "p + unat (front_space_without_header (alignof T)) = ob_hdr M H ob"
      using h(1) by (simp add: ob_hdr_def ob_prefix_def ob_def front_space_without_header_def)
    define m where "m = store_header (sg_bytes st) (ob_hdr M H ob) (ob_header ob)"
    have W: "ob_stored M H m ob" "\<And>x. x \<notin> control ob \<Longrightarrow> m x = sg_bytes st x"
      using written_header [where m = "sg_bytes st", OF sh kn] by (simp_all add: m_def)
    have ok: "object_ok M H m ob" using sh W(1) pl by (simp add: object_ok_def)
    have mreg: "m x = sg_bytes st x" if "x \<notin> reg (a, k)" for x using W(2) object_in_reg(1) [OF ok] that bo by auto
    let ?st = "st1\<lparr>sg_bytes := m\<rparr>"
    have r1: "rep ?st (insert (blk ob) R) Obs" using rep_raw_write [OF h(6), of "(a, k)" m "sg_calls st1"] mreg h(4) bo by simp
    have r2: "rep ?st R (insert ob Obs)" by (rule adopt_anonymous [OF r1 _ _ kn]) (use h(5) bo ok in auto)
    obtain m' calls res where cn: "construct_n pr T (ob_value M H ob) num ?st = (?st\<lparr>sg_bytes := m', sg_calls := sg_calls ?st @ calls\<rparr>, res)"
      "rep (?st\<lparr>sg_bytes := m', sg_calls := sg_calls ?st @ calls\<rparr>) R (insert ob Obs)"
      "\<And>x. x \<notin> reg (blk ob) \<Longrightarrow> m' x = sg_bytes ?st x"
      "if res = None then calls = map Ctor (elem_addrs T (ob_value M H ob) (unat num))
       else \<exists>i<unat num. calls = map Ctor (elem_addrs T (ob_value M H ob) i) @ map Dtor (elem_addrs T (ob_value M H ob) i)"
      by (rule construct_n_rep [OF r2 insertI1 T pr _ num]) (simp add: ob_def, rule that)
    let ?st3 = "?st\<lparr>sg_bytes := m', sg_calls := sg_calls ?st @ calls\<rparr>"
    have un: "unchanged M (R \<union> blk ` Obs) (sg_bytes st) m'"
      by (rule others_unchanged [OF h(6)]) (use h(5) cn(3) bo mreg in auto)
    have ni: "ob \<notin> Obs" using repD(3) [OF r1] by blast
    have body: "priv_anonymous_construct M pr T num dothrow st =
        (case construct_n pr T (ob_value M H ob) num ?st of
           (st, None) \<Rightarrow> Some (st, Inr (ob_value M H ob))
         | (st, Some e) \<Rightarrow> do { st \<leftarrow> mem_algo_deallocator M p st; Some (st, Inl (Object e)) })"
      unfolding priv_anonymous_construct_def Let_def ob_value_def
      using a(1) h(3) by (simp add: hd m_def h(4) flip: bi)
    show ?thesis
    proof (cases res)
      case None
      have "ob_value M H ob \<noteq> 0" "made_as T anonymous_type [] num ob" using shape_layout(1) [OF sh] by (simp_all add: ob_def)
      then have "construct_outcome M H rep T anonymous_type [] num dothrow st R Obs ?st3 (Inr (ob_value M H ob))"
        unfolding construct_outcome_def using un cn(2,4) None ni h(4) by auto
      then show ?thesis using body cn(1) None by simp
    next
      case (Some e)
      have "rep ?st3 (insert (blk ob) R) (insert ob Obs - {ob})" by (rule abandon_anonymous(1) [OF cn(2) insertI1 kn])
      then have r4: "rep ?st3 (insert (a, k) R) Obs" using ni bo by simp
      obtain s' where s': "mem_algo_deallocator M (a + ctrl) ?st3 = Some (?st3\<lparr>sg_algo := s'\<rparr>)" "rep (?st3\<lparr>sg_algo := s'\<rparr>) R Obs"
        by (rule deallocator_raw [OF r4]) (use h in auto)
      have "construct_outcome M H rep T anonymous_type [] num dothrow st R Obs (?st3\<lparr>sg_algo := s'\<rparr>) (Inl (Object e))"
        unfolding construct_outcome_def using un s'(2) cn(4) Some h(4) by auto
      then show ?thesis using body cn(1) Some s'(1) h(1) by simp
    qed
  qed
qed

end

end
