(* ===== verification/Segment_Access.thy ===== *)
theory Segment_Access
  imports Segment_Ops
begin

text \<open>
  Search, queries and destruction on represented states.
\<close>

context segment_parts
begin

section \<open>Search and queries\<close>

lemma named_header:
  assumes "rep st R Obs" "ob \<in> Obs" "ob_kind ob \<noteq> anonymous_type"
  shows "from_first_header H (ob_node M H ob) = ob_hdr M H ob" "header_at (sg_bytes st) (ob_hdr M H ob) = ob_header ob"
  using named_layout(2) [OF repD(5) [OF assms(1,2)] assms(3)] repD(4) [OF assms(1,2)]
  by (simp_all add: object_ok_def ob_stored_def)

lemma find_object:
  assumes r: "rep st R Obs" and t: "type = named_type \<or> type = unique_type"
  shows "ob \<in> Obs \<Longrightarrow> ob_kind ob = type \<Longrightarrow> ob_name ob = name \<Longrightarrow>
      ix_find X (sg_bytes st) name (index_of type st) = Some (ob_node M H ob)"
    and "\<not> (\<exists>ob\<in>Obs. ob_kind ob = type \<and> ob_name ob = name) \<Longrightarrow> ix_find X (sg_bytes st) name (index_of type st) = None"
proof -
  obtain f where f: "names (sg_bytes st) (index_of type st) f" "named_as M H Obs type f" by (rule rep_index [OF r t])
  note fi = find_names [OF f(1), of name]
  show "ix_find X (sg_bytes st) name (index_of type st) = Some (ob_node M H ob)"
    if "ob \<in> Obs" "ob_kind ob = type" "ob_name ob = name" using fi f(2) that by (auto simp: named_as_def)
  show "ix_find X (sg_bytes st) name (index_of type st) = None" if "\<not> (\<exists>ob\<in>Obs. ob_kind ob = type \<and> ob_name ob = name)"
  proof (rule ccontr)
    assume "ix_find X (sg_bytes st) name (index_of type st) \<noteq> None"
    then obtain v where "f name = Some v" using fi by auto
    then show False using f(2) that by (auto simp: named_as_def)
  qed
qed

lemma generic_find:
  assumes r: "rep st R Obs" and t: "type = named_type \<or> type = unique_type"
  shows "ob \<in> Obs \<Longrightarrow> ob_kind ob = type \<Longrightarrow> ob_name ob = name \<Longrightarrow>
      priv_generic_find X H T type name st = (ob_value M H ob, ob_vbytes ob div sizeof T)"
    and "\<not> (\<exists>ob\<in>Obs. ob_kind ob = type \<and> ob_name ob = name) \<Longrightarrow> priv_generic_find X H T type name st = (0, 0)"
proof -
  assume ob: "ob \<in> Obs" "ob_kind ob = type" "ob_name ob = name"
  have k: "ob_kind ob \<noteq> anonymous_type" using ob t by auto
  show "priv_generic_find X H T type name st = (ob_value M H ob, ob_vbytes ob div sizeof T)"
    using find_object(1) [OF r t ob] named_header [OF r ob(1) k] shape_layout(4) [OF repD(5) [OF r ob(1)]]
    by (simp add: priv_generic_find_def Let_def ob_value_def)
qed (simp add: priv_generic_find_def find_object(2) [OF r t])

lemma value_header:
  assumes "rep st R Obs" "ob \<in> Obs"
  shows "block_header_from_value (ob_value M H ob) = ob_hdr M H ob" "header_at (sg_bytes st) (ob_hdr M H ob) = ob_header ob"
    "value_bytes (ob_header ob) = ob_vbytes ob" "instance_of_code (alloc_type (ob_header ob)) = ob_kind ob"
  using shape_layout [OF repD(5) [OF assms]] repD(4) [OF assms]
  by (simp_all add: ob_value_def value_ptr_def block_header_from_value_def object_ok_def ob_stored_def)

lemma instance_queries:
  assumes r: "rep st R Obs" and ob: "ob \<in> Obs"
  shows "get_instance_type (ob_value M H ob) st = ob_kind ob"
    "get_instance_length T (ob_value M H ob) st = ob_vbytes ob div sizeof T"
    "get_instance_name (ob_value M H ob) st =
       (if ob_kind ob = anonymous_type then Some 0 else if ob_name ob = [] then None else Some (ob_hdr M H ob + unat (name_offset (ob_header ob))))"
    "ob_kind ob \<noteq> anonymous_type \<Longrightarrow>
       get_bytes (sg_bytes st) (ob_hdr M H ob + unat (name_offset (ob_header ob))) (Suc (length (ob_name ob))) = ob_name ob @ [0]"
proof -
  note V = value_header [OF r ob] and sh = repD(5) [OF r ob]
  have st: "ob_stored M H (sg_bytes st) ob" using repD(4) [OF r ob] by (simp add: object_ok_def)
  show "get_instance_type (ob_value M H ob) st = ob_kind ob"
    "get_instance_length T (ob_value M H ob) st = ob_vbytes ob div sizeof T"
    by (simp_all add: get_instance_type_def get_instance_length_def V)
  have a: "ob_kind ob = anonymous_type \<Longrightarrow> name_length (sg_bytes st) (ob_hdr M H ob) = 0"
    by (simp add: name_length_def V ob_header_def block_header_ctor_def)
  have n: "unat (name_length (sg_bytes st) (ob_hdr M H ob)) = length (ob_name ob)"
      "char_traits_length (sg_bytes st) (name_ptr (sg_bytes st) (ob_hdr M H ob)) = Some (length (ob_name ob))"
    if k: "ob_kind ob \<noteq> anonymous_type"
    using stored_name [OF sh st k] named_header(1) [OF r ob k] by (auto simp: key_at_def name_at_def dest: arg_cong [where f = length])
  show "get_instance_name (ob_value M H ob) st =
       (if ob_kind ob = anonymous_type then Some 0 else if ob_name ob = [] then None else Some (ob_hdr M H ob + unat (name_offset (ob_header ob))))"
    using a n by (cases "ob_kind ob = anonymous_type") (auto simp: get_instance_name_def Let_def V name_ptr_def unat_eq_0)
  show "get_bytes (sg_bytes st) (ob_hdr M H ob + unat (name_offset (ob_header ob))) (Suc (length (ob_name ob))) = ob_name ob @ [0]"
    if "ob_kind ob \<noteq> anonymous_type" using st that by (simp add: ob_stored_def)
qed

text \<open>What \<^verbatim>\<open>insert_check\<close> answers.\<close>

lemma check_object:
  assumes r: "rep st R Obs" and t: "type = named_type \<or> type = unique_type"
    and nothrow: "\<And>e. ix_insert_check X (sg_bytes st) name (index_of type st) \<noteq> Inl e"
  shows "ob \<in> Obs \<Longrightarrow> ob_kind ob = type \<Longrightarrow> ob_name ob = name \<Longrightarrow>
      ix_insert_check X (sg_bytes st) name (index_of type st) = Inr (Inl (ob_node M H ob))"
    and "\<not> (\<exists>ob\<in>Obs. ob_kind ob = type \<and> ob_name ob = name) \<Longrightarrow>
      \<exists>c. ix_insert_check X (sg_bytes st) name (index_of type st) = Inr (Inr c)"
proof -
  obtain f where f: "names (sg_bytes st) (index_of type st) f" "named_as M H Obs type f" by (rule rep_index [OF r t])
  show "ix_insert_check X (sg_bytes st) name (index_of type st) = Inr (Inl (ob_node M H ob))"
    if "ob \<in> Obs" "ob_kind ob = type" "ob_name ob = name"
    using check_found [OF f(1), of name "ob_node M H ob"] f(2) that nothrow by (auto simp: named_as_def)
  show "\<exists>c. ix_insert_check X (sg_bytes st) name (index_of type st) = Inr (Inr c)"
    if no: "\<not> (\<exists>ob\<in>Obs. ob_kind ob = type \<and> ob_name ob = name)"
  proof -
    have "f name = None" using f(2) no by (metis named_as_def not_None_eq)
    then show ?thesis using check_fresh [OF f(1)] nothrow by blast
  qed
qed

lemma number_of_objects:
  assumes r: "rep st R Obs" and t: "type = named_type \<or> type = unique_type"
  shows "ix_size X (index_of type st) = card {ob \<in> Obs. ob_kind ob = type}"
proof -
  obtain f where f: "names (sg_bytes st) (index_of type st) f" "named_as M H Obs type f" by (rule rep_index [OF r t])
  have tn: "type \<noteq> anonymous_type" using t by auto
  have "dom f = ob_name ` {ob \<in> Obs. ob_kind ob = type}" using f(2) by (auto simp: named_as_def dom_def image_iff)
  moreover have "inj_on ob_name {ob \<in> Obs. ob_kind ob = type}"
    using named_unique [OF r f(2) tn] by (auto intro!: inj_onI)
  ultimately show ?thesis using size_names [OF f(1)] by (simp add: card_image)
qed

section \<open>Destruction\<close>

lemma destroy_value:
  assumes r: "rep st (insert (blk ob) R) Obs" and b: "blk ob \<notin> R" and ok: "object_ok M H m0 ob" and T: "ctype_ok T"
  obtains m where "priv_destroy_n T (ob_value M H ob) (unat (ob_vbytes ob div sizeof T)) st =
      st\<lparr>sg_bytes := m, sg_calls := sg_calls st @ map Dtor (elem_addrs T (ob_value M H ob) (unat (ob_vbytes ob div sizeof T)))\<rparr>"
    "rep (st\<lparr>sg_bytes := m, sg_calls := sg_calls st @ map Dtor (elem_addrs T (ob_value M H ob) (unat (ob_vbytes ob div sizeof T)))\<rparr>)
       (insert (blk ob) R) Obs" "unchanged M (R \<union> blk ` Obs) (sg_bytes st) m"
proof -
  let ?n = "unat (ob_vbytes ob div sizeof T)"
  obtain m where m: "priv_destroy_n T (ob_value M H ob) ?n st =
      st\<lparr>sg_bytes := m, sg_calls := sg_calls st @ map Dtor (elem_addrs T (ob_value M H ob) ?n)\<rparr>"
      "\<And>x. x < ob_value M H ob \<or> ob_value M H ob + ?n * unat (sizeof T) \<le> x \<Longrightarrow> m x = sg_bytes st x"
    using destroy_n_effect [OF T] by blast
  have le: "?n * unat (sizeof T) \<le> unat (ob_vbytes ob)" by (simp add: unat_div)
  have rg: "m x = sg_bytes st x" if "x \<notin> reg (blk ob)" for x
  proof (rule m(2))
    have "x \<notin> {ob_value M H ob..<ob_value M H ob + unat (ob_vbytes ob)}" using object_in_reg(2) [OF ok] that by blast
    then show "x < ob_value M H ob \<or> ob_value M H ob + ?n * unat (sizeof T) \<le> x" using le by auto
  qed
  show thesis by (rule that [OF m(1) rep_raw_write [OF r insertI1 rg] others_unchanged [OF r b rg]])
qed

lemma destroy_impl_outcome:
  assumes r: "rep st R Obs" and t: "type = named_type \<or> type = unique_type" and T: "ctype_ok T"
    and ob: "ob \<in> Obs" "ob_kind ob = type" "ob_align ob = alignof T"
  shows "\<exists>st'. priv_generic_named_destroy_impl M X H T type (ob_node M H ob) st = Some (st', True)
    \<and> destroy_outcome M H rep T ob st R Obs st'"
proof -
  have k: "ob_kind ob \<noteq> anonymous_type" using ob t by auto
  note N = named_header [OF r ob(1) k] and L = named_layout [OF repD(5) [OF r ob(1)] k]
  let ?st = "set_index type (ix_erase X (ob_node M H ob) (index_of type st)) st"
  note ab = abandon_named [OF r ob(1,2) t]
  obtain m where m: "priv_destroy_n T (ob_value M H ob) (unat (ob_vbytes ob div sizeof T)) ?st =
      ?st\<lparr>sg_bytes := m, sg_calls := sg_calls ?st @ map Dtor (elem_addrs T (ob_value M H ob) (unat (ob_vbytes ob div sizeof T)))\<rparr>"
    "rep (?st\<lparr>sg_bytes := m, sg_calls := sg_calls ?st @ map Dtor (elem_addrs T (ob_value M H ob) (unat (ob_vbytes ob div sizeof T)))\<rparr>)
       (insert (blk ob) R) (Obs - {ob})" "unchanged M (R \<union> blk ` (Obs - {ob})) (sg_bytes ?st) m"
    by (rule destroy_value [OF ab repD(4) [OF r ob(1)] T])
  let ?st2 = "?st\<lparr>sg_bytes := m, sg_calls := sg_calls ?st @ map Dtor (elem_addrs T (ob_value M H ob) (unat (ob_vbytes ob div sizeof T)))\<rparr>"
  obtain s where s: "sm_deallocate M (ob_block ob + ctrl) ?st2 = Some (?st2\<lparr>sg_algo := s\<rparr>)" "rep (?st2\<lparr>sg_algo := s\<rparr>) R (Obs - {ob})"
    using deallocate_raw [of ?st2 "ob_block ob" "ob_units ob" R "Obs - {ob}"] m(2) ab(2) by (auto simp: blk_def)
  have mem: "to_first_header H (ob_hdr M H ob) - unat (front_space_with_header (alignof T) H) = ob_block ob + ctrl"
    using L(1) ob(3) by (simp add: ob_node_def)
  have "priv_generic_named_destroy_impl M X H T type (ob_node M H ob) st = Some (?st2\<lparr>sg_algo := s\<rparr>, True)"
    using m(1) s(1) value_header(3) [OF r ob(1)]
    by (simp add: priv_generic_named_destroy_impl_def Let_def N mem ob_value_def [symmetric])
  moreover have "destroy_outcome M H rep T ob st R Obs (?st2\<lparr>sg_algo := s\<rparr>)"
    using s(2) m(3) by (simp add: destroy_outcome_def)
  ultimately show ?thesis by blast
qed

lemma named_destroy_outcome:
  assumes r: "rep st R Obs" and t: "type = named_type \<or> type = unique_type" and T: "ctype_ok T"
  shows "ob \<in> Obs \<Longrightarrow> ob_kind ob = type \<Longrightarrow> ob_name ob = name \<Longrightarrow> ob_align ob = alignof T \<Longrightarrow>
      \<exists>st'. priv_generic_named_destroy M X H T type name st = Some (st', True) \<and> destroy_outcome M H rep T ob st R Obs st'"
    and "\<not> (\<exists>ob\<in>Obs. ob_kind ob = type \<and> ob_name ob = name) \<Longrightarrow> priv_generic_named_destroy M X H T type name st = Some (st, False)"
  using destroy_impl_outcome [OF r t T, of ob] find_object(1) [OF r t, of ob name] find_object(2) [OF r t, of name]
  by (simp_all add: priv_generic_named_destroy_def)

lemma anonymous_destroy_outcome:
  assumes r: "rep st R Obs" and T: "ctype_ok T"
    and ob: "ob \<in> Obs" "ob_kind ob = anonymous_type" "ob_align ob = alignof T"
  shows "\<exists>st'. priv_anonymous_destroy M T (ob_value M H ob) st = Some st' \<and> destroy_outcome M H rep T ob st R Obs st'"
proof -
  note ab = abandon_anonymous [OF r ob(1,2)] and V = value_header [OF r ob(1)]
  obtain m where m: "priv_destroy_n T (ob_value M H ob) (unat (ob_vbytes ob div sizeof T)) st =
      st\<lparr>sg_bytes := m, sg_calls := sg_calls st @ map Dtor (elem_addrs T (ob_value M H ob) (unat (ob_vbytes ob div sizeof T)))\<rparr>"
    "rep (st\<lparr>sg_bytes := m, sg_calls := sg_calls st @ map Dtor (elem_addrs T (ob_value M H ob) (unat (ob_vbytes ob div sizeof T)))\<rparr>)
       (insert (blk ob) R) (Obs - {ob})" "unchanged M (R \<union> blk ` (Obs - {ob})) (sg_bytes st) m"
    by (rule destroy_value [OF ab repD(4) [OF r ob(1)] T])
  let ?st2 = "st\<lparr>sg_bytes := m, sg_calls := sg_calls st @ map Dtor (elem_addrs T (ob_value M H ob) (unat (ob_vbytes ob div sizeof T)))\<rparr>"
  obtain s where s: "sm_deallocate M (ob_block ob + ctrl) ?st2 = Some (?st2\<lparr>sg_algo := s\<rparr>)" "rep (?st2\<lparr>sg_algo := s\<rparr>) R (Obs - {ob})"
    using deallocate_raw [of ?st2 "ob_block ob" "ob_units ob" R "Obs - {ob}"] m(2) ab(2) by (auto simp: blk_def)
  have mem: "ob_hdr M H ob - unat (front_space_without_header (alignof T)) = ob_block ob + ctrl"
    using ob(2,3) by (simp add: ob_hdr_def ob_prefix_def front_space_without_header_def)
  have "priv_anonymous_destroy M T (ob_value M H ob) st = Some (?st2\<lparr>sg_algo := s\<rparr>)"
    using m(1) s(1) by (simp add: priv_anonymous_destroy_def Let_def V mem)
  moreover have "destroy_outcome M H rep T ob st R Obs (?st2\<lparr>sg_algo := s\<rparr>)" using s(2) m(3) by (simp add: destroy_outcome_def)
  ultimately show ?thesis by blast
qed

text \<open>Destruction by address finds the object through the name that is stored behind it.\<close>

lemma destroy_ptr_outcome:
  assumes r: "rep st R Obs" and T: "ctype_ok T" and ob: "ob \<in> Obs" "ob_align ob = alignof T"
  shows "\<exists>st'. sm_destroy_ptr M X H T (ob_value M H ob) st = Some st' \<and> destroy_outcome M H rep T ob st R Obs st'"
proof -
  note V = value_header [OF r ob(1)]
  have km: "ob_kind ob \<noteq> max_allocation_type" using repD(5) [OF r ob(1)] by (simp add: ob_shape_def)
  show ?thesis
  proof (cases "ob_kind ob = anonymous_type")
    case True
    then show ?thesis using anonymous_destroy_outcome [OF r T ob(1) True ob(2)] by (simp add: sm_destroy_ptr_def V)
  next
    case False
    then have t: "ob_kind ob = named_type \<or> ob_kind ob = unique_type" using km by (cases "ob_kind ob") auto
    have S: "ob_stored M H (sg_bytes st) ob" using repD(4) [OF r ob(1)] by (simp add: object_ok_def)
    have "destroy_by_header M X H T (ob_kind ob) (ob_hdr M H ob) st = priv_generic_named_destroy M X H T (ob_kind ob) (ob_name ob) st"
      using stored_name(3,4) [OF repD(5) [OF r ob(1)] S False] by (simp add: destroy_by_header_def Let_def)
    then have "sm_destroy_ptr M X H T (ob_value M H ob) st = map_option fst (priv_generic_named_destroy M X H T (ob_kind ob) (ob_name ob) st)"
      using t by (auto simp: sm_destroy_ptr_def Let_def V)
    then show ?thesis using named_destroy_outcome(1) [OF r t T ob(1) refl refl ob(2)] by auto
  qed
qed

end

end
