(* ===== verification/Segment_Reach.thy ===== *)
theory Segment_Reach
  imports Segment_Access
begin

text \<open>
  Programs that use a segment: any sequence of constructions (with constructors that may throw), destructions, raw
  allocations and deallocations, and writes into the objects and buffers the program holds. What the program holds
  is kept as a set of handles; the invariant says that the segment holds exactly that.
\<close>

section \<open>Programs\<close>

record handle =
  h_ptr :: nat
  h_type :: ctype
  h_kind :: instance_type
  h_name :: "byte list"
  h_num :: size_t

fun kind_of :: "char_ptr_holder \<Rightarrow> instance_type" where
  "kind_of (Name n) = named_type"
| "kind_of anonymous_instance = anonymous_type"
| "kind_of unique_instance = unique_type"

fun name_of :: "ctype \<Rightarrow> char_ptr_holder \<Rightarrow> byte list" where
  "name_of T (Name n) = n"
| "name_of T anonymous_instance = []"
| "name_of T unique_instance = type_name T"

definition name_ok :: "char_ptr_holder \<Rightarrow> bool" where
  "name_ok nm \<longleftrightarrow> (\<forall>n. nm = Name n \<longrightarrow> 0 \<notin> set n \<and> length n < 2 ^ 16)"

definition with_handle :: "ctype \<Rightarrow> char_ptr_holder \<Rightarrow> size_t \<Rightarrow> 'e thrown + nat \<Rightarrow> handle set \<Rightarrow> handle set" where
  "with_handle T nm num res U =
     (case res of
        Inl _ \<Rightarrow> U
      | Inr p \<Rightarrow> if p = 0 \<or> p \<in> h_ptr ` U then U
                 else insert \<lparr>h_ptr = p, h_type = T, h_kind = kind_of nm, h_name = name_of T nm, h_num = num\<rparr> U)"

definition called :: "ctype \<Rightarrow> char_ptr_holder \<Rightarrow> handle \<Rightarrow> bool" where
  "called T nm h \<longleftrightarrow> h_kind h = kind_of nm \<and> h_name h = name_of T nm"

definition h_bytes :: "handle \<Rightarrow> nat set" where
  "h_bytes h = {h_ptr h..<h_ptr h + unat (sizeof (h_type h)) * unat (h_num h)}"

text \<open>A step: the program names an object type correctly, and its constructors and destructors keep to their objects.\<close>

inductive seg_reach ::
  "'s memory_algorithm \<Rightarrow> 'x index_ops \<Rightarrow> extent \<Rightarrow> ('s, 'x) segment \<Rightarrow> ('s, 'x) segment \<Rightarrow> handle set \<Rightarrow> (nat \<times> size_t) set \<Rightarrow> bool"
  for M X H st0 where
  start: "seg_reach M X H st0 st0 {} {}"
| construct: "seg_reach M X H st0 st U Rw \<Longrightarrow> ctype_ok T \<Longrightarrow> proxy_ok T (pr :: nat proxy) \<Longrightarrow> name_ok nm \<Longrightarrow>
    unat (sizeof T) * unat num < 2 ^ 62 \<Longrightarrow> generic_construct M X H pr T nm num try2find dothrow st = Some (st', res) \<Longrightarrow>
    seg_reach M X H st0 st' (with_handle T nm num res U) Rw"
| destroy_ptr: "seg_reach M X H st0 st U Rw \<Longrightarrow> h \<in> U \<Longrightarrow> sm_destroy_ptr M X H (h_type h) (h_ptr h) st = Some st' \<Longrightarrow>
    seg_reach M X H st0 st' (U - {h}) Rw"
| destroy: "seg_reach M X H st0 st U Rw \<Longrightarrow> ctype_ok T \<Longrightarrow> name_ok nm \<Longrightarrow> (\<forall>h\<in>U. called T nm h \<longrightarrow> h_type h = T) \<Longrightarrow>
    sm_destroy M X H T nm st = Some (st', b) \<Longrightarrow> seg_reach M X H st0 st' {h \<in> U. \<not> called T nm h} Rw"
| object_write: "seg_reach M X H st0 st U Rw \<Longrightarrow> h \<in> U \<Longrightarrow> (\<forall>x. x \<notin> h_bytes h \<longrightarrow> m x = sg_bytes st x) \<Longrightarrow>
    seg_reach M X H st0 (st\<lparr>sg_bytes := m\<rparr>) U Rw"
| allocate: "seg_reach M X H st0 st U Rw \<Longrightarrow> unat n + Alignment M \<le> 2 ^ 64 \<Longrightarrow> sm_allocate_nothrow M n st = Some (st', p) \<Longrightarrow>
    seg_reach M X H st0 st' U (if p = 0 then Rw else insert (p, n) Rw)"
| allocate_aligned: "seg_reach M X H st0 st U Rw \<Longrightarrow> unat n \<le> 2 ^ 62 \<Longrightarrow> j < 32 \<Longrightarrow>
    sm_allocate_aligned_nothrow M n (2 ^ j) st = Some (st', p) \<Longrightarrow>
    seg_reach M X H st0 st' U (if p = 0 then Rw else insert (p, n) Rw)"
| deallocate: "seg_reach M X H st0 st U Rw \<Longrightarrow> (p, n) \<in> Rw \<Longrightarrow> sm_deallocate M p st = Some st' \<Longrightarrow>
    seg_reach M X H st0 st' U (Rw - {(p, n)})"
| raw_write: "seg_reach M X H st0 st U Rw \<Longrightarrow> (p, n) \<in> Rw \<Longrightarrow> (\<forall>x. x \<notin> {p..<p + unat n} \<longrightarrow> m x = sg_bytes st x) \<Longrightarrow>
    seg_reach M X H st0 (st\<lparr>sg_bytes := m\<rparr>) U Rw"

section \<open>The invariant\<close>

definition fits :: "'s memory_algorithm \<Rightarrow> extent \<Rightarrow> handle \<Rightarrow> sm_object \<Rightarrow> bool" where
  "fits M H h ob \<longleftrightarrow> ob_value M H ob = h_ptr h \<and> made_as (h_type h) (h_kind h) (h_name h) (h_num h) ob"

definition handles_ok :: "'s memory_algorithm \<Rightarrow> extent \<Rightarrow> handle set \<Rightarrow> sm_object set \<Rightarrow> bool" where
  "handles_ok M H U Obs \<longleftrightarrow>
     (\<forall>h\<in>U. ctype_ok (h_type h) \<and> unat (sizeof (h_type h)) * unat (h_num h) < 2 ^ 62 \<and> (\<exists>ob\<in>Obs. fits M H h ob))
     \<and> (\<forall>ob\<in>Obs. \<exists>h\<in>U. fits M H h ob) \<and> inj_on h_ptr U"

definition buffers_ok :: "'s memory_algorithm \<Rightarrow> (nat \<times> size_t) set \<Rightarrow> (nat \<times> nat) set \<Rightarrow> bool" where
  "buffers_ok M Rw R \<longleftrightarrow>
     (\<forall>p n. (p, n) \<in> Rw \<longrightarrow> (\<exists>a k. (a, k) \<in> R \<and> p = a + AllocatedCtrlBytes M
        \<and> p + unat n \<le> a + k * Alignment M + UsableByPreviousChunk M))
     \<and> (\<forall>a k. (a, k) \<in> R \<longrightarrow> (\<exists>n. (a + AllocatedCtrlBytes M, n) \<in> Rw))
     \<and> (\<forall>p n n'. (p, n) \<in> Rw \<longrightarrow> (p, n') \<in> Rw \<longrightarrow> n = n') \<and> (\<forall>a k k'. (a, k) \<in> R \<longrightarrow> (a, k') \<in> R \<longrightarrow> k = k')"

definition seg_inv ::
  "'s memory_algorithm \<Rightarrow> extent \<Rightarrow> (('s, 'x) segment \<Rightarrow> (nat \<times> nat) set \<Rightarrow> sm_object set \<Rightarrow> bool) \<Rightarrow> ('s, 'x) segment \<Rightarrow>
     handle set \<Rightarrow> (nat \<times> size_t) set \<Rightarrow> bool" where
  "seg_inv M H rp st U Rw \<longleftrightarrow> (\<exists>R Obs. rp st R Obs \<and> handles_ok M H U Obs \<and> buffers_ok M Rw R)"

text \<open>A number of objects that the header can store passes the check for overflow.\<close>

lemma count_fits:
  assumes T: "ctype_ok T" and num: "unat (sizeof T) * unat num < 2 ^ 62"
  shows "\<not> num > (- 1) div sizeof T"
proof -
  have "unat num \<le> (2 ^ 64 - 1) div unat (sizeof T)"
    using num T by (subst less_eq_div_iff_mult_less_eq) (simp_all add: ctype_ok_def unat_gt_0 mult.commute)
  then show ?thesis by (simp add: not_less word_le_nat_alt size_t_max_div)
qed

context segment_parts
begin

lemma value_inj:
  assumes r: "rep st R Obs" and ob: "ob \<in> Obs" "ob' \<in> Obs" and eq: "ob_value M H ob = ob_value M H ob'"
  shows "ob = ob'"
proof (rule ccontr)
  assume "ob \<noteq> ob'"
  then have "blk ob \<noteq> blk ob'" using repD(2) [OF r] ob by (meson inj_onD)
  then have "reg (blk ob) \<inter> reg (blk ob') = {}" using regs_disjoint [OF repD(1) [OF r]] ob by blast
  moreover have "ob_hdr M H ob = ob_hdr M H ob'" using eq shape_layout(1) [OF repD(5) [OF r]] ob by simp
  moreover have "ob_hdr M H x \<in> reg (blk x)" if "x \<in> Obs" for x
    using object_in_reg(1) [OF repD(4) [OF r that]] by (auto simp: control_def)
  ultimately show False using ob by fastforce
qed

lemma fits_same:
  assumes r: "rep st R Obs" and u: "handles_ok M H U Obs"
  shows "h \<in> U \<Longrightarrow> h' \<in> U \<Longrightarrow> ob \<in> Obs \<Longrightarrow> fits M H h ob \<Longrightarrow> fits M H h' ob \<Longrightarrow> h = h'"
    and "ob \<in> Obs \<Longrightarrow> ob' \<in> Obs \<Longrightarrow> fits M H h ob \<Longrightarrow> fits M H h ob' \<Longrightarrow> ob = ob'"
  using u value_inj [OF r, of ob ob'] unfolding handles_ok_def fits_def by (auto dest: inj_onD)

lemma handles_remove:
  assumes r: "rep st R Obs" and u: "handles_ok M H U Obs" and h: "h \<in> U" "ob \<in> Obs" "fits M H h ob"
  shows "handles_ok M H (U - {h}) (Obs - {ob})"
proof -
  note F = fits_same [OF r u]
  have 1: "\<exists>ob'\<in>Obs - {ob}. fits M H h' ob'" if "h' \<in> U - {h}" for h'
    using that u F(1) [of h' h ob] h unfolding handles_ok_def by blast
  have 2: "\<exists>h'\<in>U - {h}. fits M H h' ob'" if "ob' \<in> Obs - {ob}" for ob'
    using that u F(2) [of ob' ob h] h unfolding handles_ok_def by blast
  have 3: "inj_on h_ptr (U - {h})" using u unfolding handles_ok_def by (meson Diff_subset inj_on_subset)
  show ?thesis using u 1 2 3 unfolding handles_ok_def by blast
qed

section \<open>Construction keeps the invariant\<close>

lemma generic_construct_cases:
  assumes r: "rep st R Obs" and T: "ctype_ok T" and pr: "proxy_ok T pr" and nm: "name_ok nm"
    and num: "unat (sizeof T) * unat num < 2 ^ 62"
  shows "\<exists>st' res. generic_construct M X H pr T nm num try2find dothrow st = Some (st', res)
    \<and> ((\<exists>ob\<in>Obs. kind_of nm \<noteq> anonymous_type \<and> ob_kind ob = kind_of nm \<and> ob_name ob = name_of T nm \<and> st' = st
          \<and> (res = (if try2find then Inr (ob_value M H ob) else null_or_already_exists dothrow) \<or> (\<exists>e. res = null_or_rethrow dothrow e)))
       \<or> (kind_of nm = anonymous_type \<or> \<not> (\<exists>ob\<in>Obs. ob_kind ob = kind_of nm \<and> ob_name ob = name_of T nm))
          \<and> construct_outcome M H rep T (kind_of nm) (name_of T nm) num dothrow st R Obs st' res)"
proof -
  have ov: "\<not> num > (- 1) div sizeof T" by (rule count_fits [OF T num])
  have named: "\<exists>st' res. priv_generic_named_construct M X H pr T type name num try2find dothrow st = Some (st', res)
      \<and> ((\<exists>ob\<in>Obs. ob_kind ob = type \<and> ob_name ob = name \<and> st' = st
            \<and> (res = (if try2find then Inr (ob_value M H ob) else null_or_already_exists dothrow) \<or> (\<exists>e. res = null_or_rethrow dothrow e)))
         \<or> \<not> (\<exists>ob\<in>Obs. ob_kind ob = type \<and> ob_name ob = name) \<and> construct_outcome M H rep T type name num dothrow st R Obs st' res)"
    if t: "type = named_type \<or> type = unique_type" and n: "0 \<notin> set name" "length name < 2 ^ 16" for type name
  proof (cases "\<exists>ob\<in>Obs. ob_kind ob = type \<and> ob_name ob = name")
    case True
    then obtain ob where ob: "ob \<in> Obs" "ob_kind ob = type" "ob_name ob = name" by blast
    show ?thesis using named_construct_found [OF r t ob, of pr T num try2find dothrow] ob by blast
  next
    case False
    then show ?thesis using named_construct_fresh [OF r T pr t n num False, of try2find dothrow] by blast
  qed
  show ?thesis
  proof (cases nm)
    case (Name n)
    then show ?thesis using named [of named_type n] nm ov by (simp add: generic_construct_def name_ok_def)
  next
    case anonymous_instance
    then show ?thesis using anonymous_construct_outcome [OF r T pr num, of dothrow] ov by (simp add: generic_construct_def)
  next
    case unique_instance
    then show ?thesis using named [of unique_type "type_name T"] T ov by (simp add: generic_construct_def ctype_ok_def)
  qed
qed

lemma construct_inv:
  assumes i: "seg_inv M H rep st U Rw" and T: "ctype_ok T" and pr: "proxy_ok T pr" and nm: "name_ok nm"
    and num: "unat (sizeof T) * unat num < 2 ^ 62"
    and e: "generic_construct M X H pr T nm num try2find dothrow st = Some (st', res)"
  shows "seg_inv M H rep st' (with_handle T nm num res U) Rw"
proof -
  obtain R Obs where r: "rep st R Obs" and u: "handles_ok M H U Obs" and b: "buffers_ok M Rw R" using i by (auto simp: seg_inv_def)
  have keep: "seg_inv M H rep st2 U Rw" if "rep st2 R Obs" for st2 using that u b by (auto simp: seg_inv_def)
  have W: "with_handle T nm num (null_or_rethrow dothrow x) U = U" "with_handle T nm num (null_or_already_exists dothrow) U = U" for x
    by (simp_all add: with_handle_def null_or_rethrow_def null_or_already_exists_def)
  from generic_construct_cases [OF r T pr nm num, of try2find dothrow] e
  consider (found) ob where "ob \<in> Obs" "st' = st"
      "res = (if try2find then Inr (ob_value M H ob) else null_or_already_exists dothrow) \<or> (\<exists>e. res = null_or_rethrow dothrow e)"
    | (outcome) "construct_outcome M H rep T (kind_of nm) (name_of T nm) num dothrow st R Obs st' res" by auto
  then show ?thesis
  proof cases
    case found
    obtain h where "h \<in> U" "h_ptr h = ob_value M H ob" using u found(1) by (force simp: handles_ok_def fits_def)
    then have "ob_value M H ob \<in> h_ptr ` U" by (metis image_eqI)
    then have "with_handle T nm num res U = U" using found(3) W by (auto split: if_splits simp: with_handle_def)
    then show ?thesis using keep [OF r] found(2) by simp
  next
    case outcome
    show ?thesis
    proof (cases "\<exists>p. res = Inr p \<and> p \<noteq> 0")
      case False
      then have "with_handle T nm num res U = U" "rep st' R Obs"
        using outcome by (auto simp: with_handle_def construct_outcome_def split: sum.splits thrown.splits if_splits)
      then show ?thesis using keep by simp
    next
      case True
      then obtain ob where ob: "res = Inr (ob_value M H ob)" "ob_value M H ob \<noteq> 0" "ob \<notin> Obs"
          "made_as T (kind_of nm) (name_of T nm) num ob" "rep st' R (insert ob Obs)"
        using outcome by (auto simp: construct_outcome_def)
      let ?h = "\<lparr>h_ptr = ob_value M H ob, h_type = T, h_kind = kind_of nm, h_name = name_of T nm, h_num = num\<rparr>"
      have new: "ob_value M H ob \<notin> h_ptr ` U"
      proof
        assume "ob_value M H ob \<in> h_ptr ` U"
        then obtain ob' where "ob' \<in> Obs" "ob_value M H ob' = ob_value M H ob" using u unfolding handles_ok_def fits_def by fastforce
        then show False using value_inj [OF ob(5), of ob' ob] ob(3) by blast
      qed
      then have w: "with_handle T nm num res U = insert ?h U" using ob(1,2) by (simp add: with_handle_def)
      have "fits M H ?h ob" using ob(4) by (simp add: fits_def)
      then have "handles_ok M H (insert ?h U) (insert ob Obs)"
        using u T num new unfolding handles_ok_def by auto
      then show ?thesis using ob(5) b unfolding w seg_inv_def by blast
    qed
  qed
qed

section \<open>The other steps\<close>

lemma destroy_ptr_inv:
  assumes i: "seg_inv M H rep st U Rw" and h: "h \<in> U"
  shows "\<exists>st'. sm_destroy_ptr M X H (h_type h) (h_ptr h) st = Some st' \<and> seg_inv M H rep st' (U - {h}) Rw"
proof -
  obtain R Obs where r: "rep st R Obs" and u: "handles_ok M H U Obs" and b: "buffers_ok M Rw R" using i by (auto simp: seg_inv_def)
  obtain ob where ob: "ob \<in> Obs" "fits M H h ob" and T: "ctype_ok (h_type h)" using u h by (auto simp: handles_ok_def)
  have al: "ob_align ob = alignof (h_type h)" "ob_value M H ob = h_ptr h" using ob(2) by (auto simp: fits_def made_as_def)
  obtain st' where st': "sm_destroy_ptr M X H (h_type h) (ob_value M H ob) st = Some st'"
      "destroy_outcome M H rep (h_type h) ob st R Obs st'" using destroy_ptr_outcome [OF r T ob(1) al(1)] by blast
  then show ?thesis using handles_remove [OF r u h ob] b al(2) by (auto simp: destroy_outcome_def seg_inv_def)
qed

lemma destroy_inv:
  assumes i: "seg_inv M H rep st U Rw" and T: "ctype_ok T" and nm: "kind_of nm \<noteq> anonymous_type"
    and ty: "\<forall>h\<in>U. called T nm h \<longrightarrow> h_type h = T"
  shows "\<exists>st'. sm_destroy M X H T nm st = Some (st', \<exists>h\<in>U. called T nm h) \<and> seg_inv M H rep st' {h \<in> U. \<not> called T nm h} Rw"
proof -
  obtain R Obs where r: "rep st R Obs" and u: "handles_ok M H U Obs" and b: "buffers_ok M Rw R" using i by (auto simp: seg_inv_def)
  have t: "kind_of nm = named_type \<or> kind_of nm = unique_type" using nm by (cases nm) auto
  have e: "sm_destroy M X H T nm st = priv_generic_named_destroy M X H T (kind_of nm) (name_of T nm) st"
    using nm by (cases nm) (simp_all add: sm_destroy_def)
  show ?thesis
  proof (cases "\<exists>ob\<in>Obs. ob_kind ob = kind_of nm \<and> ob_name ob = name_of T nm")
    case True
    then obtain ob where ob: "ob \<in> Obs" "ob_kind ob = kind_of nm" "ob_name ob = name_of T nm" by blast
    then obtain h where h: "h \<in> U" "fits M H h ob" using u by (auto simp: handles_ok_def)
    then have c: "called T nm h" using ob by (auto simp: fits_def made_as_def called_def)
    then have al: "ob_align ob = alignof T" using ty h by (auto simp: fits_def made_as_def)
    obtain st' where st': "sm_destroy M X H T nm st = Some (st', True)" "destroy_outcome M H rep T ob st R Obs st'"
      using named_destroy_outcome(1) [OF r t T ob al] e by auto
    have "h' = h" if h': "h' \<in> U" "called T nm h'" for h'
    proof -
      obtain ob' where ob': "ob' \<in> Obs" "fits M H h' ob'" using u h'(1) by (auto simp: handles_ok_def)
      then have "ob_kind ob' = kind_of nm" "ob_name ob' = name_of T nm" using h'(2) by (auto simp: fits_def made_as_def called_def)
      moreover obtain f where "named_as M H Obs (kind_of nm) f" by (rule rep_index [OF r t])
      ultimately have "ob' = ob" using named_unique [OF r _ nm ob'(1) ob(1)] ob by auto
      then show ?thesis using fits_same(1) [OF r u] ob ob' h h' by blast
    qed
    then have U: "{h \<in> U. \<not> called T nm h} = U - {h}" using h c by blast
    have "\<exists>h\<in>U. called T nm h" using h(1) c by blast
    then show ?thesis using st' handles_remove [OF r u h(1) ob(1) h(2)] b
      unfolding U seg_inv_def destroy_outcome_def by (intro exI [of _ st']) auto
  next
    case False
    have none: "\<not> called T nm h" if "h \<in> U" for h
      using False u that unfolding handles_ok_def fits_def made_as_def called_def by metis
    then have "{h \<in> U. \<not> called T nm h} = U" by blast
    then show ?thesis using e named_destroy_outcome(2) [OF r t T False] i none by auto
  qed
qed

lemma write_inv:
  assumes i: "seg_inv M H rep st U Rw" and h: "h \<in> U" and m: "\<forall>x. x \<notin> h_bytes h \<longrightarrow> m x = sg_bytes st x"
  shows "seg_inv M H rep (st\<lparr>sg_bytes := m\<rparr>) U Rw"
proof -
  obtain R Obs where r: "rep st R Obs" and u: "handles_ok M H U Obs" and b: "buffers_ok M Rw R" using i by (auto simp: seg_inv_def)
  obtain ob where ob: "ob \<in> Obs" "fits M H h ob" and T: "ctype_ok (h_type h)" "unat (sizeof (h_type h)) * unat (h_num h) < 2 ^ 62"
    using u h by (auto simp: handles_ok_def)
  have "h_bytes h = {ob_value M H ob..<ob_value M H ob + unat (ob_vbytes ob)}"
    using ob(2) type_size(1) [OF T] by (auto simp: h_bytes_def fits_def made_as_def)
  then have "rep (st\<lparr>sg_bytes := m, sg_calls := sg_calls st\<rparr>) R Obs" using m by (intro rep_value_write [OF r ob(1)]) auto
  then show ?thesis using u b by (auto simp: seg_inv_def)
qed

lemma buffer_block:
  assumes "buffers_ok M Rw R" "(p, n) \<in> Rw"
  obtains a k where "(a, k) \<in> R" "p = a + ctrl" "p + unat n \<le> a + k * Alignment M + UsableByPreviousChunk M"
proof -
  have "\<exists>a k. (a, k) \<in> R \<and> p = a + ctrl \<and> p + unat n \<le> a + k * Alignment M + UsableByPreviousChunk M"
    using assms unfolding buffers_ok_def by fast
  then show thesis by (elim exE conjE) (rule that)
qed

lemma block_buffer:
  assumes "buffers_ok M Rw R" "(a, k) \<in> R"
  obtains n where "(a + ctrl, n) \<in> Rw"
proof -
  have "\<exists>n. (a + ctrl, n) \<in> Rw" using assms unfolding buffers_ok_def by fast
  then show thesis by (elim exE) (rule that)
qed

lemma buffers_unique:
  assumes "buffers_ok M Rw R"
  shows "(p, n) \<in> Rw \<Longrightarrow> (p, n') \<in> Rw \<Longrightarrow> n = n'" "(a, k) \<in> R \<Longrightarrow> (a, k') \<in> R \<Longrightarrow> k = k'"
  using assms unfolding buffers_ok_def by fast+

lemma buffers_add:
  assumes b: "buffers_ok M Rw R" and a: "a \<notin> fst ` R" and p: "p = a + ctrl"
    and n: "p + unat n \<le> a + k * Alignment M + UsableByPreviousChunk M"
  shows "buffers_ok M (insert (p, n) Rw) (insert (a, k) R)"
proof -
  have R: "(a, k') \<notin> R" for k' using a by force
  have Rw: "(p, n') \<notin> Rw" for n'
  proof
    assume "(p, n') \<in> Rw"
    then obtain a' k' where "(a', k') \<in> R" "p = a' + ctrl" by (rule buffer_block [OF b])
    then show False using R p by simp
  qed
  show ?thesis unfolding buffers_ok_def
  proof (intro conjI allI impI)
    fix p' n' assume "(p', n') \<in> insert (p, n) Rw"
    then consider "p' = p" "n' = n" | "(p', n') \<in> Rw" by blast
    then show "\<exists>a' k'. (a', k') \<in> insert (a, k) R \<and> p' = a' + ctrl \<and> p' + unat n' \<le> a' + k' * Alignment M + UsableByPreviousChunk M"
    proof cases
      case 1
      then show ?thesis using p n by (intro exI [of _ a] exI [of _ k]) simp
    next
      case 2
      then show ?thesis by (rule buffer_block [OF b]) blast
    qed
  next
    fix a' k' assume "(a', k') \<in> insert (a, k) R"
    then consider "a' = a" | "(a', k') \<in> R" by blast
    then show "\<exists>n'. (a' + ctrl, n') \<in> insert (p, n) Rw"
    proof cases
      case 2
      then show ?thesis by (rule block_buffer [OF b]) blast
    qed (use p in blast)
  next
    fix p' n1 n2 assume "(p', n1) \<in> insert (p, n) Rw" "(p', n2) \<in> insert (p, n) Rw"
    then show "n1 = n2" using buffers_unique(1) [OF b] Rw by blast
  next
    fix a' k1 k2 assume "(a', k1) \<in> insert (a, k) R" "(a', k2) \<in> insert (a, k) R"
    then show "k1 = k2" using buffers_unique(2) [OF b] R by blast
  qed
qed

lemma buffers_remove:
  assumes b: "buffers_ok M Rw R" and r: "(p, n) \<in> Rw" "(a, k) \<in> R" "p = a + ctrl"
  shows "buffers_ok M (Rw - {(p, n)}) (R - {(a, k)})"
  unfolding buffers_ok_def
proof (intro conjI allI impI)
  fix p' n' assume q: "(p', n') \<in> Rw - {(p, n)}"
  then have q': "(p', n') \<in> Rw" by blast
  obtain a' k' where a': "(a', k') \<in> R" "p' = a' + ctrl" "p' + unat n' \<le> a' + k' * Alignment M + UsableByPreviousChunk M"
    by (rule buffer_block [OF b q'])
  have "p' \<noteq> p" using q r(1) buffers_unique(1) [OF b] by blast
  then have "(a', k') \<noteq> (a, k)" using a'(2) r(3) by auto
  then show "\<exists>a' k'. (a', k') \<in> R - {(a, k)} \<and> p' = a' + ctrl \<and> p' + unat n' \<le> a' + k' * Alignment M + UsableByPreviousChunk M"
    using a' by blast
next
  fix a' k' assume q: "(a', k') \<in> R - {(a, k)}"
  then have q': "(a', k') \<in> R" by blast
  obtain n' where n': "(a' + ctrl, n') \<in> Rw" by (rule block_buffer [OF b q'])
  have "a' \<noteq> a" using q r(2) buffers_unique(2) [OF b] by blast
  then show "\<exists>n'. (a' + ctrl, n') \<in> Rw - {(p, n)}" using n' r(3) by auto
next
  fix p' n1 n2 assume "(p', n1) \<in> Rw - {(p, n)}" "(p', n2) \<in> Rw - {(p, n)}"
  then show "n1 = n2" using buffers_unique(1) [OF b] by blast
next
  fix a' k1 k2 assume "(a', k1) \<in> R - {(a, k)}" "(a', k2) \<in> R - {(a, k)}"
  then show "k1 = k2" using buffers_unique(2) [OF b] by blast
qed

lemma live_starts:
  assumes "live s A" "(a, k) \<in> A" "(a, k') \<in> A"
  shows "k = k'"
  using live_block [OF assms(1,2)] live_block [OF assms(1,3)] by simp

lemma allocated_inv:
  assumes b: "buffers_ok M Rw R" and u: "handles_ok M H U Obs"
    and r: "rep st' (insert (a, k) R) Obs" "(a, k) \<notin> R \<union> blk ` Obs" and p: "p = a + ctrl"
    and n: "p + unat n \<le> a + k * Alignment M + UsableByPreviousChunk M"
  shows "seg_inv M H rep st' U (insert (p, n) Rw)"
proof -
  have "a \<notin> fst ` R"
  proof
    assume "a \<in> fst ` R"
    then obtain k' where "(a, k') \<in> R" by auto
    then show False using live_starts [OF repD(1) [OF r(1)], of a k k'] r(2) by blast
  qed
  then show ?thesis using buffers_add [OF b _ p n] u r(1) by (auto simp: seg_inv_def)
qed

lemma allocate_inv:
  assumes i: "seg_inv M H rep st U Rw" and n: "unat n + Alignment M \<le> 2 ^ 64"
  shows "\<exists>st' p. sm_allocate_nothrow M n st = Some (st', p) \<and> seg_inv M H rep st' U (if p = 0 then Rw else insert (p, n) Rw)"
proof -
  obtain R Obs where r: "rep st R Obs" and u: "handles_ok M H U Obs" and b: "buffers_ok M Rw R" using i by (auto simp: seg_inv_def)
  obtain s p where s: "priv_allocate_new M (sg_algo st) n n = Some (s, p)"
    "p = 0 \<and> s = sg_algo st \<or> (\<exists>a k. p = a + ctrl \<and> (a, k) \<notin> R \<union> blk ` Obs \<and> live s (insert (a, k) (R \<union> blk ` Obs))
       \<and> unat n \<le> user_bytes k)"
    using alloc_new [OF repD(1) [OF r] n] by (elim exE conjE) (rule that)
  have e: "sm_allocate_nothrow M n st = Some (st\<lparr>sg_algo := s\<rparr>, p)" using s(1) by (simp add: sm_allocate_nothrow_def)
  from s(2) show ?thesis
  proof (elim disjE exE conjE)
    assume "p = 0" "s = sg_algo st"
    then show ?thesis using e i by simp
  next
    fix a k assume h: "p = a + ctrl" "(a, k) \<notin> R \<union> blk ` Obs" "live s (insert (a, k) (R \<union> blk ` Obs))" "unat n \<le> user_bytes k"
    have lb: "BlockCtrlUnits M \<le> k" "0 < a" using live_block [OF h(3), of a k] by simp_all
    have "ctrl \<le> k * Alignment M" using lb(1) ctrl_units(2) unfolding AllocatedCtrlBytes_def by (intro mult_le_mono1) simp
    then have fit: "p + unat n \<le> a + k * Alignment M + UsableByPreviousChunk M"
      using h(1,4) unfolding AllocatedCtrlBytes_def diff_mult_distrib by linarith
    have r': "rep (st\<lparr>sg_algo := s\<rparr>) (insert (a, k) R) Obs" using r h(2,3) by (auto simp: sm_rep_def index_of_def)
    have "p \<noteq> 0" using h(1) lb(2) by simp
    then show ?thesis using e allocated_inv [OF b u r' h(2,1) fit] by simp
  qed
qed

lemma allocate_aligned_inv:
  assumes i: "seg_inv M H rep st U Rw" and n: "unat n \<le> 2 ^ 62" and j: "j < 32"
  shows "\<exists>st' p. sm_allocate_aligned_nothrow M n (2 ^ j) st = Some (st', p)
    \<and> seg_inv M H rep st' U (if p = 0 then Rw else insert (p, n) Rw) \<and> p mod 2 ^ j = 0"
proof -
  obtain R Obs where r: "rep st R Obs" and u: "handles_ok M H U Obs" and b: "buffers_ok M Rw R" using i by (auto simp: seg_inv_def)
  have n': "unat n \<le> 2 ^ 62 + 2 ^ 34" using n by simp
  from allocate_raw [OF r refl j n'] show ?thesis
  proof (elim exE conjE disjE)
    fix st' p assume "sm_allocate_aligned_nothrow M n (2 ^ j) st = Some (st', p)" "p = 0" "st' = st"
    then show ?thesis using i by simp
  next
    fix st' p a k s
    assume h: "sm_allocate_aligned_nothrow M n (2 ^ j) st = Some (st', p)" "p = a + ctrl" "p mod 2 ^ j = 0" "0 < p"
      "(a, k) \<notin> R \<union> blk ` Obs" "rep st' (insert (a, k) R) Obs" "p + unat n \<le> a + k * Alignment M + UsableByPreviousChunk M"
    have "p \<noteq> 0" using h(4) by simp
    then show ?thesis using allocated_inv [OF b u h(6,5,2,7)] h(1,3) by (intro exI [of _ st'] exI [of _ p]) (simp only: if_False simp_thms)
  qed
qed

lemma deallocate_inv:
  assumes i: "seg_inv M H rep st U Rw" and p: "(p, n) \<in> Rw"
  shows "\<exists>st'. sm_deallocate M p st = Some st' \<and> seg_inv M H rep st' U (Rw - {(p, n)})"
proof -
  obtain R Obs where r: "rep st R Obs" and u: "handles_ok M H U Obs" and b: "buffers_ok M Rw R" using i by (auto simp: seg_inv_def)
  obtain a k where a: "(a, k) \<in> R" "p = a + ctrl" by (rule buffer_block [OF b p])
  have ins: "insert (a, k) (R - {(a, k)}) = R" using a(1) by blast
  obtain s where s: "sm_deallocate M p st = Some (st\<lparr>sg_algo := s\<rparr>)" "rep (st\<lparr>sg_algo := s\<rparr>) (R - {(a, k)}) Obs"
    using deallocate_raw [of st a k "R - {(a, k)}" Obs] r a(2) unfolding ins by blast
  have "buffers_ok M (Rw - {(p, n)}) (R - {(a, k)})" by (rule buffers_remove [OF b p a])
  then show ?thesis using s u by (auto simp: seg_inv_def)
qed

lemma raw_write_inv:
  assumes i: "seg_inv M H rep st U Rw" and p: "(p, n) \<in> Rw" and m: "\<forall>x. x \<notin> {p..<p + unat n} \<longrightarrow> m x = sg_bytes st x"
  shows "seg_inv M H rep (st\<lparr>sg_bytes := m\<rparr>) U Rw"
proof -
  obtain R Obs where r: "rep st R Obs" and u: "handles_ok M H U Obs" and b: "buffers_ok M Rw R" using i by (auto simp: seg_inv_def)
  obtain a k where a: "(a, k) \<in> R" "p = a + ctrl" "p + unat n \<le> a + k * Alignment M + UsableByPreviousChunk M"
    by (rule buffer_block [OF b p])
  then have "{p..<p + unat n} \<subseteq> reg (a, k)" by (auto simp: user_region_def)
  then have "m x = sg_bytes st x" if "x \<notin> reg (a, k)" for x using m that by blast
  then have "rep (st\<lparr>sg_bytes := m, sg_calls := sg_calls st\<rparr>) R Obs" by (intro rep_raw_write [OF r a(1)])
  then show ?thesis using u b by (auto simp: seg_inv_def)
qed

section \<open>All programs\<close>

lemma start_inv:
  assumes "live s {}"
  shows "seg_inv M H rep (segment_manager X s mem) {} {}"
proof -
  have "named_as M H {} type Map.empty" for type by (simp add: named_as_def)
  then have "rep (segment_manager X s mem) {} {}"
    using assms construct_names [of mem] by (auto simp: sm_rep_def segment_manager_def)
  then show ?thesis by (auto simp: seg_inv_def handles_ok_def buffers_ok_def)
qed

lemma reach_inv:
  assumes "seg_reach M X H (segment_manager X s mem) st U Rw" "live s {}"
  shows "seg_inv M H rep st U Rw"
  using assms(1)
proof (induction rule: seg_reach.induct)
  case start
  show ?case by (rule start_inv [OF assms(2)])
next
  case (construct st U Rw T pr nm num try2find dothrow st' res)
  then show ?case by (intro construct_inv)
next
  case (destroy_ptr st U Rw h st')
  then show ?case using destroy_ptr_inv [of st U Rw h] by auto
next
  case (destroy st U Rw T nm st' b)
  have "kind_of nm \<noteq> anonymous_type" using destroy.hyps by (cases nm) (auto simp: sm_destroy_def)
  then show ?case using destroy_inv [of st U Rw T nm] destroy by auto
next
  case (object_write st U Rw h m)
  then show ?case by (intro write_inv)
next
  case (allocate st U Rw n st' p)
  then show ?case using allocate_inv [of st U Rw n] by auto
next
  case (allocate_aligned st U Rw n j st' p)
  then show ?case using allocate_aligned_inv [of st U Rw n j] by auto
next
  case (deallocate st U Rw p n st')
  then show ?case using deallocate_inv [of st U Rw p n] by auto
next
  case (raw_write st U Rw p n m)
  then show ?case by (intro raw_write_inv)
qed

text \<open>What the invariant gives the program.\<close>

lemma inv_handles:
  assumes i: "seg_inv M H rep st U Rw" and h: "h \<in> U"
  shows "get_instance_type (h_ptr h) st = h_kind h" "get_instance_length (h_type h) (h_ptr h) st = h_num h"
    "h_ptr h mod unat (alignof (h_type h)) = 0"
    "h_kind h = anonymous_type \<or> h_kind h = named_type \<or> h_kind h = unique_type"
    "h_kind h \<noteq> anonymous_type \<Longrightarrow> priv_generic_find X H (h_type h) (h_kind h) (h_name h) st = (h_ptr h, h_num h)"
    "h_kind h \<noteq> anonymous_type \<Longrightarrow> h_name h \<noteq> [] \<Longrightarrow>
       \<exists>q. get_instance_name (h_ptr h) st = Some q \<and> get_bytes (sg_bytes st) q (Suc (length (h_name h))) = h_name h @ [0]"
    "h_name h = [] \<Longrightarrow> get_instance_name (h_ptr h) st = (if h_kind h = anonymous_type then Some 0 else None)"
proof -
  obtain R Obs where r: "rep st R Obs" and u: "handles_ok M H U Obs" using i by (auto simp: seg_inv_def)
  obtain ob where ob: "ob \<in> Obs" "fits M H h ob" and T: "ctype_ok (h_type h)" "unat (sizeof (h_type h)) * unat (h_num h) < 2 ^ 62"
    using u h by (auto simp: handles_ok_def)
  have o: "ob_value M H ob = h_ptr h" "ob_kind ob = h_kind h" "ob_name ob = h_name h" "ob_vbytes ob div sizeof (h_type h) = h_num h"
      "ob_align ob = alignof (h_type h)"
    using ob(2) type_size(3) [OF T] by (auto simp: fits_def made_as_def)
  show "get_instance_type (h_ptr h) st = h_kind h" "get_instance_length (h_type h) (h_ptr h) st = h_num h"
    using instance_queries(1,2) [OF r ob(1)] o by auto
  show "h_ptr h mod unat (alignof (h_type h)) = 0" using repD(4) [OF r ob(1)] o by (simp add: object_ok_def ob_placed_def)
  show k: "h_kind h = anonymous_type \<or> h_kind h = named_type \<or> h_kind h = unique_type"
    using repD(5) [OF r ob(1)] o by (cases "h_kind h") (auto simp: ob_shape_def)
  show "h_kind h \<noteq> anonymous_type \<Longrightarrow> h_name h \<noteq> [] \<Longrightarrow>
       \<exists>q. get_instance_name (h_ptr h) st = Some q \<and> get_bytes (sg_bytes st) q (Suc (length (h_name h))) = h_name h @ [0]"
    "h_name h = [] \<Longrightarrow> get_instance_name (h_ptr h) st = (if h_kind h = anonymous_type then Some 0 else None)"
    using instance_queries(3,4) [OF r ob(1)] o by auto
  assume "h_kind h \<noteq> anonymous_type"
  then show "priv_generic_find X H (h_type h) (h_kind h) (h_name h) st = (h_ptr h, h_num h)"
    using generic_find(1) [OF r _ ob(1), of "h_kind h" "h_name h" "h_type h"] k o by auto
qed

lemma inv_apart:
  assumes i: "seg_inv M H rep st U Rw"
  shows "h \<in> U \<Longrightarrow> h' \<in> U \<Longrightarrow> h \<noteq> h' \<Longrightarrow> h_bytes h \<inter> h_bytes h' = {}"
    and "h \<in> U \<Longrightarrow> (p, n) \<in> Rw \<Longrightarrow> h_bytes h \<inter> {p..<p + unat n} = {}"
    and "(p, n) \<in> Rw \<Longrightarrow> (q, k) \<in> Rw \<Longrightarrow> (p, n) \<noteq> (q, k) \<Longrightarrow> {p..<p + unat n} \<inter> {q..<q + unat k} = {}"
proof -
  obtain R Obs where r: "rep st R Obs" and u: "handles_ok M H U Obs" and b: "buffers_ok M Rw R" using i by (auto simp: seg_inv_def)
  have obj: "\<exists>ob\<in>Obs. fits M H x ob \<and> h_bytes x \<subseteq> reg (blk ob)" if x: "x \<in> U" for x
  proof -
    obtain ob where ob: "ob \<in> Obs" "fits M H x ob" and T: "ctype_ok (h_type x)" "unat (sizeof (h_type x)) * unat (h_num x) < 2 ^ 62"
      using u x unfolding handles_ok_def by blast
    have "h_bytes x = {ob_value M H ob..<ob_value M H ob + unat (ob_vbytes ob)}"
      using ob(2) type_size(1) [OF T] by (auto simp: h_bytes_def fits_def made_as_def)
    then show ?thesis using ob object_in_reg(2) [OF repD(4) [OF r ob(1)]] by auto
  qed
  have buf: "\<exists>c\<in>R. p = fst c + ctrl \<and> {p..<p + unat n} \<subseteq> reg c" if pn: "(p, n) \<in> Rw" for p n
  proof -
    obtain a k where "(a, k) \<in> R" "p = a + ctrl" "p + unat n \<le> a + k * Alignment M + UsableByPreviousChunk M"
      by (rule buffer_block [OF b pn])
    then show ?thesis by (intro bexI [of _ "(a, k)"]) (auto simp: user_region_def)
  qed
  note D = regs_disjoint [OF repD(1) [OF r]]
  show "h_bytes h \<inter> h_bytes h' = {}" if hs: "h \<in> U" "h' \<in> U" "h \<noteq> h'"
  proof -
    obtain ob ob' where o: "ob \<in> Obs" "fits M H h ob" "h_bytes h \<subseteq> reg (blk ob)" "ob' \<in> Obs" "fits M H h' ob'" "h_bytes h' \<subseteq> reg (blk ob')"
      using obj [OF hs(1)] obj [OF hs(2)] by blast
    then have "ob \<noteq> ob'" using fits_same(1) [OF r u] hs by blast
    then have "blk ob \<noteq> blk ob'" using repD(2) [OF r] o by (meson inj_onD)
    then have "reg (blk ob) \<inter> reg (blk ob') = {}" using D o by blast
    then show ?thesis using o by blast
  qed
  show "h_bytes h \<inter> {p..<p + unat n} = {}" if hs: "h \<in> U" "(p, n) \<in> Rw"
  proof -
    obtain ob c where o: "ob \<in> Obs" "h_bytes h \<subseteq> reg (blk ob)" "c \<in> R" "{p..<p + unat n} \<subseteq> reg c"
      using obj [OF hs(1)] buf [OF hs(2)] by blast
    then have "blk ob \<noteq> c" using repD(3) [OF r] by blast
    then have "reg (blk ob) \<inter> reg c = {}" using D o by blast
    then show ?thesis using o by blast
  qed
  show "{p..<p + unat n} \<inter> {q..<q + unat k} = {}" if hs: "(p, n) \<in> Rw" "(q, k) \<in> Rw" "(p, n) \<noteq> (q, k)"
  proof -
    obtain c c' where o: "c \<in> R" "p = fst c + ctrl" "{p..<p + unat n} \<subseteq> reg c" "c' \<in> R" "q = fst c' + ctrl" "{q..<q + unat k} \<subseteq> reg c'"
      using buf [OF hs(1)] buf [OF hs(2)] by blast
    have "p \<noteq> q" using buffers_unique(1) [OF b] hs by blast
    then have "c \<noteq> c'" using o by auto
    then have "reg c \<inter> reg c' = {}" using D o by blast
    then show ?thesis using o by blast
  qed
qed

lemma inv_allocated:
  assumes "seg_inv M H rep st U Rw"
  obtains A where "live (sg_algo st) A" "A = {} \<longleftrightarrow> U = {} \<and> Rw = {}"
proof -
  obtain R Obs where r: "rep st R Obs" and u: "handles_ok M H U Obs" and b: "buffers_ok M Rw R" using assms by (auto simp: seg_inv_def)
  have "R = {} \<longleftrightarrow> Rw = {}"
  proof (intro iffI equals0I)
    fix x assume R: "R = {}" and x: "x \<in> Rw"
    then have "(fst x, snd x) \<in> Rw" by simp
    then show False by (rule buffer_block [OF b]) (simp add: R)
  next
    fix x assume Rw: "Rw = {}" and x: "x \<in> R"
    then have "(fst x, snd x) \<in> R" by simp
    then show False by (rule block_buffer [OF b]) (simp add: Rw)
  qed
  moreover have "Obs = {} \<longleftrightarrow> U = {}" using u by (auto simp: handles_ok_def)
  ultimately have "R \<union> blk ` Obs = {} \<longleftrightarrow> U = {} \<and> Rw = {}" by auto
  then show thesis by (rule that [OF repD(1) [OF r]])
qed

lemma inv_absent:
  assumes i: "seg_inv M H rep st U Rw" and nm: "kind_of nm \<noteq> anonymous_type" and no: "\<not> (\<exists>h\<in>U. called T nm h)"
  shows "priv_generic_find X H T (kind_of nm) (name_of T nm) st = (0, 0)"
proof -
  obtain R Obs where r: "rep st R Obs" and u: "handles_ok M H U Obs" using i by (auto simp: seg_inv_def)
  have "kind_of nm = named_type \<or> kind_of nm = unique_type" using nm by (cases nm) auto
  moreover have "\<not> (\<exists>ob\<in>Obs. ob_kind ob = kind_of nm \<and> ob_name ob = name_of T nm)"
    using no u unfolding handles_ok_def fits_def made_as_def called_def by metis
  ultimately show ?thesis using generic_find(2) [OF r] by blast
qed

lemma inv_counts:
  assumes i: "seg_inv M H rep st U Rw"
  shows "ix_size X (index_of named_type st) = card {h \<in> U. h_kind h = named_type}"
    "ix_size X (index_of unique_type st) = card {h \<in> U. h_kind h = unique_type}"
proof -
  obtain R Obs where r: "rep st R Obs" and u: "handles_ok M H U Obs" using i by (auto simp: seg_inv_def)
  have "card {h \<in> U. h_kind h = k} = card {ob \<in> Obs. ob_kind ob = k}" for k
  proof -
    have F: "\<exists>ob\<in>Obs. fits M H h ob" if "h \<in> U" for h using u that by (simp add: handles_ok_def)
    define g where "g h = (SOME ob. ob \<in> Obs \<and> fits M H h ob)" for h
    have g: "g h \<in> Obs \<and> fits M H h (g h)" if "h \<in> U" for h
      unfolding g_def by (rule someI_ex) (use F [OF that] in blast)
    have "inj_on g {h \<in> U. h_kind h = k}"
    proof (rule inj_onI)
      fix h h' assume h: "h \<in> {h \<in> U. h_kind h = k}" "h' \<in> {h \<in> U. h_kind h = k}" and eq: "g h = g h'"
      show "h = h'" by (rule fits_same(1) [OF r u, of h h' "g h"]) (use g [of h] g [of h'] h eq in auto)
    qed
    moreover have "g ` {h \<in> U. h_kind h = k} = {ob \<in> Obs. ob_kind ob = k}"
    proof (intro equalityI subsetI)
      fix ob assume "ob \<in> g ` {h \<in> U. h_kind h = k}"
      then show "ob \<in> {ob \<in> Obs. ob_kind ob = k}" using g by (auto simp: fits_def made_as_def)
    next
      fix ob assume ob: "ob \<in> {ob \<in> Obs. ob_kind ob = k}"
      then obtain h where h: "h \<in> U" "fits M H h ob" using u by (auto simp: handles_ok_def)
      then have "g h = ob" "h_kind h = k" using fits_same(2) [OF r u, of "g h" ob h] g [OF h(1)] ob by (auto simp: fits_def made_as_def)
      then show "ob \<in> g ` {h \<in> U. h_kind h = k}" using h(1) by blast
    qed
    ultimately show ?thesis using card_image [of g "{h \<in> U. h_kind h = k}"] by simp
  qed
  then show "ix_size X (index_of named_type st) = card {h \<in> U. h_kind h = named_type}"
    "ix_size X (index_of unique_type st) = card {h \<in> U. h_kind h = unique_type}" using number_of_objects [OF r] by simp_all
qed

end

end
