(* ===== verification/Rbtree_Best_Fit.thy ===== *)
theory Rbtree_Best_Fit
  imports Seq_Fit
begin

text \<open>
  The best fit algorithm, mem\_algo/rbtree\_best\_fit.hpp. The segment is a row of blocks of 16-byte units; the
  header of a block holds its size and whether it is allocated, and says of the block before it whether that
  is allocated and, if it is free, its size (these 8 bytes belong to the user of an allocated block before).
  The free blocks are kept in an intrusive multiset ordered by size. An end block of one unit closes the
  row. The numbers are those of a 64-bit platform with \<^verbatim>\<open>offset_ptr\<close>: alignment 16, 16 bytes of control data in
  an allocated block (one unit), 40 bytes in a free one (rounded up to three units), and 8 bytes of the next
  header usable by an allocated block. Sizes of blocks are naturals, as the segment is in the address space,
  so the mask of the 62-bit size field has no effect.

  The multiset is the one of Boost.Intrusive, which is not part of this library: it is a parameter, with the
  sequence of its elements as its state.
\<close>

section \<open>The intrusive multiset\<close>

text \<open>
  The operations get the current sizes of the blocks, since the comparison reads them. An iterator is a
  position; the position after the last element is the end. \<open>im_insert_hint\<close> also gets the position of the hint.
\<close>

record imultiset =
  im_insert :: "(nat \<Rightarrow> nat) \<Rightarrow> nat \<Rightarrow> nat list \<Rightarrow> nat list"
  im_insert_hint :: "(nat \<Rightarrow> nat) \<Rightarrow> nat \<Rightarrow> nat \<Rightarrow> nat list \<Rightarrow> nat list"
  im_erase :: "nat \<Rightarrow> nat list \<Rightarrow> nat list"
  im_lower_bound :: "(nat \<Rightarrow> nat) \<Rightarrow> nat \<Rightarrow> nat list \<Rightarrow> nat"

text \<open>
  The documented behaviour: a container in order stays in order when an element is inserted, wherever the
  element goes among equal ones, and an insertion compares only the element and those of the container; erasing
  an element keeps the order of the others; the lower bound is the first element whose size is not less
  than the given one.
\<close>

definition inserted :: "(nat \<Rightarrow> nat) \<Rightarrow> nat \<Rightarrow> nat list \<Rightarrow> nat list \<Rightarrow> bool" where
  "inserted sz b xs ys \<longleftrightarrow> (\<exists>us vs. xs = us @ vs \<and> ys = us @ b # vs) \<and> sorted (map sz ys)"

definition imultiset_ok :: "imultiset \<Rightarrow> bool" where
  "imultiset_ok I \<longleftrightarrow>
     (\<forall>sz b xs. sorted (map sz xs) \<longrightarrow> inserted sz b xs (im_insert I sz b xs))
     \<and> (\<forall>sz sz' b xs. (\<forall>z\<in>insert b (set xs). sz z = sz' z) \<longrightarrow> im_insert I sz b xs = im_insert I sz' b xs)
     \<and> (\<forall>sz h b xs. sorted (map sz xs) \<longrightarrow> h \<le> length xs \<longrightarrow> inserted sz b xs (im_insert_hint I sz h b xs))
     \<and> (\<forall>b us vs. b \<notin> set us \<longrightarrow> im_erase I b (us @ b # vs) = us @ vs)
     \<and> (\<forall>sz n xs. sorted (map sz xs) \<longrightarrow> im_lower_bound I sz n xs = length (takeWhile (\<lambda>x. sz x < n) xs))"

section \<open>State\<close>

record rb_block =
  bk_prev_size :: nat
  bk_size :: nat
  bk_prev_allocated :: bool
  bk_allocated :: bool

record rb_fit =
  rb_this :: nat
  rb_heap :: "nat \<Rightarrow> rb_block"
  rb_free :: "nat list"
  rb_extra_hdr_bytes :: nat
  rb_allocated :: nat
  rb_size :: nat

abbreviation bsize :: "rb_fit \<Rightarrow> nat \<Rightarrow> nat" where
  "bsize st a \<equiv> bk_size (rb_heap st a)"

definition rb_upd :: "rb_fit \<Rightarrow> nat \<Rightarrow> (rb_block \<Rightarrow> rb_block) \<Rightarrow> rb_fit" where
  "rb_upd st a f = st\<lparr>rb_heap := (rb_heap st)(a := f (rb_heap st a))\<rparr>"

definition rb_set_size :: "rb_fit \<Rightarrow> nat \<Rightarrow> nat \<Rightarrow> rb_fit" where
  "rb_set_size st a n = rb_upd st a (bk_size_update (\<lambda>_. n))"

definition rb_set_prev_size :: "rb_fit \<Rightarrow> nat \<Rightarrow> nat \<Rightarrow> rb_fit" where
  "rb_set_prev_size st a n = rb_upd st a (bk_prev_size_update (\<lambda>_. n))"

definition rb_set_allocated :: "rb_fit \<Rightarrow> nat \<Rightarrow> bool \<Rightarrow> rb_fit" where
  "rb_set_allocated st a b = rb_upd st a (bk_allocated_update (\<lambda>_. b))"

definition rb_set_prev_allocated :: "rb_fit \<Rightarrow> nat \<Rightarrow> bool \<Rightarrow> rb_fit" where
  "rb_set_prev_allocated st a b = rb_upd st a (bk_prev_allocated_update (\<lambda>_. b))"

text \<open>The constructor of \<^verbatim>\<open>block_ctrl\<close>.\<close>

definition new_block_ctrl :: "rb_fit \<Rightarrow> nat \<Rightarrow> rb_fit" where
  "new_block_ctrl st a =
     rb_upd st a (\<lambda>b. b\<lparr>bk_size := 0, bk_allocated := False, bk_prev_allocated := False\<rparr>)"

section \<open>Neighbours and marks\<close>

definition rb_prev_block :: "rb_fit \<Rightarrow> nat \<Rightarrow> nat" where
  "rb_prev_block st ptr = ptr - bk_prev_size (rb_heap st ptr) * 16"

definition rb_next_block :: "rb_fit \<Rightarrow> nat \<Rightarrow> nat" where
  "rb_next_block st ptr = ptr + bsize st ptr * 16"

definition rb_is_allocated_block :: "rb_fit \<Rightarrow> nat \<Rightarrow> bool" where
  "rb_is_allocated_block st block \<longleftrightarrow> bk_allocated (rb_heap st block)"

definition rb_is_prev_allocated :: "rb_fit \<Rightarrow> nat \<Rightarrow> bool" where
  "rb_is_prev_allocated st block \<longleftrightarrow> bk_prev_allocated (rb_heap st block)"

definition rb_mark_as_allocated_block :: "rb_fit \<Rightarrow> nat \<Rightarrow> rb_fit" where
  "rb_mark_as_allocated_block st block =
     (let st = rb_set_allocated st block True
      in rb_set_prev_allocated st (block + bsize st block * 16) True)"

definition rb_mark_as_free_block :: "rb_fit \<Rightarrow> nat \<Rightarrow> rb_fit" where
  "rb_mark_as_free_block st block =
     (let st = rb_set_allocated st block False;
          next_block = rb_next_block st block;
          st = rb_set_prev_allocated st next_block False
      in rb_set_prev_size st next_block (bsize st block))"

text \<open>The operations on the multiset with the sizes the blocks have at this moment.\<close>

definition rb_insert :: "imultiset \<Rightarrow> rb_fit \<Rightarrow> nat \<Rightarrow> rb_fit" where
  "rb_insert I st b = st\<lparr>rb_free := im_insert I (bsize st) b (rb_free st)\<rparr>"

definition rb_erase :: "imultiset \<Rightarrow> rb_fit \<Rightarrow> nat \<Rightarrow> rb_fit" where
  "rb_erase I st b = st\<lparr>rb_free := im_erase I b (rb_free st)\<rparr>"

text \<open>The position of an element: the iterator that \<^verbatim>\<open>s_iterator_to\<close> makes.\<close>

fun position :: "nat \<Rightarrow> nat list \<Rightarrow> nat" where
  "position b [] = 0"
| "position b (x # xs) = (if x = b then 0 else Suc (position b xs))"

section \<open>Construction\<close>

text \<open>\<open>sz\<close> is \<^verbatim>\<open>sizeof(rbtree_best_fit)\<close>.\<close>

definition rb_first_block_offset :: "nat \<Rightarrow> nat \<Rightarrow> nat \<Rightarrow> nat" where
  "rb_first_block_offset sz this_ptr extra_hdr_bytes =
     (let uint_this = of_nat this_ptr;
          main_hdr_end = uint_this + of_nat sz + of_nat extra_hdr_bytes;
          aligned_main_hdr_end = get_rounded_size main_hdr_end 16
      in unat (aligned_main_hdr_end - uint_this))"

definition rb_first_block :: "nat \<Rightarrow> rb_fit \<Rightarrow> nat" where
  "rb_first_block sz st = rb_this st + rb_first_block_offset sz (rb_this st) (rb_extra_hdr_bytes st)"

definition rb_end_block :: "nat \<Rightarrow> rb_fit \<Rightarrow> nat" where
  "rb_end_block sz st =
     (let block1_off = rb_first_block_offset sz (rb_this st) (rb_extra_hdr_bytes st);
          original_first_block_size = (rb_size st - block1_off) div 16 - 1
      in rb_this st + block1_off + original_first_block_size * 16)"

text \<open>The ends found from each other: the first and the end block hold the distance between them.\<close>

definition rb_end_block_of :: "rb_fit \<Rightarrow> nat \<Rightarrow> nat" where
  "rb_end_block_of st first_segment_block = first_segment_block + bk_prev_size (rb_heap st first_segment_block) * 16"

definition rb_first_block_of :: "rb_fit \<Rightarrow> nat \<Rightarrow> nat" where
  "rb_first_block_of st end_segment_block = end_segment_block - bsize st end_segment_block * 16"

definition rb_add_segment :: "imultiset \<Rightarrow> rb_fit \<Rightarrow> nat \<Rightarrow> nat \<Rightarrow> rb_fit" where
  "rb_add_segment I st addr segment_size =
     (let first_big_block = addr;
          st = new_block_ctrl st first_big_block;
          st = rb_set_size st first_big_block (segment_size div 16 - 1);
          end_block = addr + bsize st first_big_block * 16;
          st = rb_mark_as_free_block st first_big_block;
          distance = (end_block - first_big_block) div 16;
          st = rb_set_size st end_block distance;
          st = rb_set_prev_size st first_big_block distance;
          st = rb_set_allocated st end_block True;
          st = rb_set_prev_allocated st first_big_block True
      in rb_insert I st first_big_block)"

text \<open>The constructor on memory with contents \<open>heap\<close>.\<close>

definition rb_construct :: "imultiset \<Rightarrow> nat \<Rightarrow> nat \<Rightarrow> (nat \<Rightarrow> rb_block) \<Rightarrow> nat \<Rightarrow> nat \<Rightarrow> rb_fit" where
  "rb_construct I sz this_ptr heap segment_size extra_hdr_bytes =
     (let st = \<lparr>rb_this = this_ptr, rb_heap = heap, rb_free = [], rb_extra_hdr_bytes = extra_hdr_bytes,
                rb_allocated = 0, rb_size = segment_size\<rparr>;
          block1_off = rb_first_block_offset sz this_ptr extra_hdr_bytes
      in rb_add_segment I st (this_ptr + block1_off) (segment_size - block1_off))"

definition rb_get_min_size :: "nat \<Rightarrow> nat \<Rightarrow> nat" where
  "rb_get_min_size sz extra_hdr_bytes =
     unat ((get_rounded_size (of_nat sz) 16 div 16 + get_rounded_size (of_nat extra_hdr_bytes) 16 div 16 + 3 + 1) * 16
       :: size_t)"

section \<open>Deallocation\<close>

definition rb_priv_deallocate :: "imultiset \<Rightarrow> rb_fit \<Rightarrow> nat \<Rightarrow> rb_fit" where
  "rb_priv_deallocate I st addr =
     (if addr = 0 then st
      else
        (let block = addr - 16;
             block_old_size = 16 * bsize st block;
             st = st\<lparr>rb_allocated := rb_allocated st - block_old_size\<rparr>;
             next_block = rb_next_block st block;
             merge_with_prev = (\<not> rb_is_prev_allocated st block);
             merge_with_next = (\<not> rb_is_allocated_block st next_block);
             block_to_insert = (if merge_with_prev then rb_prev_block st block else block);
             st = (if merge_with_prev
                   then rb_erase I (rb_set_size st block_to_insert (bsize st block_to_insert + bsize st block)) block_to_insert
                   else st);
             st = (if merge_with_next
                   then rb_erase I (rb_set_size st block_to_insert (bsize st block_to_insert + bsize st next_block)) next_block
                   else st);
             st = rb_mark_as_free_block st block_to_insert
         in rb_insert I st block_to_insert))"

definition rb_deallocate :: "imultiset \<Rightarrow> rb_fit \<Rightarrow> nat \<Rightarrow> rb_fit" where
  "rb_deallocate I st addr = (if addr = 0 then st else rb_priv_deallocate I st addr)"

section \<open>Allocation\<close>

text \<open>State, user buffer and received size; the assertion against a block that is too small is the null pointer.\<close>

definition rb_check_and_allocate :: "imultiset \<Rightarrow> rb_fit \<Rightarrow> nat \<Rightarrow> nat \<Rightarrow> rb_fit \<times> nat \<times> nat" where
  "rb_check_and_allocate I st nunits block =
     (let upper_nunits = nunits + 3;
          it_old = position block (rb_free st);
          (found, st) =
            (if bsize st block \<ge> upper_nunits
             then
               (let block_old_size = bsize st block;
                    st = rb_set_size st block nunits;
                    rem_block = block + 16 * nunits;
                    st = new_block_ctrl st rem_block;
                    st = rb_set_size st rem_block (block_old_size - nunits);
                    st = rb_mark_as_free_block st rem_block;
                    st = rb_erase I st block
                in (True, st\<lparr>rb_free := im_insert_hint I (bsize st) it_old rem_block (rb_free st)\<rparr>))
             else if bsize st block \<ge> nunits then (True, rb_erase I st block)
             else (False, st))
      in if found
         then (let st = st\<lparr>rb_allocated := rb_allocated st + bsize st block * 16\<rparr>;
                   received_size = (bsize st block - 1) * 16 + 8;
                   st = rb_mark_as_allocated_block st block;
                   st = rb_set_prev_size st (rb_next_block st block) 0
               in (st, block + 16, received_size))
         else (st, 0, 0))"

definition rb_priv_get_total_units :: "size_t \<Rightarrow> size_t" where
  "rb_priv_get_total_units userbytes =
     (let userbytes = (if userbytes < 8 then 8 else userbytes);
          units = get_rounded_size (userbytes - 8) 16 div 16 + 1
      in if units < 3 then 3 else units)"

text \<open>The search of \<^verbatim>\<open>priv_allocate\<close> in the multiset: the best fit for the preferred size, or else the largest block.\<close>

definition rb_allocate_branch :: "imultiset \<Rightarrow> rb_fit \<Rightarrow> size_t \<Rightarrow> size_t \<Rightarrow> (rb_fit \<times> nat \<times> nat) option" where
  "rb_allocate_branch I st limit_size preferred_size =
     (let preferred_units = unat (rb_priv_get_total_units preferred_size);
          limit_units = unat (rb_priv_get_total_units limit_size);
          it = im_lower_bound I (bsize st) preferred_units (rb_free st)
      in if it \<noteq> length (rb_free st)
         then Some (rb_check_and_allocate I st preferred_units (rb_free st ! it))
         else if it \<noteq> 0 \<and> bsize st (rb_free st ! (it - 1)) \<ge> limit_units
         then Some (rb_check_and_allocate I st (bsize st (rb_free st ! (it - 1))) (rb_free st ! (it - 1)))
         else None)"

text \<open>\<^verbatim>\<open>priv_allocate\<close> for new memory with the natural alignment.\<close>

definition rb_priv_allocate_new :: "imultiset \<Rightarrow> rb_fit \<Rightarrow> size_t \<Rightarrow> size_t \<Rightarrow> (rb_fit \<times> nat) option" where
  "rb_priv_allocate_new I st limit_size preferred_size =
     (if limit_size > preferred_size then Some (st, 0)
      else case rb_allocate_branch I st limit_size preferred_size of
             Some (st, p, _) \<Rightarrow> Some (st, p)
           | None \<Rightarrow> Some (st, 0))"

definition rb_algo :: "imultiset \<Rightarrow> rb_fit memory_algorithm" where
  "rb_algo I = \<lparr>Alignment = 16, AllocatedCtrlUnits = 1, BlockCtrlUnits = 3, UsableByPreviousChunk = 8,
     get_block_size = bsize, set_block_size = rb_set_size,
     priv_mark_new_allocated_block = rb_mark_as_allocated_block,
     priv_deallocate = (\<lambda>st p. Some (rb_priv_deallocate I st p)), priv_allocate_new = rb_priv_allocate_new I,
     priv_get_total_units = rb_priv_get_total_units\<rparr>"

section \<open>Expansion in place\<close>

definition rb_user_size :: "rb_fit \<Rightarrow> nat \<Rightarrow> nat" where
  "rb_user_size st ptr = (bsize st (ptr - 16) - 1) * 16 + 8"

text \<open>State, success and received size.\<close>

definition rb_priv_expand :: "imultiset \<Rightarrow> rb_fit \<Rightarrow> nat \<Rightarrow> size_t \<Rightarrow> size_t \<Rightarrow> rb_fit \<times> bool \<times> nat" where
  "rb_priv_expand I st ptr min_size preferred_size =
     (let block = ptr - 16;
          old_block_units = bsize st block;
          received = (old_block_units - 1) * 16 + 8
      in if received \<ge> unat preferred_size \<or> received \<ge> unat min_size then (st, True, received)
         else
           (let min_user_units = unat (ceil_units (rb_algo I) (min_size - 8));
                preferred_user_units = unat (ceil_units (rb_algo I) (preferred_size - 8));
                next_block = rb_next_block st block
            in if rb_is_allocated_block st next_block then (st, received \<ge> unat min_size, received)
               else
                 (let merged_units = old_block_units + bsize st next_block;
                      merged_user_units = merged_units - 1
                  in if merged_user_units < min_user_units then (st, False, merged_units * 16 - 8)
                     else
                       (let intended_user_units =
                              (if merged_user_units < preferred_user_units then merged_user_units else preferred_user_units);
                            intended_units = 1 + intended_user_units;
                            st =
                              (if merged_units - intended_units \<ge> 3
                               then
                                 (let rem_units = merged_units - intended_units;
                                      st = rb_erase I st next_block;
                                      rem_block = block + intended_units * 16;
                                      st = new_block_ctrl st rem_block;
                                      st = rb_set_size st rem_block rem_units;
                                      st = rb_mark_as_free_block st rem_block;
                                      st = rb_insert I st rem_block;
                                      st = rb_set_size st block (intended_user_units + 1)
                                  in st\<lparr>rb_allocated := rb_allocated st + (intended_units - old_block_units) * 16\<rparr>)
                               else
                                 (let st = rb_erase I st next_block;
                                      st = rb_set_size st block merged_units
                                  in st\<lparr>rb_allocated := rb_allocated st + (merged_units - old_block_units) * 16\<rparr>));
                            st = rb_mark_as_allocated_block st block
                        in (st, True, (bsize st block - 1) * 16 + 8)))))"

text \<open>
  The part of \<^verbatim>\<open>priv_expand_both_sides\<close> that takes memory before the buffer: \<open>received\<close> is what the forward part
  has found. When the result is 0 because of the alignment, the forward expansion has been made nevertheless.
\<close>

definition expand_backwards ::
  "imultiset \<Rightarrow> rb_fit \<Rightarrow> bool \<Rightarrow> nat \<Rightarrow> nat \<Rightarrow> size_t \<Rightarrow> size_t \<Rightarrow> rb_fit \<times> nat \<times> nat" where
  "expand_backwards I st fwd received reuse_ptr lcm_val needs_backwards_aligned =
     (let reuse = reuse_ptr - 16;
          prev_block = rb_prev_block st reuse;
          needs = unat needs_backwards_aligned
      in if bsize st prev_block * 16 \<ge> needs
         then
           (let st = (if fwd then fst (rb_priv_expand I st reuse_ptr (of_nat received) (of_nat received)) else st)
            in if bsize st prev_block \<ge> needs div 16 + 3
               then
                 (let new_block = reuse - needs;
                      st = rb_set_size st new_block (1 + (needs + (received - 8)) div 16);
                      st = rb_mark_as_allocated_block st new_block;
                      st = rb_set_size st prev_block ((new_block - prev_block) div 16);
                      st = rb_mark_as_free_block st prev_block;
                      it = position prev_block (rb_free st);
                      st = (if it \<noteq> 0 \<and> bsize st (rb_free st ! (it - 1)) > bsize st prev_block
                            then (let st = rb_erase I st prev_block
                                  in st\<lparr>rb_free := im_insert_hint I (bsize st) 0 prev_block (rb_free st)\<rparr>)
                            else st);
                      st = st\<lparr>rb_allocated := rb_allocated st + needs\<rparr>
                  in (st, new_block + 16, needs + received))
               else if bsize st prev_block \<ge> needs div 16 \<and> bsize st prev_block * 16 mod unat lcm_val = 0
               then
                 (let st = rb_erase I st prev_block;
                      received = received + bsize st prev_block * 16;
                      st = st\<lparr>rb_allocated := rb_allocated st + bsize st prev_block * 16\<rparr>;
                      st = rb_set_size st prev_block (bsize st prev_block + bsize st reuse);
                      st = rb_mark_as_allocated_block st prev_block
                  in (st, prev_block + 16, received))
               else (st, 0, received))
         else (st, 0, received))"

text \<open>
  State, resulting pointer (0 if the buffer cannot be expanded) and received size; None when the computation
  of the least common multiple does not return.
\<close>

definition rb_expand_both_sides ::
  "imultiset \<Rightarrow> rb_fit \<Rightarrow> allocation_type \<Rightarrow> size_t \<Rightarrow> size_t \<Rightarrow> nat \<Rightarrow> bool \<Rightarrow> size_t \<Rightarrow> size_t \<Rightarrow>
     (rb_fit \<times> nat \<times> nat) option" where
  "rb_expand_both_sides I st command min_size preferred_size reuse_ptr only_preferred_backwards sizeof_object alignof_object =
     (let (st, done, received) =
        (if expand_fwd command then rb_priv_expand I st reuse_ptr min_size preferred_size
         else (let received = rb_user_size st reuse_ptr
               in (st, received \<ge> unat preferred_size \<or> received \<ge> unat min_size, received)))
      in if done then Some (st, reuse_ptr, received)
         else if expand_bwd command
         then
           if rb_is_prev_allocated st (reuse_ptr - 16) then Some (st, 0, received)
           else
             (case calculate_lcm_and_needs_backwards_lcmed sizeof_object alignof_object (of_nat received)
                     (if only_preferred_backwards then preferred_size else min_size) of
                None \<Rightarrow> Some (st, 0, received)
              | Some None \<Rightarrow> None
              | Some (Some (lcm_val, needs)) \<Rightarrow>
                  Some (expand_backwards I st (expand_fwd command) received reuse_ptr lcm_val needs))
         else Some (st, 0, received))"

section \<open>The whole of priv\_allocate\<close>

text \<open>State, returned pointer, \<^verbatim>\<open>prefer_in_recvd_out_size\<close> and \<^verbatim>\<open>reuse_ptr\<close>.\<close>

definition rb_priv_allocate ::
  "imultiset \<Rightarrow> rb_fit \<Rightarrow> allocation_type \<Rightarrow> size_t \<Rightarrow> size_t \<Rightarrow> nat \<Rightarrow> size_t \<Rightarrow> size_t \<Rightarrow>
     (rb_fit \<times> nat \<times> nat \<times> nat) option" where
  "rb_priv_allocate I st command limit_size preferred_size reuse_ptr sizeof_object alignof_object =
     (let alignof_object = (if alignof_object < 16 then 16 else alignof_object);
          expands = (reuse_ptr \<noteq> 0 \<and> (expand_fwd command \<or> expand_bwd command))
      in if shrink_in_place command
         then
           if reuse_ptr = 0 then Some (st, 0, unat preferred_size, reuse_ptr)
           else do {
             (st, success, received) \<leftarrow> shrink (rb_algo I) st reuse_ptr limit_size preferred_size;
             Some (st, if success then reuse_ptr else 0, received, reuse_ptr)
           }
         else if limit_size > preferred_size then Some (st, 0, 0, 0)
         else do {
           (st, ret, received) \<leftarrow>
             (if expands
              then rb_expand_both_sides I st command limit_size preferred_size reuse_ptr True sizeof_object alignof_object
              else Some (st, 0, unat preferred_size));
           if ret \<noteq> 0 then Some (st, ret, received, reuse_ptr)
           else if allocate_new command \<and> alignof_object > 16
           then do {
             (st, p) \<leftarrow> allocate_aligned (rb_algo I) st limit_size alignof_object;
             Some (st, p, received, reuse_ptr)
           }
           else
             (case (if allocate_new command then rb_allocate_branch I st limit_size preferred_size else None) of
                Some (st, p, received) \<Rightarrow> Some (st, p, received, 0)
              | None \<Rightarrow>
                  if expands
                  then do {
                    (st, ret, received) \<leftarrow>
                      rb_expand_both_sides I st command limit_size preferred_size reuse_ptr False sizeof_object alignof_object;
                    Some (st, ret, received, reuse_ptr)
                  }
                  else Some (st, 0, received, 0))
         })"

section \<open>The public operations\<close>

definition rb_allocate :: "imultiset \<Rightarrow> rb_fit \<Rightarrow> size_t \<Rightarrow> (rb_fit \<times> nat) option" where
  "rb_allocate I st nbytes =
     do { (st, p, _, _) \<leftarrow> rb_priv_allocate I st only_new nbytes nbytes 0 1 16; Some (st, p) }"

definition rb_allocate_aligned :: "imultiset \<Rightarrow> rb_fit \<Rightarrow> size_t \<Rightarrow> size_t \<Rightarrow> (rb_fit \<times> nat) option" where
  "rb_allocate_aligned I st nbytes alignment = allocate_aligned (rb_algo I) st nbytes alignment"

definition rb_allocation_command ::
  "imultiset \<Rightarrow> rb_fit \<Rightarrow> allocation_type \<Rightarrow> size_t \<Rightarrow> size_t \<Rightarrow> nat \<Rightarrow> size_t \<Rightarrow> size_t \<Rightarrow>
     (rb_fit \<times> nat \<times> nat \<times> nat) option" where
  "rb_allocation_command I st command limit_size preferred_size reuse_ptr sizeof_object alignof_object =
     (let max_count = rb_size st div unat sizeof_object
      in if unat limit_size > max_count \<or> unat preferred_size > max_count
         then Some (st, 0, unat preferred_size, 0)
         else do {
           (st, ret, r_size, reuse) \<leftarrow>
             rb_priv_allocate I st command (limit_size * sizeof_object) (preferred_size * sizeof_object) reuse_ptr
               sizeof_object alignof_object;
           Some (st, ret, r_size div unat sizeof_object, reuse)
         })"

definition rb_alloc_at :: "imultiset \<Rightarrow> rb_fit \<Rightarrow> size_t \<Rightarrow> size_t \<Rightarrow> size_t \<Rightarrow> (rb_fit \<times> nat) option" where
  "rb_alloc_at I st limit_size preferred_size alignment =
     do { (st, p, _, _) \<leftarrow> rb_priv_allocate I st only_new limit_size preferred_size 0 1 alignment; Some (st, p) }"

definition rb_allocate_many :: "imultiset \<Rightarrow> rb_fit \<Rightarrow> size_t \<Rightarrow> nat \<Rightarrow> size_t \<Rightarrow> (rb_fit \<times> nat list) option" where
  "rb_allocate_many I st elem_bytes num_elements alignment =
     allocate_many_same (rb_algo I) (rb_alloc_at I) st elem_bytes num_elements alignment"

definition rb_allocate_many_sizes ::
  "imultiset \<Rightarrow> rb_fit \<Rightarrow> size_t list \<Rightarrow> nat \<Rightarrow> size_t \<Rightarrow> size_t \<Rightarrow> (rb_fit \<times> nat list) option" where
  "rb_allocate_many_sizes I st elem_sizes n_elements sizeof_element alignment =
     allocate_many_sizes (rb_algo I) (rb_alloc_at I) st elem_sizes n_elements sizeof_element alignment"

definition rb_deallocate_many :: "imultiset \<Rightarrow> rb_fit \<Rightarrow> nat list \<Rightarrow> rb_fit option" where
  "rb_deallocate_many I st chain = priv_deallocate_many (rb_algo I) st chain"

definition rb_grow :: "imultiset \<Rightarrow> nat \<Rightarrow> rb_fit \<Rightarrow> nat \<Rightarrow> rb_fit" where
  "rb_grow I sz st extra_size =
     (let first_block = rb_first_block sz st;
          old_end_block = rb_end_block sz st;
          old_border_offset = (old_end_block - rb_this st) + 16;
          st = st\<lparr>rb_size := rb_size st + extra_size\<rparr>
      in if rb_size st - old_border_offset < 48 then st
         else
           (let align_offset = (rb_size st - old_border_offset) div 16;
                new_end_block = old_end_block + align_offset * 16;
                st = rb_set_allocated st new_end_block True;
                st = rb_set_size st new_end_block ((new_end_block - first_block) div 16);
                st = rb_set_prev_size st first_block (bsize st new_end_block);
                st = rb_set_prev_allocated st first_block True;
                new_block = old_end_block;
                st = rb_set_size st new_block ((new_end_block - new_block) div 16);
                st = rb_mark_as_allocated_block st new_block;
                st = st\<lparr>rb_allocated := rb_allocated st + bsize st new_block * 16\<rparr>
            in rb_priv_deallocate I st (new_block + 16)))"

definition rb_cut_segment :: "imultiset \<Rightarrow> nat \<Rightarrow> rb_fit \<Rightarrow> nat \<Rightarrow> rb_fit" where
  "rb_cut_segment I first_block st last_block =
     (let st = rb_erase I st last_block;
          shrunk_border_offset = (last_block - rb_this st) + 16;
          new_end_block = last_block;
          st = rb_set_size st new_end_block ((new_end_block - first_block) div 16);
          st = rb_set_prev_size st first_block (bsize st new_end_block);
          st = rb_set_allocated st new_end_block True
      in st\<lparr>rb_size := shrunk_border_offset\<rparr>)"

text \<open>None stands for a violation of the assertion that the block after the unique buffer is free.\<close>

definition rb_shrink_to_fit :: "imultiset \<Rightarrow> nat \<Rightarrow> rb_fit \<Rightarrow> rb_fit option" where
  "rb_shrink_to_fit I sz st =
     (let first_block = rb_first_block sz st;
          old_end_block = rb_end_block sz st
      in if rb_next_block st first_block = old_end_block
         then do {
           (st, unique_buffer) \<leftarrow> rb_priv_allocate_new I st 0 0;
           if unique_buffer = 0 then Some st
           else
             (let last_block = rb_next_block st (unique_buffer - 16)
              in if rb_is_allocated_block st last_block then None
                 else Some (rb_priv_deallocate I (rb_cut_segment I first_block st last_block) unique_buffer))
         }
         else if rb_is_prev_allocated st old_end_block then Some st
         else Some (rb_cut_segment I first_block st (rb_prev_block st old_end_block)))"

definition rb_get_size :: "rb_fit \<Rightarrow> nat" where
  "rb_get_size st = rb_size st"

definition rb_get_free_memory :: "nat \<Rightarrow> rb_fit \<Rightarrow> nat" where
  "rb_get_free_memory sz st =
     unat (of_nat (rb_size st) - of_nat (rb_allocated st)
           - of_nat (rb_first_block_offset sz (rb_this st) (rb_extra_hdr_bytes st)) :: size_t)"

definition rb_all_memory_deallocated :: "nat \<Rightarrow> rb_fit \<Rightarrow> bool" where
  "rb_all_memory_deallocated sz st \<longleftrightarrow>
     (let block1_off = rb_first_block_offset sz (rb_this st) (rb_extra_hdr_bytes st)
      in rb_allocated st = 0 \<and> rb_free st \<noteq> [] \<and> tl (rb_free st) = []
         \<and> bsize st (hd (rb_free st)) = (rb_size st - block1_off - 16) div 16)"

definition rb_check_sanity :: "nat \<Rightarrow> rb_fit \<Rightarrow> bool" where
  "rb_check_sanity sz st \<longleftrightarrow>
     (let free_memory = (\<Sum>b\<leftarrow>rb_free st. bsize st b * 16);
          block1_off = rb_first_block_offset sz (rb_this st) (rb_extra_hdr_bytes st)
      in (\<forall>b\<in>set (rb_free st). b mod 16 = 0) \<and> \<not> rb_allocated st > rb_size st
         \<and> \<not> free_memory > rb_size st - block1_off)"

text \<open>The ranges (address, bytes) that \<^verbatim>\<open>zero_free_memory\<close> clears, in order.\<close>

definition rb_zero_free_memory :: "rb_fit \<Rightarrow> (nat \<times> nat) list" where
  "rb_zero_free_memory st = map (\<lambda>b. (b + 48, unat (of_nat (bsize st b * 16) - 48 :: size_t))) (rb_free st)"

end
