(* ===== verification/Rbtree_Rep.thy ===== *)
theory Rbtree_Rep
  imports Rbtree_Best_Fit
begin

text \<open>
  The state of the best fit algorithm as a row of blocks. \<open>rb_rep lo hi st bs\<close>: from \<open>lo\<close> to the end block at \<open>hi\<close>
  the segment holds the blocks \<open>bs\<close> (units, allocated), every header agrees with its block and with the block
  before, no two free blocks are neighbours, the multiset holds exactly the free blocks, in order of size, and
  the count of allocated bytes is right. \<open>rep_replace\<close> is the one lemma that all operations use: some blocks in
  the middle are exchanged for others of the same total size.
\<close>

section \<open>Rows of blocks\<close>

type_synonym row = "(nat \<times> bool) list"

definition units :: "row \<Rightarrow> nat" where
  "units bs = sum_list (map fst bs)"

lemma units_simps [simp]: "units [] = 0" "units ((n, al) # bs) = n + units bs" "units (us @ vs) = units us + units vs"
  by (simp_all add: units_def)

fun allocs :: "nat \<Rightarrow> row \<Rightarrow> (nat \<times> nat) set" where
  "allocs a [] = {}"
| "allocs a ((n, al) # bs) = (if al then {(a, n)} else {}) \<union> allocs (a + 16 * n) bs"

fun frees :: "nat \<Rightarrow> row \<Rightarrow> (nat \<times> nat) set" where
  "frees a [] = {}"
| "frees a ((n, al) # bs) = (if al then {} else {(a, n)}) \<union> frees (a + 16 * n) bs"

lemma allocs_append [simp]: "allocs a (us @ vs) = allocs a us \<union> allocs (a + 16 * units us) vs"
  by (induction us arbitrary: a) (auto simp: algebra_simps)

lemma frees_append [simp]: "frees a (us @ vs) = frees a us \<union> frees (a + 16 * units us) vs"
  by (induction us arbitrary: a) (auto simp: algebra_simps)

definition alloc_units :: "row \<Rightarrow> nat" where
  "alloc_units bs = sum_list (map (\<lambda>b. if snd b then fst b else 0) bs)"

lemma alloc_units_simps [simp]:
  "alloc_units [] = 0" "alloc_units ((n, al) # bs) = (if al then n else 0) + alloc_units bs"
  "alloc_units (us @ vs) = alloc_units us + alloc_units vs"
  by (simp_all add: alloc_units_def)

text \<open>No two neighbours are free; the flag says whether the block before the row is allocated.\<close>

fun isolated :: "bool \<Rightarrow> row \<Rightarrow> bool" where
  "isolated pa [] = True"
| "isolated pa ((n, al) # bs) = ((pa \<or> al) \<and> isolated al bs)"

fun last_alloc :: "bool \<Rightarrow> row \<Rightarrow> bool" where
  "last_alloc pa [] = pa"
| "last_alloc pa ((n, al) # bs) = last_alloc al bs"

lemma last_alloc_append [simp]: "last_alloc pa (us @ vs) = last_alloc (last_alloc pa us) vs"
  by (induction us arbitrary: pa) auto

lemma isolated_append [simp]: "isolated pa (us @ vs) = (isolated pa us \<and> isolated (last_alloc pa us) vs)"
  by (induction us arbitrary: pa) auto

lemma isolated_weaken: "isolated False vs \<Longrightarrow> isolated pa vs"
  by (cases vs) auto

text \<open>The headers of a row: each block's own fields, and what the header after it says of it.\<close>

definition says :: "(nat \<Rightarrow> rb_block) \<Rightarrow> nat \<Rightarrow> bool \<Rightarrow> nat \<Rightarrow> bool" where
  "says h z al n \<longleftrightarrow> bk_prev_allocated (h z) = al \<and> (\<not> al \<longrightarrow> bk_prev_size (h z) = n)"

fun rb_seg :: "(nat \<Rightarrow> rb_block) \<Rightarrow> nat \<Rightarrow> row \<Rightarrow> bool" where
  "rb_seg h a [] = True"
| "rb_seg h a ((n, al) # bs) \<longleftrightarrow> bk_size (h a) = n \<and> bk_allocated (h a) = al \<and> 3 \<le> n
     \<and> says h (a + 16 * n) al n \<and> rb_seg h (a + 16 * n) bs"

lemma rb_seg_append [simp]: "rb_seg h a (us @ vs) = (rb_seg h a us \<and> rb_seg h (a + 16 * units us) vs)"
  by (induction us arbitrary: a) (auto simp: algebra_simps)

lemma rb_seg_cong:
  assumes "\<And>z. a \<le> z \<Longrightarrow> z < a + 16 * units bs \<Longrightarrow> bk_size (h' z) = bk_size (h z) \<and> bk_allocated (h' z) = bk_allocated (h z)"
    and "\<And>z. a < z \<Longrightarrow> z \<le> a + 16 * units bs \<Longrightarrow>
      bk_prev_size (h' z) = bk_prev_size (h z) \<and> bk_prev_allocated (h' z) = bk_prev_allocated (h z)"
    and "rb_seg h a bs"
  shows "rb_seg h' a bs"
  using assms
proof (induction bs arbitrary: a)
  case (Cons b bs)
  obtain n al where b: "b = (n, al)" by (cases b)
  have n: "3 \<le> n" using Cons.prems(3) b by simp
  have "bk_size (h' a) = n" "bk_allocated (h' a) = al" "says h' (a + 16 * n) al n"
    using Cons.prems(1) [of a] Cons.prems(2) [of "a + 16 * n"] Cons.prems(3) b n by (auto simp: says_def)
  moreover have "rb_seg h' (a + 16 * n) bs"
    by (rule Cons.IH) (use Cons.prems b n in \<open>auto simp: algebra_simps\<close>)
  ultimately show ?case using b n by simp
qed simp

lemma rb_seg_min: "rb_seg h a bs \<Longrightarrow> bs \<noteq> [] \<Longrightarrow> 3 \<le> units bs"
  by (cases bs) auto

lemma alloc_range:
  assumes "rb_seg h a bs" "(x, n) \<in> allocs a bs \<union> frees a bs"
  shows "a \<le> x \<and> x + 16 * n \<le> a + 16 * units bs \<and> 3 \<le> n \<and> bk_size (h x) = n \<and> (x - a) mod 16 = 0"
  using assms
proof (induction bs arbitrary: a)
  case (Cons b bs)
  obtain k al where b: "b = (k, al)" by (cases b)
  show ?case
  proof (cases "(x, n) = (a, k)")
    case False
    then have "(x, n) \<in> allocs (a + 16 * k) bs \<union> frees (a + 16 * k) bs" using Cons.prems(2) b by (auto split: if_splits)
    then have r: "a + 16 * k \<le> x \<and> x + 16 * n \<le> a + 16 * k + 16 * units bs \<and> 3 \<le> n \<and> bk_size (h x) = n
        \<and> (x - (a + 16 * k)) mod 16 = 0"
      using Cons.IH [of "a + 16 * k"] Cons.prems(1) b by auto
    then obtain d where "x = a + 16 * k + d" using le_Suc_ex by blast
    then show ?thesis using r b by simp
  qed (use Cons.prems b in auto)
qed simp

lemma allocs_split:
  assumes "(x, n) \<in> allocs a bs"
  obtains us vs where "bs = us @ (n, True) # vs" "x = a + 16 * units us"
  using assms
proof (induction bs arbitrary: a thesis)
  case (Cons b bs)
  obtain k al where b: "b = (k, al)" by (cases b)
  show ?case
  proof (cases "al \<and> (x, n) = (a, k)")
    case True
    then show ?thesis using Cons.prems(1) [of "[]" bs] b by simp
  next
    case False
    then have "(x, n) \<in> allocs (a + 16 * k) bs" using Cons.prems(2) b by (auto split: if_splits)
    from Cons.IH [OF _ this] obtain us vs where "bs = us @ (n, True) # vs" "x = a + 16 * k + 16 * units us" by blast
    then show ?thesis using Cons.prems(1) [of "b # us" vs] b by simp
  qed
qed simp

lemma frees_split:
  assumes "(x, n) \<in> frees a bs"
  obtains us vs where "bs = us @ (n, False) # vs" "x = a + 16 * units us"
  using assms
proof (induction bs arbitrary: a thesis)
  case (Cons b bs)
  obtain k al where b: "b = (k, al)" by (cases b)
  show ?case
  proof (cases "\<not> al \<and> (x, n) = (a, k)")
    case True
    then show ?thesis using Cons.prems(1) [of "[]" bs] b by simp
  next
    case False
    then have "(x, n) \<in> frees (a + 16 * k) bs" using Cons.prems(2) b by (auto split: if_splits)
    from Cons.IH [OF _ this] obtain us vs where "bs = us @ (n, False) # vs" "x = a + 16 * k + 16 * units us" by blast
    then show ?thesis using Cons.prems(1) [of "b # us" vs] b by simp
  qed
qed simp

lemma frees_alloc_disjoint:
  assumes "rb_seg h a bs" "(x, n) \<in> frees a bs" "(y, k) \<in> allocs a bs"
  shows "x + 16 * n \<le> y \<or> y + 16 * k \<le> x"
  using assms
proof (induction bs arbitrary: a)
  case (Cons b bs)
  obtain m al where b: "b = (m, al)" by (cases b)
  have r: "(z, j) \<in> allocs (a + 16 * m) bs \<union> frees (a + 16 * m) bs \<Longrightarrow> a + 16 * m \<le> z" for z j
    using alloc_range [of h "a + 16 * m" bs z j] Cons.prems(1) b by simp
  show ?case using Cons.IH [of "a + 16 * m"] Cons.prems r [of x n] r [of y k] b by (auto split: if_splits)
qed simp

lemma allocs_disjoint:
  assumes "rb_seg h a bs" "(x, n) \<in> allocs a bs" "(y, k) \<in> allocs a bs" "(x, n) \<noteq> (y, k)"
  shows "x + 16 * n \<le> y \<or> y + 16 * k \<le> x"
  using assms
proof (induction bs arbitrary: a)
  case (Cons b bs)
  obtain m al where b: "b = (m, al)" by (cases b)
  have r: "(z, j) \<in> allocs (a + 16 * m) bs \<Longrightarrow> a + 16 * m \<le> z" for z j
    using alloc_range [of h "a + 16 * m" bs z j] Cons.prems(1) b by simp
  show ?case using Cons.IH [of "a + 16 * m"] Cons.prems r [of x n] r [of y k] b by (auto split: if_splits)
qed simp

section \<open>The representation\<close>

definition rb_rep :: "nat \<Rightarrow> nat \<Rightarrow> rb_fit \<Rightarrow> row \<Rightarrow> bool" where
  "rb_rep lo hi st bs \<longleftrightarrow>
     lo mod 16 = 0 \<and> 0 < lo \<and> hi = lo + 16 * units bs \<and> hi + 16 \<le> 2 ^ 64
     \<and> rb_seg (rb_heap st) lo bs \<and> isolated True bs
     \<and> bk_prev_allocated (rb_heap st lo) \<and> bk_prev_size (rb_heap st lo) = units bs
     \<and> bk_allocated (rb_heap st hi) \<and> bsize st hi = units bs
     \<and> distinct (rb_free st) \<and> set (rb_free st) = fst ` frees lo bs \<and> sorted (map (bsize st) (rb_free st))
     \<and> rb_allocated st = 16 * alloc_units bs"

lemma fst_frees_inj:
  assumes "rb_seg h a bs" "(x, n) \<in> frees a bs" "(x, k) \<in> frees a bs"
  shows "n = k"
  using alloc_range [OF assms(1), of x n] alloc_range [OF assms(1), of x k] assms(2,3) by simp

lemma rep_replace:
  assumes rep: "rb_rep lo hi st (us @ ms @ vs)" and x: "x = lo + 16 * units us" and y: "y = x + 16 * units ms"
    and u: "units ms' = units ms" and ne: "ms \<noteq> []"
    and outside: "\<And>z. z < x \<or> y < z \<Longrightarrow> rb_heap st' z = rb_heap st z"
    and before: "bk_prev_size (rb_heap st' x) = bk_prev_size (rb_heap st x)"
      "bk_prev_allocated (rb_heap st' x) = bk_prev_allocated (rb_heap st x)"
    and after: "bsize st' y = bsize st y" "bk_allocated (rb_heap st' y) = bk_allocated (rb_heap st y)"
    and inside: "rb_seg (rb_heap st') x ms'" and iso: "isolated (last_alloc True us) (ms' @ vs)"
    and free: "distinct (rb_free st')" "set (rb_free st') = set (rb_free st) - fst ` frees x ms \<union> fst ` frees x ms'"
      "sorted (map (bsize st') (rb_free st'))"
    and al: "rb_allocated st' + 16 * alloc_units ms = rb_allocated st + 16 * alloc_units ms'"
  shows "rb_rep lo hi st' (us @ ms' @ vs)"
proof -
  let ?h = "rb_heap st" and ?h' = "rb_heap st'"
  have s: "rb_seg ?h lo us" "rb_seg ?h x ms" "rb_seg ?h y vs" using rep x y by (auto simp: rb_rep_def algebra_simps)
  have hi: "hi = y + 16 * units vs" using rep x y by (simp add: rb_rep_def algebra_simps)
  have xy: "x < y" using rb_seg_min [OF s(2) ne] y by simp
  have "rb_seg ?h' lo us" by (rule rb_seg_cong [OF _ _ s(1)]) (use outside before x in \<open>auto simp: le_less\<close>)
  moreover have "rb_seg ?h' y vs" by (rule rb_seg_cong [OF _ _ s(3)]) (use outside after xy in \<open>auto simp: le_less\<close>)
  ultimately have seg: "rb_seg ?h' lo (us @ ms' @ vs)" using inside x y u by (simp add: algebra_simps)
  have lo: "bk_prev_allocated (?h' lo) \<and> bk_prev_size (?h' lo) = units (us @ ms' @ vs)"
    using rep outside [of lo] before x u by (cases "us = []") (auto simp: rb_rep_def units_def dest: rb_seg_min [OF s(1)])
  have end_block: "bk_allocated (?h' hi) \<and> bsize st' hi = units (us @ ms' @ vs)"
    using rep outside [of hi] after hi u by (cases "hi = y") (auto simp: rb_rep_def)
  have dis: "fst ` frees x ms \<inter> (fst ` frees lo us \<union> fst ` frees y vs) = {}"
    using alloc_range [OF s(1)] alloc_range [OF s(2)] alloc_range [OF s(3)] x y by fastforce
  have "set (rb_free st) = fst ` frees lo us \<union> (fst ` frees x ms \<union> fst ` frees y vs)"
    using rep x y by (simp add: rb_rep_def image_Un algebra_simps)
  then have fr: "set (rb_free st') = fst ` frees lo (us @ ms' @ vs)"
    using free(2) dis x y u by (auto simp: image_Un algebra_simps)
  have "rb_allocated st' = 16 * alloc_units (us @ ms' @ vs)" using rep al by (simp add: rb_rep_def)
  moreover have "isolated True (us @ ms' @ vs)" using rep iso by (simp add: rb_rep_def)
  ultimately show ?thesis using rep seg lo end_block fr free(1,3) u unfolding rb_rep_def by simp
qed

end
