(* ===== verification/Rbtree_Correct.thy ===== *)
theory Rbtree_Correct
  imports Rbtree_Rep
begin

text \<open>
  The operations of the best fit algorithm on the representation: allocation from a free block, deallocation
  with merging, and the forms of in-place expansion. Each is one use of \<open>rep_replace\<close>.
\<close>

section \<open>The multiset\<close>

lemma erase_facts:
  assumes "imultiset_ok I" "distinct xs" "b \<in> set xs"
  shows "distinct (im_erase I b xs)" "set (im_erase I b xs) = set xs - {b}"
    "sorted (map f xs) \<Longrightarrow> sorted (map f (im_erase I b xs))" "length (im_erase I b xs) = length xs - 1"
    "position b xs \<le> length (im_erase I b xs)"
proof -
  obtain us vs where s: "xs = us @ b # vs" "b \<notin> set us" using split_list_first [OF assms(3)] by blast
  then have e: "im_erase I b xs = us @ vs" using assms(1) unfolding imultiset_ok_def by blast
  have p: "position b xs = length us" unfolding s(1) using s(2) by (induction us) auto
  show "distinct (im_erase I b xs)" "set (im_erase I b xs) = set xs - {b}"
    "sorted (map f xs) \<Longrightarrow> sorted (map f (im_erase I b xs))" "length (im_erase I b xs) = length xs - 1"
    "position b xs \<le> length (im_erase I b xs)"
    using assms(2) s e p by (auto simp: sorted_wrt_append)
qed

lemma inserted_facts:
  assumes "inserted sz b xs ys" "distinct xs" "b \<notin> set xs"
  shows "distinct ys" "set ys = insert b (set xs)" "sorted (map sz ys)"
  using assms by (auto simp: inserted_def)

lemma insert_facts:
  assumes "imultiset_ok I" "sorted (map sz xs)" "distinct xs" "b \<notin> set xs"
  shows "distinct (im_insert I sz b xs)" "set (im_insert I sz b xs) = insert b (set xs)"
    "sorted (map sz (im_insert I sz b xs))"
proof -
  have "inserted sz b xs (im_insert I sz b xs)" using assms(1,2) unfolding imultiset_ok_def by blast
  from inserted_facts [OF this assms(3,4)] show "distinct (im_insert I sz b xs)"
    "set (im_insert I sz b xs) = insert b (set xs)" "sorted (map sz (im_insert I sz b xs))" by blast+
qed

lemma insert_hint_facts:
  assumes "imultiset_ok I" "sorted (map sz xs)" "distinct xs" "b \<notin> set xs" "p \<le> length xs"
  shows "distinct (im_insert_hint I sz p b xs)" "set (im_insert_hint I sz p b xs) = insert b (set xs)"
    "sorted (map sz (im_insert_hint I sz p b xs))"
proof -
  have "inserted sz b xs (im_insert_hint I sz p b xs)" using assms(1,2,5) unfolding imultiset_ok_def by blast
  from inserted_facts [OF this assms(3,4)] show "distinct (im_insert_hint I sz p b xs)"
    "set (im_insert_hint I sz p b xs) = insert b (set xs)" "sorted (map sz (im_insert_hint I sz p b xs))" by blast+
qed

lemma sorted_sizes_cong:
  "(\<And>z. z \<in> set xs \<Longrightarrow> f z = g z) \<Longrightarrow> sorted (map f xs) = sorted (map g xs)"
  by (metis map_cong)

section \<open>Reading the heap\<close>

text \<open>What each update does to each field of each header.\<close>

named_theorems rb_read

lemma read_set_size [rb_read]:
  "bsize (rb_set_size st a n) z = (if z = a then n else bsize st z)"
  "bk_allocated (rb_heap (rb_set_size st a n) z) = bk_allocated (rb_heap st z)"
  "bk_prev_allocated (rb_heap (rb_set_size st a n) z) = bk_prev_allocated (rb_heap st z)"
  "bk_prev_size (rb_heap (rb_set_size st a n) z) = bk_prev_size (rb_heap st z)"
  "rb_free (rb_set_size st a n) = rb_free st" "rb_allocated (rb_set_size st a n) = rb_allocated st"
  by (simp_all add: rb_set_size_def rb_upd_def)

lemma read_set_prev_size [rb_read]:
  "bsize (rb_set_prev_size st a n) z = bsize st z"
  "bk_allocated (rb_heap (rb_set_prev_size st a n) z) = bk_allocated (rb_heap st z)"
  "bk_prev_allocated (rb_heap (rb_set_prev_size st a n) z) = bk_prev_allocated (rb_heap st z)"
  "bk_prev_size (rb_heap (rb_set_prev_size st a n) z) = (if z = a then n else bk_prev_size (rb_heap st z))"
  "rb_free (rb_set_prev_size st a n) = rb_free st" "rb_allocated (rb_set_prev_size st a n) = rb_allocated st"
  by (simp_all add: rb_set_prev_size_def rb_upd_def)

lemma read_set_allocated [rb_read]:
  "bsize (rb_set_allocated st a t) z = bsize st z"
  "bk_allocated (rb_heap (rb_set_allocated st a t) z) = (if z = a then t else bk_allocated (rb_heap st z))"
  "bk_prev_allocated (rb_heap (rb_set_allocated st a t) z) = bk_prev_allocated (rb_heap st z)"
  "bk_prev_size (rb_heap (rb_set_allocated st a t) z) = bk_prev_size (rb_heap st z)"
  "rb_free (rb_set_allocated st a t) = rb_free st" "rb_allocated (rb_set_allocated st a t) = rb_allocated st"
  by (simp_all add: rb_set_allocated_def rb_upd_def)

lemma read_set_prev_allocated [rb_read]:
  "bsize (rb_set_prev_allocated st a t) z = bsize st z"
  "bk_allocated (rb_heap (rb_set_prev_allocated st a t) z) = bk_allocated (rb_heap st z)"
  "bk_prev_allocated (rb_heap (rb_set_prev_allocated st a t) z) = (if z = a then t else bk_prev_allocated (rb_heap st z))"
  "bk_prev_size (rb_heap (rb_set_prev_allocated st a t) z) = bk_prev_size (rb_heap st z)"
  "rb_free (rb_set_prev_allocated st a t) = rb_free st" "rb_allocated (rb_set_prev_allocated st a t) = rb_allocated st"
  by (simp_all add: rb_set_prev_allocated_def rb_upd_def)

lemma read_new_block_ctrl [rb_read]:
  "bsize (new_block_ctrl st a) z = (if z = a then 0 else bsize st z)"
  "bk_allocated (rb_heap (new_block_ctrl st a) z) = (z \<noteq> a \<and> bk_allocated (rb_heap st z))"
  "bk_prev_allocated (rb_heap (new_block_ctrl st a) z) = (z \<noteq> a \<and> bk_prev_allocated (rb_heap st z))"
  "bk_prev_size (rb_heap (new_block_ctrl st a) z) = bk_prev_size (rb_heap st z)"
  "rb_free (new_block_ctrl st a) = rb_free st" "rb_allocated (new_block_ctrl st a) = rb_allocated st"
  by (simp_all add: new_block_ctrl_def rb_upd_def)

lemma read_mark_allocated [rb_read]:
  "bsize (rb_mark_as_allocated_block st b) z = bsize st z"
  "bk_allocated (rb_heap (rb_mark_as_allocated_block st b) z) = (z = b \<or> bk_allocated (rb_heap st z))"
  "bk_prev_allocated (rb_heap (rb_mark_as_allocated_block st b) z) = (z = b + 16 * bsize st b \<or> bk_prev_allocated (rb_heap st z))"
  "bk_prev_size (rb_heap (rb_mark_as_allocated_block st b) z) = bk_prev_size (rb_heap st z)"
  "rb_free (rb_mark_as_allocated_block st b) = rb_free st" "rb_allocated (rb_mark_as_allocated_block st b) = rb_allocated st"
  by (simp_all add: rb_mark_as_allocated_block_def Let_def rb_read mult.commute)

lemma read_mark_free [rb_read]:
  "bsize (rb_mark_as_free_block st b) z = bsize st z"
  "bk_allocated (rb_heap (rb_mark_as_free_block st b) z) = (z \<noteq> b \<and> bk_allocated (rb_heap st z))"
  "bk_prev_allocated (rb_heap (rb_mark_as_free_block st b) z) = (z \<noteq> b + 16 * bsize st b \<and> bk_prev_allocated (rb_heap st z))"
  "bk_prev_size (rb_heap (rb_mark_as_free_block st b) z) = (if z = b + 16 * bsize st b then bsize st b else bk_prev_size (rb_heap st z))"
  "rb_free (rb_mark_as_free_block st b) = rb_free st" "rb_allocated (rb_mark_as_free_block st b) = rb_allocated st"
  by (simp_all add: rb_mark_as_free_block_def Let_def rb_read rb_next_block_def mult.commute)

lemma read_multiset [rb_read]:
  "rb_heap (rb_insert I st b) = rb_heap st" "rb_allocated (rb_insert I st b) = rb_allocated st"
  "rb_free (rb_insert I st b) = im_insert I (bsize st) b (rb_free st)"
  "rb_heap (rb_erase I st b) = rb_heap st" "rb_allocated (rb_erase I st b) = rb_allocated st"
  "rb_free (rb_erase I st b) = im_erase I b (rb_free st)"
  by (simp_all add: rb_insert_def rb_erase_def)

lemma read_neighbours [rb_read]:
  "rb_next_block st b = b + 16 * bsize st b" "rb_is_allocated_block st b = bk_allocated (rb_heap st b)"
  "rb_is_prev_allocated st b = bk_prev_allocated (rb_heap st b)" "rb_prev_block st b = b - 16 * bk_prev_size (rb_heap st b)"
  by (simp_all add: rb_next_block_def rb_is_allocated_block_def rb_is_prev_allocated_def rb_prev_block_def)

lemma block_eqI:
  "bk_size b = bk_size c \<Longrightarrow> bk_allocated b = bk_allocated c \<Longrightarrow> bk_prev_allocated b = bk_prev_allocated c \<Longrightarrow>
    bk_prev_size b = bk_prev_size c \<Longrightarrow> b = (c :: rb_block)"
  by (cases b; cases c) simp

definition same_place :: "rb_fit \<Rightarrow> rb_fit \<Rightarrow> bool" where
  "same_place st st' \<longleftrightarrow> rb_this st' = rb_this st \<and> rb_extra_hdr_bytes st' = rb_extra_hdr_bytes st \<and> rb_size st' = rb_size st"

lemma same_place_refl [simp]: "same_place st st"
  by (simp add: same_place_def)

lemma same_place_trans: "same_place st st1 \<Longrightarrow> same_place st1 st2 \<Longrightarrow> same_place st st2"
  by (simp add: same_place_def)

lemma same_place_ops [simp]:
  "same_place st (rb_set_size s a n) = same_place st s" "same_place st (rb_set_prev_size s a n) = same_place st s"
  "same_place st (rb_set_allocated s a t) = same_place st s" "same_place st (rb_set_prev_allocated s a t) = same_place st s"
  "same_place st (new_block_ctrl s a) = same_place st s" "same_place st (rb_mark_as_allocated_block s a) = same_place st s"
  "same_place st (rb_mark_as_free_block s a) = same_place st s" "same_place st (rb_insert I s a) = same_place st s"
  "same_place st (rb_erase I s a) = same_place st s" "same_place st (s\<lparr>rb_allocated := k\<rparr>) = same_place st s"
  "same_place st (s\<lparr>rb_free := xs\<rparr>) = same_place st s"
  by (simp_all add: same_place_def rb_set_size_def rb_set_prev_size_def rb_set_allocated_def rb_set_prev_allocated_def
      new_block_ctrl_def rb_mark_as_allocated_block_def rb_mark_as_free_block_def rb_insert_def rb_erase_def rb_upd_def Let_def)

lemma rep_seg:
  assumes "rb_rep lo hi st (us @ ms @ vs)" "x = lo + 16 * units us"
  shows "rb_seg (rb_heap st) lo us" "rb_seg (rb_heap st) x ms" "rb_seg (rb_heap st) (x + 16 * units ms) vs"
    "isolated (last_alloc True us) (ms @ vs)"
  using assms by (auto simp: rb_rep_def algebra_simps)

text \<open>Free blocks outside the part that changes keep their sizes.\<close>

lemma rest_of_free:
  assumes rep: "rb_rep lo hi st (us @ ms @ vs)" and x: "x = lo + 16 * units us" and ne: "ms \<noteq> []"
    and z: "z \<in> set (rb_free st)" "z \<notin> fst ` frees x ms"
  shows "z < x \<or> x + 16 * units ms \<le> z" "z \<noteq> x"
proof -
  note s = rep_seg [OF rep x]
  have "z \<in> fst ` frees lo us \<union> fst ` frees (x + 16 * units ms) vs"
    using rep z x by (auto simp: rb_rep_def image_Un algebra_simps)
  then have "z < x \<or> x + 16 * units ms \<le> z"
    using alloc_range [OF s(1)] alloc_range [OF s(3)] x by fastforce
  then show "z < x \<or> x + 16 * units ms \<le> z" "z \<noteq> x" using rb_seg_min [OF s(2) ne] by auto
qed

lemma allocs_middle:
  assumes "units ms' = units ms"
  shows "allocs lo (us @ ms' @ vs) =
    allocs (lo + 16 * units us) ms' \<union> (allocs lo us \<union> allocs (lo + 16 * units us + 16 * units ms) vs)"
  using assms by (auto simp: algebra_simps)

lemma allocs_replace:
  assumes rep: "rb_rep lo hi st (us @ ms @ vs)" and x: "x = lo + 16 * units us" and u: "units ms' = units ms"
  shows "allocs lo (us @ ms' @ vs) = allocs x ms' \<union> (allocs lo (us @ ms @ vs) - allocs x ms)"
proof -
  note s = rep_seg [OF rep x]
  have "(a, k) \<notin> allocs lo us \<union> allocs (x + 16 * units ms) vs" if "(a, k) \<in> allocs x ms" for a k
    using alloc_range [OF s(1), of a k] alloc_range [OF s(2), of a k] alloc_range [OF s(3), of a k] x that by auto
  then have "allocs x ms \<inter> (allocs lo us \<union> allocs (x + 16 * units ms) vs) = {}" by auto
  then show ?thesis using allocs_middle [OF u, of lo us vs] allocs_middle [OF refl, of lo us ms vs] x by auto
qed

section \<open>Allocation from a free block\<close>

lemma check_and_allocate_rep:
  assumes I: "imultiset_ok I" and rep: "rb_rep lo hi st bs" and b: "(b, n) \<in> frees lo bs" and k: "3 \<le> k" "k \<le> n"
  defines "m \<equiv> if k + 3 \<le> n then k else n"
  shows "\<exists>st' bs'. rb_check_and_allocate I st k b = (st', b + 16, (m - 1) * 16 + 8) \<and> rb_rep lo hi st' bs'
    \<and> allocs lo bs' = insert (b, m) (allocs lo bs) \<and> same_place st st'"
proof -
  obtain us vs where bs: "bs = us @ [(n, False)] @ vs" and x: "b = lo + 16 * units us"
    using frees_split [OF b] by (metis append_Cons append_Nil)
  note rep' = rep [unfolded bs]
  note s = rep_seg [OF rep' x]
  have size: "bsize st b = n" and fr: "distinct (rb_free st)" "b \<in> set (rb_free st)" "sorted (map (bsize st) (rb_free st))"
    using s(2) rep imageI [OF b, of fst] by (auto simp: rb_rep_def)
  note er = erase_facts [OF I fr(1,2)]
  have other: "z \<in> set (im_erase I b (rb_free st)) \<Longrightarrow> z < b \<or> b + 16 * n \<le> z" for z
    using rest_of_free(1) [OF rep' x, of z] er(2) by auto
  show ?thesis
  proof (cases "k + 3 \<le> n")
    case True
    let ?r = "b + 16 * k" and ?sz = "\<lambda>z. if z = b + 16 * k then n - k else if z = b then k else bsize st z"
    define st' where "st' = fst (rb_check_and_allocate I st k b)"
    have st': "rb_check_and_allocate I st k b = (st', b + 16, (k - 1) * 16 + 8)"
      using True k size by (simp add: st'_def rb_check_and_allocate_def Let_def rb_read)
    have h: "bsize st' z = ?sz z"
      "bk_allocated (rb_heap st' z) = (z = b \<or> z \<noteq> ?r \<and> bk_allocated (rb_heap st z))"
      "bk_prev_allocated (rb_heap st' z) = (z = ?r \<or> z \<noteq> b + 16 * n \<and> bk_prev_allocated (rb_heap st z))"
      "bk_prev_size (rb_heap st' z) = (if z = ?r then 0 else if z = b + 16 * n then n - k else bk_prev_size (rb_heap st z))"
      for z
      using True k size by (auto simp: st'_def rb_check_and_allocate_def Let_def rb_read)
    have f: "rb_free st' = im_insert_hint I (bsize st') (position b (rb_free st)) ?r (im_erase I b (rb_free st))"
      unfolding h(1) using True k size by (simp add: st'_def rb_check_and_allocate_def Let_def rb_read cong: if_cong)
    have a: "rb_allocated st' = rb_allocated st + 16 * k" and pl: "same_place st st'"
      using True k size by (simp_all add: st'_def rb_check_and_allocate_def Let_def rb_read)
    have sorted: "sorted (map (bsize st') (im_erase I b (rb_free st)))"
      using er(3) [OF fr(3)] True k
      by (subst sorted_sizes_cong [where g = "bsize st"]) (auto simp: h dest: other)
    note ins = insert_hint_facts [OF I sorted er(1) _ er(5), of ?r, folded f]
    have new: "?r \<notin> set (im_erase I b (rb_free st))" using other True k by force
    have "rb_rep lo hi st' (us @ [(k, True), (n - k, False)] @ vs)"
    proof (rule rep_replace [OF rep' x refl])
      show "rb_seg (rb_heap st') b [(k, True), (n - k, False)]"
        using True k by (simp add: h says_def)
      show "isolated (last_alloc True us) ([(k, True), (n - k, False)] @ vs)" using s(4) by simp
      show "set (rb_free st') = set (rb_free st) - fst ` frees b [(n, False)] \<union> fst ` frees b [(k, True), (n - k, False)]"
        using ins(2) new er(2) by simp
    qed (use True k ins new a in \<open>auto simp: h intro!: block_eqI\<close>)
    moreover have "allocs lo (us @ [(k, True), (n - k, False)] @ vs) = insert (b, m) (allocs lo bs)"
      using True k x allocs_middle [of "[(k, True), (n - k, False)]" "[(n, False)]" lo us vs]
        allocs_middle [of "[(n, False)]" "[(n, False)]" lo us vs] by (simp add: bs m_def)
    ultimately show ?thesis using st' pl True by (auto simp: m_def)
  next
    case False
    define st' where "st' = fst (rb_check_and_allocate I st k b)"
    have st': "rb_check_and_allocate I st k b = (st', b + 16, (n - 1) * 16 + 8)"
      using False k size by (simp add: st'_def rb_check_and_allocate_def Let_def rb_read)
    have h: "bsize st' z = bsize st z" "bk_allocated (rb_heap st' z) = (z = b \<or> bk_allocated (rb_heap st z))"
      "bk_prev_allocated (rb_heap st' z) = (z = b + 16 * n \<or> bk_prev_allocated (rb_heap st z))"
      "bk_prev_size (rb_heap st' z) = (if z = b + 16 * n then 0 else bk_prev_size (rb_heap st z))" for z
      using False k size by (simp_all add: st'_def rb_check_and_allocate_def Let_def rb_read)
    have f: "rb_free st' = im_erase I b (rb_free st)"
      and a: "rb_allocated st' = rb_allocated st + 16 * n" and pl: "same_place st st'"
      using False k size by (simp_all add: st'_def rb_check_and_allocate_def Let_def rb_read)
    have sorted: "sorted (map (bsize st') (im_erase I b (rb_free st)))"
      using er(3) [OF fr(3)] other k
      by (subst sorted_sizes_cong [where g = "bsize st"]) (auto simp: h)
    have "rb_rep lo hi st' (us @ [(n, True)] @ vs)"
    proof (rule rep_replace [OF rep' x refl])
      show "rb_seg (rb_heap st') b [(n, True)]" using k size by (simp add: h says_def)
      show "isolated (last_alloc True us) ([(n, True)] @ vs)" using s(4) by (auto intro: isolated_weaken)
      show "set (rb_free st') = set (rb_free st) - fst ` frees b [(n, False)] \<union> fst ` frees b [(n, True)]"
        using er(2) f by simp
    qed (use k f er(1) sorted a in \<open>auto simp: h intro!: block_eqI\<close>)
    moreover have "allocs lo (us @ [(n, True)] @ vs) = insert (b, m) (allocs lo bs)" using False x by (simp add: bs m_def)
    ultimately show ?thesis using st' pl False by (auto simp: m_def)
  qed
qed

section \<open>Deallocation\<close>

text \<open>What the header of a block says of the block before, and whether the block after is free.\<close>

lemma prev_flag:
  assumes "rb_rep lo hi st (us @ vs)" "x = lo + 16 * units us"
  shows "bk_prev_allocated (rb_heap st x) = last_alloc True us"
    and "\<not> last_alloc True us \<Longrightarrow> \<exists>us' p. us = us' @ [(p, False)] \<and> bk_prev_size (rb_heap st x) = p"
proof -
  have "bk_prev_allocated (rb_heap st x) = last_alloc True us
    \<and> (\<not> last_alloc True us \<longrightarrow> (\<exists>us' p. us = us' @ [(p, False)] \<and> bk_prev_size (rb_heap st x) = p))"
  proof (cases us rule: rev_cases)
    case Nil
    then show ?thesis using assms by (simp add: rb_rep_def)
  next
    case (snoc us' b)
    obtain p al where b: "b = (p, al)" by (cases b)
    have "rb_seg (rb_heap st) lo (us' @ [(p, al)])" using assms(1) snoc b by (simp add: rb_rep_def)
    then have "says (rb_heap st) x al p" using assms(2) snoc b by (simp add: algebra_simps)
    then show ?thesis using snoc b by (auto simp: says_def)
  qed
  then show "bk_prev_allocated (rb_heap st x) = last_alloc True us"
    "\<not> last_alloc True us \<Longrightarrow> \<exists>us' p. us = us' @ [(p, False)] \<and> bk_prev_size (rb_heap st x) = p" by blast+
qed

lemma next_flag:
  assumes "rb_rep lo hi st (us @ vs)" "y = lo + 16 * units us"
  shows "\<not> bk_allocated (rb_heap st y) \<longleftrightarrow> (\<exists>q vs'. vs = (q, False) # vs')"
    and "vs = (q, al) # vs' \<Longrightarrow> bsize st y = q"
  using assms by (cases vs; auto simp: rb_rep_def)+

text \<open>The effect of a deallocation on every field.\<close>

definition merged_start :: "rb_fit \<Rightarrow> nat \<Rightarrow> nat" where
  "merged_start st b = (if bk_prev_allocated (rb_heap st b) then b else b - 16 * bk_prev_size (rb_heap st b))"

definition merged_units :: "rb_fit \<Rightarrow> nat \<Rightarrow> nat" where
  "merged_units st b = (if bk_prev_allocated (rb_heap st b) then 0 else bsize st (merged_start st b)) + bsize st b
     + (if bk_allocated (rb_heap st (b + 16 * bsize st b)) then 0 else bsize st (b + 16 * bsize st b))"

definition unlinked :: "imultiset \<Rightarrow> rb_fit \<Rightarrow> nat \<Rightarrow> nat list" where
  "unlinked I st b =
     (let xs = (if bk_prev_allocated (rb_heap st b) then rb_free st else im_erase I (merged_start st b) (rb_free st))
      in if bk_allocated (rb_heap st (b + 16 * bsize st b)) then xs else im_erase I (b + 16 * bsize st b) xs)"

lemma deallocate_reads:
  fixes I :: imultiset
  assumes "0 < bsize st b" "bk_prev_allocated (rb_heap st b) \<or> merged_start st b < b"
  defines "st' \<equiv> rb_priv_deallocate I st (b + 16)" and "x \<equiv> merged_start st b" and "t \<equiv> merged_units st b"
  shows "bsize st' z = (if z = x then t else bsize st z)"
    "bk_allocated (rb_heap st' z) = (z \<noteq> x \<and> bk_allocated (rb_heap st z))"
    "bk_prev_allocated (rb_heap st' z) = (z \<noteq> x + 16 * t \<and> bk_prev_allocated (rb_heap st z))"
    "bk_prev_size (rb_heap st' z) = (if z = x + 16 * t then t else bk_prev_size (rb_heap st z))"
    "rb_allocated st' = rb_allocated st - 16 * bsize st b"
    "rb_free st' = im_insert I (\<lambda>z. if z = x then t else bsize st z) x (unlinked I st b)"
    "same_place st st'"
proof -
  define n where "n = bsize st b"
  let ?st1 = "st\<lparr>rb_allocated := rb_allocated st - 16 * n\<rparr>"
  define mp where "mp = (\<not> bk_prev_allocated (rb_heap st b))"
  define mn where "mn = (\<not> bk_allocated (rb_heap st (b + 16 * n)))"
  have xb: "\<not> mp \<Longrightarrow> x = b" "mp \<Longrightarrow> rb_prev_block ?st1 b = x" "x \<le> b" "mp \<Longrightarrow> x < b"
    using assms(2) by (auto simp: x_def merged_start_def mp_def rb_read)
  have n0: "0 < n" using assms(1) by (simp add: n_def)
  have r: "rb_is_prev_allocated ?st1 b = (\<not> mp)" "rb_next_block ?st1 b = b + 16 * n"
    "rb_is_allocated_block ?st1 (b + 16 * n) = (\<not> mn)" "bsize st b = n"
    by (auto simp: rb_read mp_def mn_def n_def)
  define st2 where "st2 = (if mp then rb_erase I (rb_set_size ?st1 x (bsize st x + n)) x else ?st1)"
  define st3 where "st3 = (if mn then rb_erase I (rb_set_size st2 x (bsize st2 x + bsize st2 (b + 16 * n))) (b + 16 * n) else st2)"
  have st': "st' = rb_insert I (rb_mark_as_free_block st3 x) x"
  proof (cases mp)
    case True
    then show ?thesis using r xb by (simp add: st'_def rb_priv_deallocate_def Let_def st2_def st3_def)
  next
    case False
    then show ?thesis using r xb by (simp add: st'_def rb_priv_deallocate_def Let_def st2_def st3_def)
  qed
  have ne: "b + 16 * n \<noteq> x" using xb(3) n0 by simp
  have h2: "bsize st2 z = (if z = x then (if mp then bsize st x else 0) + n else bsize st z)"
    "rb_free st2 = (if mp then im_erase I x (rb_free st) else rb_free st)" "rb_allocated st2 = rb_allocated st - 16 * n"
    "bk_allocated (rb_heap st2 z) = bk_allocated (rb_heap st z)"
    "bk_prev_allocated (rb_heap st2 z) = bk_prev_allocated (rb_heap st z)"
    "bk_prev_size (rb_heap st2 z) = bk_prev_size (rb_heap st z)" for z
    using xb r(4) by (auto simp: st2_def rb_read)
  have t: "t = (if mp then bsize st x else 0) + n + (if mn then bsize st (b + 16 * n) else 0)"
    by (simp add: t_def merged_units_def mp_def mn_def n_def x_def)
  have h3: "bsize st3 z = (if z = x then t else bsize st z)"
    "rb_free st3 = unlinked I st b" "rb_allocated st3 = rb_allocated st - 16 * n"
    "bk_allocated (rb_heap st3 z) = bk_allocated (rb_heap st z)"
    "bk_prev_allocated (rb_heap st3 z) = bk_prev_allocated (rb_heap st z)"
    "bk_prev_size (rb_heap st3 z) = bk_prev_size (rb_heap st z)" for z
    using ne by (auto simp: st3_def rb_read h2 t unlinked_def Let_def mp_def mn_def n_def x_def)
  have "bsize st3 = (\<lambda>z. if z = x then t else bsize st z)" by (rule ext) (rule h3)
  then show "bsize st' z = (if z = x then t else bsize st z)"
    "bk_allocated (rb_heap st' z) = (z \<noteq> x \<and> bk_allocated (rb_heap st z))"
    "bk_prev_allocated (rb_heap st' z) = (z \<noteq> x + 16 * t \<and> bk_prev_allocated (rb_heap st z))"
    "bk_prev_size (rb_heap st' z) = (if z = x + 16 * t then t else bk_prev_size (rb_heap st z))"
    "rb_allocated st' = rb_allocated st - 16 * bsize st b"
    "rb_free st' = im_insert I (\<lambda>z. if z = x then t else bsize st z) x (unlinked I st b)"
    "same_place st st'"
    by (simp_all add: st' rb_read h3 n_def [symmetric]) (simp add: st3_def st2_def)
qed

text \<open>
  The blocks that a deallocation joins: the block itself with its free neighbours, and the multiset without
  these neighbours.
\<close>

lemma merge_shape:
  assumes I: "imultiset_ok I" and rep: "rb_rep lo hi st bs" and b: "(b, n) \<in> allocs lo bs"
  obtains us ms vs x where "bs = us @ ms @ vs" "x = lo + 16 * units us" "merged_start st b = x" "merged_units st b = units ms"
    "allocs x ms = {(b, n)}" "alloc_units ms = n" "bk_prev_allocated (rb_heap st b) \<or> merged_start st b < b"
    "n \<le> units ms" "bsize st b = n" "3 \<le> n"
    "isolated (last_alloc True us) ([(units ms, False)] @ vs)" "distinct (unlinked I st b)"
    "set (unlinked I st b) = set (rb_free st) - fst ` frees x ms" "sorted (map (bsize st) (unlinked I st b))"
proof -
  obtain us0 vs0 where bs0: "bs = us0 @ (n, True) # vs0" and x0: "b = lo + 16 * units us0" by (rule allocs_split [OF b])
  note pf = prev_flag [OF rep [unfolded bs0] x0]
  have rep1: "rb_rep lo hi st ((us0 @ [(n, True)]) @ vs0)" and y0: "b + 16 * n = lo + 16 * units (us0 @ [(n, True)])"
    using rep bs0 x0 by simp_all
  note nf = next_flag [OF rep1 y0]
  define mp where "mp = (\<not> bk_prev_allocated (rb_heap st b))"
  define mn where "mn = (\<not> bk_allocated (rb_heap st (b + 16 * n)))"
  define p where "p = bk_prev_size (rb_heap st b)"
  define q where "q = bsize st (b + 16 * n)"
  define pre where "pre = (if mp then [(p, False)] else [])"
  define post where "post = (if mn then [(q, False)] else [])"
  obtain us where us: "us0 = us @ pre" using pf by (cases mp) (auto simp: mp_def pre_def p_def)
  obtain vs where vs: "vs0 = post @ vs" using nf by (cases mn) (auto simp: mn_def post_def q_def)
  define x where "x = lo + 16 * units us"
  define ms where "ms = pre @ [(n, True)] @ post"
  have bs: "bs = us @ ms @ vs" using bs0 us vs by (simp add: ms_def)
  note rep' = rep [unfolded bs]
  note s = rep_seg [OF rep' x_def]
  have bx: "b = x + 16 * units pre" using x0 us by (simp add: x_def)
  have size: "bsize st b = n" "3 \<le> n" using s(2) by (auto simp: ms_def bx)
  have psize: "mp \<Longrightarrow> bsize st x = p \<and> x = b - 16 * p \<and> x < b"
    using s(2) bx by (auto simp: ms_def pre_def)
  have xb: "\<not> mp \<Longrightarrow> x = b" using bx by (simp add: pre_def)
  have U: "units ms = units pre + n + units post" by (simp add: ms_def)
  have mx: "merged_start st b = x" "merged_units st b = units ms"
    using psize xb size by (auto simp: merged_start_def merged_units_def U mp_def mn_def pre_def post_def p_def q_def)
  have pos: "0 < bsize st b" "bk_prev_allocated (rb_heap st b) \<or> merged_start st b < b"
    using size psize mx(1) by (auto simp: mp_def)
  define xs where "xs = (if mp then im_erase I x (rb_free st) else rb_free st)"
  have un: "unlinked I st b = (if mn then im_erase I (b + 16 * n) xs else xs)"
    using size by (simp add: unlinked_def mx xs_def mp_def mn_def)
  have fr: "distinct (rb_free st)" "sorted (map (bsize st) (rb_free st))" using rep by (auto simp: rb_rep_def)
  have mem: "mp \<Longrightarrow> x \<in> set (rb_free st)" "mn \<Longrightarrow> b + 16 * n \<in> set (rb_free st)"
    using rep' x_def bx by (auto simp: rb_rep_def ms_def pre_def post_def image_Un algebra_simps)
  have frees: "fst ` frees x ms = (if mp then {x} else {}) \<union> (if mn then {b + 16 * n} else {})"
    using bx by (auto simp: ms_def pre_def post_def)
  have f2: "distinct xs" "set xs = set (rb_free st) - (if mp then {x} else {})" "sorted (map (bsize st) xs)"
    using fr erase_facts [OF I fr(1) mem(1)] by (auto simp: xs_def)
  have mem2: "mn \<Longrightarrow> b + 16 * n \<in> set xs" using mem(2) f2(2) bx size by auto
  have f3: "distinct (unlinked I st b)" "set (unlinked I st b) = set (rb_free st) - fst ` frees x ms"
    "sorted (map (bsize st) (unlinked I st b))"
    using f2 erase_facts [OF I f2(1) mem2] by (auto simp: un frees)
  have "last_alloc True us"
  proof (cases mp)
    case True
    then show ?thesis using s(4) by (simp add: ms_def pre_def)
  next
    case False
    then have "last_alloc True us0" using pf(1) unfolding mp_def by simp
    then show ?thesis using us False by (simp add: pre_def)
  qed
  moreover have "isolated False vs"
  proof (cases mn)
    case True
    then show ?thesis using s(4) by (simp add: ms_def post_def)
  next
    case False
    then have "\<nexists>q vs'. vs = (q, False) # vs'" using nf(1) vs unfolding mn_def by (simp add: post_def False)
    moreover have "isolated True vs" using s(4) False by (simp add: ms_def post_def)
    ultimately show ?thesis by (cases vs) auto
  qed
  ultimately have iso: "isolated (last_alloc True us) ([(units ms, False)] @ vs)" by simp
  have al: "allocs x ms = {(b, n)}" "alloc_units ms = n" "n \<le> units ms"
    using bx by (auto simp: ms_def pre_def post_def)
  show thesis by (rule that [OF bs x_def mx al(1,2) pos(2) al(3) size iso f3])
qed

lemma rb_deallocate_rep:
  assumes I: "imultiset_ok I" and rep: "rb_rep lo hi st bs" and b: "(b, n) \<in> allocs lo bs"
  shows "\<exists>bs'. rb_rep lo hi (rb_priv_deallocate I st (b + 16)) bs' \<and> allocs lo bs' = allocs lo bs - {(b, n)}
    \<and> same_place st (rb_priv_deallocate I st (b + 16))"
proof -
  obtain us ms vs x where bs: "bs = us @ ms @ vs" and x: "x = lo + 16 * units us" and mx: "merged_start st b = x" "merged_units st b = units ms"
    and al: "allocs x ms = {(b, n)}" "alloc_units ms = n" and pf: "bk_prev_allocated (rb_heap st b) \<or> merged_start st b < b"
    and nu: "n \<le> units ms" and size: "bsize st b = n" "3 \<le> n"
    and iso: "isolated (last_alloc True us) ([(units ms, False)] @ vs)" and f3: "distinct (unlinked I st b)"
      "set (unlinked I st b) = set (rb_free st) - fst ` frees x ms" "sorted (map (bsize st) (unlinked I st b))"
    by (rule merge_shape [OF I rep b])
  note rep' = rep [unfolded bs]
  define st' where "st' = rb_priv_deallocate I st (b + 16)"
  have pos: "0 < bsize st b" using size by simp
  note h = deallocate_reads [OF pos pf, of I, folded st'_def, unfolded mx size(1)]
  have ne: "ms \<noteq> []" using al by auto
  have other: "z \<in> set (unlinked I st b) \<Longrightarrow> z < x \<or> x + 16 * units ms \<le> z" "z \<in> set (unlinked I st b) \<Longrightarrow> z \<noteq> x" for z
    using rest_of_free [OF rep' x ne, of z] f3(2) by auto
  let ?sz = "\<lambda>z. if z = x then units ms else bsize st z"
  have sorted: "sorted (map ?sz (unlinked I st b))"
    using f3(3) by (subst sorted_sizes_cong [where g = "bsize st"]) (auto dest: other)
  note ins = insert_facts [OF I sorted f3(1), of x, folded h(6)]
  have "bsize st' = ?sz" by (rule ext) (rule h(1))
  have ms3: "3 \<le> units ms" using nu size by simp
  have rep2: "rb_rep lo hi st' (us @ [(units ms, False)] @ vs)"
  proof (rule rep_replace [OF rep' x refl])
    show "rb_seg (rb_heap st') x [(units ms, False)]" using ms3 by (simp add: h says_def)
    show "isolated (last_alloc True us) ([(units ms, False)] @ vs)" by (rule iso)
    show "set (rb_free st') = set (rb_free st) - fst ` frees x ms \<union> fst ` frees x [(units ms, False)]"
      using ins(2) other f3(2) by auto
    show "sorted (map (bsize st') (rb_free st'))" using ins(3) other \<open>bsize st' = ?sz\<close> by auto
    show "rb_allocated st' + 16 * alloc_units ms = rb_allocated st + 16 * alloc_units [(units ms, False)]"
      using rep al(2) by (simp add: h(5) bs rb_rep_def)
  qed (use ins(1) other ms3 ne in \<open>auto simp: h intro!: block_eqI\<close>)
  have "allocs lo (us @ [(units ms, False)] @ vs) = allocs lo bs - {(b, n)}"
    using allocs_replace [OF rep' x, of "[(units ms, False)]"] al(1) by (simp add: bs)
  then show ?thesis using rep2 h(7) unfolding st'_def [symmetric] by blast
qed

end
