(* ===== verification/Rbtree_Alloc.thy ===== *)
theory Rbtree_Alloc
  imports Rbtree_Correct
begin

text \<open>
  The search for the best fit: the units a request needs, what the lower bound in the multiset finds, and
  the outcome of the allocation on the representation.
\<close>

section \<open>Units of a request\<close>

abbreviation user_bytes_of :: "nat \<Rightarrow> nat" where
  "user_bytes_of k \<equiv> (k - 1) * 16 + 8"

lemma rounded_units_nat:
  assumes "unat x + 16 \<le> 2 ^ 64"
  shows "unat (get_rounded_size x 16 div 16) = (unat x + 15) div 16"
proof (cases "x = 0")
  case True
  then show ?thesis using round_zero_po2 [of 4] by simp
next
  case False
  then have x: "0 < unat x" by (simp add: unat_gt_0)
  have "unat (get_rounded_size x 16) = ((unat x - 1) div unat (16 :: size_t) + 1) * unat (16 :: size_t)"
    by (rule get_rounded_size_nat) (use False assms x in auto)
  then have "unat (get_rounded_size x 16 div 16) = (unat x - 1) div 16 + 1" by (simp add: unat_div)
  also have "\<dots> = (unat x - 1 + 16) div 16" by simp
  also have "unat x - 1 + 16 = unat x + 15" using x by simp
  finally show ?thesis .
qed

lemma total_units_nat:
  assumes "unat n + 8 \<le> 2 ^ 64"
  shows "unat (rb_priv_get_total_units n) = max 3 ((unat n - 8 + 15) div 16 + 1)"
proof -
  define x where "x = (if n < 8 then 8 else n) - (8 :: size_t)"
  have x: "unat x = unat n - 8"
  proof (cases "n < 8")
    case True
    then show ?thesis by (simp add: x_def word_less_nat_alt)
  next
    case False
    then show ?thesis by (simp add: x_def unat_sub not_less)
  qed
  define u where "u = get_rounded_size x 16 div 16 + 1"
  define d where "d = (unat n - 8 + 15) div 16"
  have r: "unat (get_rounded_size x 16 div 16) = d"
    using rounded_units_nat [of x] assms x by (cases "unat n < 8") (simp_all add: d_def)
  have "d + 1 < 2 ^ 64" using assms by (simp add: d_def)
  then have "unat u = d + 1"
    unfolding u_def using r by (simp add: unat_add_lem')
  moreover have "rb_priv_get_total_units n = (if u < 3 then 3 else u)"
    by (simp add: rb_priv_get_total_units_def Let_def x_def u_def)
  ultimately show ?thesis unfolding d_def [symmetric] by (auto simp: word_less_nat_alt max_def)
qed

lemma total_units_min: "3 \<le> unat (rb_priv_get_total_units n)"
  by (auto simp: rb_priv_get_total_units_def Let_def word_less_nat_alt)

lemma total_units_fit:
  assumes "unat n + 8 \<le> 2 ^ 64" "3 \<le> k"
  shows "unat (rb_priv_get_total_units n) \<le> k \<longleftrightarrow> unat n \<le> user_bytes_of k"
proof -
  have "(unat n - 8 + 15) div 16 < k \<longleftrightarrow> unat n \<le> user_bytes_of k"
    using assms(2) by (subst div_less_iff_less_mult) (auto simp: diff_mult_distrib)
  then show ?thesis unfolding total_units_nat [OF assms(1)] using assms(2) by (simp add: Suc_le_eq)
qed

lemma total_units_least:
  assumes "unat n + 16 \<le> 2 ^ 64"
  shows "3 \<le> k \<Longrightarrow> unat (rb_priv_get_total_units n) \<le> k \<longleftrightarrow> unat n \<le> user_bytes_of k"
  using total_units_fit [of n k] assms by simp

text \<open>A request of more than \<open>2 ^ 64 - 8\<close> bytes wraps to the smallest block.\<close>

lemma total_units_wraps:
  assumes "2 ^ 64 < unat n + 8"
  shows "unat (rb_priv_get_total_units n) = 3"
proof -
  have l: "\<not> n < 8" using assms by (auto simp: word_less_nat_alt)
  then have "unat (n - 8) = unat n - 8" by (simp add: unat_sub not_less)
  then have "get_rounded_size (n - 8) 16 = 0" using assms by (intro get_rounded_size_wraps) simp
  then show ?thesis using l by (simp add: rb_priv_get_total_units_def)
qed

section \<open>The search\<close>

text \<open>The first element that is not too small, or the largest one if all are too small.\<close>

lemma lower_bound_facts:
  fixes n :: nat
  assumes I: "imultiset_ok I" and s: "sorted (map f xs)"
  defines "i \<equiv> im_lower_bound I f n xs"
  shows "i \<le> length xs"
    and "i < length xs \<Longrightarrow> n \<le> f (xs ! i) \<and> (\<forall>x\<in>set xs. n \<le> f x \<longrightarrow> f (xs ! i) \<le> f x)"
    and "i = length xs \<Longrightarrow> (\<forall>x\<in>set xs. f x < n) \<and> (i \<noteq> 0 \<longrightarrow> (\<forall>x\<in>set xs. f x \<le> f (xs ! (i - 1))))"
proof -
  have i: "i = length (takeWhile (\<lambda>x. f x < n) xs)" using I s unfolding i_def imultiset_ok_def by blast
  then show "i \<le> length xs" by (simp add: length_takeWhile_le)
  have lt: "f (xs ! j) < n" if "j < i" for j
    using that i nth_mem [of j "takeWhile (\<lambda>x. f x < n) xs"] by (auto simp: takeWhile_nth dest: set_takeWhileD)
  have le: "f (xs ! j) \<le> f (xs ! k)" if "j \<le> k" "k < length xs" for j k
    using sorted_nth_mono [OF s, of j k] that by simp
  show "n \<le> f (xs ! i) \<and> (\<forall>x\<in>set xs. n \<le> f x \<longrightarrow> f (xs ! i) \<le> f x)" if h: "i < length xs"
  proof -
    have "n \<le> f (xs ! i)" using nth_length_takeWhile [of "\<lambda>x. f x < n" xs] h i by simp
    moreover have "f (xs ! i) \<le> f x" if "x \<in> set xs" "n \<le> f x" for x
    proof -
      obtain j where j: "j < length xs" "x = xs ! j" using \<open>x \<in> set xs\<close> by (metis in_set_conv_nth)
      then have "\<not> j < i" using lt [of j] that(2) by auto
      then show ?thesis using le [of i j] j by simp
    qed
    ultimately show ?thesis by blast
  qed
  show "(\<forall>x\<in>set xs. f x < n) \<and> (i \<noteq> 0 \<longrightarrow> (\<forall>x\<in>set xs. f x \<le> f (xs ! (i - 1))))" if h: "i = length xs"
    using lt le [of _ "i - 1"] h by (auto simp: in_set_conv_nth)
qed

definition best_fit :: "nat \<Rightarrow> nat \<Rightarrow> (nat \<times> nat) set \<Rightarrow> bool" where
  "best_fit pu n F \<longleftrightarrow> (if pu \<le> n then \<forall>(c, m)\<in>F. pu \<le> m \<longrightarrow> n \<le> m else \<forall>(c, m)\<in>F. m \<le> n)"

lemma free_sizes:
  assumes "rb_rep lo hi st bs" shows "frees lo bs = (\<lambda>c. (c, bsize st c)) ` set (rb_free st)"
    and "\<And>c m. (c, m) \<in> frees lo bs \<Longrightarrow> bsize st c = m \<and> 3 \<le> m"
proof -
  have r: "(c, m) \<in> frees lo bs \<Longrightarrow> bsize st c = m \<and> 3 \<le> m" for c m
    using alloc_range [of "rb_heap st" lo bs c m] assms by (auto simp: rb_rep_def)
  have "set (rb_free st) = fst ` frees lo bs" using assms by (simp add: rb_rep_def)
  then show "frees lo bs = (\<lambda>c. (c, bsize st c)) ` set (rb_free st)" using r by (force simp: image_iff)
  show "\<And>c m. (c, m) \<in> frees lo bs \<Longrightarrow> bsize st c = m \<and> 3 \<le> m" using r .
qed

lemma rb_branch_rep:
  assumes I: "imultiset_ok I" and rep: "rb_rep lo hi st bs"
    and lp: "unat (rb_priv_get_total_units limit) \<le> unat (rb_priv_get_total_units preferred)"
  defines "pu \<equiv> unat (rb_priv_get_total_units preferred)" and "lu \<equiv> unat (rb_priv_get_total_units limit)"
  shows "case rb_allocate_branch I st limit preferred of
      Some (st', p, r) \<Rightarrow> \<exists>b k m bs'. p = b + 16 \<and> r = user_bytes_of m \<and> (b, k) \<in> frees lo bs \<and> best_fit pu k (frees lo bs)
        \<and> lu \<le> m \<and> m = (if pu + 3 \<le> k then pu else k) \<and> rb_rep lo hi st' bs'
        \<and> allocs lo bs' = insert (b, m) (allocs lo bs) \<and> same_place st st'
    | None \<Rightarrow> \<forall>(c, m)\<in>frees lo bs. m < lu"
proof -
  let ?xs = "rb_free st" and ?f = "bsize st"
  define i where "i = im_lower_bound I ?f pu ?xs"
  have so: "sorted (map ?f ?xs)" using rep by (simp add: rb_rep_def)
  note lb = lower_bound_facts [OF I so, of pu, folded i_def]
  note fs = free_sizes(1) [OF rep]
  have pu: "3 \<le> pu" unfolding pu_def by (rule total_units_min)
  note lp = lp [folded pu_def lu_def]
  have e: "rb_allocate_branch I st limit preferred =
     (if i \<noteq> length ?xs then Some (rb_check_and_allocate I st pu (?xs ! i))
      else if i \<noteq> 0 \<and> ?f (?xs ! (i - 1)) \<ge> lu
      then Some (rb_check_and_allocate I st (?f (?xs ! (i - 1))) (?xs ! (i - 1))) else None)"
    by (simp add: rb_allocate_branch_def Let_def pu_def lu_def i_def)
  consider (best) "i < length ?xs" | (largest) "i = length ?xs" "i \<noteq> 0" "?f (?xs ! (i - 1)) \<ge> lu"
    | (none) "i = length ?xs" "i = 0 \<or> ?f (?xs ! (i - 1)) < lu"
    using lb(1) by linarith
  then show ?thesis
  proof cases
    case best
    let ?b = "?xs ! i"
    have b: "(?b, ?f ?b) \<in> frees lo bs" using best fs by simp
    have "best_fit pu (?f ?b) (frees lo bs)" using lb(2) [OF best] fs by (auto simp: best_fit_def)
    then show ?thesis
      using check_and_allocate_rep [OF I rep b pu] lb(2) [OF best] b e best lp by fastforce
  next
    case largest
    define b k where "b = ?xs ! (i - 1)" and "k = ?f b"
    have b: "(b, k) \<in> frees lo bs" using largest fs by (simp add: b_def k_def)
    have lt: "k < pu" using lb(3) [OF largest(1)] largest(1,2) by (simp add: b_def k_def)
    have fit: "best_fit pu k (frees lo bs)"
      using lb(3) [OF largest(1)] largest(2) fs lt by (auto simp: best_fit_def b_def k_def)
    obtain st' bs' where r: "rb_check_and_allocate I st k b = (st', b + 16, user_bytes_of k)"
        "rb_rep lo hi st' bs'" "allocs lo bs' = insert (b, k) (allocs lo bs)" "same_place st st'"
      using check_and_allocate_rep [OF I rep b _ order_refl] free_sizes(2) [OF rep b] by auto
    have eq: "rb_allocate_branch I st limit preferred = Some (st', b + 16, user_bytes_of k)"
      using e largest r(1) by (simp add: b_def k_def)
    have "k = (if pu + 3 \<le> k then pu else k)" "lu \<le> k" using lt largest(3) by (simp_all add: b_def k_def)
    then show ?thesis unfolding eq using b fit r(2-) by (simp only: option.case prod.case) blast
  next
    case none
    have "\<forall>(c, m)\<in>frees lo bs. m < lu"
      using lb(3) [OF none(1)] none fs by force
    then show ?thesis using e none by auto
  qed
qed

lemma rb_allocate_branch_rep:
  assumes I: "imultiset_ok I" and rep: "rb_rep lo hi st bs" and le: "limit \<le> preferred"
    and n: "unat preferred + 16 \<le> 2 ^ 64"
  defines "pu \<equiv> unat (rb_priv_get_total_units preferred)" and "lu \<equiv> unat (rb_priv_get_total_units limit)"
  shows "case rb_allocate_branch I st limit preferred of
      Some (st', p, r) \<Rightarrow> \<exists>b k m bs'. p = b + 16 \<and> r = user_bytes_of m \<and> (b, k) \<in> frees lo bs \<and> best_fit pu k (frees lo bs)
        \<and> lu \<le> m \<and> m = (if pu + 3 \<le> k then pu else k) \<and> rb_rep lo hi st' bs'
        \<and> allocs lo bs' = insert (b, m) (allocs lo bs) \<and> same_place st st'
    | None \<Rightarrow> \<forall>(c, m)\<in>frees lo bs. m < lu"
proof -
  have "unat limit \<le> user_bytes_of pu"
    using total_units_least [OF n total_units_min [of preferred]] le by (simp add: pu_def word_le_nat_alt)
  then have "lu \<le> pu"
    using total_units_least [of limit pu] total_units_min [of preferred] le n by (simp add: pu_def lu_def word_le_nat_alt)
  then show ?thesis unfolding pu_def lu_def by (rule rb_branch_rep [OF I rep])
qed

end
