(* ===== verification/Backwards_Needs.thy ===== *)
theory Backwards_Needs
  imports Mem_Algo_Common
begin

text \<open>
  The size of a backwards expansion, \<^verbatim>\<open>calculate_lcm_and_needs_backwards_lcmed\<close>: with the alignment 16 of the
  memory algorithms, the amount is enough and is a multiple of the alignment and of the object size in every
  branch of the case distinction.
\<close>

section \<open>Powers of two and masks\<close>

lemma pow2_by_mask_nat: "0 < n \<Longrightarrow> n AND (n - 1) = 0 \<Longrightarrow> \<exists>k. n = 2 ^ k" for n :: nat
proof (induction n rule: less_induct)
  case (less n)
  show ?case
  proof (cases "even n")
    case True
    then obtain m where m: "n = 2 * m" by blast
    then have m0: "0 < m" using less.prems(1) by simp
    then have "n - 1 = 1 + 2 * (m - 1)" using m by simp
    then have "m AND (m - 1) = 0"
      using less.prems(2) and_rec [of n "n - 1"] m by auto
    then obtain k where "m = 2 ^ k" using less.IH [of m] m m0 by auto
    then show ?thesis using m by (intro exI [of _ "Suc k"]) simp
  next
    case False
    then obtain m where m: "n = 2 * m + 1" using oddE by blast
    then have "n AND (n - 1) = 2 * (m AND m)"
      using and_rec [of n "n - 1"] by simp
    then have "n = 2 ^ 0" using less.prems(2) m by simp
    then show ?thesis by blast
  qed
qed

lemma pow2_by_mask:
  assumes "S \<noteq> 0" "S AND (S - 1) = (0 :: size_t)"
  obtains k where "S = 2 ^ k" "k < 64"
proof -
  have "unat S AND (unat S - 1) = unat (S AND (S - 1))"
    using assms(1) by (simp add: unsigned_and_eq unat_sub_one)
  then have "unat S AND (unat S - 1) = 0" using assms(2) by simp
  then obtain k where k: "unat S = 2 ^ k" using pow2_by_mask_nat assms(1) by (metis unat_gt_0)
  then have "(2 :: nat) ^ k < 2 ^ 64" using size_t_bound [of S] by simp
  then have "k < 64" by (rule power_less_imp_less_exp [rotated]) simp
  moreover have "S = 2 ^ k" using k unat_pow2_size [OF \<open>k < 64\<close>] by (simp add: word_unat_eq_iff)
  ultimately show thesis using that by blast
qed

lemma mask_mod: "x AND (15 :: size_t) = x mod 16" "x AND (7 :: size_t) = x mod 8" "x AND (3 :: size_t) = x mod 4"
  using word_and_pred_pow2 [of x 4] word_and_pred_pow2 [of x 3] word_and_pred_pow2 [of x 2] by simp_all

lemma mod_zero_nat: "(x mod k = 0) = (unat x mod unat k = 0)" for x k :: size_t
  by (simp add: word_unat_eq_iff unat_mod)

section \<open>The needed size\<close>

lemma rounded_multiple:
  assumes "0 < unat n" "l \<noteq> 0" "unat n + unat l \<le> 2 ^ 64"
  shows "unat l dvd unat (get_rounded_size n l)" "unat n \<le> unat (get_rounded_size n l)"
proof -
  have l: "0 < unat l" using assms(2) by (simp add: unat_gt_0)
  have e: "unat (get_rounded_size n l) = ((unat n - 1) div unat l + 1) * unat l"
    by (rule get_rounded_size_nat) (use assms in \<open>auto simp: unat_gt_0\<close>)
  show "unat l dvd unat (get_rounded_size n l)" "unat n \<le> unat (get_rounded_size n l)"
    unfolding e using round_up_nat(1) [OF l assms(1)] by simp_all
qed

text \<open>What the computation must deliver.\<close>

definition fit_needs :: "size_t \<Rightarrow> nat \<Rightarrow> size_t \<Rightarrow> size_t \<Rightarrow> bool" where
  "fit_needs S n l w \<longleftrightarrow> 16 dvd unat w \<and> unat S dvd unat w \<and> n \<le> unat w \<and> unat S dvd unat l"

lemma needs_of_multiple:
  assumes "unat S dvd unat n" "unat n + 4 * unat S < 2 ^ 64" "unat S mod 4 = 0" "unat S mod 8 \<noteq> 0"
  defines "r \<equiv> drop_bit 2 (n AND 15)"
  shows "fit_needs S (unat n) (S * 4)
    (if r \<noteq> 0 then if S AND 8 \<noteq> 0 then n + r * S else n + (4 - r) * S else n)"
proof -
  define N s where "N = unat n" and "s = unat S"
  have R: "unat r = N mod 16 div 4" by (simp add: r_def mask_mod unat_drop_bit_size unat_mod N_def)
  then have r4: "unat r < 4" by simp
  obtain c where c: "s = 4 * c" using assms(3) by (auto simp: s_def)
  have "odd c" using assms(4) c by (auto simp: s_def elim!: evenE)
  obtain d where d: "N = s * d" using assms(1) by (auto simp: N_def s_def)
  have S8: "S AND 8 \<noteq> 0 \<longleftrightarrow> s mod 16 = 12"
  proof -
    have "(S AND 8 \<noteq> 0) = bit S 3" by (simp add: bit_iff_and_push_bit_not_eq_0 [of S 3])
    also have "\<dots> = bit (unat S) 3" by (simp add: bit_unsigned_iff)
    also have "\<dots> = odd (s div 2 ^ 3)" unfolding s_def by (rule bit_iff_odd)
    also have "\<dots> = odd (c div 2)" by (simp add: c)
    also have "\<dots> \<longleftrightarrow> s mod 16 = 12" using \<open>odd c\<close> unfolding c by presburger
    finally show ?thesis .
  qed
  have bound: "N + 4 * s < 2 ^ 64" using assms(2) by (simp add: N_def s_def)
  have mult: "unat (n + k * S) = N + unat k * s" if "unat k \<le> 4" for k
  proof -
    have "unat k * s \<le> 4 * s" using that by simp
    then have lt: "N + unat k * s < 2 ^ 64" using bound by linarith
    then have "unat (k * S) = unat k * s" unfolding s_def by (intro unat_mult_lem') simp
    then show ?thesis using lt by (subst unat_add_lem') (simp_all add: N_def)
  qed
  have four: "unat (4 - r) = 4 - unat r" using r4 by (simp add: unat_sub word_le_nat_alt)
  have l: "s dvd unat (S * 4)" using bound by (subst unat_mult_lem') (auto simp: s_def)
  have N4: "N mod 16 = 4 * (N mod 16 div 4)"
  proof -
    obtain m where "N = 4 * m" using c d by auto
    then show ?thesis by presburger
  qed
  define f where "f = N div 16"
  have N: "N = 16 * f + 4 * unat r"
    using div_mult_mod_eq [of N 16] N4 unfolding R f_def by linarith
  have even_s: "16 dvd N + unat r * s" if "s mod 16 = 12"
  proof -
    have "s = 16 * (s div 16) + 12" using that div_mult_mod_eq [of s 16] by linarith
    then obtain e where "s = 16 * e + 12" by blast
    then have "N + unat r * s = 16 * (f + unat r * e + unat r)" unfolding N by (simp add: algebra_simps)
    then show ?thesis by simp
  qed
  have odd_s: "16 dvd N + (4 - unat r) * s" if "s mod 16 \<noteq> 12"
  proof -
    have "s mod 16 = 4" using that \<open>odd c\<close> unfolding c by presburger
    then have "s = 16 * (s div 16) + 4" using div_mult_mod_eq [of s 16] by linarith
    then obtain e where e: "s = 16 * e + 4" by blast
    obtain j where j: "4 = unat r + j" using r4 by (metis less_imp_add_positive)
    then have "N + j * s = 16 * (f + j * e) + 4 * (unat r + j)" unfolding N e by (simp add: algebra_simps)
    also have "\<dots> = 16 * (f + j * e + 1)" by (simp flip: j)
    finally have "16 dvd N + j * s" by simp
    moreover have "4 - unat r = j" using j by simp
    ultimately show ?thesis by simp
  qed
  consider "r = 0" | "r \<noteq> 0" "s mod 16 = 12" | "r \<noteq> 0" "s mod 16 \<noteq> 12" by blast
  then show ?thesis
  proof cases
    case 1
    then have "16 dvd N" using N by simp
    moreover have "s dvd N" using d by simp
    ultimately show ?thesis using l 1 by (simp add: fit_needs_def flip: N_def s_def)
  next
    case 2
    then show ?thesis using l even_s d mult [of r] S8 r4 by (simp add: fit_needs_def flip: N_def s_def)
  next
    case 3
    then show ?thesis using l odd_s d mult [of "4 - r"] S8 four by (simp add: fit_needs_def flip: N_def s_def)
  qed
qed

lemma calculate_needs_16:
  assumes S: "S \<noteq> 0" and z: "unat S dvd unat z" and r: "unat r < unat z" and bound: "unat z + 16 * unat S + 16 < 2 ^ 64"
  shows "\<exists>l w. calculate_lcm_and_needs_backwards_lcmed S 16 r z = Some (Some (l, w)) \<and> fit_needs S (unat z - unat r) l w"
proof -
  define s where "s = unat S"
  have s0: "0 < s" using S by (simp add: s_def unat_gt_0)
  define cur where "cur = unat r div s * s"
  have cur: "unat (get_truncated_size r S) = cur" "cur \<le> unat r" "s dvd cur"
  proof -
    show "cur \<le> unat r" by (simp add: cur_def)
    then have "cur < 2 ^ 64" using size_t_bound [of r] by linarith
    then have "unat (r div S) * unat S < 2 ^ 64" by (simp add: cur_def s_def unat_div)
    then show "unat (get_truncated_size r S) = cur"
      unfolding get_truncated_size_def by (subst unat_mult_lem') (simp_all add: cur_def s_def unat_div)
    show "s dvd cur" by (simp add: cur_def)
  qed
  define n where "n = z - get_truncated_size r S"
  have n: "unat n = unat z - cur" unfolding n_def using cur r by (simp add: unat_sub word_le_nat_alt)
  have N: "s dvd unat n" "0 < unat n" "unat z - unat r \<le> unat n" "unat n \<le> unat z"
    using n cur r z by (simp_all add: s_def)
  note defs = calculate_lcm_and_needs_backwards_lcmed_def Let_def mask_mod mod_zero_nat
  consider (pow) "S AND (S - 1) = 0" | (s16) "S AND (S - 1) \<noteq> 0" "s mod 16 = 0"
    | (s8) "S AND (S - 1) \<noteq> 0" "s mod 16 \<noteq> 0" "s mod 8 = 0"
    | (s4) "S AND (S - 1) \<noteq> 0" "s mod 16 \<noteq> 0" "s mod 8 \<noteq> 0" "s mod 4 = 0"
    | (other) "S AND (S - 1) \<noteq> 0" "s mod 16 \<noteq> 0" "s mod 8 \<noteq> 0" "s mod 4 \<noteq> 0" by blast
  then show ?thesis
  proof cases
    case pow
    obtain k where k: "S = 2 ^ k" "k < 64" by (rule pow2_by_mask [OF S pow])
    define l where "l = max_value S (16 :: size_t)"
    have sk: "s = 2 ^ k" using k unat_pow2_size by (simp add: s_def)
    have S16: "16 < S \<longleftrightarrow> 4 < k"
      using sk power_strict_increasing_iff [of "2 :: nat" 4 k] by (simp add: word_less_nat_alt s_def)
    have l: "l = 2 ^ max k 4" using k S16 by (auto simp: l_def max_value_def max_def)
    then have ul: "unat l = 2 ^ max k 4" using k unat_pow2_size [of "max k 4"] by simp
    have dv: "s dvd unat l" "16 dvd unat l"
      using le_imp_power_dvd [of 4 "max k 4" "2 :: nat"] unfolding ul sk by (simp_all add: le_imp_power_dvd)
    have "unat l \<le> s + 16" unfolding ul sk by (simp add: max_def)
    then have b: "unat n + unat l \<le> 2 ^ 64" using N(4) bound by (simp add: s_def)
    have "l \<noteq> 0" using ul by (metis power_not_zero unat_0 zero_neq_numeral)
    note w = rounded_multiple [OF N(2) this b]
    have zm: "z AND (S - 1) = 0" using z k word_and_pred_pow2 [of z k] mod_zero_nat [of z S] by (simp add: mod_eq_0_iff_dvd)
    have "calculate_lcm_and_needs_backwards_lcmed S 16 r z = Some (Some (l, get_rounded_size n l))"
      using pow zm po2_rounding(1) [of n "max k 4", folded l] po2_rounding(2) [of r k, folded k(1)]
      by (simp add: calculate_lcm_and_needs_backwards_lcmed_def Let_def n_def flip: l_def)
    moreover have "fit_needs S (unat z - unat r) l (get_rounded_size n l)"
      using w dv N(3) by (auto simp: fit_needs_def s_def intro: dvd_trans)
    ultimately show ?thesis by blast
  next
    case s16
    then show ?thesis using N
      by (auto simp: defs fit_needs_def mod_eq_0_iff_dvd simp flip: n_def s_def intro: dvd_trans)
  next
    case s8
    have m16: "s mod 16 = 8" using s8 by presburger
    obtain d where "unat n = s * d" using N(1) by blast
    moreover obtain e where e: "s = 8 * e" using s8(3) by blast
    ultimately obtain m where "unat n = 8 * m" by auto
    then have n8: "unat n mod 16 = 0 \<or> unat n mod 16 = 8" by presburger
    have S2: "unat (S * 2) = s * 2" "unat (n + S) = unat n + s"
      using bound N(4) by (simp_all add: unat_mult_lem' unat_add_lem' s_def)
    let ?w = "if unat n mod 16 \<noteq> 0 then n + S else n"
    have "calculate_lcm_and_needs_backwards_lcmed S 16 r z = Some (Some (S * 2, ?w))"
      using s8 by (simp add: defs flip: n_def s_def)
    moreover have "fit_needs S (unat z - unat r) (S * 2) ?w"
    proof (cases "unat n mod 16 = 0")
      case True
      then show ?thesis using N S2(1) by (simp add: fit_needs_def dvd_eq_mod_eq_0 [of 16] flip: s_def)
    next
      case False
      then have "unat n mod 16 = 8" using n8 by simp
      then have "16 dvd unat n + s" using m16 by presburger
      then show ?thesis using False N S2 by (simp add: fit_needs_def flip: s_def)
    qed
    ultimately show ?thesis by blast
  next
    case s4
    let ?r = "drop_bit 2 (n AND 15)"
    let ?w = "if ?r \<noteq> 0 then if S AND 8 \<noteq> 0 then n + ?r * S else n + (4 - ?r) * S else n"
    have "S AND 15 \<noteq> 0" "S AND 7 \<noteq> 0" "S AND 3 = 0" using s4 by (simp_all add: mask_mod mod_zero_nat flip: s_def)
    then have "calculate_lcm_and_needs_backwards_lcmed S 16 r z = Some (Some (S * 4, ?w))"
      using s4(1) by (simp add: calculate_lcm_and_needs_backwards_lcmed_def Let_def flip: n_def)
    moreover have "fit_needs S (unat n) (S * 4) ?w"
      by (rule needs_of_multiple) (use s4 N bound in \<open>auto simp flip: s_def\<close>)
    then have "fit_needs S (unat z - unat r) (S * 4) ?w" using N(3) unfolding fit_needs_def by linarith
    ultimately show ?thesis by blast
  next
    case other
    let ?mx = "max_value S (16 :: size_t)" and ?mn = "min_value S (16 :: size_t)"
    have lc: "lcm (unat ?mx) (unat ?mn) = lcm s 16"
      by (cases "16 < S") (auto simp: max_value_def min_value_def s_def lcm.commute dest: less_asym)
    have "lcm s 16 dvd s * 16" by simp
    then have le: "lcm s 16 \<le> s * 16" using s0 by (intro dvd_imp_le) simp_all
    have "lcm (unat ?mx) (unat ?mn) < 2 ^ 64" using le bound unfolding lc by (simp add: s_def)
    moreover have "?mx \<noteq> 0" "?mn \<noteq> 0" using S by (simp_all add: max_value_def min_value_def)
    ultimately obtain l where l: "lcm_w ?mx ?mn = Some l" "unat l = lcm s 16" using lcm_w_correct lc by metis
    have "0 < lcm s 16" using s0 by (intro lcm_pos_nat) simp_all
    then have "l \<noteq> 0" using l(2) by auto
    note w = rounded_multiple [OF N(2) this]
    have b: "unat n + unat l \<le> 2 ^ 64" using le N(4) bound unfolding l(2) by (simp add: s_def)
    have "calculate_lcm_and_needs_backwards_lcmed S 16 r z = Some (Some (l, get_rounded_size n l))"
      using other l(1) by (simp add: calculate_lcm_and_needs_backwards_lcmed_def Let_def mask_mod mod_zero_nat flip: n_def s_def)
    moreover have "fit_needs S (unat z - unat r) l (get_rounded_size n l)"
      using w [OF b] N(3) l(2) by (auto simp: fit_needs_def simp flip: s_def intro: dvd_trans)
    ultimately show ?thesis by blast
  qed
qed

end
