(* ===== verification/Rbtree_Expand.thy ===== *)
theory Rbtree_Expand
  imports Rbtree_Alloc Backwards_Needs
begin

text \<open>
  In-place expansion of the best fit algorithm on the representation: forwards into the free block after the
  buffer, and backwards into the free block before it.
\<close>

section \<open>Forwards\<close>

text \<open>The units of the free block after a block of \<open>n\<close> units at \<open>b\<close>, 0 if that is allocated.\<close>

definition room_after :: "rb_fit \<Rightarrow> nat \<Rightarrow> nat \<Rightarrow> nat" where
  "room_after st b n = (if bk_allocated (rb_heap st (b + 16 * n)) then 0 else bsize st (b + 16 * n))"

lemma user_units_of_request:
  assumes "user_bytes_of n < unat x" "unat x + 16 \<le> 2 ^ 64" "0 < n"
  shows "n \<le> unat (ceil_units (rb_algo I) (x - 8))"
    and "unat (ceil_units (rb_algo I) (x - 8)) \<le> k - 1 \<longleftrightarrow> unat x \<le> user_bytes_of k"
proof -
  have "(8 :: size_t) \<le> x" using assms(1) by (simp add: word_le_nat_alt)
  then have e: "unat (x - 8) = unat x - 8" by (simp add: unat_sub)
  have u: "unat (ceil_units (rb_algo I) (x - 8)) = (unat x - 8 + 15) div 16"
    using rounded_units_nat [of "x - 8"] assms(2) e by (simp add: ceil_units_def rb_algo_def)
  show "n \<le> unat (ceil_units (rb_algo I) (x - 8))"
    unfolding u using assms(1,3) by (subst less_eq_div_iff_mult_less_eq) (auto simp: diff_mult_distrib)
  have "(unat x - 8 + 15) div 16 < Suc (k - 1) \<longleftrightarrow> unat x \<le> user_bytes_of k"
    using assms(1) by (subst div_less_iff_less_mult) auto
  then show "unat (ceil_units (rb_algo I) (x - 8)) \<le> k - 1 \<longleftrightarrow> unat x \<le> user_bytes_of k"
    unfolding u by (simp add: less_Suc_eq_le)
qed

lemma next_free_split:
  assumes rep: "rb_rep lo hi st bs" and b: "(b, n) \<in> allocs lo bs" and f: "\<not> bk_allocated (rb_heap st (b + 16 * n))"
  obtains us vs where "bs = us @ [(n, True), (room_after st b n, False)] @ vs" "b = lo + 16 * units us"
proof -
  obtain us vs where bs: "bs = us @ (n, True) # vs" and x: "b = lo + 16 * units us" by (rule allocs_split [OF b])
  have r: "rb_rep lo hi st ((us @ [(n, True)]) @ vs)" and y: "b + 16 * n = lo + 16 * units (us @ [(n, True)])"
    using rep bs x by simp_all
  obtain q vs' where "vs = (q, False) # vs'" using next_flag(1) [OF r y] f by blast
  moreover from next_flag(2) [OF r y this] have "room_after st b n = q" using f by (simp add: room_after_def)
  ultimately show thesis using that [of us vs'] bs x by simp
qed

text \<open>What lies before the block at \<open>b\<close> is unchanged.\<close>

definition before_same :: "rb_fit \<Rightarrow> rb_fit \<Rightarrow> nat \<Rightarrow> bool" where
  "before_same st st' b \<longleftrightarrow> (\<forall>z<b. rb_heap st' z = rb_heap st z) \<and> bk_prev_size (rb_heap st' b) = bk_prev_size (rb_heap st b)
     \<and> bk_prev_allocated (rb_heap st' b) = bk_prev_allocated (rb_heap st b)"

text \<open>The merge with the next block, of which the first \<open>t - n\<close> units are taken.\<close>

definition taken_after :: "imultiset \<Rightarrow> rb_fit \<Rightarrow> nat \<Rightarrow> nat \<Rightarrow> nat \<Rightarrow> nat \<Rightarrow> rb_fit" where
  "taken_after I st b n q t =
     rb_mark_as_allocated_block
       (if n + q - t \<ge> 3
        then (let st = rb_erase I st (b + 16 * n); r = b + t * 16; st = new_block_ctrl st r;
                  st = rb_set_size st r (n + q - t); st = rb_mark_as_free_block st r; st = rb_insert I st r;
                  st = rb_set_size st b t
              in st\<lparr>rb_allocated := rb_allocated st + (t - n) * 16\<rparr>)
        else (let st = rb_erase I st (b + 16 * n); st = rb_set_size st b (n + q)
              in st\<lparr>rb_allocated := rb_allocated st + (n + q - n) * 16\<rparr>)) b"

lemma taken_after_rep:
  assumes I: "imultiset_ok I" and rep: "rb_rep lo hi st bs" and b: "(b, n) \<in> allocs lo bs"
    and f: "\<not> bk_allocated (rb_heap st (b + 16 * n))"
  defines "q \<equiv> room_after st b n"
  assumes t: "n < t" "t \<le> n + q"
  defines "k \<equiv> if t + 3 \<le> n + q then t else n + q"
  shows "\<exists>bs'. rb_rep lo hi (taken_after I st b n q t) bs' \<and> allocs lo bs' = insert (b, k) (allocs lo bs - {(b, n)})"
    and "bsize (taken_after I st b n q t) b = k" and "same_place st (taken_after I st b n q t)"
    and "before_same st (taken_after I st b n q t) b"
proof -
  obtain us vs where bs: "bs = us @ [(n, True), (q, False)] @ vs" and x: "b = lo + 16 * units us"
    unfolding q_def by (rule next_free_split [OF rep b f])
  note rep' = rep [unfolded bs]
  note s = rep_seg [OF rep' x]
  define ms where "ms = (if t + 3 \<le> n + q then [(t, True), (n + q - t, False)] else [(n + q, True)])"
  have n3: "3 \<le> n" and q3: "3 \<le> q" and size: "bsize st b = n" "bsize st (b + 16 * n) = q" using s(2) by auto
  have fr: "distinct (rb_free st)" "b + 16 * n \<in> set (rb_free st)" "sorted (map (bsize st) (rb_free st))"
    using rep' x by (auto simp: rb_rep_def image_Un algebra_simps)
  note er = erase_facts [OF I fr(1,2)]
  have other: "z \<in> set (im_erase I (b + 16 * n) (rb_free st)) \<Longrightarrow> z < b \<or> b + 16 * (n + q) \<le> z" for z
    using rest_of_free(1) [OF rep' x, of z] er(2) by auto
  let ?r = "b + 16 * t" and ?e = "b + 16 * (n + q)" and ?xs = "im_erase I (b + 16 * n) (rb_free st)"
  define st' where "st' = taken_after I st b n q t"
  have U: "units ms = n + q" using t by (simp add: ms_def)
  have pl: "same_place st st'" by (simp add: st'_def taken_after_def Let_def)
  have kk: "bsize st' b = k" using t n3 by (auto simp: st'_def taken_after_def Let_def rb_read k_def)
  have seg: "rb_seg (rb_heap st') b ms"
    and out: "z < b \<or> ?e < z \<Longrightarrow> rb_heap st' z = rb_heap st z"
    and bef: "bk_prev_size (rb_heap st' b) = bk_prev_size (rb_heap st b)"
      "bk_prev_allocated (rb_heap st' b) = bk_prev_allocated (rb_heap st b)"
    and aft: "bsize st' ?e = bsize st ?e" "bk_allocated (rb_heap st' ?e) = bk_allocated (rb_heap st ?e)" for z
    using t n3 q3 by (auto simp: st'_def taken_after_def Let_def rb_read ms_def says_def intro!: block_eqI)
  have al: "rb_allocated st' + 16 * n = rb_allocated st + 16 * k"
    using t by (auto simp: st'_def taken_after_def Let_def rb_read k_def)
  have rest: "z \<in> set ?xs \<Longrightarrow> bsize st' z = bsize st z" for z
    using t n3 other [of z] by (auto simp: st'_def taken_after_def Let_def rb_read)
  have free: "distinct (rb_free st') \<and> set (rb_free st') = set ?xs \<union> fst ` frees b ms \<and> sorted (map (bsize st') (rb_free st'))"
  proof (cases "t + 3 \<le> n + q")
    case True
    let ?sz = "\<lambda>z. if z = ?r then n + q - t else bsize st z"
    have e: "rb_free st' = im_insert I ?sz ?r ?xs"
      using diff_le_mono [OF True, of t] t n3
      by (simp add: st'_def taken_after_def Let_def rb_read mult.commute cong: if_cong)
    have new: "?r \<notin> set ?xs" using other [of ?r] True t by auto
    have so: "sorted (map ?sz ?xs)"
      using er(3) [OF fr(3)] new by (subst sorted_sizes_cong [where g = "bsize st"]) auto
    note ins = insert_facts [OF I so er(1) new, folded e]
    have "bsize st' z = ?sz z" if "z \<in> set (rb_free st')" for z
      using that ins(2) other [of z] True t n3 by (auto simp: st'_def taken_after_def Let_def rb_read)
    then have "sorted (map (bsize st') (rb_free st'))"
      using ins(3) by (subst sorted_sizes_cong [where g = ?sz]) auto
    then show ?thesis using ins(1,2) True by (auto simp: ms_def)
  next
    case False
    then have "\<not> 3 \<le> n + q - t" by simp
    then have e: "rb_free st' = ?xs" by (simp add: st'_def taken_after_def Let_def rb_read)
    then show ?thesis using er(1) er(3) [OF fr(3)] rest False sorted_sizes_cong [of ?xs "bsize st'" "bsize st"]
      by (auto simp: ms_def)
  qed
  have "rb_rep lo hi st' (us @ ms @ vs)"
  proof (rule rep_replace [OF rep' x refl])
    show "isolated (last_alloc True us) (ms @ vs)" using s(4) by (auto simp: ms_def intro: isolated_weaken)
    show "set (rb_free st') = set (rb_free st) - fst ` frees b [(n, True), (q, False)] \<union> fst ` frees b ms"
      using free er(2) by simp
    show "rb_allocated st' + 16 * alloc_units [(n, True), (q, False)] = rb_allocated st + 16 * alloc_units ms"
      using al t by (simp add: ms_def k_def)
  qed (use U free seg out bef aft in \<open>simp_all add: algebra_simps\<close>)
  moreover have "allocs lo (us @ ms @ vs) = insert (b, k) (allocs lo bs - {(b, n)})"
    using allocs_replace [OF rep' x, of ms] U by (simp add: bs ms_def k_def)
  ultimately show "\<exists>bs'. rb_rep lo hi (taken_after I st b n q t) bs' \<and> allocs lo bs' = insert (b, k) (allocs lo bs - {(b, n)})"
    unfolding st'_def by blast
  show "bsize (taken_after I st b n q t) b = k" "same_place st (taken_after I st b n q t)"
    "before_same st (taken_after I st b n q t) b"
    using kk pl out bef by (simp_all add: before_same_def flip: st'_def)
qed


lemma priv_expand_rep:
  assumes I: "imultiset_ok I" and rep: "rb_rep lo hi st bs" and b: "(b, n) \<in> allocs lo bs"
    and le: "mn \<le> pf" and bound: "unat pf + 16 \<le> 2 ^ 64"
  defines "q \<equiv> room_after st b n"
  shows "\<exists>st' ok r. rb_priv_expand I st (b + 16) mn pf = (st', ok, r) \<and> (ok \<longleftrightarrow> unat mn \<le> user_bytes_of (n + q))
    \<and> (if ok then \<exists>k bs'. n \<le> k \<and> k \<le> n + q \<and> r = user_bytes_of k \<and> unat mn \<le> r
          \<and> (unat mn \<le> user_bytes_of n \<longrightarrow> st' = st)
          \<and> (user_bytes_of n < unat mn \<longrightarrow> unat pf \<le> r \<or> k = n + q)
          \<and> rb_rep lo hi st' bs' \<and> allocs lo bs' = insert (b, k) (allocs lo bs - {(b, n)}) \<and> same_place st st'
          \<and> before_same st st' b
       else st' = st \<and> r = user_bytes_of (n + q))"
proof -
  have r: "bsize st b = n" "3 \<le> n" using alloc_range [of "rb_heap st" lo bs b n] rep b by (auto simp: rb_rep_def)
  have same: "insert (b, n) (allocs lo bs - {(b, n)}) = allocs lo bs" using b by auto
  have mnpf: "unat mn \<le> unat pf" using le by (simp add: word_le_nat_alt)
  consider (enough) "unat mn \<le> user_bytes_of n" | (closed) "user_bytes_of n < unat mn" "bk_allocated (rb_heap st (b + 16 * n))"
    | (small) "user_bytes_of (n + q) < unat mn" "\<not> bk_allocated (rb_heap st (b + 16 * n))"
    | (merge) "user_bytes_of n < unat mn" "unat mn \<le> user_bytes_of (n + q)" "\<not> bk_allocated (rb_heap st (b + 16 * n))"
    by linarith
  then show ?thesis
  proof cases
    case enough
    then have e: "rb_priv_expand I st (b + 16) mn pf = (st, True, user_bytes_of n)"
      using r by (simp add: rb_priv_expand_def Let_def)
    have "unat mn \<le> user_bytes_of (n + q)" using enough by (simp add: le_trans)
    moreover have "before_same st st b" by (simp add: before_same_def)
    ultimately show ?thesis using enough rep same
      by (intro exI [of _ st] exI [of _ True] exI [of _ "user_bytes_of n"])
        (simp only: e simp_thms if_True, intro exI [of _ n] exI [of _ bs], simp)
  next
    case closed
    then show ?thesis using r mnpf by (auto simp: rb_priv_expand_def Let_def rb_read q_def room_after_def)
  next
    case small
    have "bsize st (b + 16 * n) = q" using small(2) by (simp add: q_def room_after_def)
    moreover have lt: "user_bytes_of n < unat mn" using small(1) r by simp
    moreover have "\<not> unat (ceil_units (rb_algo I) (mn - 8)) \<le> n + q - 1"
      using user_units_of_request(2) [OF lt _ , of I "n + q"] small(1) bound mnpf r by auto
    moreover have "n + q \<noteq> 0" using r by simp
    ultimately have "rb_priv_expand I st (b + 16) mn pf = (st, False, user_bytes_of (n + q))"
      using r small(2) mnpf by (simp add: rb_priv_expand_def Let_def rb_read diff_mult_distrib)
    then show ?thesis using small(1) by auto
  next
    case merge
    have q: "bsize st (b + 16 * n) = q" using merge(3) by (simp add: q_def room_after_def)
    define pu where "pu = unat (ceil_units (rb_algo I) (pf - 8))"
    define t where "t = 1 + (if n + q - 1 < pu then n + q - 1 else pu)"
    have lt: "user_bytes_of n < unat pf" using merge(1) mnpf by simp
    have npu: "n \<le> pu" "pu \<le> j - 1 \<longleftrightarrow> unat pf \<le> user_bytes_of j" for j
      using user_units_of_request [OF lt bound, of I] r unfolding pu_def by auto
    have mu: "unat (ceil_units (rb_algo I) (mn - 8)) \<le> n + q - 1"
      using user_units_of_request(2) [OF merge(1), of I "n + q"] merge(2) bound mnpf r by auto
    have t: "n < t" "t \<le> n + q" using npu(1) merge(1,2) r by (auto simp: t_def) 
    let ?k = "if t + 3 \<le> n + q then t else n + q"
    note tk = taken_after_rep [OF I rep b merge(3), folded q_def, OF t]
    have iu: "(if n + q - 1 < pu then n + q - 1 else pu) = t - 1" "0 < t" by (simp_all add: t_def)
    have c: "b + 16 - 16 = b" "\<not> user_bytes_of n \<ge> unat pf" "\<not> user_bytes_of n \<ge> unat mn"
      "\<not> rb_is_allocated_block st (b + 16 * n)" "rb_next_block st b = b + 16 * n"
      "\<not> n + q - 1 < unat (ceil_units (rb_algo I) (mn - 8))" "1 + (t - 1) = t" "t - 1 + 1 = t"
      using merge(1,3) lt mu r iu(2) by (simp_all add: rb_read)
    have "rb_priv_expand I st (b + 16) mn pf =
      (taken_after I st b n q t, True, user_bytes_of (bsize (taken_after I st b n q t) b))"
      unfolding rb_priv_expand_def Let_def c(1,5) r q pu_def [symmetric] iu(1) taken_after_def c(7,8)
      using c(2,3,4,6) by (simp only: simp_thms if_False)
    then have e: "rb_priv_expand I st (b + 16) mn pf = (taken_after I st b n q t, True, user_bytes_of ?k)"
      unfolding tk(2) .
    obtain bs' where bs': "rb_rep lo hi (taken_after I st b n q t) bs'" "allocs lo bs' = insert (b, ?k) (allocs lo bs - {(b, n)})"
      using tk(1) by blast
    have "unat pf \<le> user_bytes_of ?k \<or> ?k = n + q"
      using npu(2) [of ?k] by (auto simp: t_def)
    moreover have "unat mn \<le> user_bytes_of ?k" using calculation mnpf merge(2) by auto
    ultimately show ?thesis using merge(1,2) bs' tk(3,4) t
      by (intro exI [of _ "taken_after I st b n q t"] exI [of _ True] exI [of _ "user_bytes_of ?k"])
        (simp only: e simp_thms if_True, intro exI [of _ ?k] exI [of _ bs'], auto)
  qed
qed


section \<open>Backwards\<close>

lemma prev_free_split:
  assumes rep: "rb_rep lo hi st bs" and b: "(b, n) \<in> allocs lo bs" and f: "\<not> bk_prev_allocated (rb_heap st b)"
  obtains us vs p x where "bs = us @ [(p, False), (n, True)] @ vs" "x = lo + 16 * units us" "b = x + 16 * p"
    "rb_prev_block st b = x" "bsize st x = p" "bsize st b = n" "3 \<le> p" "3 \<le> n"
proof -
  obtain us0 vs where bs: "bs = us0 @ (n, True) # vs" and b0: "b = lo + 16 * units us0" by (rule allocs_split [OF b])
  have "\<not> last_alloc True us0" using prev_flag(1) [OF rep [unfolded bs] b0] f by simp
  from prev_flag(2) [OF rep [unfolded bs] b0 this] obtain us p where us: "us0 = us @ [(p, False)]" "bk_prev_size (rb_heap st b) = p"
    by blast
  define x where "x = lo + 16 * units us"
  have bs': "bs = us @ [(p, False), (n, True)] @ vs" and bx: "b = x + 16 * p" using bs us b0 by (simp_all add: x_def)
  have s: "bsize st x = p" "bsize st b = n" "3 \<le> p" "3 \<le> n" using rep_seg(2) [OF rep [unfolded bs'] x_def] bx by auto
  show thesis by (rule that [OF bs' x_def bx _ s]) (simp add: rb_read us(2), simp add: bx)
qed

text \<open>The free block before has shrunk: it stays where it is in the multiset if its predecessor is not larger.\<close>

definition reposition :: "imultiset \<Rightarrow> rb_fit \<Rightarrow> nat \<Rightarrow> rb_fit" where
  "reposition I st x =
     (let it = position x (rb_free st)
      in if it \<noteq> 0 \<and> bsize st (rb_free st ! (it - 1)) > bsize st x
         then (let st = rb_erase I st x in st\<lparr>rb_free := im_insert_hint I (bsize st) 0 x (rb_free st)\<rparr>)
         else st)"

lemma reposition_reads [rb_read]:
  "rb_heap (reposition I st x) = rb_heap st" "rb_allocated (reposition I st x) = rb_allocated st"
  "same_place s (reposition I st x) = same_place s st"
  by (simp_all add: reposition_def Let_def rb_erase_def same_place_def)

lemma reposition_free:
  assumes I: "imultiset_ok I" and d: "distinct (rb_free st)" and x: "x \<in> set (rb_free st)"
    and so: "sorted (map f (rb_free st))" and f: "\<And>z. z \<in> set (rb_free st) \<Longrightarrow> z \<noteq> x \<Longrightarrow> bsize st z = f z" "bsize st x \<le> f x"
  shows "distinct (rb_free (reposition I st x))" "set (rb_free (reposition I st x)) = set (rb_free st)"
    "sorted (map (bsize st) (rb_free (reposition I st x)))"
proof -
  let ?xs = "rb_free st"
  obtain us vs where s: "?xs = us @ x # vs" "x \<notin> set us" using split_list_first [OF x] by blast
  have p: "position x ?xs = length us" unfolding s(1) using s(2) by (induction us) auto
  let ?move = "us \<noteq> [] \<and> bsize st (last us) > bsize st x"
  have c: "(position x ?xs \<noteq> 0 \<and> bsize st (?xs ! (position x ?xs - 1)) > bsize st x) = ?move"
    unfolding p unfolding s(1) by (cases us rule: rev_cases) (auto simp: nth_append)
  have "distinct (rb_free (reposition I st x)) \<and> set (rb_free (reposition I st x)) = set ?xs
    \<and> sorted (map (bsize st) (rb_free (reposition I st x)))"
  proof (cases ?move)
    case True
    note er = erase_facts [OF I d x]
    have r: "rb_free (reposition I st x) = im_insert_hint I (bsize st) 0 x (im_erase I x ?xs)"
      using True c by (simp add: reposition_def Let_def rb_erase_def)
    have "sorted (map (bsize st) (im_erase I x ?xs))"
      using er(3) [OF so] er(2) f(1) by (subst sorted_sizes_cong [where g = f]) auto
    from insert_hint_facts [OF I this er(1), of x 0] show ?thesis unfolding r using er(2) x by auto
  next
    case False
    then have r: "rb_free (reposition I st x) = ?xs" unfolding reposition_def Let_def c by auto
    have eq: "map (bsize st) us = map f us" "map (bsize st) vs = map f vs" using f(1) s d by auto
    have "\<forall>y\<in>set us. f y \<le> bsize st x"
    proof
      fix y assume y: "y \<in> set us"
      then have "us \<noteq> []" by auto
      have "sorted (map f us)" using so s(1) by (simp add: sorted_wrt_append)
      then have "f y \<le> f (last us)" using y \<open>us \<noteq> []\<close> by (cases us rule: rev_cases) (auto simp: sorted_wrt_append)
      also have "f (last us) = bsize st (last us)" using f(1) [of "last us"] s d \<open>us \<noteq> []\<close> by (metis Un_iff last_in_set set_append)
      finally show "f y \<le> bsize st x" using False \<open>us \<noteq> []\<close> by linarith
    qed
    moreover have "\<forall>y\<in>set vs. bsize st x \<le> f y" using so s(1) f(2) by (auto simp: sorted_append intro: order_trans)
    ultimately have "sorted (map (bsize st) ?xs)"
      using so unfolding s(1) map_append list.map eq by (auto simp: sorted_append)
    then show ?thesis unfolding r using d by blast
  qed
  then show "distinct (rb_free (reposition I st x))" "set (rb_free (reposition I st x)) = set ?xs"
    "sorted (map (bsize st) (rb_free (reposition I st x)))" by blast+
qed

definition split_before :: "imultiset \<Rightarrow> rb_fit \<Rightarrow> nat \<Rightarrow> nat \<Rightarrow> nat \<Rightarrow> rb_fit" where
  "split_before I st b n d =
     (let prev = rb_prev_block st b; nb = b - 16 * d;
          st = rb_mark_as_allocated_block (rb_set_size st nb (n + d)) nb;
          st = rb_mark_as_free_block (rb_set_size st prev ((nb - prev) div 16)) prev;
          st = reposition I st prev
      in st\<lparr>rb_allocated := rb_allocated st + 16 * d\<rparr>)"

lemma split_before_rep:
  assumes I: "imultiset_ok I" and rep: "rb_rep lo hi st bs" and b: "(b, n) \<in> allocs lo bs"
    and f: "\<not> bk_prev_allocated (rb_heap st b)" and d: "d + 3 \<le> bsize st (rb_prev_block st b)"
  shows "\<exists>bs'. rb_rep lo hi (split_before I st b n d) bs'
    \<and> allocs lo bs' = insert (b - 16 * d, n + d) (allocs lo bs - {(b, n)})"
    and "same_place st (split_before I st b n d)"
proof -
  obtain us vs p x where bs: "bs = us @ [(p, False), (n, True)] @ vs" and x: "x = lo + 16 * units us" and bx: "b = x + 16 * p"
    and pb: "rb_prev_block st b = x" and sz: "bsize st x = p" "bsize st b = n" "3 \<le> p" "3 \<le> n"
    by (rule prev_free_split [OF rep b f])
  define nb where "nb = x + 16 * (p - d)"
  have dp: "d + 3 \<le> p" using d pb sz by simp
  have nb: "b - 16 * d = nb" "(nb - x) div 16 = p - d" "nb + 16 * (n + d) = b + 16 * n" "x < nb"
    using dp by (simp_all add: nb_def bx)
  note rep' = rep [unfolded bs]
  note s = rep_seg [OF rep' x]
  define st1 where "st1 = rb_mark_as_free_block (rb_set_size (rb_mark_as_allocated_block (rb_set_size st nb (n + d)) nb) x (p - d)) x"
  define st' where "st' = split_before I st b n d"
  have st': "st' = (reposition I st1 x)\<lparr>rb_allocated := rb_allocated (reposition I st1 x) + 16 * d\<rparr>"
    by (simp add: st'_def split_before_def Let_def pb nb st1_def)
  have e1: "x + 16 * (p - d) = nb" by (simp add: nb_def)
  have e2: "nb + (16 * n + 16 * d) = b + 16 * n" using nb(3) by simp
  have h1: "bsize st1 z = (if z = x then p - d else if z = nb then n + d else bsize st z)"
    "bk_allocated (rb_heap st1 z) = (z \<noteq> x \<and> (z = nb \<or> bk_allocated (rb_heap st z)))"
    "bk_prev_allocated (rb_heap st1 z) = (z \<noteq> nb \<and> (z = b + 16 * n \<or> bk_prev_allocated (rb_heap st z)))"
    "bk_prev_size (rb_heap st1 z) = (if z = nb then p - d else bk_prev_size (rb_heap st z))" for z
    using nb(4) by (simp_all add: st1_def rb_read e1 e2)
  have fr: "distinct (rb_free st)" "x \<in> set (rb_free st)" "sorted (map (bsize st) (rb_free st))"
    using rep' x by (auto simp: rb_rep_def)
  have other: "z \<in> set (rb_free st) \<Longrightarrow> z \<noteq> x \<Longrightarrow> z < x \<or> b + 16 * n \<le> z" for z
    using rest_of_free(1) [OF rep' x, of z] bx by auto
  have f1: "rb_free st1 = rb_free st" and a1: "rb_allocated st1 = rb_allocated st" by (simp_all add: st1_def rb_read)
  have "z \<in> set (rb_free st1) \<Longrightarrow> z \<noteq> x \<Longrightarrow> bsize st1 z = bsize st z" for z
    using other [of z] nb(3,4) f1 sz(4) by (auto simp: h1)
  note rp = reposition_free [OF I, of st1 x "bsize st", unfolded f1, OF fr this [unfolded f1]]
  have rp': "bsize st1 x \<le> bsize st x" by (simp add: h1 sz)
  have u: "units [(p - d, False), (n + d, True)] = p + n" using dp by simp
  have rep2: "rb_rep lo hi st' (us @ [(p - d, False), (n + d, True)] @ vs)"
  proof (rule rep_replace [OF rep' x refl])
    show "rb_seg (rb_heap st') x [(p - d, False), (n + d, True)]"
      using nb sz dp e1 by (simp add: st' rb_read h1 says_def)
    show "isolated (last_alloc True us) ([(p - d, False), (n + d, True)] @ vs)" using s(4) by simp
    show "set (rb_free st') = set (rb_free st) - fst ` frees x [(p, False), (n, True)] \<union> fst ` frees x [(p - d, False), (n + d, True)]"
      using rp(2) [OF _ _ rp'] fr(2) by (auto simp: st')
    show "distinct (rb_free st')" "sorted (map (bsize st') (rb_free st'))"
      using rp(1,3) [OF _ _ rp'] by (simp_all add: st' rb_read)
    show "rb_heap st' z = rb_heap st z" if "z < x \<or> x + 16 * units [(p, False), (n, True)] < z" for z
      using that nb(3,4) bx dp by (intro block_eqI) (auto simp: st' rb_read h1 nb_def)
  qed (use nb bx dp sz a1 in \<open>auto simp: st' rb_read h1 algebra_simps\<close>)
  moreover have "allocs lo (us @ [(p - d, False), (n + d, True)] @ vs) = insert (nb, n + d) (allocs lo bs - {(b, n)})"
    using allocs_replace [OF rep' x, of "[(p - d, False), (n + d, True)]"] u by (simp add: bs bx e1)
  ultimately show "\<exists>bs'. rb_rep lo hi (split_before I st b n d) bs'
    \<and> allocs lo bs' = insert (b - 16 * d, n + d) (allocs lo bs - {(b, n)})"
    unfolding st'_def nb(1) by blast
  show "same_place st (split_before I st b n d)" by (simp add: split_before_def Let_def rb_read)
qed


definition whole_before :: "imultiset \<Rightarrow> rb_fit \<Rightarrow> nat \<Rightarrow> rb_fit" where
  "whole_before I st b =
     (let prev = rb_prev_block st b; st = rb_erase I st prev;
          st = st\<lparr>rb_allocated := rb_allocated st + bsize st prev * 16\<rparr>;
          st = rb_set_size st prev (bsize st prev + bsize st b)
      in rb_mark_as_allocated_block st prev)"

lemma whole_before_rep:
  assumes I: "imultiset_ok I" and rep: "rb_rep lo hi st bs" and b: "(b, n) \<in> allocs lo bs"
    and f: "\<not> bk_prev_allocated (rb_heap st b)"
  defines "x \<equiv> rb_prev_block st b" and "p \<equiv> bsize st (rb_prev_block st b)"
  shows "\<exists>bs'. rb_rep lo hi (whole_before I st b) bs' \<and> allocs lo bs' = insert (x, p + n) (allocs lo bs - {(b, n)})"
    and "same_place st (whole_before I st b)" and "b = x + 16 * p" "lo \<le> x"
proof -
  obtain us vs p' x' where bs: "bs = us @ [(p', False), (n, True)] @ vs" and x: "x' = lo + 16 * units us" and bx: "b = x' + 16 * p'"
    and pb: "rb_prev_block st b = x'" and sz: "bsize st x' = p'" "bsize st b = n" "3 \<le> p'" "3 \<le> n"
    by (rule prev_free_split [OF rep b f])
  have xx: "x' = x" "p' = p" using pb sz by (simp_all add: x_def p_def)
  note bs = bs [unfolded xx] and x = x [unfolded xx] and bx = bx [unfolded xx] and sz = sz [unfolded xx] and pb = pb [unfolded xx]
  note rep' = rep [unfolded bs]
  note s = rep_seg [OF rep' x]
  define st' where "st' = whole_before I st b"
  have eq: "st' = rb_mark_as_allocated_block
      (rb_set_size ((rb_erase I st x)\<lparr>rb_allocated := rb_allocated st + p * 16\<rparr>) x (p + n)) x"
    unfolding st'_def whole_before_def Let_def pb using sz by (simp add: read_multiset)
  have h: "bsize st' z = (if z = x then p + n else bsize st z)"
    "bk_allocated (rb_heap st' z) = (z = x \<or> bk_allocated (rb_heap st z))"
    "bk_prev_allocated (rb_heap st' z) = (z = x + 16 * (p + n) \<or> bk_prev_allocated (rb_heap st z))"
    "bk_prev_size (rb_heap st' z) = bk_prev_size (rb_heap st z)"
    "rb_free st' = im_erase I x (rb_free st)" "rb_allocated st' = rb_allocated st + p * 16" for z
    by (simp_all add: eq rb_read)
  have fr: "distinct (rb_free st)" "x \<in> set (rb_free st)" "sorted (map (bsize st) (rb_free st))"
    using rep' x by (auto simp: rb_rep_def)
  note er = erase_facts [OF I fr(1,2)]
  have so: "sorted (map (bsize st') (rb_free st'))"
    using er(2) er(3) [OF fr(3)] unfolding h(5) by (subst sorted_sizes_cong [where g = "bsize st"]) (auto simp: h)
  have "rb_rep lo hi st' (us @ [(p + n, True)] @ vs)"
  proof (rule rep_replace [OF rep' x refl])
    show "rb_seg (rb_heap st') x [(p + n, True)]" using sz by (simp add: h says_def)
    show "isolated (last_alloc True us) ([(p + n, True)] @ vs)" using s(4) by simp
    show "set (rb_free st') = set (rb_free st) - fst ` frees x [(p, False), (n, True)] \<union> fst ` frees x [(p + n, True)]"
      using er(2) by (simp add: h)
  qed (use so er(1) sz in \<open>auto simp: h intro!: block_eqI\<close>)
  moreover have "allocs lo (us @ [(p + n, True)] @ vs) = insert (x, p + n) (allocs lo bs - {(b, n)})"
    using allocs_replace [OF rep' x, of "[(p + n, True)]"] by (simp add: bs bx)
  ultimately show "\<exists>bs'. rb_rep lo hi (whole_before I st b) bs' \<and> allocs lo bs' = insert (x, p + n) (allocs lo bs - {(b, n)})"
    unfolding st'_def by blast
  show "same_place st (whole_before I st b)" by (simp add: whole_before_def Let_def)
  show "b = x + 16 * p" "lo \<le> x" by (simp_all add: bx x)
qed


text \<open>A block and its end lie in the address space, so the sizes of buffers do not wrap.\<close>

lemma rep_bounds:
  assumes "rb_rep lo hi st bs" "(b, n) \<in> allocs lo bs"
  shows "user_bytes_of n + 16 < 2 ^ 64" "3 \<le> n" "bsize st b = n" "lo \<le> b" "0 < lo" "b + 16 * n \<le> hi"
    "b mod 16 = 0" "hi + 16 \<le> 2 ^ 64"
proof -
  have r: "lo \<le> b \<and> b + 16 * n \<le> lo + 16 * units bs \<and> 3 \<le> n \<and> bsize st b = n \<and> (b - lo) mod 16 = 0"
    using alloc_range [of "rb_heap st" lo bs b n] assms by (auto simp: rb_rep_def)
  moreover have h: "hi = lo + 16 * units bs" "hi + 16 \<le> 2 ^ 64" "0 < lo" "lo mod 16 = 0" using assms(1) by (auto simp: rb_rep_def)
  ultimately show "user_bytes_of n + 16 < 2 ^ 64" "3 \<le> n" "bsize st b = n" "lo \<le> b" "0 < lo" "b + 16 * n \<le> hi"
    "hi + 16 \<le> 2 ^ 64" by auto
  have "b mod 16 = (lo + (b - lo)) mod 16" using r by simp
  also have "\<dots> = 0" using r h(4) by (metis add_0 mod_add_left_eq mod_mod_trivial)
  finally show "b mod 16 = 0" .
qed

lemma room_bounds:
  assumes rep: "rb_rep lo hi st bs" and b: "(b, n) \<in> allocs lo bs"
  shows "user_bytes_of (n + room_after st b n) + 16 < 2 ^ 64"
proof (cases "bk_allocated (rb_heap st (b + 16 * n))")
  case True
  then show ?thesis using rep_bounds(1) [OF assms] by (simp add: room_after_def)
next
  case False
  obtain us vs where bs: "bs = us @ [(n, True), (room_after st b n, False)] @ vs" "b = lo + 16 * units us"
    by (rule next_free_split [OF rep b False])
  have "hi = b + 16 * (n + room_after st b n) + 16 * units vs" "hi + 16 \<le> 2 ^ 64" "0 < lo"
    using rep bs by (simp_all add: rb_rep_def)
  moreover have "3 \<le> n" using rep_bounds(2) [OF assms] .
  ultimately show ?thesis by simp
qed

lemma expand_backwards_rep:
  fixes fwd :: bool
  assumes I: "imultiset_ok I" and rep: "rb_rep lo hi st bs" and b: "(b, n) \<in> allocs lo bs"
    and f: "\<not> bk_prev_allocated (rb_heap st b)" and w: "16 dvd unat w"
  defines "t \<equiv> n + (if fwd then room_after st b n else 0)"
  shows "\<exists>st' ptr r a k bs'. expand_backwards I st fwd (user_bytes_of t) (b + 16) l w = (st', ptr, r)
    \<and> rb_rep lo hi st' bs' \<and> allocs lo bs' = insert (a, k) (allocs lo bs - {(b, n)}) \<and> same_place st st'
    \<and> (if ptr = 0 then a = b \<and> n \<le> k
       else ptr = a + 16 \<and> r = user_bytes_of k \<and> a \<le> b \<and> a + 16 * k = b + 16 * t
         \<and> unat w + user_bytes_of t \<le> r \<and> (b - a = unat w \<or> (b - a) mod unat l = 0))"
proof -
  define x where "x = rb_prev_block st b"
  define p where "p = bsize st x"
  have same: "insert (b, n) (allocs lo bs - {(b, n)}) = allocs lo bs" using b by auto
  obtain d where d: "unat w = 16 * d" using w by blast
  note bd = rep_bounds [OF rep b]
  have bx: "b = x + 16 * p" "lo \<le> x" using whole_before_rep(3,4) [OF I rep b f] by (simp_all add: x_def p_def)
  show ?thesis
  proof (cases "p * 16 \<ge> unat w")
    case False
    then have "expand_backwards I st fwd (user_bytes_of t) (b + 16) l w = (st, 0, user_bytes_of t)"
      by (simp add: expand_backwards_def Let_def x_def p_def)
    then show ?thesis using rep same by (metis order_refl same_place_refl)
  next
    case True
    define st1 where "st1 = (if fwd then fst (rb_priv_expand I st (b + 16) (of_nat (user_bytes_of t)) (of_nat (user_bytes_of t))) else st)"
    have "\<exists>bs1. rb_rep lo hi st1 bs1 \<and> allocs lo bs1 = insert (b, t) (allocs lo bs - {(b, n)}) \<and> same_place st st1
      \<and> before_same st st1 b"
    proof (cases fwd)
      case True
      then have t: "t = n + room_after st b n" by (simp add: t_def)
      have rb: "user_bytes_of t + 16 < 2 ^ 64" using room_bounds [OF rep b] unfolding t .
      define v :: size_t where "v = of_nat (user_bytes_of t)"
      have u: "unat v = user_bytes_of t" unfolding v_def using rb by (intro unat_of_nat_size) linarith
      have s1: "st1 = fst (rb_priv_expand I st (b + 16) v v)" using True by (simp add: st1_def v_def)
      have vb: "unat v + 16 \<le> 2 ^ 64" using rb u by simp
      obtain st' ok r where "rb_priv_expand I st (b + 16) v v = (st', ok, r)" and ok: "ok"
        and e: "\<exists>k bs'. n \<le> k \<and> k \<le> t \<and> r = user_bytes_of k \<and> unat v \<le> r
          \<and> (unat v \<le> user_bytes_of n \<longrightarrow> st' = st) \<and> (user_bytes_of n < unat v \<longrightarrow> unat v \<le> r \<or> k = t)
          \<and> rb_rep lo hi st' bs' \<and> allocs lo bs' = insert (b, k) (allocs lo bs - {(b, n)}) \<and> same_place st st'
          \<and> before_same st st' b"
        using priv_expand_rep [OF I rep b order_refl vb, folded t] u by (metis order_refl)
      then obtain k bs1 where k: "k \<le> t" "user_bytes_of t \<le> user_bytes_of k" "rb_rep lo hi st1 bs1"
          "allocs lo bs1 = insert (b, k) (allocs lo bs - {(b, n)})" "same_place st st1" "before_same st st1 b"
        using s1 u by auto
      have "3 \<le> t" using bd(2) t by simp
      then have "k = t" using k(1,2) by linarith
      then show ?thesis using k by blast
    next
      case False
      then show ?thesis using rep same by (auto simp: st1_def t_def before_same_def)
    qed
    then obtain bs1 where r1: "rb_rep lo hi st1 bs1" "allocs lo bs1 = insert (b, t) (allocs lo bs - {(b, n)})"
      "same_place st st1" "before_same st st1 b" by blast
    have b1: "(b, t) \<in> allocs lo bs1" using r1(2) by simp
    have nm: "(b, t) \<notin> allocs lo bs - {(b, n)}"
      using alloc_range [of "rb_heap st" lo bs b t] bd(3) rep by (auto simp: rb_rep_def)
    have x1: "rb_prev_block st1 b = x" "bsize st1 x = p" "\<not> bk_prev_allocated (rb_heap st1 b)"
    proof -
      show 1: "rb_prev_block st1 b = x" using r1(4) by (simp add: before_same_def rb_prev_block_def x_def)
      show 3: "\<not> bk_prev_allocated (rb_heap st1 b)" using f r1(4) by (simp add: before_same_def)
      show "bsize st1 x = p" using r1(4) bx whole_before_rep(3) [OF I r1(1) b1 3] 1
        by (cases "p = 0") (auto simp: before_same_def p_def)
    qed
    let ?rest = "allocs lo bs - {(b, n)}"
    have al: "insert c (allocs lo bs1 - {(b, t)}) = insert c ?rest" for c using r1(2) nm by auto
    have ts: "bsize st1 b = t" "3 \<le> t" using rep_bounds(2,3) [OF r1(1) b1] by blast+
    have c: "b + 16 - 16 = b" "unat w div 16 = d" "b - unat w = b - 16 * d"
      "1 + (unat w + (user_bytes_of t - 8)) div 16 = t + d" "rb_prev_block st b = x" "bsize st x = p"
      using ts(2) by (simp_all add: d x_def p_def)
    have ex: "expand_backwards I st fwd (user_bytes_of t) (b + 16) l w =
      (if p \<ge> d + 3 then (split_before I st1 b t d, b - 16 * d + 16, unat w + user_bytes_of t)
       else if p \<ge> d \<and> p * 16 mod unat l = 0
       then (whole_before I st1 b, x + 16, user_bytes_of t + p * 16) else (st1, 0, user_bytes_of t))"
      unfolding expand_backwards_def Let_def c split_before_def whole_before_def reposition_def x1(1) st1_def [symmetric]
      using True x1(2) by (simp add: d read_multiset mult.commute)
    consider (split) "p \<ge> d + 3" | (whole) "\<not> p \<ge> d + 3" "p \<ge> d \<and> p * 16 mod unat l = 0"
      | (none) "\<not> p \<ge> d + 3" "\<not> (p \<ge> d \<and> p * 16 mod unat l = 0)" by blast
    then show ?thesis
    proof cases
      case split
      have "d + 3 \<le> bsize st1 (rb_prev_block st1 b)" using split x1 by simp
      note sb = split_before_rep [OF I r1(1) b1 x1(3) this, unfolded al]
      from sb(1) obtain bs' where bs': "rb_rep lo hi (split_before I st1 b t d) bs'"
        "allocs lo bs' = insert (b - 16 * d, t + d) ?rest" by blast
      have "16 * d \<le> b" using bx split by simp
      then have nums: "b - 16 * d + 16 * (t + d) = b + 16 * t" "b - (b - 16 * d) = unat w"
        "unat w + user_bytes_of t = user_bytes_of (t + d)" "b - 16 * d \<le> b"
        using ts(2) d by auto
      show ?thesis unfolding ex using split bs' same_place_trans [OF r1(3) sb(2)] nums
        by (intro exI [of _ "split_before I st1 b t d"] exI [of _ "b - 16 * d + 16"] exI [of _ "unat w + user_bytes_of t"]
            exI [of _ "b - 16 * d"] exI [of _ "t + d"] exI [of _ bs']) simp
    next
      case whole
      note wb = whole_before_rep [OF I r1(1) b1 x1(3), unfolded x1 al]
      from wb(1) obtain bs' where bs': "rb_rep lo hi (whole_before I st1 b) bs'" "allocs lo bs' = insert (x, p + t) ?rest" by blast
      have nums: "x + 16 * (p + t) = b + 16 * t" "(b - x) mod unat l = 0" "user_bytes_of t + p * 16 = user_bytes_of (p + t)"
        "unat w + user_bytes_of t \<le> user_bytes_of (p + t)" "x \<le> b"
        using bx ts(2) whole(2) d by (auto simp: mult.commute)
      show ?thesis unfolding ex using whole bs' same_place_trans [OF r1(3) wb(2)] nums
        by (intro exI [of _ "whole_before I st1 b"] exI [of _ "x + 16"] exI [of _ "user_bytes_of t + p * 16"]
            exI [of _ x] exI [of _ "p + t"] exI [of _ bs']) simp
    next
      case none
      have "n \<le> t" by (simp add: t_def)
      moreover have "expand_backwards I st fwd (user_bytes_of t) (b + 16) l w = (st1, 0, user_bytes_of t)"
        unfolding ex if_not_P [OF none(1)] if_not_P [OF none(2)] ..
      ultimately show ?thesis using r1(1-3)
        by (intro exI [of _ st1] exI [of _ 0] exI [of _ "user_bytes_of t"] exI [of _ b] exI [of _ t] exI [of _ bs1])
          (simp only: refl simp_thms if_True)
    qed
  qed
qed


section \<open>Both directions\<close>

lemma expand_both_sides_rep:
  assumes I: "imultiset_ok I" and rep: "rb_rep lo hi st bs" and b: "(b, n) \<in> allocs lo bs" and le: "mn \<le> pf"
    and S: "S \<noteq> 0" "unat S dvd unat mn" "unat S dvd unat pf" and bound: "unat pf + 16 * unat S + 16 < 2 ^ 64"
  shows "\<exists>st' ptr r a k bs'. rb_expand_both_sides I st command mn pf (b + 16) opb S 16 = Some (st', ptr, r)
    \<and> rb_rep lo hi st' bs' \<and> allocs lo bs' = insert (a, k) (allocs lo bs - {(b, n)}) \<and> same_place st st'
    \<and> a \<le> b \<and> b + 16 * n \<le> a + 16 * k
    \<and> (if ptr = 0 then a = b else ptr = a + 16 \<and> r = user_bytes_of k \<and> unat mn \<le> r \<and> unat S dvd b - a
         \<and> (\<not> expand_bwd command \<longrightarrow> a = b))"
proof -
  have mnpf: "unat mn \<le> unat pf" using le by (simp add: word_le_nat_alt)
  have same: "insert (b, n) (allocs lo bs - {(b, n)}) = allocs lo bs" using b by auto
  define t where "t = n + (if expand_fwd command then room_after st b n else 0)"
  define fw where "fw = (if expand_fwd command then rb_priv_expand I st (b + 16) mn pf
         else (let received = rb_user_size st (b + 16)
               in (st, received \<ge> unat pf \<or> received \<ge> unat mn, received)))"
  have "\<exists>st1 ok r. fw = (st1, ok, r) \<and> (if ok then \<exists>k bs'. n \<le> k \<and> r = user_bytes_of k \<and> unat mn \<le> r
      \<and> rb_rep lo hi st1 bs' \<and> allocs lo bs' = insert (b, k) (allocs lo bs - {(b, n)}) \<and> same_place st st1
      else st1 = st \<and> r = user_bytes_of t \<and> r < unat mn)"
  proof (cases "expand_fwd command")
    case True
    have "unat pf + 16 \<le> 2 ^ 64" using bound by simp
    from priv_expand_rep [OF I rep b le this] obtain st1 ok r where "fw = (st1, ok, r)"
      and iff: "ok \<longleftrightarrow> unat mn \<le> user_bytes_of t" and res: "if ok then \<exists>k bs'. n \<le> k \<and> k \<le> t \<and> r = user_bytes_of k \<and> unat mn \<le> r
          \<and> (unat mn \<le> user_bytes_of n \<longrightarrow> st1 = st) \<and> (user_bytes_of n < unat mn \<longrightarrow> unat pf \<le> r \<or> k = t)
          \<and> rb_rep lo hi st1 bs' \<and> allocs lo bs' = insert (b, k) (allocs lo bs - {(b, n)}) \<and> same_place st st1
          \<and> before_same st st1 b else st1 = st \<and> r = user_bytes_of t"
      using True unfolding fw_def t_def if_P [OF True] by blast
    moreover have "r < unat mn" if "\<not> ok" using that iff res by simp
    ultimately show ?thesis by (intro exI [of _ st1] exI [of _ ok] exI [of _ r]) (cases ok; auto)
  next
    case False
    have "rb_user_size st (b + 16) = user_bytes_of n" using rep_bounds(3) [OF rep b] by (simp add: rb_user_size_def)
    then have "fw = (st, unat mn \<le> user_bytes_of n, user_bytes_of n)" using False mnpf by (auto simp: fw_def Let_def)
    moreover have "t = n" using False by (simp add: t_def)
    ultimately show ?thesis using rep same by (cases "unat mn \<le> user_bytes_of n") (auto intro!: exI [of _ n])
  qed
  then obtain st1 ok r where fw: "fw = (st1, ok, r)" and o: "if ok then \<exists>k bs'. n \<le> k \<and> r = user_bytes_of k \<and> unat mn \<le> r
      \<and> rb_rep lo hi st1 bs' \<and> allocs lo bs' = insert (b, k) (allocs lo bs - {(b, n)}) \<and> same_place st st1
      else st1 = st \<and> r = user_bytes_of t \<and> r < unat mn" by blast
  let ?z = "if opb then pf else mn"
  have ex: "rb_expand_both_sides I st command mn pf (b + 16) opb S 16 =
     (if ok then Some (st1, b + 16, r)
      else if expand_bwd command
      then if rb_is_prev_allocated st1 b then Some (st1, 0, r)
           else (case calculate_lcm_and_needs_backwards_lcmed S 16 (of_nat r) ?z of
                None \<Rightarrow> Some (st1, 0, r) | Some None \<Rightarrow> None
              | Some (Some (lcm_val, needs)) \<Rightarrow> Some (expand_backwards I st1 (expand_fwd command) r (b + 16) lcm_val needs))
      else Some (st1, 0, r))"
    by (simp add: rb_expand_both_sides_def fw flip: fw_def)
  consider (finished) ok | (stop) "\<not> ok" "\<not> expand_bwd command \<or> rb_is_prev_allocated st1 b"
    | (backw) "\<not> ok" "expand_bwd command" "\<not> rb_is_prev_allocated st1 b" by blast
  then show ?thesis
  proof cases
    case finished
    then obtain k bs' where k: "n \<le> k" "r = user_bytes_of k" "unat mn \<le> r" "rb_rep lo hi st1 bs'"
      "allocs lo bs' = insert (b, k) (allocs lo bs - {(b, n)})" "same_place st st1" using o by auto
    show ?thesis unfolding ex using finished k
      by (intro exI [of _ st1] exI [of _ "b + 16"] exI [of _ r] exI [of _ b] exI [of _ k] exI [of _ bs']) simp
  next
    case stop
    then have "rb_expand_both_sides I st command mn pf (b + 16) opb S 16 = Some (st, 0, r)" unfolding ex using o by auto
    then show ?thesis using rep same
      by (intro exI [of _ st] exI [of _ 0] exI [of _ r] exI [of _ b] exI [of _ n] exI [of _ bs]) simp
  next
    case backw
    then have st1: "st1 = st" "r = user_bytes_of t" "r < unat mn" using o by auto
    have f: "\<not> bk_prev_allocated (rb_heap st b)" using backw(3) st1(1) by (simp add: rb_read)
    have "r < 2 ^ 64" using st1(3) size_t_bound [of mn] by simp
    then have ur: "unat (of_nat r :: size_t) = r" by (rule unat_of_nat_size)
    have z: "unat S dvd unat ?z" "unat (of_nat r :: size_t) < unat ?z" "unat ?z + 16 * unat S + 16 < 2 ^ 64" "unat mn \<le> unat ?z"
      unfolding ur using S st1(3) mnpf bound by auto
    obtain l w where lw: "calculate_lcm_and_needs_backwards_lcmed S 16 (of_nat r) ?z = Some (Some (l, w))"
      and fit: "fit_needs S (unat ?z - r) l w" using calculate_needs_16 [OF S(1) z(1-3)] unfolding ur by blast
    have "16 dvd unat w" using fit by (simp add: fit_needs_def)
    from expand_backwards_rep [OF I rep b f this, of "expand_fwd command" l, folded t_def]
    obtain st' ptr r' a k bs' where e: "expand_backwards I st (expand_fwd command) r (b + 16) l w = (st', ptr, r')"
      and rep': "rb_rep lo hi st' bs'" "allocs lo bs' = insert (a, k) (allocs lo bs - {(b, n)})" "same_place st st'"
      and res: "if ptr = 0 then a = b \<and> n \<le> k
       else ptr = a + 16 \<and> r' = user_bytes_of k \<and> a \<le> b \<and> a + 16 * k = b + 16 * t
         \<and> unat w + r \<le> r' \<and> (b - a = unat w \<or> (b - a) mod unat l = 0)" unfolding st1(2) by blast
    have all: "rb_expand_both_sides I st command mn pf (b + 16) opb S 16 = Some (st', ptr, r')"
      unfolding ex using backw lw e st1(1) by simp
    have "n \<le> t" by (simp add: t_def)
    then have rng: "a \<le> b" "b + 16 * n \<le> a + 16 * k" using res by (auto split: if_splits)
    moreover have "ptr \<noteq> 0 \<Longrightarrow> unat mn \<le> r' \<and> unat S dvd b - a"
      using res fit z(4) by (auto simp: fit_needs_def dvd_eq_mod_eq_0 [symmetric] intro: dvd_trans)
    ultimately show ?thesis unfolding all using rep' res backw(2)
      by (intro exI [of _ st'] exI [of _ ptr] exI [of _ r'] exI [of _ a] exI [of _ k] exI [of _ bs']) simp
  qed
qed

end
