(* ===== verification/Rbtree_Contract.thy ===== *)
theory Rbtree_Contract
  imports Rbtree_Expand Mem_Algo_Laws
begin

text \<open>
  The best fit algorithm provides what the common allocation functions rely on, over every intrusive multiset
  that keeps its contract: a second instance of \<open>mem_algo\<close>, beside the sequential fit algorithm. The locale
  \<open>ordered_multiset\<close> is the interface to Boost.Intrusive; it is interpreted on sorted lists.
\<close>

section \<open>States\<close>

definition rb_live :: "nat \<Rightarrow> nat \<Rightarrow> nat \<Rightarrow> nat \<Rightarrow> nat \<Rightarrow> rb_fit \<Rightarrow> (nat \<times> nat) set \<Rightarrow> bool" where
  "rb_live lo hi t e z st A \<longleftrightarrow> (\<exists>bs. rb_rep lo hi st bs \<and> allocs lo bs = A)
     \<and> rb_this st = t \<and> rb_extra_hdr_bytes st = e \<and> rb_size st = z"

lemma rb_liveE:
  assumes "rb_live lo hi t e z st A"
  obtains bs where "rb_rep lo hi st bs" "allocs lo bs = A"
  using assms by (auto simp: rb_live_def)

lemma rb_live_step:
  "rb_live lo hi t e z st A \<Longrightarrow> same_place st st' \<Longrightarrow> rb_rep lo hi st' bs' \<Longrightarrow> allocs lo bs' = A' \<Longrightarrow> rb_live lo hi t e z st' A'"
  by (auto simp: rb_live_def same_place_def)

lemma rb_eqI:
  assumes "same_place st st'" "rb_free st' = rb_free st" "rb_allocated st' = rb_allocated st"
    and "\<And>z. bsize st' z = bsize st z" "\<And>z. bk_allocated (rb_heap st' z) = bk_allocated (rb_heap st z)"
    and "\<And>z. bk_prev_allocated (rb_heap st' z) = bk_prev_allocated (rb_heap st z)"
    and "\<And>z. bk_prev_size (rb_heap st' z) = bk_prev_size (rb_heap st z)"
  shows "st' = st"
proof -
  have "rb_heap st' = rb_heap st" by (rule ext) (use assms in \<open>auto intro: block_eqI\<close>)
  then show ?thesis using assms(1-3) by (cases st; cases st') (simp add: same_place_def)
qed

section \<open>Writing headers\<close>

text \<open>The header of an allocated block of \<open>n\<close> units at \<open>a\<close> written.\<close>

abbreviation written :: "rb_fit \<Rightarrow> nat \<Rightarrow> nat \<Rightarrow> rb_fit" where
  "written st a n \<equiv> rb_mark_as_allocated_block (rb_set_size st a n) a"

lemma same_place_written [simp]:
  "same_place (rb_set_size s a n) st = same_place s st" "same_place (rb_mark_as_allocated_block s a) st = same_place s st"
  by (simp_all add: same_place_def rb_set_size_def rb_mark_as_allocated_block_def rb_set_allocated_def
      rb_set_prev_allocated_def rb_upd_def Let_def)

lemma sizes_commute: "a \<noteq> b \<Longrightarrow> rb_set_size (rb_set_size s a m) b n = rb_set_size (rb_set_size s b n) a m"
  by (rule rb_eqI) (auto simp: rb_read)

lemma size_mark_commute:
  "a \<noteq> b \<Longrightarrow> rb_set_size (rb_mark_as_allocated_block s a) b n = rb_mark_as_allocated_block (rb_set_size s b n) a"
  by (rule rb_eqI) (auto simp: rb_read)

lemma marks_commute:
  "rb_mark_as_allocated_block (rb_mark_as_allocated_block s a) b = rb_mark_as_allocated_block (rb_mark_as_allocated_block s b) a"
  by (rule rb_eqI) (auto simp: rb_read)

lemma alloc_header:
  assumes "rb_rep lo hi st bs" "(a, n) \<in> allocs lo bs"
  shows "bsize st a = n" "bk_allocated (rb_heap st a)" "bk_prev_allocated (rb_heap st (a + 16 * n))"
proof -
  obtain us vs where bs: "bs = us @ [(n, True)] @ vs" and x: "a = lo + 16 * units us"
    using allocs_split [OF assms(2)] by (metis append_Cons append_Nil)
  show "bsize st a = n" "bk_allocated (rb_heap st a)" "bk_prev_allocated (rb_heap st (a + 16 * n))"
    using rep_seg(2) [OF assms(1) [unfolded bs] x] by (auto simp: says_def)
qed

lemma rewrite_block:
  assumes "rb_rep lo hi st bs" "(a, n) \<in> allocs lo bs"
  shows "written st a n = st"
  by (rule rb_eqI) (use alloc_header [OF assms] in \<open>auto simp: rb_read\<close>)

lemma split_rep:
  assumes rep: "rb_rep lo hi (written s a n) bs" and b: "(a, n) \<in> allocs lo bs" and k: "3 \<le> k" "k + 3 \<le> n"
  defines "st' \<equiv> rb_mark_as_allocated_block (rb_mark_as_allocated_block (rb_set_size (rb_set_size s a k) (a + 16 * k) (n - k)) a) (a + 16 * k)"
  shows "\<exists>bs'. rb_rep lo hi st' bs' \<and> allocs lo bs' = insert (a, k) (insert (a + 16 * k, n - k) (allocs lo bs - {(a, n)}))"
    and "(a, k) \<notin> allocs lo bs - {(a, n)}" "(a + 16 * k, n - k) \<notin> allocs lo bs - {(a, n)}"
proof -
  obtain us vs where bs: "bs = us @ [(n, True)] @ vs" and x: "a = lo + 16 * units us"
    using allocs_split [OF b] by (metis append_Cons append_Nil)
  note rep' = rep [unfolded bs]
  note s = rep_seg [OF rep' x]
  have e: "a + 16 * k + 16 * (n - k) = a + 16 * n" using k by simp
  have e': "a + (16 * k + 16 * (n - k)) = a + 16 * n" using k by simp
  have "rb_rep lo hi st' (us @ [(k, True), (n - k, True)] @ vs)"
  proof (rule rep_replace [OF rep' x refl])
    show "rb_seg (rb_heap st') a [(k, True), (n - k, True)]" using k by (simp add: st'_def rb_read says_def e e')
    show "isolated (last_alloc True us) ([(k, True), (n - k, True)] @ vs)" using s(4) by simp
    show "distinct (rb_free st')" using rep by (simp add: st'_def rb_read rb_rep_def)
    have *: "rb_free st' = rb_free s" "rb_free (written s a n) = rb_free s" by (simp_all add: st'_def rb_read)
    show "set (rb_free st') = set (rb_free (written s a n)) - fst ` frees a [(n, True)] \<union> fst ` frees a [(k, True), (n - k, True)]"
      by (simp add: *)
    have "z < a \<or> a + 16 * n \<le> z" "z \<noteq> a" if "z \<in> set (rb_free s)" for z
      using rest_of_free [OF rep' x, of z] that by (auto simp: *)
    then have "bsize st' z = bsize (written s a n) z" if "z \<in> set (rb_free s)" for z
      using that k by (fastforce simp: st'_def rb_read)
    then show "sorted (map (bsize st') (rb_free st'))"
      using rep sorted_sizes_cong [of "rb_free s" "bsize st'" "bsize (written s a n)"] unfolding * by (simp add: rb_rep_def *)
  qed (use k in \<open>auto simp: st'_def rb_read e e' intro!: block_eqI\<close>)
  moreover have "allocs lo (us @ [(k, True), (n - k, True)] @ vs) = insert (a, k) (insert (a + 16 * k, n - k) (allocs lo bs - {(a, n)}))"
    using allocs_replace [OF rep' x, of "[(k, True), (n - k, True)]"] k by (simp add: bs insert_commute)
  ultimately show "\<exists>bs'. rb_rep lo hi st' bs' \<and> allocs lo bs' = insert (a, k) (insert (a + 16 * k, n - k) (allocs lo bs - {(a, n)}))"
    by blast
  have seg: "rb_seg (rb_heap (written s a n)) lo bs" using rep by (simp add: rb_rep_def)
  show "(a, k) \<notin> allocs lo bs - {(a, n)}" "(a + 16 * k, n - k) \<notin> allocs lo bs - {(a, n)}"
    using allocs_disjoint [OF seg b, of a k] allocs_disjoint [OF seg b, of "a + 16 * k" "n - k"] k by auto
qed


text \<open>
  Deallocating a block that is not a neighbour of the one at \<open>b\<close> neither reads nor writes what the header of
  that one holds.
\<close>

lemma deallocate_frame:
  assumes I: "imultiset_ok I" and rep: "rb_rep lo hi (written s b m) bs" and a: "(a, n) \<in> allocs lo bs"
    and b: "(b, m) \<in> allocs lo bs" and ne: "a \<noteq> b" "b \<noteq> a + 16 * n" "a \<noteq> b + 16 * m"
  shows "rb_priv_deallocate I (written s b m) (a + 16) = written (rb_priv_deallocate I s (a + 16)) b m"
proof -
  let ?w = "written s b m"
  have seg: "rb_seg (rb_heap ?w) lo bs" using rep by (simp add: rb_rep_def)
  note ah = alloc_header [OF rep a] and ab = rep_bounds(2) [OF rep a] rep_bounds(2) [OF rep b]
  have eq: "bsize s a = bsize ?w a" "bk_prev_allocated (rb_heap s a) = bk_prev_allocated (rb_heap ?w a)"
      "bk_prev_size (rb_heap s a) = bk_prev_size (rb_heap ?w a)"
      "bk_allocated (rb_heap s (a + 16 * n)) = bk_allocated (rb_heap ?w (a + 16 * n))"
      "bsize s (a + 16 * n) = bsize ?w (a + 16 * n)" "rb_free s = rb_free ?w"
    using ne by (simp_all add: rb_read)
  obtain us ms vs x where bs: "bs = us @ ms @ vs" and x: "x = lo + 16 * units us" and mx: "merged_start ?w a = x" "merged_units ?w a = units ms"
    and al: "allocs x ms = {(a, n)}" and pf: "bk_prev_allocated (rb_heap ?w a) \<or> merged_start ?w a < a"
    and nu: "n \<le> units ms" and n3: "bsize ?w a = n" "3 \<le> n" and un: "set (unlinked I ?w a) = set (rb_free ?w) - fst ` frees x ms"
    by (rule merge_shape [OF I rep a])
  note sg = rep_seg [OF rep [unfolded bs] x]
  have "(b, m) \<in> allocs lo us \<union> allocs (x + 16 * units ms) vs"
    using b ne(1) al allocs_middle [OF refl, of lo us ms vs] x by (auto simp: bs)
  then have far: "b + 16 * m \<le> x \<or> x + 16 * units ms \<le> b"
    using alloc_range [OF sg(1), of b m] alloc_range [OF sg(3), of b m] x by auto
  then have bx: "b \<noteq> x" "b + 16 * m \<noteq> x + 16 * units ms" using ab nu by auto
  have bf: "b \<notin> set (unlinked I ?w a)"
  proof
    assume "b \<in> set (unlinked I ?w a)"
    then have "b \<in> fst ` frees lo bs" using un rep by (simp add: rb_rep_def)
    then obtain k where "(b, k) \<in> frees lo bs" by auto
    then show False using frees_alloc_disjoint [OF seg _ b, of b k] alloc_range [OF seg, of b k] ab by auto
  qed
  have s: "merged_start s a = x" using mx(1) unfolding merged_start_def eq .
  have sx: "bsize s x = bsize ?w x" using bx by (simp add: rb_read)
  have sa: "bsize s a = n" using eq(1) n3(1) by simp
  have t: "merged_units s a = units ms" "unlinked I s a = unlinked I ?w a"
    unfolding mx(2) [symmetric] merged_units_def unlinked_def s mx(1) sa n3(1) eq(2,4-6) sx by (rule refl)+
  have pos: "0 < bsize ?w a" "0 < bsize s a" using n3 eq by simp_all
  have pf': "bk_prev_allocated (rb_heap s a) \<or> merged_start s a < a" using pf s mx(1) eq by simp
  note hw = deallocate_reads [OF pos(1) pf, of I, unfolded mx n3(1)]
  note hs = deallocate_reads [OF pos(2) pf', of I, unfolded s t sa]
  have "im_insert I (\<lambda>z. if z = x then units ms else bsize ?w z) x (unlinked I ?w a)
      = im_insert I (\<lambda>z. if z = x then units ms else bsize s z) x (unlinked I ?w a)"
    using I bf bx unfolding imultiset_ok_def by (auto simp: rb_read)
  then have free: "rb_free (rb_priv_deallocate I ?w (a + 16)) = rb_free (rb_priv_deallocate I s (a + 16))"
    unfolding hw(6) hs(6) .
  have pl: "same_place (rb_priv_deallocate I s (a + 16)) (rb_priv_deallocate I ?w (a + 16))"
    using hw(7) [unfolded same_place_written] hs(7) by (simp add: same_place_def)
  show ?thesis
    by (rule rb_eqI) (use bx ne pl free hw(5) hs(5) in \<open>auto simp: rb_read hw(1-4) hs(1-4)\<close>)
qed

lemma rb_mem_algo:
  assumes I: "imultiset_ok I"
  shows "mem_algo (rb_algo I) 4 (rb_live lo hi t e z)"
proof unfold_locales
  fix s A a n
  assume l: "rb_live lo hi t e z s A" and b: "(a, n) \<in> A"
  obtain bs where rep: "rb_rep lo hi s bs" and A: "allocs lo bs = A" by (rule rb_liveE [OF l])
  note bd = rep_bounds [OF rep b [folded A]]
  show "get_block_size (rb_algo I) s a = n \<and> BlockCtrlUnits (rb_algo I) \<le> n \<and> a mod Alignment (rb_algo I) = 0 \<and> 0 < a
      \<and> a + (n + 1) * Alignment (rb_algo I) \<le> 2 ^ 64"
    using bd by (simp add: rb_algo_def)
  show "rb_live lo hi t e z (priv_mark_new_allocated_block (rb_algo I) (set_block_size (rb_algo I) s a n) a) A"
    using l rewrite_block [OF rep b [folded A]] by (simp add: rb_algo_def)
  show "\<exists>s'. priv_deallocate (rb_algo I) s (a + AllocatedCtrlBytes (rb_algo I)) = Some s' \<and> rb_live lo hi t e z s' (A - {(a, n)})"
    using rb_deallocate_rep [OF I rep b [folded A]] rb_live_step [OF l] A by (auto simp: rb_algo_def AllocatedCtrlBytes_def)
next
  fix s a n A k b
  assume l: "rb_live lo hi t e z (priv_mark_new_allocated_block (rb_algo I) (set_block_size (rb_algo I) s a n) a) A"
    and b: "(a, n) \<in> A" and k: "BlockCtrlUnits (rb_algo I) \<le> k" "k + BlockCtrlUnits (rb_algo I) \<le> n"
    and e: "b = a + k * Alignment (rb_algo I)"
  have l': "rb_live lo hi t e z (written s a n) A" and b': "b = a + 16 * k" and k': "3 \<le> k" "k + 3 \<le> n"
    using l e k by (simp_all add: rb_algo_def)
  obtain bs where rep: "rb_rep lo hi (written s a n) bs" and A: "allocs lo bs = A" by (rule rb_liveE [OF l'])
  note sp = split_rep [OF rep b [folded A] k', folded b', unfolded A]
  from sp(1) obtain bs' where bs': "rb_rep lo hi (rb_mark_as_allocated_block (rb_mark_as_allocated_block
        (rb_set_size (rb_set_size s a k) b (n - k)) a) b) bs'"
      "allocs lo bs' = insert (a, k) (insert (b, n - k) (A - {(a, n)}))" by blast
  have "same_place (written s a n)
      (rb_mark_as_allocated_block (rb_mark_as_allocated_block (rb_set_size (rb_set_size s a k) b (n - k)) a) b)" by simp
  then have "rb_live lo hi t e z (rb_mark_as_allocated_block (rb_mark_as_allocated_block
      (rb_set_size (rb_set_size s a k) b (n - k)) a) b) (insert (a, k) (insert (b, n - k) (A - {(a, n)})))"
    by (rule rb_live_step [OF l' _ bs'])
  then show "rb_live lo hi t e z (priv_mark_new_allocated_block (rb_algo I) (priv_mark_new_allocated_block (rb_algo I)
        (set_block_size (rb_algo I) (set_block_size (rb_algo I) s a k) b (n - k)) a) b)
        (insert (a, k) (insert (b, n - k) (A - {(a, n)})))
      \<and> (a, k) \<notin> A - {(a, n)} \<and> (b, n - k) \<notin> A - {(a, n)}"
    using sp(2,3) unfolding rb_algo_def memory_algorithm.select_convs by blast
next
  fix s b m A a n
  assume l: "rb_live lo hi t e z (priv_mark_new_allocated_block (rb_algo I) (set_block_size (rb_algo I) s b m) b) A"
    and b: "(a, n) \<in> A" "(b, m) \<in> A" "a \<noteq> b" and ne: "b \<noteq> a + n * Alignment (rb_algo I)" "a \<noteq> b + m * Alignment (rb_algo I)"
  have l': "rb_live lo hi t e z (written s b m) A" and ne': "b \<noteq> a + 16 * n" "a \<noteq> b + 16 * m"
    using l ne by (simp_all add: rb_algo_def)
  obtain bs where rep: "rb_rep lo hi (written s b m) bs" and A: "allocs lo bs = A" by (rule rb_liveE [OF l'])
  have "rb_live lo hi t e z (rb_priv_deallocate I (written s b m) (a + 16)) (A - {(a, n)})"
    using rb_deallocate_rep [OF I rep b(1) [folded A]] rb_live_step [OF l'] A by blast
  then show "\<exists>s'. priv_deallocate (rb_algo I) s (a + AllocatedCtrlBytes (rb_algo I)) = Some s'
      \<and> rb_live lo hi t e z (priv_mark_new_allocated_block (rb_algo I) (set_block_size (rb_algo I) s' b m) b) (A - {(a, n)})"
    using deallocate_frame [OF I rep b(1,2) [folded A] b(3) ne'] by (simp add: rb_algo_def AllocatedCtrlBytes_def)
next
  fix s A and nbytes :: size_t
  assume l: "rb_live lo hi t e z s A" and n: "unat nbytes + Alignment (rb_algo I) \<le> 2 ^ 64"
  then have n': "unat nbytes + 16 \<le> 2 ^ 64" by (simp add: rb_algo_def)
  obtain bs where rep: "rb_rep lo hi s bs" and A: "allocs lo bs = A" by (rule rb_liveE [OF l])
  have seg: "rb_seg (rb_heap s) lo bs" using rep by (simp add: rb_rep_def)
  note br = rb_allocate_branch_rep [OF I rep order_refl n']
  show "\<exists>s' p. priv_allocate_new (rb_algo I) s nbytes nbytes = Some (s', p)
      \<and> (p = 0 \<and> s' = s \<or> (\<exists>a k. p = a + AllocatedCtrlBytes (rb_algo I) \<and> (a, k) \<notin> A \<and> rb_live lo hi t e z s' (insert (a, k) A)
           \<and> unat nbytes \<le> (k - AllocatedCtrlUnits (rb_algo I)) * Alignment (rb_algo I) + UsableByPreviousChunk (rb_algo I)))"
  proof (cases "rb_allocate_branch I s nbytes nbytes")
    case None
    then show ?thesis by (auto simp: rb_algo_def rb_priv_allocate_new_def)
  next
    case (Some r)
    obtain s' p rc where r: "r = (s', p, rc)" by (cases r)
    obtain b k m bs' where g: "p = b + 16" "(b, k) \<in> frees lo bs" "unat (rb_priv_get_total_units nbytes) \<le> m"
        "rb_rep lo hi s' bs'" "allocs lo bs' = insert (b, m) (allocs lo bs)" "same_place s s'"
      using br unfolding Some r by auto
    have bm: "(b, m) \<in> allocs lo bs'" using g(5) by simp
    have m3: "3 \<le> m" by (rule rep_bounds(2) [OF g(4) bm])
    have "(b, m) \<notin> A" using frees_alloc_disjoint [OF seg g(2), of b m] free_sizes(2) [OF rep g(2)] m3 A by auto
    moreover have "unat nbytes \<le> user_bytes_of m" using total_units_least [OF n' m3] g(3) by simp
    moreover have "rb_live lo hi t e z s' (insert (b, m) A)" using rb_live_step [OF l g(6) g(4)] g(5) A by simp
    ultimately show ?thesis using Some r g(1) by (auto simp: rb_algo_def rb_priv_allocate_new_def AllocatedCtrlBytes_def)
  qed
qed (auto simp: rb_algo_def rb_read sizes_commute size_mark_commute marks_commute)


section \<open>The interface to the multiset\<close>

text \<open>
  The algorithm over any multiset that keeps its contract, and the sorted list as one that does; the
  contract of the common functions follows for both.
\<close>

locale ordered_multiset =
  fixes I :: imultiset
  assumes multiset_contract: "imultiset_ok I"

sublocale ordered_multiset \<subseteq> rbm: mem_algo "rb_algo I" 4 "rb_live lo hi t e z" for lo hi t e z
  by (rule rb_mem_algo [OF multiset_contract])

definition list_imultiset :: imultiset where
  "list_imultiset = \<lparr>im_insert = insort_key, im_insert_hint = (\<lambda>sz h. insort_key sz), im_erase = remove1,
     im_lower_bound = (\<lambda>sz n xs. length (takeWhile (\<lambda>x. sz x < n) xs))\<rparr>"

lemma insort_key_inserted: "sorted (map f xs) \<Longrightarrow> inserted f b xs (insort_key f b xs)"
proof -
  assume s: "sorted (map f xs)"
  have "\<exists>us vs. xs = us @ vs \<and> insort_key f b xs = us @ b # vs"
  proof (induction xs)
    case (Cons x xs)
    then obtain us vs where "xs = us @ vs" "insort_key f b xs = us @ b # vs" by blast
    then show ?case by (cases "f b \<le> f x") (auto intro: exI [of _ "[]"] exI [of _ "x # us"])
  qed simp
  then show ?thesis using sorted_insort_key [of f b xs] s by (simp add: inserted_def)
qed

lemma insort_key_cong: "(\<forall>z\<in>insert b (set xs). f z = g z) \<Longrightarrow> insort_key f b xs = insort_key g b xs"
  by (induction xs) auto

lemma list_imultiset_ok: "imultiset_ok list_imultiset"
  unfolding imultiset_ok_def list_imultiset_def imultiset.select_convs
  by (intro conjI allI impI) (auto intro: insort_key_inserted insort_key_cong simp: remove1_append)

interpretation lm: ordered_multiset list_imultiset
  by unfold_locales (rule list_imultiset_ok)

end
