(* ===== verification/Rbtree_Segment.thy ===== *)
theory Rbtree_Segment
  imports Rbtree_Contract
begin

text \<open>
  The segment of the best fit algorithm: its construction, \<^verbatim>\<open>grow\<close> and \<^verbatim>\<open>shrink_to_fit\<close>, which move the end
  block, and the checks that compare the state with the size of the segment.
\<close>

section \<open>The ends of the segment\<close>

text \<open>The row between \<open>lo\<close> and \<open>hi\<close> is where the header says: \<open>lo\<close> is the first block, \<open>hi\<close> the end block.\<close>

definition rb_placed :: "nat \<Rightarrow> rb_fit \<Rightarrow> nat \<Rightarrow> nat \<Rightarrow> bool" where
  "rb_placed sz st lo hi \<longleftrightarrow> rb_first_block sz st = lo \<and> rb_this st \<le> lo \<and> lo < hi
     \<and> hi + 16 \<le> rb_this st + rb_size st \<and> rb_this st + rb_size st < hi + 32"

lemma rb_placed_same: "same_place st st' \<Longrightarrow> rb_placed sz st lo hi \<Longrightarrow> rb_placed sz st' lo hi"
  by (simp add: rb_placed_def same_place_def rb_first_block_def)

lemma rb_placed_offset:
  assumes "rb_placed sz st lo hi"
  shows "rb_first_block_offset sz (rb_this st) (rb_extra_hdr_bytes st) = lo - rb_this st"
  using assms by (auto simp: rb_placed_def rb_first_block_def)

lemma rb_end_placed:
  assumes "rb_placed sz st lo hi" "rb_rep lo hi st bs"
  shows "rb_end_block sz st = hi" "(rb_size st - (lo - rb_this st) - 16) div 16 = units bs"
proof -
  have h: "hi = lo + 16 * units bs" using assms(2) by (simp add: rb_rep_def)
  define d where "d = rb_size st - ((lo - rb_this st) + 16 * units bs + 16)"
  have d: "rb_size st = (lo - rb_this st) + 16 * units bs + 16 + d" "d < 16"
    using assms(1) h unfolding rb_placed_def d_def by linarith+
  have u: "(rb_size st - (lo - rb_this st)) div 16 = units bs + 1" using d by simp
  show "rb_end_block sz st = hi"
    using assms(1) h u by (simp add: rb_end_block_def Let_def rb_placed_offset [OF assms(1)] rb_placed_def)
  show "(rb_size st - (lo - rb_this st) - 16) div 16 = units bs" using d by simp
qed

lemma ends_of_each_other:
  assumes "rb_rep lo hi st bs"
  shows "rb_end_block_of st lo = hi" "rb_first_block_of st hi = lo"
proof -
  have e: "hi = lo + 16 * units bs" "bk_prev_size (rb_heap st lo) = units bs" "bsize st hi = units bs"
    using assms unfolding rb_rep_def by blast+
  show "rb_end_block_of st lo = hi" using e by (simp add: rb_end_block_of_def)
  show "rb_first_block_of st hi = lo" unfolding rb_first_block_of_def e(3) by (simp add: e(1))
qed

section \<open>Construction\<close>

lemma first_block_offset_nat:
  assumes "0 < sz" "this_ptr + sz + extra + 16 \<le> 2 ^ 64"
  defines "lo \<equiv> this_ptr + rb_first_block_offset sz this_ptr extra"
  shows "lo mod 16 = 0" "this_ptr + sz + extra \<le> lo" "lo < this_ptr + sz + extra + 16"
proof -
  define m where "m = (of_nat this_ptr + of_nat sz + of_nat extra :: size_t)"
  have mn: "unat m = this_ptr + sz + extra"
  proof -
    have "m = of_nat (this_ptr + sz + extra)" by (simp add: m_def)
    then show ?thesis using assms(2) by (simp only:) (rule unat_of_nat_size, simp)
  qed
  have e: "unat (get_rounded_size m 16) = ((unat m - 1) div unat (16 :: size_t) + 1) * unat (16 :: size_t)"
    by (rule get_rounded_size_nat) (use assms mn in \<open>auto simp: unat_gt_0 [symmetric]\<close>)
  define r where "r = unat (get_rounded_size m 16)"
  have r: "r = ((unat m - 1) div 16 + 1) * 16" using e by (simp add: r_def)
  have b: "unat m \<le> r" "r < unat m + 16" unfolding r using round_up_nat [of 16 "unat m"] mn assms(1) by auto
  have "unat (of_nat this_ptr :: size_t) = this_ptr" using assms(2) by (intro unat_of_nat_size) simp
  then have "unat (get_rounded_size m 16 - of_nat this_ptr) = r - this_ptr"
    using b mn by (simp add: unat_sub word_le_nat_alt r_def)
  then have "lo = r" using b mn by (simp add: lo_def rb_first_block_offset_def Let_def m_def)
  then show "lo mod 16 = 0" "this_ptr + sz + extra \<le> lo" "lo < this_ptr + sz + extra + 16"
    using b mn r by simp_all
qed

lemma rb_construct_rep:
  fixes heap :: "nat \<Rightarrow> rb_block"
  assumes I: "imultiset_ok I" and sz: "0 < sz" "this_ptr + sz + extra + 16 \<le> 2 ^ 64"
    and size: "this_ptr + segment_size \<le> 2 ^ 64" "rb_first_block_offset sz this_ptr extra + 64 \<le> segment_size"
  defines "lo \<equiv> this_ptr + rb_first_block_offset sz this_ptr extra"
    and "n \<equiv> (segment_size - rb_first_block_offset sz this_ptr extra) div 16 - 1"
    and "st \<equiv> rb_construct I sz this_ptr heap segment_size extra"
  shows "rb_rep lo (lo + 16 * n) st [(n, False)]" "rb_placed sz st lo (lo + 16 * n)" "rb_this st = this_ptr" "rb_size st = segment_size"
    and "3 \<le> n"
proof -
  define off where "off = rb_first_block_offset sz this_ptr extra"
  note lo = first_block_offset_nat [OF sz, folded lo_def]
  define d where "d = (segment_size - off) mod 16"
  have d: "segment_size - off = 16 * (n + 1) + d" "d < 16" "off + 64 \<le> segment_size"
  proof -
    show "off + 64 \<le> segment_size" using size(2) by (simp add: off_def)
    then have "4 \<le> (segment_size - off) div 16" by (simp add: less_eq_div_iff_mult_less_eq)
    then show "segment_size - off = 16 * (n + 1) + d" unfolding d_def n_def off_def [symmetric] by simp
  qed (simp add: d_def)
  have "64 \<le> 16 * (n + 1) + d" using d by linarith
  then show n3: "3 \<le> n" using d(2) by presburger
  have top: "lo + 16 * n + 16 + d = this_ptr + segment_size" using d by (simp add: lo_def flip: off_def)
  let ?s0 = "\<lparr>rb_this = this_ptr, rb_heap = heap, rb_free = [], rb_extra_hdr_bytes = extra, rb_allocated = 0, rb_size = segment_size\<rparr>"
  have st: "st = rb_add_segment I ?s0 lo (segment_size - off)"
    by (simp add: st_def rb_construct_def Let_def lo_def off_def)
  have nn: "(segment_size - off) div 16 - Suc 0 = n" by (simp add: n_def off_def)
  define e where "e = lo + n * 16"
  define s1 where "s1 = rb_mark_as_free_block (rb_set_size (new_block_ctrl ?s0 lo) lo n) lo"
  have st: "st = rb_insert I (rb_set_prev_allocated (rb_set_allocated
      (rb_set_prev_size (rb_set_size s1 e n) lo n) e True) lo True) lo"
    by (simp add: st rb_add_segment_def Let_def rb_read nn s1_def e_def)
  have el: "e = lo + 16 * n" "e \<noteq> lo" using n3 by (simp_all add: e_def)
  have h: "bsize st lo = n" "bk_allocated (rb_heap st lo) = False" "bk_prev_allocated (rb_heap st lo)"
    "bk_prev_size (rb_heap st lo) = n" "bsize st e = n" "bk_allocated (rb_heap st e)"
    "\<not> bk_prev_allocated (rb_heap st e)" "bk_prev_size (rb_heap st e) = n"
    "rb_allocated st = 0" "same_place ?s0 st"
    using el by (simp_all add: st s1_def rb_read)
  have f: "\<exists>sz'. rb_free st = im_insert I sz' lo []"
    by (simp add: st s1_def rb_read) (rule exI, rule refl)
  have "im_insert I sz' lo [] = [lo]" for sz'
  proof -
    have "sorted (map sz' [])" by simp
    then have "inserted sz' lo [] (im_insert I sz' lo [])" using I unfolding imultiset_ok_def by blast
    then show ?thesis by (simp add: inserted_def)
  qed
  then have "rb_free st = [lo]" using f by auto
  then show "rb_rep lo (lo + 16 * n) st [(n, False)]"
    using h [unfolded el(1)] n3 lo sz top size by (simp add: rb_rep_def says_def)
  show "rb_this st = this_ptr" "rb_size st = segment_size" using h(10) by (simp_all add: same_place_def)
  show "rb_placed sz st lo (lo + 16 * n)"
    using h(10) n3 top d by (simp add: rb_placed_def rb_first_block_def same_place_def lo_def)
qed


section \<open>Growing\<close>

lemma rb_rep_size [simp]: "rb_rep lo hi (st\<lparr>rb_size := k\<rparr>) bs = rb_rep lo hi st bs"
  by (simp add: rb_rep_def)

text \<open>The block that the new memory makes, written as an allocated one at the old end.\<close>

definition extended :: "rb_fit \<Rightarrow> nat \<Rightarrow> nat \<Rightarrow> nat \<Rightarrow> nat \<Rightarrow> rb_fit" where
  "extended st lo hi u q =
     (let e = hi + 16 * q; st = rb_set_size (rb_set_allocated st e True) e (u + q);
          st = rb_set_prev_allocated (rb_set_prev_size st lo (u + q)) lo True;
          st = rb_mark_as_allocated_block (rb_set_size st hi q) hi
      in st\<lparr>rb_allocated := rb_allocated st + q * 16\<rparr>)"

lemma extended_rep:
  assumes rep: "rb_rep lo hi st bs" and lh: "lo < hi" and q: "3 \<le> q" and top: "hi + 16 * q + 16 \<le> 2 ^ 64"
  shows "rb_rep lo (hi + 16 * q) (extended st lo hi (units bs) q) (bs @ [(q, True)])"
    and "same_place st (extended st lo hi (units bs) q)"
proof -
  define st' where "st' = extended st lo hi (units bs) q"
  define e where "e = hi + 16 * q"
  have ne: "hi < e" using q by (simp add: e_def)
  have h: "bsize st' z = (if z = hi then q else if z = e then units bs + q else bsize st z)"
    "bk_allocated (rb_heap st' z) = (z = hi \<or> z = e \<or> bk_allocated (rb_heap st z))"
    "bk_prev_allocated (rb_heap st' z) = (z = e \<or> z = lo \<or> bk_prev_allocated (rb_heap st z))"
    "bk_prev_size (rb_heap st' z) = (if z = lo then units bs + q else bk_prev_size (rb_heap st z))"
    "rb_free st' = rb_free st" "rb_allocated st' = rb_allocated st + q * 16" for z
    using ne lh by (auto simp: st'_def extended_def Let_def rb_read e_def)
  have hi: "hi = lo + 16 * units bs" and seg: "rb_seg (rb_heap st) lo bs" using rep by (simp_all add: rb_rep_def)
  have "rb_seg (rb_heap st') lo bs"
    by (rule rb_seg_cong [OF _ _ seg]) (use ne hi lh in \<open>auto simp: h\<close>)
  then have seg': "rb_seg (rb_heap st') lo (bs @ [(q, True)])" using q ne by (simp add: h says_def e_def flip: hi)
  have "z < hi" if "z \<in> set (rb_free st)" for z
  proof -
    have "z \<in> fst ` frees lo bs" using that rep by (simp add: rb_rep_def)
    then obtain k where "(z, k) \<in> frees lo bs" by auto
    then show ?thesis using alloc_range [OF seg, of z k] hi by auto
  qed
  then have "sorted (map (bsize st') (rb_free st'))"
    using rep ne sorted_sizes_cong [of "rb_free st" "bsize st'" "bsize st"] by (force simp: h rb_rep_def)
  then show "rb_rep lo (hi + 16 * q) (extended st lo hi (units bs) q) (bs @ [(q, True)])"
    using rep seg' top ne lh hi unfolding st'_def [symmetric] e_def [symmetric] by (simp add: rb_rep_def h) (simp add: e_def)
  show "same_place st (extended st lo hi (units bs) q)" by (simp add: extended_def Let_def)
qed

lemma rb_grow_rep:
  assumes I: "imultiset_ok I" and rep: "rb_rep lo hi st bs" and pl: "rb_placed sz st lo hi"
    and top: "rb_this st + rb_size st + extra \<le> 2 ^ 64"
  defines "gap \<equiv> rb_this st + rb_size st + extra - (hi + 16)" and "st' \<equiv> rb_grow I sz st extra"
  assumes g: "gap < 16 \<or> 48 \<le> gap"
  shows "\<exists>bs'. rb_rep lo (hi + 16 * (gap div 16)) st' bs' \<and> allocs lo bs' = allocs lo bs"
    and "rb_placed sz st' lo (hi + 16 * (gap div 16))" "rb_size st' = rb_size st + extra" "rb_this st' = rb_this st"
proof -
  define q where "q = gap div 16"
  let ?s = "st\<lparr>rb_size := rb_size st + extra\<rparr>"
  have p: "rb_this st \<le> lo" "lo < hi" "hi + 16 \<le> rb_this st + rb_size st" "rb_first_block sz st = lo"
    using pl by (simp_all add: rb_placed_def)
  have u: "hi = lo + 16 * units bs" using rep by (simp add: rb_rep_def)
  have off: "rb_size st + extra - ((hi - rb_this st) + 16) = gap" using p by (simp add: gap_def)
  have fb: "rb_first_block sz s = lo" if "rb_this s = rb_this st" "rb_extra_hdr_bytes s = rb_extra_hdr_bytes st" for s
    using p(4) that by (simp add: rb_first_block_def)
  have sum: "hi + 16 * q + 16 + gap mod 16 = rb_this st + rb_size st + extra"
    using p by (simp add: gap_def q_def)
  have "rb_this st' = rb_this st \<and> rb_extra_hdr_bytes st' = rb_extra_hdr_bytes st \<and> rb_size st' = rb_size st + extra
    \<and> (\<exists>bs'. rb_rep lo (hi + 16 * q) st' bs' \<and> allocs lo bs' = allocs lo bs)"
  proof (cases "gap < 16")
    case True
    then have "st' = ?s" "q = 0" using p off by (simp_all add: st'_def rb_grow_def Let_def rb_end_placed [OF pl rep] q_def)
    then show ?thesis using rep by auto
  next
    case False
    then have q3: "3 \<le> q" using g by (simp add: q_def less_eq_div_iff_mult_less_eq)
    have d: "(hi + q * 16 - lo) div 16 = units bs + q" "(hi + q * 16 - hi) div 16 = q" using u by simp_all
    have "st' = rb_priv_deallocate I (extended ?s lo hi (units bs) q) (hi + 16)"
      unfolding st'_def rb_grow_def Let_def rb_end_placed [OF pl rep] p(4) extended_def
      using False g d off by (simp add: rb_read q_def [symmetric] mult.commute [of q 16])
    moreover have "rb_rep lo hi ?s bs" using rep by simp
    note ex = extended_rep [OF this p(2) q3]
    have t: "hi + 16 * q + 16 \<le> 2 ^ 64" using sum top by linarith
    have m: "(hi, q) \<in> allocs lo (bs @ [(q, True)])" using u by simp
    from rb_deallocate_rep [OF I ex(1) [OF t] m] obtain bs' where
      "rb_rep lo (hi + 16 * q) (rb_priv_deallocate I (extended ?s lo hi (units bs) q) (hi + 16)) bs'"
      "allocs lo bs' = allocs lo (bs @ [(q, True)]) - {(hi, q)}"
      "same_place (extended ?s lo hi (units bs) q) (rb_priv_deallocate I (extended ?s lo hi (units bs) q) (hi + 16))" by blast
    moreover have "(hi, q) \<notin> allocs lo bs"
      using alloc_range [of "rb_heap st" lo bs hi q] rep q3 by (auto simp: rb_rep_def)
    ultimately show ?thesis using ex(2) [OF t] u by (auto simp: same_place_def)
  qed
  then show "\<exists>bs'. rb_rep lo (hi + 16 * (gap div 16)) st' bs' \<and> allocs lo bs' = allocs lo bs"
    "rb_placed sz st' lo (hi + 16 * (gap div 16))" "rb_size st' = rb_size st + extra" "rb_this st' = rb_this st"
    using fb [of st'] p sum mod_less_divisor [of 16 gap] by (auto simp: rb_placed_def q_def)
qed

section \<open>Shrinking the segment\<close>

lemma cut_rep:
  assumes I: "imultiset_ok I" and rep: "rb_rep lo hi st (bs @ [(q, False)])" and ne: "bs \<noteq> []"
  defines "x \<equiv> lo + 16 * units bs" and "st' \<equiv> rb_cut_segment I lo st (lo + 16 * units bs)"
  shows "rb_rep lo x st' bs" "rb_size st' = x - rb_this st + 16" "rb_this st' = rb_this st"
    "rb_extra_hdr_bytes st' = rb_extra_hdr_bytes st"
proof -
  have seg: "rb_seg (rb_heap st) lo bs" "3 \<le> q" using rep by (simp_all add: rb_rep_def)
  have lx: "lo < x" using rb_seg_min [OF seg(1) ne] by (simp add: x_def)
  have d: "(x - lo) div 16 = units bs" by (simp add: x_def)
  have e: "st' = (rb_set_allocated (rb_set_prev_size (rb_set_size (rb_erase I st x) x (units bs)) lo (units bs)) x True)
      \<lparr>rb_size := x - rb_this st + 16\<rparr>"
    unfolding st'_def rb_cut_segment_def Let_def x_def [symmetric] d by (simp add: rb_read) (simp add: rb_erase_def)
  have h: "bsize st' z = (if z = x then units bs else bsize st z)"
    "bk_allocated (rb_heap st' z) = (z = x \<or> bk_allocated (rb_heap st z))"
    "bk_prev_allocated (rb_heap st' z) = bk_prev_allocated (rb_heap st z)"
    "bk_prev_size (rb_heap st' z) = (if z = lo then units bs else bk_prev_size (rb_heap st z))"
    "rb_free st' = im_erase I x (rb_free st)" "rb_allocated st' = rb_allocated st" for z
    by (simp_all add: e rb_read)
  have fr: "distinct (rb_free st)" "x \<in> set (rb_free st)" "sorted (map (bsize st) (rb_free st))"
      "set (rb_free st) = fst ` frees lo bs \<union> {x}"
    using rep by (auto simp: rb_rep_def x_def image_Un)
  note er = erase_facts [OF I fr(1,2)]
  have nx: "x \<notin> fst ` frees lo bs"
  proof
    assume "x \<in> fst ` frees lo bs"
    then obtain k where "(x, k) \<in> frees lo bs" by auto
    then show False using alloc_range [OF seg(1), of x k] by (auto simp: x_def)
  qed
  have "rb_seg (rb_heap st') lo bs" by (rule rb_seg_cong [OF _ _ seg(1)]) (use lx in \<open>auto simp: h x_def\<close>)
  moreover have "sorted (map (bsize st') (rb_free st'))"
    using er(2) er(3) [OF fr(3)] unfolding h(5) by (subst sorted_sizes_cong [where g = "bsize st"]) (auto simp: h)
  ultimately show "rb_rep lo x st' bs"
    using rep lx er(1,2) fr(4) nx by (auto simp: rb_rep_def h x_def)
  show "rb_size st' = x - rb_this st + 16" "rb_this st' = rb_this st" "rb_extra_hdr_bytes st' = rb_extra_hdr_bytes st"
    by (simp_all add: e rb_set_allocated_def rb_set_prev_size_def rb_set_size_def rb_erase_def rb_upd_def)
qed


lemma no_allocs_row:
  assumes "allocs a bs = {}" "isolated pa bs"
  shows "bs = [] \<or> (\<exists>k. bs = [(k, False)])"
proof (cases bs)
  case (Cons b bs')
  obtain k al where b: "b = (k, al)" by (cases b)
  have na: "\<not> al" using assms(1) Cons b by (auto split: if_splits)
  then have "allocs (a + 16 * k) bs' = {}" "isolated False bs'" using assms Cons b by auto
  moreover from this have "bs' = []" by (cases bs') auto
  ultimately show ?thesis using Cons b na by simp
qed simp

text \<open>A segment with one block, which is free: its first three units are kept.\<close>

lemma shrink_single_rep:
  assumes I: "imultiset_ok I" and rep: "rb_rep lo hi st [(n, False)]" and pl: "rb_placed sz st lo hi"
  shows "n < 6 \<Longrightarrow> rb_shrink_to_fit I sz st = None"
    and "6 \<le> n \<Longrightarrow> \<exists>st'. rb_shrink_to_fit I sz st = Some st' \<and> rb_rep lo (lo + 48) st' [(3, False)] \<and> rb_placed sz st' lo (lo + 48)"
proof -
  have p: "rb_first_block sz st = lo" "rb_this st \<le> lo" using pl by (simp_all add: rb_placed_def)
  have n3: "3 \<le> n" "bsize st lo = n" "hi = lo + 16 * n" using rep by (simp_all add: rb_rep_def)
  have u0: "unat (rb_priv_get_total_units 0) = 3" using total_units_nat [of 0] by simp
  define m where "m = (if 6 \<le> n then 3 else n)"
  have fr: "frees lo [(n, False)] = {(lo, n)}" "allocs lo [(n, False)] = {}" by simp_all
  have z: "unat (0 :: size_t) + 16 \<le> 2 ^ 64" by simp
  note br = rb_allocate_branch_rep [OF I rep order_refl z, unfolded u0 fr]
  obtain st1 r bs1 where br: "rb_allocate_branch I st 0 0 = Some (st1, lo + 16, r)" and r1: "rb_rep lo hi st1 bs1"
      "allocs lo bs1 = {(lo, m)}" "same_place st st1"
  proof (cases "rb_allocate_branch I st 0 0")
    case None
    then show thesis using br n3 by simp
  next
    case (Some r)
    obtain s p rc where r: "r = (s, p, rc)" by (cases r)
    from br obtain b k m' bs' where g: "p = b + 16" "(b, k) \<in> {(lo, n)}" "m' = (if 3 + 3 \<le> k then 3 else k)"
        "rb_rep lo hi s bs'" "allocs lo bs' = insert (b, m') {}" "same_place st s"
      unfolding Some r option.case prod.case by blast
    have bk: "b = lo" "k = n" using g(2) by simp_all
    have "m' = m" unfolding g(3) bk m_def by simp
    then have "allocs lo bs' = {(lo, m)}" using g(5) bk(1) by (simp only:)
    moreover have "rb_allocate_branch I st 0 0 = Some (s, lo + 16, rc)" unfolding Some r g(1) bk(1) ..
    ultimately show thesis using that g(4,6) by blast
  qed
  have mm: "(lo, m) \<in> allocs lo bs1" using r1(2) by simp
  obtain us vs where bs1: "bs1 = us @ (m, True) # vs" "lo = lo + 16 * units us" by (rule allocs_split [OF mm])
  have seg: "rb_seg (rb_heap st1) lo us" using r1(1) bs1(1) by (simp add: rb_rep_def)
  then have us: "us = []" using rb_seg_min [OF seg] bs1(2) by auto
  have s: "bsize st1 lo = m" "rb_seg (rb_heap st1) (lo + 16 * m) vs" "isolated True vs" "units vs = n - m"
    using r1(1) n3 by (auto simp: rb_rep_def bs1(1) us)
  have "(x, k) \<notin> allocs (lo + 16 * m) vs" for x k
  proof
    assume "(x, k) \<in> allocs (lo + 16 * m) vs"
    moreover from this have "(x, k) = (lo, m)" using r1(2) bs1(1) us by auto
    ultimately show False using alloc_range [OF s(2), of x k] n3 by (auto simp: m_def split: if_splits)
  qed
  then have "allocs (lo + 16 * m) vs = {}" by auto
  note vs = no_allocs_row [OF this s(3)]
  have e: "rb_shrink_to_fit I sz st =
     (let last_block = lo + 16 * m
      in if bk_allocated (rb_heap st1 last_block) then None
         else Some (rb_priv_deallocate I (rb_cut_segment I lo st1 last_block) (lo + 16)))"
    unfolding rb_shrink_to_fit_def Let_def p(1) rb_end_placed(1) [OF pl rep]
    using n3 br s(1) by (simp add: rb_read rb_priv_allocate_new_def)
  show "rb_shrink_to_fit I sz st = None" if "n < 6"
  proof -
    have "lo + 16 * m = hi" using that n3 by (simp add: m_def)
    moreover have "bk_allocated (rb_heap st1 hi)" using r1(1) unfolding rb_rep_def by blast
    ultimately show ?thesis unfolding e by simp
  qed
  show "\<exists>st'. rb_shrink_to_fit I sz st = Some st' \<and> rb_rep lo (lo + 48) st' [(3, False)] \<and> rb_placed sz st' lo (lo + 48)"
    if n6: "6 \<le> n"
  proof -
    have m: "m = 3" using n6 by (simp add: m_def)
    then have vs': "vs = [(n - 3, False)]" using vs s(4) n6 by auto
    then have r2: "rb_rep lo hi st1 ([(3, True)] @ [(n - 3, False)])" using r1(1) bs1(1) us m by simp
    note cut = cut_rep [OF I r2, simplified]
    define st2 where "st2 = rb_cut_segment I lo st1 (lo + 48)"
    have nf: "\<not> bk_allocated (rb_heap st1 (lo + 48))" using r2 by (simp add: rb_rep_def)
    have st': "rb_shrink_to_fit I sz st = Some (rb_priv_deallocate I st2 (lo + 16))" using e nf m by (simp add: st2_def)
    have r3: "rb_rep lo (lo + 48) st2 [(3, True)]" using cut(1) by (simp add: st2_def)
    have "(lo, 3) \<in> allocs lo [(3, True)]" by simp
    from rb_deallocate_rep [OF I r3 this] obtain bs' where d: "rb_rep lo (lo + 48) (rb_priv_deallocate I st2 (lo + 16)) bs'"
        "allocs lo bs' = {}" "same_place st2 (rb_priv_deallocate I st2 (lo + 16))" by auto
    have "isolated True bs'" "units bs' = 3" using d(1) by (auto simp: rb_rep_def)
    then have "bs' = [(3, False)]" using no_allocs_row [OF d(2), of True] by auto
    moreover have "rb_placed sz st2 lo (lo + 48)"
      using cut(2-4) p r1(3) by (simp add: rb_placed_def st2_def same_place_def rb_first_block_def)
    ultimately show ?thesis using st' d rb_placed_same [OF d(3)] by blast
  qed
qed

lemma shrink_to_fit_rep:
  assumes I: "imultiset_ok I" and rep: "rb_rep lo hi st bs" and pl: "rb_placed sz st lo hi" and ne: "\<nexists>n. bs = [(n, False)]"
  defines "bs' \<equiv> if last_alloc True bs then bs else butlast bs"
  shows "\<exists>st'. rb_shrink_to_fit I sz st = Some st' \<and> rb_rep lo (lo + 16 * units bs') st' bs' \<and> rb_placed sz st' lo (lo + 16 * units bs')
    \<and> allocs lo bs' = allocs lo bs \<and> last_alloc True bs'"
proof -
  have p: "rb_first_block sz st = lo" "rb_this st \<le> lo" "lo < hi" using pl by (simp_all add: rb_placed_def)
  have hi: "hi = lo + 16 * units bs" using rep by (simp add: rb_rep_def)
  obtain n al vs where bs: "bs = (n, al) # vs" using p(3) hi by (cases bs) auto
  have seg: "bsize st lo = n" "rb_seg (rb_heap st) (lo + 16 * n) vs" using rep bs by (simp_all add: rb_rep_def)
  have single: "rb_next_block st lo = hi \<longleftrightarrow> vs = []"
    using hi bs seg rb_seg_min [OF seg(2)] by (cases "vs = []") (auto simp: rb_read)
  have pf: "bk_prev_allocated (rb_heap st hi) = last_alloc True bs"
      "\<not> last_alloc True bs \<Longrightarrow> \<exists>us' q. bs = us' @ [(q, False)] \<and> bk_prev_size (rb_heap st hi) = q"
    using prev_flag [of lo hi st bs "[]" hi] rep hi by auto
  note sf = rb_shrink_to_fit_def [of I sz st, unfolded Let_def p(1) rb_end_placed(1) [OF pl rep]]
  consider (one) "vs = []" | (full) "vs \<noteq> []" "last_alloc True bs" | (free) "vs \<noteq> []" "\<not> last_alloc True bs" by blast
  then show ?thesis
  proof cases
    case one
    then have al: "al" using ne bs by auto
    then have "rb_free st = []" using rep bs one by (simp add: rb_rep_def)
    then have "rb_allocate_branch I st 0 0 = None"
      using lower_bound_facts(1) [OF I, of "bsize st" "rb_free st"] by (simp add: rb_allocate_branch_def Let_def)
    then have "rb_shrink_to_fit I sz st = Some st" unfolding sf using one single by (simp add: rb_priv_allocate_new_def)
    then show ?thesis using rep pl hi bs one al by (simp add: bs'_def)
  next
    case full
    then have "rb_shrink_to_fit I sz st = Some st" unfolding sf using single pf by (simp add: rb_read)
    then show ?thesis using rep pl hi full by (simp add: bs'_def)
  next
    case free
    then obtain us q where q: "bs = us @ [(q, False)]" "bk_prev_size (rb_heap st hi) = q" using pf(2) by blast
    have us: "us \<noteq> []" using free(1) q(1) bs by (cases us) auto
    have x: "rb_prev_block st hi = lo + 16 * units us" using hi q by (simp add: rb_read)
    have e: "rb_shrink_to_fit I sz st = Some (rb_cut_segment I lo st (lo + 16 * units us))"
      unfolding sf x using single free pf(1) by (simp add: rb_read)
    note cut = cut_rep [OF I rep [unfolded q(1)] us]
    have "0 < units us" using rb_seg_min [of "rb_heap st" lo us] us rep q(1) by (auto simp: rb_rep_def)
    moreover have "bs' = us" using free q(1) by (simp add: bs'_def)
    moreover have "allocs lo us = allocs lo bs" "last_alloc True us" using rep q(1) by (auto simp: rb_rep_def)
    ultimately show ?thesis using e cut p by (simp add: rb_placed_def rb_first_block_def)
  qed
qed

section \<open>Checks\<close>

lemma frees_sum:
  assumes "rb_seg h a bs"
  shows "finite (frees a bs)" "(\<Sum>b\<in>frees a bs. snd b) + alloc_units bs = units bs"
proof -
  have "finite (frees a bs) \<and> (\<Sum>b\<in>frees a bs. snd b) + alloc_units bs = units bs"
    using assms
  proof (induction bs arbitrary: a)
    case (Cons b bs)
    obtain n al where b: "b = (n, al)" by (cases b)
    have ih: "finite (frees (a + 16 * n) bs)" "(\<Sum>b\<in>frees (a + 16 * n) bs. snd b) + alloc_units bs = units bs"
      using Cons.IH [of "a + 16 * n"] Cons.prems b by auto
    have "(a, n) \<notin> frees (a + 16 * n) bs"
      using alloc_range [of h "a + 16 * n" bs a n] Cons.prems b by auto
    then show ?case using ih b by (cases al) auto
  qed simp
  then show "finite (frees a bs)" "(\<Sum>b\<in>frees a bs. snd b) + alloc_units bs = units bs" by auto
qed

lemma free_memory_sum:
  assumes rep: "rb_rep lo hi st bs"
  shows "(\<Sum>b\<leftarrow>rb_free st. bsize st b * 16) + rb_allocated st = hi - lo"
proof -
  have "(\<Sum>b\<leftarrow>rb_free st. bsize st b) = (\<Sum>b\<in>set (rb_free st). bsize st b)"
    using rep by (simp add: rb_rep_def sum_list_distinct_conv_sum_set)
  also have "\<dots> = (\<Sum>b\<in>frees lo bs. snd b)"
    unfolding free_sizes(1) [OF rep] by (subst sum.reindex) (auto simp: inj_on_def)
  finally have "(\<Sum>b\<leftarrow>rb_free st. bsize st b) + alloc_units bs = units bs" using frees_sum(2) [of "rb_heap st" lo bs] rep by (simp add: rb_rep_def)
  moreover have "(\<Sum>b\<leftarrow>rb_free st. bsize st b * 16) = (\<Sum>b\<leftarrow>rb_free st. bsize st b) * 16" by (simp add: sum_list_mult_const)
  ultimately show ?thesis using rep by (simp add: rb_rep_def)
qed

lemma rb_sanity_rep:
  assumes rep: "rb_rep lo hi st bs" and pl: "rb_placed sz st lo hi"
  shows "rb_check_sanity sz st"
proof -
  have p: "rb_this st \<le> lo" "lo < hi" "hi + 16 \<le> rb_this st + rb_size st" using pl by (simp_all add: rb_placed_def)
  have "b mod 16 = 0" if "b \<in> set (rb_free st)" for b
  proof -
    have "(b, bsize st b) \<in> frees lo bs" using that free_sizes(1) [OF rep] by auto
    then have "lo \<le> b" "(b - lo) mod 16 = 0" using alloc_range [of "rb_heap st" lo bs b "bsize st b"] rep by (auto simp: rb_rep_def)
    moreover have "lo mod 16 = 0" using rep by (simp add: rb_rep_def)
    ultimately show ?thesis by presburger
  qed
  then show ?thesis using free_memory_sum [OF rep] p by (auto simp: rb_check_sanity_def Let_def rb_placed_offset [OF pl])
qed

lemma rb_all_deallocated_rep:
  assumes rep: "rb_rep lo hi st bs" and pl: "rb_placed sz st lo hi"
  shows "rb_all_memory_deallocated sz st \<longleftrightarrow> allocs lo bs = {}"
proof
  assume "rb_all_memory_deallocated sz st"
  then have "rb_allocated st = 0" by (simp add: rb_all_memory_deallocated_def Let_def)
  then have z: "alloc_units bs = 0" using rep by (simp add: rb_rep_def)
  show "allocs lo bs = {}"
  proof (rule ccontr)
    assume "allocs lo bs \<noteq> {}"
    then obtain x n where x: "(x, n) \<in> allocs lo bs" by auto
    from allocs_split [OF x] obtain us vs where "bs = us @ (n, True) # vs" by blast
    then have "n = 0" using z by simp
    then show False using rep_bounds(2) [OF rep x] by simp
  qed
next
  assume e: "allocs lo bs = {}"
  have "bs \<noteq> []" "isolated True bs" using rep pl by (auto simp: rb_rep_def rb_placed_def)
  then obtain n where n: "bs = [(n, False)]" using no_allocs_row [OF e] by blast
  have f: "set (rb_free st) = {lo}" "distinct (rb_free st)" using rep n by (simp_all add: rb_rep_def)
  have "length (rb_free st) = 1" using distinct_card [OF f(2)] f(1) by simp
  then obtain x where "rb_free st = [x]" by (metis One_nat_def length_0_conv length_Suc_conv)
  then have "rb_free st = [lo]" using f(1) by simp
  then show "rb_all_memory_deallocated sz st"
    using rep n rb_end_placed(2) [OF pl rep] by (simp add: rb_all_memory_deallocated_def Let_def rb_placed_offset [OF pl] rb_rep_def)
qed

end
