(* ===== verification/Rbtree_Command.thy ===== *)
theory Rbtree_Command
  imports Rbtree_Segment
begin

text \<open>
  The allocation commands of the best fit algorithm: shrinking, expanding in both directions and allocating
  new memory, combined as \<^verbatim>\<open>priv_allocate\<close> combines them.
\<close>

lemma rb_algo_simps:
  "Alignment (rb_algo I) = 16" "AllocatedCtrlUnits (rb_algo I) = 1" "BlockCtrlUnits (rb_algo I) = 3"
  "UsableByPreviousChunk (rb_algo I) = 8" "AllocatedCtrlBytes (rb_algo I) = 16" "priv_allocate_new (rb_algo I) = rb_priv_allocate_new I"
  by (simp_all add: rb_algo_def AllocatedCtrlBytes_def)

lemma alloc_unique:
  assumes "rb_rep lo hi st bs" "(b, n) \<in> allocs lo bs" "(b, k) \<in> allocs lo bs"
  shows "k = n"
  using rep_bounds(3) [OF assms(1,2)] rep_bounds(3) [OF assms(1,3)] by simp

lemma rb_shrink_rep:
  assumes I: "imultiset_ok I" and rep: "rb_rep lo hi st bs" and b: "(b, n) \<in> allocs lo bs" and bound: "unat pref + 16 \<le> 2 ^ 64"
  shows "\<exists>st' ok rc bs' k. shrink (rb_algo I) st (b + 16) mx pref = Some (st', ok, rc) \<and> rb_rep lo hi st' bs' \<and> same_place st st'
    \<and> allocs lo bs' = insert (b, k) (allocs lo bs - {(b, n)}) \<and> k \<le> n
    \<and> (if ok then rc = user_bytes_of k \<and> unat pref \<le> rc else k = n)"
proof -
  let ?A = "allocs lo bs"
  have same: "insert (b, n) (?A - {(b, n)}) = ?A" using b by auto
  have l: "rb_live lo hi (rb_this st) (rb_extra_hdr_bytes st) (rb_size st) st ?A" using rep by (auto simp: rb_live_def)
  obtain st' ok rc where s: "shrink (rb_algo I) st (b + 16) mx pref = Some (st', ok, rc)"
    and c: "if ok then \<exists>k\<le>n. rc = user_bytes_of k
          \<and> rb_live lo hi (rb_this st) (rb_extra_hdr_bytes st) (rb_size st) st' (insert (b, k) (?A - {(b, n)}))
          \<and> unat (ceil_units (rb_algo I) (pref - 8)) + 1 \<le> k else st' = st"
    using mem_algo.shrink_live [OF rb_mem_algo [OF I] l b, of mx pref, unfolded rb_algo_simps of_nat_numeral] by blast
  show ?thesis
  proof (cases ok)
    case False
    then show ?thesis using s c rep same by (intro exI [of _ st] exI [of _ ok] exI [of _ rc] exI [of _ bs] exI [of _ n]) simp
  next
    case True
    then obtain k where k: "k \<le> n" "rc = user_bytes_of k" "unat (ceil_units (rb_algo I) (pref - 8)) + 1 \<le> k"
      and l': "rb_live lo hi (rb_this st) (rb_extra_hdr_bytes st) (rb_size st) st' (insert (b, k) (?A - {(b, n)}))"
      using c by auto
    obtain bs' where r: "rb_rep lo hi st' bs'" "allocs lo bs' = insert (b, k) (?A - {(b, n)})" by (rule rb_liveE [OF l'])
    have "unat pref \<le> rc"
    proof (cases "pref < 8")
      case True
      then show ?thesis using k(2) by (simp add: word_less_nat_alt)
    next
      case False
      then have e: "unat (pref - 8) = unat pref - 8" by (simp add: unat_sub not_less)
      have "unat (ceil_units (rb_algo I) (pref - 8)) = (unat pref - 8 + 15) div 16"
        using rounded_units_nat [of "pref - 8"] bound e by (simp add: ceil_units_def rb_algo_def)
      then have "(unat pref - 8 + 15) div 16 < k" using k(3) by simp
      then have "unat pref - 8 + 15 < k * 16" by (simp add: div_less_iff_less_mult)
      then show ?thesis unfolding k(2) by (simp add: diff_mult_distrib)
    qed
    moreover have "same_place st st'" using l' by (simp add: rb_live_def same_place_def)
    ultimately show ?thesis using s r k True
      by (intro exI [of _ st'] exI [of _ ok] exI [of _ rc] exI [of _ bs'] exI [of _ k]) simp
  qed
qed

text \<open>Allocation of new memory: a block that was free, or no change.\<close>

lemma allocate_new_rep:
  assumes I: "imultiset_ok I" and rep: "rb_rep lo hi st bs" and le: "limit \<le> preferred"
    and n: "unat preferred + 16 \<le> 2 ^ 64"
  shows "case rb_allocate_branch I st limit preferred of
      Some (st', p, r) \<Rightarrow> \<exists>b m bs'. p = b + 16 \<and> r = user_bytes_of m \<and> unat limit \<le> r \<and> (b, m) \<notin> allocs lo bs
        \<and> rb_rep lo hi st' bs' \<and> allocs lo bs' = insert (b, m) (allocs lo bs) \<and> same_place st st'
    | None \<Rightarrow> \<forall>(c, m)\<in>frees lo bs. user_bytes_of m < unat limit"
proof -
  have lim: "unat limit + 16 \<le> 2 ^ 64" using le n by (simp add: word_le_nat_alt)
  note br = rb_allocate_branch_rep [OF I rep le n]
  have seg: "rb_seg (rb_heap st) lo bs" using rep by (simp add: rb_rep_def)
  show ?thesis
  proof (cases "rb_allocate_branch I st limit preferred")
    case None
    have "user_bytes_of m < unat limit" if m: "(c, m) \<in> frees lo bs" for c m
      using br m total_units_least [OF lim, of m] free_sizes(2) [OF rep m] unfolding None by fastforce
    then show ?thesis unfolding None by auto
  next
    case (Some r)
    obtain st' p rc where r: "r = (st', p, rc)" by (cases r)
    obtain b k m bs' where g: "p = b + 16" "rc = user_bytes_of m" "(b, k) \<in> frees lo bs" "unat (rb_priv_get_total_units limit) \<le> m"
        "rb_rep lo hi st' bs'" "allocs lo bs' = insert (b, m) (allocs lo bs)" "same_place st st'"
      using br unfolding Some r option.case prod.case by blast
    have m3: "3 \<le> m" using rep_bounds(2) [OF g(5)] g(6) by blast
    have "(b, m) \<notin> allocs lo bs" using frees_alloc_disjoint [OF seg g(3), of b m] free_sizes(2) [OF rep g(3)] m3 by auto
    moreover have "unat limit \<le> rc" using total_units_least [OF lim m3] g(2,4) by simp
    ultimately show ?thesis unfolding Some r option.case prod.case using g by blast
  qed
qed

text \<open>
  The outcome of a command on the block \<open>b\<close> of \<open>n\<close> units: the pointer, the received size, whether the buffer was
  reused, and the allocated blocks before and after. A refused command may still have expanded the block.
\<close>

definition rb_outcome ::
  "allocation_type \<Rightarrow> size_t \<Rightarrow> size_t \<Rightarrow> size_t \<Rightarrow> nat \<Rightarrow> nat \<Rightarrow> nat \<Rightarrow> nat \<Rightarrow> nat \<Rightarrow> (nat \<times> nat) set \<Rightarrow> (nat \<times> nat) set \<Rightarrow> bool" where
  "rb_outcome cmd limit pref S b n p rc reuse A A' \<longleftrightarrow>
     (if p = 0 then \<exists>k\<ge>n. A' = insert (b, k) (A - {(b, n)})
      else if reuse = 0
      then \<exists>a m k. p = a + 16 \<and> rc = user_bytes_of m \<and> unat limit \<le> rc \<and> n \<le> k \<and> (a, m) \<notin> insert (b, k) (A - {(b, n)})
             \<and> A' = insert (a, m) (insert (b, k) (A - {(b, n)}))
      else \<exists>a k. p = a + 16 \<and> rc = user_bytes_of k \<and> A' = insert (a, k) (A - {(b, n)})
             \<and> (if shrink_in_place cmd then a = b \<and> k \<le> n \<and> unat pref \<le> rc
                else a \<le> b \<and> b + 16 * n \<le> a + 16 * k \<and> unat limit \<le> rc \<and> unat S dvd b - a \<and> (\<not> expand_bwd cmd \<longrightarrow> a = b)))"

lemma rb_command_rep:
  assumes I: "imultiset_ok I" and rep: "rb_rep lo hi st bs" and b: "(b, n) \<in> allocs lo bs"
    and S: "S \<noteq> 0" "unat S dvd unat limit" "unat S dvd unat pref" and bound: "unat pref + 16 * unat S + 16 < 2 ^ 64"
    and al: "align \<le> 16"
  shows "\<exists>st' p rc reuse bs'. rb_priv_allocate I st cmd limit pref (b + 16) S align = Some (st', p, rc, reuse)
    \<and> rb_rep lo hi st' bs' \<and> same_place st st' \<and> rb_outcome cmd limit pref S b n p rc reuse (allocs lo bs) (allocs lo bs')"
proof -
  let ?A = "allocs lo bs" and ?r = "b + 16"
  have same: "insert (b, n) (?A - {(b, n)}) = ?A" using b by auto
  have al': "(if align < 16 then 16 else align) = 16" using al by auto
  note pa = rb_priv_allocate_def [of I st cmd limit pref ?r S align, unfolded Let_def al']
  consider (shrink) "shrink_in_place cmd" | (bad) "\<not> shrink_in_place cmd" "limit > pref"
    | (grow) "\<not> shrink_in_place cmd" "limit \<le> pref" by fastforce
  then show ?thesis
  proof cases
    case shrink
    have "unat pref + 16 \<le> 2 ^ 64" using bound by simp
    from rb_shrink_rep [OF I rep b this, of limit] obtain st' ok rc bs' k where
      s: "shrink (rb_algo I) st ?r limit pref = Some (st', ok, rc)" and r: "rb_rep lo hi st' bs'" "same_place st st'"
        "allocs lo bs' = insert (b, k) (?A - {(b, n)})" "k \<le> n"
        and c: "if ok then rc = user_bytes_of k \<and> unat pref \<le> rc else k = n" by blast
    have e: "rb_priv_allocate I st cmd limit pref ?r S align = Some (st', if ok then ?r else 0, rc, ?r)"
      unfolding pa using shrink s by simp
    have "rb_outcome cmd limit pref S b n (if ok then ?r else 0) rc ?r ?A (allocs lo bs')"
      using c r(3,4) shrink by (cases ok) (auto simp: rb_outcome_def)
    then show ?thesis using e r by blast
  next
    case bad
    then have "rb_priv_allocate I st cmd limit pref ?r S align = Some (st, 0, 0, 0)" unfolding pa by simp
    moreover have "rb_outcome cmd limit pref S b n 0 0 0 ?A ?A" using same by (auto simp: rb_outcome_def)
    ultimately show ?thesis using rep by (metis same_place_refl)
  next
    case grow
    define expands where "expands = (expand_fwd cmd \<or> expand_bwd cmd)"
    define ex1 where "ex1 = (if expands then rb_expand_both_sides I st cmd limit pref ?r True S 16 else Some (st, 0, unat pref))"
    have bd: "unat pref + 16 \<le> 2 ^ 64" using bound by simp
    note ebs = expand_both_sides_rep [OF I _ _ grow(2) S bound]
    have "\<exists>st1 ret rc a k bs1. ex1 = Some (st1, ret, rc)
      \<and> rb_rep lo hi st1 bs1 \<and> allocs lo bs1 = insert (a, k) (?A - {(b, n)}) \<and> same_place st st1
      \<and> a \<le> b \<and> b + 16 * n \<le> a + 16 * k
      \<and> (if ret = 0 then a = b else ret = a + 16 \<and> rc = user_bytes_of k \<and> unat limit \<le> rc \<and> unat S dvd b - a
         \<and> (\<not> expand_bwd cmd \<longrightarrow> a = b))"
    proof (cases expands)
      case True
      then show ?thesis using ebs [OF rep b, of cmd True] by (simp only: ex1_def if_True)
    next
      case False
      then show ?thesis using rep same unfolding ex1_def
        by (intro exI [of _ st] exI [of _ 0] exI [of _ "unat pref"] exI [of _ b] exI [of _ n] exI [of _ bs]) simp
    qed
    then obtain st1 ret rc a k bs1 where ex1: "ex1 = Some (st1, ret, rc)" and r1: "rb_rep lo hi st1 bs1"
      "allocs lo bs1 = insert (a, k) (?A - {(b, n)})" "same_place st st1" and rng: "a \<le> b" "b + 16 * n \<le> a + 16 * k"
      and res: "if ret = 0 then a = b else ret = a + 16 \<and> rc = user_bytes_of k \<and> unat limit \<le> rc \<and> unat S dvd b - a
         \<and> (\<not> expand_bwd cmd \<longrightarrow> a = b)" by blast
    have e: "rb_priv_allocate I st cmd limit pref ?r S align =
       (if ret \<noteq> 0 then Some (st1, ret, rc, ?r)
        else (case (if allocate_new cmd then rb_allocate_branch I st1 limit pref else None) of
                Some (st, p, received) \<Rightarrow> Some (st, p, received, 0)
              | None \<Rightarrow>
                  if expands
                  then do {
                    (st, ret, received) \<leftarrow> rb_expand_both_sides I st1 cmd limit pref ?r False S 16;
                    Some (st, ret, received, ?r)
                  }
                  else Some (st1, 0, rc, 0)))"
    proof -
      have nl: "\<not> pref < limit" using grow(2) by simp
      have r0: "(?r \<noteq> 0 \<and> (expand_fwd cmd \<or> expand_bwd cmd)) = expands" by (simp add: expands_def)
      show ?thesis unfolding pa if_not_P [OF grow(1)] if_not_P [OF nl] r0 ex1_def [symmetric] ex1 by simp
    qed
    show ?thesis
    proof (cases "ret = 0")
      case False
      then have "rb_outcome cmd limit pref S b n ret rc ?r ?A (allocs lo bs1)"
        using res rng r1(2) grow(1) unfolding rb_outcome_def by auto
      then show ?thesis using e False r1 by auto
    next
      case True
      then have ab: "a = b" "n \<le> k" using res rng by auto
      have bk: "(b, k) \<in> allocs lo bs1" and A1: "allocs lo bs1 = insert (b, k) (?A - {(b, n)})" using r1(2) ab by simp_all
      have "(b, k) \<notin> ?A - {(b, n)}" using alloc_unique [OF rep b, of k] by auto
      then have rest: "allocs lo bs1 - {(b, k)} = ?A - {(b, n)}" using A1 by auto
      show ?thesis
      proof (cases "if allocate_new cmd then rb_allocate_branch I st1 limit pref else None")
        case (Some r)
        obtain st2 p rc2 where r: "r = (st2, p, rc2)" by (cases r)
        have "rb_allocate_branch I st1 limit pref = Some (st2, p, rc2)" using Some r by (auto split: if_splits)
        with allocate_new_rep [OF I r1(1) grow(2) bd] obtain c m bs2 where g: "p = c + 16" "rc2 = user_bytes_of m"
          "unat limit \<le> rc2" "(c, m) \<notin> allocs lo bs1" "rb_rep lo hi st2 bs2" "allocs lo bs2 = insert (c, m) (allocs lo bs1)"
          "same_place st1 st2" by auto
        have "rb_outcome cmd limit pref S b n p rc2 0 ?A (allocs lo bs2)"
          using g ab(2) unfolding rb_outcome_def A1 by auto
        moreover have "rb_priv_allocate I st cmd limit pref ?r S align = Some (st2, p, rc2, 0)" unfolding e Some r using True by simp
        ultimately show ?thesis using g(5) same_place_trans [OF r1(3) g(7)] by blast
      next
        case None
        show ?thesis
        proof (cases expands)
          case False
          then have "rb_priv_allocate I st cmd limit pref ?r S align = Some (st1, 0, rc, 0)" unfolding e None using True by simp
          moreover have "rb_outcome cmd limit pref S b n 0 rc 0 ?A (allocs lo bs1)" using A1 ab(2) by (auto simp: rb_outcome_def)
          ultimately show ?thesis using r1 by blast
        next
          case ex: True
          from ebs [OF r1(1) bk, of cmd False, unfolded rest] obtain st2 ret2 rc2 a2 k2 bs2 where
            e2: "rb_expand_both_sides I st1 cmd limit pref ?r False S 16 = Some (st2, ret2, rc2)"
            and r2: "rb_rep lo hi st2 bs2" "allocs lo bs2 = insert (a2, k2) (?A - {(b, n)})" "same_place st1 st2"
            and rng2: "a2 \<le> b" "b + 16 * k \<le> a2 + 16 * k2"
            and res2: "if ret2 = 0 then a2 = b else ret2 = a2 + 16 \<and> rc2 = user_bytes_of k2 \<and> unat limit \<le> rc2 \<and> unat S dvd b - a2
              \<and> (\<not> expand_bwd cmd \<longrightarrow> a2 = b)" by blast
          have "b + 16 * n \<le> a2 + 16 * k2" using rng2(2) ab(2) by linarith
          then have "rb_outcome cmd limit pref S b n ret2 rc2 ?r ?A (allocs lo bs2)"
            using res2 rng2 r2(2) grow(1) unfolding rb_outcome_def by (auto split: if_splits)
          moreover have "rb_priv_allocate I st cmd limit pref ?r S align = Some (st2, ret2, rc2, ?r)"
            unfolding e None using True ex e2 by simp
          ultimately show ?thesis using r2(1) same_place_trans [OF r1(3) r2(3)] by blast
        qed
      qed
    qed
  qed
qed

end
