(* ===== verification/Rbtree_Props.thy ===== *)
theory Rbtree_Props
  imports Rbtree_Command
begin

text \<open>
  The properties of the best fit algorithm: best fit allocation, deallocation, the allocation commands,
  resizing of the segment, and the sequences of these operations. The multiset is any that keeps its contract; the
  witnesses use sorted lists.
\<close>

section \<open>A segment for the witnesses\<close>

definition sample_rb_heap :: "nat \<Rightarrow> rb_block" where
  "sample_rb_heap = (\<lambda>_. \<lparr>bk_prev_size = 0, bk_size = 0, bk_prev_allocated = False, bk_allocated = False\<rparr>)"

definition sample_rb :: rb_fit where
  "sample_rb = rb_construct list_imultiset 64 65536 sample_rb_heap 4096 0"

lemma sample_rb_offset: "rb_first_block_offset 64 65536 0 = 64"
  by (simp add: rb_first_block_offset_def get_rounded_size_def)

lemma sample_rb_rep: "rb_rep 65600 69616 sample_rb [(251, False)]" "rb_placed 64 sample_rb 65600 69616"
    "rb_this sample_rb = 65536" "rb_size sample_rb = 4096"
  using rb_construct_rep(1-4) [OF list_imultiset_ok, where sz = 64 and this_ptr = 65536 and extra = 0 and segment_size = 4096
      and heap = sample_rb_heap] by (simp_all add: sample_rb_offset flip: sample_rb_def)

section \<open>Allocation and deallocation\<close>

lemma rb_allocate_eq:
  "rb_allocate I st nbytes = Some (case rb_allocate_branch I st nbytes nbytes of Some (st', p, _) \<Rightarrow> (st', p) | None \<Rightarrow> (st, 0))"
  by (auto simp: rb_allocate_def rb_priv_allocate_def only_new_def Let_def split: option.splits)

text \<open>The result of the search, for any request.\<close>

lemma ballI2: "(\<And>x y. (x, y) \<in> A \<Longrightarrow> P x y) \<Longrightarrow> \<forall>(x, y)\<in>A. P x y"
  by auto

lemma allocate_any_rep:
  fixes nbytes :: size_t
  assumes I: "imultiset_ok I" and rep: "rb_rep lo hi st bs"
  defines "u \<equiv> unat (rb_priv_get_total_units nbytes)"
  shows "case rb_allocate_branch I st nbytes nbytes of
      Some (st', p, r) \<Rightarrow> \<exists>b k m bs'. p = b + 16 \<and> b mod 16 = 0 \<and> (b, k) \<in> frees lo bs
        \<and> (\<forall>(c, j)\<in>frees lo bs. u \<le> j \<longrightarrow> k \<le> j) \<and> 3 \<le> u \<and> u \<le> m \<and> m \<le> k \<and> m < u + 3
        \<and> (\<forall>(c, j)\<in>allocs lo bs. b + 16 * m \<le> c \<or> c + 16 * j \<le> b)
        \<and> rb_rep lo hi st' bs' \<and> allocs lo bs' = insert (b, m) (allocs lo bs) \<and> same_place st st'
    | None \<Rightarrow> \<forall>(c, j)\<in>frees lo bs. j < u"
proof -
  note br = rb_branch_rep [OF I rep order_refl, of nbytes, folded u_def]
  show ?thesis
  proof (cases "rb_allocate_branch I st nbytes nbytes")
    case None
    then show ?thesis using br by simp
  next
    case (Some r)
    obtain st' p rc where r: "r = (st', p, rc)" by (cases r)
    obtain b k m bs' where g: "p = b + 16" "(b, k) \<in> frees lo bs" "best_fit u k (frees lo bs)" "u \<le> m"
        "m = (if u + 3 \<le> k then u else k)" "rb_rep lo hi st' bs'" "allocs lo bs' = insert (b, m) (allocs lo bs)" "same_place st st'"
      using br unfolding Some r option.case prod.case by blast
    have uk: "u \<le> k" "m \<le> k" "m < u + 3" using g(4,5) by (auto split: if_splits)
    have "b mod 16 = 0" using rep_bounds(7) [OF g(6)] g(7) by blast
    moreover have "\<forall>(c, j)\<in>frees lo bs. u \<le> j \<longrightarrow> k \<le> j" using g(3) uk(1) by (simp add: best_fit_def)
    moreover have "\<forall>(c, j)\<in>allocs lo bs. b + 16 * m \<le> c \<or> c + 16 * j \<le> b"
      using frees_alloc_disjoint [of "rb_heap st" lo bs b k] rep g(2) uk(2) by (fastforce simp: rb_rep_def)
    moreover have "3 \<le> u" unfolding u_def by (rule total_units_min)
    ultimately show ?thesis unfolding Some r option.case prod.case using g(1,2,4,6-8) uk(2,3)
      by (intro exI [of _ b] exI [of _ k] exI [of _ m] exI [of _ bs'] conjI) assumption+
  qed
qed

lemma allocate_fitting:
  assumes I: "imultiset_ok I" and rep: "rb_rep lo hi st bs" and n: "unat nbytes + 8 \<le> 2 ^ 64"
  shows "\<exists>st' p. rb_allocate I st nbytes = Some (st', p)
    \<and> (if \<exists>(c, m)\<in>frees lo bs. unat nbytes \<le> user_bytes_of m
       then \<exists>b k m bs'. p = b + 16 \<and> p mod 16 = 0 \<and> (b, k) \<in> frees lo bs
         \<and> (\<forall>(c, j)\<in>frees lo bs. unat nbytes \<le> user_bytes_of j \<longrightarrow> k \<le> j)
         \<and> m \<le> k \<and> unat nbytes \<le> user_bytes_of m \<and> (\<forall>j\<ge>3. unat nbytes \<le> user_bytes_of j \<longrightarrow> m < j + 3)
         \<and> (\<forall>(c, j)\<in>allocs lo bs. b + 16 * m \<le> c \<or> c + 16 * j \<le> b)
         \<and> rb_rep lo hi st' bs' \<and> allocs lo bs' = insert (b, m) (allocs lo bs)
       else p = 0 \<and> st' = st)"
proof -
  define u where "u = unat (rb_priv_get_total_units nbytes)"
  have f3: "(c, m) \<in> frees lo bs \<Longrightarrow> 3 \<le> m" for c m using free_sizes(2) [OF rep] by blast
  have fits: "u \<le> m \<longleftrightarrow> unat nbytes \<le> user_bytes_of m" if "3 \<le> m" for m
    unfolding u_def by (rule total_units_fit [OF n that])
  note br = allocate_any_rep [OF I rep, of nbytes, folded u_def]
  show ?thesis
  proof (cases "rb_allocate_branch I st nbytes nbytes")
    case None
    then have "\<not> (\<exists>(c, m)\<in>frees lo bs. unat nbytes \<le> user_bytes_of m)" using br fits f3 by fastforce
    then show ?thesis using None by (simp add: rb_allocate_eq)
  next
    case (Some r)
    obtain st' p rc where r: "r = (st', p, rc)" by (cases r)
    obtain b k m bs' where g: "p = b + 16" "b mod 16 = 0" "(b, k) \<in> frees lo bs" "\<forall>(c, j)\<in>frees lo bs. u \<le> j \<longrightarrow> k \<le> j"
        "3 \<le> u" "u \<le> m" "m \<le> k" "m < u + 3" "\<forall>(c, j)\<in>allocs lo bs. b + 16 * m \<le> c \<or> c + 16 * j \<le> b"
        "rb_rep lo hi st' bs'" "allocs lo bs' = insert (b, m) (allocs lo bs)" "same_place st st'"
      using br unfolding Some r option.case prod.case by (elim exE conjE)
    have e: "rb_allocate I st nbytes = Some (st', p)" using Some r by (simp add: rb_allocate_eq)
    have uk: "u \<le> k" and m3: "3 \<le> m" and pm: "p mod 16 = 0" using g(1,2,5-7) by simp_all
    have ex: "\<exists>(c, m)\<in>frees lo bs. unat nbytes \<le> user_bytes_of m" using g(3) fits [OF f3 [OF g(3)]] uk by blast
    have best: "\<forall>(c, j)\<in>frees lo bs. unat nbytes \<le> user_bytes_of j \<longrightarrow> k \<le> j"
      by (rule ballI2) (use g(4) fits f3 in blast)
    have tight: "\<forall>j\<ge>3. unat nbytes \<le> user_bytes_of j \<longrightarrow> m < j + 3" using fits g(8) by fastforce
    show ?thesis unfolding if_P [OF ex]
      by (intro exI [of _ st'] exI [of _ p] exI [of _ b] exI [of _ k] exI [of _ m] exI [of _ bs'] conjI)
        (rule e g(1) pm g(3) best g(7) fits [OF m3, THEN iffD1, OF g(6)] tight g(9) g(10) g(11))+
  qed
qed

lemma allocate_wrapping:
  assumes I: "imultiset_ok I" and rep: "rb_rep lo hi st bs" and n: "\<not> unat nbytes + 8 \<le> 2 ^ 64"
  shows "\<exists>st' p. rb_allocate I st nbytes = Some (st', p)
    \<and> (if frees lo bs = {} then p = 0 \<and> st' = st
       else \<exists>b k m bs'. p = b + 16 \<and> (b, k) \<in> frees lo bs \<and> (\<forall>(c, j)\<in>frees lo bs. k \<le> j) \<and> m \<le> 5
         \<and> rb_rep lo hi st' bs' \<and> allocs lo bs' = insert (b, m) (allocs lo bs))"
proof -
  have u: "unat (rb_priv_get_total_units nbytes) = 3" by (rule total_units_wraps) (use n in linarith)
  have f3: "(c, m) \<in> frees lo bs \<Longrightarrow> 3 \<le> m" for c m using free_sizes(2) [OF rep] by blast
  note br = allocate_any_rep [OF I rep, of nbytes, unfolded u]
  show ?thesis
  proof (cases "rb_allocate_branch I st nbytes nbytes")
    case None
    then have "frees lo bs = {}" using br f3 by fastforce
    then show ?thesis using None by (simp add: rb_allocate_eq)
  next
    case (Some r)
    obtain st' p rc where r: "r = (st', p, rc)" by (cases r)
    obtain b k m bs' where g: "p = b + 16" "b mod 16 = 0" "(b, k) \<in> frees lo bs" "\<forall>(c, j)\<in>frees lo bs. 3 \<le> j \<longrightarrow> k \<le> j"
        "(3::nat) \<le> 3" "3 \<le> m" "m \<le> k" "m < 3 + 3" "\<forall>(c, j)\<in>allocs lo bs. b + 16 * m \<le> c \<or> c + 16 * j \<le> b"
        "rb_rep lo hi st' bs'" "allocs lo bs' = insert (b, m) (allocs lo bs)" "same_place st st'"
      using br unfolding Some r option.case prod.case by (elim exE conjE)
    have e: "rb_allocate I st nbytes = Some (st', p)" using Some r by (simp add: rb_allocate_eq)
    have m: "\<forall>(c, j)\<in>frees lo bs. k \<le> j" "m \<le> 5" using g(4,8) f3 by auto
    have ne: "frees lo bs \<noteq> {}" using g(3) by blast
    show ?thesis unfolding if_not_P [OF ne]
      by (intro exI [of _ st'] exI [of _ p] exI [of _ b] exI [of _ k] exI [of _ m] exI [of _ bs'] conjI) (rule e m g)+
  qed
qed

text \<open>
  C12: \<^verbatim>\<open>allocate\<close> of the best fit algorithm always returns. For a request of at most \<open>2 ^ 64 - 8\<close> bytes: if some free
  block can hold the request, the result is taken from a smallest one that can; the buffer is 16-byte aligned, at
  least as large as asked for, less than three units larger than needed, and overlaps no allocated block, and
  exactly that block is added to the allocated ones; otherwise the result is null and nothing changes. For a
  larger request the number of units wraps: whatever was asked for, the result is a block of three to five units
  from a smallest free block, and null only if no block is free.
\<close>

theorem rb_allocate_best_fit:
  assumes I: "imultiset_ok I" and rep: "rb_rep lo hi st bs"
  shows "\<exists>st' p. rb_allocate I st nbytes = Some (st', p)
    \<and> (if unat nbytes + 8 \<le> 2 ^ 64
       then (if \<exists>(c, m)\<in>frees lo bs. unat nbytes \<le> user_bytes_of m
         then \<exists>b k m bs'. p = b + 16 \<and> p mod 16 = 0 \<and> (b, k) \<in> frees lo bs
           \<and> (\<forall>(c, j)\<in>frees lo bs. unat nbytes \<le> user_bytes_of j \<longrightarrow> k \<le> j)
           \<and> m \<le> k \<and> unat nbytes \<le> user_bytes_of m \<and> (\<forall>j\<ge>3. unat nbytes \<le> user_bytes_of j \<longrightarrow> m < j + 3)
           \<and> (\<forall>(c, j)\<in>allocs lo bs. b + 16 * m \<le> c \<or> c + 16 * j \<le> b)
           \<and> rb_rep lo hi st' bs' \<and> allocs lo bs' = insert (b, m) (allocs lo bs)
         else p = 0 \<and> st' = st)
       else (if frees lo bs = {} then p = 0 \<and> st' = st
         else \<exists>b k m bs'. p = b + 16 \<and> (b, k) \<in> frees lo bs \<and> (\<forall>(c, j)\<in>frees lo bs. k \<le> j) \<and> m \<le> 5
           \<and> rb_rep lo hi st' bs' \<and> allocs lo bs' = insert (b, m) (allocs lo bs)))"
proof (cases "unat nbytes + 8 \<le> 2 ^ 64")
  case True
  show ?thesis unfolding if_P [OF True] by (rule allocate_fitting [OF I rep True])
next
  case False
  show ?thesis unfolding if_not_P [OF False] by (rule allocate_wrapping [OF I rep False])
qed

theorem rb_allocate_best_fit_witness:
  "(\<exists>st' p. rb_allocate list_imultiset sample_rb 100 = Some (st', p) \<and> p = 65616
      \<and> (\<exists>m bs'. 100 \<le> user_bytes_of m \<and> rb_rep 65600 69616 st' bs' \<and> allocs 65600 bs' = {(65600, m)}))
   \<and> (\<exists>st' m bs'. rb_allocate list_imultiset sample_rb (- 1) = Some (st', 65616) \<and> m \<le> 5
      \<and> rb_rep 65600 69616 st' bs' \<and> allocs 65600 bs' = {(65600, m)})"
  using rb_allocate_best_fit [OF list_imultiset_ok sample_rb_rep(1), of 100]
    rb_allocate_best_fit [OF list_imultiset_ok sample_rb_rep(1), of "- 1"] by (auto simp: size_t_max_unat)

text \<open>
  C26: Deallocation in the best fit algorithm removes exactly the given block from the allocated ones and joins it
  with its free neighbours, so that no two free blocks are ever adjacent; the blocks and the multiset agree
  again, and \<^verbatim>\<open>all_memory_deallocated\<close> answers true exactly if it was the last allocated block.
\<close>

theorem rb_deallocate_joins:
  assumes I: "imultiset_ok I" and rep: "rb_rep lo hi st bs" and pl: "rb_placed sz st lo hi" and b: "(b, n) \<in> allocs lo bs"
  shows "\<exists>bs'. rb_rep lo hi (rb_deallocate I st (b + 16)) bs' \<and> allocs lo bs' = allocs lo bs - {(b, n)} \<and> isolated True bs'
    \<and> rb_placed sz (rb_deallocate I st (b + 16)) lo hi
    \<and> (rb_all_memory_deallocated sz (rb_deallocate I st (b + 16)) \<longleftrightarrow> allocs lo bs = {(b, n)})"
proof -
  have d: "rb_deallocate I st (b + 16) = rb_priv_deallocate I st (b + 16)" by (simp add: rb_deallocate_def)
  obtain bs' where r: "rb_rep lo hi (rb_deallocate I st (b + 16)) bs'" "allocs lo bs' = allocs lo bs - {(b, n)}"
      "same_place st (rb_deallocate I st (b + 16))"
    using rb_deallocate_rep [OF I rep b] unfolding d by blast
  have "isolated True bs'" using r(1) by (simp add: rb_rep_def)
  moreover have "allocs lo bs' = {} \<longleftrightarrow> allocs lo bs = {(b, n)}" using r(2) b by auto
  ultimately show ?thesis using r rb_all_deallocated_rep [OF r(1) rb_placed_same [OF r(3) pl]] rb_placed_same [OF r(3) pl] by blast
qed

lemma sample_rb_used: "\<exists>st bs m. rb_rep 65600 69616 st bs \<and> rb_placed 64 st 65600 69616 \<and> allocs 65600 bs = {(65600, m)}"
proof -
  have u: "unat (rb_priv_get_total_units 100) = 7" using total_units_nat [of 100] by simp
  have f: "(65600, 251) \<in> frees 65600 [(251, False)]" by simp
  show ?thesis
    using check_and_allocate_rep [OF list_imultiset_ok sample_rb_rep(1) f, of 7] rb_placed_same [OF _ sample_rb_rep(2)] by fastforce
qed

theorem rb_deallocate_joins_witness:
  "\<exists>st bs m bs'. rb_rep 65600 69616 st bs \<and> allocs 65600 bs = {(65600, m)}
    \<and> rb_rep 65600 69616 (rb_deallocate list_imultiset st 65616) bs' \<and> allocs 65600 bs' = {}
    \<and> rb_all_memory_deallocated 64 (rb_deallocate list_imultiset st 65616)"
proof -
  obtain st bs m where s: "rb_rep 65600 69616 st bs" "rb_placed 64 st 65600 69616" "allocs 65600 bs = {(65600, m)}"
    using sample_rb_used by blast
  have b: "(65600, m) \<in> allocs 65600 bs" using s(3) by simp
  show ?thesis using rb_deallocate_joins [OF list_imultiset_ok s(1,2) b] s by auto
qed

section \<open>Commands\<close>

text \<open>
  C25: A command on an allocated buffer of the best fit algorithm, for objects with an alignment of at most 16
  whose size is not zero and divides the limit and the preferred size, and with
  \<open>preferred size + 16 * object size + 16 < 2 ^ 64\<close>, always returns. If it succeeds by reusing the
  buffer, the new buffer covers the old one (after shrinking, is its beginning), lies a multiple of the object size
  before it, and is large enough; if it allocates new memory, the new block is disjoint from all others and the
  old buffer stays; if it fails, every block stays where it is and none becomes smaller. In all cases the
  state stays well-formed and no other block changes.
\<close>

theorem rb_command_outcome:
  assumes I: "imultiset_ok I" and rep: "rb_rep lo hi st bs" and b: "(b, n) \<in> allocs lo bs"
    and S: "S \<noteq> 0" "unat S dvd unat limit" "unat S dvd unat pref" and bound: "unat pref + 16 * unat S + 16 < 2 ^ 64"
    and al: "align \<le> 16"
  shows "\<exists>st' p rc reuse bs'. rb_priv_allocate I st cmd limit pref (b + 16) S align = Some (st', p, rc, reuse)
    \<and> rb_rep lo hi st' bs' \<and> rb_size st' = rb_size st
    \<and> (if p = 0 then \<exists>k\<ge>n. allocs lo bs' = insert (b, k) (allocs lo bs - {(b, n)})
       else if reuse = 0
       then \<exists>a m k. p = a + 16 \<and> rc = user_bytes_of m \<and> unat limit \<le> rc \<and> n \<le> k
              \<and> (\<forall>(c, j)\<in>insert (b, k) (allocs lo bs - {(b, n)}). a + 16 * m \<le> c \<or> c + 16 * j \<le> a)
              \<and> allocs lo bs' = insert (a, m) (insert (b, k) (allocs lo bs - {(b, n)}))
       else \<exists>a k. p = a + 16 \<and> rc = user_bytes_of k \<and> allocs lo bs' = insert (a, k) (allocs lo bs - {(b, n)})
              \<and> (if shrink_in_place cmd then a = b \<and> k \<le> n \<and> unat pref \<le> rc
                 else a \<le> b \<and> b + 16 * n \<le> a + 16 * k \<and> unat limit \<le> rc \<and> unat S dvd b - a \<and> (\<not> expand_bwd cmd \<longrightarrow> a = b)))"
proof -
  obtain st' p rc reuse bs' where e: "rb_priv_allocate I st cmd limit pref (b + 16) S align = Some (st', p, rc, reuse)"
    and r: "rb_rep lo hi st' bs'" "same_place st st'" and o: "rb_outcome cmd limit pref S b n p rc reuse (allocs lo bs) (allocs lo bs')"
    using rb_command_rep [OF I rep b S bound al] by blast
  have seg: "rb_seg (rb_heap st') lo bs'" using r(1) by (simp add: rb_rep_def)
  have apart: "\<forall>(c, j)\<in>B. a + 16 * m \<le> c \<or> c + 16 * j \<le> a" if "allocs lo bs' = insert (a, m) B" "(a, m) \<notin> B" for a m B
    using allocs_disjoint [OF seg, of a m] that by fastforce
  have sz: "rb_size st' = rb_size st" using r(2) by (simp add: same_place_def)
  show ?thesis
  proof (cases "p \<noteq> 0 \<and> reuse = 0")
    case True
    then obtain a m k where g: "p = a + 16" "rc = user_bytes_of m" "unat limit \<le> rc" "n \<le> k"
        "(a, m) \<notin> insert (b, k) (allocs lo bs - {(b, n)})" "allocs lo bs' = insert (a, m) (insert (b, k) (allocs lo bs - {(b, n)}))"
      using o unfolding rb_outcome_def by auto
    have "\<forall>(c, j)\<in>insert (b, k) (allocs lo bs - {(b, n)}). a + 16 * m \<le> c \<or> c + 16 * j \<le> a" by (rule apart [OF g(6,5)])
    then have "\<exists>a m k. p = a + 16 \<and> rc = user_bytes_of m \<and> unat limit \<le> rc \<and> n \<le> k
              \<and> (\<forall>(c, j)\<in>insert (b, k) (allocs lo bs - {(b, n)}). a + 16 * m \<le> c \<or> c + 16 * j \<le> a)
              \<and> allocs lo bs' = insert (a, m) (insert (b, k) (allocs lo bs - {(b, n)}))" using g by blast
    then show ?thesis using e r(1) sz True
      by (intro exI [of _ st'] exI [of _ p] exI [of _ rc] exI [of _ reuse] exI [of _ bs']) (simp only: if_False if_True simp_thms)
  next
    case False
    have "if p = 0 then \<exists>k\<ge>n. allocs lo bs' = insert (b, k) (allocs lo bs - {(b, n)})
      else \<exists>a k. p = a + 16 \<and> rc = user_bytes_of k \<and> allocs lo bs' = insert (a, k) (allocs lo bs - {(b, n)})
              \<and> (if shrink_in_place cmd then a = b \<and> k \<le> n \<and> unat pref \<le> rc
                 else a \<le> b \<and> b + 16 * n \<le> a + 16 * k \<and> unat limit \<le> rc \<and> unat S dvd b - a \<and> (\<not> expand_bwd cmd \<longrightarrow> a = b))"
      using o False unfolding rb_outcome_def by (cases "p = 0") (simp_all only: if_True if_False simp_thms)
    then show ?thesis using e r(1) sz False
      by (intro exI [of _ st'] exI [of _ p] exI [of _ rc] exI [of _ reuse] exI [of _ bs']) (cases "p = 0"; simp only: if_False if_True simp_thms)
  qed
qed


theorem rb_command_outcome_witness:
  "\<exists>st bs m st' p rc reuse bs'. allocs 65600 bs = {(65600, m)}
    \<and> rb_priv_allocate list_imultiset st \<lparr>allocate_new = True, expand_fwd = True, expand_bwd = True, shrink_in_place = False,
         other_flags = False\<rparr> 200 400 65616 8 8 = Some (st', p, rc, reuse) \<and> rb_rep 65600 69616 st' bs'"
proof -
  obtain st bs m where s: "rb_rep 65600 69616 st bs" "rb_placed 64 st 65600 69616" "allocs 65600 bs = {(65600, m)}"
    using sample_rb_used by blast
  have b: "(65600, m) \<in> allocs 65600 bs" using s(3) by simp
  have d: "unat (8 :: size_t) dvd unat (200 :: size_t)" "unat (8 :: size_t) dvd unat (400 :: size_t)" by simp_all
  have h: "(8 :: size_t) \<noteq> 0" "unat (400 :: size_t) + 16 * unat (8 :: size_t) + 16 < 2 ^ 64" "(8 :: size_t) \<le> 16" by simp_all
  obtain st' p rc reuse bs' where
    "rb_priv_allocate list_imultiset st \<lparr>allocate_new = True, expand_fwd = True, expand_bwd = True, shrink_in_place = False,
         other_flags = False\<rparr> 200 400 (65600 + 16) 8 8 = Some (st', p, rc, reuse)" "rb_rep 65600 69616 st' bs'"
    using rb_command_outcome [OF list_imultiset_ok s(1) b h(1) d h(2,3)] by blast
  then show ?thesis using s(3) by (intro exI [of _ st] exI [of _ bs] exI [of _ m] exI [of _ st'] exI [of _ p] exI [of _ rc]
    exI [of _ reuse] exI [of _ bs']) simp
qed

text \<open>
  The amount by which a buffer is expanded backwards is computed right for the alignment 16: it always exists,
  together with what the buffer has it reaches the wanted size, and it is a multiple of the alignment and of the
  object size. For the alignment 32 that is not so: for objects of 40 bytes the result is 40, which is not a
  multiple of the alignment, because the remainder is shifted by an eighth of the alignment instead of its
  logarithm.
\<close>

theorem backwards_needs_multiple:
  assumes "S \<noteq> 0" "unat S dvd unat z" "unat r < unat z" "unat z + 16 * unat S + 16 < 2 ^ 64"
  shows "(\<exists>l w. calculate_lcm_and_needs_backwards_lcmed S 16 r z = Some (Some (l, w))
      \<and> 16 dvd unat w \<and> unat S dvd unat w \<and> unat z \<le> unat r + unat w \<and> unat S dvd unat l)
    \<and> calculate_lcm_and_needs_backwards_lcmed 40 32 24 40 = Some (Some (160, 40))"
proof
  show "\<exists>l w. calculate_lcm_and_needs_backwards_lcmed S 16 r z = Some (Some (l, w))
      \<and> 16 dvd unat w \<and> unat S dvd unat w \<and> unat z \<le> unat r + unat w \<and> unat S dvd unat l"
    using calculate_needs_16 [OF assms] by (fastforce simp: fit_needs_def)
  show "calculate_lcm_and_needs_backwards_lcmed 40 32 24 40 = Some (Some (160, 40))"
    by (simp add: calculate_lcm_and_needs_backwards_lcmed_def get_truncated_size_def max_value_def)
qed

theorem backwards_needs_multiple_witness:
  "\<exists>l w. calculate_lcm_and_needs_backwards_lcmed 12 16 40 120 = Some (Some (l, w)) \<and> 16 dvd unat w \<and> 80 \<le> unat w"
proof -
  have "(12 :: size_t) \<noteq> 0" "unat (12 :: size_t) dvd unat (120 :: size_t)" "unat (40 :: size_t) < unat (120 :: size_t)"
    "unat (120 :: size_t) + 16 * unat (12 :: size_t) + 16 < 2 ^ 64" by simp_all
  from backwards_needs_multiple [OF this] show ?thesis by fastforce
qed

section \<open>The segment\<close>

text \<open>
  The constructor of the best fit algorithm turns the memory behind the header into one free block, closed by
  the end block: the state is well-formed, nothing is allocated, \<^verbatim>\<open>check_sanity\<close> and
  \<^verbatim>\<open>all_memory_deallocated\<close> answer true.
\<close>

theorem rb_construct_sane:
  assumes I: "imultiset_ok I" and sz: "0 < sz" "this_ptr + sz + extra + 16 \<le> 2 ^ 64"
    and size: "this_ptr + segment_size \<le> 2 ^ 64" "rb_first_block_offset sz this_ptr extra + 64 \<le> segment_size"
  shows "let st = rb_construct I sz this_ptr heap segment_size extra; lo = rb_first_block sz st; hi = rb_end_block sz st
         in rb_rep lo hi st [((hi - lo) div 16, False)] \<and> this_ptr + sz + extra \<le> lo \<and> hi + 16 \<le> this_ptr + segment_size
            \<and> rb_check_sanity sz st \<and> rb_all_memory_deallocated sz st"
proof -
  let ?st = "rb_construct I sz this_ptr heap segment_size extra"
  define lo where "lo = this_ptr + rb_first_block_offset sz this_ptr extra"
  define n where "n = (segment_size - rb_first_block_offset sz this_ptr extra) div 16 - 1"
  note c = rb_construct_rep(1-4) [OF I sz size, of heap, folded lo_def n_def]
  have "rb_first_block sz ?st = lo" "lo + 16 * n + 16 \<le> this_ptr + segment_size" using c(2-4) by (simp_all add: rb_placed_def)
  moreover have "rb_end_block sz ?st = lo + 16 * n" by (rule rb_end_placed(1) [OF c(2,1)])
  moreover have "this_ptr + sz + extra \<le> lo" using first_block_offset_nat(2) [OF sz] by (simp add: lo_def)
  ultimately show ?thesis
    using c(1) rb_sanity_rep [OF c(1,2)] rb_all_deallocated_rep [OF c(1,2)] by (simp add: Let_def)
qed

theorem rb_construct_sane_witness:
  "rb_check_sanity 64 sample_rb \<and> rb_all_memory_deallocated 64 sample_rb"
  using rb_construct_sane [OF list_imultiset_ok, of 64 65536 0 4096 sample_rb_heap]
  by (simp add: sample_rb_offset Let_def flip: sample_rb_def)

text \<open>
  \<^verbatim>\<open>grow\<close> by an amount that leaves less than one unit, or room for at least one block, behind the old end
  keeps the allocated blocks and the well-formedness and moves the end block to the new end.
\<close>

theorem rb_grow_keeps:
  assumes I: "imultiset_ok I" and rep: "rb_rep lo hi st bs" and pl: "rb_placed sz st lo hi"
    and top: "rb_this st + rb_size st + extra \<le> 2 ^ 64"
    and gap: "rb_this st + rb_size st + extra - (hi + 16) < 16 \<or> 48 \<le> rb_this st + rb_size st + extra - (hi + 16)"
  shows "let st' = rb_grow I sz st extra; hi' = rb_end_block sz st'
    in (\<exists>bs'. rb_rep lo hi' st' bs' \<and> allocs lo bs' = allocs lo bs) \<and> rb_placed sz st' lo hi'
       \<and> rb_get_size st' = rb_get_size st + extra \<and> rb_check_sanity sz st'"
proof -
  note g = rb_grow_rep [OF I rep pl top gap]
  obtain bs' where r: "rb_rep lo (hi + 16 * ((rb_this st + rb_size st + extra - (hi + 16)) div 16)) (rb_grow I sz st extra) bs'"
    "allocs lo bs' = allocs lo bs" using g(1) by blast
  show ?thesis unfolding Let_def rb_end_placed(1) [OF g(2) r(1)]
    using r g(2,3) rb_sanity_rep [OF r(1) g(2)] by (auto simp: rb_get_size_def)
qed

theorem rb_grow_keeps_witness:
  "rb_check_sanity 64 (rb_grow list_imultiset 64 sample_rb 1024) \<and> rb_get_size (rb_grow list_imultiset 64 sample_rb 1024) = 5120"
  using rb_grow_keeps [OF list_imultiset_ok sample_rb_rep(1,2), of 1024]
  by (simp add: sample_rb_rep Let_def rb_get_size_def)

text \<open>
  If \<^verbatim>\<open>grow\<close> gets an amount that leaves between 16 and 47 bytes behind the old end block, it changes the size
  and nothing else: from then on \<^verbatim>\<open>priv_end_block\<close> points up to two units behind the real end block, at memory
  that no header was written to.
\<close>

theorem rb_grow_small_loses_end:
  assumes rep: "rb_rep lo hi st bs" and pl: "rb_placed sz st lo hi"
    and gap: "16 \<le> rb_this st + rb_size st + extra - (hi + 16)" "rb_this st + rb_size st + extra - (hi + 16) < 48"
  shows "rb_grow I sz st extra = st\<lparr>rb_size := rb_size st + extra\<rparr>
    \<and> rb_end_block sz st = hi \<and> rb_end_block sz (rb_grow I sz st extra) = hi + 16 * ((rb_this st + rb_size st + extra - (hi + 16)) div 16)
    \<and> rb_end_block sz (rb_grow I sz st extra) \<noteq> hi"
proof -
  let ?s = "st\<lparr>rb_size := rb_size st + extra\<rparr>"
  define gap' where "gap' = rb_this st + rb_size st + extra - (hi + 16)"
  have p: "rb_this st \<le> lo" "lo < hi" "hi + 16 \<le> rb_this st + rb_size st" "rb_first_block sz st = lo"
    using pl by (simp_all add: rb_placed_def)
  have u: "hi = lo + 16 * units bs" using rep by (simp add: rb_rep_def)
  have e: "rb_end_block sz st = hi" by (rule rb_end_placed(1) [OF pl rep])
  have "rb_size st + extra - ((hi - rb_this st) + 16) = gap'" using p by (simp add: gap'_def)
  then have g: "rb_grow I sz st extra = ?s" using gap p by (simp add: rb_grow_def Let_def e gap'_def)
  have off: "rb_first_block_offset sz (rb_this st) (rb_extra_hdr_bytes st) = lo - rb_this st" by (rule rb_placed_offset [OF pl])
  have "rb_size st + extra - (lo - rb_this st) = 16 * (units bs + 1) + gap'" using p u by (simp add: gap'_def)
  then have "(rb_size st + extra - (lo - rb_this st)) div 16 - 1 = units bs + gap' div 16" by simp
  then have "rb_end_block sz ?s = hi + 16 * (gap' div 16)" using p u by (simp add: rb_end_block_def Let_def off)
  moreover have "0 < gap' div 16" using gap by (simp add: gap'_def div_greater_zero_iff)
  ultimately show ?thesis using g e by (simp add: gap'_def)
qed

theorem rb_grow_small_loses_end_witness:
  "rb_end_block 64 sample_rb = 69616 \<and> rb_end_block 64 (rb_grow list_imultiset 64 sample_rb 32) = 69648"
  using rb_grow_small_loses_end [OF sample_rb_rep(1,2), of 32 list_imultiset] unfolding sample_rb_rep(3,4) by auto

text \<open>
  \<^verbatim>\<open>shrink_to_fit\<close> cuts the free block at the end off: the allocated blocks stay, the segment ends with an
  allocated block, or with one free block of three units if nothing is allocated, and the state stays
  well-formed. A segment of a single free block of less than six units is the exception: there the block found
  after the unique buffer is the end block, which is not free, and the assertion is violated.
\<close>

theorem rb_shrink_to_fit_outcome:
  assumes I: "imultiset_ok I" and rep: "rb_rep lo hi st bs" and pl: "rb_placed sz st lo hi"
  shows "case rb_shrink_to_fit I sz st of
      None \<Rightarrow> (\<exists>n<6. bs = [(n, False)])
    | Some st' \<Rightarrow> (\<exists>hi' bs'. rb_rep lo hi' st' bs' \<and> rb_placed sz st' lo hi' \<and> hi' \<le> hi \<and> allocs lo bs' = allocs lo bs
         \<and> (last_alloc True bs' \<or> bs' = [(3, False)]) \<and> (\<forall>n. bs = [(n, False)] \<longrightarrow> 6 \<le> n))"
proof (cases "\<exists>n. bs = [(n, False)]")
  case True
  then obtain n where n: "bs = [(n, False)]" by blast
  note ss = shrink_single_rep [OF I rep [unfolded n] pl]
  have hi: "hi = lo + 16 * n" using rep n by (simp add: rb_rep_def)
  show ?thesis
  proof (cases "n < 6")
    case True
    then show ?thesis using ss(1) n by simp
  next
    case False
    then have n6: "6 \<le> n" by simp
    obtain st' where "rb_shrink_to_fit I sz st = Some st'" "rb_rep lo (lo + 48) st' [(3, False)]" "rb_placed sz st' lo (lo + 48)"
      using ss(2) [OF n6] by blast
    moreover have "lo + 48 \<le> hi" using hi n6 by simp
    moreover have "allocs lo [(3, False)] = allocs lo bs" by (simp add: n)
    ultimately show ?thesis using n n6
      by (simp only: option.case) (intro exI [of _ "lo + 48"] exI [of _ "[(3, False)]"], auto)
  qed
next
  case False
  let ?bs = "if last_alloc True bs then bs else butlast bs"
  have "units ?bs \<le> units bs" by (cases bs rule: rev_cases) auto
  moreover have "hi = lo + 16 * units bs" using rep by (simp add: rb_rep_def)
  ultimately show ?thesis using shrink_to_fit_rep [OF I rep pl False] False by fastforce
qed

theorem rb_shrink_to_fit_outcome_witness:
  "\<exists>st' hi' bs'. rb_shrink_to_fit list_imultiset 64 sample_rb = Some st' \<and> rb_rep 65600 hi' st' bs' \<and> allocs 65600 bs' = {}"
proof (cases "rb_shrink_to_fit list_imultiset 64 sample_rb")
  case None
  then show ?thesis using rb_shrink_to_fit_outcome [OF list_imultiset_ok sample_rb_rep(1,2)] by simp
next
  case (Some st')
  then show ?thesis using rb_shrink_to_fit_outcome [OF list_imultiset_ok sample_rb_rep(1,2)] by auto
qed


section \<open>Sequences of operations\<close>

text \<open>
  The states a program can reach from the constructor, with the addresses of the blocks it owns: it may
  allocate any number of bytes, allocate with an alignment (a power of two, with
  \<open>2 * nbytes + alignment + 160 \<le> 2 ^ 64\<close>), issue any command on a block it owns for objects with an alignment of
  at most 16 whose size divides the limit and the preferred size (for larger alignments the code returns new
  memory as if it were the old buffer), give a block back, grow the segment so that less than 16 or at least 48
  bytes are new behind the end block (theorem \<open>rb_grow_small_loses_end\<close> shows what happens in between), and shrink
  it where the assertion of \<^verbatim>\<open>shrink_to_fit\<close> holds (\<open>rb_shrink_to_fit_outcome\<close> shows that it fails exactly for an empty
  segment of less than six units). The multiple allocations are not among the operations.
\<close>

inductive rb_reach :: "imultiset \<Rightarrow> nat \<Rightarrow> nat \<Rightarrow> rb_fit \<Rightarrow> nat set \<Rightarrow> bool" for I sz lo where
  construct: "lo = this_ptr + rb_first_block_offset sz this_ptr extra \<Longrightarrow>
    0 < sz \<Longrightarrow> this_ptr + sz + extra + 16 \<le> 2 ^ 64 \<Longrightarrow> this_ptr + segment_size \<le> 2 ^ 64 \<Longrightarrow>
    rb_first_block_offset sz this_ptr extra + 64 \<le> segment_size \<Longrightarrow>
    rb_reach I sz lo (rb_construct I sz this_ptr heap segment_size extra) {}"
| allocate: "rb_reach I sz lo st P \<Longrightarrow> rb_allocate I st nbytes = Some (st', p) \<Longrightarrow>
    rb_reach I sz lo st' (if p = 0 then P else insert (p - 16) P)"
| aligned: "rb_reach I sz lo st P \<Longrightarrow> j < 64 \<Longrightarrow> 2 * unat nbytes + 2 ^ j + 160 \<le> 2 ^ 64 \<Longrightarrow>
    rb_allocate_aligned I st nbytes (2 ^ j) = Some (st', p) \<Longrightarrow>
    rb_reach I sz lo st' (if p = 0 then P else insert (p - 16) P)"
| command: "rb_reach I sz lo st P \<Longrightarrow> b \<in> P \<Longrightarrow> S \<noteq> 0 \<Longrightarrow> unat S dvd unat limit \<Longrightarrow> unat S dvd unat pref \<Longrightarrow>
    unat pref + 16 * unat S + 16 < 2 ^ 64 \<Longrightarrow> align \<le> 16 \<Longrightarrow>
    rb_priv_allocate I st cmd limit pref (b + 16) S align = Some (st', p, rc, reuse) \<Longrightarrow>
    rb_reach I sz lo st' (if p = 0 then P else insert (p - 16) (if reuse = 0 then P else P - {b}))"
| deallocate: "rb_reach I sz lo st P \<Longrightarrow> b \<in> P \<Longrightarrow> rb_reach I sz lo (rb_deallocate I st (b + 16)) (P - {b})"
| grow: "rb_reach I sz lo st P \<Longrightarrow> rb_this st + rb_size st + extra \<le> 2 ^ 64 \<Longrightarrow>
    rb_this st + rb_size st + extra - (rb_end_block sz st + 16) < 16 \<or> 48 \<le> rb_this st + rb_size st + extra - (rb_end_block sz st + 16) \<Longrightarrow>
    rb_reach I sz lo (rb_grow I sz st extra) P"
| shrink_to_fit: "rb_reach I sz lo st P \<Longrightarrow> rb_shrink_to_fit I sz st = Some st' \<Longrightarrow> rb_reach I sz lo st' P"

definition rb_owns :: "nat \<Rightarrow> nat \<Rightarrow> rb_fit \<Rightarrow> nat set \<Rightarrow> bool" where
  "rb_owns sz lo st P \<longleftrightarrow> (\<exists>hi bs. rb_rep lo hi st bs \<and> rb_placed sz st lo hi \<and> fst ` allocs lo bs = P)"

lemma fst_replace:
  assumes "rb_rep lo hi st bs" "(b, n) \<in> allocs lo bs"
  shows "fst ` (allocs lo bs - {(b, n)}) = fst ` allocs lo bs - {b}"
  using alloc_unique [OF assms(1) assms(2)] by force

lemma rb_aligned_rep:
  assumes I: "imultiset_ok I" and rep: "rb_rep lo hi st bs" and j: "j < 64" and n: "2 * unat nbytes + 2 ^ j + 160 \<le> 2 ^ 64"
    and e: "rb_allocate_aligned I st nbytes (2 ^ j) = Some (st', p)"
  shows "p = 0 \<and> st' = st \<or> (\<exists>a k bs'. p = a + 16 \<and> p mod 2 ^ j = 0 \<and> (a, k) \<notin> allocs lo bs \<and> rb_rep lo hi st' bs'
      \<and> allocs lo bs' = insert (a, k) (allocs lo bs) \<and> same_place st st' \<and> unat nbytes \<le> user_bytes_of k)"
proof -
  have l: "rb_live lo hi (rb_this st) (rb_extra_hdr_bytes st) (rb_size st) st (allocs lo bs)" using rep by (auto simp: rb_live_def)
  have big: "2 * unat nbytes + unat (2 ^ j :: size_t) + (2 * BlockCtrlUnits (rb_algo I) + 4) * Alignment (rb_algo I) \<le> 2 ^ 64"
    using n by (simp add: rb_algo_simps unat_pow2_size [OF j])
  from mem_algo.allocate_aligned_live [OF rb_mem_algo [OF I] l big refl j] e
  have c: "p = 0 \<and> st' = st \<or> (\<exists>a k. p = a + 16 \<and> p mod 2 ^ j = 0 \<and> (a, k) \<notin> allocs lo bs
      \<and> rb_live lo hi (rb_this st) (rb_extra_hdr_bytes st) (rb_size st) st' (insert (a, k) (allocs lo bs))
      \<and> unat nbytes \<le> user_bytes_of k)"
    unfolding rb_allocate_aligned_def rb_algo_simps by (metis option.inject prod.inject)
  then show ?thesis
  proof (elim disjE exE conjE)
    fix a k
    assume a: "p = a + 16" "p mod 2 ^ j = 0" "(a, k) \<notin> allocs lo bs"
      "rb_live lo hi (rb_this st) (rb_extra_hdr_bytes st) (rb_size st) st' (insert (a, k) (allocs lo bs))" "unat nbytes \<le> user_bytes_of k"
    obtain bs' where "rb_rep lo hi st' bs'" "allocs lo bs' = insert (a, k) (allocs lo bs)" by (rule rb_liveE [OF a(4)])
    moreover have "same_place st st'" using a(4) by (simp add: rb_live_def same_place_def)
    ultimately show ?thesis using a(1-3,5)
      by (intro disjI2 exI [of _ a] exI [of _ k] exI [of _ bs'] conjI)
  qed blast
qed

lemma rb_outcome_fst:
  assumes o: "rb_outcome cmd limit pref S b n p rc reuse A A'" and b: "(b, n) \<in> A" and f: "fst ` (A - {(b, n)}) = fst ` A - {b}"
  shows "fst ` A' = (if p = 0 then fst ` A else insert (p - 16) (if reuse = 0 then fst ` A else fst ` A - {b}))"
proof -
  have i: "fst ` insert (a, k) (A - {(b, n)}) = insert a (fst ` A - {b})" for a k using f by simp
  have ib: "insert b (fst ` A - {b}) = fst ` A" using b by force
  consider "p = 0" | "p \<noteq> 0" "reuse = 0" | "p \<noteq> 0" "reuse \<noteq> 0" by blast
  then show ?thesis
  proof cases
    case 1
    then obtain k where "A' = insert (b, k) (A - {(b, n)})" using o unfolding rb_outcome_def by auto
    then show ?thesis using 1 i ib by simp
  next
    case 2
    then obtain a m k where a: "p = a + 16" "A' = insert (a, m) (insert (b, k) (A - {(b, n)}))" using o unfolding rb_outcome_def by auto
    have "fst ` A' = insert a (insert b (fst ` A - {b}))" unfolding a(2) using i [of b k] by simp
    then show ?thesis using 2 a(1) ib by simp
  next
    case 3
    then obtain a k where "p = a + 16" "A' = insert (a, k) (A - {(b, n)})" using o unfolding rb_outcome_def by auto
    then show ?thesis using 3 i by simp
  qed
qed

lemma rb_reach_owns:
  assumes "rb_reach I sz lo st P" "imultiset_ok I"
  shows "rb_owns sz lo st P"
  using assms
proof induction
  case (construct this_ptr extra segment_size heap)
  have "rb_rep lo (lo + 16 * ((segment_size - rb_first_block_offset sz this_ptr extra) div 16 - 1))
      (rb_construct I sz this_ptr heap segment_size extra) [((segment_size - rb_first_block_offset sz this_ptr extra) div 16 - 1, False)]"
    "rb_placed sz (rb_construct I sz this_ptr heap segment_size extra) lo
      (lo + 16 * ((segment_size - rb_first_block_offset sz this_ptr extra) div 16 - 1))"
    unfolding construct(1) by (rule rb_construct_rep(1,2) [OF construct(6) construct(2-5)])+
  then show ?case unfolding rb_owns_def by (metis allocs.simps image_empty sup_bot.right_neutral)
next
  case (allocate st P nbytes st' p)
  then obtain hi bs where r: "rb_rep lo hi st bs" "rb_placed sz st lo hi" "fst ` allocs lo bs = P" by (auto simp: rb_owns_def)
  show ?case
  proof (cases "rb_allocate_branch I st nbytes nbytes")
    case None
    then show ?thesis using allocate.hyps(2) r by (auto simp: rb_allocate_eq rb_owns_def)
  next
    case (Some x)
    obtain rc where x: "x = (st', p, rc)" using Some allocate.hyps(2) by (cases x) (simp add: rb_allocate_eq)
    from allocate_any_rep [OF allocate.prems r(1), of nbytes] obtain b m bs' where
      "p = b + 16" "rb_rep lo hi st' bs'" "allocs lo bs' = insert (b, m) (allocs lo bs)" "same_place st st'"
      unfolding Some x option.case prod.case by blast
    then show ?thesis using rb_placed_same [OF _ r(2)] r(3) by (auto simp: rb_owns_def intro!: exI [of _ hi] exI [of _ bs'])
  qed
next
  case (aligned st P j nbytes st' p)
  then obtain hi bs where r: "rb_rep lo hi st bs" "rb_placed sz st lo hi" "fst ` allocs lo bs = P" by (auto simp: rb_owns_def)
  from rb_aligned_rep [OF aligned.prems r(1) aligned.hyps(2-4)] show ?case
  proof (elim disjE exE conjE)
    fix a k bs'
    assume "p = a + 16" "rb_rep lo hi st' bs'" "allocs lo bs' = insert (a, k) (allocs lo bs)" "same_place st st'"
    then show ?thesis using rb_placed_same [OF _ r(2)] r(3) by (auto simp: rb_owns_def intro!: exI [of _ hi] exI [of _ bs'])
  qed (use r in \<open>auto simp: rb_owns_def\<close>)
next
  case (command st P b S limit pref align cmd st' p rc reuse)
  then obtain hi bs where r: "rb_rep lo hi st bs" "rb_placed sz st lo hi" "fst ` allocs lo bs = P" by (auto simp: rb_owns_def)
  obtain n where b: "(b, n) \<in> allocs lo bs" using r(3) command.hyps(2) by auto
  obtain bs' where c: "rb_rep lo hi st' bs'" "same_place st st'" "rb_outcome cmd limit pref S b n p rc reuse (allocs lo bs) (allocs lo bs')"
    using rb_command_rep [OF command.prems r(1) b command.hyps(3-7), of cmd] command.hyps(8) by auto
  have "fst ` allocs lo bs' = (if p = 0 then P else insert (p - 16) (if reuse = 0 then P else P - {b}))"
    using rb_outcome_fst [OF c(3) b fst_replace [OF r(1) b]] unfolding r(3) .
  then show ?case using c(1) rb_placed_same [OF c(2) r(2)] unfolding rb_owns_def by blast
next
  case (deallocate st P b)
  then obtain hi bs where r: "rb_rep lo hi st bs" "rb_placed sz st lo hi" "fst ` allocs lo bs = P" by (auto simp: rb_owns_def)
  obtain n where b: "(b, n) \<in> allocs lo bs" using r(3) deallocate.hyps(2) by auto
  obtain bs' where "rb_rep lo hi (rb_priv_deallocate I st (b + 16)) bs'" "allocs lo bs' = allocs lo bs - {(b, n)}"
      "same_place st (rb_priv_deallocate I st (b + 16))" using rb_deallocate_rep [OF deallocate.prems r(1) b] by blast
  then show ?case using rb_placed_same [OF _ r(2)] fst_replace [OF r(1) b] r(3)
    by (auto simp: rb_owns_def rb_deallocate_def intro!: exI [of _ hi] exI [of _ bs'])
next
  case (grow st P extra)
  then obtain hi bs where r: "rb_rep lo hi st bs" "rb_placed sz st lo hi" "fst ` allocs lo bs = P" by (auto simp: rb_owns_def)
  note g = rb_grow_rep [OF grow.prems r(1,2) grow.hyps(2) grow.hyps(3) [unfolded rb_end_placed(1) [OF r(2,1)]]]
  then show ?case using r(3) unfolding rb_owns_def by metis
next
  case (shrink_to_fit st P st')
  then obtain hi bs where r: "rb_rep lo hi st bs" "rb_placed sz st lo hi" "fst ` allocs lo bs = P" by (auto simp: rb_owns_def)
  show ?case
  proof (cases "\<exists>n. bs = [(n, False)]")
    case True
    then obtain n where n: "bs = [(n, False)]" by blast
    note ss = shrink_single_rep [OF shrink_to_fit.prems r(1) [unfolded n] r(2)]
    have "6 \<le> n" using ss(1) shrink_to_fit.hyps(2) by (metis linorder_not_less option.distinct(1))
    then have "rb_rep lo (lo + 48) st' [(3, False)]" "rb_placed sz st' lo (lo + 48)" using ss(2) shrink_to_fit.hyps(2) by auto
    then show ?thesis using r(3) n unfolding rb_owns_def by fastforce
  next
    case False
    from shrink_to_fit_rep [OF shrink_to_fit.prems r(1,2) False] show ?thesis
      using shrink_to_fit.hyps(2) r(3) unfolding rb_owns_def by (metis option.inject)
  qed
qed

text \<open>
  C2: After any sequence of allocations (of any size), aligned allocations, commands with an alignment of at most
  16, deallocations, \<^verbatim>\<open>grow\<close> that leaves less than 16 or at least 48 bytes behind the end block, and
  \<^verbatim>\<open>shrink_to_fit\<close> whose assertion holds, in the bounds of \<^const>\<open>rb_reach\<close>, the blocks the program owns are pairwise disjoint, 16-byte aligned and inside the segment, the counter of allocated bytes and the
  sizes of the free blocks add up to the whole segment, \<^verbatim>\<open>check_sanity\<close> answers true, and
  \<^verbatim>\<open>all_memory_deallocated\<close> answers true exactly when the program owns nothing.
\<close>

theorem rb_reachable_sane:
  assumes "rb_reach I sz lo st P" "imultiset_ok I"
  shows "(\<forall>x\<in>P. \<forall>y\<in>P. x \<noteq> y \<longrightarrow> x + 16 * bsize st x \<le> y \<or> y + 16 * bsize st y \<le> x)
    \<and> (\<forall>x\<in>P. x mod 16 = 0 \<and> lo \<le> x \<and> x + 16 * bsize st x + 16 \<le> rb_this st + rb_size st)
    \<and> (\<Sum>b\<leftarrow>rb_free st. bsize st b * 16) + rb_allocated st = rb_end_block sz st - lo
    \<and> rb_check_sanity sz st \<and> (rb_all_memory_deallocated sz st \<longleftrightarrow> P = {})"
proof -
  obtain hi bs where r: "rb_rep lo hi st bs" "rb_placed sz st lo hi" "fst ` allocs lo bs = P"
    using rb_reach_owns [OF assms] by (auto simp: rb_owns_def)
  have seg: "rb_seg (rb_heap st) lo bs" using r(1) by (simp add: rb_rep_def)
  have own: "(x, bsize st x) \<in> allocs lo bs" if "x \<in> P" for x using that r(3) rep_bounds(3) [OF r(1)] by force
  have "x + 16 * bsize st x \<le> y \<or> y + 16 * bsize st y \<le> x" if "x \<in> P" "y \<in> P" "x \<noteq> y" for x y
    using allocs_disjoint [OF seg own own] that by simp
  moreover have "x mod 16 = 0 \<and> lo \<le> x \<and> x + 16 * bsize st x + 16 \<le> rb_this st + rb_size st" if "x \<in> P" for x
    using rep_bounds(4,6,7) [OF r(1) own [OF that]] r(2) by (simp add: rb_placed_def)
  moreover have "allocs lo bs = {} \<longleftrightarrow> P = {}" using r(3) by auto
  ultimately show ?thesis
    using free_memory_sum [OF r(1)] rb_end_placed(1) [OF r(2,1)] rb_sanity_rep [OF r(1,2)] rb_all_deallocated_rep [OF r(1,2)] by simp
qed

theorem rb_reachable_sane_witness:
  "\<exists>st' p. rb_reach list_imultiset 64 65600 st' {p - 16} \<and> rb_check_sanity 64 st' \<and> p mod 16 = 0"
proof -
  have r: "rb_reach list_imultiset 64 65600 sample_rb {}"
    unfolding sample_rb_def by (rule rb_reach.construct) (simp_all add: sample_rb_offset)
  have "frees 65600 [(251, False)] = {(65600, 251)}" by simp
  then obtain st' p rc where e: "rb_allocate_branch list_imultiset sample_rb 100 100 = Some (st', p, rc)" "p = 65616"
    using allocate_new_rep [OF list_imultiset_ok sample_rb_rep(1) order_refl, of 100]
      rb_allocate_branch_rep [OF list_imultiset_ok sample_rb_rep(1) order_refl, of 100] by (auto split: option.splits)
  have r': "rb_reach list_imultiset 64 65600 st' {p - 16}"
    using rb_reach.allocate [OF r, of 100 st' p] e by (simp add: rb_allocate_eq)
  show ?thesis using rb_reachable_sane [OF r' list_imultiset_ok] r' e(2) by (intro exI [of _ st'] exI [of _ p]) simp
qed

end
