(* ===== verification/Segment_Default.thy ===== *)
theory Segment_Default
  imports Segment_Reach Seq_Fit_Contract Rbtree_Props
begin

text \<open>
  The parts of a segment put together: both memory algorithms keep allocated blocks apart, and the best fit algorithm
  with the set index, the defaults of the library, provide what the segment manager relies on.
\<close>

section \<open>The memory algorithms\<close>

lemma sf_live_apart:
  assumes "sf_live lo t z r s A" "(a, n) \<in> A" "(b, m) \<in> A" "(a, n) \<noteq> (b, m)"
  shows "a + n * 16 \<le> b \<or> b + m * 16 \<le> a"
proof -
  obtain fl where ti: "tiles lo (sf_end s) (set fl \<union> A)" using assms(1) by (auto simp: sf_live_def sf_rep_def)
  have o: "fst x + 16 * snd x \<le> fst y" if "x \<in> A" "y \<in> A" "fst x < fst y" for x y
    using tiles_order [OF ti, of x y] that by blast
  have "a \<noteq> b"
  proof
    assume "a = b"
    then have "a \<in> bytes (a, n) \<inter> bytes (b, m)" using tilesD(1) [OF ti, of "(a, n)"] tilesD(1) [OF ti, of "(b, m)"] assms(2,3) by (auto simp: bytes_def)
    then show False using tilesD(5) [OF ti, of "(a, n)" "(b, m)"] assms(2-4) by blast
  qed
  then show ?thesis using o [OF assms(2,3)] o [OF assms(3,2)] by (cases a b rule: linorder_cases) (auto simp: mult.commute)
qed

interpretation sfs: segment_memory sf_algo 4 "sf_live lo t z r" for lo t z r
proof unfold_locales
  fix s A a n b m assume "sf_live lo t z r s A" "(a, n) \<in> A" "(b, m) \<in> A" "(a, n) \<noteq> (b, m)"
  then show "a + n * Alignment sf_algo \<le> b \<or> b + m * Alignment sf_algo \<le> a"
    using sf_live_apart by (simp add: sf_algo_def)
qed

lemma rb_live_apart:
  assumes "rb_live lo hi t e z s A" "(a, n) \<in> A" "(b, m) \<in> A" "(a, n) \<noteq> (b, m)"
  shows "a + n * 16 \<le> b \<or> b + m * 16 \<le> a"
proof -
  obtain bs where r: "rb_rep lo hi s bs" and A: "allocs lo bs = A" by (rule rb_liveE [OF assms(1)])
  have "rb_seg (rb_heap s) lo bs" using r by (simp add: rb_rep_def)
  then show ?thesis using allocs_disjoint [of "rb_heap s" lo bs a n b m] assms(2-4) A by (auto simp: mult.commute)
qed

sublocale ordered_multiset \<subseteq> rbs: segment_memory "rb_algo I" 4 "rb_live lo hi t e z" for lo hi t e z
proof unfold_locales
  fix s A a n b m assume "rb_live lo hi t e z s A" "(a, n) \<in> A" "(b, m) \<in> A" "(a, n) \<noteq> (b, m)"
  then show "a + n * Alignment (rb_algo I) \<le> b \<or> b + m * Alignment (rb_algo I) \<le> a"
    using rb_live_apart by (simp add: rb_algo_def)
qed

section \<open>The default segment\<close>

locale default_segment = ordered_multiset I + ordered_set S for I S +
  fixes H :: extent
  assumes node_extent: "header_extent_ok H"

sublocale default_segment \<subseteq> seg: segment_parts "rb_algo I" 4 "rb_live lo hi t e z" "iset_index S H" H "iset_names H" for lo hi t e z
  by unfold_locales (rule node_extent)

abbreviation rb_segment ::
  "imultiset \<Rightarrow> extent \<Rightarrow> nat \<Rightarrow> nat \<Rightarrow> nat \<Rightarrow> nat \<Rightarrow> nat \<Rightarrow> (rb_fit, nat list) segment \<Rightarrow> (nat \<times> nat) set \<Rightarrow> sm_object set \<Rightarrow> bool" where
  "rb_segment I H lo hi t e z \<equiv> sm_rep (rb_algo I) H (rb_live lo hi t e z) (iset_names H)"

lemma default_segmentI:
  "imultiset_ok I \<Longrightarrow> intrusive_set_ok S \<Longrightarrow> header_extent_ok H \<Longrightarrow> default_segment I S H"
  by (simp add: default_segment_def ordered_multiset_def ordered_set_def default_segment_axioms_def)

context default_segment
begin

lemma parts: "segment_parts (rb_algo I) 4 (rb_live lo hi t e z) (iset_index S H) H (iset_names H)"
  by (rule seg.segment_parts_axioms)

end

lemmas rb_segment_parts = default_segment.parts [OF default_segmentI]

text \<open>What the algorithm answers for a segment that holds nothing but what the program holds.\<close>

lemma rb_segment_start:
  assumes "rb_reach I sz lo s {}" "imultiset_ok I"
  obtains hi where "rb_live lo hi (rb_this s) (rb_extra_hdr_bytes s) (rb_size s) s {}" "rb_placed sz s lo hi"
proof -
  obtain hi bs where "rb_rep lo hi s bs" "rb_placed sz s lo hi" "fst ` allocs lo bs = {}"
    using rb_reach_owns [OF assms] by (auto simp: rb_owns_def)
  then show thesis using that by (auto simp: rb_live_def)
qed

lemma rb_live_answers:
  assumes l: "rb_live lo hi (rb_this s0) (rb_extra_hdr_bytes s0) (rb_size s0) s A" and p: "rb_placed sz s0 lo hi"
  shows "rb_check_sanity sz s" "rb_all_memory_deallocated sz s \<longleftrightarrow> A = {}"
proof -
  obtain bs where r: "rb_rep lo hi s bs" and A: "allocs lo bs = A" by (rule rb_liveE [OF l])
  have p': "rb_placed sz s lo hi" using l p by (simp add: rb_live_def rb_placed_def rb_first_block_def)
  show "rb_check_sanity sz s" "rb_all_memory_deallocated sz s \<longleftrightarrow> A = {}"
    using rb_sanity_rep [OF r p'] rb_all_deallocated_rep [OF r p'] A by auto
qed

text \<open>The hook of Boost.Intrusive has three pointers.\<close>

definition set_hook :: extent where
  "set_hook = \<lparr>sizeof = 24, alignof = 8\<rparr>"

lemma set_hook_ok: "header_extent_ok set_hook"
  by (simp add: header_extent_ok_def set_hook_def)

interpretation ds: default_segment list_imultiset list_set set_hook
  by (rule default_segmentI [OF list_imultiset_ok list_set_ok set_hook_ok])

section \<open>A segment for the witnesses\<close>

definition sample_type :: ctype where
  "sample_type = \<lparr>sizeof = 4, alignof = 4, type_name = [105], dtor = (\<lambda>p m. m)\<rparr>"

definition sample_init :: "nat proxy" where
  "sample_init = (\<lambda>k p m. (put_bytes m p [1, 0, 0, 0], None))"

abbreviation "sample_index \<equiv> iset_index list_set set_hook"

definition sample_segment :: "(rb_fit, nat list) segment" where
  "sample_segment = segment_manager sample_index sample_rb (\<lambda>_. 0)"

lemma sample_type_ok: "ctype_ok sample_type"
  unfolding ctype_ok_def sample_type_def by (auto intro: exI [of _ 2])

lemma sample_init_ok: "proxy_ok sample_type sample_init"
  by (auto simp: proxy_ok_def sample_init_def sample_type_def put_bytes_outside)

lemma sample_rb_reach: "rb_reach list_imultiset 64 65600 sample_rb {}"
  unfolding sample_rb_def by (rule rb_reach.construct) (simp_all add: sample_rb_offset)

lemma sample_rb_live: "rb_live 65600 69616 65536 (rb_extra_hdr_bytes sample_rb) 4096 sample_rb {}"
  using sample_rb_rep by (auto simp: rb_live_def intro!: exI [of _ "[(251, False)]"])

lemma sample_allocates:
  assumes "unat n \<le> 1000" "al \<in> {1, 2, 4, 8, 16}"
  shows "\<exists>s bs m. sm_allocate_aligned_nothrow (rb_algo list_imultiset) n al sample_segment = Some (sample_segment\<lparr>sg_algo := s\<rparr>, 65616)
    \<and> rb_rep 65600 69616 s bs \<and> allocs 65600 bs = {(65600, m)} \<and> m \<le> 100"
proof -
  have n: "unat n + 16 \<le> 2 ^ 64" using assms(1) by simp
  have u: "unat (rb_priv_get_total_units n) \<le> 100" using total_units_least [OF n, of 100] assms(1) by simp
  have f: "frees 65600 [(251, False)] = {(65600, 251)}" by simp
  obtain s p rc bs m where e: "rb_allocate_branch list_imultiset sample_rb n n = Some (s, p, rc)" "p = 65616"
      "rb_rep 65600 69616 s bs" "allocs 65600 bs = {(65600, m)}" "m \<le> 100"
    using rb_allocate_branch_rep [OF list_imultiset_ok sample_rb_rep(1) order_refl n] u unfolding f by (auto split: option.splits)
  have "al AND (al - 1) = 0" "al \<le> of_nat (Alignment (rb_algo list_imultiset))" using assms(2) by (auto simp: rb_algo_def)
  then have "allocate_aligned (rb_algo list_imultiset) sample_rb n al = Some (s, 65616)"
    using e(1,2) by (simp add: allocate_aligned_def rb_algo_def rb_priv_allocate_new_def)
  then have "sm_allocate_aligned_nothrow (rb_algo list_imultiset) n al sample_segment = Some (sample_segment\<lparr>sg_algo := s\<rparr>, 65616)"
    by (simp add: sm_allocate_aligned_nothrow_def sample_segment_def segment_manager_def)
  then show ?thesis using e(3-5) by blast
qed

text \<open>Behind one small block at the beginning there is room for another.\<close>

lemma sample_room:
  assumes r: "rb_rep 65600 69616 s bs" and a: "allocs 65600 bs = {(65600, m)}" "m \<le> 100"
  shows "\<exists>s' p. priv_allocate_new (rb_algo list_imultiset) s 100 100 = Some (s', p) \<and> p \<noteq> 0"
proof -
  have sg: "rb_seg (rb_heap s) 65600 bs" and un: "units bs = 251" and iso: "isolated True bs" using r by (auto simp: rb_rep_def)
  have m3: "3 \<le> m" using alloc_range [OF sg, of 65600 m] a(1) by simp
  obtain b bs1 where b: "bs = b # bs1" using a(1) by (cases bs) auto
  obtain k al where k: "b = (k, al)" by (cases b)
  have s1: "rb_seg (rb_heap s) (65600 + 16 * k) bs1" "3 \<le> k" using sg b k by auto
  have "65600 + 16 * k \<le> 65600" if "(65600, m) \<in> allocs (65600 + 16 * k) bs1" using alloc_range [OF s1(1), of 65600 m] that by simp
  then have al: "al" "k = m" using a(1) b k s1(2) by (auto split: if_splits)
  have "(x, j) \<notin> allocs (65600 + 16 * k) bs1" for x j
  proof
    assume x: "(x, j) \<in> allocs (65600 + 16 * k) bs1"
    then have "65600 + 16 * k \<le> x" using alloc_range [OF s1(1), of x j] by simp
    moreover have "x = 65600" using x a(1) b k by auto
    ultimately show False using s1(2) by simp
  qed
  then have "allocs (65600 + 16 * k) bs1 = {}" by auto
  moreover have "isolated True bs1" using iso b k al by simp
  ultimately have "bs1 = [] \<or> (\<exists>j. bs1 = [(j, False)])" by (rule no_allocs_row)
  then obtain j where j: "bs1 = [(j, False)]" using un b k al a(2) by auto
  then have "(65600 + 16 * m, 251 - m) \<in> frees 65600 bs" using un b k al by auto
  moreover have "unat (rb_priv_get_total_units 100) \<le> 7" using total_units_least [of 100 7] by simp
  ultimately show ?thesis
    using rb_allocate_branch_rep [OF list_imultiset_ok r order_refl, of 100] a(2)
    by (fastforce simp: rb_algo_def rb_priv_allocate_new_def split: option.splits)
qed

lemma sample_constructed:
  "\<exists>st' bs m. generic_construct (rb_algo list_imultiset) sample_index set_hook sample_init sample_type (Name [97]) 1 False True sample_segment
     = Some (st', Inr 65648) \<and> rb_rep 65600 69616 (sg_algo st') bs \<and> allocs 65600 bs = {(65600, m)} \<and> m \<le> 100"
proof -
  have tot: "total_named_size_with_header 4 set_hook (block_header_ctor 4 1) 1 = 40"
    by (simp add: total_named_size_with_header_def block_header_prefix_with_header_def total_prefix_with_header_def both_headers_def
        sm_between_headers_def sizeof_block_header_def set_hook_def get_rounded_size_def name_offset_def name_length_offset_def
        value_offset_def value_bytes_ctor)
  have fs: "front_space_with_header 4 set_hook = 0" "sm_between_headers set_hook = 24"
    by (simp_all add: front_space_with_header_def total_prefix_with_header_def both_headers_def sm_between_headers_def
        sizeof_block_header_def set_hook_def get_rounded_size_def)
  obtain s bs m where s: "sm_allocate_aligned_nothrow (rb_algo list_imultiset) 40 4 sample_segment = Some (sample_segment\<lparr>sg_algo := s\<rparr>, 65616)"
      "rb_rep 65600 69616 s bs" "allocs 65600 bs = {(65600, m)}" "m \<le> 100"
    using sample_allocates [of 40 4] by auto
  have "ix_insert_check sample_index (sg_bytes sample_segment) [97] (index_of named_type sample_segment) = Inr (Inr 0)"
    by (simp add: iset_index_def iset_insert_check_def sample_segment_def segment_manager_def index_of_def list_set_def)
  then have "\<exists>st'. generic_construct (rb_algo list_imultiset) sample_index set_hook sample_init sample_type (Name [97]) 1 False True
      sample_segment = Some (st', Inr 65648) \<and> sg_algo st' = s" using s(1) tot
    by (simp add: generic_construct_def sample_type_def priv_generic_named_construct_def construct_in_buffer_def Let_def
        iset_index_def iset_insert_commit_def construct_n_def sample_init_def fs from_first_header_def value_ptr_def value_offset_def
        sizeof_block_header_def set_index_def)
  then show ?thesis using s(2-4) by blast
qed

text \<open>A program that constructs one object, and one that constructs a second without a name.\<close>

lemma sample_program:
  "\<exists>st h. seg_reach (rb_algo list_imultiset) sample_index set_hook (segment_manager sample_index sample_rb (\<lambda>_. 0)) st {h} {}
    \<and> h_ptr h = 65648 \<and> h_kind h = named_type \<and> h_name h = [97] \<and> h_num h = 1"
proof -
  obtain st' where e: "generic_construct (rb_algo list_imultiset) sample_index set_hook sample_init sample_type (Name [97]) 1 False True
      sample_segment = Some (st', Inr 65648)" using sample_constructed by blast
  have "seg_reach (rb_algo list_imultiset) sample_index set_hook sample_segment st' (with_handle sample_type (Name [97]) 1 (Inr 65648 :: nat thrown + nat) {}) {}"
    by (rule seg_reach.construct [OF seg_reach.start sample_type_ok sample_init_ok _ _ e]) (simp_all add: name_ok_def sample_type_def)
  then show ?thesis by (simp add: with_handle_def sample_segment_def) (metis handle.select_convs)
qed

lemma sample_program_buffer:
  "\<exists>st h p. seg_reach (rb_algo list_imultiset) sample_index set_hook (segment_manager sample_index sample_rb (\<lambda>_. 0)) st {h} {(p, 100)} \<and> h_ptr h = 65648"
proof -
  obtain st bs m where e: "generic_construct (rb_algo list_imultiset) sample_index set_hook sample_init sample_type (Name [97]) 1 False True
      sample_segment = Some (st, Inr 65648)" "rb_rep 65600 69616 (sg_algo st) bs" "allocs 65600 bs = {(65600, m)}" "m \<le> 100"
    using sample_constructed by blast
  let ?U = "with_handle sample_type (Name [97]) 1 (Inr 65648 :: nat thrown + nat) {}"
  have r: "seg_reach (rb_algo list_imultiset) sample_index set_hook sample_segment st ?U {}"
    by (rule seg_reach.construct [OF seg_reach.start sample_type_ok sample_init_ok _ _ e(1)]) (simp_all add: name_ok_def sample_type_def)
  obtain s p where p: "priv_allocate_new (rb_algo list_imultiset) (sg_algo st) 100 100 = Some (s, p)" "p \<noteq> 0"
    using sample_room [OF e(2-4)] by blast
  have "seg_reach (rb_algo list_imultiset) sample_index set_hook sample_segment (st\<lparr>sg_algo := s\<rparr>) ?U (if p = 0 then {} else insert (p, 100) {})"
    by (rule seg_reach.allocate [OF r]) (use p in \<open>simp_all add: sm_allocate_nothrow_def rb_algo_def\<close>)
  then show ?thesis using p(2) by (simp add: with_handle_def sample_segment_def) (metis handle.select_convs(1))
qed

lemma sample_object:
  "\<exists>st ob. rb_segment list_imultiset set_hook 65600 69616 65536 (rb_extra_hdr_bytes sample_rb) 4096 st {} {ob}
    \<and> made_as sample_type named_type [97] 1 ob"
proof -
  have r: "rb_segment list_imultiset set_hook 65600 69616 65536 (rb_extra_hdr_bytes sample_rb) 4096 sample_segment {} {}"
    using sample_rb_live by (simp add: sm_rep_def sample_segment_def segment_manager_def iset_index_def iset_names_def named_as_def)
  have n: "name_ok (Name [97])" "unat (sizeof sample_type) * unat (1 :: size_t) < 2 ^ 62" by (simp_all add: name_ok_def sample_type_def)
  obtain st' where e: "generic_construct (rb_algo list_imultiset) sample_index set_hook sample_init sample_type (Name [97]) 1 False True
      sample_segment = Some (st', Inr 65648)" using sample_constructed by blast
  show ?thesis
    using ds.seg.generic_construct_cases [OF r sample_type_ok sample_init_ok n, of False True] e
    by (auto simp: construct_outcome_def)
qed

end
