(* ===== verification/Segment_Props.thy ===== *)
theory Segment_Props
  imports Segment_Default
begin

text \<open>
  The properties of the segment manager with the default memory algorithm and index. The intrusive containers are any
  that keep their contracts; the witnesses use lists.
\<close>

section \<open>Segments for the witnesses\<close>

text \<open>A one-byte type that needs no initialisation.\<close>

definition sample_byte :: ctype where
  "sample_byte = \<lparr>sizeof = 1, alignof = 1, type_name = [99], dtor = (\<lambda>p m. m)\<rparr>"

definition sample_byte_init :: "nat proxy" where
  "sample_byte_init = (\<lambda>k p m. (m, None))"

text \<open>A segment that has room for the long name.\<close>

definition big_rb :: rb_fit where
  "big_rb = rb_construct list_imultiset 64 65536 sample_rb_heap 262144 0"

definition big_segment :: "(rb_fit, nat list) segment" where
  "big_segment = segment_manager sample_index big_rb (\<lambda>_. 0)"

lemma big_allocates:
  "\<exists>s. sm_allocate_aligned_nothrow (rb_algo list_imultiset) 65575 4 big_segment = Some (big_segment\<lparr>sg_algo := s\<rparr>, 65616)"
proof -
  have r: "rb_rep 65600 327664 big_rb [(16379, False)]"
    using rb_construct_rep(1) [OF list_imultiset_ok, where sz = 64 and this_ptr = 65536 and extra = 0 and segment_size = 262144
        and heap = sample_rb_heap] by (simp add: sample_rb_offset flip: big_rb_def)
  have n: "unat (65575 :: size_t) + 16 \<le> 2 ^ 64" by simp
  have u: "unat (rb_priv_get_total_units 65575) \<le> 5000" using total_units_least [OF n, of 5000] by simp
  have f: "frees 65600 [(16379, False)] = {(65600, 16379)}" by simp
  obtain s p rc where e: "rb_allocate_branch list_imultiset big_rb 65575 65575 = Some (s, p, rc)" "p = 65616"
    using rb_allocate_branch_rep [OF list_imultiset_ok r order_refl n] u unfolding f by (auto split: option.splits)
  have "(4 :: size_t) AND (4 - 1) = 0" "(4 :: size_t) \<le> of_nat (Alignment (rb_algo list_imultiset))" by (simp_all add: rb_algo_def)
  then have "allocate_aligned (rb_algo list_imultiset) big_rb 65575 4 = Some (s, 65616)"
    using e by (simp add: allocate_aligned_def rb_algo_def rb_priv_allocate_new_def)
  then show ?thesis by (simp add: sm_allocate_aligned_nothrow_def big_segment_def segment_manager_def)
qed

lemma big_constructed:
  assumes "length name = 65536"
  shows "\<exists>st'. generic_construct (rb_algo list_imultiset) sample_index set_hook sample_init sample_type (Name name) 1 False True big_segment
     = Some (st', Inr 65648)"
proof -
  have tot: "total_named_size_with_header 4 set_hook (block_header_ctor 4 1) 65536 = 65575"
    by (simp add: total_named_size_with_header_def block_header_prefix_with_header_def total_prefix_with_header_def both_headers_def
        sm_between_headers_def sizeof_block_header_def set_hook_def get_rounded_size_def name_offset_def name_length_offset_def
        value_offset_def value_bytes_ctor)
  have fs: "front_space_with_header 4 set_hook = 0" "sm_between_headers set_hook = 24"
    by (simp_all add: front_space_with_header_def total_prefix_with_header_def both_headers_def sm_between_headers_def
        sizeof_block_header_def set_hook_def get_rounded_size_def)
  obtain s where s: "sm_allocate_aligned_nothrow (rb_algo list_imultiset) 65575 4 big_segment = Some (big_segment\<lparr>sg_algo := s\<rparr>, 65616)"
    using big_allocates by blast
  have "ix_insert_check sample_index (sg_bytes big_segment) name (index_of named_type big_segment) = Inr (Inr 0)"
    by (simp add: iset_index_def iset_insert_check_def big_segment_def segment_manager_def index_of_def list_set_def)
  then show ?thesis using s tot assms
    by (simp add: generic_construct_def sample_type_def priv_generic_named_construct_def construct_in_buffer_def Let_def
        iset_index_def iset_insert_commit_def construct_n_def sample_init_def fs from_first_header_def value_ptr_def value_offset_def
        sizeof_block_header_def set_index_def)
qed

lemma construct_never_throws:
  assumes "\<And>k p m. snd (pr k p m) = None"
  shows "snd (construct_n pr T mem num st) = None"
proof -
  have "snd (construct_from pr T mem k n st) = None" for k n
  proof (induction n arbitrary: k st)
    case (Suc n)
    then show ?case using assms [of k "mem + k * unat (sizeof T)" "sg_bytes st"] by (auto simp: Let_def split: prod.split option.split)
  qed simp
  then show ?thesis by (simp add: construct_n_def)
qed

section \<open>When construction is refused\<close>

text \<open>The size that is asked of the memory algorithm.\<close>

definition request_size :: "extent \<Rightarrow> ctype \<Rightarrow> char_ptr_holder \<Rightarrow> size_t \<Rightarrow> size_t" where
  "request_size H T nm num =
     (let h = block_header_ctor (sizeof T * num) (instance_code (kind_of nm))
      in if kind_of nm = anonymous_type then total_anonymous_size (alignof T) h
         else total_named_size_with_header (alignof T) H h (of_nat (length (name_of T nm))))"

definition construct_refused :: "'e thrown + nat \<Rightarrow> bool" where
  "construct_refused res \<longleftrightarrow> (case res of Inl (Library e) \<Rightarrow> True | Inl (Object e) \<Rightarrow> False | Inr p \<Rightarrow> p = 0)"

lemma refused_simps [simp]:
  "construct_refused (Inl (Library e))" "\<not> construct_refused (Inl (Object x))" "construct_refused (Inr p) \<longleftrightarrow> p = 0"
  "construct_refused (null_or_bad_alloc d)" "construct_refused (null_or_already_exists d)" "construct_refused (null_or_rethrow d e)"
  by (simp_all add: construct_refused_def null_or_bad_alloc_def null_or_already_exists_def null_or_rethrow_def)

lemma value_ptr_pos [simp]: "value_ptr a \<noteq> 0"
  by (simp add: value_ptr_def value_offset_def sizeof_block_header_def)

lemma anonymous_refused:
  assumes "priv_anonymous_construct M pr T num dothrow st = Some (st', res)" "construct_refused res"
  shows "res = null_or_bad_alloc dothrow \<and> (\<exists>s. allocate_aligned M (sg_algo st) (request_size H T anonymous_instance num) (alignof T) = Some (s, 0))"
  using assms by (auto simp: priv_anonymous_construct_def Let_def sm_allocate_aligned_nothrow_def request_size_def bind_eq_Some_conv
      null_or_bad_alloc_def
      split: if_splits prod.splits option.splits)

lemma buffer_not_refused:
  assumes "construct_in_buffer M (iset_index S H) H pr T type name num dothrow cd b st = Some (st', res)"
  shows "\<not> construct_refused res"
  using assms by (auto simp: construct_in_buffer_def Let_def iset_index_def iset_insert_commit_def bind_eq_Some_conv
      split: prod.splits option.splits)

lemma named_refused:
  assumes "priv_generic_named_construct M (iset_index S H) H pr T type name num try2find dothrow st = Some (st', res)" "construct_refused res"
    and "ix_insert_check (iset_index S H) (sg_bytes st) name (index_of type st) = Inr (Inr c)"
    and "kind_of nm = type" "name_of T nm = name" "type \<noteq> anonymous_type"
  shows "res = null_or_bad_alloc dothrow \<and> (\<exists>s. allocate_aligned M (sg_algo st) (request_size H T nm num) (alignof T) = Some (s, 0))"
  using assms by (auto simp: priv_generic_named_construct_def Let_def sm_allocate_aligned_nothrow_def request_size_def bind_eq_Some_conv
      dest: buffer_not_refused split: if_splits)

lemma named_found:
  assumes "ix_insert_check X (sg_bytes st) name (index_of type st) = Inr (Inl v)"
  shows "priv_generic_named_construct M X H pr T type name num try2find dothrow st =
    Some (st, if try2find then Inr (value_ptr (from_first_header H v)) else null_or_already_exists dothrow)"
  using assms by (simp add: priv_generic_named_construct_def)

lemma iset_check_nothrow: "ix_insert_check (iset_index S H) m k x \<noteq> Inl e"
  by (simp add: iset_index_def iset_insert_check_def)

context default_segment
begin

text \<open>Construction with the set index: only a lack of memory refuses a new name.\<close>

lemma construct_exact:
  assumes r: "sm_rep (rb_algo I) H (rb_live lo hi t e z) (iset_names H) st R Obs"
    and T: "ctype_ok T" "proxy_ok T pr" "name_ok nm" "unat (sizeof T) * unat num < 2 ^ 62"
    and c: "generic_construct (rb_algo I) (iset_index S H) H pr T nm num try2find dothrow st = Some (st', res)"
  shows "ob \<in> Obs \<Longrightarrow> kind_of nm \<noteq> anonymous_type \<Longrightarrow> ob_kind ob = kind_of nm \<Longrightarrow> ob_name ob = name_of T nm \<Longrightarrow>
      st' = st \<and> res = (if try2find then Inr (ob_value (rb_algo I) H ob) else null_or_already_exists dothrow)"
    and "kind_of nm = anonymous_type \<or> \<not> (\<exists>ob\<in>Obs. ob_kind ob = kind_of nm \<and> ob_name ob = name_of T nm) \<Longrightarrow> construct_refused res \<Longrightarrow>
      res = null_or_bad_alloc dothrow \<and> (\<exists>s. allocate_aligned (rb_algo I) (sg_algo st) (request_size H T nm num) (alignof T) = Some (s, 0))"
proof -
  have ov: "\<not> num > (- 1) div sizeof T" by (rule count_fits [OF T(1,4)])
  have k: "kind_of nm = named_type \<or> kind_of nm = unique_type" if "kind_of nm \<noteq> anonymous_type" using that by (cases nm) auto
  have g: "priv_generic_named_construct (rb_algo I) (iset_index S H) H pr T (kind_of nm) (name_of T nm) num try2find dothrow st = Some (st', res)"
    if "kind_of nm \<noteq> anonymous_type" using c ov that by (cases nm) (auto simp: generic_construct_def)
  show "st' = st \<and> res = (if try2find then Inr (ob_value (rb_algo I) H ob) else null_or_already_exists dothrow)"
    if ob: "ob \<in> Obs" "kind_of nm \<noteq> anonymous_type" "ob_kind ob = kind_of nm" "ob_name ob = name_of T nm"
  proof -
    have n: "ob_kind ob \<noteq> anonymous_type" using ob(2,3) by simp
    show ?thesis
      using named_found [OF seg.check_object(1) [OF r k [OF ob(2)] iset_check_nothrow ob(1,3,4)], of "rb_algo I" H pr T num try2find dothrow]
        g [OF ob(2)] seg.named_header(1) [OF r ob(1) n] by (simp add: ob_value_def)
  qed
  show "res = null_or_bad_alloc dothrow \<and> (\<exists>s. allocate_aligned (rb_algo I) (sg_algo st) (request_size H T nm num) (alignof T) = Some (s, 0))"
    if no: "kind_of nm = anonymous_type \<or> \<not> (\<exists>ob\<in>Obs. ob_kind ob = kind_of nm \<and> ob_name ob = name_of T nm)" and f: "construct_refused res"
  proof (cases "kind_of nm = anonymous_type")
    case True
    then have "nm = anonymous_instance" by (cases nm) auto
    moreover from this have "priv_anonymous_construct (rb_algo I) pr T num dothrow st = Some (st', res)"
      using c ov by (simp add: generic_construct_def)
    ultimately show ?thesis using anonymous_refused [OF _ f] by blast
  next
    case False
    then obtain cd where "ix_insert_check (iset_index S H) (sg_bytes st) (name_of T nm) (index_of (kind_of nm) st) = Inr (Inr cd)"
      using seg.check_object(2) [OF r k iset_check_nothrow] no by blast
    then show ?thesis using named_refused [OF g [OF False] f _ refl refl False] by blast
  qed
qed

end

section \<open>Single operations\<close>

text \<open>
  C4: Construction, under a name of less than 65536 characters without a zero and of less than \<open>2 ^ 62\<close> bytes, always
  returns. If an object of that kind and name exists, nothing changes and the result is
  the existing object (\<^verbatim>\<open>find_or_construct\<close>), or \<^verbatim>\<open>already_exists\<close>, or null without exceptions. Otherwise the result is
  a new object of which every element has been constructed once, in order; or \<^verbatim>\<open>bad_alloc\<close> or null, only if the
  algorithm has no memory for the object, with everything as it was; or the exception of a constructor, after exactly
  the elements constructed before it have been destroyed, the name has been erased and the memory given back. No byte of
  any other block changes.
\<close>

theorem segment_construct_outcome:
  assumes "imultiset_ok I" "intrusive_set_ok S" "header_extent_ok H" and r: "rb_segment I H lo hi t e z st R Obs"
    and T: "ctype_ok T" "proxy_ok T pr" "name_ok nm" "unat (sizeof T) * unat num < 2 ^ 62"
  shows "\<exists>st' res. generic_construct (rb_algo I) (iset_index S H) H pr T nm num try2find dothrow st = Some (st', res)
    \<and> ((\<exists>ob\<in>Obs. kind_of nm \<noteq> anonymous_type \<and> ob_kind ob = kind_of nm \<and> ob_name ob = name_of T nm \<and> st' = st
          \<and> res = (if try2find then Inr (ob_value (rb_algo I) H ob) else null_or_already_exists dothrow))
       \<or> (kind_of nm = anonymous_type \<or> \<not> (\<exists>ob\<in>Obs. ob_kind ob = kind_of nm \<and> ob_name ob = name_of T nm))
          \<and> construct_outcome (rb_algo I) H (rb_segment I H lo hi t e z) T (kind_of nm) (name_of T nm) num dothrow st R Obs st' res
          \<and> (construct_refused res \<longrightarrow> res = null_or_bad_alloc dothrow
               \<and> (\<exists>s. allocate_aligned (rb_algo I) (sg_algo st) (request_size H T nm num) (alignof T) = Some (s, 0))))"
proof -
  obtain st' res where c: "generic_construct (rb_algo I) (iset_index S H) H pr T nm num try2find dothrow st = Some (st', res)"
      "(\<exists>ob\<in>Obs. kind_of nm \<noteq> anonymous_type \<and> ob_kind ob = kind_of nm \<and> ob_name ob = name_of T nm)
       \<or> (kind_of nm = anonymous_type \<or> \<not> (\<exists>ob\<in>Obs. ob_kind ob = kind_of nm \<and> ob_name ob = name_of T nm))
          \<and> construct_outcome (rb_algo I) H (rb_segment I H lo hi t e z) T (kind_of nm) (name_of T nm) num dothrow st R Obs st' res"
    using segment_parts.generic_construct_cases [OF rb_segment_parts [OF assms(1-3)] r T, of try2find dothrow] by blast
  note x = default_segment.construct_exact [OF default_segmentI [OF assms(1-3)] r T c(1)]
  show ?thesis using c x by blast
qed

theorem segment_construct_outcome_witness:
  "\<exists>st' p. generic_construct (rb_algo list_imultiset) sample_index set_hook sample_init sample_type (Name [97]) 1 False True sample_segment
      = Some (st', Inr p) \<and> p = 65648
    \<and> (\<exists>ob. rb_segment list_imultiset set_hook 65600 69616 65536 (rb_extra_hdr_bytes sample_rb) 4096 st' {} {ob}
         \<and> ob_name ob = [97] \<and> ob_kind ob = named_type) \<and> sg_calls st' = [Ctor 65648]"
proof -
  have r: "rb_segment list_imultiset set_hook 65600 69616 65536 (rb_extra_hdr_bytes sample_rb) 4096 sample_segment {} {}"
    using sample_rb_live by (simp add: sm_rep_def sample_segment_def segment_manager_def iset_index_def iset_names_def named_as_def)
  have n: "name_ok (Name [97])" "unat (sizeof sample_type) * unat (1 :: size_t) < 2 ^ 62" by (simp_all add: name_ok_def sample_type_def)
  obtain st' where e: "generic_construct (rb_algo list_imultiset) sample_index set_hook sample_init sample_type (Name [97]) 1 False True
      sample_segment = Some (st', Inr 65648)" using sample_constructed by blast
  have "sg_calls sample_segment = []" by (simp add: sample_segment_def segment_manager_def)
  then show ?thesis
    using segment_construct_outcome [OF list_imultiset_ok list_set_ok set_hook_ok r sample_type_ok sample_init_ok n, of False True] e
    by (auto simp: construct_outcome_def made_as_def elem_addrs_def)
qed

text \<open>
  C19: Destruction, by name (of a named object) or by address (of any object), runs the destructor of every element of the object once, in order, erases
  the name and gives the memory back, and touches no other block; the address alone is enough to find the
  object's kind and name. A name that is not there gives false and changes nothing.
\<close>

theorem segment_destroy_outcome:
  assumes "imultiset_ok I" "intrusive_set_ok S" "header_extent_ok H" and r: "rb_segment I H lo hi t e z st R Obs" and T: "ctype_ok T"
  shows "(\<forall>ob\<in>Obs. ob_align ob = alignof T \<longrightarrow>
        (\<exists>st'. sm_destroy_ptr (rb_algo I) (iset_index S H) H T (ob_value (rb_algo I) H ob) st = Some st'
          \<and> destroy_outcome (rb_algo I) H (rb_segment I H lo hi t e z) T ob st R Obs st'))
    \<and> (\<forall>ob\<in>Obs. ob_align ob = alignof T \<longrightarrow> ob_kind ob = named_type \<longrightarrow>
        (\<exists>st'. sm_destroy (rb_algo I) (iset_index S H) H T (Name (ob_name ob)) st = Some (st', True)
          \<and> destroy_outcome (rb_algo I) H (rb_segment I H lo hi t e z) T ob st R Obs st'))
    \<and> (\<forall>n. \<not> (\<exists>ob\<in>Obs. ob_kind ob = named_type \<and> ob_name ob = n) \<longrightarrow>
        sm_destroy (rb_algo I) (iset_index S H) H T (Name n) st = Some (st, False))"
proof -
  note P = rb_segment_parts [OF assms(1-3)]
  show ?thesis
    using segment_parts.destroy_ptr_outcome [OF P r T] segment_parts.named_destroy_outcome [OF P r, of named_type T] T
    by (auto simp: sm_destroy_def)
qed

theorem segment_destroy_outcome_witness:
  "\<exists>st ob st'. rb_segment list_imultiset set_hook 65600 69616 65536 (rb_extra_hdr_bytes sample_rb) 4096 st {} {ob} \<and> ob_name ob = [97]
    \<and> sm_destroy (rb_algo list_imultiset) sample_index set_hook sample_type (Name [97]) st = Some (st', True)
    \<and> rb_segment list_imultiset set_hook 65600 69616 65536 (rb_extra_hdr_bytes sample_rb) 4096 st' {} {}"
proof -
  obtain st ob where s: "rb_segment list_imultiset set_hook 65600 69616 65536 (rb_extra_hdr_bytes sample_rb) 4096 st {} {ob}"
      "made_as sample_type named_type [97] 1 ob"
    using sample_object by blast
  have o: "ob_kind ob = named_type" "ob_name ob = [97]" "ob_align ob = alignof sample_type" using s(2) by (auto simp: made_as_def)
  show ?thesis
    using segment_destroy_outcome [OF list_imultiset_ok list_set_ok set_hook_ok s(1) sample_type_ok] o s(1)
    by (auto simp: destroy_outcome_def)
qed

section \<open>Programs\<close>

text \<open>
  C17: In every state that a program can reach with \<^const>\<open>seg_reach\<close> (names and type names of less than 65536
  characters without a zero, objects of less than \<open>2 ^ 62\<close> bytes, raw requests of at most \<open>2 ^ 64 - 16\<close> bytes or, with
  an alignment, \<open>2 ^ 62\<close>), an object the program constructed under a name, or as the unique instance of its type, is
  found under it, at its address and with its number of elements; the address of every object gives its kind and its
  number of elements and is aligned for its type, and that of a named or unique object whose name is not empty gives
  the address of its name, which ends with a zero; and a name under which the program holds nothing is not found. For
  the empty name, which \<^verbatim>\<open>construct\<close> accepts, an assertion of \<^verbatim>\<open>get_instance_name\<close> fails.
\<close>

theorem segment_lookup:
  assumes "imultiset_ok I" "intrusive_set_ok S" "header_extent_ok H" and s: "rb_reach I sz lo s {}"
    and r: "seg_reach (rb_algo I) (iset_index S H) H (segment_manager (iset_index S H) s mem) st U Rw"
  shows "(\<forall>h\<in>U. get_instance_type (h_ptr h) st = h_kind h \<and> get_instance_length (h_type h) (h_ptr h) st = h_num h
        \<and> h_ptr h mod unat (alignof (h_type h)) = 0
        \<and> (h_kind h = named_type \<longrightarrow> sm_find (iset_index S H) H (h_type h) (Name (h_name h)) st = Some (h_ptr h, h_num h))
        \<and> (h_kind h \<noteq> anonymous_type \<longrightarrow> h_name h \<noteq> [] \<longrightarrow>
             (\<exists>q. get_instance_name (h_ptr h) st = Some q \<and> get_bytes (sg_bytes st) q (Suc (length (h_name h))) = h_name h @ [0]))
        \<and> (h_name h = [] \<longrightarrow> get_instance_name (h_ptr h) st = (if h_kind h = anonymous_type then Some 0 else None)))
    \<and> (\<forall>h\<in>U. called (h_type h) unique_instance h \<longrightarrow>
        sm_find (iset_index S H) H (h_type h) unique_instance st = Some (h_ptr h, h_num h))
    \<and> (\<forall>T n. \<not> (\<exists>h\<in>U. called T (Name n) h) \<longrightarrow> sm_find (iset_index S H) H T (Name n) st = Some (0, 0))"
proof -
  note P = rb_segment_parts [OF assms(1-3)]
  obtain hi where "rb_live lo hi (rb_this s) (rb_extra_hdr_bytes s) (rb_size s) s {}" by (rule rb_segment_start [OF s assms(1)])
  note inv = segment_parts.reach_inv [OF P r this]
  note H = segment_parts.inv_handles [OF P inv]
  have "priv_generic_find (iset_index S H) H (h_type h) named_type (h_name h) st = (h_ptr h, h_num h)"
    if "h \<in> U" "h_kind h = named_type" for h using H(5) [of h] that by simp
  moreover have "priv_generic_find (iset_index S H) H (h_type h) unique_type (type_name (h_type h)) st = (h_ptr h, h_num h)"
    if "h \<in> U" "h_kind h = unique_type" "h_name h = type_name (h_type h)" for h using H(5) [of h] that by simp
  ultimately show ?thesis
    using H segment_parts.inv_absent [OF P inv, of "Name n" for n] by (auto simp: sm_find_def called_def)
qed

theorem segment_lookup_witness:
  "\<exists>st h. seg_reach (rb_algo list_imultiset) sample_index set_hook (segment_manager sample_index sample_rb (\<lambda>_. 0)) st {h} {}
    \<and> h_name h = [97] \<and> sm_find sample_index set_hook (h_type h) (Name [97]) st = Some (65648, 1)"
proof -
  obtain st h where s: "seg_reach (rb_algo list_imultiset) sample_index set_hook (segment_manager sample_index sample_rb (\<lambda>_. 0)) st {h} {}"
      "h_ptr h = 65648" "h_kind h = named_type" "h_name h = [97]" "h_num h = 1" using sample_program by blast
  show ?thesis using segment_lookup [OF list_imultiset_ok list_set_ok set_hook_ok sample_rb_reach s(1)] s by auto
qed

text \<open>
  C18: In every state that a program can reach with \<^const>\<open>seg_reach\<close> (within the limits on names, object sizes and raw
  requests given above), the objects and the raw buffers it holds lie in pairwise disjoint
  memory, wherever it constructed, destroyed, allocated, deallocated or wrote before.
\<close>

theorem segment_memory_disjoint:
  assumes "imultiset_ok I" "intrusive_set_ok S" "header_extent_ok H" and s: "rb_reach I sz lo s {}"
    and r: "seg_reach (rb_algo I) (iset_index S H) H (segment_manager (iset_index S H) s mem) st U Rw"
  shows "(\<forall>h\<in>U. \<forall>h'\<in>U. h \<noteq> h' \<longrightarrow> h_bytes h \<inter> h_bytes h' = {})
    \<and> (\<forall>h\<in>U. \<forall>(p, n)\<in>Rw. h_bytes h \<inter> {p..<p + unat n} = {})
    \<and> (\<forall>(p, n)\<in>Rw. \<forall>(q, k)\<in>Rw. (p, n) \<noteq> (q, k) \<longrightarrow> {p..<p + unat n} \<inter> {q..<q + unat k} = {})"
proof -
  note P = rb_segment_parts [OF assms(1-3)]
  obtain hi where "rb_live lo hi (rb_this s) (rb_extra_hdr_bytes s) (rb_size s) s {}" by (rule rb_segment_start [OF s assms(1)])
  note A = segment_parts.inv_apart [OF P segment_parts.reach_inv [OF P r this]]
  have "\<forall>h\<in>U. \<forall>h'\<in>U. h \<noteq> h' \<longrightarrow> h_bytes h \<inter> h_bytes h' = {}" using A(1) by blast
  moreover have "\<forall>h\<in>U. \<forall>(p, n)\<in>Rw. h_bytes h \<inter> {p..<p + unat n} = {}" using A(2) by blast
  moreover have "\<forall>(p, n)\<in>Rw. \<forall>(q, k)\<in>Rw. (p, n) \<noteq> (q, k) \<longrightarrow> {p..<p + unat n} \<inter> {q..<q + unat k} = {}" using A(3) by blast
  ultimately show ?thesis by blast
qed

theorem segment_memory_disjoint_witness:
  "\<exists>st h p. seg_reach (rb_algo list_imultiset) sample_index set_hook (segment_manager sample_index sample_rb (\<lambda>_. 0)) st {h} {(p, 100)}
    \<and> h_ptr h = 65648 \<and> h_bytes h \<inter> {p..<p + 100} = {}"
proof -
  obtain st h p where s: "seg_reach (rb_algo list_imultiset) sample_index set_hook (segment_manager sample_index sample_rb (\<lambda>_. 0)) st {h} {(p, 100)}"
      "h_ptr h = 65648" using sample_program_buffer by blast
  show ?thesis using segment_memory_disjoint [OF list_imultiset_ok list_set_ok set_hook_ok sample_rb_reach s(1)] s by auto
qed

text \<open>
  C3: No memory is lost: in every state that a program can reach with \<^const>\<open>seg_reach\<close> (within the limits on names, object
  sizes and raw requests given above), the algorithm finds its blocks sane, and it
  answers that all memory is deallocated exactly when the program holds no object and no buffer, whatever
  exceptions constructors threw before. The number of named objects is the number the program holds.
\<close>

theorem segment_no_leak:
  assumes "imultiset_ok I" "intrusive_set_ok S" "header_extent_ok H" and s: "rb_reach I sz lo s {}"
    and r: "seg_reach (rb_algo I) (iset_index S H) H (segment_manager (iset_index S H) s mem) st U Rw"
  shows "rb_check_sanity sz (sg_algo st) \<and> (rb_all_memory_deallocated sz (sg_algo st) \<longleftrightarrow> U = {} \<and> Rw = {})
    \<and> get_num_named_objects (iset_index S H) st = card {h \<in> U. h_kind h = named_type}
    \<and> get_num_unique_objects (iset_index S H) st = card {h \<in> U. h_kind h = unique_type}"
proof -
  note P = rb_segment_parts [OF assms(1-3)]
  obtain hi where l: "rb_live lo hi (rb_this s) (rb_extra_hdr_bytes s) (rb_size s) s {}" and p: "rb_placed sz s lo hi"
    by (rule rb_segment_start [OF s assms(1)])
  note inv = segment_parts.reach_inv [OF P r l]
  obtain A where A: "rb_live lo hi (rb_this s) (rb_extra_hdr_bytes s) (rb_size s) (sg_algo st) A" "A = {} \<longleftrightarrow> U = {} \<and> Rw = {}"
    by (rule segment_parts.inv_allocated [OF P inv])
  show ?thesis
    using rb_live_answers [OF A(1) p] A(2) segment_parts.inv_counts [OF P inv]
    by (simp add: get_num_named_objects_def get_num_unique_objects_def index_of_def)
qed

theorem segment_no_leak_witness:
  "\<exists>st h. seg_reach (rb_algo list_imultiset) sample_index set_hook (segment_manager sample_index sample_rb (\<lambda>_. 0)) st {h} {}
    \<and> \<not> rb_all_memory_deallocated 64 (sg_algo st) \<and> get_num_named_objects sample_index st = 1"
proof -
  obtain st h where s: "seg_reach (rb_algo list_imultiset) sample_index set_hook (segment_manager sample_index sample_rb (\<lambda>_. 0)) st {h} {}"
      "h_kind h = named_type" using sample_program by blast
  have "{x \<in> {h}. h_kind x = named_type} = {h}" using s(2) by auto
  then show ?thesis using segment_no_leak [OF list_imultiset_ok list_set_ok set_hook_ok sample_rb_reach s(1)] s(1) by auto
qed

section \<open>Limits of the control data\<close>

lemma value_bytes_masked: "value_bytes (block_header_ctor n k) = take_bit 62 n"
proof -
  have "(drop_bit 2 (NOT 0) :: size_t) = mask 62" by (rule bit_word_eqI) (auto simp: bit_simps)
  then show ?thesis by (simp add: value_bytes_def block_header_ctor_def unsigned_ucast_eq flip: take_bit_eq_mask)
qed

lemma value_bytes_ctor_iff: "value_bytes (block_header_ctor n k) = n \<longleftrightarrow> unat n < 2 ^ 62"
proof
  assume "value_bytes (block_header_ctor n k) = n"
  moreover have "unat (m_value_bytes (block_header_ctor n k)) < 2 ^ 62" by (rule order_less_le_trans [OF unsigned_less]) simp
  moreover have "unat (value_bytes h) = unat (m_value_bytes h)" for h
    unfolding value_bytes_def unsigned_ucast_eq
    by (rule take_bit_nat_eq_self, rule order_less_le_trans [OF unsigned_less]) simp
  ultimately show "unat n < 2 ^ 62" by metis
qed (rule value_bytes_ctor)

text \<open>The length that is written in front of a name is read back, whatever is written to the value afterwards.\<close>

lemma name_length_read:
  fixes m :: bytes and a :: nat and l :: "16 word"
  assumes v: "unat (value_bytes h) < 2 ^ 62" and k: "m_alloc_type h \<noteq> 0"
  defines "m2 \<equiv> store_name_length (store_header m a h) a l"
  assumes same: "\<And>x. x < a + 8 \<or> a + 8 + unat (value_bytes h) \<le> x \<Longrightarrow> m' x = put_bytes m2 (name_ptr m2 a) bs x"
  shows "name_length m' a = l"
proof -
  let ?l = "a + unat (name_length_offset h)"
  note O = name_offset_nat [OF v]
  have m2: "m2 = put_bytes (store_header m a h) ?l (le_bytes 2 (unat l))" by (simp add: store_name_length_def m2_def)
  have "header_at m2 a = header_at (store_header m a h) a"
    unfolding m2 by (rule header_at_eqI, rule put_bytes_outside) (use O in auto)
  then have h2: "header_at m2 a = h" by simp
  have m': "m' x = m2 x" if "x < a + 8 \<or> a + 8 + unat (value_bytes h) \<le> x" "x < a + unat (name_offset h)" for x
    using same [OF that(1)] that(2) by (simp add: name_ptr_def h2 put_bytes_outside)
  have "header_at m' a = header_at m2 a" by (rule header_at_eqI) (use m' O in auto)
  then have h: "header_at m' a = h" using h2 by simp
  have "get_bytes m' ?l 2 = get_bytes m2 ?l 2" by (rule get_bytes_eqI) (use m' O in auto)
  then have "get_bytes m' ?l 2 = le_bytes 2 (unat l)" by (simp add: m2 get_put_same)
  moreover have "unat l < 256 ^ 2" by (rule order_less_le_trans [OF unsigned_less]) simp
  ultimately show ?thesis using k by (simp add: name_length_def h le_value_bytes)
qed

text \<open>A construction that succeeds although the index is empty has found a buffer and inserted the first node.\<close>

lemma construct_empty_index:
  assumes S: "intrusive_set_ok S" and e: "m_named_index st = []"
    and c: "generic_construct M (iset_index S H) H pr T (Name name) num try2find dothrow st = Some (st', Inr p)" "p \<noteq> 0"
  obtains cd b st1 where "construct_in_buffer M (iset_index S H) H pr T named_type name num dothrow cd b st1 = Some (st', Inr p)"
    "m_named_index st1 = []" "\<And>v. is_insert_commit S v cd [] = [v]"
proof -
  have g: "priv_generic_named_construct M (iset_index S H) H pr T named_type name num try2find dothrow st = Some (st', Inr p)"
    using c by (auto simp: generic_construct_def null_or_bad_alloc_def split: if_splits)
  obtain cd where cd: "is_insert_check S (\<lambda>v. less_value_key H (sg_bytes st) v name) (less_key_value H (sg_bytes st) name) [] = Inr cd"
      "\<And>v. is_insert_commit S v cd [] = [v]"
    using set_absent [OF S, of _ _ "[]" "[]"] by (auto simp: divided_def)
  have "ix_insert_check (iset_index S H) (sg_bytes st) name (index_of named_type st) = Inr (Inr cd)"
    using cd(1) e by (simp add: iset_index_def iset_insert_check_def index_of_def)
  then obtain st1 b where "sm_allocate_aligned_nothrow M (total_named_size_with_header (alignof T) H
        (block_header_ctor (sizeof T * num) (instance_code named_type)) (of_nat (length name))) (alignof T) st = Some (st1, b)"
      "construct_in_buffer M (iset_index S H) H pr T named_type name num dothrow cd b st1 = Some (st', Inr p)"
    using g c(2) by (auto simp: priv_generic_named_construct_def Let_def null_or_bad_alloc_def bind_eq_Some_conv split: if_splits)
  moreover from this(1) have "m_named_index st1 = []" using e by (auto simp: sm_allocate_aligned_nothrow_def bind_eq_Some_conv)
  ultimately show thesis using that cd(2) by blast
qed

lemma buffer_name_length:
  assumes T: "ctype_ok T" "proxy_ok T pr" "unat (sizeof T) * unat num < 2 ^ 62"
    and e: "m_named_index st = []" and cd: "\<And>v. is_insert_commit S v cd [] = [v]"
    and c: "construct_in_buffer M (iset_index S H) H pr T named_type name num dothrow cd b st = Some (st', Inr p)" "p \<noteq> 0"
  obtains v where "m_named_index st' = [v]" "name_length (sg_bytes st') (from_first_header H v) = ucast (of_nat (length name) :: size_t)"
proof -
  define h where "h = block_header_ctor (sizeof T * num) (instance_code named_type)"
  define v where "v = b + unat (front_space_with_header (alignof T) H)"
  define a where "a = from_first_header H v"
  define m2 where "m2 = store_name_length (store_header (sg_bytes st) a h) a (ucast (of_nat (length name) :: size_t))"
  define m3 where "m3 = put_bytes m2 (name_ptr m2 a) (name @ [0])"
  define st2 where "st2 = st\<lparr>sg_bytes := m3, m_named_index := [v]\<rparr>"
  have u: "unat (sizeof T * num) = unat (sizeof T) * unat num" using T(3) by (intro unat_mult_lem') simp
  then have vb: "value_bytes h = sizeof T * num" using value_bytes_ctor [of "sizeof T * num"] T(3) by (simp add: h_def)
  have k: "m_alloc_type h \<noteq> 0" by (simp add: h_def block_header_ctor_def)
  obtain m r calls where n: "construct_n pr T (a + 8) num st2 = (st2\<lparr>sg_bytes := m, sg_calls := sg_calls st2 @ calls\<rparr>, r)"
      "\<And>x. x < a + 8 \<or> a + 8 + unat num * unat (sizeof T) \<le> x \<Longrightarrow> m x = sg_bytes st2 x"
    using construct_n_effect [OF T(1,2), of "a + 8" num st2] by metis
  have "st' = st2\<lparr>sg_bytes := m, sg_calls := sg_calls st2 @ calls\<rparr>"
    using c n(1) e cd unfolding construct_in_buffer_def Let_def h_def [symmetric] v_def [symmetric] a_def [symmetric]
      m2_def [symmetric] m3_def [symmetric]
    by (auto simp: index_of_def set_index_def iset_index_def iset_insert_commit_def value_ptr_def value_offset_def sizeof_block_header_def
        bind_eq_Some_conv simp flip: st2_def split: prod.splits option.splits)
  moreover have "name_length m a = ucast (of_nat (length name) :: size_t)"
  proof (rule name_length_read [OF _ k])
    show "unat (value_bytes h) < 2 ^ 62" using vb u T(3) by simp
    show "m x = put_bytes (store_name_length (store_header (sg_bytes st) a h) a (ucast (of_nat (length name) :: size_t)))
        (name_ptr (store_name_length (store_header (sg_bytes st) a h) a (ucast (of_nat (length name) :: size_t))) a) (name @ [0]) x" if "x < a + 8 \<or> a + 8 + unat (value_bytes h) \<le> x" for x
      using n(2) [of x] that vb u by (simp add: st2_def m3_def m2_def mult.commute)
  qed
  ultimately show thesis using that [of v] by (simp add: a_def st2_def)
qed

text \<open>
  C33: The header in front of a value keeps the kind of the object, and it keeps the size of the value exactly when
  that is smaller than two to the 62: the two highest bits of the size give way to the kind.
\<close>

theorem block_header_types:
  "let h = header_at (store_header m a (block_header_ctor n (instance_code k))) (block_header_from_value (value_ptr a))
   in instance_of_code (alloc_type h) = k \<and> (value_bytes h = n \<longleftrightarrow> unat n < 2 ^ 62)"
  by (simp add: block_header_from_value_def value_ptr_def value_bytes_ctor_iff)

text \<open>
  The check for overflow in \<^verbatim>\<open>generic_construct\<close> lets an array of two to the 62 one-byte objects pass, whose size
  the header does not keep: only the eight bytes of the header are requested, all the objects are constructed behind
  them, and the length that is read back is 0.
\<close>

theorem object_count_truncated:
  assumes T: "ctype_ok T" "sizeof T = 1" "alignof T = 1" and pr: "proxy_ok T pr" "\<And>k p m. snd (pr k p m) = None"
    and a: "sm_allocate_aligned_nothrow M 8 1 st = Some (st1, p)" "p \<noteq> 0"
  shows "\<exists>st'. generic_construct M X H pr T anonymous_instance (2 ^ 62) try2find dothrow st = Some (st', Inr (p + 8))
    \<and> sg_calls st' = sg_calls st1 @ map Ctor (elem_addrs T (p + 8) (2 ^ 62)) \<and> get_instance_length T (p + 8) st' = 0"
proof -
  let ?h = "block_header_ctor (sizeof T * 2 ^ 62) (instance_code anonymous_type)"
  have v: "value_bytes ?h = 0" by (simp add: T(2) value_bytes_masked)
  have pre: "block_header_prefix_without_header (alignof T) = 0"
    by (simp add: T(3) block_header_prefix_without_header_def sizeof_block_header_def get_rounded_size_def)
  have tot: "total_anonymous_size (alignof T) ?h = 8" using v pre by (simp add: total_anonymous_size_def value_offset_def sizeof_block_header_def)
  define st2 where "st2 = st1\<lparr>sg_bytes := store_header (sg_bytes st1) p ?h\<rparr>"
  obtain m r calls where c: "construct_n pr T (p + 8) (2 ^ 62) st2 = (st2\<lparr>sg_bytes := m, sg_calls := sg_calls st2 @ calls\<rparr>, r)"
      "\<And>x. x < p + 8 \<or> p + 8 + unat (2 ^ 62 :: size_t) * unat (sizeof T) \<le> x \<Longrightarrow> m x = sg_bytes st2 x"
      "if r = None then calls = map Ctor (elem_addrs T (p + 8) (unat (2 ^ 62 :: size_t)))
       else \<exists>i<unat (2 ^ 62 :: size_t). calls = map Ctor (elem_addrs T (p + 8) i) @ map Dtor (elem_addrs T (p + 8) i)"
    using construct_n_effect [OF T(1) pr(1), of "p + 8" "2 ^ 62" st2] by metis
  have r: "r = None" using construct_never_throws [of pr T "p + 8" "2 ^ 62" st2] pr(2) c(1) by simp
  have u: "unat (2 ^ 62 :: size_t) = 2 ^ 62" by (rule unat_pow2_size) simp
  have "header_at m p = header_at (sg_bytes st2) p" by (rule header_at_eqI) (use c(2) in auto)
  then have "header_at m p = ?h" by (simp add: st2_def)
  then have len: "get_instance_length T (p + 8) (st2\<lparr>sg_bytes := m, sg_calls := sg_calls st2 @ calls\<rparr>) = 0"
    using v by (simp add: get_instance_length_def block_header_from_value_def value_offset_def sizeof_block_header_def)
  have "generic_construct M X H pr T anonymous_instance (2 ^ 62) try2find dothrow st
      = Some (st2\<lparr>sg_bytes := m, sg_calls := sg_calls st2 @ calls\<rparr>, Inr (p + 8))"
    using a c(1) r tot pre unfolding st2_def
    by (simp add: generic_construct_def T(2) priv_anonymous_construct_def Let_def front_space_without_header_def value_ptr_def
        value_offset_def sizeof_block_header_def T(3))
  then show ?thesis using len c(3) r u by (auto simp: st2_def)
qed

theorem object_count_truncated_witness:
  "\<exists>st' p. generic_construct (rb_algo list_imultiset) sample_index set_hook sample_byte_init sample_byte anonymous_instance (2 ^ 62) False True
      sample_segment = Some (st', Inr p) \<and> get_instance_length sample_byte p st' = 0"
proof -
  have T: "ctype_ok sample_byte" "sizeof sample_byte = 1" "alignof sample_byte = 1"
    unfolding ctype_ok_def sample_byte_def by (auto intro: exI [of _ 0])
  have pr: "proxy_ok sample_byte sample_byte_init" "\<And>k p m. snd (sample_byte_init k p m) = None"
    by (simp_all add: proxy_ok_def sample_byte_init_def)
  obtain st1 where a: "sm_allocate_aligned_nothrow (rb_algo list_imultiset) 8 1 sample_segment = Some (st1, 65616)"
    using sample_allocates [of 8 1] by auto
  show ?thesis using object_count_truncated [OF T pr a, of sample_index set_hook False True] by (simp, blast)
qed

text \<open>
  C34: The length of a name is stored in 16 bits, and no check precedes it: the first object constructed under a name of
  65536 characters is in the index, but not under that name. It is not found and not destroyed by it.
\<close>

theorem long_name_not_found:
  assumes S: "intrusive_set_ok S" and T: "ctype_ok T" "proxy_ok T pr" "unat (sizeof T) * unat num < 2 ^ 62"
    and name: "length name = 65536" and e: "m_named_index st = []"
    and c: "generic_construct M (iset_index S H) H pr T (Name name) num try2find dothrow st = Some (st', Inr p)" "p \<noteq> 0"
  shows "get_num_named_objects (iset_index S H) st' = 1 \<and> sm_find (iset_index S H) H T (Name name) st' = Some (0, 0)
    \<and> sm_destroy M (iset_index S H) H T (Name name) st' = Some (st', False)"
proof -
  obtain cd b st1 where b: "construct_in_buffer M (iset_index S H) H pr T named_type name num dothrow cd b st1 = Some (st', Inr p)"
      "m_named_index st1 = []" "\<And>v. is_insert_commit S v cd [] = [v]"
    using construct_empty_index [OF S e c] by metis
  obtain v where v: "m_named_index st' = [v]" "name_length (sg_bytes st') (from_first_header H v) = ucast (of_nat (length name) :: size_t)"
    by (rule buffer_name_length [OF T b(2,3,1) c(2)])
  then have "key_at H (sg_bytes st') v = []" by (simp add: key_at_def name_at_def name get_bytes_def)
  then have "divided (\<lambda>v. less_value_key H (sg_bytes st') v name) (less_key_value H (sg_bytes st') name) [v] [] []"
    using name by (simp add: divided_def less_value_key_def less_key_value_def less_name_def)
  then have "is_find S (\<lambda>v. less_value_key H (sg_bytes st') v name) (less_key_value H (sg_bytes st') name) ([v] @ []) = None"
    using S unfolding intrusive_set_ok_def by blast
  then have "ix_find (iset_index S H) (sg_bytes st') name [v] = None" by (simp add: iset_index_def iset_find_def)
  then show ?thesis
    using v(1) by (simp add: get_num_named_objects_def sm_find_def priv_generic_find_def sm_destroy_def priv_generic_named_destroy_def
        index_of_def) (simp add: iset_index_def)
qed

theorem long_name_not_found_witness:
  "\<exists>name st'. length name = 65536 \<and> generic_construct (rb_algo list_imultiset) sample_index set_hook sample_init sample_type (Name name) 1
      False True big_segment = Some (st', Inr 65648)
    \<and> get_num_named_objects sample_index st' = 1 \<and> sm_find sample_index set_hook sample_type (Name name) st' = Some (0, 0)"
proof -
  obtain name :: "byte list" where n: "length name = 65536" using Ex_list_of_length by blast
  obtain st' where c: "generic_construct (rb_algo list_imultiset) sample_index set_hook sample_init sample_type (Name name) 1
      False True big_segment = Some (st', Inr 65648)" using big_constructed [OF n] by blast
  have "unat (sizeof sample_type) * unat (1 :: size_t) < 2 ^ 62" "m_named_index big_segment = []"
    by (simp_all add: sample_type_def big_segment_def segment_manager_def iset_index_def)
  from long_name_not_found [OF list_set_ok sample_type_ok sample_init_ok this(1) n this(2) c] show ?thesis using n c by auto
qed

end
