(* ===== verification/Gate_Threads.thy ===== *)
theory Gate_Threads
  imports Prelude
begin

text \<open>
  Threads at a mutex that is built from an internal mutex and two condition variables, as the sharable and
  the upgradable mutex are. Each critical section of an operation runs with the internal mutex locked and
  is one step; a wait on a gate releases the mutex and puts the thread to sleep in the same step. The
  notifications are sent while the mutex is held, so they belong to the step. A sleeping thread may wake
  for no reason, and in a timed wait by timeout. These are the documented properties of a mutex and a
  condition variable.
\<close>

section \<open>Phases of a thread\<close>

datatype gate = First_Gate | Second_Gate

datatype notice = No_Note | All_First | One_Second

text \<open>The end of a critical section: the thread waits at a gate, or the operation returns.\<close>

datatype section_result = Wait gate | Return bool notice

datatype request = Exclusive_Req | Upgradable_Req | Sharable_Req | Promote_Req

datatype ownership = Exclusive | Upgradable | Sharable

text \<open>
  A thread is outside, owns the mutex, sleeps at a gate (the flag says whether the wait is timed), or has been
  woken up there (the second flag says whether by timeout).
\<close>

datatype phase =
    Outside
  | Owns ownership
  | Asleep request bool gate
  | Awake request bool gate bool

fun granted :: "request \<Rightarrow> phase" where
  "granted Exclusive_Req = Owns Exclusive"
| "granted Upgradable_Req = Owns Upgradable"
| "granted Sharable_Req = Owns Sharable"
| "granted Promote_Req = Owns Exclusive"

fun refused :: "request \<Rightarrow> phase" where
  "refused Promote_Req = Owns Upgradable"
| "refused _ = Outside"

fun phase_after :: "request \<Rightarrow> bool \<Rightarrow> section_result \<Rightarrow> phase" where
  "phase_after req timed (Wait g) = Asleep req timed g"
| "phase_after req timed (Return ok n) = (if ok then granted req else refused req)"

fun notice_of :: "section_result \<Rightarrow> notice" where
  "notice_of (Wait g) = No_Note"
| "notice_of (Return ok n) = n"

fun wake_first :: "phase \<Rightarrow> phase" where
  "wake_first (Asleep req timed First_Gate) = Awake req timed First_Gate False"
| "wake_first p = p"

inductive notified :: "notice \<Rightarrow> phase list \<Rightarrow> phase list \<Rightarrow> bool" where
  nobody: "notified No_Note ts ts"
| all_first: "notified All_First ts (map wake_first ts)"
| one_second: "j < length ts \<Longrightarrow> ts ! j = Asleep req timed Second_Gate \<Longrightarrow>
    notified One_Second ts (ts[j := Awake req timed Second_Gate False])"
| none_second: "\<forall>p\<in>set ts. \<forall>req timed. p \<noteq> Asleep req timed Second_Gate \<Longrightarrow> notified One_Second ts ts"

section \<open>Steps of a system of threads\<close>

text \<open>
  \<open>act c p c' p' n\<close>: a thread in phase \<open>p\<close> runs a critical section that changes the control data from \<open>c\<close> to
  \<open>c'\<close>, leaves the thread in phase \<open>p'\<close> and sends the notification \<open>n\<close>.
\<close>

inductive gate_step ::
  "('c \<Rightarrow> phase \<Rightarrow> 'c \<Rightarrow> phase \<Rightarrow> notice \<Rightarrow> bool) \<Rightarrow> 'c \<times> phase list \<Rightarrow> 'c \<times> phase list \<Rightarrow> bool" for act where
  section_step: "i < length ts \<Longrightarrow> act c (ts ! i) c' p' n \<Longrightarrow> notified n (ts[i := p']) ts' \<Longrightarrow>
    gate_step act (c, ts) (c', ts')"
| wakes: "i < length ts \<Longrightarrow> ts ! i = Asleep req timed g \<Longrightarrow> (timeout \<longrightarrow> timed) \<Longrightarrow>
    gate_step act (c, ts) (c, ts[i := Awake req timed g timeout])"

inductive gate_reach ::
  "('c \<Rightarrow> phase \<Rightarrow> 'c \<Rightarrow> phase \<Rightarrow> notice \<Rightarrow> bool) \<Rightarrow> 'c \<Rightarrow> nat \<Rightarrow> 'c \<times> phase list \<Rightarrow> bool" for act c0 n where
  start: "gate_reach act c0 n (c0, replicate n Outside)"
| continue: "gate_reach act c0 n s \<Longrightarrow> gate_step act s s' \<Longrightarrow> gate_reach act c0 n s'"

section \<open>Counting\<close>

abbreviation is_exclusive :: "phase \<Rightarrow> bool" where "is_exclusive p \<equiv> p = Owns Exclusive"
abbreviation is_upgradable :: "phase \<Rightarrow> bool" where "is_upgradable p \<equiv> p = Owns Upgradable"
abbreviation is_sharable :: "phase \<Rightarrow> bool" where "is_sharable p \<equiv> p = Owns Sharable"

fun at_second :: "phase \<Rightarrow> bool" where
  "at_second (Asleep _ _ Second_Gate) = True"
| "at_second (Awake _ _ Second_Gate _) = True"
| "at_second _ = False"

fun sleeps_first :: "phase \<Rightarrow> bool" where
  "sleeps_first (Asleep _ _ First_Gate) = True"
| "sleeps_first _ = False"

fun sleeps_second :: "phase \<Rightarrow> bool" where
  "sleeps_second (Asleep _ _ Second_Gate) = True"
| "sleeps_second _ = False"

fun promoting :: "phase \<Rightarrow> bool" where
  "promoting (Asleep req _ _) = (req = Promote_Req)"
| "promoting (Awake req _ _ _) = (req = Promote_Req)"
| "promoting _ = False"

text \<open>Only requests for exclusive ownership wait at the second gate; promotions only wait there.\<close>

fun phase_ok :: "phase \<Rightarrow> bool" where
  "phase_ok (Asleep req _ g) = (if g = Second_Gate then req \<in> {Exclusive_Req, Promote_Req} else req \<noteq> Promote_Req)"
| "phase_ok (Awake req timed g timeout) =
     ((if g = Second_Gate then req \<in> {Exclusive_Req, Promote_Req} else req \<noteq> Promote_Req) \<and> (timeout \<longrightarrow> timed))"
| "phase_ok _ = True"

lemma num_in_map: "num_in P (map f xs) = num_in (\<lambda>x. P (f x)) xs"
  by (simp add: num_in_def filter_map comp_def)

lemma wake_first_owns [simp]: "(wake_first p = Owns w) = (p = Owns w)"
  by (cases p rule: wake_first.cases) simp_all

lemma wake_first_gates [simp]:
  "at_second (wake_first p) = at_second p \<and> promoting (wake_first p) = promoting p \<and> sleeps_second (wake_first p) = sleeps_second p \<and> \<not> sleeps_first (wake_first p)"
  by (cases p rule: wake_first.cases) simp_all

lemma wake_first_ok [simp]: "phase_ok p \<Longrightarrow> phase_ok (wake_first p)"
  by (cases p rule: wake_first.cases) auto

lemma num_in_wake_first [simp]:
  "num_in is_exclusive (map wake_first ts) = num_in is_exclusive ts"
  "num_in is_upgradable (map wake_first ts) = num_in is_upgradable ts"
  "num_in is_sharable (map wake_first ts) = num_in is_sharable ts"
  "num_in at_second (map wake_first ts) = num_in at_second ts"
  "num_in promoting (map wake_first ts) = num_in promoting ts"
  "num_in sleeps_second (map wake_first ts) = num_in sleeps_second ts"
  "num_in sleeps_first (map wake_first ts) = 0"
  by (simp_all add: num_in_map num_in_0)

lemma sleeps_second_at_second: "num_in sleeps_second ts \<le> num_in at_second ts"
proof -
  have "sleeps_second p \<Longrightarrow> at_second p" for p by (cases p rule: sleeps_second.cases) simp_all
  then show ?thesis unfolding num_in_def by (induction ts) auto
qed

text \<open>What a wake-up changes: nothing but the number of sleepers.\<close>

lemma num_in_awake:
  fixes timeout
  assumes "i < length ts" "ts ! i = Asleep req timed g"
  defines "ts' \<equiv> ts[i := Awake req timed g timeout]"
  shows "num_in is_exclusive ts' = num_in is_exclusive ts" "num_in is_upgradable ts' = num_in is_upgradable ts"
    "num_in is_sharable ts' = num_in is_sharable ts" "num_in at_second ts' = num_in at_second ts"
    "num_in promoting ts' = num_in promoting ts"
    "num_in sleeps_first ts' = num_in sleeps_first ts - (if g = First_Gate then 1 else 0)"
    "num_in sleeps_second ts' = num_in sleeps_second ts - (if g = Second_Gate then 1 else 0)"
    "\<forall>p\<in>set ts. phase_ok p \<Longrightarrow> (timeout \<longrightarrow> timed) \<Longrightarrow> \<forall>p\<in>set ts'. phase_ok p"
proof -
  show "num_in is_exclusive ts' = num_in is_exclusive ts" "num_in is_upgradable ts' = num_in is_upgradable ts"
    "num_in is_sharable ts' = num_in is_sharable ts"
    unfolding ts'_def using assms(1,2) by (simp_all add: num_in_update)
  show "num_in at_second ts' = num_in at_second ts"
    using num_in_update(1) [OF assms(1), of at_second "Awake req timed g timeout"]
      num_in_update(2) [OF assms(1), of at_second] assms(2)
    by (cases g) (simp_all add: ts'_def)
  show "num_in promoting ts' = num_in promoting ts"
    using num_in_update(1) [OF assms(1), of promoting "Awake req timed g timeout"]
      num_in_update(2) [OF assms(1), of promoting] assms(2)
    by (auto simp: ts'_def)
  show "num_in sleeps_first ts' = num_in sleeps_first ts - (if g = First_Gate then 1 else 0)"
    "num_in sleeps_second ts' = num_in sleeps_second ts - (if g = Second_Gate then 1 else 0)"
    unfolding ts'_def using assms(1,2) by (cases g; simp add: num_in_update)+
  show "\<forall>p\<in>set ts'. phase_ok p" if ok: "\<forall>p\<in>set ts. phase_ok p" "timeout \<longrightarrow> timed"
  proof -
    have "phase_ok (ts ! i)" using ok(1) assms(1) by simp
    then have "phase_ok (Awake req timed g timeout)" using assms(2) ok(2) by simp
    then show ?thesis unfolding ts'_def using ok(1) set_update_subset_insert [of ts i] by blast
  qed
qed

section \<open>Invariants of a system of threads\<close>

text \<open>
  An invariant that critical sections and wake-ups keep holds in every reachable state.
\<close>

locale gate_protocol =
  fixes act :: "'c \<Rightarrow> phase \<Rightarrow> 'c \<Rightarrow> phase \<Rightarrow> notice \<Rightarrow> bool" and c0 :: 'c and inv :: "'c \<Rightarrow> phase list \<Rightarrow> bool"
  assumes inv_start: "inv c0 (replicate n Outside)"
    and inv_section: "inv c ts \<Longrightarrow> i < length ts \<Longrightarrow> act c (ts ! i) c' p' nt \<Longrightarrow> notified nt (ts[i := p']) ts' \<Longrightarrow>
      inv c' ts'"
    and inv_wakes: "inv c ts \<Longrightarrow> i < length ts \<Longrightarrow> ts ! i = Asleep req timed g \<Longrightarrow> (timeout \<longrightarrow> timed) \<Longrightarrow>
      inv c (ts[i := Awake req timed g timeout])"
begin

lemma reach_inv: "gate_reach act c0 n (c, ts) \<Longrightarrow> inv c ts"
proof (induction "(c, ts)" arbitrary: c ts rule: gate_reach.induct)
  case start
  then show ?case by (rule inv_start)
next
  case (continue s)
  from continue(3,1,2) show ?case
  proof (cases rule: gate_step.cases)
    case (section_step i ts0 c0' p' n)
    then show ?thesis using continue(2) inv_section by blast
  next
    case (wakes i ts0 req timed g timeout)
    then show ?thesis using continue(2) inv_wakes by blast
  qed
qed

end

end
