(* ===== verification/Upgradable_Mutex.thy ===== *)
theory Upgradable_Mutex
  imports Gate_Threads
begin

text \<open>
  The upgradable mutex, sync/interprocess\_upgradable\_mutex.hpp. Each operation is given by its critical
  sections: the section from the call, and for an operation that can wait the section that runs after a
  wake-up at a gate (\<open>_resume\<close>; its flag says whether the timed wait ended by timeout). A \<^verbatim>\<open>try_\<close>
  operation has a flag for whether the internal mutex could be locked. The largest number of readers is a
  parameter \<open>m\<close>, as the counter is a bit-field whose values are those up to it.
\<close>

section \<open>Control data\<close>

record um_ctrl =
  exclusive_in :: bool
  upgradable_in :: bool
  num_upr_shar :: nat

definition um_max_readers :: nat where
  "um_max_readers = 2 ^ 30 - 1"

definition incr :: "nat \<Rightarrow> nat \<Rightarrow> nat" where
  "incr m n = (n + 1) mod (m + 1)"

definition decr :: "nat \<Rightarrow> nat \<Rightarrow> nat" where
  "decr m n = (n + m) mod (m + 1)"

definition um_construct :: um_ctrl where
  "um_construct = \<lparr>exclusive_in = False, upgradable_in = False, num_upr_shar = 0\<rparr>"

section \<open>Exclusive locking\<close>

definition exclusive_rollback :: "um_ctrl \<Rightarrow> um_ctrl \<times> section_result" where
  "exclusive_rollback c = (c\<lparr>exclusive_in := False\<rparr>, Return False All_First)"

definition second_gate :: "um_ctrl \<Rightarrow> um_ctrl \<times> section_result" where
  "second_gate c = (c, if num_upr_shar c \<noteq> 0 then Wait Second_Gate else Return True No_Note)"

definition um_lock :: "um_ctrl \<Rightarrow> um_ctrl \<times> section_result" where
  "um_lock c =
     (if exclusive_in c \<or> upgradable_in c then (c, Wait First_Gate)
      else second_gate (c\<lparr>exclusive_in := True\<rparr>))"

fun um_lock_resume :: "gate \<Rightarrow> um_ctrl \<Rightarrow> um_ctrl \<times> section_result" where
  "um_lock_resume First_Gate c = um_lock c"
| "um_lock_resume Second_Gate c = second_gate c"

definition um_try_lock :: "bool \<Rightarrow> um_ctrl \<Rightarrow> um_ctrl \<times> section_result" where
  "um_try_lock owns c =
     (if \<not> owns \<or> exclusive_in c \<or> num_upr_shar c \<noteq> 0 then (c, Return False No_Note)
      else (c\<lparr>exclusive_in := True\<rparr>, Return True No_Note))"

definition um_timed_lock :: "bool \<Rightarrow> um_ctrl \<Rightarrow> um_ctrl \<times> section_result" where
  "um_timed_lock owns c =
     (if \<not> owns then (c, Return False No_Note)
      else if exclusive_in c \<or> upgradable_in c then (c, Wait First_Gate)
      else second_gate (c\<lparr>exclusive_in := True\<rparr>))"

fun um_timed_lock_resume :: "gate \<Rightarrow> bool \<Rightarrow> um_ctrl \<Rightarrow> um_ctrl \<times> section_result" where
  "um_timed_lock_resume First_Gate timeout c =
     (if exclusive_in c \<or> upgradable_in c
      then (if timeout then (c, Return False No_Note) else (c, Wait First_Gate))
      else second_gate (c\<lparr>exclusive_in := True\<rparr>))"
| "um_timed_lock_resume Second_Gate timeout c =
     (if num_upr_shar c \<noteq> 0
      then (if timeout then exclusive_rollback c else (c, Wait Second_Gate))
      else (c, Return True No_Note))"

definition um_unlock :: "um_ctrl \<Rightarrow> um_ctrl \<times> section_result" where
  "um_unlock c = (c\<lparr>exclusive_in := False\<rparr>, Return True All_First)"

section \<open>Upgradable locking\<close>

definition upgradable_blocked :: "nat \<Rightarrow> um_ctrl \<Rightarrow> bool" where
  "upgradable_blocked m c \<longleftrightarrow> exclusive_in c \<or> upgradable_in c \<or> num_upr_shar c = m"

definition mark_upgradable :: "nat \<Rightarrow> um_ctrl \<Rightarrow> um_ctrl \<times> section_result" where
  "mark_upgradable m c = (c\<lparr>upgradable_in := True, num_upr_shar := incr m (num_upr_shar c)\<rparr>, Return True No_Note)"

definition um_lock_upgradable :: "nat \<Rightarrow> um_ctrl \<Rightarrow> um_ctrl \<times> section_result" where
  "um_lock_upgradable m c = (if upgradable_blocked m c then (c, Wait First_Gate) else mark_upgradable m c)"

definition um_try_lock_upgradable :: "nat \<Rightarrow> bool \<Rightarrow> um_ctrl \<Rightarrow> um_ctrl \<times> section_result" where
  "um_try_lock_upgradable m owns c =
     (if \<not> owns \<or> upgradable_blocked m c then (c, Return False No_Note) else mark_upgradable m c)"

definition um_timed_lock_upgradable :: "nat \<Rightarrow> bool \<Rightarrow> um_ctrl \<Rightarrow> um_ctrl \<times> section_result" where
  "um_timed_lock_upgradable m owns c =
     (if \<not> owns then (c, Return False No_Note)
      else if upgradable_blocked m c then (c, Wait First_Gate) else mark_upgradable m c)"

definition um_timed_lock_upgradable_resume :: "nat \<Rightarrow> bool \<Rightarrow> um_ctrl \<Rightarrow> um_ctrl \<times> section_result" where
  "um_timed_lock_upgradable_resume m timeout c =
     (if upgradable_blocked m c
      then (if timeout then (c, Return False No_Note) else (c, Wait First_Gate))
      else mark_upgradable m c)"

definition um_unlock_upgradable :: "nat \<Rightarrow> um_ctrl \<Rightarrow> um_ctrl \<times> section_result" where
  "um_unlock_upgradable m c =
     (c\<lparr>upgradable_in := False, num_upr_shar := decr m (num_upr_shar c)\<rparr>, Return True All_First)"

section \<open>Sharable locking\<close>

definition sharable_blocked :: "nat \<Rightarrow> um_ctrl \<Rightarrow> bool" where
  "sharable_blocked m c \<longleftrightarrow> exclusive_in c \<or> num_upr_shar c = m"

definition count_sharable :: "nat \<Rightarrow> um_ctrl \<Rightarrow> um_ctrl \<times> section_result" where
  "count_sharable m c = (c\<lparr>num_upr_shar := incr m (num_upr_shar c)\<rparr>, Return True No_Note)"

definition um_lock_sharable :: "nat \<Rightarrow> um_ctrl \<Rightarrow> um_ctrl \<times> section_result" where
  "um_lock_sharable m c = (if sharable_blocked m c then (c, Wait First_Gate) else count_sharable m c)"

definition um_try_lock_sharable :: "nat \<Rightarrow> bool \<Rightarrow> um_ctrl \<Rightarrow> um_ctrl \<times> section_result" where
  "um_try_lock_sharable m owns c =
     (if \<not> owns \<or> sharable_blocked m c then (c, Return False No_Note) else count_sharable m c)"

definition um_timed_lock_sharable :: "nat \<Rightarrow> bool \<Rightarrow> um_ctrl \<Rightarrow> um_ctrl \<times> section_result" where
  "um_timed_lock_sharable m owns c =
     (if \<not> owns then (c, Return False No_Note)
      else if sharable_blocked m c then (c, Wait First_Gate) else count_sharable m c)"

definition um_timed_lock_sharable_resume :: "nat \<Rightarrow> bool \<Rightarrow> um_ctrl \<Rightarrow> um_ctrl \<times> section_result" where
  "um_timed_lock_sharable_resume m timeout c =
     (if sharable_blocked m c
      then (if timeout then (c, Return False No_Note) else (c, Wait First_Gate))
      else count_sharable m c)"

definition um_unlock_sharable :: "nat \<Rightarrow> um_ctrl \<Rightarrow> um_ctrl \<times> section_result" where
  "um_unlock_sharable m c =
     (let c = c\<lparr>num_upr_shar := decr m (num_upr_shar c)\<rparr>
      in (c, Return True
            (if num_upr_shar c = 0 then One_Second
             else if num_upr_shar c = m - 1 then All_First else No_Note)))"

section \<open>Demotions and promotions\<close>

definition um_unlock_and_lock_upgradable :: "um_ctrl \<Rightarrow> um_ctrl \<times> section_result" where
  "um_unlock_and_lock_upgradable c =
     (c\<lparr>exclusive_in := False, upgradable_in := True, num_upr_shar := 1\<rparr>, Return True All_First)"

definition um_unlock_and_lock_sharable :: "um_ctrl \<Rightarrow> um_ctrl \<times> section_result" where
  "um_unlock_and_lock_sharable c = (c\<lparr>exclusive_in := False, num_upr_shar := 1\<rparr>, Return True All_First)"

definition um_unlock_upgradable_and_lock_sharable :: "um_ctrl \<Rightarrow> um_ctrl \<times> section_result" where
  "um_unlock_upgradable_and_lock_sharable c = (c\<lparr>upgradable_in := False\<rparr>, Return True All_First)"

definition upgradable_to_exclusive_rollback :: "nat \<Rightarrow> um_ctrl \<Rightarrow> um_ctrl \<times> section_result" where
  "upgradable_to_exclusive_rollback m c =
     (c\<lparr>upgradable_in := True, num_upr_shar := incr m (num_upr_shar c), exclusive_in := False\<rparr>,
      Return False No_Note)"

definition swap_to_exclusive :: "nat \<Rightarrow> um_ctrl \<Rightarrow> um_ctrl" where
  "swap_to_exclusive m c =
     c\<lparr>upgradable_in := False, num_upr_shar := decr m (num_upr_shar c), exclusive_in := True\<rparr>"

definition um_unlock_upgradable_and_lock :: "nat \<Rightarrow> um_ctrl \<Rightarrow> um_ctrl \<times> section_result" where
  "um_unlock_upgradable_and_lock m c = second_gate (swap_to_exclusive m c)"

definition um_unlock_upgradable_and_lock_resume :: "um_ctrl \<Rightarrow> um_ctrl \<times> section_result" where
  "um_unlock_upgradable_and_lock_resume c = second_gate c"

definition um_try_unlock_upgradable_and_lock :: "nat \<Rightarrow> bool \<Rightarrow> um_ctrl \<Rightarrow> um_ctrl \<times> section_result" where
  "um_try_unlock_upgradable_and_lock m owns c =
     (if \<not> owns \<or> num_upr_shar c \<noteq> 1 then (c, Return False No_Note)
      else (swap_to_exclusive m c, Return True No_Note))"

definition um_timed_unlock_upgradable_and_lock :: "nat \<Rightarrow> bool \<Rightarrow> um_ctrl \<Rightarrow> um_ctrl \<times> section_result" where
  "um_timed_unlock_upgradable_and_lock m owns c =
     (if \<not> owns then (c, Return False No_Note) else second_gate (swap_to_exclusive m c))"

definition um_timed_unlock_upgradable_and_lock_resume ::
  "nat \<Rightarrow> bool \<Rightarrow> um_ctrl \<Rightarrow> um_ctrl \<times> section_result" where
  "um_timed_unlock_upgradable_and_lock_resume m timeout c =
     (if num_upr_shar c \<noteq> 0
      then (if timeout then upgradable_to_exclusive_rollback m c else (c, Wait Second_Gate))
      else (c, Return True No_Note))"

definition um_try_unlock_sharable_and_lock :: "bool \<Rightarrow> um_ctrl \<Rightarrow> um_ctrl \<times> section_result" where
  "um_try_unlock_sharable_and_lock owns c =
     (if \<not> owns \<or> exclusive_in c \<or> upgradable_in c \<or> num_upr_shar c \<noteq> 1 then (c, Return False No_Note)
      else (c\<lparr>exclusive_in := True, num_upr_shar := 0\<rparr>, Return True No_Note))"

definition um_try_unlock_sharable_and_lock_upgradable :: "bool \<Rightarrow> um_ctrl \<Rightarrow> um_ctrl \<times> section_result" where
  "um_try_unlock_sharable_and_lock_upgradable owns c =
     (if \<not> owns \<or> exclusive_in c \<or> upgradable_in c then (c, Return False No_Note)
      else (c\<lparr>upgradable_in := True\<rparr>, Return True No_Note))"

section \<open>The operations as steps of a thread\<close>

fun request_section :: "nat \<Rightarrow> request \<Rightarrow> bool \<Rightarrow> bool \<Rightarrow> um_ctrl \<Rightarrow> um_ctrl \<times> section_result" where
  "request_section m Exclusive_Req timed owns c = (if timed then um_timed_lock owns c else um_lock c)"
| "request_section m Upgradable_Req timed owns c =
     (if timed then um_timed_lock_upgradable m owns c else um_lock_upgradable m c)"
| "request_section m Sharable_Req timed owns c =
     (if timed then um_timed_lock_sharable m owns c else um_lock_sharable m c)"
| "request_section m Promote_Req timed owns c =
     (if timed then um_timed_unlock_upgradable_and_lock m owns c else um_unlock_upgradable_and_lock m c)"

fun resume_section :: "nat \<Rightarrow> request \<Rightarrow> bool \<Rightarrow> gate \<Rightarrow> bool \<Rightarrow> um_ctrl \<Rightarrow> um_ctrl \<times> section_result" where
  "resume_section m Exclusive_Req timed g timeout c =
     (if timed then um_timed_lock_resume g timeout c else um_lock_resume g c)"
| "resume_section m Upgradable_Req timed g timeout c =
     (if timed then um_timed_lock_upgradable_resume m timeout c else um_lock_upgradable m c)"
| "resume_section m Sharable_Req timed g timeout c =
     (if timed then um_timed_lock_sharable_resume m timeout c else um_lock_sharable m c)"
| "resume_section m Promote_Req timed g timeout c =
     (if timed then um_timed_unlock_upgradable_and_lock_resume m timeout c
      else um_unlock_upgradable_and_lock_resume c)"

inductive um_act :: "nat \<Rightarrow> um_ctrl \<Rightarrow> phase \<Rightarrow> um_ctrl \<Rightarrow> phase \<Rightarrow> notice \<Rightarrow> bool" for m where
  request: "request_section m req timed owns c = (c', r) \<Longrightarrow> p = refused req \<Longrightarrow>
    um_act m c p c' (phase_after req timed r) (notice_of r)"
| resume: "resume_section m req timed g timeout c = (c', r) \<Longrightarrow>
    um_act m c (Awake req timed g timeout) c' (phase_after req timed r) (notice_of r)"
| try_lock: "um_try_lock owns c = (c', Return ok n) \<Longrightarrow>
    um_act m c Outside c' (if ok then Owns Exclusive else Outside) n"
| try_lock_upgradable: "um_try_lock_upgradable m owns c = (c', Return ok n) \<Longrightarrow>
    um_act m c Outside c' (if ok then Owns Upgradable else Outside) n"
| try_lock_sharable: "um_try_lock_sharable m owns c = (c', Return ok n) \<Longrightarrow>
    um_act m c Outside c' (if ok then Owns Sharable else Outside) n"
| unlock: "um_unlock c = (c', Return ok n) \<Longrightarrow> um_act m c (Owns Exclusive) c' Outside n"
| unlock_upgradable: "um_unlock_upgradable m c = (c', Return ok n) \<Longrightarrow> um_act m c (Owns Upgradable) c' Outside n"
| unlock_sharable: "um_unlock_sharable m c = (c', Return ok n) \<Longrightarrow> um_act m c (Owns Sharable) c' Outside n"
| unlock_and_lock_upgradable: "um_unlock_and_lock_upgradable c = (c', Return ok n) \<Longrightarrow>
    um_act m c (Owns Exclusive) c' (Owns Upgradable) n"
| unlock_and_lock_sharable: "um_unlock_and_lock_sharable c = (c', Return ok n) \<Longrightarrow>
    um_act m c (Owns Exclusive) c' (Owns Sharable) n"
| unlock_upgradable_and_lock_sharable: "um_unlock_upgradable_and_lock_sharable c = (c', Return ok n) \<Longrightarrow>
    um_act m c (Owns Upgradable) c' (Owns Sharable) n"
| try_unlock_upgradable_and_lock: "um_try_unlock_upgradable_and_lock m owns c = (c', Return ok n) \<Longrightarrow>
    um_act m c (Owns Upgradable) c' (if ok then Owns Exclusive else Owns Upgradable) n"
| try_unlock_sharable_and_lock: "um_try_unlock_sharable_and_lock owns c = (c', Return ok n) \<Longrightarrow>
    um_act m c (Owns Sharable) c' (if ok then Owns Exclusive else Owns Sharable) n"
| try_unlock_sharable_and_lock_upgradable: "um_try_unlock_sharable_and_lock_upgradable owns c = (c', Return ok n) \<Longrightarrow>
    um_act m c (Owns Sharable) c' (if ok then Owns Upgradable else Owns Sharable) n"

section \<open>The invariant\<close>

text \<open>
  The control data agree with who owns what; a thread that waits for its promotion has kept its place among
  the readers.
\<close>

definition um_owners :: "nat \<Rightarrow> um_ctrl \<Rightarrow> phase list \<Rightarrow> bool" where
  "um_owners m c ts \<longleftrightarrow>
     (\<forall>p\<in>set ts. phase_ok p)
     \<and> num_in is_exclusive ts + num_in at_second ts = (if exclusive_in c then 1 else 0)
     \<and> num_in is_upgradable ts = (if upgradable_in c then 1 else 0)
     \<and> num_upr_shar c = num_in is_sharable ts + num_in is_upgradable ts
     \<and> num_upr_shar c + num_in promoting ts \<le> m \<and> \<not> (exclusive_in c \<and> upgradable_in c)
     \<and> (0 < num_in is_exclusive ts \<longrightarrow> num_upr_shar c = 0)"

text \<open>Nobody sleeps at a gate without someone inside who will send the notification.\<close>

definition first_quiet :: "nat \<Rightarrow> um_ctrl \<Rightarrow> phase list \<Rightarrow> bool" where
  "first_quiet m c ts \<longleftrightarrow> (0 < num_in sleeps_first ts \<longrightarrow> exclusive_in c \<or> upgradable_in c \<or> num_upr_shar c = m)"

definition second_quiet :: "um_ctrl \<Rightarrow> phase list \<Rightarrow> bool" where
  "second_quiet c ts \<longleftrightarrow> (0 < num_in sleeps_second ts \<longrightarrow> 0 < num_upr_shar c)"

definition um_inv :: "nat \<Rightarrow> um_ctrl \<Rightarrow> phase list \<Rightarrow> bool" where
  "um_inv m c ts \<longleftrightarrow> um_owners m c ts \<and> first_quiet m c ts \<and> second_quiet c ts"

end
