(* ===== verification/Upgradable_Mutex_Correct.thy ===== *)
theory Upgradable_Mutex_Correct
  imports Upgradable_Mutex
begin

text \<open>
  The invariant of the upgradable mutex. The counters of the control data agree with the number of threads in
  each phase (\<open>counts_ok\<close>), every critical section keeps that (\<open>act_counts\<close>), and a section that opens a
  gate sends the notification for it (\<open>act_gates\<close>). With what a notification does to the sleepers this gives
  the laws of a gate protocol, so the invariant holds in every reachable state.
\<close>


lemmas um_ops =
  exclusive_rollback_def second_gate_def um_lock_def um_try_lock_def um_timed_lock_def um_unlock_def
  upgradable_blocked_def mark_upgradable_def um_lock_upgradable_def um_try_lock_upgradable_def
  um_timed_lock_upgradable_def um_timed_lock_upgradable_resume_def um_unlock_upgradable_def
  sharable_blocked_def count_sharable_def um_lock_sharable_def um_try_lock_sharable_def
  um_timed_lock_sharable_def um_timed_lock_sharable_resume_def um_unlock_sharable_def
  um_unlock_and_lock_upgradable_def um_unlock_and_lock_sharable_def um_unlock_upgradable_and_lock_sharable_def
  upgradable_to_exclusive_rollback_def swap_to_exclusive_def um_unlock_upgradable_and_lock_def
  um_unlock_upgradable_and_lock_resume_def um_try_unlock_upgradable_and_lock_def
  um_timed_unlock_upgradable_and_lock_def um_timed_unlock_upgradable_and_lock_resume_def
  um_try_unlock_sharable_and_lock_def um_try_unlock_sharable_and_lock_upgradable_def

lemma incr_less [simp]: "n < m \<Longrightarrow> incr m n = n + 1"
  by (simp add: incr_def)

lemma decr_pos [simp]:
  assumes "0 < n" "n \<le> m"
  shows "decr m n = n - 1"
proof -
  have "n + m = (n - 1) + (m + 1)" using assms by simp
  then have "(n + m) mod (m + 1) = (n - 1) mod (m + 1)" by (metis mod_add_self2)
  then show ?thesis using assms by (simp add: decr_def)
qed

text \<open>
  The invariant in numbers: owners \<open>E\<close>, \<open>U\<close>, \<open>S\<close>, threads past the first gate \<open>F\<close>, promotions that wait \<open>P\<close>.
\<close>

definition counts_ok :: "nat \<Rightarrow> um_ctrl \<Rightarrow> nat \<Rightarrow> nat \<Rightarrow> nat \<Rightarrow> nat \<Rightarrow> nat \<Rightarrow> bool" where
  "counts_ok m c E F U S P \<longleftrightarrow>
     E + F = (if exclusive_in c then 1 else 0) \<and> U = (if upgradable_in c then 1 else 0)
     \<and> num_upr_shar c = S + U \<and> num_upr_shar c + P \<le> m \<and> \<not> (exclusive_in c \<and> upgradable_in c)
     \<and> (0 < E \<longrightarrow> num_upr_shar c = 0)"

lemma promoting_at_second: "\<forall>p\<in>set ts. phase_ok p \<Longrightarrow> num_in promoting ts \<le> num_in at_second ts"
proof (induction ts)
  case (Cons p ts)
  have "promoting p \<Longrightarrow> phase_ok p \<Longrightarrow> at_second p" by (cases p rule: at_second.cases) auto
  then show ?case using Cons by (auto simp: num_in_def)
qed (simp add: num_in_def)

lemma um_owners_counts:
  "um_owners m c ts \<longleftrightarrow> (\<forall>p\<in>set ts. phase_ok p)
     \<and> counts_ok m c (num_in is_exclusive ts) (num_in at_second ts) (num_in is_upgradable ts) (num_in is_sharable ts)
         (num_in promoting ts)"
  by (auto simp: um_owners_def counts_ok_def)

definition one :: "bool \<Rightarrow> nat" where "one b = (if b then 1 else 0)"

lemma one_simps [simp]: "one True = 1" "one False = 0"
  by (simp_all add: one_def)

definition counts_with :: "nat \<Rightarrow> um_ctrl \<Rightarrow> phase \<Rightarrow> nat \<Rightarrow> nat \<Rightarrow> nat \<Rightarrow> nat \<Rightarrow> nat \<Rightarrow> bool" where
  "counts_with m c p E F U S P \<longleftrightarrow> counts_ok m c (one (is_exclusive p) + E) (one (at_second p) + F)
     (one (is_upgradable p) + U) (one (is_sharable p) + S) (one (promoting p) + P) \<and> P \<le> F"

lemma num_in_split:
  assumes "i < length ts"
  shows "num_in Q ts = one (Q (ts ! i)) + (num_in Q ts - one (Q (ts ! i)))"
    and "num_in Q (ts[i := p']) = one (Q p') + (num_in Q ts - one (Q (ts ! i)))"
  using num_in_update [OF assms, of Q] by (auto simp: one_def)


lemma request_counts:
  assumes "request_section m req timed owns c = (c', r)" "2 \<le> m" "counts_with m c (refused req) E F U S P"
  shows "counts_with m c' (phase_after req timed r) E F U S P \<and> phase_ok (phase_after req timed r)"
  using assms
  by (cases req; cases timed; clarsimp simp: um_ops split: if_splits;
      simp add: counts_with_def counts_ok_def split: if_splits; arith?)

lemma resume_counts:
  assumes "resume_section m req timed g timeout c = (c', r)" "2 \<le> m" "phase_ok (Awake req timed g timeout)"
    and "counts_with m c (Awake req timed g timeout) E F U S P"
  shows "counts_with m c' (phase_after req timed r) E F U S P \<and> phase_ok (phase_after req timed r)"
  using assms
  by (cases req; cases timed; cases g; clarsimp simp: um_ops split: if_splits;
      simp add: counts_with_def counts_ok_def split: if_splits; arith?)

lemmas counts_defs = counts_with_def counts_ok_def um_ops Let_def

lemma act_counts:
  assumes "um_act m c p c' p' n" "2 \<le> m" "phase_ok p" "counts_with m c p E F U S P"
  shows "counts_with m c' p' E F U S P \<and> phase_ok p'"
  using assms(1)
proof cases
  case (request req timed owns r)
  then show ?thesis using request_counts [of m req timed owns c c' r] assms(2,4) by simp
next
  case (resume req timed g timeout r)
  then show ?thesis using resume_counts [of m req timed g timeout c c' r] assms(2,3,4) by blast
next
  case (try_lock owns ok)
  then show ?thesis using assms(2,4) by (auto simp: counts_defs split: if_splits)
next
  case (try_lock_upgradable owns ok)
  then show ?thesis using assms(2,4) by (auto simp: counts_defs split: if_splits)
next
  case (try_lock_sharable owns ok)
  then show ?thesis using assms(2,4) by (auto simp: counts_defs split: if_splits)
next
  case (unlock ok)
  then show ?thesis using assms(2,4) by (auto simp: counts_defs split: if_splits)
next
  case (unlock_upgradable ok)
  then show ?thesis using assms(2,4) by (auto simp: counts_defs split: if_splits)
next
  case (unlock_sharable ok)
  then show ?thesis using assms(2,4) by (auto simp: counts_defs split: if_splits)
next
  case (unlock_and_lock_upgradable ok)
  then show ?thesis using assms(2,4) by (auto simp: counts_defs split: if_splits)
next
  case (unlock_and_lock_sharable ok)
  then show ?thesis using assms(2,4) by (auto simp: counts_defs split: if_splits)
next
  case (unlock_upgradable_and_lock_sharable ok)
  then show ?thesis using assms(2,4) by (auto simp: counts_defs split: if_splits)
next
  case (try_unlock_upgradable_and_lock owns ok)
  then show ?thesis using assms(2,4)
    by (clarsimp simp: um_ops split: if_splits; simp add: counts_with_def counts_ok_def split: if_splits)
next
  case (try_unlock_sharable_and_lock owns ok)
  then show ?thesis using assms(2,4) by (auto simp: counts_defs split: if_splits)
next
  case (try_unlock_sharable_and_lock_upgradable owns ok)
  then show ?thesis using assms(2,4) by (auto simp: counts_defs split: if_splits)
qed

lemma owners_counts_with:
  assumes "um_owners m c ts" "i < length ts"
  defines "rest \<equiv> \<lambda>Q. num_in Q ts - one (Q (ts ! i))"
  shows "counts_with m c (ts ! i) (rest is_exclusive) (rest at_second) (rest is_upgradable) (rest is_sharable)
    (rest promoting)"
proof -
  have split: "one (Q (ts ! i)) + rest Q = num_in Q ts" for Q
    unfolding rest_def using num_in_split(1) [OF assms(2), of Q] by simp
  have "\<forall>p\<in>set (ts[i := Outside]). phase_ok p"
    using assms(1) set_update_subset_insert [of ts i Outside] by (auto simp: um_owners_def)
  from promoting_at_second [OF this] have "rest promoting \<le> rest at_second"
    unfolding rest_def by (simp add: num_in_split(2) [OF assms(2)])
  then show ?thesis
    using assms(1) split [of is_exclusive] split [of is_upgradable] split [of is_sharable] split [of at_second]
      split [of promoting]
    unfolding um_owners_counts counts_with_def by simp
qed

lemma act_owners:
  assumes "um_owners m c ts" "i < length ts" "um_act m c (ts ! i) c' p' n" "2 \<le> m"
  shows "um_owners m c' (ts[i := p'])"
proof -
  let ?r = "\<lambda>Q. num_in Q ts - one (Q (ts ! i))"
  have ok: "phase_ok (ts ! i)" "\<forall>p\<in>set ts. phase_ok p" using assms(1,2) by (auto simp: um_owners_def)
  from act_counts [OF assms(3,4) ok(1) owners_counts_with [OF assms(1,2)]] have
    "counts_with m c' p' (?r is_exclusive) (?r at_second) (?r is_upgradable) (?r is_sharable) (?r promoting)" "phase_ok p'"
    by blast+
  moreover from this(2) have "\<forall>p\<in>set (ts[i := p']). phase_ok p"
    using ok(2) set_update_subset_insert [of ts i p'] by blast
  ultimately show ?thesis
    unfolding um_owners_counts counts_with_def num_in_split(2) [OF assms(2)] by blast
qed

lemma act_gates:
  assumes "um_act m c p c' p' n" "2 \<le> m" "phase_ok p" "counts_with m c p E F U S P"
  defines "shut \<equiv> \<lambda>c. exclusive_in c \<or> upgradable_in c \<or> num_upr_shar c = m"
  shows "(sleeps_first p' \<longrightarrow> shut c') \<and> (sleeps_second p' \<longrightarrow> 0 < num_upr_shar c')
    \<and> (n \<noteq> All_First \<longrightarrow> shut c \<longrightarrow> shut c')
    \<and> (n \<noteq> One_Second \<longrightarrow> 0 < F \<longrightarrow> 0 < num_upr_shar c \<longrightarrow> 0 < num_upr_shar c')"
  using assms(1)
proof cases
  case (request req timed owns r)
  then show ?thesis using assms(2,4) unfolding shut_def
    by (cases req; cases timed; clarsimp simp: um_ops split: if_splits;
      simp add: counts_with_def counts_ok_def split: if_splits; arith?)
next
  case (resume req timed g timeout r)
  then show ?thesis using assms(2,3,4) unfolding shut_def
    by (cases req; cases timed; cases g; clarsimp simp: um_ops split: if_splits;
      simp add: counts_with_def counts_ok_def split: if_splits; arith?)
next
  case (unlock_sharable ok)
  then show ?thesis using assms(2,4) unfolding shut_def
    by (auto simp: counts_defs split: if_splits)
qed (use assms(2,4) in \<open>(clarsimp simp: um_ops shut_def split: if_splits;
      simp add: counts_with_def counts_ok_def split: if_splits; arith?)+\<close>)


lemma one_pos [simp]: "0 < one b \<longleftrightarrow> b"
  by (simp add: one_def)

lemma act_inv:
  assumes "um_inv m c ts" "i < length ts" "um_act m c (ts ! i) c' p' n" "2 \<le> m"
  shows "um_owners m c' (ts[i := p'])" "n \<noteq> All_First \<Longrightarrow> first_quiet m c' (ts[i := p'])"
    "n \<noteq> One_Second \<Longrightarrow> second_quiet c' (ts[i := p'])"
proof -
  have own: "um_owners m c ts" using assms(1) by (simp add: um_inv_def)
  then show "um_owners m c' (ts[i := p'])" using act_owners assms(2-4) by blast
  let ?r = "\<lambda>Q. num_in Q ts - one (Q (ts ! i))"
  have ok: "phase_ok (ts ! i)" using own assms(2) by (auto simp: um_owners_def)
  note gates = act_gates [OF assms(3,4) ok owners_counts_with [OF own assms(2)]]
  have le: "num_in sleeps_second ts - one (sleeps_second (ts ! i)) \<le> ?r at_second"
    using sleeps_second_at_second [of "ts[i := Outside]"] by (simp add: num_in_split(2) [OF assms(2)])
  show "first_quiet m c' (ts[i := p'])" if "n \<noteq> All_First"
    using that gates assms(1) by (auto simp: um_inv_def first_quiet_def num_in_split(2) [OF assms(2)])
  show "second_quiet c' (ts[i := p'])" if "n \<noteq> One_Second"
    using that gates assms(1) le by (auto simp: um_inv_def second_quiet_def num_in_split(2) [OF assms(2)])
qed

lemma um_inv_notified:
  assumes "notified n ts ts'" "um_owners m c ts" "n \<noteq> All_First \<Longrightarrow> first_quiet m c ts"
    "n \<noteq> One_Second \<Longrightarrow> second_quiet c ts"
  shows "um_inv m c ts'"
  using assms
proof cases
  case nobody
  then show ?thesis using assms(2-4) by (simp add: um_inv_def)
next
  case all_first
  then show ?thesis using assms(2-4)
    by (auto simp: um_inv_def um_owners_counts first_quiet_def second_quiet_def)
next
  case (one_second j req timed)
  have "num_in at_second ts \<le> 1" using assms(2) by (auto simp: um_owners_def split: if_splits)
  then have "num_in sleeps_second ts \<le> 1" using sleeps_second_at_second [of ts] by linarith
  then show ?thesis using num_in_awake [OF one_second(3,4), of False] assms(2,3) one_second
    by (simp add: um_inv_def um_owners_counts first_quiet_def second_quiet_def)
next
  case none_second
  have "\<not> sleeps_second p" if "p \<in> set ts" for p
    using that none_second(3) by (cases p rule: sleeps_second.cases) auto
  then have "num_in sleeps_second ts = 0" by (auto simp: num_in_def)
  then show ?thesis using none_second assms(2,3) by (simp add: um_inv_def second_quiet_def)
qed

lemma um_inv_wakes:
  assumes "um_inv m c ts" "i < length ts" "ts ! i = Asleep req timed g" "timeout \<longrightarrow> timed"
  shows "um_inv m c (ts[i := Awake req timed g timeout])"
  using num_in_awake [OF assms(2,3), of timeout] assms
  by (auto simp: um_inv_def um_owners_counts first_quiet_def second_quiet_def)

lemma um_inv_construct: "um_inv m um_construct (replicate n Outside)"
  by (simp add: um_inv_def um_owners_def first_quiet_def second_quiet_def um_construct_def num_in_def)

lemma um_gate_protocol:
  assumes "2 \<le> m"
  shows "gate_protocol (um_act m) um_construct (um_inv m)"
proof
  show "um_inv m c' ts'"
    if "um_inv m c ts" "i < length ts" "um_act m c (ts ! i) c' p' nt" "notified nt (ts[i := p']) ts'" for c ts i c' p' nt ts'
    using um_inv_notified [OF that(4) act_inv [OF that(1,2,3) assms]] .
qed (fact um_inv_construct, fact um_inv_wakes)

interpretation um: gate_protocol "um_act um_max_readers" um_construct "um_inv um_max_readers"
  by (rule um_gate_protocol) (simp add: um_max_readers_def)

end
