(* ===== verification/Sharable_Mutex.thy ===== *)
theory Sharable_Mutex
  imports Upgradable_Mutex_Correct
begin

text \<open>
  The sharable mutex, sync/interprocess\_sharable\_mutex.hpp: its own control word and operations, given by
  their critical sections as for the upgradable mutex. It behaves as an upgradable mutex whose upgradable
  ownership nobody asks for, which \<open>sm_act_um\<close> proves step by step; the invariant comes over from there.
\<close>

section \<open>Control data and operations\<close>

record sm_ctrl =
  excl_in :: bool
  num_shared :: nat

definition sm_max_readers :: nat where
  "sm_max_readers = 2 ^ 31 - 1"

definition sm_construct :: sm_ctrl where
  "sm_construct = \<lparr>excl_in = False, num_shared = 0\<rparr>"

definition sm_exclusive_rollback :: "sm_ctrl \<Rightarrow> sm_ctrl \<times> section_result" where
  "sm_exclusive_rollback c = (c\<lparr>excl_in := False\<rparr>, Return False All_First)"

definition sm_second_gate :: "sm_ctrl \<Rightarrow> sm_ctrl \<times> section_result" where
  "sm_second_gate c = (c, if num_shared c \<noteq> 0 then Wait Second_Gate else Return True No_Note)"

definition sm_lock :: "sm_ctrl \<Rightarrow> sm_ctrl \<times> section_result" where
  "sm_lock c = (if excl_in c then (c, Wait First_Gate) else sm_second_gate (c\<lparr>excl_in := True\<rparr>))"

fun sm_lock_resume :: "gate \<Rightarrow> sm_ctrl \<Rightarrow> sm_ctrl \<times> section_result" where
  "sm_lock_resume First_Gate c = sm_lock c"
| "sm_lock_resume Second_Gate c = sm_second_gate c"

definition sm_try_lock :: "bool \<Rightarrow> sm_ctrl \<Rightarrow> sm_ctrl \<times> section_result" where
  "sm_try_lock owns c =
     (if \<not> owns \<or> excl_in c \<or> num_shared c \<noteq> 0 then (c, Return False No_Note)
      else (c\<lparr>excl_in := True\<rparr>, Return True No_Note))"

definition sm_timed_lock :: "bool \<Rightarrow> sm_ctrl \<Rightarrow> sm_ctrl \<times> section_result" where
  "sm_timed_lock owns c =
     (if \<not> owns then (c, Return False No_Note)
      else if excl_in c then (c, Wait First_Gate)
      else sm_second_gate (c\<lparr>excl_in := True\<rparr>))"

fun sm_timed_lock_resume :: "gate \<Rightarrow> bool \<Rightarrow> sm_ctrl \<Rightarrow> sm_ctrl \<times> section_result" where
  "sm_timed_lock_resume First_Gate timeout c =
     (if excl_in c then (if timeout then (c, Return False No_Note) else (c, Wait First_Gate))
      else sm_second_gate (c\<lparr>excl_in := True\<rparr>))"
| "sm_timed_lock_resume Second_Gate timeout c =
     (if num_shared c \<noteq> 0
      then (if timeout then sm_exclusive_rollback c else (c, Wait Second_Gate))
      else (c, Return True No_Note))"

definition sm_unlock :: "sm_ctrl \<Rightarrow> sm_ctrl \<times> section_result" where
  "sm_unlock c = (c\<lparr>excl_in := False\<rparr>, Return True All_First)"

definition sm_lock_sharable :: "nat \<Rightarrow> sm_ctrl \<Rightarrow> sm_ctrl \<times> section_result" where
  "sm_lock_sharable m c =
     (if excl_in c \<or> num_shared c = m then (c, Wait First_Gate)
      else (c\<lparr>num_shared := incr m (num_shared c)\<rparr>, Return True No_Note))"

definition sm_try_lock_sharable :: "nat \<Rightarrow> bool \<Rightarrow> sm_ctrl \<Rightarrow> sm_ctrl \<times> section_result" where
  "sm_try_lock_sharable m owns c =
     (if \<not> owns \<or> excl_in c \<or> num_shared c = m then (c, Return False No_Note)
      else (c\<lparr>num_shared := incr m (num_shared c)\<rparr>, Return True No_Note))"

definition sm_timed_lock_sharable :: "nat \<Rightarrow> bool \<Rightarrow> sm_ctrl \<Rightarrow> sm_ctrl \<times> section_result" where
  "sm_timed_lock_sharable m owns c =
     (if \<not> owns then (c, Return False No_Note)
      else if excl_in c \<or> num_shared c = m then (c, Wait First_Gate)
      else (c\<lparr>num_shared := incr m (num_shared c)\<rparr>, Return True No_Note))"

definition sm_timed_lock_sharable_resume :: "nat \<Rightarrow> bool \<Rightarrow> sm_ctrl \<Rightarrow> sm_ctrl \<times> section_result" where
  "sm_timed_lock_sharable_resume m timeout c =
     (if excl_in c \<or> num_shared c = m
      then (if timeout then (c, Return False No_Note) else (c, Wait First_Gate))
      else (c\<lparr>num_shared := incr m (num_shared c)\<rparr>, Return True No_Note))"

definition sm_unlock_sharable :: "nat \<Rightarrow> sm_ctrl \<Rightarrow> sm_ctrl \<times> section_result" where
  "sm_unlock_sharable m c =
     (let c = c\<lparr>num_shared := decr m (num_shared c)\<rparr>
      in (c, Return True
            (if num_shared c = 0 then One_Second
             else if num_shared c = m - 1 then All_First else No_Note)))"

section \<open>Steps of a thread\<close>

inductive sm_act :: "nat \<Rightarrow> sm_ctrl \<Rightarrow> phase \<Rightarrow> sm_ctrl \<Rightarrow> phase \<Rightarrow> notice \<Rightarrow> bool" for m where
  lock: "sm_lock c = (c', r) \<Longrightarrow> sm_act m c Outside c' (phase_after Exclusive_Req False r) (notice_of r)"
| lock_resume: "sm_lock_resume g c = (c', r) \<Longrightarrow>
    sm_act m c (Awake Exclusive_Req False g t) c' (phase_after Exclusive_Req False r) (notice_of r)"
| timed_lock: "sm_timed_lock owns c = (c', r) \<Longrightarrow>
    sm_act m c Outside c' (phase_after Exclusive_Req True r) (notice_of r)"
| timed_lock_resume: "sm_timed_lock_resume g t c = (c', r) \<Longrightarrow>
    sm_act m c (Awake Exclusive_Req True g t) c' (phase_after Exclusive_Req True r) (notice_of r)"
| try_lock: "sm_try_lock owns c = (c', Return ok n) \<Longrightarrow>
    sm_act m c Outside c' (if ok then Owns Exclusive else Outside) n"
| unlock: "sm_unlock c = (c', Return ok n) \<Longrightarrow> sm_act m c (Owns Exclusive) c' Outside n"
| lock_sharable: "sm_lock_sharable m c = (c', r) \<Longrightarrow>
    sm_act m c Outside c' (phase_after Sharable_Req False r) (notice_of r)"
| lock_sharable_resume: "sm_lock_sharable m c = (c', r) \<Longrightarrow>
    sm_act m c (Awake Sharable_Req False g t) c' (phase_after Sharable_Req False r) (notice_of r)"
| timed_lock_sharable: "sm_timed_lock_sharable m owns c = (c', r) \<Longrightarrow>
    sm_act m c Outside c' (phase_after Sharable_Req True r) (notice_of r)"
| timed_lock_sharable_resume: "sm_timed_lock_sharable_resume m t c = (c', r) \<Longrightarrow>
    sm_act m c (Awake Sharable_Req True g t) c' (phase_after Sharable_Req True r) (notice_of r)"
| try_lock_sharable: "sm_try_lock_sharable m owns c = (c', Return ok n) \<Longrightarrow>
    sm_act m c Outside c' (if ok then Owns Sharable else Outside) n"
| unlock_sharable: "sm_unlock_sharable m c = (c', Return ok n) \<Longrightarrow> sm_act m c (Owns Sharable) c' Outside n"

section \<open>It is an upgradable mutex\<close>

definition as_um :: "sm_ctrl \<Rightarrow> um_ctrl" where
  "as_um c = \<lparr>exclusive_in = excl_in c, upgradable_in = False, num_upr_shar = num_shared c\<rparr>"

lemma as_um_simps [simp]:
  "exclusive_in (as_um c) = excl_in c" "upgradable_in (as_um c) = False" "num_upr_shar (as_um c) = num_shared c"
  "(as_um c)\<lparr>exclusive_in := b\<rparr> = as_um (c\<lparr>excl_in := b\<rparr>)"
  "(as_um c)\<lparr>num_upr_shar := k\<rparr> = as_um (c\<lparr>num_shared := k\<rparr>)"
  by (simp_all add: as_um_def)

lemma as_um_sections:
  "um_lock (as_um c) = apfst as_um (sm_lock c)"
  "um_lock_resume g (as_um c) = apfst as_um (sm_lock_resume g c)"
  "um_timed_lock owns (as_um c) = apfst as_um (sm_timed_lock owns c)"
  "um_timed_lock_resume g t (as_um c) = apfst as_um (sm_timed_lock_resume g t c)"
  "um_try_lock owns (as_um c) = apfst as_um (sm_try_lock owns c)"
  "um_unlock (as_um c) = apfst as_um (sm_unlock c)"
  "um_lock_sharable m (as_um c) = apfst as_um (sm_lock_sharable m c)"
  "um_timed_lock_sharable m owns (as_um c) = apfst as_um (sm_timed_lock_sharable m owns c)"
  "um_timed_lock_sharable_resume m t (as_um c) = apfst as_um (sm_timed_lock_sharable_resume m t c)"
  "um_try_lock_sharable m owns (as_um c) = apfst as_um (sm_try_lock_sharable m owns c)"
  "um_unlock_sharable m (as_um c) = apfst as_um (sm_unlock_sharable m c)"
  by (cases g; simp add: um_ops Let_def sm_lock_def sm_second_gate_def sm_timed_lock_def sm_exclusive_rollback_def
      sm_try_lock_def sm_unlock_def sm_lock_sharable_def sm_timed_lock_sharable_def
      sm_timed_lock_sharable_resume_def sm_try_lock_sharable_def sm_unlock_sharable_def)+

lemma sm_act_um:
  assumes "sm_act m c p c' p' n"
  shows "um_act m (as_um c) p (as_um c') p' n"
  using assms
proof cases
  case (lock r)
  then show ?thesis using um_act.request [of m Exclusive_Req False True "as_um c" "as_um c'" r Outside]
    by (simp add: as_um_sections)
next
  case (lock_resume g r t)
  then show ?thesis using um_act.resume [of m Exclusive_Req False g t "as_um c" "as_um c'" r]
    by (simp add: as_um_sections)
next
  case (timed_lock owns r)
  then show ?thesis using um_act.request [of m Exclusive_Req True owns "as_um c" "as_um c'" r Outside]
    by (simp add: as_um_sections)
next
  case (timed_lock_resume g t r)
  then show ?thesis using um_act.resume [of m Exclusive_Req True g t "as_um c" "as_um c'" r]
    by (simp add: as_um_sections)
next
  case (lock_sharable r)
  then show ?thesis using um_act.request [of m Sharable_Req False True "as_um c" "as_um c'" r Outside]
    by (simp add: as_um_sections)
next
  case (lock_sharable_resume r g t)
  then show ?thesis using um_act.resume [of m Sharable_Req False g t "as_um c" "as_um c'" r]
    by (simp add: as_um_sections)
next
  case (timed_lock_sharable owns r)
  then show ?thesis using um_act.request [of m Sharable_Req True owns "as_um c" "as_um c'" r Outside]
    by (simp add: as_um_sections)
next
  case (timed_lock_sharable_resume t r g)
  then show ?thesis using um_act.resume [of m Sharable_Req True g t "as_um c" "as_um c'" r]
    by (simp add: as_um_sections)
next
  case (try_lock owns ok)
  then show ?thesis using um_act.try_lock [of owns "as_um c" "as_um c'" ok n m] by (simp add: as_um_sections)
next
  case (try_lock_sharable owns ok)
  then show ?thesis using um_act.try_lock_sharable [of m owns "as_um c" "as_um c'" ok n] by (simp add: as_um_sections)
qed (auto simp: as_um_sections intro: um_act.unlock um_act.unlock_sharable)

lemma as_um_construct: "as_um sm_construct = um_construct"
  by (simp add: as_um_def sm_construct_def um_construct_def)

lemma sm_reach_um:
  "gate_reach (sm_act m) sm_construct n (c, ts) \<Longrightarrow> gate_reach (um_act m) um_construct n (as_um c, ts)"
proof (induction "(c, ts)" arbitrary: c ts rule: gate_reach.induct)
  case start
  then show ?case using gate_reach.start [of "um_act m" um_construct n] by (simp add: as_um_construct)
next
  case (continue s)
  from continue(3) obtain c0 ts0 where s: "s = (c0, ts0)" by (cases s)
  have "gate_step (um_act m) (as_um c0, ts0) (as_um c, ts)"
    using continue(3) unfolding s
    by (cases rule: gate_step.cases) (auto intro: gate_step.intros sm_act_um)
  then show ?case by (rule gate_reach.continue [OF continue(2) [OF s]])
qed

section \<open>Its invariant\<close>

definition sm_inv :: "nat \<Rightarrow> sm_ctrl \<Rightarrow> phase list \<Rightarrow> bool" where
  "sm_inv m c ts \<longleftrightarrow> um_inv m (as_um c) ts"

lemma sm_gate_protocol:
  assumes "2 \<le> m"
  shows "gate_protocol (sm_act m) sm_construct (sm_inv m)"
proof
  show "sm_inv m sm_construct (replicate n Outside)" for n
    by (simp add: sm_inv_def um_inv_construct as_um_construct)
  show "sm_inv m c' ts'"
    if "sm_inv m c ts" "i < length ts" "sm_act m c (ts ! i) c' p' nt" "notified nt (ts[i := p']) ts'" for c ts i c' p' nt ts'
    using gate_protocol.inv_section [OF um_gate_protocol [OF assms]] that sm_act_um unfolding sm_inv_def by blast
  show "sm_inv m c (ts[i := Awake req timed g timeout])"
    if "sm_inv m c ts" "i < length ts" "ts ! i = Asleep req timed g" "timeout \<longrightarrow> timed" for c ts i req timed g timeout
    using um_inv_wakes that unfolding sm_inv_def by blast
qed

interpretation sm: gate_protocol "sm_act sm_max_readers" sm_construct "sm_inv sm_max_readers"
  by (rule sm_gate_protocol) (simp add: sm_max_readers_def)

end
