(* ===== verification/Mutex_Props.thy ===== *)
theory Mutex_Props
  imports Sharable_Mutex
begin

text \<open>
  What the sharable and the upgradable mutex promise to the threads that use them: exclusion, the bound on the
  number of readers, and that no thread is left asleep when nobody is inside. The threads obey the contract of
  the classes: they release only what they own.
\<close>

section \<open>From the invariant to the threads\<close>

lemma num_in_two:
  assumes "i < length ts" "j < length ts" "i \<noteq> j" "P (ts ! i)" "P (ts ! j)"
  shows "2 \<le> num_in P ts"
proof -
  have "{i, j} \<subseteq> {k. k < length ts \<and> P (ts ! k)}" using assms by auto
  then have "card {i, j} \<le> card {k. k < length ts \<and> P (ts ! k)}" by (intro card_mono) auto
  then show ?thesis using assms(3) by (simp add: num_in_def length_filter_conv_card)
qed

lemma owners_apart:
  assumes "um_owners m c ts" "i < length ts" "j < length ts" "i \<noteq> j" "ts ! i = Owns v" "ts ! j = Owns w"
  shows "v \<noteq> Exclusive \<and> (v = Upgradable \<longrightarrow> w = Sharable)"
proof -
  have c: "num_in is_exclusive ts \<le> 1" "num_in is_upgradable ts \<le> 1"
    "0 < num_in is_exclusive ts \<longrightarrow> num_in is_sharable ts = 0 \<and> num_in is_upgradable ts = 0"
    using assms(1) by (auto simp: um_owners_def split: if_splits)
  have i: "Q (ts ! i) \<Longrightarrow> 0 < num_in Q ts" "Q (ts ! j) \<Longrightarrow> 0 < num_in Q ts" for Q
    using num_in_update(2) assms(2,3) by blast+
  show ?thesis
    using c i [of is_exclusive] i [of is_upgradable] i [of is_sharable] assms(5,6)
      num_in_two [OF assms(2,3,4), of is_exclusive] num_in_two [OF assms(2,3,4), of is_upgradable]
    by (cases v; cases w) auto
qed

lemma quiet_all_outside:
  assumes "um_inv m c ts" "2 \<le> m" 
    "\<forall>p\<in>set ts. (\<forall>w. p \<noteq> Owns w) \<and> (\<forall>req timed g timeout. p \<noteq> Awake req timed g timeout)"
  shows "\<forall>p\<in>set ts. p = Outside"
proof -
  have none: "num_in is_exclusive ts = 0" "num_in is_upgradable ts = 0" "num_in is_sharable ts = 0"
    using assms(3) by (auto simp: num_in_0)
  have asleep: "at_second p \<longrightarrow> sleeps_second p" if "p \<in> set ts" for p
    using bspec [OF assms(3) that] by (cases p rule: at_second.cases) auto
  have num: "num_upr_shar c = 0" "\<not> upgradable_in c" using assms(1) none
    by (auto simp: um_inv_def um_owners_def split: if_splits)
  then have second: "num_in sleeps_second ts = 0" using assms(1) by (simp add: um_inv_def second_quiet_def)
  then have "num_in at_second ts = 0" using asleep by (auto simp: num_in_0)
  then have "\<not> exclusive_in c" using assms(1) none by (auto simp: um_inv_def um_owners_def split: if_splits)
  then have first: "num_in sleeps_first ts = 0" using assms(1,2) num by (auto simp: um_inv_def first_quiet_def)
  show ?thesis
  proof
    fix p assume p: "p \<in> set ts"
    then have "\<not> sleeps_first p" "\<not> sleeps_second p" using first second by (auto simp: num_in_0)
    then show "p = Outside" using assms(3) p
      by (cases p; cases "case p of Asleep _ _ g \<Rightarrow> g | _ \<Rightarrow> First_Gate") auto
  qed
qed

section \<open>Runs\<close>

lemma gate_reach_length: "gate_reach act c0 n (c, ts) \<Longrightarrow> length ts = n"
proof (induction "(c, ts)" arbitrary: c ts rule: gate_reach.induct)
  case (continue s)
  from continue(3,1,2) show ?case
    by (cases rule: gate_step.cases) (auto elim!: notified.cases)
qed simp

lemma um_run:
  assumes "gate_reach act c0 n (c, ts)" "i < length ts" "act c (ts ! i) c' p' nt" "nt \<noteq> One_Second"
    and "ts' = (if nt = All_First then map wake_first (ts[i := p']) else ts[i := p'])"
  shows "gate_reach act c0 n (c', ts')"
proof -
  have "notified nt (ts[i := p']) ts'"
    using assms(4,5) notified.all_first notified.nobody by (cases nt) auto
  then show ?thesis using assms(1-3) gate_reach.continue gate_step.section_step by metis
qed

abbreviation ctrl :: "bool \<Rightarrow> bool \<Rightarrow> nat \<Rightarrow> um_ctrl" where
  "ctrl e u k \<equiv> \<lparr>exclusive_in = e, upgradable_in = u, num_upr_shar = k\<rparr>"

text \<open>One thread takes upgradable and another sharable ownership.\<close>

lemma run_two_readers:
  assumes "2 < m"
  shows "gate_reach (um_act m) um_construct 3 (ctrl False True 2, [Owns Upgradable, Owns Sharable, Outside])"
proof -
  have "gate_reach (um_act m) um_construct 3 (ctrl False True 1, [Owns Upgradable, Outside, Outside])"
    by (rule um_run [OF gate_reach.start, where i = 0 and p' = "Owns Upgradable" and nt = No_Note])
      (use assms um_act.try_lock_upgradable [of m True um_construct "ctrl False True 1" True No_Note] in
        \<open>simp_all add: um_ops um_construct_def numeral_3_eq_3\<close>)
  then show ?thesis
    by (rule um_run [where i = 1 and p' = "Owns Sharable" and nt = No_Note])
      (use assms um_act.try_lock_sharable [of m True "ctrl False True 1" "ctrl False True 2" True No_Note] in
        \<open>simp_all add: um_ops\<close>)
qed

text \<open>The first asks to be promoted within a time limit and waits; a third thread asks for sharable ownership.\<close>

lemma run_promotion:
  assumes "2 < m"
  shows "gate_reach (um_act m) um_construct 3
    (ctrl True False 1, [Asleep Promote_Req True Second_Gate, Owns Sharable, Asleep Sharable_Req False First_Gate])"
proof -
  have "gate_reach (um_act m) um_construct 3
      (ctrl True False 1, [Asleep Promote_Req True Second_Gate, Owns Sharable, Outside])"
    by (rule um_run [OF run_two_readers [OF assms], where i = 0 and p' = "Asleep Promote_Req True Second_Gate" and nt = No_Note])
      (use assms um_act.request [of m Promote_Req True True "ctrl False True 2" "ctrl True False 1" "Wait Second_Gate"
        "Owns Upgradable"] in \<open>simp_all add: um_ops\<close>)
  then show ?thesis
    by (rule um_run [where i = 2 and p' = "Asleep Sharable_Req False First_Gate" and nt = No_Note])
      (use assms um_act.request [of m Sharable_Req False True "ctrl True False 1" "ctrl True False 1" "Wait First_Gate"
        "Outside"] in \<open>simp_all add: um_ops\<close>)
qed

lemma max_readers_bounds [simp]: "2 < um_max_readers" "2 \<le> sm_max_readers" "Suc 0 < um_max_readers" "2 \<le> um_max_readers"
    "um_max_readers \<noteq> 2"
  by (simp_all add: um_max_readers_def sm_max_readers_def)

section \<open>The upgradable mutex\<close>

text \<open>C8: However the operations of any number of threads interleave, and with spurious wake-ups and timeouts, in
  every reachable state the number of readers is exactly the number of threads with sharable or upgradable
  ownership and never exceeds the limit of its bit-field, so the counter does not wrap around; and two threads never
  own the upgradable mutex at the same time unless at least one of them has sharable ownership and none has
  exclusive ownership. The threads obey the contract of the class: they release only what they own.\<close>

theorem upgradable_exclusion:
  assumes "gate_reach (um_act um_max_readers) um_construct n (c, ts)"
  shows "num_upr_shar c = num_in is_sharable ts + num_in is_upgradable ts \<and> num_upr_shar c \<le> um_max_readers
    \<and> (\<forall>i<n. \<forall>j<n. \<forall>v w. i \<noteq> j \<longrightarrow> ts ! i = Owns v \<longrightarrow> ts ! j = Owns w \<longrightarrow>
         v \<noteq> Exclusive \<and> w \<noteq> Exclusive \<and> (v = Sharable \<or> w = Sharable))"
proof -
  have inv: "um_owners um_max_readers c ts" using um.reach_inv [OF assms] by (simp add: um_inv_def)
  note len = gate_reach_length [OF assms]
  have "v \<noteq> Exclusive \<and> w \<noteq> Exclusive \<and> (v = Sharable \<or> w = Sharable)"
    if "i < n" "j < n" "i \<noteq> j" "ts ! i = Owns v" "ts ! j = Owns w" for i j v w
    using owners_apart [OF inv, of i j v w] owners_apart [OF inv, of j i w v] that len by (cases v; cases w) auto
  then show ?thesis using inv by (simp add: um_owners_def)
qed

theorem upgradable_exclusion_witness:
  "gate_reach (um_act um_max_readers) um_construct 3 (ctrl False True 2, [Owns Upgradable, Owns Sharable, Outside])
   \<and> num_in is_sharable [Owns Upgradable, Owns Sharable, Outside] + num_in is_upgradable [Owns Upgradable, Owns Sharable, Outside] = 2
   \<and> \<not> gate_reach (um_act um_max_readers) um_construct 3 (ctrl False True 2, [Owns Upgradable, Owns Upgradable, Outside])
   \<and> \<not> gate_reach (um_act um_max_readers) um_construct 3 (ctrl True False 1, [Owns Exclusive, Owns Sharable, Outside])"
proof -
  have "\<not> gate_reach (um_act um_max_readers) um_construct 3 (ctrl False True 2, [Owns Upgradable, Owns Upgradable, Outside])"
    using upgradable_exclusion [THEN conjunct2, THEN conjunct2, rule_format,
        of 3 "ctrl False True 2" "[Owns Upgradable, Owns Upgradable, Outside]" 0 1 Upgradable Upgradable] by auto
  moreover have "\<not> gate_reach (um_act um_max_readers) um_construct 3 (ctrl True False 1, [Owns Exclusive, Owns Sharable, Outside])"
    using upgradable_exclusion [THEN conjunct2, THEN conjunct2, rule_format,
        of 3 "ctrl True False 1" "[Owns Exclusive, Owns Sharable, Outside]" 0 1 Exclusive Sharable] by auto
  moreover have "num_in is_sharable [Owns Upgradable, Owns Sharable, Outside] + num_in is_upgradable [Owns Upgradable, Owns Sharable, Outside] = 2"
    using upgradable_exclusion [OF run_two_readers [OF max_readers_bounds(1)]] by simp
  ultimately show ?thesis using run_two_readers [OF max_readers_bounds(1)] by blast
qed

text \<open>C14: The upgradable mutex has no lost wake-up that stops the system: in every reachable state where a thread
  sleeps at one of the gates, some thread owns the mutex or has been woken up and will run.\<close>

theorem upgradable_no_deadlock:
  assumes "gate_reach (um_act um_max_readers) um_construct n (c, ts)" "Asleep req timed g \<in> set ts"
  shows "\<exists>p\<in>set ts. (\<exists>w. p = Owns w) \<or> (\<exists>req timed g timeout. p = Awake req timed g timeout)"
proof (rule ccontr)
  assume "\<not> ?thesis"
  then have "\<forall>p\<in>set ts. p = Outside" using quiet_all_outside [OF um.reach_inv [OF assms(1)]] by auto
  then show False using assms(2) by blast
qed

theorem upgradable_no_deadlock_witness:
  "gate_reach (um_act um_max_readers) um_construct 3
     (ctrl True False 1, [Asleep Promote_Req True Second_Gate, Owns Sharable, Asleep Sharable_Req False First_Gate])
   \<and> (\<exists>p\<in>set [Asleep Promote_Req True Second_Gate, Owns Sharable, Asleep Sharable_Req False First_Gate].
       (\<exists>w. p = Owns w) \<or> (\<exists>req timed g timeout. p = Awake req timed g timeout))
   \<and> (\<forall>c. \<not> gate_reach (um_act um_max_readers) um_construct 2 (c, [Asleep Exclusive_Req False First_Gate, Outside]))"
proof -
  have "\<not> gate_reach (um_act um_max_readers) um_construct 2 (c, [Asleep Exclusive_Req False First_Gate, Outside])" for c
    using upgradable_no_deadlock [of 2 c "[Asleep Exclusive_Req False First_Gate, Outside]" Exclusive_Req False First_Gate] by auto
  then show ?thesis
    using upgradable_no_deadlock [OF run_promotion [OF max_readers_bounds(1)], of Promote_Req True Second_Gate]
      run_promotion [OF max_readers_bounds(1)] by simp
qed

text \<open>C36: The rollback of a timed promotion clears the exclusive mark and does not notify the first gate, unlike the
  rollback of a timed exclusive lock. So a run ends with a thread asleep in lock\_sharable at the first gate,
  without a time limit, although the gate is open to it: nobody has exclusive ownership, nobody asks for it, and
  lock\_sharable called at this moment would return at once.\<close>

theorem promotion_rollback_leaves_sleeper:
  "\<exists>c. gate_reach (um_act um_max_readers) um_construct 3
      (c, [Owns Upgradable, Owns Sharable, Asleep Sharable_Req False First_Gate])
    \<and> snd (um_lock_sharable um_max_readers c) = Return True No_Note"
proof -
  have "gate_reach (um_act um_max_readers) um_construct 3
      (ctrl True False 1, [Awake Promote_Req True Second_Gate True, Owns Sharable, Asleep Sharable_Req False First_Gate])"
    using gate_reach.continue [OF run_promotion [OF max_readers_bounds(1)] gate_step.wakes [of 0 _ Promote_Req True Second_Gate True]]
    by simp
  then have "gate_reach (um_act um_max_readers) um_construct 3
      (ctrl False True 2, [Owns Upgradable, Owns Sharable, Asleep Sharable_Req False First_Gate])"
    by (rule um_run [where i = 0 and p' = "Owns Upgradable" and nt = No_Note])
      (use max_readers_bounds(1) um_act.resume [of um_max_readers Promote_Req True Second_Gate True "ctrl True False 1" "ctrl False True 2"
        "Return False No_Note"] in \<open>simp_all add: um_ops\<close>)
  moreover have "snd (um_lock_sharable um_max_readers (ctrl False True 2)) = Return True No_Note"
    using max_readers_bounds(1) by (simp add: um_ops)
  ultimately show ?thesis by blast
qed

section \<open>The sharable mutex\<close>

text \<open>One thread has exclusive ownership and another waits for sharable ownership.\<close>

lemma run_sharable:
  "gate_reach (sm_act m) sm_construct 2
    (\<lparr>excl_in = True, num_shared = 0\<rparr>, [Owns Exclusive, Asleep Sharable_Req False First_Gate])"
proof -
  have "gate_reach (sm_act m) sm_construct 2 (\<lparr>excl_in = True, num_shared = 0\<rparr>, [Owns Exclusive, Outside])"
    by (rule um_run [OF gate_reach.start, where i = 0 and p' = "Owns Exclusive" and nt = No_Note])
      (use sm_act.try_lock [of True sm_construct "\<lparr>excl_in = True, num_shared = 0\<rparr>" True No_Note m] in
        \<open>simp_all add: sm_try_lock_def sm_construct_def numeral_2_eq_2\<close>)
  then show ?thesis
    by (rule um_run [where i = 1 and p' = "Asleep Sharable_Req False First_Gate" and nt = No_Note])
      (use sm_act.lock_sharable [of m "\<lparr>excl_in = True, num_shared = 0\<rparr>" "\<lparr>excl_in = True, num_shared = 0\<rparr>"
        "Wait First_Gate"] in \<open>simp_all add: sm_lock_sharable_def\<close>)
qed

lemma run_sharable_two:
  assumes "2 \<le> m"
  shows "gate_reach (sm_act m) sm_construct 2 (\<lparr>excl_in = False, num_shared = 2\<rparr>, [Owns Sharable, Owns Sharable])"
proof -
  have "gate_reach (sm_act m) sm_construct 2 (\<lparr>excl_in = False, num_shared = 1\<rparr>, [Owns Sharable, Outside])"
    by (rule um_run [OF gate_reach.start, where i = 0 and p' = "Owns Sharable" and nt = No_Note])
      (use assms sm_act.try_lock_sharable [of m True sm_construct "\<lparr>excl_in = False, num_shared = 1\<rparr>" True No_Note] in
        \<open>simp_all add: sm_try_lock_sharable_def sm_construct_def numeral_2_eq_2\<close>)
  then show ?thesis
    by (rule um_run [where i = 1 and p' = "Owns Sharable" and nt = No_Note])
      (use assms sm_act.try_lock_sharable [of m True "\<lparr>excl_in = False, num_shared = 1\<rparr>"
        "\<lparr>excl_in = False, num_shared = 2\<rparr>" True No_Note] in \<open>simp_all add: sm_try_lock_sharable_def\<close>)
qed

text \<open>C22: The sharable mutex behaves as the upgradable mutex with the same limit on readers does when nobody asks
  for upgradable ownership: each of its runs is one of that mutex. So two threads own it at the same time only
  if both have sharable ownership, and the number of readers stays within its bit-field.\<close>

theorem sharable_exclusion:
  assumes "gate_reach (sm_act sm_max_readers) sm_construct n (c, ts)"
  shows "gate_reach (um_act sm_max_readers) um_construct n (as_um c, ts)
    \<and> (\<forall>i<n. \<forall>j<n. \<forall>v w. i \<noteq> j \<longrightarrow> ts ! i = Owns v \<longrightarrow> ts ! j = Owns w \<longrightarrow> v = Sharable \<and> w = Sharable)
    \<and> num_shared c = num_in is_sharable ts \<and> num_shared c \<le> sm_max_readers"
proof -
  have inv: "um_owners sm_max_readers (as_um c) ts"
    using sm.reach_inv [OF assms] by (simp add: sm_inv_def um_inv_def)
  then have "num_in is_upgradable ts = 0" by (simp add: um_owners_def)
  then have noU: "Owns Upgradable \<notin> set ts" by (auto simp: num_in_0)
  note len = gate_reach_length [OF assms]
  have "v = Sharable" if "i < n" "j < n" "i \<noteq> j" "ts ! i = Owns v" "ts ! j = Owns w" for i j v w
    using owners_apart [OF inv, of i j v w] that len noU nth_mem [of i ts] by (cases v) auto
  then show ?thesis using inv sm_reach_um [OF assms] \<open>num_in is_upgradable ts = 0\<close> by (auto simp: um_owners_def)
qed

theorem sharable_exclusion_witness:
  "gate_reach (um_act sm_max_readers) um_construct 2 (as_um \<lparr>excl_in = False, num_shared = 2\<rparr>, [Owns Sharable, Owns Sharable])
   \<and> num_in is_sharable [Owns Sharable, Owns Sharable] = 2
   \<and> (\<forall>c. \<not> gate_reach (sm_act sm_max_readers) sm_construct 2 (c, [Owns Exclusive, Owns Sharable]))"
proof -
  have "\<not> gate_reach (sm_act sm_max_readers) sm_construct 2 (c, [Owns Exclusive, Owns Sharable])" for c
    using sharable_exclusion [THEN conjunct2, THEN conjunct1, rule_format,
        of 2 c "[Owns Exclusive, Owns Sharable]" 0 1 Exclusive Sharable] by auto
  then show ?thesis using sharable_exclusion [OF run_sharable_two [OF max_readers_bounds(2)]] by simp
qed

text \<open>In every reachable state of the sharable mutex where a thread sleeps at one of the gates, some thread owns
  the mutex or has been woken up and will run.\<close>

theorem sharable_no_deadlock:
  assumes "gate_reach (sm_act sm_max_readers) sm_construct n (c, ts)" "Asleep req timed g \<in> set ts"
  shows "\<exists>p\<in>set ts. (\<exists>w. p = Owns w) \<or> (\<exists>req timed g timeout. p = Awake req timed g timeout)"
proof (rule ccontr)
  assume "\<not> ?thesis"
  then have "\<forall>p\<in>set ts. p = Outside"
    using quiet_all_outside [OF sm.reach_inv [OF assms(1), unfolded sm_inv_def]] by auto
  then show False using assms(2) by blast
qed

theorem sharable_no_deadlock_witness:
  "\<exists>p\<in>set [Owns Exclusive, Asleep Sharable_Req False First_Gate].
    (\<exists>w. p = Owns w) \<or> (\<exists>req timed g timeout. p = Awake req timed g timeout)"
  using sharable_no_deadlock [OF run_sharable, of Sharable_Req False First_Gate] by simp

end
