(* ===== verification/Lock_Guards.thy ===== *)
theory Lock_Guards
  imports Mutex_Props
begin

text \<open>
  The lock objects scoped\_lock, sharable\_lock and upgradable\_lock (sync/scoped\_lock.hpp,
  sync/sharable\_lock.hpp, sync/upgradable\_lock.hpp). The mutex is a template parameter of these classes: it
  appears here by its contract with the calling thread, \<open>mutex_call\<close>, which says what the thread must own
  before a call, what it owns after it, and that calling it otherwise is a misuse, which has no effect. It is the
  contract of the mutexes that are not recursive: a thread acquires only what it does not own. Recursive mutexes, with
  which several lock objects may own the same mutex, are not covered. The three classes have the
  same members and differ in the calls they make, so the operations are defined once over the kind of
  ownership and then named for each class. That the upgradable and the sharable mutex meet the contract is an
  interpretation of the locale \<open>mutex_contract\<close> at the end.
\<close>

section \<open>The contract of a mutex\<close>

datatype mode = Blocking | Trying | Timed

datatype mcall = Acquire ownership mode | Release ownership | Convert ownership ownership mode

fun call_requires :: "mcall \<Rightarrow> ownership option" where
  "call_requires (Acquire w md) = None"
| "call_requires (Release w) = Some w"
| "call_requires (Convert v w md) = Some v"

fun call_gives :: "mcall \<Rightarrow> ownership option" where
  "call_gives (Acquire w md) = Some w"
| "call_gives (Release w) = None"
| "call_gives (Convert v w md) = Some w"

text \<open>A call that neither tries nor has a time limit returns only with success.\<close>

fun call_succeeds :: "mcall \<Rightarrow> bool \<Rightarrow> bool" where
  "call_succeeds (Acquire w md) b = (md = Blocking \<or> b)"
| "call_succeeds (Release w) b = True"
| "call_succeeds (Convert v w md) b = (md = Blocking \<or> b)"

text \<open>What the mutex answers: a truth value, or an exception (an error of the underlying primitives).\<close>

datatype answer = Answers bool | Throws

datatype lock_fault = Lock_Exception | Mutex_Error | Misuse

type_synonym held = "nat \<rightharpoonup> ownership"

definition mutex_call :: "mcall \<Rightarrow> answer \<Rightarrow> nat \<Rightarrow> held \<Rightarrow> (lock_fault + bool) \<times> held" where
  "mutex_call c ans a h =
     (if h a \<noteq> call_requires c then (Inl Misuse, h)
      else case ans of
        Throws \<Rightarrow> (Inl Mutex_Error, h)
      | Answers b \<Rightarrow> if call_succeeds c b then (Inr True, h(a := call_gives c)) else (Inr False, h))"

section \<open>Lock objects\<close>

record guard =
  mp_mutex :: "nat option"
  m_locked :: bool

definition guard_default :: guard where
  "guard_default = \<lparr>mp_mutex = None, m_locked = False\<rparr>"

definition guard_owns :: "guard \<Rightarrow> bool" where
  "guard_owns g \<longleftrightarrow> m_locked g \<and> mp_mutex g \<noteq> None"

definition guard_bool :: "guard \<Rightarrow> bool" where
  "guard_bool g \<longleftrightarrow> m_locked g"

definition guard_release :: "guard \<Rightarrow> nat option \<times> guard" where
  "guard_release g = (mp_mutex g, g\<lparr>mp_mutex := None, m_locked := False\<rparr>)"

definition guard_swap :: "guard \<Rightarrow> guard \<Rightarrow> guard \<times> guard" where
  "guard_swap g other =
     (\<lparr>mp_mutex = mp_mutex other, m_locked = m_locked other\<rparr>, \<lparr>mp_mutex = mp_mutex g, m_locked = m_locked g\<rparr>)"

text \<open>Constructors. A constructor whose call on the mutex throws makes no object.\<close>

definition guard_defer :: "nat \<Rightarrow> guard" where
  "guard_defer a = \<lparr>mp_mutex = Some a, m_locked = False\<rparr>"

definition guard_accept :: "nat \<Rightarrow> guard" where
  "guard_accept a = \<lparr>mp_mutex = Some a, m_locked = True\<rparr>"

definition guard_ctor :: "mcall \<Rightarrow> answer \<Rightarrow> nat \<Rightarrow> held \<Rightarrow> (lock_fault + guard) \<times> held" where
  "guard_ctor c ans a h =
     (case mutex_call c ans a h of
        (Inl e, h') \<Rightarrow> (Inl e, h')
      | (Inr b, h') \<Rightarrow> (Inr \<lparr>mp_mutex = Some a, m_locked = b\<rparr>, h'))"

definition guard_move :: "guard \<Rightarrow> guard \<times> guard" where
  "guard_move src =
     (let locked = guard_owns src; (mx, src') = guard_release src
      in (\<lparr>mp_mutex = mx, m_locked = locked\<rparr>, src'))"

text \<open>A conversion from another class: the blocking ones always take over the mutex, the others only on success.\<close>

definition convert_blocking :: "mcall \<Rightarrow> answer \<Rightarrow> guard \<Rightarrow> held \<Rightarrow> (lock_fault + guard) \<times> guard \<times> held" where
  "convert_blocking c ans src h =
     (if guard_owns src
      then (case mutex_call c ans (the (mp_mutex src)) h of
              (Inl e, h') \<Rightarrow> (Inl e, src, h')
            | (Inr _, h') \<Rightarrow> let (mx, src') = guard_release src in (Inr \<lparr>mp_mutex = mx, m_locked = True\<rparr>, src', h'))
      else let (mx, src') = guard_release src in (Inr \<lparr>mp_mutex = mx, m_locked = False\<rparr>, src', h))"

definition convert_trying :: "mcall \<Rightarrow> answer \<Rightarrow> guard \<Rightarrow> held \<Rightarrow> (lock_fault + guard) \<times> guard \<times> held" where
  "convert_trying c ans src h =
     (if guard_owns src
      then (case mutex_call c ans (the (mp_mutex src)) h of
              (Inl e, h') \<Rightarrow> (Inl e, src, h')
            | (Inr ok, h') \<Rightarrow>
                if ok then let (mx, src') = guard_release src in (Inr \<lparr>mp_mutex = mx, m_locked = True\<rparr>, src', h')
                else (Inr guard_default, src, h'))
      else (Inr guard_default, snd (guard_release src), h))"

text \<open>Locking members: lock, try\_lock, timed\_lock and unlock, and the destructor, which swallows exceptions.\<close>

definition guard_lock :: "mcall \<Rightarrow> answer \<Rightarrow> guard \<Rightarrow> held \<Rightarrow> (lock_fault + bool) \<times> guard \<times> held" where
  "guard_lock c ans g h =
     (if mp_mutex g = None \<or> m_locked g then (Inl Lock_Exception, g, h)
      else case mutex_call c ans (the (mp_mutex g)) h of
        (Inl e, h') \<Rightarrow> (Inl e, g, h')
      | (Inr b, h') \<Rightarrow> (Inr b, g\<lparr>m_locked := b\<rparr>, h'))"

definition guard_unlock :: "ownership \<Rightarrow> answer \<Rightarrow> guard \<Rightarrow> held \<Rightarrow> (lock_fault + unit) \<times> guard \<times> held" where
  "guard_unlock w ans g h =
     (if mp_mutex g = None \<or> \<not> m_locked g then (Inl Lock_Exception, g, h)
      else case mutex_call (Release w) ans (the (mp_mutex g)) h of
        (Inl e, h') \<Rightarrow> (Inl e, g, h')
      | (Inr _, h') \<Rightarrow> (Inr (), g\<lparr>m_locked := False\<rparr>, h'))"

definition guard_destroy :: "ownership \<Rightarrow> answer \<Rightarrow> guard \<Rightarrow> held \<Rightarrow> lock_fault option \<times> held" where
  "guard_destroy w ans g h =
     (if m_locked g \<and> mp_mutex g \<noteq> None
      then (case mutex_call (Release w) ans (the (mp_mutex g)) h of
              (Inl Misuse, h') \<Rightarrow> (Some Misuse, h')
            | (_, h') \<Rightarrow> (None, h'))
      else (None, h))"

section \<open>The three classes\<close>

subsection \<open>scoped\_lock\<close>

definition scoped_lock_ctor :: "answer \<Rightarrow> nat \<Rightarrow> held \<Rightarrow> (lock_fault + guard) \<times> held" where
  "scoped_lock_ctor = guard_ctor (Acquire Exclusive Blocking)"

definition scoped_lock_ctor_try :: "answer \<Rightarrow> nat \<Rightarrow> held \<Rightarrow> (lock_fault + guard) \<times> held" where
  "scoped_lock_ctor_try = guard_ctor (Acquire Exclusive Trying)"

definition scoped_lock_ctor_timed :: "answer \<Rightarrow> nat \<Rightarrow> held \<Rightarrow> (lock_fault + guard) \<times> held" where
  "scoped_lock_ctor_timed = guard_ctor (Acquire Exclusive Timed)"

definition scoped_from_upgradable :: "answer \<Rightarrow> guard \<Rightarrow> held \<Rightarrow> (lock_fault + guard) \<times> guard \<times> held" where
  "scoped_from_upgradable = convert_blocking (Convert Upgradable Exclusive Blocking)"

definition scoped_from_upgradable_try :: "answer \<Rightarrow> guard \<Rightarrow> held \<Rightarrow> (lock_fault + guard) \<times> guard \<times> held" where
  "scoped_from_upgradable_try = convert_trying (Convert Upgradable Exclusive Trying)"

definition scoped_from_upgradable_timed :: "answer \<Rightarrow> guard \<Rightarrow> held \<Rightarrow> (lock_fault + guard) \<times> guard \<times> held" where
  "scoped_from_upgradable_timed = convert_trying (Convert Upgradable Exclusive Timed)"

definition scoped_from_sharable_try :: "answer \<Rightarrow> guard \<Rightarrow> held \<Rightarrow> (lock_fault + guard) \<times> guard \<times> held" where
  "scoped_from_sharable_try = convert_trying (Convert Sharable Exclusive Trying)"

definition scoped_lock_lock :: "answer \<Rightarrow> guard \<Rightarrow> held \<Rightarrow> (lock_fault + bool) \<times> guard \<times> held" where
  "scoped_lock_lock = guard_lock (Acquire Exclusive Blocking)"

definition scoped_lock_try_lock :: "answer \<Rightarrow> guard \<Rightarrow> held \<Rightarrow> (lock_fault + bool) \<times> guard \<times> held" where
  "scoped_lock_try_lock = guard_lock (Acquire Exclusive Trying)"

definition scoped_lock_timed_lock :: "answer \<Rightarrow> guard \<Rightarrow> held \<Rightarrow> (lock_fault + bool) \<times> guard \<times> held" where
  "scoped_lock_timed_lock = guard_lock (Acquire Exclusive Timed)"

definition scoped_lock_try_lock_until :: "answer \<Rightarrow> guard \<Rightarrow> held \<Rightarrow> (lock_fault + bool) \<times> guard \<times> held" where
  "scoped_lock_try_lock_until = guard_lock (Acquire Exclusive Timed)"

definition scoped_lock_try_lock_for :: "answer \<Rightarrow> guard \<Rightarrow> held \<Rightarrow> (lock_fault + bool) \<times> guard \<times> held" where
  "scoped_lock_try_lock_for = guard_lock (Acquire Exclusive Timed)"

definition scoped_lock_unlock :: "answer \<Rightarrow> guard \<Rightarrow> held \<Rightarrow> (lock_fault + unit) \<times> guard \<times> held" where
  "scoped_lock_unlock = guard_unlock Exclusive"

definition scoped_lock_destroy :: "answer \<Rightarrow> guard \<Rightarrow> held \<Rightarrow> lock_fault option \<times> held" where
  "scoped_lock_destroy = guard_destroy Exclusive"

subsection \<open>sharable\_lock\<close>

definition sharable_lock_ctor :: "answer \<Rightarrow> nat \<Rightarrow> held \<Rightarrow> (lock_fault + guard) \<times> held" where
  "sharable_lock_ctor = guard_ctor (Acquire Sharable Blocking)"

definition sharable_lock_ctor_try :: "answer \<Rightarrow> nat \<Rightarrow> held \<Rightarrow> (lock_fault + guard) \<times> held" where
  "sharable_lock_ctor_try = guard_ctor (Acquire Sharable Trying)"

definition sharable_lock_ctor_timed :: "answer \<Rightarrow> nat \<Rightarrow> held \<Rightarrow> (lock_fault + guard) \<times> held" where
  "sharable_lock_ctor_timed = guard_ctor (Acquire Sharable Timed)"

definition sharable_from_upgradable :: "answer \<Rightarrow> guard \<Rightarrow> held \<Rightarrow> (lock_fault + guard) \<times> guard \<times> held" where
  "sharable_from_upgradable = convert_blocking (Convert Upgradable Sharable Blocking)"

definition sharable_from_scoped :: "answer \<Rightarrow> guard \<Rightarrow> held \<Rightarrow> (lock_fault + guard) \<times> guard \<times> held" where
  "sharable_from_scoped = convert_blocking (Convert Exclusive Sharable Blocking)"

definition sharable_lock_lock :: "answer \<Rightarrow> guard \<Rightarrow> held \<Rightarrow> (lock_fault + bool) \<times> guard \<times> held" where
  "sharable_lock_lock = guard_lock (Acquire Sharable Blocking)"

definition sharable_lock_try_lock :: "answer \<Rightarrow> guard \<Rightarrow> held \<Rightarrow> (lock_fault + bool) \<times> guard \<times> held" where
  "sharable_lock_try_lock = guard_lock (Acquire Sharable Trying)"

definition sharable_lock_timed_lock :: "answer \<Rightarrow> guard \<Rightarrow> held \<Rightarrow> (lock_fault + bool) \<times> guard \<times> held" where
  "sharable_lock_timed_lock = guard_lock (Acquire Sharable Timed)"

definition sharable_lock_try_lock_until :: "answer \<Rightarrow> guard \<Rightarrow> held \<Rightarrow> (lock_fault + bool) \<times> guard \<times> held" where
  "sharable_lock_try_lock_until = guard_lock (Acquire Sharable Timed)"

definition sharable_lock_try_lock_for :: "answer \<Rightarrow> guard \<Rightarrow> held \<Rightarrow> (lock_fault + bool) \<times> guard \<times> held" where
  "sharable_lock_try_lock_for = guard_lock (Acquire Sharable Timed)"

definition sharable_lock_unlock :: "answer \<Rightarrow> guard \<Rightarrow> held \<Rightarrow> (lock_fault + unit) \<times> guard \<times> held" where
  "sharable_lock_unlock = guard_unlock Sharable"

definition sharable_lock_destroy :: "answer \<Rightarrow> guard \<Rightarrow> held \<Rightarrow> lock_fault option \<times> held" where
  "sharable_lock_destroy = guard_destroy Sharable"

subsection \<open>upgradable\_lock\<close>

definition upgradable_lock_ctor :: "answer \<Rightarrow> nat \<Rightarrow> held \<Rightarrow> (lock_fault + guard) \<times> held" where
  "upgradable_lock_ctor = guard_ctor (Acquire Upgradable Blocking)"

definition upgradable_lock_ctor_try :: "answer \<Rightarrow> nat \<Rightarrow> held \<Rightarrow> (lock_fault + guard) \<times> held" where
  "upgradable_lock_ctor_try = guard_ctor (Acquire Upgradable Trying)"

definition upgradable_lock_ctor_timed :: "answer \<Rightarrow> nat \<Rightarrow> held \<Rightarrow> (lock_fault + guard) \<times> held" where
  "upgradable_lock_ctor_timed = guard_ctor (Acquire Upgradable Timed)"

definition upgradable_from_scoped :: "answer \<Rightarrow> guard \<Rightarrow> held \<Rightarrow> (lock_fault + guard) \<times> guard \<times> held" where
  "upgradable_from_scoped = convert_blocking (Convert Exclusive Upgradable Blocking)"

definition upgradable_from_sharable_try :: "answer \<Rightarrow> guard \<Rightarrow> held \<Rightarrow> (lock_fault + guard) \<times> guard \<times> held" where
  "upgradable_from_sharable_try = convert_trying (Convert Sharable Upgradable Trying)"

definition upgradable_lock_lock :: "answer \<Rightarrow> guard \<Rightarrow> held \<Rightarrow> (lock_fault + bool) \<times> guard \<times> held" where
  "upgradable_lock_lock = guard_lock (Acquire Upgradable Blocking)"

definition upgradable_lock_try_lock :: "answer \<Rightarrow> guard \<Rightarrow> held \<Rightarrow> (lock_fault + bool) \<times> guard \<times> held" where
  "upgradable_lock_try_lock = guard_lock (Acquire Upgradable Trying)"

definition upgradable_lock_timed_lock :: "answer \<Rightarrow> guard \<Rightarrow> held \<Rightarrow> (lock_fault + bool) \<times> guard \<times> held" where
  "upgradable_lock_timed_lock = guard_lock (Acquire Upgradable Timed)"

definition upgradable_lock_unlock :: "answer \<Rightarrow> guard \<Rightarrow> held \<Rightarrow> (lock_fault + unit) \<times> guard \<times> held" where
  "upgradable_lock_unlock = guard_unlock Upgradable"

definition upgradable_lock_destroy :: "answer \<Rightarrow> guard \<Rightarrow> held \<Rightarrow> lock_fault option \<times> held" where
  "upgradable_lock_destroy = guard_destroy Upgradable"

section \<open>Programs over lock objects\<close>

fun class_ctor :: "ownership \<Rightarrow> mode \<Rightarrow> answer \<Rightarrow> nat \<Rightarrow> held \<Rightarrow> (lock_fault + guard) \<times> held" where
  "class_ctor Exclusive Blocking = scoped_lock_ctor"
| "class_ctor Exclusive Trying = scoped_lock_ctor_try"
| "class_ctor Exclusive Timed = scoped_lock_ctor_timed"
| "class_ctor Sharable Blocking = sharable_lock_ctor"
| "class_ctor Sharable Trying = sharable_lock_ctor_try"
| "class_ctor Sharable Timed = sharable_lock_ctor_timed"
| "class_ctor Upgradable Blocking = upgradable_lock_ctor"
| "class_ctor Upgradable Trying = upgradable_lock_ctor_try"
| "class_ctor Upgradable Timed = upgradable_lock_ctor_timed"

fun class_lock :: "ownership \<Rightarrow> mode \<Rightarrow> answer \<Rightarrow> guard \<Rightarrow> held \<Rightarrow> (lock_fault + bool) \<times> guard \<times> held" where
  "class_lock Exclusive Blocking = scoped_lock_lock"
| "class_lock Exclusive Trying = scoped_lock_try_lock"
| "class_lock Exclusive Timed = scoped_lock_timed_lock"
| "class_lock Sharable Blocking = sharable_lock_lock"
| "class_lock Sharable Trying = sharable_lock_try_lock"
| "class_lock Sharable Timed = sharable_lock_timed_lock"
| "class_lock Upgradable Blocking = upgradable_lock_lock"
| "class_lock Upgradable Trying = upgradable_lock_try_lock"
| "class_lock Upgradable Timed = upgradable_lock_timed_lock"

fun class_unlock :: "ownership \<Rightarrow> answer \<Rightarrow> guard \<Rightarrow> held \<Rightarrow> (lock_fault + unit) \<times> guard \<times> held" where
  "class_unlock Exclusive = scoped_lock_unlock"
| "class_unlock Sharable = sharable_lock_unlock"
| "class_unlock Upgradable = upgradable_lock_unlock"

fun class_destroy :: "ownership \<Rightarrow> answer \<Rightarrow> guard \<Rightarrow> held \<Rightarrow> lock_fault option \<times> held" where
  "class_destroy Exclusive = scoped_lock_destroy"
| "class_destroy Sharable = sharable_lock_destroy"
| "class_destroy Upgradable = upgradable_lock_destroy"

text \<open>The conversions between the classes: from the first to the second kind of ownership.\<close>

fun class_convert ::
  "ownership \<Rightarrow> ownership \<Rightarrow> mode \<Rightarrow> (answer \<Rightarrow> guard \<Rightarrow> held \<Rightarrow> (lock_fault + guard) \<times> guard \<times> held) option" where
  "class_convert Upgradable Exclusive Blocking = Some scoped_from_upgradable"
| "class_convert Upgradable Exclusive Trying = Some scoped_from_upgradable_try"
| "class_convert Upgradable Exclusive Timed = Some scoped_from_upgradable_timed"
| "class_convert Sharable Exclusive Trying = Some scoped_from_sharable_try"
| "class_convert Upgradable Sharable Blocking = Some sharable_from_upgradable"
| "class_convert Exclusive Sharable Blocking = Some sharable_from_scoped"
| "class_convert Exclusive Upgradable Blocking = Some upgradable_from_scoped"
| "class_convert Sharable Upgradable Trying = Some upgradable_from_sharable_try"
| "class_convert v w md = None"

type_synonym guards = "nat \<rightharpoonup> ownership \<times> guard"

text \<open>Move assignment works on the objects by their identity, since the two may be the same object.\<close>

definition guard_assign :: "nat \<Rightarrow> nat \<Rightarrow> answer \<Rightarrow> guards \<times> held \<Rightarrow> lock_fault option \<times> guards \<times> held" where
  "guard_assign i j ans s =
     (case fst s i of
        None \<Rightarrow> (None, s)
      | Some (w, g) \<Rightarrow>
          let (r, g', h') = (if guard_owns g then class_unlock w ans g (snd s) else (Inr (), g, snd s));
              objs = (fst s)(i \<mapsto> (w, g'))
          in case r of
               Inl e \<Rightarrow> (Some e, objs, h')
             | Inr _ \<Rightarrow>
                 (case objs j of
                    None \<Rightarrow> (None, objs, h')
                  | Some (v, scop) \<Rightarrow>
                      let locked = guard_owns scop; (mx, scop') = guard_release scop
                      in (None, objs(j \<mapsto> (v, scop'), i \<mapsto> (w, \<lparr>mp_mutex = mx, m_locked = locked\<rparr>)), h')))"

datatype guard_how = Ctor_Default | Ctor_Defer nat | Ctor_Accept nat | Ctor_Call mode nat answer

datatype guard_op =
    Make nat ownership guard_how
  | Move_Make nat nat
  | Convert_Make nat nat ownership mode answer
  | Destroy nat answer
  | Move_Assign nat nat answer
  | Member_Lock nat mode answer
  | Member_Unlock nat answer
  | Member_Release nat
  | Member_Swap nat nat

fun guard_exec :: "guard_op \<Rightarrow> guards \<times> held \<Rightarrow> lock_fault option \<times> guards \<times> held" where
  "guard_exec (Make i w how) (objs, h) =
     (case how of
        Ctor_Default \<Rightarrow> (None, objs(i \<mapsto> (w, guard_default)), h)
      | Ctor_Defer a \<Rightarrow> (None, objs(i \<mapsto> (w, guard_defer a)), h)
      | Ctor_Accept a \<Rightarrow> (None, objs(i \<mapsto> (w, guard_accept a)), h)
      | Ctor_Call md a ans \<Rightarrow>
          (case class_ctor w md ans a h of
             (Inl e, h') \<Rightarrow> (Some e, objs, h')
           | (Inr g, h') \<Rightarrow> (None, objs(i \<mapsto> (w, g)), h')))"
| "guard_exec (Move_Make i j) (objs, h) =
     (case objs j of
        None \<Rightarrow> (None, objs, h)
      | Some (w, src) \<Rightarrow> let (g, src') = guard_move src in (None, objs(j \<mapsto> (w, src'), i \<mapsto> (w, g)), h))"
| "guard_exec (Convert_Make i j w md ans) (objs, h) =
     (case objs j of
        None \<Rightarrow> (None, objs, h)
      | Some (v, src) \<Rightarrow>
          (case class_convert v w md of
             None \<Rightarrow> (None, objs, h)
           | Some conv \<Rightarrow>
               (case conv ans src h of
                  (Inl e, src', h') \<Rightarrow> (Some e, objs(j \<mapsto> (v, src')), h')
                | (Inr g, src', h') \<Rightarrow> (None, objs(j \<mapsto> (v, src'), i \<mapsto> (w, g)), h'))))"
| "guard_exec (Destroy i ans) (objs, h) =
     (case objs i of
        None \<Rightarrow> (None, objs, h)
      | Some (w, g) \<Rightarrow> let (e, h') = class_destroy w ans g h in (e, objs(i := None), h'))"
| "guard_exec (Move_Assign i j ans) (objs, h) = guard_assign i j ans (objs, h)"
| "guard_exec (Member_Lock i md ans) (objs, h) =
     (case objs i of
        None \<Rightarrow> (None, objs, h)
      | Some (w, g) \<Rightarrow>
          (case class_lock w md ans g h of
             (Inl e, g', h') \<Rightarrow> (Some e, objs(i \<mapsto> (w, g')), h')
           | (Inr _, g', h') \<Rightarrow> (None, objs(i \<mapsto> (w, g')), h')))"
| "guard_exec (Member_Unlock i ans) (objs, h) =
     (case objs i of
        None \<Rightarrow> (None, objs, h)
      | Some (w, g) \<Rightarrow>
          (case class_unlock w ans g h of
             (Inl e, g', h') \<Rightarrow> (Some e, objs(i \<mapsto> (w, g')), h')
           | (Inr _, g', h') \<Rightarrow> (None, objs(i \<mapsto> (w, g')), h')))"
| "guard_exec (Member_Release i) (objs, h) =
     (case objs i of
        None \<Rightarrow> (None, objs, h)
      | Some (w, g) \<Rightarrow> (None, objs(i \<mapsto> (w, snd (guard_release g))), h))"
| "guard_exec (Member_Swap i j) (objs, h) =
     (case (objs i, objs j) of
        (Some (w, g), Some (v, k)) \<Rightarrow>
          let (g', k') = guard_swap g k in (None, objs(j \<mapsto> (v, k'), i \<mapsto> (w, g')), h)
      | _ \<Rightarrow> (None, objs, h))"

text \<open>
  What the documentation asks of the caller: objects are made under fresh names and exist when they are used,
  both sides of an assignment or swap have the same class, and the thread owns a mutex whose ownership a lock object
  is to accept (\<open>op_use\<close>). With a mutex that is not recursive the thread also must not ask a lock object to lock a
  mutex that it owns already (\<open>asks_twice\<close>).
\<close>

definition own_of :: "ownership \<Rightarrow> guard \<Rightarrow> (nat \<times> ownership) option" where
  "own_of w g = (if m_locked g then map_option (\<lambda>a. (a, w)) (mp_mutex g) else None)"

definition owner :: "guards \<Rightarrow> nat \<Rightarrow> (nat \<times> ownership) option" where
  "owner objs i = (case objs i of None \<Rightarrow> None | Some (w, g) \<Rightarrow> own_of w g)"

fun op_use :: "guard_op \<Rightarrow> guards \<times> held \<Rightarrow> bool" where
  "op_use (Make i w how) (objs, h) \<longleftrightarrow> objs i = None \<and>
     (case how of
        Ctor_Accept a \<Rightarrow> h a = Some w \<and> (a, w) \<notin> ran (owner objs)
      | _ \<Rightarrow> True)"
| "op_use (Move_Make i j) (objs, h) \<longleftrightarrow> objs i = None \<and> objs j \<noteq> None"
| "op_use (Convert_Make i j w md ans) (objs, h) \<longleftrightarrow> objs i = None \<and>
     (case objs j of None \<Rightarrow> False | Some (v, src) \<Rightarrow> class_convert v w md \<noteq> None)"
| "op_use (Destroy i ans) (objs, h) \<longleftrightarrow> objs i \<noteq> None"
| "op_use (Move_Assign i j ans) (objs, h) \<longleftrightarrow>
     (case (objs i, objs j) of (Some (w, _), Some (v, _)) \<Rightarrow> v = w | _ \<Rightarrow> False)"
| "op_use (Member_Lock i md ans) (objs, h) \<longleftrightarrow> objs i \<noteq> None"
| "op_use (Member_Unlock i ans) (objs, h) \<longleftrightarrow> objs i \<noteq> None"
| "op_use (Member_Release i) (objs, h) \<longleftrightarrow> objs i \<noteq> None"
| "op_use (Member_Swap i j) (objs, h) \<longleftrightarrow>
     (case (objs i, objs j) of (Some (w, _), Some (v, _)) \<Rightarrow> v = w | _ \<Rightarrow> False)"

fun asks_twice :: "guard_op \<Rightarrow> guards \<times> held \<Rightarrow> bool" where
  "asks_twice (Make i w (Ctor_Call md a ans)) (objs, h) \<longleftrightarrow> h a \<noteq> None"
| "asks_twice (Member_Lock i md ans) (objs, h) \<longleftrightarrow>
     (case objs i of
        None \<Rightarrow> False
      | Some (w, g) \<Rightarrow> (case mp_mutex g of Some a \<Rightarrow> \<not> m_locked g \<and> h a \<noteq> None | None \<Rightarrow> False))"
| "asks_twice _ _ \<longleftrightarrow> False"

definition op_pre :: "guard_op \<Rightarrow> guards \<times> held \<Rightarrow> bool" where
  op_pre_def [simp]: "op_pre op s \<longleftrightarrow> op_use op s \<and> \<not> asks_twice op s"

text \<open>
  Only release() and a destructor whose unlock throws let go of a mutex without unlocking it.
\<close>

fun lets_go :: "guard_op \<Rightarrow> bool" where
  "lets_go (Member_Release i) = True"
| "lets_go (Destroy i ans) = (ans = Throws)"
| "lets_go _ = False"

section \<open>Ownership as an abstract state\<close>

text \<open>
  The specification: \<open>ow\<close> says which object is responsible for which ownership, \<open>h\<close> what the thread owns.
  With \<open>strict\<close> nothing is let go.
\<close>

inductive own_step ::
  "bool \<Rightarrow> (nat \<rightharpoonup> nat \<times> ownership) \<times> held \<Rightarrow> (nat \<rightharpoonup> nat \<times> ownership) \<times> held \<Rightarrow> bool" for strict where
  idle: "own_step strict s s"
| acquire: "ow i = None \<Longrightarrow> h a = None \<Longrightarrow> own_step strict (ow, h) (ow(i \<mapsto> (a, w)), h(a \<mapsto> w))"
| give_up: "ow i = Some (a, w) \<Longrightarrow> own_step strict (ow, h) (ow(i := None), h(a := None))"
| transfer: "ow i = None \<Longrightarrow> own_step strict (ow, h) ((ow(j := None))(i := ow j), h)"
| convert: "ow i = None \<Longrightarrow> ow j = Some (a, v) \<Longrightarrow> own_step strict (ow, h) ((ow(j := None))(i \<mapsto> (a, w)), h(a \<mapsto> w))"
| exchange: "own_step strict (ow, h) (ow(j := ow i, i := ow j), h)"
| adopt: "ow i = None \<Longrightarrow> h a = Some w \<Longrightarrow> (a, w) \<notin> ran ow \<Longrightarrow> own_step strict (ow, h) (ow(i \<mapsto> (a, w)), h)"
| forget: "\<not> strict \<Longrightarrow> own_step strict (ow, h) (ow(i := None), h)"

definition own_ok :: "(nat \<rightharpoonup> nat \<times> ownership) \<times> held \<Rightarrow> bool" where
  "own_ok s \<longleftrightarrow> (\<forall>i a w. fst s i = Some (a, w) \<longrightarrow> snd s a = Some w)
     \<and> (\<forall>i j a v w. fst s i = Some (a, v) \<longrightarrow> fst s j = Some (a, w) \<longrightarrow> i = j)"

lemma own_okD:
  assumes "own_ok s"
  shows "fst s i = Some (a, w) \<Longrightarrow> snd s a = Some w" "fst s i = Some (a, v) \<Longrightarrow> fst s j = Some (a, w) \<Longrightarrow> i = j"
  using assms unfolding own_ok_def by blast+

lemma own_okI:
  assumes "\<And>i a w. ow i = Some (a, w) \<Longrightarrow> h a = Some w"
    "\<And>i j a v w. ow i = Some (a, v) \<Longrightarrow> ow j = Some (a, w) \<Longrightarrow> i \<noteq> j \<Longrightarrow> False"
  shows "own_ok (ow, h)"
  using assms unfolding own_ok_def by (metis fst_conv snd_conv)

lemma own_step_ok:
  assumes "own_step strict s s'" "own_ok s"
  shows "own_ok s'"
  using assms
proof cases
  case (acquire ow i h a w)
  then show ?thesis using own_okD [OF assms(2)] by (auto intro!: own_okI split: if_splits)
next
  case (give_up ow i a w h)
  then show ?thesis using own_okD [OF assms(2)] by (fastforce intro!: own_okI split: if_splits)
next
  case (transfer ow i h j)
  then show ?thesis using own_okD [OF assms(2)] by (fastforce intro!: own_okI split: if_splits)
next
  case (convert ow i j a v h w)
  then show ?thesis using own_okD [OF assms(2)] by (fastforce intro!: own_okI split: if_splits)
next
  case (exchange ow h j i)
  then show ?thesis using own_okD [OF assms(2)] by (fastforce intro!: own_okI split: if_splits)
next
  case (adopt ow i h a w)
  have "ow j \<noteq> Some (a, v)" for j v
    using own_okD(1) [OF assms(2), of j a v] adopt ranI [of ow j "(a, w)"] by auto
  then show ?thesis using own_okD [OF assms(2)] adopt by (auto intro!: own_okI split: if_splits)
next
  case (forget ow h i)
  then show ?thesis using own_okD [OF assms(2)] by (auto intro!: own_okI split: if_splits)
qed simp

text \<open>The thread owns nothing but what some object is responsible for.\<close>

definition own_exact :: "(nat \<rightharpoonup> nat \<times> ownership) \<times> held \<Rightarrow> bool" where
  "own_exact s \<longleftrightarrow> (\<forall>a w. snd s a = Some w \<longrightarrow> (a, w) \<in> ran (fst s))"

lemma ran_moved:
  assumes "\<And>k. ow k = Some x \<Longrightarrow> ow' (f k) = Some x"
    and "x \<in> ran ow"
  shows "x \<in> ran ow'"
proof -
  obtain k where "ow k = Some x" using assms(2) by (auto simp: ran_def)
  from ranI [of ow', OF assms(1) [OF this]] show ?thesis .
qed

lemma own_step_exact:
  assumes "own_step True s s'" "own_ok s" "own_exact s"
  shows "own_exact s'"
  using assms(1)
proof cases
  case (acquire ow i h a w)
  then have "ran (ow(i \<mapsto> (a, w))) = insert (a, w) (ran ow)" by (intro ran_map_upd)
  then show ?thesis using assms(3) acquire by (auto simp: own_exact_def split: if_splits)
next
  case (give_up ow i a w h)
  then show ?thesis using assms(3) own_okD [OF assms(2)] by (fastforce simp: own_exact_def ran_def)
next
  case (transfer ow i h j)
  then have "x \<in> ran ow \<Longrightarrow> x \<in> ran (ow(j := None, i := ow j))" for x
    by - (rule ran_moved [of ow x _ "\<lambda>k. if k = j then i else k"], auto)
  then show ?thesis using assms(3) transfer by (auto simp: own_exact_def)
next
  case (convert ow i j a v h w)
  then have "ran (ow(j := None, i \<mapsto> (a, w))) = insert (a, w) (ran (ow(j := None)))" by (intro ran_map_upd) auto
  moreover have "x \<in> ran ow \<Longrightarrow> fst x \<noteq> a \<Longrightarrow> x \<in> ran (ow(j := None))" for x
    using convert by - (rule ran_moved [of ow x _ id], auto)
  ultimately show ?thesis using assms(3) convert by (auto simp: own_exact_def split: if_splits)
next
  case (exchange ow h j i)
  have "x \<in> ran ow \<Longrightarrow> x \<in> ran (ow(j := ow i, i := ow j))" for x
    by - (rule ran_moved [of ow x _ "\<lambda>k. if k = j then i else if k = i then j else k"], auto)
  then show ?thesis using assms(3) exchange by (auto simp: own_exact_def)
next
  case (adopt ow i h a w)
  then have "ran (ow(i \<mapsto> (a, w))) = insert (a, w) (ran ow)" by (intro ran_map_upd)
  then show ?thesis using assms(3) adopt by (auto simp: own_exact_def)
qed (use assms(3) in auto)

section \<open>The operations implement the abstract steps\<close>

lemma class_ops [simp]:
  "class_ctor w md = guard_ctor (Acquire w md)" "class_lock w md = guard_lock (Acquire w md)"
  "class_unlock w = guard_unlock w" "class_destroy w = guard_destroy w"
  by (cases w; cases md; simp add: scoped_lock_ctor_def scoped_lock_ctor_try_def scoped_lock_ctor_timed_def
      sharable_lock_ctor_def sharable_lock_ctor_try_def sharable_lock_ctor_timed_def upgradable_lock_ctor_def
      upgradable_lock_ctor_try_def upgradable_lock_ctor_timed_def scoped_lock_lock_def scoped_lock_try_lock_def
      scoped_lock_timed_lock_def sharable_lock_lock_def sharable_lock_try_lock_def sharable_lock_timed_lock_def
      upgradable_lock_lock_def upgradable_lock_try_lock_def upgradable_lock_timed_lock_def scoped_lock_unlock_def
      sharable_lock_unlock_def upgradable_lock_unlock_def scoped_lock_destroy_def sharable_lock_destroy_def
      upgradable_lock_destroy_def)+

lemma class_convert_cases:
  assumes "class_convert v w md = Some f"
  shows "f = (if md = Blocking then convert_blocking else convert_trying) (Convert v w md)"
  using assms
  by (cases "(v, w, md)" rule: class_convert.cases)
    (simp_all add: scoped_from_upgradable_def scoped_from_upgradable_try_def scoped_from_upgradable_timed_def
      scoped_from_sharable_try_def sharable_from_upgradable_def sharable_from_scoped_def upgradable_from_scoped_def
      upgradable_from_sharable_try_def)

definition abs_guards :: "guards \<times> held \<Rightarrow> (nat \<rightharpoonup> nat \<times> ownership) \<times> held" where
  "abs_guards s = (owner (fst s), snd s)"

lemma owner_upd [simp]:
  "owner (objs(i \<mapsto> (w, g))) = (owner objs)(i := own_of w g)" "owner (objs(i := None)) = (owner objs)(i := None)"
  by (auto simp: owner_def)

lemma own_of_simps [simp]:
  "own_of w \<lparr>mp_mutex = mx, m_locked = True\<rparr> = map_option (\<lambda>a. (a, w)) mx"
  "own_of w \<lparr>mp_mutex = mx, m_locked = False\<rparr> = None"
  "own_of w (g\<lparr>m_locked := False\<rparr>) = None" "own_of w (snd (guard_release g)) = None" "own_of w guard_default = None"
  "own_of w (guard_defer a) = None" "own_of w (guard_accept a) = Some (a, w)"
  "own_of w \<lparr>mp_mutex = mp_mutex g, m_locked = guard_owns g\<rparr> = own_of w g"
  "own_of w \<lparr>mp_mutex = mp_mutex g, m_locked = m_locked g\<rparr> = own_of w g"
  by (auto simp: own_of_def guard_release_def guard_default_def guard_defer_def guard_accept_def guard_owns_def)

lemma owns_own_of: "guard_owns g \<longleftrightarrow> own_of w g = Some (the (mp_mutex g), w)" "\<not> guard_owns g \<longleftrightarrow> own_of w g = None"
  by (auto simp: guard_owns_def own_of_def)

lemma owner_same: "objs i = Some (w, g) \<Longrightarrow> (owner objs)(i := own_of w g) = owner objs"
  by (auto simp: owner_def)

text \<open>The three kinds of member functions, each on an object that owns what the thread owns.\<close>

lemma guard_lock_step:
  assumes "guard_lock (Acquire w md) ans g h = (r, g', h')"
    and "\<forall>a. mp_mutex g = Some a \<longrightarrow> \<not> m_locked g \<longrightarrow> h a = None"
  shows "r \<noteq> Inl Misuse"
    and "own_of w g' = own_of w g \<and> h' = h \<or> (\<exists>a. own_of w g = None \<and> h a = None \<and> own_of w g' = Some (a, w) \<and> h' = h(a \<mapsto> w))"
  using assms
  by (auto simp: guard_lock_def mutex_call_def own_of_def split: if_splits answer.splits)

lemma guard_unlock_step:
  assumes "guard_unlock w ans g h = (r, g', h')" "\<forall>a. own_of w g = Some (a, w) \<longrightarrow> h a = Some w"
  shows "r \<noteq> Inl Misuse"
    and "own_of w g' = own_of w g \<and> h' = h \<or> (\<exists>a. own_of w g = Some (a, w) \<and> own_of w g' = None \<and> h' = h(a := None))"
    and "r = Inr x \<Longrightarrow> own_of w g' = None"
  using assms
  by (auto simp: guard_unlock_def mutex_call_def own_of_def split: if_splits answer.splits)

lemma guard_destroy_step:
  assumes "guard_destroy w ans g h = (e, h')" "\<forall>a. own_of w g = Some (a, w) \<longrightarrow> h a = Some w"
  shows "e = None"
    and "h' = h \<and> (own_of w g = None \<or> ans = Throws) \<or> (\<exists>a. own_of w g = Some (a, w) \<and> h' = h(a := None))"
  using assms
  by (auto simp: guard_destroy_def mutex_call_def own_of_def split: if_splits answer.splits)

lemma guard_ctor_step:
  assumes "guard_ctor (Acquire w md) ans a h = (r, h')" "h a = None"
  shows "r \<noteq> Inl Misuse" "r = Inl e \<Longrightarrow> h' = h"
    and "r = Inr g \<Longrightarrow> own_of w g = None \<and> h' = h \<or> own_of w g = Some (a, w) \<and> h' = h(a \<mapsto> w)"
  using assms
  by (auto simp: guard_ctor_def mutex_call_def own_of_def split: if_splits answer.splits)

lemma convert_step:
  assumes "class_convert v w md = Some f" "f ans src h = (r, src', h')" "\<forall>a. own_of v src = Some (a, v) \<longrightarrow> h a = Some v"
  shows "r \<noteq> Inl Misuse" "r = Inl e \<Longrightarrow> src' = src \<and> h' = h"
    and "r = Inr g \<Longrightarrow> own_of w g = None \<and> own_of v src' = own_of v src \<and> h' = h
      \<or> (\<exists>a. own_of v src = Some (a, v) \<and> own_of v src' = None \<and> own_of w g = Some (a, w) \<and> h' = h(a \<mapsto> w))"
  using assms(2,3) class_convert_cases [OF assms(1)]
  by (auto simp: convert_blocking_def convert_trying_def mutex_call_def own_of_def guard_owns_def guard_release_def
      guard_default_def split: if_splits answer.splits)

text \<open>An operation of the program on its lock objects is at most two abstract steps.\<close>

abbreviation own_steps :: "bool \<Rightarrow> (nat \<rightharpoonup> nat \<times> ownership) \<times> held \<Rightarrow> (nat \<rightharpoonup> nat \<times> ownership) \<times> held \<Rightarrow> bool" where
  "own_steps strict \<equiv> (own_step strict)\<^sup>*\<^sup>*"

lemmas one_step = r_into_rtranclp [of "own_step strict" for strict]

lemma owner_eq: "objs i = Some (w, g) \<Longrightarrow> owner objs i = own_of w g" "objs i = None \<Longrightarrow> owner objs i = None"
  by (auto simp: owner_def)

lemma owned_held:
  assumes "own_ok (owner objs, h)" "objs i = Some (w, g)"
  shows "\<forall>a. own_of w g = Some (a, w) \<longrightarrow> h a = Some w"
  using assms(1) owner_eq(1) [of objs i w g, OF assms(2)] by (auto simp: own_ok_def)

lemma exec_make:
  assumes "guard_exec (Make i w how) (objs, h) = (e, objs', h')" "op_pre (Make i w how) (objs, h)"
  shows "e \<noteq> Some Misuse \<and> own_steps strict (owner objs, h) (owner objs', h')"
proof (cases how)
  case (Ctor_Call md a ans)
  then obtain r h1 where r: "guard_ctor (Acquire w md) ans a h = (r, h1)" "h a = None" "owner objs i = None"
    using assms by (cases "guard_ctor (Acquire w md) ans a h") (auto simp: owner_eq)
  note step = guard_ctor_step [OF r(1,2)]
  show ?thesis
  proof (cases r)
    case (Inl f)
    then show ?thesis using assms r(1) step(1) step(2) [of f] Ctor_Call by auto
  next
    case (Inr g)
    then have *: "e = None" "objs' = objs(i \<mapsto> (w, g))" "h' = h1" using assms r(1) Ctor_Call by auto
    from step(3) [OF Inr] show ?thesis
    proof
      assume "own_of w g = None \<and> h1 = h"
      then show ?thesis using * r(3) by (simp add: fun_upd_idem)
    next
      assume "own_of w g = Some (a, w) \<and> h1 = h(a \<mapsto> w)"
      then show ?thesis using * r(2,3) by (auto intro!: one_step own_step.acquire)
    qed
  qed
next
  case (Ctor_Accept a)
  then show ?thesis using assms by (auto simp: owner_eq intro!: one_step own_step.adopt)
qed (use assms owner_eq(2) [of objs i] in \<open>auto simp: fun_upd_idem\<close>)

lemma exec_move_make:
  assumes "guard_exec (Move_Make i j) (objs, h) = (e, objs', h')" "op_pre (Move_Make i j) (objs, h)"
  shows "e \<noteq> Some Misuse \<and> own_steps strict (owner objs, h) (owner objs', h')"
proof -
  obtain w src where j: "objs j = Some (w, src)" "objs i = None" using assms(2) by auto
  then have "owner objs' = (owner objs)(j := None, i := owner objs j)" "e = None" "h' = h"
    using assms by (auto simp: guard_move_def guard_release_def Let_def owner_eq own_of_def guard_owns_def)
  then show ?thesis using own_step.transfer [of "owner objs" i strict h j] j by (auto simp: owner_eq intro: one_step)
qed

lemma exec_convert_make:
  assumes "guard_exec (Convert_Make i j w md ans) (objs, h) = (e, objs', h')" "op_pre (Convert_Make i j w md ans) (objs, h)"
    and "own_ok (owner objs, h)"
  shows "e \<noteq> Some Misuse \<and> own_steps strict (owner objs, h) (owner objs', h')"
proof -
  obtain v src f where j: "objs j = Some (v, src)" "objs i = None" "class_convert v w md = Some f"
    using assms(2) by (auto split: option.splits prod.splits)
  obtain r src' h1 where f: "f ans src h = (r, src', h1)" by (cases "f ans src h")
  note step = convert_step [OF j(3) f owned_held [OF assms(3) j(1)]]
  note own = owner_eq(1) [of objs j v src, OF j(1)] owner_eq(2) [of objs i, OF j(2)] owner_same [of objs j v src, OF j(1)]
  have "i \<noteq> j" using j by auto
  show ?thesis
  proof (cases r)
    case (Inl e')
    then show ?thesis using assms(1) j f step(1) step(2) [of e'] own by auto
  next
    case (Inr g)
    then have *: "e = None" "objs' = objs(j \<mapsto> (v, src'), i \<mapsto> (w, g))" "h' = h1" using assms(1) j f by auto
    from step(3) [OF Inr] show ?thesis
    proof (elim disjE exE conjE)
      assume "own_of w g = None" "own_of v src' = own_of v src" "h1 = h"
      then show ?thesis using * own by (simp add: fun_upd_idem)
    next
      fix a assume "own_of v src = Some (a, v)" "own_of v src' = None" "own_of w g = Some (a, w)" "h1 = h(a \<mapsto> w)"
      then show ?thesis
        using * own own_step.convert [of "owner objs" i j a v strict h w] by (auto intro: one_step)
    qed
  qed
qed

lemma exec_destroy:
  assumes "guard_exec (Destroy i ans) (objs, h) = (e, objs', h')" "op_pre (Destroy i ans) (objs, h)"
    and "own_ok (owner objs, h)"
  shows "e \<noteq> Some Misuse \<and> own_steps (ans \<noteq> Throws) (owner objs, h) (owner objs', h')"
proof -
  obtain w g where i: "objs i = Some (w, g)" using assms(2) by auto
  obtain e1 h1 where d: "guard_destroy w ans g h = (e1, h1)" by (cases "guard_destroy w ans g h")
  have *: "e = e1" "objs' = objs(i := None)" "h' = h1" using assms(1) i d by auto
  note step = guard_destroy_step [OF d owned_held [OF assms(3) i]]
  from step(2) show ?thesis
  proof (elim disjE exE conjE)
    assume "h1 = h" "own_of w g = None"
    then show ?thesis using * step(1) owner_eq(1) [of objs i w g, OF i] by (simp add: fun_upd_idem)
  next
    assume "h1 = h" "ans = Throws"
    then show ?thesis using * step(1) by (auto intro: one_step own_step.forget)
  next
    fix a assume "own_of w g = Some (a, w)" "h1 = h(a := None)"
    then show ?thesis using * step(1) owner_eq(1) [of objs i w g, OF i] by (auto intro: one_step own_step.give_up)
  qed
qed

lemma exec_unlock:
  assumes "guard_exec (Member_Unlock i ans) (objs, h) = (e, objs', h')" "op_pre (Member_Unlock i ans) (objs, h)"
    and "own_ok (owner objs, h)"
  shows "e \<noteq> Some Misuse \<and> own_steps strict (owner objs, h) (owner objs', h')"
proof -
  obtain w g where i: "objs i = Some (w, g)" using assms(2) by auto
  obtain r g1 h1 where d: "guard_unlock w ans g h = (r, g1, h1)" by (cases "guard_unlock w ans g h")
  have *: "e = (case r of Inl f \<Rightarrow> Some f | Inr _ \<Rightarrow> None)" "objs' = objs(i \<mapsto> (w, g1))" "h' = h1"
    using assms(1) i d by (auto split: sum.splits)
  note step = guard_unlock_step [OF d owned_held [OF assms(3) i]]
  have "e \<noteq> Some Misuse" using *(1) step(1) by (auto split: sum.splits)
  from step(2) this show ?thesis
  proof (elim disjE exE conjE)
    assume "own_of w g1 = own_of w g" "h1 = h"
    then show ?thesis using * owner_same [of objs i w g, OF i] \<open>e \<noteq> Some Misuse\<close> by simp
  next
    fix a assume "own_of w g = Some (a, w)" "own_of w g1 = None" "h1 = h(a := None)"
    then show ?thesis using * owner_eq(1) [of objs i w g, OF i] \<open>e \<noteq> Some Misuse\<close> by (auto intro: one_step own_step.give_up)
  qed
qed

lemma exec_lock:
  assumes "guard_exec (Member_Lock i md ans) (objs, h) = (e, objs', h')" "op_pre (Member_Lock i md ans) (objs, h)"
  shows "e \<noteq> Some Misuse \<and> own_steps strict (owner objs, h) (owner objs', h')"
proof -
  obtain w g where i: "objs i = Some (w, g)" using assms(2) by (auto split: option.splits)
  then have free: "\<forall>a. mp_mutex g = Some a \<longrightarrow> \<not> m_locked g \<longrightarrow> h a = None" using assms(2) by auto
  obtain r g1 h1 where d: "guard_lock (Acquire w md) ans g h = (r, g1, h1)" by (cases "guard_lock (Acquire w md) ans g h")
  have *: "e = (case r of Inl f \<Rightarrow> Some f | Inr _ \<Rightarrow> None)" "objs' = objs(i \<mapsto> (w, g1))" "h' = h1"
    using assms(1) i d by (auto split: sum.splits)
  note step = guard_lock_step [OF d free]
  have "e \<noteq> Some Misuse" using *(1) step(1) by (auto split: sum.splits)
  from step(2) this show ?thesis
  proof (elim disjE exE conjE)
    assume "own_of w g1 = own_of w g" "h1 = h"
    then show ?thesis using * owner_same [of objs i w g, OF i] \<open>e \<noteq> Some Misuse\<close> by simp
  next
    fix a assume "own_of w g = None" "h a = None" "own_of w g1 = Some (a, w)" "h1 = h(a \<mapsto> w)"
    then show ?thesis using * owner_eq(1) [of objs i w g, OF i] \<open>e \<noteq> Some Misuse\<close> by (auto intro: one_step own_step.acquire)
  qed
qed

lemma exec_swap:
  assumes "guard_exec (Member_Swap i j) (objs, h) = (e, objs', h')" "op_pre (Member_Swap i j) (objs, h)"
  shows "e \<noteq> Some Misuse \<and> own_steps strict (owner objs, h) (owner objs', h')"
proof -
  obtain w g k where i: "objs i = Some (w, g)" "objs j = Some (w, k)"
    using assms(2) by (auto split: option.splits prod.splits)
  then have "owner objs' = (owner objs)(j := owner objs i, i := owner objs j)" "e = None" "h' = h"
    using assms(1) by (auto simp: guard_swap_def owner_eq)
  then show ?thesis using own_step.exchange [of strict "owner objs" h j i] by (auto intro: one_step)
qed

text \<open>Move assignment gives up what the target owns and transfers what the source owns, in this order.\<close>

lemma assign_transfer:
  assumes "objs i = Some (w, g)" "own_of w g = None" "objs j = Some (w, scop)" "guard_release scop = (mx, scop')"
  shows "own_step strict (owner objs, h)
    (owner (objs(j \<mapsto> (w, scop'), i \<mapsto> (w, \<lparr>mp_mutex = mx, m_locked = guard_owns scop\<rparr>))), h)"
proof -
  have "mx = mp_mutex scop" "own_of w scop' = None" using assms(4) by (auto simp: guard_release_def own_of_def)
  then show ?thesis
    using own_step.transfer [of "owner objs" i strict h j] owner_eq(1) [of objs i w g, OF assms(1)]
      owner_eq(1) [of objs j w scop, OF assms(3)] assms(2) by simp
qed

lemma exec_assign:
  assumes "guard_exec (Move_Assign i j ans) (objs, h) = (e, objs', h')" "op_pre (Move_Assign i j ans) (objs, h)"
    and "own_ok (owner objs, h)"
  shows "e \<noteq> Some Misuse \<and> own_steps strict (owner objs, h) (owner objs', h')"
proof -
  obtain w g where i: "objs i = Some (w, g)" and j: "\<exists>k. objs j = Some (w, k)"
    using assms(2) by (auto split: option.splits prod.splits)
  obtain r g1 h1 where d: "(if guard_owns g then guard_unlock w ans g h else (Inr (), g, h)) = (r, g1, h1)"
    by (cases "if guard_owns g then guard_unlock w ans g h else (Inr (), g, h)")
  then have d2: "(if guard_owns g then class_unlock w ans g (snd (objs, h)) else (Inr (), g, snd (objs, h))) = (r, g1, h1)"
    by (auto split: if_splits)
  let ?objs = "objs(i \<mapsto> (w, g1))"
  obtain scop where scop: "?objs j = Some (w, scop)" using j by (cases "j = i") auto
  have res: "(e, objs', h') = (case r of Inl e \<Rightarrow> (Some e, ?objs, h1)
      | Inr _ \<Rightarrow> (None, ?objs(j \<mapsto> (w, snd (guard_release scop)),
          i \<mapsto> (w, \<lparr>mp_mutex = fst (guard_release scop), m_locked = guard_owns scop\<rparr>)), h1))"
    using assms(1) scop d2
    by (cases "guard_release scop") (simp add: guard_assign_def i Let_def split: sum.splits)
  have none: "r = Inr x \<Longrightarrow> own_of w g1 = None" for x
    using guard_unlock_step(3) [OF _ owned_held [OF assms(3) i]] d owns_own_of(2) [of g w] by (auto split: if_splits)
  have first: "r \<noteq> Inl Misuse \<and> own_steps strict (owner objs, h) (owner ?objs, h1)"
  proof (cases "guard_owns g")
    case True
    then have "guard_exec (Member_Unlock i ans) (objs, h) = (case r of Inl f \<Rightarrow> Some f | Inr _ \<Rightarrow> None, ?objs, h1)"
      using i d by (auto split: sum.splits)
    then show ?thesis using exec_unlock [of i ans objs h _ ?objs h1 strict] i assms(3) by (auto split: sum.splits)
  qed (use d i in \<open>auto simp: fun_upd_idem owner_eq\<close>)
  show ?thesis
  proof (cases r)
    case (Inl f)
    then show ?thesis using first res by auto
  next
    case (Inr x)
    have "own_step strict (owner ?objs, h1) (owner objs', h')"
      using res assign_transfer [of ?objs i w g1 j scop "fst (guard_release scop)" "snd (guard_release scop)" strict h1]
        none [OF Inr] scop Inr by (simp del: owner_upd)
    then show ?thesis using first res Inr rtranclp.rtrancl_into_rtrancl by fastforce
  qed
qed

lemma guard_exec_steps:
  assumes "guard_exec op (objs, h) = (e, objs', h')" "op_pre op (objs, h)" "own_ok (owner objs, h)"
  shows "e \<noteq> Some Misuse \<and> own_steps (\<not> lets_go op) (owner objs, h) (owner objs', h')"
proof (cases op)
  case (Member_Release i)
  then show ?thesis using assms(1,2) own_step.forget [of False "owner objs" h i] by (auto intro: one_step)
next
  case (Destroy i ans)
  then show ?thesis using exec_destroy assms by simp
qed (use assms exec_make exec_move_make exec_convert_make exec_assign exec_lock exec_unlock exec_swap in simp_all)

lemma own_steps_ok:
  assumes "own_steps strict s s'" "own_ok s"
  shows "own_ok s'" "strict \<Longrightarrow> own_exact s \<Longrightarrow> own_exact s'"
proof -
  have "own_ok s' \<and> (strict \<longrightarrow> own_exact s \<longrightarrow> own_exact s')"
    using assms by (induction rule: rtranclp_induct) (auto intro: own_step_ok own_step_exact)
  then show "own_ok s'" "strict \<Longrightarrow> own_exact s \<Longrightarrow> own_exact s'" by auto
qed

section \<open>Runs of a program\<close>

fun guard_run :: "guard_op list \<Rightarrow> guards \<times> held \<Rightarrow> lock_fault option list \<times> guards \<times> held" where
  "guard_run [] s = ([], s)"
| "guard_run (op # ops) s =
     (let (e, s') = guard_exec op s; (es, s'') = guard_run ops s' in (e # es, s''))"

fun run_pre :: "guard_op list \<Rightarrow> guards \<times> held \<Rightarrow> bool" where
  "run_pre [] s = True"
| "run_pre (op # ops) s \<longleftrightarrow> op_pre op s \<and> run_pre ops (snd (guard_exec op s))"

lemma guard_run_ok:
  assumes "guard_run ops s = (es, s')" "run_pre ops s" "own_ok (abs_guards s)"
  shows "own_ok (abs_guards s') \<and> Some Misuse \<notin> set es
    \<and> (own_exact (abs_guards s) \<longrightarrow> (\<forall>op\<in>set ops. \<not> lets_go op) \<longrightarrow> own_exact (abs_guards s'))"
  using assms
proof (induction ops arbitrary: s es)
  case (Cons op ops)
  obtain e s1 where e: "guard_exec op s = (e, s1)" by (cases "guard_exec op s")
  obtain es1 s2 where "guard_run ops s1 = (es1, s2)" by (cases "guard_run ops s1")
  then have x: "guard_exec op s = (e, s1)" "guard_run ops s1 = (es1, s')" "es = e # es1"
    using Cons.prems(1) e by auto
  have pre: "op_pre op s" "run_pre ops s1" using Cons.prems(2) x(1) by auto
  have step: "e \<noteq> Some Misuse" "own_steps (\<not> lets_go op) (abs_guards s) (abs_guards s1)"
    using guard_exec_steps [of op "fst s" "snd s" e "fst s1" "snd s1"] x(1) pre(1) Cons.prems(3)
    by (simp_all add: abs_guards_def)
  note ok = own_steps_ok [OF step(2) Cons.prems(3)]
  show ?case using Cons.IH [OF x(2) pre(2) ok(1)] step(1) ok(2) x(3) by auto
qed simp

text \<open>
  A run of which nothing is assumed about what the thread asks for: only the calls that ask for a mutex a second time
  are misuses, and they change nothing.
\<close>

fun run_use :: "guard_op list \<Rightarrow> guards \<times> held \<Rightarrow> bool" where
  "run_use [] s = True"
| "run_use (op # ops) s \<longleftrightarrow> op_use op s \<and> run_use ops (snd (guard_exec op s))"

lemma exec_twice: "asks_twice op s \<Longrightarrow> guard_exec op s = (Some Misuse, s)"
  by (cases "(op, s)" rule: asks_twice.cases)
    (auto simp: guard_ctor_def guard_lock_def mutex_call_def split: option.splits prod.splits)

lemma guard_run_use:
  assumes "guard_run ops s = (es, s')" "run_use ops s" "own_ok (abs_guards s)"
  shows "own_ok (abs_guards s')
    \<and> (\<forall>k<length ops. es ! k = Some Misuse \<longleftrightarrow> asks_twice (ops ! k) (snd (guard_run (take k ops) s)))"
  using assms
proof (induction ops arbitrary: s es)
  case (Cons op ops)
  obtain e s1 where e: "guard_exec op s = (e, s1)" by (cases "guard_exec op s")
  obtain es1 s2 where "guard_run ops s1 = (es1, s2)" by (cases "guard_run ops s1")
  then have x: "guard_run ops s1 = (es1, s')" "es = e # es1" using Cons.prems(1) e by auto
  have use: "op_use op s" "run_use ops s1" using Cons.prems(2) e by auto
  have step: "(e = Some Misuse \<longleftrightarrow> asks_twice op s) \<and> own_ok (abs_guards s1)"
  proof (cases "asks_twice op s")
    case True
    then show ?thesis using exec_twice [OF True] e Cons.prems(3) by simp
  next
    case False
    then have "e \<noteq> Some Misuse" "own_steps (\<not> lets_go op) (abs_guards s) (abs_guards s1)"
      using guard_exec_steps [of op "fst s" "snd s" e "fst s1" "snd s1"] e use(1) Cons.prems(3)
      by (simp_all add: abs_guards_def)
    then show ?thesis using False own_steps_ok(1) [OF _ Cons.prems(3)] by blast
  qed
  have sn: "snd (guard_run (op # xs) s) = snd (guard_run xs s1)" for xs using e by (simp add: split_beta)
  show ?case
  proof (intro conjI allI impI)
    show "own_ok (abs_guards s')" using Cons.IH [OF x(1) use(2)] step by blast
    fix k assume k: "k < length (op # ops)"
    show "es ! k = Some Misuse \<longleftrightarrow> asks_twice ((op # ops) ! k) (snd (guard_run (take k (op # ops)) s))"
    proof (cases k)
      case 0
      then show ?thesis using step x(2) by simp
    next
      case (Suc j)
      then show ?thesis using Cons.IH [OF x(1) use(2)] step x(2) k sn by simp
    qed
  qed
qed simp

section \<open>Mutexes that meet the contract\<close>

fun held_phase :: "ownership option \<Rightarrow> phase" where
  "held_phase None = Outside"
| "held_phase (Some w) = Owns w"

text \<open>
  The first critical section of a call on a mutex, for the calls that the class has: it is a step that takes
  the thread from the ownership the contract requires to the one the contract gives, or leaves it where it was
  when the call fails, or puts it to sleep with a request for what the contract gives.
\<close>

locale mutex_contract =
  fixes act :: "'c \<Rightarrow> phase \<Rightarrow> 'c \<Rightarrow> phase \<Rightarrow> notice \<Rightarrow> bool"
    and entry :: "mcall \<Rightarrow> bool \<Rightarrow> 'c \<Rightarrow> ('c \<times> section_result) option"
  assumes returns: "entry call owns c = Some (c', Return ok n) \<Longrightarrow>
      act c (held_phase (call_requires call)) c' (held_phase (if ok then call_gives call else call_requires call)) n"
    and waits: "entry call owns c = Some (c', Wait g) \<Longrightarrow>
      \<exists>req timed. granted req = held_phase (call_gives call)
        \<and> act c (held_phase (call_requires call)) c' (Asleep req timed g) No_Note"
    and blocking: "entry call owns c = Some (c', Return ok n) \<Longrightarrow> call_succeeds call False \<Longrightarrow> ok"
begin

text \<open>What a lock object is told by the contract is what happens to the thread at the mutex.\<close>

lemma contract_met:
  assumes "entry call owns c = Some (c', Return ok n)" "h a = call_requires call"
  shows "\<exists>h'. mutex_call call (Answers ok) a h = (Inr ok, h') \<and> act c (held_phase (h a)) c' (held_phase (h' a)) n"
proof -
  have succ: "call_succeeds call ok = ok"
    using blocking [OF assms(1)] by (cases call; cases ok) auto
  show ?thesis
    using returns [OF assms(1)] assms(2) succ by (cases ok) (auto simp: mutex_call_def)
qed

end

fun um_entry :: "nat \<Rightarrow> mcall \<Rightarrow> bool \<Rightarrow> um_ctrl \<Rightarrow> (um_ctrl \<times> section_result) option" where
  "um_entry m (Acquire Exclusive Blocking) owns c = Some (um_lock c)"
| "um_entry m (Acquire Exclusive Trying) owns c = Some (um_try_lock owns c)"
| "um_entry m (Acquire Exclusive Timed) owns c = Some (um_timed_lock owns c)"
| "um_entry m (Acquire Upgradable Blocking) owns c = Some (um_lock_upgradable m c)"
| "um_entry m (Acquire Upgradable Trying) owns c = Some (um_try_lock_upgradable m owns c)"
| "um_entry m (Acquire Upgradable Timed) owns c = Some (um_timed_lock_upgradable m owns c)"
| "um_entry m (Acquire Sharable Blocking) owns c = Some (um_lock_sharable m c)"
| "um_entry m (Acquire Sharable Trying) owns c = Some (um_try_lock_sharable m owns c)"
| "um_entry m (Acquire Sharable Timed) owns c = Some (um_timed_lock_sharable m owns c)"
| "um_entry m (Release Exclusive) owns c = Some (um_unlock c)"
| "um_entry m (Release Upgradable) owns c = Some (um_unlock_upgradable m c)"
| "um_entry m (Release Sharable) owns c = Some (um_unlock_sharable m c)"
| "um_entry m (Convert Exclusive Upgradable Blocking) owns c = Some (um_unlock_and_lock_upgradable c)"
| "um_entry m (Convert Exclusive Sharable Blocking) owns c = Some (um_unlock_and_lock_sharable c)"
| "um_entry m (Convert Upgradable Sharable Blocking) owns c = Some (um_unlock_upgradable_and_lock_sharable c)"
| "um_entry m (Convert Upgradable Exclusive Blocking) owns c = Some (um_unlock_upgradable_and_lock m c)"
| "um_entry m (Convert Upgradable Exclusive Trying) owns c = Some (um_try_unlock_upgradable_and_lock m owns c)"
| "um_entry m (Convert Upgradable Exclusive Timed) owns c = Some (um_timed_unlock_upgradable_and_lock m owns c)"
| "um_entry m (Convert Sharable Exclusive Trying) owns c = Some (um_try_unlock_sharable_and_lock owns c)"
| "um_entry m (Convert Sharable Upgradable Trying) owns c = Some (um_try_unlock_sharable_and_lock_upgradable owns c)"
| "um_entry m call owns c = None"

fun sm_entry :: "nat \<Rightarrow> mcall \<Rightarrow> bool \<Rightarrow> sm_ctrl \<Rightarrow> (sm_ctrl \<times> section_result) option" where
  "sm_entry m (Acquire Exclusive Blocking) owns c = Some (sm_lock c)"
| "sm_entry m (Acquire Exclusive Trying) owns c = Some (sm_try_lock owns c)"
| "sm_entry m (Acquire Exclusive Timed) owns c = Some (sm_timed_lock owns c)"
| "sm_entry m (Acquire Sharable Blocking) owns c = Some (sm_lock_sharable m c)"
| "sm_entry m (Acquire Sharable Trying) owns c = Some (sm_try_lock_sharable m owns c)"
| "sm_entry m (Acquire Sharable Timed) owns c = Some (sm_timed_lock_sharable m owns c)"
| "sm_entry m (Release Exclusive) owns c = Some (sm_unlock c)"
| "sm_entry m (Release Sharable) owns c = Some (sm_unlock_sharable m c)"
| "sm_entry m call owns c = None"

lemma um_always [simp]:
  "um_unlock c \<noteq> (c', Return False n)" "um_unlock_upgradable m c \<noteq> (c', Return False n)"
  "um_unlock_sharable m c \<noteq> (c', Return False n)" "um_unlock_and_lock_upgradable c \<noteq> (c', Return False n)"
  "um_unlock_and_lock_sharable c \<noteq> (c', Return False n)"
  "um_unlock_upgradable_and_lock_sharable c \<noteq> (c', Return False n)"
  by (simp_all add: um_ops Let_def)

lemma um_never_waits [simp]:
  "um_unlock c \<noteq> (c', Wait g)" "um_unlock_upgradable m c \<noteq> (c', Wait g)" "um_unlock_sharable m c \<noteq> (c', Wait g)"
  "um_unlock_and_lock_upgradable c \<noteq> (c', Wait g)" "um_unlock_and_lock_sharable c \<noteq> (c', Wait g)"
  "um_unlock_upgradable_and_lock_sharable c \<noteq> (c', Wait g)" "um_try_lock owns c \<noteq> (c', Wait g)"
  "um_try_lock_upgradable m owns c \<noteq> (c', Wait g)" "um_try_lock_sharable m owns c \<noteq> (c', Wait g)"
  "um_try_unlock_upgradable_and_lock m owns c \<noteq> (c', Wait g)" "um_try_unlock_sharable_and_lock owns c \<noteq> (c', Wait g)"
  "um_try_unlock_sharable_and_lock_upgradable owns c \<noteq> (c', Wait g)"
  by (simp_all add: um_ops Let_def)

lemma um_request:
  "request_section m req timed owns c = (c', Return ok n) \<Longrightarrow>
    um_act m c (refused req) c' (if ok then granted req else refused req) n"
  using um_act.request [of m req timed owns c c' "Return ok n" "refused req"] by simp

lemma um_request_wait:
  "request_section m req timed owns c = (c', Wait g) \<Longrightarrow>
    \<exists>req' timed. granted req' = granted req \<and> um_act m c (refused req) c' (Asleep req' timed g) No_Note"
  using um_act.request [of m req timed owns c c' "Wait g" "refused req"] by auto

lemmas um_requests =
  um_request [where req = Exclusive_Req and timed = False, simplified]
  um_request [where req = Exclusive_Req and timed = True, simplified]
  um_request [where req = Upgradable_Req and timed = False, simplified]
  um_request [where req = Upgradable_Req and timed = True, simplified]
  um_request [where req = Sharable_Req and timed = False, simplified]
  um_request [where req = Sharable_Req and timed = True, simplified]
  um_request [where req = Promote_Req and timed = False, simplified]
  um_request [where req = Promote_Req and timed = True, simplified]

lemmas um_request_waits =
  um_request_wait [where req = Exclusive_Req and timed = False, simplified]
  um_request_wait [where req = Exclusive_Req and timed = True, simplified]
  um_request_wait [where req = Upgradable_Req and timed = False, simplified]
  um_request_wait [where req = Upgradable_Req and timed = True, simplified]
  um_request_wait [where req = Sharable_Req and timed = False, simplified]
  um_request_wait [where req = Sharable_Req and timed = True, simplified]
  um_request_wait [where req = Promote_Req and timed = False, simplified]
  um_request_wait [where req = Promote_Req and timed = True, simplified]

lemmas um_calls =
  um_act.try_lock um_act.try_lock_upgradable um_act.try_lock_sharable um_act.unlock um_act.unlock_upgradable
  um_act.unlock_sharable um_act.unlock_and_lock_upgradable um_act.unlock_and_lock_sharable
  um_act.unlock_upgradable_and_lock_sharable um_act.try_unlock_upgradable_and_lock
  um_act.try_unlock_sharable_and_lock um_act.try_unlock_sharable_and_lock_upgradable

lemma um_returns:
  assumes "um_entry m call owns c = Some (c', Return ok n)"
  shows "um_act m c (held_phase (call_requires call)) c' (held_phase (if ok then call_gives call else call_requires call)) n"
  using assms
  by (cases "(m, call, owns, c)" rule: um_entry.cases; cases ok) (auto dest: um_requests um_calls)

lemma um_waits:
  assumes "um_entry m call owns c = Some (c', Wait g)"
  shows "\<exists>req timed. granted req = held_phase (call_gives call)
    \<and> um_act m c (held_phase (call_requires call)) c' (Asleep req timed g) No_Note"
  using assms
  by (cases "(m, call, owns, c)" rule: um_entry.cases) (auto dest: um_request_waits)

lemma um_blocking:
  assumes "um_entry m call owns c = Some (c', Return ok n)" "call_succeeds call False"
  shows ok
  using assms
  by (cases "(m, call, owns, c)" rule: um_entry.cases; cases ok) (auto simp: um_ops Let_def split: if_splits)

interpretation umc: mutex_contract "um_act m" "um_entry m" for m
  by unfold_locales (fact um_returns, fact um_waits, fact um_blocking)

text \<open>The sharable mutex: its steps named by the calls.\<close>

lemma sm_waits:
  assumes "sm_entry m call owns c = Some (c', Wait g)"
  shows "\<exists>req timed. granted req = held_phase (call_gives call)
    \<and> sm_act m c (held_phase (call_requires call)) c' (Asleep req timed g) No_Note"
proof (cases "(m, call, owns, c)" rule: sm_entry.cases)
  case (1 m' owns' c0)
  then show ?thesis using assms sm_act.lock [of c c' "Wait g" m] by (intro exI [of _ Exclusive_Req] exI [of _ False]) simp
next
  case (3 m' owns' c0)
  then show ?thesis using assms sm_act.timed_lock [of owns c c' "Wait g" m]
    by (intro exI [of _ Exclusive_Req] exI [of _ True]) simp
next
  case (4 m' owns' c0)
  then show ?thesis using assms sm_act.lock_sharable [of m c c' "Wait g"]
    by (intro exI [of _ Sharable_Req] exI [of _ False]) simp
next
  case (6 m' owns' c0)
  then show ?thesis using assms sm_act.timed_lock_sharable [of m owns c c' "Wait g"]
    by (intro exI [of _ Sharable_Req] exI [of _ True]) simp
qed (use assms in \<open>auto simp: sm_try_lock_def sm_unlock_def sm_try_lock_sharable_def sm_unlock_sharable_def Let_def
    split: if_splits\<close>)

lemma sm_returns:
  assumes "sm_entry m call owns c = Some (c', Return ok n)"
  shows "sm_act m c (held_phase (call_requires call)) c' (held_phase (if ok then call_gives call else call_requires call)) n"
proof (cases "(m, call, owns, c)" rule: sm_entry.cases)
  case (1 m' owns' c0)
  then show ?thesis using assms sm_act.lock [of c c' "Return ok n" m] by (cases ok) simp_all
next
  case (2 m' owns' c0)
  then show ?thesis using assms sm_act.try_lock [of owns c c' ok n m] by (cases ok) simp_all
next
  case (3 m' owns' c0)
  then show ?thesis using assms sm_act.timed_lock [of owns c c' "Return ok n" m] by (cases ok) simp_all
next
  case (4 m' owns' c0)
  then show ?thesis using assms sm_act.lock_sharable [of m c c' "Return ok n"] by (cases ok) simp_all
next
  case (5 m' owns' c0)
  then show ?thesis using assms sm_act.try_lock_sharable [of m owns c c' ok n] by (cases ok) simp_all
next
  case (6 m' owns' c0)
  then show ?thesis using assms sm_act.timed_lock_sharable [of m owns c c' "Return ok n"] by (cases ok) simp_all
next
  case (7 m' owns' c0)
  then show ?thesis using assms sm_act.unlock [of c c' ok n m] by (simp add: sm_unlock_def)
next
  case (8 m' owns' c0)
  then show ?thesis using assms sm_act.unlock_sharable [of m c c' ok n] by (auto simp: sm_unlock_sharable_def Let_def)
qed (use assms in auto)

lemma sm_blocking:
  assumes "sm_entry m call owns c = Some (c', Return ok n)" "call_succeeds call False"
  shows ok
  using assms
  by (cases "(m, call, owns, c)" rule: sm_entry.cases; cases ok)
    (auto simp: sm_lock_def sm_second_gate_def sm_lock_sharable_def sm_unlock_def sm_unlock_sharable_def Let_def
      split: if_splits)

interpretation smc: mutex_contract "sm_act m" "sm_entry m" for m
  by unfold_locales (fact sm_returns, fact sm_waits, fact sm_blocking)

section \<open>Properties\<close>

text \<open>
  A run: an exclusive lock on mutex 7 is moved, turned into a sharable lock, and all objects are destroyed.
\<close>

abbreviation sample_run :: "guard_op list" where
  "sample_run \<equiv>
     [Make 0 Exclusive (Ctor_Call Blocking 7 (Answers True)), Move_Make 1 0, Convert_Make 2 1 Sharable Blocking (Answers True),
      Destroy 0 (Answers True), Destroy 1 (Answers True)]"

lemma sample_run_result:
  "guard_run sample_run (Map.empty, Map.empty) =
     ([None, None, None, None, None], [2 \<mapsto> (Sharable, \<lparr>mp_mutex = Some 7, m_locked = True\<rparr>)], [7 \<mapsto> Sharable])"
  "run_pre sample_run (Map.empty, Map.empty)"
  by (simp_all add: guard_ctor_def mutex_call_def guard_move_def guard_owns_def guard_release_def Let_def
      sharable_from_scoped_def convert_blocking_def guard_destroy_def)


text \<open>C21: A thread uses lock objects on mutexes that are not recursive as documented (\<open>run_use\<close>: objects exist when they
  are used, a lock object accepts only an ownership that the thread has and that no object has). Then, whatever
  the mutexes answer and even when they throw, a mutex is called in a state its contract forbids exactly when the
  program itself asks a lock object to lock a mutex the thread already owns: no unlock and no conversion ever
  is such a misuse, so no destructor unlocks twice. At each point every lock object that owns() is responsible
  for an ownership the thread has, and no two objects for the same mutex.\<close>

theorem lock_guards_safe:
  assumes "run_use ops (Map.empty, h0)" "guard_run ops (Map.empty, h0) = (es, objs, h)"
  shows "(\<forall>k<length ops. es ! k = Some Misuse \<longleftrightarrow> asks_twice (ops ! k) (snd (guard_run (take k ops) (Map.empty, h0))))
    \<and> (\<forall>i w g. objs i = Some (w, g) \<longrightarrow> guard_owns g \<longrightarrow> h (the (mp_mutex g)) = Some w)
    \<and> (\<forall>i j v w g k. objs i = Some (v, g) \<longrightarrow> objs j = Some (w, k) \<longrightarrow> guard_owns g \<longrightarrow> guard_owns k \<longrightarrow>
         mp_mutex g = mp_mutex k \<longrightarrow> i = j)"
proof -
  have "own_ok (abs_guards (Map.empty, h0))" by (simp add: own_ok_def abs_guards_def owner_def)
  from guard_run_use [OF assms(2,1) this] have *: "own_ok (owner objs, h)"
    "\<forall>k<length ops. es ! k = Some Misuse \<longleftrightarrow> asks_twice (ops ! k) (snd (guard_run (take k ops) (Map.empty, h0)))"
    by (auto simp: abs_guards_def)
  have own: "objs i = Some (w, g) \<Longrightarrow> guard_owns g \<Longrightarrow> owner objs i = Some (the (mp_mutex g), w)" for i w g
    using owner_eq(1) owns_own_of(1) by metis
  show ?thesis
    using *(2) own_okD(1) [OF *(1)] own_okD(2) [OF *(1)] own by (intro conjI allI impI) (simp, fastforce, metis fst_conv)
qed

text \<open>In the run of the witness a second lock is asked for while the first is held, and the objects are destroyed.\<close>

abbreviation twice_run :: "guard_op list" where
  "twice_run \<equiv>
     [Make 0 Exclusive (Ctor_Call Blocking 7 (Answers True)), Make 1 Exclusive (Ctor_Call Trying 7 (Answers True)),
      Destroy 0 (Answers True), Make 1 Sharable (Ctor_Call Blocking 7 (Answers True))]"

theorem lock_guards_safe_witness:
  "\<exists>es objs h. guard_run twice_run (Map.empty, Map.empty) = (es, objs, h)
    \<and> es ! 0 \<noteq> Some Misuse \<and> es ! 1 = Some Misuse \<and> es ! 2 \<noteq> Some Misuse \<and> es ! 3 \<noteq> Some Misuse
    \<and> objs 1 = Some (Sharable, \<lparr>mp_mutex = Some 7, m_locked = True\<rparr>) \<and> h 7 = Some Sharable"
proof -
  have ev: "guard_ctor c (Answers True) 7 h = (if h 7 \<noteq> call_requires c then (Inl Misuse, h)
      else (Inr \<lparr>mp_mutex = Some 7, m_locked = call_succeeds c True\<rparr>, if call_succeeds c True then h(7 := call_gives c) else h))" for c h
    by (simp add: guard_ctor_def mutex_call_def)
  obtain es objs h where r: "guard_run twice_run (Map.empty, Map.empty) = (es, objs, h)" by (metis prod_cases3)
  have u: "run_use twice_run (Map.empty, Map.empty)"
    by (simp add: ev guard_destroy_def mutex_call_def)
  have o: "objs 1 = Some (Sharable, \<lparr>mp_mutex = Some 7, m_locked = True\<rparr>)"
    using r by (auto simp: ev guard_destroy_def mutex_call_def Let_def)
  note S = lock_guards_safe [OF u r]
  have m: "es ! k = Some Misuse \<longleftrightarrow> asks_twice (twice_run ! k) (snd (guard_run (take k twice_run) (Map.empty, Map.empty)))" if "k < 4" for k
    using S that by simp
  have "es ! 0 \<noteq> Some Misuse" "es ! 1 = Some Misuse" "es ! 2 \<noteq> Some Misuse" "es ! 3 \<noteq> Some Misuse"
    using m [of 0] m [of 1] m [of 2] m [of 3] by (simp_all add: ev guard_destroy_def mutex_call_def Let_def)
  moreover have "h 7 = Some Sharable" using S o by (fastforce simp: guard_owns_def)
  ultimately show ?thesis using r o by blast
qed

text \<open>C10: RAII: a program that uses lock objects on mutexes that are not recursive as documented (it does not ask for a
  mutex that the thread owns already), never calls release() and whose mutexes do not throw in a destructor owns, at each
  point of its run, exactly the mutexes that some lock object owns(): when all objects are destroyed the thread
  has returned every ownership it took.\<close>

theorem lock_guards_exact:
  assumes "run_pre ops (Map.empty, Map.empty)" "guard_run ops (Map.empty, Map.empty) = (es, objs, h)"
    and "\<forall>op\<in>set ops. \<not> lets_go op"
  shows "h a = Some w \<longleftrightarrow> (\<exists>i g. objs i = Some (w, g) \<and> m_locked g \<and> mp_mutex g = Some a)"
proof -
  have "own_ok (abs_guards (Map.empty, Map.empty))" "own_exact (abs_guards (Map.empty, Map.empty))"
    by (simp_all add: own_ok_def own_exact_def abs_guards_def owner_def)
  from guard_run_ok [OF assms(2,1) this(1)] this(2) assms(3) have *: "own_ok (owner objs, h)" "own_exact (owner objs, h)"
    by (auto simp: abs_guards_def)
  have "h a = Some w \<longleftrightarrow> (\<exists>i. owner objs i = Some (a, w))"
    using own_okD(1) [OF *(1)] *(2) by (auto simp: own_exact_def ran_def)
  moreover have "owner objs i = Some (a, w) \<longleftrightarrow> (\<exists>g. objs i = Some (w, g) \<and> m_locked g \<and> mp_mutex g = Some a)" for i
    by (cases "objs i") (auto simp: owner_def own_of_def split: if_splits)
  ultimately show ?thesis by simp
qed

theorem lock_guards_exact_witness:
  "\<exists>es objs h. guard_run sample_run (Map.empty, Map.empty) = (es, objs, h) \<and> h 7 = Some Sharable
    \<and> (\<exists>i g. objs i = Some (Sharable, g) \<and> m_locked g \<and> mp_mutex g = Some 7) \<and> (\<forall>w. h 8 \<noteq> Some w)"
proof -
  have l: "\<forall>op\<in>set sample_run. \<not> lets_go op" by simp
  note E = lock_guards_exact [OF sample_run_result(2,1) l]
  have "[7 \<mapsto> Sharable] (7 :: nat) = Some Sharable" by simp
  then show ?thesis using E [of 7 Sharable] E [of 8] sample_run_result(1) by auto
qed

text \<open>The upgradable and the sharable mutex meet the contract the lock objects rely on: when a call that the
  class offers returns from its first critical section, the ownership the contract gives the thread is the
  phase the step of the mutex leaves it in.\<close>

theorem mutexes_meet_contract:
  "(um_entry m call owns c = Some (c', Return ok n) \<longrightarrow> h a = call_requires call \<longrightarrow>
      (\<exists>h'. mutex_call call (Answers ok) a h = (Inr ok, h') \<and> um_act m c (held_phase (h a)) c' (held_phase (h' a)) n))
   \<and> (sm_entry m call owns d = Some (d', Return ok n) \<longrightarrow> h a = call_requires call \<longrightarrow>
      (\<exists>h'. mutex_call call (Answers ok) a h = (Inr ok, h') \<and> sm_act m d (held_phase (h a)) d' (held_phase (h' a)) n))"
  using umc.contract_met [of m call owns c c' ok n h a] smc.contract_met [of m call owns d d' ok n h a] by blast

theorem mutexes_meet_contract_witness:
  "\<exists>h'. mutex_call (Acquire Exclusive Trying) (Answers True) 7 Map.empty = (Inr True, h')
    \<and> um_act 5 um_construct Outside (um_construct\<lparr>exclusive_in := True\<rparr>) (held_phase (h' 7)) No_Note"
  using mutexes_meet_contract [of 5 "Acquire Exclusive Trying" True um_construct "um_construct\<lparr>exclusive_in := True\<rparr>" True
    No_Note Map.empty 7 sm_construct sm_construct]
  by (simp add: um_try_lock_def um_construct_def)

end
