(* ===== verification/Interleave.thy ===== *)
theory Interleave
  imports Prelude
begin

text \<open>
  Threads that share a state and interleave at every atomic instruction. A step function says what one instruction of
  thread \<open>i\<close> does to the shared state \<open>g\<close> and to the local state \<open>l\<close> of the thread; its first argument is what the code
  does not decide: the operation the program calls next, or whether a clock is past a time. None means that the
  thread has no such step. The totals \<open>tot f\<close> of a quantity over all threads carry the invariants.
\<close>

section \<open>Atomic instructions\<close>

text \<open>The functions of detail/atomic.hpp: the new value of the variable and the value they return, the old one.\<close>

definition atomic_inc32 :: "uint32 \<Rightarrow> uint32 \<times> uint32" where
  "atomic_inc32 mem = (mem + 1, mem)"

definition atomic_dec32 :: "uint32 \<Rightarrow> uint32 \<times> uint32" where
  "atomic_dec32 mem = (mem - 1, mem)"

definition atomic_cas32 :: "uint32 \<Rightarrow> uint32 \<Rightarrow> uint32 \<Rightarrow> uint32 \<times> uint32" where
  "atomic_cas32 mem with cmp = (if mem = cmp then with else mem, mem)"

section \<open>Steps\<close>

definition tot :: "('a \<Rightarrow> nat) \<Rightarrow> 'a list \<Rightarrow> nat" where
  "tot f xs = sum_list (map f xs)"

inductive il_reach :: "('c \<Rightarrow> nat \<Rightarrow> 'l \<Rightarrow> 'g \<Rightarrow> ('g \<times> 'l) option) \<Rightarrow> 'g \<Rightarrow> 'l list \<Rightarrow> 'g \<times> 'l list \<Rightarrow> bool" for step g0 ls0 where
  il_start: "il_reach step g0 ls0 (g0, ls0)"
| il_step: "il_reach step g0 ls0 (g, ls) \<Longrightarrow> i < length ls \<Longrightarrow> step c i (ls ! i) g = Some (g', l') \<Longrightarrow>
    il_reach step g0 ls0 (g', ls[i := l'])"

text \<open>A schedule: which thread goes next and with which choice.\<close>

fun il_run :: "('c \<Rightarrow> nat \<Rightarrow> 'l \<Rightarrow> 'g \<Rightarrow> ('g \<times> 'l) option) \<Rightarrow> (nat \<times> 'c) list \<Rightarrow> 'g \<times> 'l list \<Rightarrow> ('g \<times> 'l list) option" where
  "il_run step [] s = Some s"
| "il_run step ((i, c) # sch) (g, ls) =
     (if i < length ls then (case step c i (ls ! i) g of None \<Rightarrow> None | Some (g', l') \<Rightarrow> il_run step sch (g', ls[i := l'])) else None)"

text \<open>The updates of the counts on the naturals.\<close>

lemma dec_nat: "x \<noteq> 0 \<Longrightarrow> unat (x - 1 :: uint32) = unat x - 1" "(1 = x) = (unat x = 1)" for x :: uint32
  by (simp add: unat_sub_one) (auto simp: word_of_nat_unat_eq)

lemma inc_nat: "unat x + 1 < 2 ^ 32 \<Longrightarrow> unat (x + 1 :: uint32) = unat x + 1" for x :: uint32
  by (subst unat_add_lem') auto

section \<open>Totals\<close>

lemma tot_upd:
  assumes "i < length xs"
  shows "tot f (xs[i := y]) + f (xs ! i) = tot f xs + f y"
proof -
  have "xs = take i xs @ xs ! i # drop (Suc i) xs" using assms by (rule id_take_nth_drop)
  then have "tot f xs = tot f (take i xs) + f (xs ! i) + tot f (drop (Suc i) xs)" by (metis add.assoc list.simps(9) map_append sum_list.Cons sum_list_append tot_def)
  moreover have "tot f (xs[i := y]) = tot f (take i xs) + f y + tot f (drop (Suc i) xs)"
    using assms by (simp add: upd_conv_take_nth_drop tot_def)
  ultimately show ?thesis by simp
qed

lemma tot_ge: "i < length xs \<Longrightarrow> f (xs ! i) \<le> tot f xs"
  unfolding tot_def using member_le_sum_list [of "f (xs ! i)" "map f xs"] by simp

lemma tot_0: "tot f xs = 0 \<longleftrightarrow> (\<forall>x\<in>set xs. f x = 0)"
  by (simp add: tot_def)

lemma tot_pos: "0 < tot f xs \<longleftrightarrow> (\<exists>i<length xs. 0 < f (xs ! i))"
  unfolding neq0_conv [symmetric] tot_0 by (metis in_set_conv_nth)

lemma tot_set: "i < length xs \<Longrightarrow> tot f (xs[i := y]) = tot f xs - f (xs ! i) + f y"
  using tot_upd [of i xs f y] tot_ge [of i xs f] by simp

lemma tot_pair:
  assumes "i < length xs" "j < length xs" "i \<noteq> j" "f y + f z = f (xs ! i) + f (xs ! j)"
  shows "tot f (xs[i := y, j := z]) = tot f xs"
  using tot_upd [of i xs f y] tot_upd [of j "xs[i := y]" f z] assms by simp

lemma tot_two:
  assumes "i < length xs" "j < length xs" "i \<noteq> j"
  shows "f (xs ! i) + f (xs ! j) \<le> tot f xs"
proof -
  have "tot f xs = (\<Sum>k<length xs. f (xs ! k))" by (simp add: tot_def sum_list_sum_nth atLeast0LessThan)
  moreover have "(\<Sum>k\<in>{i, j}. f (xs ! k)) \<le> (\<Sum>k<length xs. f (xs ! k))" using assms by (intro sum_mono2) auto
  ultimately show ?thesis using assms by simp
qed

lemma tot_replicate [simp]: "tot f (replicate n x) = n * f x"
  by (simp add: tot_def sum_list_replicate)

section \<open>Invariants of interleaved threads\<close>

locale interleaving =
  fixes step :: "'c \<Rightarrow> nat \<Rightarrow> 'l \<Rightarrow> 'g \<Rightarrow> ('g \<times> 'l) option" and g0 :: 'g and ls0 :: "'l list" and inv :: "'g \<Rightarrow> 'l list \<Rightarrow> bool"
  assumes start: "inv g0 ls0"
    and keep: "inv g ls \<Longrightarrow> i < length ls \<Longrightarrow> step c i (ls ! i) g = Some (g', l') \<Longrightarrow> inv g' (ls[i := l'])"
begin

lemma reach_inv: "il_reach step g0 ls0 s \<Longrightarrow> inv (fst s) (snd s)"
  by (induction rule: il_reach.induct) (auto intro: start keep)

lemma reach_length: "il_reach step g0 ls0 s \<Longrightarrow> length (snd s) = length ls0"
  by (induction rule: il_reach.induct) auto

end

lemma il_run_reach: "il_run step sch s = Some s' \<Longrightarrow> il_reach step g0 ls0 s \<Longrightarrow> il_reach step g0 ls0 s'"
proof (induction step sch s rule: il_run.induct)
  case (2 step i c sch g ls)
  then obtain g' l' where "i < length ls" "step c i (ls ! i) g = Some (g', l')" "il_run step sch (g', ls[i := l']) = Some s'"
    by (auto split: if_splits option.splits)
  with 2 show ?case by (blast intro: il_step)
qed simp

end
