(* ===== verification/Shared_Count.thy ===== *)
theory Shared_Count
  imports Interleave "HOL-Library.Monad_Syntax"
begin

text \<open>
  The reference counts behind shared\_ptr and weak\_ptr: sp\_counted\_base of
  smart\_ptr/detail/sp\_counted\_base\_atomic.hpp, sp\_counted\_impl\_pd of sp\_counted\_impl.hpp, shared\_count and
  weak\_count of shared\_count.hpp. A control block is in memory from its allocation until \<^verbatim>\<open>destroy\<close>; None stands for an
  access to a control block that is not there, which is undefined behaviour. The allocator and the deleter are template
  parameters: the allocator is an argument that gives an address or throws, the deleter is recorded by the objects
  it was called for. Here an operation runs without interference; threads are the subject of another theory.
\<close>

section \<open>Control blocks\<close>

record counted_impl =
  m_use_count :: uint32
  m_weak_count :: uint32
  im_ptr :: nat

record sp_store =
  impls :: "nat \<rightharpoonup> counted_impl"
  deleted :: "nat list"

definition set_impl :: "nat \<Rightarrow> counted_impl \<Rightarrow> sp_store \<Rightarrow> sp_store" where
  "set_impl pi b h = h\<lparr>impls := (impls h)(pi \<mapsto> b)\<rparr>"

definition add_ref_copy :: "nat \<Rightarrow> sp_store \<Rightarrow> sp_store option" where
  "add_ref_copy pi h = do { b \<leftarrow> impls h pi; Some (set_impl pi (b\<lparr>m_use_count := fst (atomic_inc32 (m_use_count b))\<rparr>) h) }"

partial_function (option) add_ref_lock :: "nat \<Rightarrow> sp_store \<Rightarrow> (sp_store \<times> bool) option" where
  "add_ref_lock pi h =
     do { b \<leftarrow> impls h pi;
          let tmp = m_use_count b in
          if tmp = 0 then Some (h, False)
          else (case atomic_cas32 (m_use_count b) (tmp + 1) tmp of
                  (new, old) \<Rightarrow>
                    let h' = set_impl pi (b\<lparr>m_use_count := new\<rparr>) h
                    in if old = tmp then Some (h', True) else add_ref_lock pi h') }"

definition ref_release :: "nat \<Rightarrow> sp_store \<Rightarrow> (sp_store \<times> bool) option" where
  "ref_release pi h =
     do { b \<leftarrow> impls h pi;
          (case atomic_dec32 (m_use_count b) of
             (new, old) \<Rightarrow> Some (set_impl pi (b\<lparr>m_use_count := new\<rparr>) h, 1 = old)) }"

definition weak_add_ref :: "nat \<Rightarrow> sp_store \<Rightarrow> sp_store option" where
  "weak_add_ref pi h = do { b \<leftarrow> impls h pi; Some (set_impl pi (b\<lparr>m_weak_count := fst (atomic_inc32 (m_weak_count b))\<rparr>) h) }"

definition base_weak_release :: "nat \<Rightarrow> sp_store \<Rightarrow> (sp_store \<times> bool) option" where
  "base_weak_release pi h =
     do { b \<leftarrow> impls h pi;
          (case atomic_dec32 (m_weak_count b) of
             (new, old) \<Rightarrow> Some (set_impl pi (b\<lparr>m_weak_count := new\<rparr>) h, 1 = old)) }"

definition base_use_count :: "nat \<Rightarrow> sp_store \<Rightarrow> nat option" where
  "base_use_count pi h = map_option (\<lambda>b. unat (m_use_count b)) (impls h pi)"

definition dispose :: "nat \<Rightarrow> sp_store \<Rightarrow> sp_store option" where
  "dispose pi h = do { b \<leftarrow> impls h pi; Some (h\<lparr>deleted := deleted h @ [im_ptr b]\<rparr>) }"

definition destroy :: "nat \<Rightarrow> sp_store \<Rightarrow> sp_store option" where
  "destroy pi h = do { b \<leftarrow> impls h pi; Some (h\<lparr>impls := (impls h)(pi := None)\<rparr>) }"

definition weak_release :: "nat \<Rightarrow> sp_store \<Rightarrow> sp_store option" where
  "weak_release pi h = do { (h, last) \<leftarrow> base_weak_release pi h; if last then destroy pi h else Some h }"

definition release :: "nat \<Rightarrow> sp_store \<Rightarrow> sp_store option" where
  "release pi h =
     do { (h, last) \<leftarrow> ref_release pi h;
          if last then do { h \<leftarrow> dispose pi h; weak_release pi h } else Some h }"

section \<open>Shared counts\<close>

text \<open>Both classes hold the pointer to the object and the pointer to the control block.\<close>

record counted_ref =
  m_px :: nat
  m_pi :: nat

type_synonym shared_count = counted_ref
type_synonym weak_count = counted_ref

definition no_ref :: counted_ref where
  "no_ref = \<lparr>m_px = 0, m_pi = 0\<rparr>"

definition when_counted :: "(nat \<Rightarrow> sp_store \<Rightarrow> sp_store option) \<Rightarrow> counted_ref \<Rightarrow> sp_store \<Rightarrow> sp_store option" where
  "when_counted f r h = (if m_pi r \<noteq> 0 then f (m_pi r) h else Some h)"

definition shared_count_alias :: "shared_count \<Rightarrow> nat \<Rightarrow> shared_count" where
  "shared_count_alias other p = \<lparr>m_px = p, m_pi = m_pi other\<rparr>"

text \<open>The allocation of the control block may throw; the object is then deleted.\<close>

definition shared_count_ctor :: "(sp_store \<Rightarrow> nat option) \<Rightarrow> nat \<Rightarrow> sp_store \<Rightarrow> sp_store \<times> shared_count result" where
  "shared_count_ctor alloc p h =
     (if p \<noteq> 0 then
        (case alloc h of
           None \<Rightarrow> (h\<lparr>deleted := deleted h @ [p]\<rparr>, Inl bad_alloc)
         | Some pi \<Rightarrow> (set_impl pi \<lparr>m_use_count = 1, m_weak_count = 1, im_ptr = p\<rparr> h, Inr \<lparr>m_px = p, m_pi = pi\<rparr>))
      else (h, Inr \<lparr>m_px = p, m_pi = 0\<rparr>))"

definition shared_count_dtor :: "shared_count \<Rightarrow> sp_store \<Rightarrow> sp_store option" where
  "shared_count_dtor r h = when_counted release r h"

definition shared_count_copy :: "shared_count \<Rightarrow> sp_store \<Rightarrow> (sp_store \<times> shared_count) option" where
  "shared_count_copy r h = do { h \<leftarrow> when_counted add_ref_copy r h; Some (h, r) }"

definition shared_count_cast :: "nat \<Rightarrow> shared_count \<Rightarrow> sp_store \<Rightarrow> (sp_store \<times> shared_count) option" where
  "shared_count_cast ptr r h = do { h \<leftarrow> when_counted add_ref_copy r h; Some (h, \<lparr>m_px = ptr, m_pi = m_pi r\<rparr>) }"

definition shared_count_from_weak :: "weak_count \<Rightarrow> sp_store \<Rightarrow> (sp_store \<times> shared_count result) option" where
  "shared_count_from_weak r h =
     (if m_pi r = 0 then Some (h, Inl bad_weak_ptr)
      else do { (h, ok) \<leftarrow> add_ref_lock (m_pi r) h; Some (h, if \<not> ok then Inl bad_weak_ptr else Inr r) })"

definition shared_count_assign :: "shared_count \<Rightarrow> shared_count \<Rightarrow> sp_store \<Rightarrow> (sp_store \<times> shared_count) option" where
  "shared_count_assign this r h =
     (let tmp = m_pi r in
      if tmp \<noteq> m_pi this
      then do { h \<leftarrow> when_counted add_ref_copy r h;
                h \<leftarrow> when_counted release this h;
                Some (h, \<lparr>m_px = m_px r, m_pi = tmp\<rparr>) }
      else Some (h, this\<lparr>m_px := m_px r\<rparr>))"

definition count_use_count :: "counted_ref \<Rightarrow> sp_store \<Rightarrow> nat option" where
  "count_use_count r h = (if m_pi r \<noteq> 0 then base_use_count (m_pi r) h else Some 0)"

section \<open>Weak counts\<close>

definition weak_count_copy :: "counted_ref \<Rightarrow> sp_store \<Rightarrow> (sp_store \<times> weak_count) option" where
  "weak_count_copy r h = do { h \<leftarrow> when_counted weak_add_ref r h; Some (h, r) }"

definition weak_count_dtor :: "weak_count \<Rightarrow> sp_store \<Rightarrow> sp_store option" where
  "weak_count_dtor r h = when_counted weak_release r h"

definition weak_count_assign :: "weak_count \<Rightarrow> counted_ref \<Rightarrow> sp_store \<Rightarrow> (sp_store \<times> weak_count) option" where
  "weak_count_assign this r h =
     do { h \<leftarrow> when_counted weak_add_ref r h;
          h \<leftarrow> when_counted weak_release this h;
          Some (h, \<lparr>m_px = m_px r, m_pi = m_pi r\<rparr>) }"

text \<open>The converting assignment leaves the pointer to the object as it was.\<close>

definition weak_count_assign_conv :: "weak_count \<Rightarrow> weak_count \<Rightarrow> sp_store \<Rightarrow> (sp_store \<times> weak_count) option" where
  "weak_count_assign_conv this r h =
     do { h \<leftarrow> when_counted weak_add_ref r h;
          h \<leftarrow> when_counted weak_release this h;
          Some (h, this\<lparr>m_pi := m_pi r\<rparr>) }"

section \<open>What the counts stand for\<close>

text \<open>
  \<open>n pi\<close> shared counts and \<open>w pi\<close> weak counts refer to the control block at \<open>pi\<close>, and \<open>ad\<close> are the objects that were given
  to shared counts. The shared counts together hold one weak reference. Every object was deleted, or belongs to a
  control block that shared counts refer to.
\<close>

definition counted :: "nat \<Rightarrow> nat \<Rightarrow> counted_impl option \<Rightarrow> bool" where
  "counted n w b \<longleftrightarrow>
     (case b of None \<Rightarrow> n = 0 \<and> w = 0
      | Some b \<Rightarrow> 0 < n + w \<and> unat (m_use_count b) = n \<and> unat (m_weak_count b) = w + (if 0 < n then 1 else 0))"

definition own :: "counted_impl option \<Rightarrow> nat multiset" where
  "own b = (case b of None \<Rightarrow> {#} | Some b \<Rightarrow> if m_use_count b \<noteq> 0 then {#im_ptr b#} else {#})"

definition owned :: "(nat \<rightharpoonup> counted_impl) \<Rightarrow> nat multiset" where
  "owned f = (\<Sum>pi\<in>dom f. own (f pi))"

definition store_ok :: "sp_store \<Rightarrow> (nat \<Rightarrow> nat) \<Rightarrow> (nat \<Rightarrow> nat) \<Rightarrow> nat list \<Rightarrow> bool" where
  "store_ok h n w ad \<longleftrightarrow> (\<forall>pi. counted (n pi) (w pi) (impls h pi)) \<and> finite (dom (impls h))
     \<and> mset ad = mset (deleted h) + owned (impls h)"

lemma own_simps [simp]: "own None = {#}" "own (Some b) = (if m_use_count b \<noteq> 0 then {#im_ptr b#} else {#})"
  by (simp_all add: own_def)

lemma owned_upd:
  assumes "finite (dom f)"
  shows "owned (f(pi := x)) + own (f pi) = owned f + own x"
proof -
  let ?D = "insert pi (dom f)"
  have e: "owned g = (\<Sum>i\<in>?D. own (g i))" if "dom g \<subseteq> ?D" for g
    unfolding owned_def by (rule sum.mono_neutral_left) (use assms that in \<open>auto simp: domIff\<close>)
  have "(\<Sum>i\<in>?D. own ((f(pi := x)) i)) = own x + (\<Sum>i\<in>dom f - {pi}. own (f i))"
    by (subst sum.insert_remove) (use assms in \<open>auto intro!: sum.cong\<close>)
  moreover have "(\<Sum>i\<in>?D. own (f i)) = own (f pi) + (\<Sum>i\<in>dom f - {pi}. own (f i))"
    by (subst sum.insert_remove) (use assms in auto)
  moreover have "dom (f(pi := x)) \<subseteq> ?D" "dom f \<subseteq> ?D" by auto
  ultimately show ?thesis using e [of "f(pi := x)"] e [of f] by (simp add: ac_simps)
qed

text \<open>One control block changes, and what it no longer owns is deleted.\<close>

lemma store_upd:
  assumes ok: "store_ok h n w ad" and c: "counted n' w' x" and m: "mset d + own x = mset (deleted h) + own (impls h pi)"
  shows "store_ok (h\<lparr>impls := (impls h)(pi := x), deleted := d\<rparr>) (n(pi := n')) (w(pi := w')) ad"
proof -
  have fin: "finite (dom (impls h))" and a: "mset ad = mset (deleted h) + owned (impls h)" using ok by (auto simp: store_ok_def)
  have "mset d + owned ((impls h)(pi := x)) + own (impls h pi) = (mset d + own x) + owned (impls h)"
    using owned_upd [OF fin, of pi x] by (metis add.assoc add.commute)
  also have "\<dots> = mset ad + own (impls h pi)" unfolding m a by (simp add: ac_simps)
  finally have "mset ad = mset d + owned ((impls h)(pi := x))" by simp
  then show ?thesis using ok c by (auto simp: store_ok_def)
qed

lemma store_okD:
  assumes "store_ok h n w ad" "0 < n pi + w pi"
  obtains b where "impls h pi = Some b" "unat (m_use_count b) = n pi" "unat (m_weak_count b) = w pi + (if 0 < n pi then 1 else 0)"
proof -
  have "counted (n pi) (w pi) (impls h pi)" using assms(1) by (simp add: store_ok_def)
  then show thesis using assms(2) that by (cases "impls h pi") (auto simp: counted_def)
qed

section \<open>The counting operations\<close>

lemma add_ref_copy_ok:
  assumes ok: "store_ok h n w ad" and n: "0 < n pi" "n pi + 1 < 2 ^ 32"
  shows "\<exists>h'. add_ref_copy pi h = Some h' \<and> store_ok h' (n(pi := n pi + 1)) w ad \<and> deleted h' = deleted h"
proof -
  obtain b where b: "impls h pi = Some b" "unat (m_use_count b) = n pi" "unat (m_weak_count b) = w pi + (if 0 < n pi then 1 else 0)"
    by (rule store_okD [OF ok]) (use n in auto)
  let ?b = "b\<lparr>m_use_count := m_use_count b + 1\<rparr>"
  have u: "unat (m_use_count b + 1) = n pi + 1" using b(2) n by (subst unat_add_lem') auto
  have z: "m_use_count b \<noteq> 0" "m_use_count b + 1 \<noteq> 0" using b(2) u n by (auto simp flip: unat_eq_0)
  have "store_ok (h\<lparr>impls := (impls h)(pi := Some ?b), deleted := deleted h\<rparr>) (n(pi := n pi + 1)) (w(pi := w pi)) ad"
    by (rule store_upd [OF ok]) (use b u z n in \<open>auto simp: counted_def\<close>)
  then show ?thesis using b(1) by (simp add: add_ref_copy_def set_impl_def atomic_inc32_def)
qed

lemma add_ref_lock_ok:
  assumes ok: "store_ok h n w ad" and n: "0 < n pi + w pi" "n pi + 1 < 2 ^ 32"
  shows "\<exists>h'. add_ref_lock pi h = Some (h', 0 < n pi) \<and> store_ok h' (if 0 < n pi then n(pi := n pi + 1) else n) w ad
    \<and> deleted h' = deleted h"
proof -
  obtain b where b: "impls h pi = Some b" "unat (m_use_count b) = n pi" by (rule store_okD [OF ok n(1)])
  show ?thesis
  proof (cases "n pi = 0")
    case True
    then have "m_use_count b = 0" using b(2) by (simp add: unat_eq_0)
    then show ?thesis using True ok b(1) by (subst add_ref_lock.simps) simp
  next
    case False
    then have z: "m_use_count b \<noteq> 0" using b(2) by auto
    obtain h' where h': "add_ref_copy pi h = Some h'" "store_ok h' (n(pi := n pi + 1)) w ad" "deleted h' = deleted h"
      using add_ref_copy_ok [OF ok] False n(2) by blast
    then have "h' = set_impl pi (b\<lparr>m_use_count := m_use_count b + 1\<rparr>) h" using b(1) by (simp add: add_ref_copy_def atomic_inc32_def)
    then show ?thesis using h' False z b(1) by (subst add_ref_lock.simps) (simp add: atomic_cas32_def)
  qed
qed

lemma weak_add_ref_ok:
  assumes ok: "store_ok h n w ad" and n: "0 < n pi + w pi" "w pi + 2 < 2 ^ 32"
  shows "\<exists>h'. weak_add_ref pi h = Some h' \<and> store_ok h' n (w(pi := w pi + 1)) ad \<and> deleted h' = deleted h"
proof -
  obtain b where b: "impls h pi = Some b" "unat (m_use_count b) = n pi" "unat (m_weak_count b) = w pi + (if 0 < n pi then 1 else 0)"
    by (rule store_okD [OF ok n(1)])
  let ?b = "b\<lparr>m_weak_count := m_weak_count b + 1\<rparr>"
  have u: "unat (m_weak_count b + 1) = unat (m_weak_count b) + 1" using b(3) n by (subst unat_add_lem') (auto split: if_splits)
  have "store_ok (h\<lparr>impls := (impls h)(pi := Some ?b), deleted := deleted h\<rparr>) (n(pi := n pi)) (w(pi := w pi + 1)) ad"
    by (rule store_upd [OF ok]) (use b u n in \<open>auto simp: counted_def\<close>)
  then show ?thesis using b(1) by (simp add: weak_add_ref_def set_impl_def atomic_inc32_def)
qed

lemma weak_release_ok:
  assumes ok: "store_ok h n w ad" and n: "0 < w pi"
  shows "\<exists>h'. weak_release pi h = Some h' \<and> store_ok h' n (w(pi := w pi - 1)) ad \<and> deleted h' = deleted h"
proof -
  obtain b where b: "impls h pi = Some b" "unat (m_use_count b) = n pi" "unat (m_weak_count b) = w pi + (if 0 < n pi then 1 else 0)"
    by (rule store_okD [OF ok]) (use n in auto)
  have z: "m_weak_count b \<noteq> 0" using b(3) n by auto
  have u: "unat (m_weak_count b - 1) = unat (m_weak_count b) - 1" by (rule unat_sub_one [OF z])
  have one: "1 = m_weak_count b \<longleftrightarrow> w pi = 1 \<and> n pi = 0" using b(3) n by (auto simp: word_of_nat_unat_eq split: if_splits)
  define x where "x = (if 1 = m_weak_count b then None else Some (b\<lparr>m_weak_count := m_weak_count b - 1\<rparr>))"
  have "store_ok (h\<lparr>impls := (impls h)(pi := x), deleted := deleted h\<rparr>) (n(pi := n pi)) (w(pi := w pi - 1)) ad"
    by (rule store_upd [OF ok]) (use b u z n one in \<open>auto simp: counted_def x_def unat_eq_0 split: if_splits\<close>)
  then show ?thesis
    using b(1) by (simp add: weak_release_def base_weak_release_def destroy_def set_impl_def atomic_dec32_def x_def split: if_splits)
qed

lemma release_ok:
  assumes ok: "store_ok h n w ad" and n: "0 < n pi"
  shows "\<exists>h' b. release pi h = Some h' \<and> impls h pi = Some b \<and> store_ok h' (n(pi := n pi - 1)) w ad
    \<and> deleted h' = deleted h @ (if n pi = 1 then [im_ptr b] else [])"
proof -
  obtain b where b: "impls h pi = Some b" "unat (m_use_count b) = n pi" "unat (m_weak_count b) = w pi + (if 0 < n pi then 1 else 0)"
    by (rule store_okD [OF ok]) (use n in auto)
  have z: "m_use_count b \<noteq> 0" "m_weak_count b \<noteq> 0" using b(2,3) n by auto
  have u: "unat (m_use_count b - 1) = n pi - 1" "unat (m_weak_count b - 1) = w pi"
    using unat_sub_one [OF z(1)] unat_sub_one [OF z(2)] b(2,3) n by auto
  have one: "1 = m_use_count b \<longleftrightarrow> n pi = 1" using b(2) by (auto simp: word_of_nat_unat_eq)
  show ?thesis
  proof (cases "n pi = 1")
    case False
    then have nz: "m_use_count b - 1 \<noteq> 0" using u n by (auto simp flip: unat_eq_0)
    have "store_ok (h\<lparr>impls := (impls h)(pi := Some (b\<lparr>m_use_count := m_use_count b - 1\<rparr>)), deleted := deleted h\<rparr>)
        (n(pi := n pi - 1)) (w(pi := w pi)) ad"
      by (rule store_upd [OF ok]) (use b u z nz n False in \<open>auto simp: counted_def\<close>)
    then show ?thesis using False one b(1) by (simp add: release_def ref_release_def set_impl_def atomic_dec32_def)
  next
    case True
    then have use: "m_use_count b = 1" using one by simp
    have wone: "1 = m_weak_count b \<longleftrightarrow> w pi = 0" using b(3) True by (auto simp: word_of_nat_unat_eq)
    define x where "x = (if w pi = 0 then None else Some (b\<lparr>m_use_count := 0, m_weak_count := m_weak_count b - 1\<rparr>))"
    have "store_ok (h\<lparr>impls := (impls h)(pi := x), deleted := deleted h @ [im_ptr b]\<rparr>) (n(pi := n pi - 1)) (w(pi := w pi)) ad"
      by (rule store_upd [OF ok]) (use b u z n True use in \<open>auto simp: counted_def x_def\<close>)
    moreover have "release pi h = Some (h\<lparr>impls := (impls h)(pi := x), deleted := deleted h @ [im_ptr b]\<rparr>)"
      using b(1) use wone
      by (simp add: release_def ref_release_def dispose_def weak_release_def base_weak_release_def destroy_def set_impl_def
          atomic_dec32_def x_def)
    ultimately show ?thesis using b(1) True by simp
  qed
qed

lemma shared_count_ctor_ok:
  assumes ok: "store_ok h n w ad" and p: "p \<noteq> 0" and a: "\<And>pi. alloc h = Some pi \<Longrightarrow> pi \<noteq> 0 \<and> impls h pi = None"
  shows "case shared_count_ctor alloc p h of
      (h', Inl e) \<Rightarrow> e = bad_alloc \<and> store_ok h' n w (ad @ [p]) \<and> deleted h' = deleted h @ [p]
    | (h', Inr r) \<Rightarrow> m_px r = p \<and> m_pi r \<noteq> 0 \<and> n (m_pi r) = 0 \<and> w (m_pi r) = 0
        \<and> store_ok h' (n(m_pi r := 1)) w (ad @ [p]) \<and> deleted h' = deleted h"
proof (cases "alloc h")
  case None
  then show ?thesis using ok p by (simp add: shared_count_ctor_def store_ok_def)
next
  case (Some pi)
  then have pi: "pi \<noteq> 0" "impls h pi = None" using a by auto
  have nw: "n pi = 0" "w pi = 0" using ok pi(2) by (auto simp: store_ok_def counted_def split: option.splits dest: spec [of _ pi])
  have fin: "finite (dom (impls h))" and m: "mset ad = mset (deleted h) + owned (impls h)" using ok by (auto simp: store_ok_def)
  let ?b = "\<lparr>m_use_count = 1, m_weak_count = 1, im_ptr = p\<rparr>"
  have "owned ((impls h)(pi := Some ?b)) = add_mset p (owned (impls h))" using owned_upd [OF fin, of pi "Some ?b"] pi(2) by simp
  then have "store_ok (set_impl pi ?b h) (n(pi := 1)) w (ad @ [p])"
    using ok m nw by (simp add: store_ok_def set_impl_def counted_def)
  then show ?thesis using Some p pi nw by (simp add: shared_count_ctor_def set_impl_def)
qed

end
