(* ===== verification/Shared_Ptr.thy ===== *)
theory Shared_Ptr
  imports Shared_Count
begin

text \<open>
  The smart pointers shared\_ptr (smart\_ptr/shared\_ptr.hpp) and weak\_ptr (smart\_ptr/weak\_ptr.hpp) over the counts, and the
  programs that use them: variables that hold smart pointers and the sequences of operations on them. The object
  type is not derived from enable\_shared\_from\_this, and deleting an object does not use smart pointers of the
  program. The named argument of the move assignment is an lvalue, so the assignment copies, as compiled for C++11.
\<close>

section \<open>shared\_ptr\<close>

definition shared_ptr_ctor :: "(sp_store \<Rightarrow> nat option) \<Rightarrow> nat \<Rightarrow> sp_store \<Rightarrow> sp_store \<times> shared_count result" where
  "shared_ptr_ctor alloc p h = shared_count_ctor alloc p h"

definition shared_ptr_copy :: "shared_count \<Rightarrow> sp_store \<Rightarrow> (sp_store \<times> shared_count) option" where
  "shared_ptr_copy r h = shared_count_copy r h"

definition shared_ptr_alias :: "shared_count \<Rightarrow> nat \<Rightarrow> shared_count" where
  "shared_ptr_alias other p = shared_count_alias other p"

definition shared_ptr_from_weak :: "weak_count \<Rightarrow> sp_store \<Rightarrow> (sp_store \<times> shared_count result) option" where
  "shared_ptr_from_weak r h = shared_count_from_weak r h"

text \<open>The new pointer and what is left in the other.\<close>

definition shared_ptr_move :: "shared_count \<Rightarrow> shared_count \<times> shared_count" where
  "shared_ptr_move other = (other, no_ref)"

definition shared_ptr_cast :: "nat \<Rightarrow> shared_count \<Rightarrow> sp_store \<Rightarrow> (sp_store \<times> shared_count) option" where
  "shared_ptr_cast ptr r h = shared_count_cast ptr r h"

text \<open>\<open>ptr\<close> is the result of the cast of the object pointer, 0 if it failed.\<close>

definition shared_ptr_dynamic_cast :: "nat \<Rightarrow> shared_count \<Rightarrow> sp_store \<Rightarrow> (sp_store \<times> shared_count) option" where
  "shared_ptr_dynamic_cast ptr r h =
     do { (h, m_pn) \<leftarrow> shared_count_cast ptr r h;
          if m_px m_pn = 0 then shared_count_assign m_pn no_ref h else Some (h, m_pn) }"

definition shared_ptr_assign :: "shared_count \<Rightarrow> shared_count \<Rightarrow> sp_store \<Rightarrow> (sp_store \<times> shared_count) option" where
  "shared_ptr_assign this r h = shared_count_assign this r h"

definition shared_ptr_move_assign :: "shared_count \<Rightarrow> shared_count \<Rightarrow> sp_store \<Rightarrow> (sp_store \<times> shared_count) option" where
  "shared_ptr_move_assign this other h =
     do { (h, tmp) \<leftarrow> shared_ptr_copy other h; h \<leftarrow> shared_count_dtor this h; Some (h, tmp) }"

definition shared_ptr_reset :: "shared_count \<Rightarrow> sp_store \<Rightarrow> (sp_store \<times> shared_count) option" where
  "shared_ptr_reset this h = do { h \<leftarrow> shared_count_dtor this h; Some (h, no_ref) }"

definition shared_ptr_reset_ptr ::
  "(sp_store \<Rightarrow> nat option) \<Rightarrow> shared_count \<Rightarrow> nat \<Rightarrow> sp_store \<Rightarrow> (sp_store \<times> shared_count result) option" where
  "shared_ptr_reset_ptr alloc this p h =
     (case shared_ptr_ctor alloc p h of
        (h, Inl e) \<Rightarrow> Some (h, Inl e)
      | (h, Inr tmp) \<Rightarrow> do { h \<leftarrow> shared_count_dtor this h; Some (h, Inr tmp) })"

text \<open>The reset that takes over the ownership of another pointer goes through the aliasing constructor.\<close>

definition shared_ptr_reset_alias :: "shared_count \<Rightarrow> shared_count \<Rightarrow> nat \<Rightarrow> sp_store \<Rightarrow> (sp_store \<times> shared_count) option" where
  "shared_ptr_reset_alias this r p h = do { h \<leftarrow> shared_count_dtor this h; Some (h, shared_ptr_alias r p) }"

definition shared_ptr_use_count :: "shared_count \<Rightarrow> sp_store \<Rightarrow> nat option" where
  "shared_ptr_use_count r h = count_use_count r h"

definition shared_ptr_unique :: "shared_count \<Rightarrow> sp_store \<Rightarrow> bool option" where
  "shared_ptr_unique r h = map_option (\<lambda>c. c = 1) (count_use_count r h)"

section \<open>weak\_ptr\<close>

definition weak_ptr_expired :: "weak_count \<Rightarrow> sp_store \<Rightarrow> bool option" where
  "weak_ptr_expired r h = map_option (\<lambda>c. c = 0) (count_use_count r h)"

definition weak_ptr_lock :: "weak_count \<Rightarrow> sp_store \<Rightarrow> (sp_store \<times> shared_count) option" where
  "weak_ptr_lock r h =
     do { ex \<leftarrow> weak_ptr_expired r h;
          if ex then Some (h, no_ref)
          else do { (h, res) \<leftarrow> shared_ptr_from_weak r h; Some (h, case res of Inl e \<Rightarrow> no_ref | Inr s \<Rightarrow> s) } }"

text \<open>The converting copy keeps the object alive while it takes the pointer over.\<close>

definition weak_ptr_conv :: "weak_count \<Rightarrow> sp_store \<Rightarrow> (sp_store \<times> weak_count) option" where
  "weak_ptr_conv r h =
     do { (h, m_pn) \<leftarrow> weak_count_copy r h;
          (h, ref) \<leftarrow> weak_ptr_lock r h;
          h \<leftarrow> shared_count_dtor ref h;
          Some (h, m_pn\<lparr>m_px := m_px ref\<rparr>) }"

definition weak_ptr_assign_conv :: "weak_count \<Rightarrow> weak_count \<Rightarrow> sp_store \<Rightarrow> (sp_store \<times> weak_count) option" where
  "weak_ptr_assign_conv this r h =
     do { (h, ref) \<leftarrow> weak_ptr_lock r h;
          (h, m_pn) \<leftarrow> weak_count_assign_conv this r h;
          h \<leftarrow> shared_count_dtor ref h;
          Some (h, m_pn\<lparr>m_px := m_px ref\<rparr>) }"

definition weak_ptr_from_shared :: "shared_count \<Rightarrow> sp_store \<Rightarrow> (sp_store \<times> weak_count) option" where
  "weak_ptr_from_shared r h = weak_count_copy r h"

definition weak_ptr_assign_shared :: "weak_count \<Rightarrow> shared_count \<Rightarrow> sp_store \<Rightarrow> (sp_store \<times> weak_count) option" where
  "weak_ptr_assign_shared this r h = weak_count_assign this r h"

definition weak_ptr_reset :: "weak_count \<Rightarrow> sp_store \<Rightarrow> (sp_store \<times> weak_count) option" where
  "weak_ptr_reset this h = do { h \<leftarrow> weak_count_dtor this h; Some (h, no_ref) }"

section \<open>Programs\<close>

datatype sp_op =
    Make nat nat | Make_copy nat nat | Make_alias nat nat nat | Make_cast nat nat nat | Make_dynamic_cast nat nat nat | Make_move nat nat
  | Make_lock nat nat | Make_from_weak nat nat | Assign nat nat | Move_assign nat nat | Reset nat | Reset_ptr nat nat
  | Reset_alias nat nat nat | Swap nat nat | Drop nat
  | Weak_copy nat nat | Weak_conv nat nat | Weak_from nat nat | Weak_assign nat nat | Weak_assign_conv nat nat
  | Weak_assign_shared nat nat | Weak_reset nat | Weak_swap nat nat | Weak_drop nat

text \<open>The variables, and as a record of the program the objects given to smart pointers.\<close>

record sp_state =
  sp_heap :: sp_store
  sh :: "nat \<rightharpoonup> shared_count"
  wk :: "nat \<rightharpoonup> weak_count"
  adopted :: "nat list"

definition put_sh :: "nat \<Rightarrow> sp_state \<Rightarrow> sp_store \<times> shared_count \<Rightarrow> sp_state option" where
  "put_sh v st = (\<lambda>(h, r). Some (st\<lparr>sp_heap := h, sh := (sh st)(v \<mapsto> r)\<rparr>))"

definition put_wk :: "nat \<Rightarrow> sp_state \<Rightarrow> sp_store \<times> weak_count \<Rightarrow> sp_state option" where
  "put_wk v st = (\<lambda>(h, r). Some (st\<lparr>sp_heap := h, wk := (wk st)(v \<mapsto> r)\<rparr>))"

text \<open>An exception leaves the variable as it was.\<close>

definition put_result :: "nat \<Rightarrow> sp_state \<Rightarrow> sp_store \<times> shared_count result \<Rightarrow> sp_state option" where
  "put_result v st = (\<lambda>(h, res). case res of Inl e \<Rightarrow> Some (st\<lparr>sp_heap := h\<rparr>) | Inr r \<Rightarrow> put_sh v st (h, r))"

definition adopt :: "nat \<Rightarrow> sp_state \<Rightarrow> sp_state" where
  "adopt p st = st\<lparr>adopted := adopted st @ (if p = 0 then [] else [p])\<rparr>"

fun sp_exec :: "(sp_store \<Rightarrow> nat option) \<Rightarrow> sp_op \<Rightarrow> sp_state \<Rightarrow> sp_state option" where
  "sp_exec alloc (Make v p) st = put_result v (adopt p st) (shared_ptr_ctor alloc p (sp_heap st))"
| "sp_exec alloc (Make_copy v u) st = do { r \<leftarrow> sh st u; shared_ptr_copy r (sp_heap st) \<bind> put_sh v st }"
| "sp_exec alloc (Make_alias v u p) st = do { r \<leftarrow> sh st u; put_sh v st (sp_heap st, shared_ptr_alias r p) }"
| "sp_exec alloc (Make_cast v u p) st = do { r \<leftarrow> sh st u; shared_ptr_cast p r (sp_heap st) \<bind> put_sh v st }"
| "sp_exec alloc (Make_dynamic_cast v u p) st = do { r \<leftarrow> sh st u; shared_ptr_dynamic_cast p r (sp_heap st) \<bind> put_sh v st }"
| "sp_exec alloc (Make_move v u) st =
     do { r \<leftarrow> sh st u; let (new, old) = shared_ptr_move r in Some (st\<lparr>sh := (sh st)(u \<mapsto> old, v \<mapsto> new)\<rparr>) }"
| "sp_exec alloc (Make_lock v u) st = do { r \<leftarrow> wk st u; weak_ptr_lock r (sp_heap st) \<bind> put_sh v st }"
| "sp_exec alloc (Make_from_weak v u) st = do { r \<leftarrow> wk st u; shared_ptr_from_weak r (sp_heap st) \<bind> put_result v st }"
| "sp_exec alloc (Assign v u) st =
     do { a \<leftarrow> sh st v; r \<leftarrow> sh st u; shared_ptr_assign a r (sp_heap st) \<bind> put_sh v st }"
| "sp_exec alloc (Move_assign v u) st =
     do { a \<leftarrow> sh st v; r \<leftarrow> sh st u; shared_ptr_move_assign a r (sp_heap st) \<bind> put_sh v st }"
| "sp_exec alloc (Reset v) st = do { a \<leftarrow> sh st v; shared_ptr_reset a (sp_heap st) \<bind> put_sh v st }"
| "sp_exec alloc (Reset_ptr v p) st =
     do { a \<leftarrow> sh st v; shared_ptr_reset_ptr alloc a p (sp_heap st) \<bind> put_result v (adopt p st) }"
| "sp_exec alloc (Reset_alias v u p) st =
     do { a \<leftarrow> sh st v; r \<leftarrow> sh st u; shared_ptr_reset_alias a r p (sp_heap st) \<bind> put_sh v st }"
| "sp_exec alloc (Swap v u) st = do { a \<leftarrow> sh st v; r \<leftarrow> sh st u; Some (st\<lparr>sh := (sh st)(v \<mapsto> r, u \<mapsto> a)\<rparr>) }"
| "sp_exec alloc (Drop v) st =
     do { a \<leftarrow> sh st v; h \<leftarrow> shared_count_dtor a (sp_heap st); Some (st\<lparr>sp_heap := h, sh := (sh st)(v := None)\<rparr>) }"
| "sp_exec alloc (Weak_copy v u) st = do { r \<leftarrow> wk st u; weak_count_copy r (sp_heap st) \<bind> put_wk v st }"
| "sp_exec alloc (Weak_conv v u) st = do { r \<leftarrow> wk st u; weak_ptr_conv r (sp_heap st) \<bind> put_wk v st }"
| "sp_exec alloc (Weak_from v u) st = do { r \<leftarrow> sh st u; weak_ptr_from_shared r (sp_heap st) \<bind> put_wk v st }"
| "sp_exec alloc (Weak_assign v u) st =
     do { a \<leftarrow> wk st v; r \<leftarrow> wk st u; weak_count_assign a r (sp_heap st) \<bind> put_wk v st }"
| "sp_exec alloc (Weak_assign_conv v u) st =
     do { a \<leftarrow> wk st v; r \<leftarrow> wk st u; weak_ptr_assign_conv a r (sp_heap st) \<bind> put_wk v st }"
| "sp_exec alloc (Weak_assign_shared v u) st =
     do { a \<leftarrow> wk st v; r \<leftarrow> sh st u; weak_ptr_assign_shared a r (sp_heap st) \<bind> put_wk v st }"
| "sp_exec alloc (Weak_reset v) st = do { a \<leftarrow> wk st v; weak_ptr_reset a (sp_heap st) \<bind> put_wk v st }"
| "sp_exec alloc (Weak_swap v u) st = do { a \<leftarrow> wk st v; r \<leftarrow> wk st u; Some (st\<lparr>wk := (wk st)(v \<mapsto> r, u \<mapsto> a)\<rparr>) }"
| "sp_exec alloc (Weak_drop v) st =
     do { a \<leftarrow> wk st v; h \<leftarrow> weak_count_dtor a (sp_heap st); Some (st\<lparr>sp_heap := h, wk := (wk st)(v := None)\<rparr>) }"

text \<open>A new variable is new, and the variables that are used exist.\<close>

fun sp_valid :: "sp_op \<Rightarrow> sp_state \<Rightarrow> bool" where
  "sp_valid (Make v p) st = (v \<notin> dom (sh st))"
| "sp_valid (Make_copy v u) st = (v \<notin> dom (sh st) \<and> u \<in> dom (sh st))"
| "sp_valid (Make_alias v u p) st = (v \<notin> dom (sh st) \<and> u \<in> dom (sh st))"
| "sp_valid (Make_cast v u p) st = (v \<notin> dom (sh st) \<and> u \<in> dom (sh st))"
| "sp_valid (Make_dynamic_cast v u p) st = (v \<notin> dom (sh st) \<and> u \<in> dom (sh st))"
| "sp_valid (Make_move v u) st = (v \<notin> dom (sh st) \<and> u \<in> dom (sh st))"
| "sp_valid (Make_lock v u) st = (v \<notin> dom (sh st) \<and> u \<in> dom (wk st))"
| "sp_valid (Make_from_weak v u) st = (v \<notin> dom (sh st) \<and> u \<in> dom (wk st))"
| "sp_valid (Assign v u) st = (v \<in> dom (sh st) \<and> u \<in> dom (sh st))"
| "sp_valid (Move_assign v u) st = (v \<in> dom (sh st) \<and> u \<in> dom (sh st))"
| "sp_valid (Reset v) st = (v \<in> dom (sh st))"
| "sp_valid (Reset_ptr v p) st = (v \<in> dom (sh st))"
| "sp_valid (Reset_alias v u p) st = (v \<in> dom (sh st) \<and> u \<in> dom (sh st))"
| "sp_valid (Swap v u) st = (v \<in> dom (sh st) \<and> u \<in> dom (sh st))"
| "sp_valid (Drop v) st = (v \<in> dom (sh st))"
| "sp_valid (Weak_copy v u) st = (v \<notin> dom (wk st) \<and> u \<in> dom (wk st))"
| "sp_valid (Weak_conv v u) st = (v \<notin> dom (wk st) \<and> u \<in> dom (wk st))"
| "sp_valid (Weak_from v u) st = (v \<notin> dom (wk st) \<and> u \<in> dom (sh st))"
| "sp_valid (Weak_assign v u) st = (v \<in> dom (wk st) \<and> u \<in> dom (wk st))"
| "sp_valid (Weak_assign_conv v u) st = (v \<in> dom (wk st) \<and> u \<in> dom (wk st))"
| "sp_valid (Weak_assign_shared v u) st = (v \<in> dom (wk st) \<and> u \<in> dom (sh st))"
| "sp_valid (Weak_reset v) st = (v \<in> dom (wk st))"
| "sp_valid (Weak_swap v u) st = (v \<in> dom (wk st) \<and> u \<in> dom (wk st))"
| "sp_valid (Weak_drop v) st = (v \<in> dom (wk st))"

definition sp_start :: sp_state where
  "sp_start = \<lparr>sp_heap = \<lparr>impls = Map.empty, deleted = []\<rparr>, sh = Map.empty, wk = Map.empty, adopted = []\<rparr>"

text \<open>The counts are 32 bits wide: there are fewer than \<open>2 ^ 32 - 2\<close> shared and \<open>2 ^ 32 - 3\<close> weak pointers.\<close>

definition few :: "sp_state \<Rightarrow> bool" where
  "few st \<longleftrightarrow> card (dom (sh st)) + 2 < 2 ^ 32 \<and> card (dom (wk st)) + 3 < 2 ^ 32"

text \<open>The allocator returns memory that is not in use, or throws.\<close>

definition alloc_ok :: "(sp_store \<Rightarrow> nat option) \<Rightarrow> bool" where
  "alloc_ok alloc \<longleftrightarrow> (\<forall>h pi. alloc h = Some pi \<longrightarrow> pi \<noteq> 0 \<and> impls h pi = None)"

text \<open>
  The aliasing constructor, and \<^verbatim>\<open>reset(r, p)\<close> through it, do not count the new pointer: with them a program deletes
  an object that is still owned and reads freed memory. \<open>sp_reach\<close> are the states of the programs that use neither
  of them on a pointer that owns something.
\<close>

fun counted_op :: "sp_op \<Rightarrow> sp_state \<Rightarrow> bool" where
  "counted_op (Make_alias v u p) st = (\<forall>r. sh st u = Some r \<longrightarrow> m_pi r = 0)"
| "counted_op (Reset_alias v u p) st = (\<forall>r. sh st u = Some r \<longrightarrow> m_pi r = 0)"
| "counted_op op st = True"

inductive sp_reach :: "(sp_store \<Rightarrow> nat option) \<Rightarrow> sp_state \<Rightarrow> bool" for alloc where
  start: "sp_reach alloc sp_start"
| step: "sp_reach alloc st \<Longrightarrow> few st \<Longrightarrow> sp_valid op st \<Longrightarrow> counted_op op st \<Longrightarrow> sp_exec alloc op st = Some st' \<Longrightarrow> sp_reach alloc st'"

end
