(* ===== verification/Shared_Ptr_Props.thy ===== *)
theory Shared_Ptr_Props
  imports Shared_Ptr
begin

text \<open>
  What the smart pointers promise to every program: no operation touches a control block that is gone, the counts
  are the numbers of smart pointers, an object is deleted exactly once, when its last shared pointer goes, and no control
  block is left behind. The aliasing constructor is the exception.
\<close>

section \<open>References held by variables\<close>

definition ref :: "counted_ref option \<Rightarrow> nat \<Rightarrow> nat" where
  "ref x pi = (case x of None \<Rightarrow> 0 | Some r \<Rightarrow> if m_pi r = pi \<and> pi \<noteq> 0 then 1 else 0)"

definition rc :: "(nat \<rightharpoonup> counted_ref) \<Rightarrow> nat \<Rightarrow> nat" where
  "rc f pi = card {v. ref (f v) pi = 1}"

lemma no_ref_simps [simp]: "m_pi no_ref = 0" "m_px no_ref = 0"
  by (simp_all add: no_ref_def)

lemma counted_ref_eta [simp]: "\<lparr>m_px = m_px r, m_pi = m_pi r\<rparr> = (r :: counted_ref)"
  by simp

lemma ref_simps [simp]: "ref None pi = 0" "ref (Some no_ref) pi = 0" "ref x 0 = 0" "m_pi r = 0 \<Longrightarrow> ref (Some r) pi = 0"
  "m_pi r \<noteq> 0 \<Longrightarrow> ref (Some r) (m_pi r) = 1"
  by (auto simp: ref_def no_ref_def split: option.splits)

lemma ref_Some: "ref (Some r) pi = (if m_pi r = pi \<and> pi \<noteq> 0 then 1 else 0)"
  by (simp add: ref_def)

lemma ref_le_1: "ref x pi \<le> 1"
  by (simp add: ref_def split: option.splits)

lemma ref_same [simp]: "ref (Some \<lparr>m_px = p, m_pi = m_pi r\<rparr>) = ref (Some r)" "ref (Some (r\<lparr>m_px := p\<rparr>)) = ref (Some r)"
  "ref (Some (a\<lparr>m_pi := m_pi r\<rparr>)) = ref (Some r)"
  by (auto simp: fun_eq_iff ref_Some)

lemma rc_finite: "finite (dom f) \<Longrightarrow> finite {v. ref (f v) pi = 1}"
  by (erule rev_finite_subset) (auto simp: ref_def split: option.splits)

lemma rc_upd:
  assumes "finite (dom f)"
  shows "rc (f(v := x)) pi + ref (f v) pi = rc f pi + ref x pi"
proof -
  let ?A = "{u. ref (f u) pi = 1} - {v}"
  have fin: "finite ?A" using rc_finite [OF assms] by simp
  have c: "rc g pi = card ?A + ref (g v) pi" if "\<And>u. u \<noteq> v \<Longrightarrow> g u = f u" for g
  proof (cases "ref (g v) pi = 1")
    case True
    have "x \<in> {u. ref (g u) pi = 1} \<longleftrightarrow> x \<in> insert v ?A" for x using that [of x] True by (cases "x = v") auto
    then have "{u. ref (g u) pi = 1} = insert v ?A" by blast
    then show ?thesis using True fin by (simp add: rc_def card.insert_remove)
  next
    case False
    then have "x \<in> {u. ref (g u) pi = 1} \<longleftrightarrow> x \<in> ?A" for x using that [of x] by (cases "x = v") auto
    then have "{u. ref (g u) pi = 1} = ?A" by blast
    then show ?thesis using False ref_le_1 [of "g v" pi] by (simp add: rc_def)
  qed
  show ?thesis using c [of f] c [of "f(v := x)"] by simp
qed

lemma rc_new: "finite (dom f) \<Longrightarrow> v \<notin> dom f \<Longrightarrow> rc (f(v \<mapsto> r)) pi = rc f pi + ref (Some r) pi"
  using rc_upd [of f v "Some r" pi] by (simp add: domIff)

lemma rc_le: "finite (dom f) \<Longrightarrow> rc f pi \<le> card (dom f)"
  unfolding rc_def by (rule card_mono) (auto simp: ref_def split: option.splits)

lemma rc_held: "finite (dom f) \<Longrightarrow> f v = Some r \<Longrightarrow> m_pi r \<noteq> 0 \<Longrightarrow> 0 < rc f (m_pi r)"
  using rc_upd [of f v None "m_pi r"] by simp

lemma rc_empty [simp]: "rc Map.empty pi = 0"
  by (simp add: rc_def)

section \<open>The operations on the counts\<close>

lemma add_ok:
  assumes "store_ok h n w ad" "m_pi r \<noteq> 0 \<Longrightarrow> 0 < n (m_pi r) \<and> n (m_pi r) + 1 < 2 ^ 32"
  shows "\<exists>h'. when_counted add_ref_copy r h = Some h' \<and> store_ok h' (\<lambda>pi. n pi + ref (Some r) pi) w ad"
proof (cases "m_pi r = 0")
  case True
  then show ?thesis using assms(1) by (simp add: when_counted_def)
next
  case False
  moreover have "n(m_pi r := n (m_pi r) + 1) = (\<lambda>pi. n pi + ref (Some r) pi)" using False by (auto simp: fun_eq_iff ref_Some)
  ultimately show ?thesis using add_ref_copy_ok [OF assms(1), of "m_pi r"] assms(2) by (auto simp: when_counted_def)
qed

lemma drop_ok:
  assumes "store_ok h n w ad" "m_pi r \<noteq> 0 \<Longrightarrow> 0 < n (m_pi r)"
  shows "\<exists>h'. when_counted release r h = Some h' \<and> store_ok h' (\<lambda>pi. n pi - ref (Some r) pi) w ad"
proof (cases "m_pi r = 0")
  case True
  then show ?thesis using assms(1) by (simp add: when_counted_def)
next
  case False
  moreover have "n(m_pi r := n (m_pi r) - 1) = (\<lambda>pi. n pi - ref (Some r) pi)" using False by (auto simp: fun_eq_iff ref_Some)
  ultimately show ?thesis using release_ok [OF assms(1), of "m_pi r"] assms(2) by (auto simp: when_counted_def)
qed

lemma weak_add_ok:
  assumes "store_ok h n w ad" "m_pi r \<noteq> 0 \<Longrightarrow> 0 < n (m_pi r) + w (m_pi r) \<and> w (m_pi r) + 2 < 2 ^ 32"
  shows "\<exists>h'. when_counted weak_add_ref r h = Some h' \<and> store_ok h' n (\<lambda>pi. w pi + ref (Some r) pi) ad"
proof (cases "m_pi r = 0")
  case True
  then show ?thesis using assms(1) by (simp add: when_counted_def)
next
  case False
  moreover have "w(m_pi r := w (m_pi r) + 1) = (\<lambda>pi. w pi + ref (Some r) pi)" using False by (auto simp: fun_eq_iff ref_Some)
  ultimately show ?thesis using weak_add_ref_ok [OF assms(1), of "m_pi r"] assms(2) by (auto simp: when_counted_def)
qed

lemma weak_drop_ok:
  assumes "store_ok h n w ad" "m_pi r \<noteq> 0 \<Longrightarrow> 0 < w (m_pi r)"
  shows "\<exists>h'. when_counted weak_release r h = Some h' \<and> store_ok h' n (\<lambda>pi. w pi - ref (Some r) pi) ad"
proof (cases "m_pi r = 0")
  case True
  then show ?thesis using assms(1) by (simp add: when_counted_def)
next
  case False
  moreover have "w(m_pi r := w (m_pi r) - 1) = (\<lambda>pi. w pi - ref (Some r) pi)" using False by (auto simp: fun_eq_iff ref_Some)
  ultimately show ?thesis using weak_release_ok [OF assms(1), of "m_pi r"] assms(2) by (auto simp: when_counted_def)
qed

lemma use_count_ok:
  assumes "store_ok h n w ad" "m_pi r \<noteq> 0 \<Longrightarrow> 0 < n (m_pi r) + w (m_pi r)"
  shows "count_use_count r h = Some (if m_pi r = 0 then 0 else n (m_pi r))"
proof (cases "m_pi r = 0")
  case False
  then show ?thesis using store_okD [OF assms(1) assms(2)] by (auto simp: count_use_count_def base_use_count_def)
qed (simp add: count_use_count_def)

definition locked :: "(nat \<Rightarrow> nat) \<Rightarrow> weak_count \<Rightarrow> shared_count" where
  "locked n r = (if m_pi r \<noteq> 0 \<and> 0 < n (m_pi r) then r else no_ref)"

lemma from_weak_ok:
  assumes ok: "store_ok h n w ad" and r: "m_pi r \<noteq> 0 \<Longrightarrow> 0 < n (m_pi r) + w (m_pi r) \<and> n (m_pi r) + 1 < 2 ^ 32"
  shows "\<exists>h'. shared_ptr_from_weak r h = Some (h', if locked n r = no_ref then Inl bad_weak_ptr else Inr r)
    \<and> store_ok h' (\<lambda>pi. n pi + ref (Some (locked n r)) pi) w ad"
proof (cases "m_pi r = 0")
  case True
  then show ?thesis using ok by (simp add: shared_ptr_from_weak_def shared_count_from_weak_def locked_def)
next
  case False
  obtain h' where h': "add_ref_lock (m_pi r) h = Some (h', 0 < n (m_pi r))"
      "store_ok h' (if 0 < n (m_pi r) then n(m_pi r := n (m_pi r) + 1) else n) w ad"
    using add_ref_lock_ok [OF ok, of "m_pi r"] r [OF False] by auto
  have "r \<noteq> no_ref" using False by (auto simp: no_ref_def)
  moreover have "(if 0 < n (m_pi r) then n(m_pi r := n (m_pi r) + 1) else n) = (\<lambda>pi. n pi + ref (Some (locked n r)) pi)"
    using False by (auto simp: locked_def fun_eq_iff ref_Some)
  ultimately show ?thesis using h' False by (simp add: shared_ptr_from_weak_def shared_count_from_weak_def locked_def)
qed

lemma lock_ok:
  assumes ok: "store_ok h n w ad" and r: "m_pi r \<noteq> 0 \<Longrightarrow> 0 < n (m_pi r) + w (m_pi r) \<and> n (m_pi r) + 1 < 2 ^ 32"
  shows "\<exists>h'. weak_ptr_lock r h = Some (h', locked n r) \<and> store_ok h' (\<lambda>pi. n pi + ref (Some (locked n r)) pi) w ad"
proof -
  have c: "count_use_count r h = Some (if m_pi r = 0 then 0 else n (m_pi r))" by (rule use_count_ok [OF ok]) (use r in auto)
  show ?thesis
  proof (cases "locked n r = no_ref")
    case True
    then have "(if m_pi r = 0 then 0 else n (m_pi r)) = 0" by (auto simp: locked_def no_ref_def split: if_splits)
    then show ?thesis using True c ok by (simp add: weak_ptr_lock_def weak_ptr_expired_def)
  next
    case False
    then have "m_pi r \<noteq> 0" "0 < n (m_pi r)" "locked n r = r" by (auto simp: locked_def split: if_splits)
    then show ?thesis using from_weak_ok [OF ok r] False c by (auto simp: weak_ptr_lock_def weak_ptr_expired_def)
  qed
qed

section \<open>Programs keep the counts\<close>

definition sp_inv :: "sp_state \<Rightarrow> bool" where
  "sp_inv st \<longleftrightarrow> finite (dom (sh st)) \<and> finite (dom (wk st)) \<and> store_ok (sp_heap st) (rc (sh st)) (rc (wk st)) (adopted st)"

lemma store_ok_cong: "store_ok h n w ad \<Longrightarrow> (\<And>pi. n' pi = n pi) \<Longrightarrow> (\<And>pi. w' pi = w pi) \<Longrightarrow> store_ok h n' w' ad"
  by (simp add: store_ok_def)

text \<open>A variable takes over a reference that was counted for it.\<close>

lemma put_sh_inv:
  assumes i: "sp_inv st" and ok: "store_ok h n (rc (wk st)) (adopted st)"
    and n: "\<And>pi. n pi + ref (sh st v) pi = rc (sh st) pi + ref x pi"
  shows "sp_inv (st\<lparr>sp_heap := h, sh := (sh st)(v := x)\<rparr>)"
proof -
  have f: "finite (dom (sh st))" "finite (dom (wk st))" using i by (simp_all add: sp_inv_def)
  have "rc ((sh st)(v := x)) pi = n pi" for pi using rc_upd [OF f(1), of v x pi] n [of pi] by linarith
  then have "store_ok h (rc ((sh st)(v := x))) (rc (wk st)) (adopted st)" by (rule store_ok_cong [OF ok]) simp
  then show ?thesis using f by (auto simp: sp_inv_def)
qed

lemma put_wk_inv:
  assumes i: "sp_inv st" and ok: "store_ok h (rc (sh st)) w (adopted st)"
    and w: "\<And>pi. w pi + ref (wk st v) pi = rc (wk st) pi + ref x pi"
  shows "sp_inv (st\<lparr>sp_heap := h, wk := (wk st)(v := x)\<rparr>)"
proof -
  have f: "finite (dom (sh st))" "finite (dom (wk st))" using i by (simp_all add: sp_inv_def)
  have "rc ((wk st)(v := x)) pi = w pi" for pi using rc_upd [OF f(2), of v x pi] w [of pi] by linarith
  then have "store_ok h (rc (sh st)) (rc ((wk st)(v := x))) (adopted st)" by (rule store_ok_cong [OF ok refl])
  then show ?thesis using f by (auto simp: sp_inv_def)
qed

text \<open>What a variable gives an operation to rely on.\<close>

lemma held:
  assumes i: "sp_inv st" and f: "few st"
  shows "sh st v = Some r \<Longrightarrow> m_pi r \<noteq> 0 \<Longrightarrow> 0 < rc (sh st) (m_pi r)" "wk st v = Some r \<Longrightarrow> m_pi r \<noteq> 0 \<Longrightarrow> 0 < rc (wk st) (m_pi r)"
    "rc (sh st) pi + 2 < 2 ^ 32" "rc (wk st) pi + 3 < 2 ^ 32"
  using i f rc_held [of "sh st"] rc_held [of "wk st"] rc_le [of "sh st" pi] rc_le [of "wk st" pi]
  by (auto simp: sp_inv_def few_def)

text \<open>The operations return, and the counts follow the variables.\<close>

lemmas sp_fold = shared_ptr_copy_def shared_count_copy_def shared_ptr_cast_def shared_count_cast_def shared_count_dtor_def
  weak_count_copy_def weak_count_dtor_def put_sh_def put_wk_def weak_ptr_from_shared_def shared_ptr_reset_def weak_ptr_reset_def

lemma copy_exec:
  assumes i: "sp_inv st" "few st" and v: "v \<notin> dom (sh st)" and r: "sh st u = Some r"
  shows "\<exists>st'. shared_ptr_copy r (sp_heap st) \<bind> put_sh v st = Some st' \<and> sp_inv st'"
    and "\<exists>st'. shared_ptr_cast p r (sp_heap st) \<bind> put_sh v st = Some st' \<and> sp_inv st'"
proof -
  have ok: "store_ok (sp_heap st) (rc (sh st)) (rc (wk st)) (adopted st)" using i by (simp add: sp_inv_def)
  obtain h where h: "when_counted add_ref_copy r (sp_heap st) = Some h"
      "store_ok h (\<lambda>pi. rc (sh st) pi + ref (Some r) pi) (rc (wk st)) (adopted st)"
    using add_ok [OF ok, of r] held(1) [OF i r] held(3) [OF i, of "m_pi r"] by auto
  have "sp_inv (st\<lparr>sp_heap := h, sh := (sh st)(v := Some s)\<rparr>)" if "ref (Some s) = ref (Some r)" for s
    by (rule put_sh_inv [OF i(1) h(2)]) (use v that in \<open>simp add: domIff\<close>)
  then show "\<exists>st'. shared_ptr_copy r (sp_heap st) \<bind> put_sh v st = Some st' \<and> sp_inv st'"
    "\<exists>st'. shared_ptr_cast p r (sp_heap st) \<bind> put_sh v st = Some st' \<and> sp_inv st'"
    using h(1) by (simp_all add: sp_fold)
qed

lemma replaced_exec:
  assumes i: "sp_inv st" "few st" and a: "sh st v = Some a" and ok: "store_ok h (\<lambda>pi. rc (sh st) pi + ref (Some s) pi) (rc (wk st)) (adopted st)"
  shows "\<exists>h'. shared_count_dtor a h = Some h' \<and> sp_inv (st\<lparr>sp_heap := h', sh := (sh st)(v := Some s)\<rparr>)"
proof -
  have "m_pi a \<noteq> 0 \<Longrightarrow> 0 < rc (sh st) (m_pi a) + ref (Some s) (m_pi a)" using held(1) [OF i a] by simp
  then obtain h' where h': "when_counted release a h = Some h'"
      "store_ok h' (\<lambda>pi. rc (sh st) pi + ref (Some s) pi - ref (Some a) pi) (rc (wk st)) (adopted st)"
    using drop_ok [OF ok, of a] by auto
  have "ref (Some a) pi \<le> rc (sh st) pi" for pi using held(1) [OF i a] by (auto simp: ref_Some)
  then have "sp_inv (st\<lparr>sp_heap := h', sh := (sh st)(v := Some s)\<rparr>)"
    by (intro put_sh_inv [OF i(1) h'(2)]) (simp add: a le_add1 trans_le_add1)
  then show ?thesis using h'(1) by (simp add: shared_count_dtor_def)
qed

lemma assign_exec:
  assumes i: "sp_inv st" "few st" and a: "sh st v = Some a" and r: "sh st u = Some r"
  shows "\<exists>st'. shared_ptr_assign a r (sp_heap st) \<bind> put_sh v st = Some st' \<and> sp_inv st'"
    and "\<exists>st'. shared_ptr_move_assign a r (sp_heap st) \<bind> put_sh v st = Some st' \<and> sp_inv st'"
proof -
  have ok: "store_ok (sp_heap st) (rc (sh st)) (rc (wk st)) (adopted st)" using i by (simp add: sp_inv_def)
  obtain h where h: "when_counted add_ref_copy r (sp_heap st) = Some h"
      "store_ok h (\<lambda>pi. rc (sh st) pi + ref (Some r) pi) (rc (wk st)) (adopted st)"
    using add_ok [OF ok, of r] held(1) [OF i r] held(3) [OF i, of "m_pi r"] by auto
  obtain h' where h': "shared_count_dtor a h = Some h'" "sp_inv (st\<lparr>sp_heap := h', sh := (sh st)(v := Some r)\<rparr>)"
    using replaced_exec [OF i a h(2)] by blast
  show "\<exists>st'. shared_ptr_move_assign a r (sp_heap st) \<bind> put_sh v st = Some st' \<and> sp_inv st'"
    using h(1) h' by (simp add: shared_ptr_move_assign_def shared_ptr_copy_def shared_count_copy_def put_sh_def)
  show "\<exists>st'. shared_ptr_assign a r (sp_heap st) \<bind> put_sh v st = Some st' \<and> sp_inv st'"
  proof (cases "m_pi r = m_pi a")
    case True
    then have "ref (Some (a\<lparr>m_px := m_px r\<rparr>)) = ref (Some a)" by (simp add: fun_eq_iff ref_Some)
    then have "sp_inv (st\<lparr>sp_heap := sp_heap st, sh := (sh st)(v := Some (a\<lparr>m_px := m_px r\<rparr>))\<rparr>)"
      by (intro put_sh_inv [OF i(1) ok]) (simp add: a)
    then show ?thesis using True by (simp add: shared_ptr_assign_def shared_count_assign_def put_sh_def)
  next
    case False
    then show ?thesis using h(1) h'
      by (simp add: shared_ptr_assign_def shared_count_assign_def put_sh_def shared_count_dtor_def)
  qed
qed

lemma ctor_exec:
  assumes i: "sp_inv st" and a: "alloc_ok alloc"
  shows "case shared_ptr_ctor alloc p (sp_heap st) of
      (h, Inl e) \<Rightarrow> store_ok h (rc (sh st)) (rc (wk st)) (adopted (adopt p st))
    | (h, Inr r) \<Rightarrow> store_ok h (\<lambda>pi. rc (sh st) pi + ref (Some r) pi) (rc (wk st)) (adopted (adopt p st))"
proof (cases "p = 0")
  case True
  then show ?thesis using i by (simp add: shared_ptr_ctor_def shared_count_ctor_def adopt_def sp_inv_def)
next
  case False
  have ok: "store_ok (sp_heap st) (rc (sh st)) (rc (wk st)) (adopted st)" using i by (simp add: sp_inv_def)
  have al: "\<And>pi. alloc (sp_heap st) = Some pi \<Longrightarrow> pi \<noteq> 0 \<and> impls (sp_heap st) pi = None" using a by (auto simp: alloc_ok_def)
  have "(rc (sh st))(m_pi r := 1) = (\<lambda>pi. rc (sh st) pi + ref (Some r) pi)" if "m_pi r \<noteq> 0" "rc (sh st) (m_pi r) = 0" for r
    using that by (auto simp: fun_eq_iff ref_Some)
  then show ?thesis
    using shared_count_ctor_ok [OF ok False, of alloc, OF al] False by (auto simp: shared_ptr_ctor_def adopt_def split: prod.splits sum.splits)
qed

lemma adopt_simps [simp]: "sh (adopt p st) = sh st" "wk (adopt p st) = wk st" "sp_heap (adopt p st) = sp_heap st"
  by (simp_all add: adopt_def)

lemma sp_inv_adopt:
  assumes "sp_inv st" "store_ok h n (rc (wk st)) (adopted (adopt p st))" "\<And>pi. n pi + ref (sh st v) pi = rc (sh st) pi + ref x pi"
  shows "sp_inv ((adopt p st)\<lparr>sp_heap := h, sh := (sh st)(v := x)\<rparr>)"
proof -
  have "store_ok h (rc ((sh st)(v := x))) (rc (wk st)) (adopted (adopt p st))"
  proof (rule store_ok_cong [OF assms(2)])
    show "rc ((sh st)(v := x)) pi = n pi" for pi
      using rc_upd [of "sh st" v x pi] assms(1) assms(3) [of pi] by (simp add: sp_inv_def)
  qed simp
  then show ?thesis using assms(1) by (auto simp: sp_inv_def)
qed

lemma make_exec:
  assumes i: "sp_inv st" and a: "alloc_ok alloc" and v: "v \<notin> dom (sh st)"
  shows "\<exists>st'. put_result v (adopt p st) (shared_ptr_ctor alloc p (sp_heap st)) = Some st' \<and> sp_inv st'"
proof (cases "shared_ptr_ctor alloc p (sp_heap st)")
  case (Pair h res)
  show ?thesis
  proof (cases res)
    case (Inl e)
    have "sp_inv ((adopt p st)\<lparr>sp_heap := h\<rparr>)"
      using ctor_exec [OF i a, of p] Pair Inl i by (simp add: sp_inv_def)
    then show ?thesis using Pair Inl by (simp add: put_result_def)
  next
    case (Inr r)
    have "sp_inv ((adopt p st)\<lparr>sp_heap := h, sh := (sh st)(v := Some r)\<rparr>)"
      by (rule sp_inv_adopt [OF i]) (use ctor_exec [OF i a, of p] Pair Inr v in \<open>auto simp: domIff\<close>)
    then show ?thesis using Pair Inr by (simp add: put_result_def put_sh_def)
  qed
qed

lemma reset_ptr_exec:
  assumes i: "sp_inv st" "few st" and al: "alloc_ok alloc" and a: "sh st v = Some a"
  shows "\<exists>st'. shared_ptr_reset_ptr alloc a p (sp_heap st) \<bind> put_result v (adopt p st) = Some st' \<and> sp_inv st'"
proof (cases "shared_ptr_ctor alloc p (sp_heap st)")
  case (Pair h res)
  show ?thesis
  proof (cases res)
    case (Inl e)
    have "sp_inv ((adopt p st)\<lparr>sp_heap := h\<rparr>)"
      using ctor_exec [OF i(1) al, of p] Pair Inl i by (simp add: sp_inv_def)
    then show ?thesis using Pair Inl by (simp add: put_result_def shared_ptr_reset_ptr_def)
  next
    case (Inr r)
    have ok: "store_ok h (\<lambda>pi. rc (sh st) pi + ref (Some r) pi) (rc (wk st)) (adopted (adopt p st))"
      using ctor_exec [OF i(1) al, of p] Pair Inr by simp
    have h0: "m_pi a \<noteq> 0 \<Longrightarrow> 0 < rc (sh st) (m_pi a)" by (rule held(1) [OF i a])
    obtain h' where h': "when_counted release a h = Some h'"
        "store_ok h' (\<lambda>pi. rc (sh st) pi + ref (Some r) pi - ref (Some a) pi) (rc (wk st)) (adopted (adopt p st))"
      using drop_ok [OF ok, of a] h0 by auto
    have "ref (Some a) pi \<le> rc (sh st) pi" for pi using h0 by (auto simp: ref_Some)
    then have "sp_inv ((adopt p st)\<lparr>sp_heap := h', sh := (sh st)(v := Some r)\<rparr>)"
      by (intro sp_inv_adopt [OF i(1) h'(2)]) (simp add: a le_add1 trans_le_add1)
    then show ?thesis using Pair Inr h'(1) by (simp add: shared_ptr_reset_ptr_def shared_count_dtor_def put_result_def put_sh_def)
  qed
qed

lemma dynamic_cast_exec:
  assumes i: "sp_inv st" "few st" and v: "v \<notin> dom (sh st)" and r: "sh st u = Some r"
  shows "\<exists>st'. shared_ptr_dynamic_cast p r (sp_heap st) \<bind> put_sh v st = Some st' \<and> sp_inv st'"
proof (cases "p = 0")
  case False
  then show ?thesis using copy_exec(2) [OF i v r, of p]
    by (cases "when_counted add_ref_copy r (sp_heap st)") (auto simp: sp_fold shared_ptr_dynamic_cast_def)
next
  case True
  have ok: "store_ok (sp_heap st) (rc (sh st)) (rc (wk st)) (adopted st)" using i by (simp add: sp_inv_def)
  show ?thesis
  proof (cases "m_pi r = 0")
    case 0: True
    have "sp_inv (st\<lparr>sp_heap := sp_heap st, sh := (sh st)(v := Some \<lparr>m_px = 0, m_pi = 0\<rparr>)\<rparr>)"
      by (rule put_sh_inv [OF i(1) ok]) (use v in \<open>simp add: domIff\<close>)
    then show ?thesis using True 0 by (simp add: sp_fold shared_ptr_dynamic_cast_def shared_count_assign_def when_counted_def)
  next
    case pi: False
    obtain h where h: "when_counted add_ref_copy r (sp_heap st) = Some h"
        "store_ok h (\<lambda>pi. rc (sh st) pi + ref (Some r) pi) (rc (wk st)) (adopted st)"
      using add_ok [OF ok, of r] held(1) [OF i r] held(3) [OF i, of "m_pi r"] by auto
    let ?c = "\<lparr>m_px = 0, m_pi = m_pi r\<rparr>"
    obtain h' where h': "when_counted release ?c h = Some h'"
        "store_ok h' (\<lambda>pi. rc (sh st) pi + ref (Some r) pi - ref (Some ?c) pi) (rc (wk st)) (adopted st)"
      using drop_ok [OF h(2), of ?c] pi by auto
    have "sp_inv (st\<lparr>sp_heap := h', sh := (sh st)(v := Some no_ref)\<rparr>)"
      by (rule put_sh_inv [OF i(1) h'(2)]) (use v in \<open>simp add: domIff\<close>)
    then show ?thesis using True pi h(1) h'(1)
      by (simp add: sp_fold shared_ptr_dynamic_cast_def shared_count_assign_def) (simp add: when_counted_def no_ref_def)
  qed
qed

lemma reset_exec:
  assumes i: "sp_inv st" "few st" and a: "sh st v = Some a"
  shows "\<exists>st'. shared_ptr_reset a (sp_heap st) \<bind> put_sh v st = Some st' \<and> sp_inv st'"
    and "\<exists>h. shared_count_dtor a (sp_heap st) = Some h \<and> sp_inv (st\<lparr>sp_heap := h, sh := (sh st)(v := None)\<rparr>)"
proof -
  have ok: "store_ok (sp_heap st) (rc (sh st)) (rc (wk st)) (adopted st)" using i by (simp add: sp_inv_def)
  obtain h where h: "when_counted release a (sp_heap st) = Some h"
      "store_ok h (\<lambda>pi. rc (sh st) pi - ref (Some a) pi) (rc (wk st)) (adopted st)"
    using drop_ok [OF ok, of a] held(1) [OF i a] by auto
  have le: "ref (Some a) pi \<le> rc (sh st) pi" for pi using held(1) [OF i a] by (auto simp: ref_Some)
  have "sp_inv (st\<lparr>sp_heap := h, sh := (sh st)(v := x)\<rparr>)" if "\<And>pi. ref x pi = 0" for x
    by (rule put_sh_inv [OF i(1) h(2)]) (use le that in \<open>simp add: a\<close>)
  from this [of None] this [of "Some no_ref"] show "\<exists>st'. shared_ptr_reset a (sp_heap st) \<bind> put_sh v st = Some st' \<and> sp_inv st'"
    "\<exists>h. shared_count_dtor a (sp_heap st) = Some h \<and> sp_inv (st\<lparr>sp_heap := h, sh := (sh st)(v := None)\<rparr>)"
    using h(1) by (simp_all add: sp_fold)
qed

text \<open>An alias of a pointer that owns nothing.\<close>

lemma alias_exec:
  assumes i: "sp_inv st" "few st" and r: "m_pi r = 0"
  shows "v \<notin> dom (sh st) \<Longrightarrow> \<exists>st'. put_sh v st (sp_heap st, shared_ptr_alias r p) = Some st' \<and> sp_inv st'"
    and "sh st v = Some a \<Longrightarrow> \<exists>st'. shared_ptr_reset_alias a r p (sp_heap st) \<bind> put_sh v st = Some st' \<and> sp_inv st'"
proof -
  have ok: "store_ok (sp_heap st) (rc (sh st)) (rc (wk st)) (adopted st)" using i by (simp add: sp_inv_def)
  have z: "ref (Some (shared_ptr_alias r p)) pi = 0" for pi
    using r by (auto simp: ref_def shared_ptr_alias_def shared_count_alias_def)
  show "\<exists>st'. put_sh v st (sp_heap st, shared_ptr_alias r p) = Some st' \<and> sp_inv st'" if v: "v \<notin> dom (sh st)"
  proof -
    have "sp_inv (st\<lparr>sp_heap := sp_heap st, sh := (sh st)(v := Some (shared_ptr_alias r p))\<rparr>)"
      by (rule put_sh_inv [OF i(1) ok]) (use v z in \<open>simp add: domIff\<close>)
    then show ?thesis by (simp add: put_sh_def)
  qed
  show "\<exists>st'. shared_ptr_reset_alias a r p (sp_heap st) \<bind> put_sh v st = Some st' \<and> sp_inv st'" if a: "sh st v = Some a"
  proof -
    obtain h where h: "when_counted release a (sp_heap st) = Some h"
        "store_ok h (\<lambda>pi. rc (sh st) pi - ref (Some a) pi) (rc (wk st)) (adopted st)"
      using drop_ok [OF ok, of a] held(1) [OF i a] by auto
    have le: "ref (Some a) pi \<le> rc (sh st) pi" for pi using held(1) [OF i a] by (auto simp: ref_Some)
    have "sp_inv (st\<lparr>sp_heap := h, sh := (sh st)(v := Some (shared_ptr_alias r p))\<rparr>)"
      by (rule put_sh_inv [OF i(1) h(2)]) (use le z in \<open>simp add: a\<close>)
    then show ?thesis using h(1) by (simp add: shared_ptr_reset_alias_def shared_count_dtor_def put_sh_def)
  qed
qed

lemma rc_swap:
  assumes f: "finite (dom f)" and "f v = x" "f u = y"
  shows "rc (f(v := y, u := x)) pi = rc f pi"
proof (cases "u = v")
  case True
  then show ?thesis using assms by (metis fun_upd_triv fun_upd_upd)
next
  case False
  have "finite (dom (f(v := y)))" using f by (auto intro: finite_subset [of _ "insert v (dom f)"])
  then show ?thesis using rc_upd [OF f, of v y pi] rc_upd [of "f(v := y)" u x pi] False assms(2,3) by simp
qed

lemma finite_dom_upd: "finite (dom f) \<Longrightarrow> finite (dom (f(v := x)))"
  by (rule finite_subset [of _ "insert v (dom f)"]) auto

lemma swap_exec:
  assumes i: "sp_inv st"
  shows "sh st v = x \<Longrightarrow> sh st u = y \<Longrightarrow> sp_inv (st\<lparr>sh := (sh st)(v := y, u := x)\<rparr>)"
    and "wk st v = x \<Longrightarrow> wk st u = y \<Longrightarrow> sp_inv (st\<lparr>wk := (wk st)(v := y, u := x)\<rparr>)"
  using i rc_swap [of "sh st" v x u y] rc_swap [of "wk st" v x u y]
  by (auto simp: sp_inv_def finite_dom_upd store_ok_def simp del: dom_fun_upd fun_upd_apply)

lemma move_exec:
  assumes i: "sp_inv st" and v: "v \<notin> dom (sh st)" and r: "sh st u = Some r"
  shows "sp_inv (st\<lparr>sh := (sh st)(u \<mapsto> no_ref, v \<mapsto> r)\<rparr>)"
proof -
  have f: "finite (dom (sh st))" using i by (simp add: sp_inv_def)
  have "rc ((sh st)(u \<mapsto> no_ref, v \<mapsto> r)) pi = rc (sh st) pi" for pi
    using rc_upd [OF f, of u "Some no_ref" pi] rc_upd [OF finite_dom_upd [OF f], of u "Some no_ref" v "Some r" pi] v r
    by (cases "u = v") (auto simp: domIff)
  then show ?thesis using i f by (auto simp: sp_inv_def finite_dom_upd store_ok_def simp del: dom_fun_upd fun_upd_apply)
qed

lemma lock_exec:
  assumes i: "sp_inv st" "few st" and v: "v \<notin> dom (sh st)" and r: "wk st u = Some r"
  shows "\<exists>st'. weak_ptr_lock r (sp_heap st) \<bind> put_sh v st = Some st' \<and> sp_inv st'"
    and "\<exists>st'. shared_ptr_from_weak r (sp_heap st) \<bind> put_result v st = Some st' \<and> sp_inv st'"
proof -
  have ok: "store_ok (sp_heap st) (rc (sh st)) (rc (wk st)) (adopted st)" using i by (simp add: sp_inv_def)
  let ?s = "locked (rc (sh st)) r"
  have w: "m_pi r \<noteq> 0 \<Longrightarrow> 0 < rc (sh st) (m_pi r) + rc (wk st) (m_pi r) \<and> rc (sh st) (m_pi r) + 1 < 2 ^ 32"
    using held(2) [OF i r] held(3) [OF i, of "m_pi r"] by auto
  have inv: "sp_inv (st\<lparr>sp_heap := h, sh := (sh st)(v := Some ?s)\<rparr>)"
    if "store_ok h (\<lambda>pi. rc (sh st) pi + ref (Some ?s) pi) (rc (wk st)) (adopted st)" for h
    by (rule put_sh_inv [OF i(1) that]) (use v in \<open>simp add: domIff\<close>)
  obtain h where h: "weak_ptr_lock r (sp_heap st) = Some (h, ?s)" "store_ok h (\<lambda>pi. rc (sh st) pi + ref (Some ?s) pi) (rc (wk st)) (adopted st)"
    using lock_ok [OF ok w] by blast
  show "\<exists>st'. weak_ptr_lock r (sp_heap st) \<bind> put_sh v st = Some st' \<and> sp_inv st'"
    using h(1) inv [OF h(2)] by (simp add: put_sh_def)
  obtain h' where h': "shared_ptr_from_weak r (sp_heap st) = Some (h', if ?s = no_ref then Inl bad_weak_ptr else Inr r)"
      "store_ok h' (\<lambda>pi. rc (sh st) pi + ref (Some ?s) pi) (rc (wk st)) (adopted st)"
    using from_weak_ok [OF ok w] by blast
  show "\<exists>st'. shared_ptr_from_weak r (sp_heap st) \<bind> put_result v st = Some st' \<and> sp_inv st'"
  proof (cases "?s = no_ref")
    case True
    then have "sp_inv (st\<lparr>sp_heap := h'\<rparr>)" using h'(2) i by (simp add: sp_inv_def)
    then show ?thesis using h'(1) True by (simp add: put_result_def)
  next
    case False
    then have "?s = r" by (auto simp: locked_def split: if_splits)
    then show ?thesis using h'(1) False inv [OF h'(2)] by (simp add: put_result_def put_sh_def)
  qed
qed

text \<open>Weak pointers, from a weak or a shared pointer \<open>r\<close> of the program.\<close>

lemma weak_copy_exec:
  assumes i: "sp_inv st" "few st" and v: "v \<notin> dom (wk st)" and r: "wk st u = Some r \<or> sh st u = Some r"
  shows "\<exists>h. weak_count_copy r (sp_heap st) = Some (h, r) \<and> store_ok h (rc (sh st)) (\<lambda>pi. rc (wk st) pi + ref (Some r) pi) (adopted st)"
    and "\<exists>st'. weak_count_copy r (sp_heap st) \<bind> put_wk v st = Some st' \<and> sp_inv st'"
proof -
  have ok: "store_ok (sp_heap st) (rc (sh st)) (rc (wk st)) (adopted st)" using i by (simp add: sp_inv_def)
  obtain h where h: "when_counted weak_add_ref r (sp_heap st) = Some h"
      "store_ok h (rc (sh st)) (\<lambda>pi. rc (wk st) pi + ref (Some r) pi) (adopted st)"
    using weak_add_ok [OF ok, of r] held(1,2) [OF i, of u r] held(4) [OF i, of "m_pi r"] r by auto
  then show c: "\<exists>h. weak_count_copy r (sp_heap st) = Some (h, r) \<and> store_ok h (rc (sh st)) (\<lambda>pi. rc (wk st) pi + ref (Some r) pi) (adopted st)"
    by (simp add: weak_count_copy_def)
  have "sp_inv (st\<lparr>sp_heap := h, wk := (wk st)(v := Some r)\<rparr>)"
    by (rule put_wk_inv [OF i(1) h(2)]) (use v in \<open>simp add: domIff\<close>)
  then show "\<exists>st'. weak_count_copy r (sp_heap st) \<bind> put_wk v st = Some st' \<and> sp_inv st'"
    using h(1) by (simp add: weak_count_copy_def put_wk_def)
qed

text \<open>A lock that is released again leaves the counts as they were.\<close>

lemma unlock_ok:
  assumes "store_ok h (\<lambda>pi. n pi + ref (Some s) pi) w ad"
  shows "\<exists>h'. shared_count_dtor s h = Some h' \<and> store_ok h' n w ad"
  using drop_ok [OF assms, of s] by (auto simp: shared_count_dtor_def)

lemma weak_conv_exec:
  assumes i: "sp_inv st" "few st" and v: "v \<notin> dom (wk st)" and r: "wk st u = Some r"
  shows "\<exists>st'. weak_ptr_conv r (sp_heap st) \<bind> put_wk v st = Some st' \<and> sp_inv st'"
proof -
  let ?s = "locked (rc (sh st)) r" and ?w = "\<lambda>pi. rc (wk st) pi + ref (Some r) pi"
  obtain h1 where h1: "weak_count_copy r (sp_heap st) = Some (h1, r)" "store_ok h1 (rc (sh st)) ?w (adopted st)"
    using weak_copy_exec(1) [OF i v, of u r] r by blast
  obtain h2 where h2: "weak_ptr_lock r h1 = Some (h2, ?s)" "store_ok h2 (\<lambda>pi. rc (sh st) pi + ref (Some ?s) pi) ?w (adopted st)"
    using lock_ok [OF h1(2), of r] held(2) [OF i r] held(3) [OF i, of "m_pi r"] by auto
  obtain h3 where h3: "shared_count_dtor ?s h2 = Some h3" "store_ok h3 (rc (sh st)) ?w (adopted st)"
    using unlock_ok [OF h2(2)] by blast
  have "sp_inv (st\<lparr>sp_heap := h3, wk := (wk st)(v := Some (r\<lparr>m_px := m_px ?s\<rparr>))\<rparr>)"
    by (rule put_wk_inv [OF i(1) h3(2)]) (use v in \<open>simp add: domIff\<close>)
  then show ?thesis using h1(1) h2(1) h3(1) by (simp add: weak_ptr_conv_def put_wk_def)
qed

lemma weak_replaced:
  assumes i: "sp_inv st" "few st" and a: "wk st v = Some a"
    and ok: "store_ok h n (rc (wk st)) ad" and r: "m_pi r \<noteq> 0 \<Longrightarrow> 0 < n (m_pi r) + rc (wk st) (m_pi r)"
  shows "\<exists>h1 h2. when_counted weak_add_ref r h = Some h1 \<and> when_counted weak_release a h1 = Some h2
    \<and> store_ok h2 n (\<lambda>pi. rc (wk st) pi + ref (Some r) pi - ref (Some a) pi) ad"
proof -
  obtain h1 where h1: "when_counted weak_add_ref r h = Some h1" "store_ok h1 n (\<lambda>pi. rc (wk st) pi + ref (Some r) pi) ad"
    using weak_add_ok [OF ok, of r] r held(4) [OF i, of "m_pi r"] by auto
  have "m_pi a \<noteq> 0 \<Longrightarrow> 0 < rc (wk st) (m_pi a) + ref (Some r) (m_pi a)" using held(2) [OF i a] by simp
  then show ?thesis using h1 weak_drop_ok [OF h1(2), of a] by auto
qed

lemma weak_put:
  assumes i: "sp_inv st" "few st" and a: "wk st v = Some a" and s: "ref (Some s) = ref (Some r)"
    and ok: "store_ok h (rc (sh st)) (\<lambda>pi. rc (wk st) pi + ref (Some r) pi - ref (Some a) pi) (adopted st)"
  shows "sp_inv (st\<lparr>sp_heap := h, wk := (wk st)(v := Some s)\<rparr>)"
proof -
  have "ref (Some a) pi \<le> rc (wk st) pi" for pi using held(2) [OF i a] by (auto simp: ref_Some)
  then show ?thesis by (intro put_wk_inv [OF i(1) ok]) (simp add: a s le_add1 trans_le_add1)
qed

lemma weak_assign_exec:
  assumes i: "sp_inv st" "few st" and a: "wk st v = Some a" and r: "wk st u = Some r \<or> sh st u = Some r"
  shows "\<exists>st'. weak_count_assign a r (sp_heap st) \<bind> put_wk v st = Some st' \<and> sp_inv st'"
proof -
  have ok: "store_ok (sp_heap st) (rc (sh st)) (rc (wk st)) (adopted st)" using i by (simp add: sp_inv_def)
  have "m_pi r \<noteq> 0 \<Longrightarrow> 0 < rc (sh st) (m_pi r) + rc (wk st) (m_pi r)" using held(1,2) [OF i, of u r] r by auto
  then obtain h1 h2 where h: "when_counted weak_add_ref r (sp_heap st) = Some h1" "when_counted weak_release a h1 = Some h2"
      "store_ok h2 (rc (sh st)) (\<lambda>pi. rc (wk st) pi + ref (Some r) pi - ref (Some a) pi) (adopted st)"
    using weak_replaced [OF i a ok, of r] by blast
  then show ?thesis using weak_put [OF i a refl h(3)] by (simp add: weak_count_assign_def put_wk_def)
qed

lemma weak_assign_conv_exec:
  assumes i: "sp_inv st" "few st" and a: "wk st v = Some a" and r: "wk st u = Some r"
  shows "\<exists>st'. weak_ptr_assign_conv a r (sp_heap st) \<bind> put_wk v st = Some st' \<and> sp_inv st'"
proof -
  have ok: "store_ok (sp_heap st) (rc (sh st)) (rc (wk st)) (adopted st)" using i by (simp add: sp_inv_def)
  let ?s = "locked (rc (sh st)) r" and ?w = "\<lambda>pi. rc (wk st) pi + ref (Some r) pi - ref (Some a) pi"
  have w: "m_pi r \<noteq> 0 \<Longrightarrow> 0 < rc (wk st) (m_pi r)" by (rule held(2) [OF i r])
  obtain h1 where h1: "weak_ptr_lock r (sp_heap st) = Some (h1, ?s)"
      "store_ok h1 (\<lambda>pi. rc (sh st) pi + ref (Some ?s) pi) (rc (wk st)) (adopted st)"
    using lock_ok [OF ok, of r] w held(3) [OF i, of "m_pi r"] by auto
  obtain h2 h3 where h3: "when_counted weak_add_ref r h1 = Some h2" "when_counted weak_release a h2 = Some h3"
      "store_ok h3 (\<lambda>pi. rc (sh st) pi + ref (Some ?s) pi) ?w (adopted st)"
    using weak_replaced [OF i a h1(2), of r] w by auto
  obtain h4 where h4: "shared_count_dtor ?s h3 = Some h4" "store_ok h4 (rc (sh st)) ?w (adopted st)"
    using unlock_ok [OF h3(3)] by blast
  have "ref (Some (a\<lparr>m_pi := m_pi r, m_px := m_px ?s\<rparr>)) = ref (Some r)" by (auto simp: fun_eq_iff ref_Some)
  from weak_put [OF i a this h4(2)] show ?thesis
    using h1(1) h3(1,2) h4(1) by (simp add: weak_ptr_assign_conv_def weak_count_assign_conv_def put_wk_def)
qed

lemma weak_reset_exec:
  assumes i: "sp_inv st" "few st" and a: "wk st v = Some a"
  shows "\<exists>st'. weak_ptr_reset a (sp_heap st) \<bind> put_wk v st = Some st' \<and> sp_inv st'"
    and "\<exists>h. weak_count_dtor a (sp_heap st) = Some h \<and> sp_inv (st\<lparr>sp_heap := h, wk := (wk st)(v := None)\<rparr>)"
proof -
  have ok: "store_ok (sp_heap st) (rc (sh st)) (rc (wk st)) (adopted st)" using i by (simp add: sp_inv_def)
  obtain h where h: "when_counted weak_release a (sp_heap st) = Some h"
      "store_ok h (rc (sh st)) (\<lambda>pi. rc (wk st) pi - ref (Some a) pi) (adopted st)"
    using weak_drop_ok [OF ok, of a] held(2) [OF i a] by auto
  have le: "ref (Some a) pi \<le> rc (wk st) pi" for pi using held(2) [OF i a] by (auto simp: ref_Some)
  have "sp_inv (st\<lparr>sp_heap := h, wk := (wk st)(v := x)\<rparr>)" if "\<And>pi. ref x pi = 0" for x
    by (rule put_wk_inv [OF i(1) h(2)]) (use le that in \<open>simp add: a\<close>)
  from this [of None] this [of "Some no_ref"] show "\<exists>st'. weak_ptr_reset a (sp_heap st) \<bind> put_wk v st = Some st' \<and> sp_inv st'"
    "\<exists>h. weak_count_dtor a (sp_heap st) = Some h \<and> sp_inv (st\<lparr>sp_heap := h, wk := (wk st)(v := None)\<rparr>)"
    using h(1) by (simp_all add: sp_fold)
qed

lemma exec_inv:
  assumes i: "sp_inv st" "few st" and a: "alloc_ok alloc" and v: "sp_valid op st" "counted_op op st"
  shows "\<exists>st'. sp_exec alloc op st = Some st' \<and> sp_inv st'"
proof (cases op)
  case (Make v p)
  then show ?thesis using make_exec [OF i(1) a, of v p] v by simp
next
  case (Make_copy v u)
  then show ?thesis using copy_exec(1) [OF i, of v u] v by auto
next
  case (Make_alias v u p)
  then show ?thesis using alias_exec(1) [OF i, of _ v p] v by auto
next
  case (Make_cast v u p)
  then show ?thesis using copy_exec(2) [OF i, of v u] v by auto
next
  case (Make_dynamic_cast v u p)
  then show ?thesis using dynamic_cast_exec [OF i, of v u] v by auto
next
  case (Make_move v u)
  then show ?thesis using move_exec [OF i(1), of v u] v by (auto simp: shared_ptr_move_def)
next
  case (Make_lock v u)
  then show ?thesis using lock_exec(1) [OF i, of v u] v by auto
next
  case (Make_from_weak v u)
  then show ?thesis using lock_exec(2) [OF i, of v u] v by auto
next
  case (Assign v u)
  then show ?thesis using assign_exec(1) [OF i, of v _ u] v by auto
next
  case (Move_assign v u)
  then show ?thesis using assign_exec(2) [OF i, of v _ u] v by auto
next
  case (Reset v)
  then show ?thesis using reset_exec(1) [OF i, of v] v by auto
next
  case (Reset_ptr v p)
  then show ?thesis using reset_ptr_exec [OF i a, of v] v by auto
next
  case (Reset_alias v u p)
  then show ?thesis using alias_exec(2) [OF i, of _ v _ p] v by auto
next
  case (Swap v u)
  then show ?thesis using swap_exec(1) [OF i(1), of v _ u] v by auto
next
  case (Drop v)
  then show ?thesis using reset_exec(2) [OF i, of v] v by auto
next
  case (Weak_copy v u)
  then show ?thesis using weak_copy_exec(2) [OF i, of v u] v by auto
next
  case (Weak_conv v u)
  then show ?thesis using weak_conv_exec [OF i, of v u] v by auto
next
  case (Weak_from v u)
  then show ?thesis using weak_copy_exec(2) [OF i, of v u] v by (auto simp: weak_ptr_from_shared_def)
next
  case (Weak_assign v u)
  then show ?thesis using weak_assign_exec [OF i, of v _ u] v by auto
next
  case (Weak_assign_conv v u)
  then show ?thesis using weak_assign_conv_exec [OF i, of v _ u] v by auto
next
  case (Weak_assign_shared v u)
  then show ?thesis using weak_assign_exec [OF i, of v _ u] v by (auto simp: weak_ptr_assign_shared_def)
next
  case (Weak_reset v)
  then show ?thesis using weak_reset_exec(1) [OF i, of v] v by auto
next
  case (Weak_swap v u)
  then show ?thesis using swap_exec(2) [OF i(1), of v _ u] v by auto
next
  case (Weak_drop v)
  then show ?thesis using weak_reset_exec(2) [OF i, of v] v by auto
qed

lemma reach_sp_inv:
  assumes "sp_reach alloc st" "alloc_ok alloc"
  shows "sp_inv st"
  using assms(1)
proof induction
  case start
  show ?case by (simp add: sp_inv_def sp_start_def store_ok_def counted_def owned_def)
next
  case (step st op st')
  then show ?case using exec_inv [OF step.IH step.hyps(2) assms(2) step.hyps(3,4)] step.hyps(5) by auto
qed

section \<open>What programs can rely on\<close>

lemma in_owned:
  assumes "finite (dom f)"
  shows "p \<in># owned f \<longleftrightarrow> (\<exists>pi b. f pi = Some b \<and> m_use_count b \<noteq> 0 \<and> im_ptr b = p)"
proof -
  have s: "p \<in># (\<Sum>i\<in>A. own (f i)) \<longleftrightarrow> (\<exists>i\<in>A. p \<in># own (f i))" if "finite A" for A using that by induction auto
  have o: "p \<in># own x \<longleftrightarrow> (\<exists>b. x = Some b \<and> m_use_count b \<noteq> 0 \<and> im_ptr b = p)" for x by (cases x) auto
  show ?thesis unfolding owned_def s [OF assms] o by (auto simp: dom_def)
qed

lemma rc_pos: "finite (dom f) \<Longrightarrow> 0 < rc f pi \<longleftrightarrow> pi \<noteq> 0 \<and> (\<exists>v r. f v = Some r \<and> m_pi r = pi)"
  using rc_finite [of f pi] by (auto simp: rc_def card_gt_0_iff ref_def split: option.splits if_splits)

lemma rc_card: "pi \<noteq> 0 \<Longrightarrow> rc f pi = card {u. \<exists>s. f u = Some s \<and> m_pi s = pi}"
  unfolding rc_def by (rule arg_cong [where f = card]) (auto simp: ref_def split: option.splits if_splits)

text \<open>
  C5: In every state that a program with shared and weak pointers, fewer than the counts can hold, reaches without the
  aliasing constructor or \<^verbatim>\<open>reset(r, p)\<close> on an owning pointer, every such operation on its variables returns and none reads or writes a control block that was freed; \<^verbatim>\<open>use_count\<close> is the number of shared pointers that share the
  ownership, and a weak pointer has expired exactly when there is none.
\<close>

theorem shared_ptr_counts:
  assumes al: "alloc_ok alloc" and r: "sp_reach alloc st"
  shows "(\<forall>op. few st \<longrightarrow> sp_valid op st \<longrightarrow> counted_op op st \<longrightarrow> (\<exists>st'. sp_exec alloc op st = Some st'))
    \<and> (\<forall>v r. sh st v = Some r \<longrightarrow> m_pi r \<noteq> 0 \<longrightarrow>
         shared_ptr_use_count r (sp_heap st) = Some (card {u. \<exists>s. sh st u = Some s \<and> m_pi s = m_pi r}))
    \<and> (\<forall>v r. wk st v = Some r \<longrightarrow>
         weak_ptr_expired r (sp_heap st) = Some (m_pi r = 0 \<or> \<not> (\<exists>u s. sh st u = Some s \<and> m_pi s = m_pi r)))"
proof -
  have i: "sp_inv st" by (rule reach_sp_inv [OF r al])
  have f: "finite (dom (sh st))" "finite (dom (wk st))" and ok: "store_ok (sp_heap st) (rc (sh st)) (rc (wk st)) (adopted st)"
    using i by (simp_all add: sp_inv_def)
  have "shared_ptr_use_count r (sp_heap st) = Some (card {u. \<exists>s. sh st u = Some s \<and> m_pi s = m_pi r})"
    if "sh st v = Some r" "m_pi r \<noteq> 0" for v r
    using use_count_ok [OF ok, of r] rc_held [OF f(1) that] that(2) rc_card [of "m_pi r" "sh st"] by (simp add: shared_ptr_use_count_def)
  moreover have "weak_ptr_expired r (sp_heap st) = Some (m_pi r = 0 \<or> \<not> (\<exists>u s. sh st u = Some s \<and> m_pi s = m_pi r))"
    if "wk st v = Some r" for v r
    using use_count_ok [OF ok, of r] rc_held [OF f(2) that] rc_pos [OF f(1), of "m_pi r"] by (auto simp: weak_ptr_expired_def)
  ultimately show ?thesis using exec_inv [OF i _ al] by blast
qed

text \<open>A program with one shared pointer, with an allocator that has one block.\<close>

definition one_block :: "sp_store \<Rightarrow> nat option" where
  "one_block h = (if impls h 8 = None then Some 8 else None)"

definition sample_sp :: sp_state where
  "sample_sp = \<lparr>sp_heap = \<lparr>impls = [8 \<mapsto> \<lparr>m_use_count = 1, m_weak_count = 1, im_ptr = 100\<rparr>], deleted = []\<rparr>,
     sh = [0 \<mapsto> \<lparr>m_px = 100, m_pi = 8\<rparr>], wk = Map.empty, adopted = [100]\<rparr>"

lemma one_block_ok: "alloc_ok one_block"
  by (simp add: alloc_ok_def one_block_def)

lemma sample_sp_reach: "sp_reach one_block sample_sp"
proof (rule sp_reach.step [OF sp_reach.start])
  show "few sp_start" by (simp add: few_def sp_start_def)
  show "sp_valid (Make 0 100) sp_start" "counted_op (Make 0 100) sp_start" by (simp_all add: sp_start_def)
  show "sp_exec one_block (Make 0 100) sp_start = Some sample_sp"
    by (simp add: sp_start_def sample_sp_def shared_ptr_ctor_def shared_count_ctor_def one_block_def put_result_def put_sh_def
        adopt_def set_impl_def)
qed

theorem shared_ptr_counts_witness:
  "sp_reach one_block sample_sp \<and> (\<exists>st'. sp_exec one_block (Make_copy 1 0) sample_sp = Some st')
    \<and> shared_ptr_use_count \<lparr>m_px = 100, m_pi = 8\<rparr> (sp_heap sample_sp) = Some 1"
proof -
  have "few sample_sp" "sp_valid (Make_copy 1 0) sample_sp" "sh sample_sp 0 = Some \<lparr>m_px = 100, m_pi = 8\<rparr>"
      "{u. \<exists>s. sh sample_sp u = Some s \<and> m_pi s = 8} = {0}"
    by (auto simp: few_def sample_sp_def split: if_splits)
  note v = this
  note C = shared_ptr_counts [OF one_block_ok sample_sp_reach]
  have "\<exists>st'. sp_exec one_block (Make_copy 1 0) sample_sp = Some st'" using conjunct1 [OF C] v(1,2) counted_op.simps by blast
  moreover have "shared_ptr_use_count \<lparr>m_px = 100, m_pi = 8\<rparr> (sp_heap sample_sp) =
      Some (card {u. \<exists>s. sh sample_sp u = Some s \<and> m_pi s = m_pi \<lparr>m_px = 100, m_pi = 8\<rparr>})"
    by (rule conjunct1 [OF conjunct2 [OF C], rule_format, OF v(3)]) simp
  then have "shared_ptr_use_count \<lparr>m_px = 100, m_pi = 8\<rparr> (sp_heap sample_sp) = Some 1"
    unfolding counted_ref.select_convs v(4) by simp
  ultimately show ?thesis using sample_sp_reach by simp
qed

text \<open>
  C20: In a program that does not use the aliasing constructor or \<^verbatim>\<open>reset(r, p)\<close> on an owning pointer: no object is
  deleted more often than it was given to a shared pointer. Of objects that were given once, exactly
  those are deleted that no shared pointer owns any more, the ones included whose control block could not be
  allocated. A control block exists exactly as long as a shared or weak pointer refers to it, so when a program
  has no smart pointers left, everything is deleted and freed.
\<close>

theorem shared_ptr_deletes_once:
  assumes al: "alloc_ok alloc" and r: "sp_reach alloc st"
  shows "mset (deleted (sp_heap st)) \<subseteq># mset (adopted st)
    \<and> (distinct (adopted st) \<longrightarrow> (\<forall>p\<in>set (adopted st). p \<in> set (deleted (sp_heap st)) \<longleftrightarrow>
         \<not> (\<exists>v r b. sh st v = Some r \<and> m_pi r \<noteq> 0 \<and> impls (sp_heap st) (m_pi r) = Some b \<and> im_ptr b = p)))
    \<and> dom (impls (sp_heap st)) = {pi. pi \<noteq> 0 \<and> (\<exists>v r. (sh st v = Some r \<or> wk st v = Some r) \<and> m_pi r = pi)}
    \<and> (sh st = Map.empty \<and> wk st = Map.empty \<longrightarrow>
         mset (deleted (sp_heap st)) = mset (adopted st) \<and> impls (sp_heap st) = Map.empty)"
proof -
  let ?h = "sp_heap st"
  have i: "sp_inv st" by (rule reach_sp_inv [OF r al])
  have f: "finite (dom (sh st))" "finite (dom (wk st))" and ok: "store_ok ?h (rc (sh st)) (rc (wk st)) (adopted st)"
    using i by (simp_all add: sp_inv_def)
  have fin: "finite (dom (impls ?h))" and ad: "mset (adopted st) = mset (deleted ?h) + owned (impls ?h)"
    and c: "counted (rc (sh st) pi) (rc (wk st) pi) (impls ?h pi)" for pi
    using ok by (simp_all add: store_ok_def)
  have dom: "impls ?h pi \<noteq> None \<longleftrightarrow> 0 < rc (sh st) pi \<or> 0 < rc (wk st) pi" for pi
    using c [of pi] by (auto simp: counted_def split: option.splits)
  have use: "m_use_count b \<noteq> 0 \<longleftrightarrow> 0 < rc (sh st) pi" if "impls ?h pi = Some b" for pi b
    using c [of pi] that by (auto simp: counted_def simp flip: unat_eq_0)
  have own: "p \<in># owned (impls ?h) \<longleftrightarrow> (\<exists>v r b. sh st v = Some r \<and> m_pi r \<noteq> 0 \<and> impls ?h (m_pi r) = Some b \<and> im_ptr b = p)" for p
  proof -
    have "p \<in># owned (impls ?h) \<longleftrightarrow> (\<exists>pi b. impls ?h pi = Some b \<and> 0 < rc (sh st) pi \<and> im_ptr b = p)"
      unfolding in_owned [OF fin] using use by blast
    also have "\<dots> \<longleftrightarrow> (\<exists>v r b. sh st v = Some r \<and> m_pi r \<noteq> 0 \<and> impls ?h (m_pi r) = Some b \<and> im_ptr b = p)"
      unfolding rc_pos [OF f(1)] by blast
    finally show ?thesis .
  qed
  have once: "p \<in> set (deleted ?h) \<longleftrightarrow> p \<notin># owned (impls ?h)" if "distinct (adopted st)" "p \<in> set (adopted st)" for p
  proof -
    have "count (mset (adopted st)) p = 1" using that by (simp add: distinct_count_atmost_1)
    then have "count (mset (deleted ?h)) p + count (owned (impls ?h)) p = 1" unfolding ad by simp
    then have "0 < count (mset (deleted ?h)) p \<longleftrightarrow> \<not> 0 < count (owned (impls ?h)) p" by linarith
    then show ?thesis unfolding count_greater_zero_iff set_mset_mset .
  qed
  have d: "dom (impls ?h) = {pi. pi \<noteq> 0 \<and> (\<exists>v r. (sh st v = Some r \<or> wk st v = Some r) \<and> m_pi r = pi)}"
  proof -
    have e: "(\<exists>v r. (sh st v = Some r \<or> wk st v = Some r) \<and> m_pi r = pi) \<longleftrightarrow>
        (\<exists>v r. sh st v = Some r \<and> m_pi r = pi) \<or> (\<exists>v r. wk st v = Some r \<and> m_pi r = pi)" for pi by blast
    have "pi \<in> dom (impls ?h) \<longleftrightarrow> pi \<noteq> 0 \<and> (\<exists>v r. (sh st v = Some r \<or> wk st v = Some r) \<and> m_pi r = pi)" for pi
      unfolding domIff dom rc_pos [OF f(1)] rc_pos [OF f(2)] e by blast
    then show ?thesis by (intro set_eqI) (simp only: mem_Collect_eq)
  qed
  have "mset (deleted ?h) = mset (adopted st) \<and> impls ?h = Map.empty" if "sh st = Map.empty \<and> wk st = Map.empty"
  proof -
    have "dom (impls ?h) = {}" unfolding d using that by simp
    then have e: "impls ?h = Map.empty" by (simp only: dom_eq_empty_conv)
    then show ?thesis using ad unfolding e owned_def by simp
  qed
  note empty = this
  have "mset (deleted ?h) \<subseteq># mset (adopted st)" unfolding ad by simp
  moreover have "\<forall>p\<in>set (adopted st). p \<in> set (deleted ?h) \<longleftrightarrow>
      \<not> (\<exists>v r b. sh st v = Some r \<and> m_pi r \<noteq> 0 \<and> impls ?h (m_pi r) = Some b \<and> im_ptr b = p)" if "distinct (adopted st)"
    using once [OF that] unfolding own by blast
  ultimately show ?thesis using d empty by blast
qed

theorem shared_ptr_deletes_once_witness:
  "sp_reach one_block sample_sp \<and> 100 \<notin> set (deleted (sp_heap sample_sp)) \<and> dom (impls (sp_heap sample_sp)) = {8}"
proof -
  have "distinct (adopted sample_sp)" "100 \<in> set (adopted sample_sp)" by (simp_all add: sample_sp_def)
  moreover have "sh sample_sp 0 = Some \<lparr>m_px = 100, m_pi = 8\<rparr>"
    "impls (sp_heap sample_sp) 8 = Some \<lparr>m_use_count = 1, m_weak_count = 1, im_ptr = 100\<rparr>" by (simp_all add: sample_sp_def)
  moreover have "dom (impls (sp_heap sample_sp)) = {8}" by (simp add: sample_sp_def)
  ultimately show ?thesis using shared_ptr_deletes_once [OF one_block_ok sample_sp_reach] sample_sp_reach by fastforce
qed

text \<open>
  C35: The aliasing constructor does not count the new pointer: when the new pointer goes, the object is deleted and the
  control block freed although the first pointer still owns them, and the destructor of the first pointer reads
  freed memory.
\<close>

theorem shared_ptr_alias_deletes_early:
  assumes "alloc h = Some pi" "pi \<noteq> 0" "impls h pi = None" "p \<noteq> 0"
  shows "\<exists>h1 a h2. shared_ptr_ctor alloc p h = (h1, Inr a) \<and> shared_ptr_use_count a h1 = Some 1
    \<and> shared_count_dtor (shared_ptr_alias a q) h1 = Some h2 \<and> deleted h2 = deleted h @ [p] \<and> shared_count_dtor a h2 = None"
  using assms
  by (simp add: shared_ptr_ctor_def shared_count_ctor_def shared_ptr_alias_def shared_count_alias_def shared_ptr_use_count_def
      count_use_count_def base_use_count_def shared_count_dtor_def when_counted_def release_def ref_release_def dispose_def
      weak_release_def base_weak_release_def destroy_def set_impl_def atomic_dec32_def)

theorem shared_ptr_alias_deletes_early_witness:
  "\<exists>h1 a h2. shared_ptr_ctor one_block 100 (sp_heap sp_start) = (h1, Inr a)
    \<and> shared_count_dtor (shared_ptr_alias a 104) h1 = Some h2 \<and> deleted h2 = [100] \<and> shared_count_dtor a h2 = None"
proof -
  have "one_block (sp_heap sp_start) = Some 8" "impls (sp_heap sp_start) 8 = None" "deleted (sp_heap sp_start) = []"
    by (simp_all add: one_block_def sp_start_def)
  then show ?thesis using shared_ptr_alias_deletes_early [of one_block "sp_heap sp_start" 8 100 104] by auto
qed

end
