(* ===== verification/Shared_Count_Threads.thy ===== *)
theory Shared_Count_Threads
  imports Shared_Count
begin

text \<open>
  One control block used by several threads or processes. Every access to a count is one atomic instruction and one
  step; the steps of different threads interleave in any order. A thread holds shared and weak pointers to the block
  and is somewhere inside one of the operations \<^verbatim>\<open>add_ref_lock\<close>, \<^verbatim>\<open>release\<close> and \<^verbatim>\<open>weak_release\<close>; a pointer can be handed
  to another thread. A step that touches the block after \<^verbatim>\<open>destroy\<close> is recorded as a fault.
\<close>

section \<open>Threads\<close>

text \<open>Where a thread is: outside; before the load and before the exchange in \<^verbatim>\<open>add_ref_lock\<close>; before \<^verbatim>\<open>dispose\<close> and before
  the weak release in \<^verbatim>\<open>release\<close>; before \<^verbatim>\<open>destroy\<close>.\<close>

datatype place = Outside | Lock_Load | Lock_Cas uint32 | At_Dispose | At_Weak_Release | At_Destroy

record sp_thread =
  n_shared :: nat
  n_weak :: nat
  at :: place

record sp_system =
  s_use :: uint32
  s_weak :: uint32
  s_disposed :: nat
  s_destroyed :: nat
  s_fault :: bool
  s_threads :: "sp_thread list"

abbreviation shared_total :: "sp_system \<Rightarrow> nat" where
  "shared_total s \<equiv> tot n_shared (s_threads s)"

abbreviation weak_total :: "sp_system \<Rightarrow> nat" where
  "weak_total s \<equiv> tot n_weak (s_threads s)"

text \<open>A step of thread \<open>i\<close>: it touches the block and becomes \<open>t\<close>.\<close>

definition touch :: "nat \<Rightarrow> sp_thread \<Rightarrow> sp_system \<Rightarrow> sp_system" where
  "touch i t s = s\<lparr>s_fault := s_fault s \<or> 0 < s_destroyed s, s_threads := (s_threads s)[i := t]\<rparr>"

definition after_release :: "uint32 \<Rightarrow> place" where
  "after_release old = (if 1 = old then At_Dispose else Outside)"

definition after_weak_release :: "uint32 \<Rightarrow> place" where
  "after_weak_release old = (if 1 = old then At_Destroy else Outside)"

inductive sp_step :: "nat \<Rightarrow> sp_thread \<Rightarrow> sp_system \<Rightarrow> sp_system \<Rightarrow> bool" for i t s where
  copy: "at t = Outside \<Longrightarrow> 0 < n_shared t \<Longrightarrow>
    sp_step i t s (touch i (t\<lparr>n_shared := n_shared t + 1\<rparr>) s\<lparr>s_use := fst (atomic_inc32 (s_use s))\<rparr>)"
| lock: "at t = Outside \<Longrightarrow> 0 < n_weak t \<Longrightarrow> sp_step i t s (s\<lparr>s_threads := (s_threads s)[i := t\<lparr>at := Lock_Load\<rparr>]\<rparr>)"
| lock_load: "at t = Lock_Load \<Longrightarrow> tmp = s_use s \<Longrightarrow>
    sp_step i t s (touch i (t\<lparr>at := if tmp = 0 then Outside else Lock_Cas tmp\<rparr>) s)"
| lock_cas: "at t = Lock_Cas tmp \<Longrightarrow> atomic_cas32 (s_use s) (tmp + 1) tmp = (new, old) \<Longrightarrow>
    sp_step i t s (touch i (if old = tmp then t\<lparr>n_shared := n_shared t + 1, at := Outside\<rparr> else t\<lparr>at := Lock_Load\<rparr>) s\<lparr>s_use := new\<rparr>)"
| release: "at t = Outside \<Longrightarrow> 0 < n_shared t \<Longrightarrow> atomic_dec32 (s_use s) = (new, old) \<Longrightarrow>
    sp_step i t s (touch i (t\<lparr>n_shared := n_shared t - 1, at := after_release old\<rparr>) s\<lparr>s_use := new\<rparr>)"
| dispose: "at t = At_Dispose \<Longrightarrow>
    sp_step i t s (touch i (t\<lparr>at := At_Weak_Release\<rparr>) s\<lparr>s_disposed := s_disposed s + 1\<rparr>)"
| release_weak: "at t = At_Weak_Release \<Longrightarrow> atomic_dec32 (s_weak s) = (new, old) \<Longrightarrow>
    sp_step i t s (touch i (t\<lparr>at := after_weak_release old\<rparr>) s\<lparr>s_weak := new\<rparr>)"
| weak_copy: "at t = Outside \<Longrightarrow> 0 < n_shared t + n_weak t \<Longrightarrow>
    sp_step i t s (touch i (t\<lparr>n_weak := n_weak t + 1\<rparr>) s\<lparr>s_weak := fst (atomic_inc32 (s_weak s))\<rparr>)"
| weak_drop: "at t = Outside \<Longrightarrow> 0 < n_weak t \<Longrightarrow> atomic_dec32 (s_weak s) = (new, old) \<Longrightarrow>
    sp_step i t s (touch i (t\<lparr>n_weak := n_weak t - 1, at := after_weak_release old\<rparr>) s\<lparr>s_weak := new\<rparr>)"
| destroy: "at t = At_Destroy \<Longrightarrow>
    sp_step i t s (touch i (t\<lparr>at := Outside\<rparr>) s\<lparr>s_destroyed := s_destroyed s + 1\<rparr>)"

definition sp_begin :: "nat \<Rightarrow> sp_system" where
  "sp_begin n = \<lparr>s_use = 1, s_weak = 1, s_disposed = 0, s_destroyed = 0, s_fault = False,
     s_threads = \<lparr>n_shared = 1, n_weak = 0, at = Outside\<rparr> # replicate n \<lparr>n_shared = 0, n_weak = 0, at = Outside\<rparr>\<rparr>"

text \<open>The thread that makes the first shared pointer and \<open>n\<close> others. The counts are 32 bits wide: there are fewer pointers.\<close>

definition few_refs :: "sp_system \<Rightarrow> bool" where
  "few_refs s \<longleftrightarrow> shared_total s + 1 < 2 ^ 32 \<and> weak_total s + 2 < 2 ^ 32"

definition hand_over :: "sp_thread \<Rightarrow> sp_thread \<Rightarrow> nat \<Rightarrow> nat \<Rightarrow> sp_thread \<times> sp_thread" where
  "hand_over t u a b = (t\<lparr>n_shared := n_shared t - a, n_weak := n_weak t - b\<rparr>, u\<lparr>n_shared := n_shared u + a, n_weak := n_weak u + b\<rparr>)"

inductive sp_system_reach :: "nat \<Rightarrow> sp_system \<Rightarrow> bool" for n where
  start: "sp_system_reach n (sp_begin n)"
| step: "sp_system_reach n s \<Longrightarrow> few_refs s \<Longrightarrow> i < length (s_threads s) \<Longrightarrow> sp_step i (s_threads s ! i) s s' \<Longrightarrow> sp_system_reach n s'"
| give: "sp_system_reach n s \<Longrightarrow> i < length (s_threads s) \<Longrightarrow> j < length (s_threads s) \<Longrightarrow> i \<noteq> j \<Longrightarrow>
    at (s_threads s ! i) = Outside \<Longrightarrow> a \<le> n_shared (s_threads s ! i) \<Longrightarrow> b \<le> n_weak (s_threads s ! i) \<Longrightarrow>
    hand_over (s_threads s ! i) (s_threads s ! j) a b = (t, u) \<Longrightarrow>
    sp_system_reach n (s\<lparr>s_threads := (s_threads s)[i := t, j := u]\<rparr>)"

section \<open>The invariant\<close>

definition leaving :: "sp_thread \<Rightarrow> nat" where
  "leaving t = (if at t = At_Dispose \<or> at t = At_Weak_Release then 1 else 0)"

definition disposing :: "sp_thread \<Rightarrow> nat" where
  "disposing t = (if at t = At_Dispose then 1 else 0)"

definition destroying :: "sp_thread \<Rightarrow> nat" where
  "destroying t = (if at t = At_Destroy then 1 else 0)"

definition locking :: "sp_thread \<Rightarrow> bool" where
  "locking t \<longleftrightarrow> at t = Lock_Load \<or> (\<exists>tmp. at t = Lock_Cas tmp)"

text \<open>The numbers that the counts and the totals of the threads must satisfy.\<close>

definition balanced :: "nat \<Rightarrow> nat \<Rightarrow> nat \<Rightarrow> nat \<Rightarrow> nat \<Rightarrow> nat \<Rightarrow> nat \<Rightarrow> nat \<Rightarrow> nat \<Rightarrow> bool" where
  "balanced use weak S W L D E disposed destroyed \<longleftrightarrow>
     use = S \<and> weak = W + (if 0 < S + L then 1 else 0) \<and> L \<le> 1 \<and> (0 < L \<longrightarrow> S = 0)
     \<and> disposed + D = (if S = 0 then 1 else 0) \<and> destroyed + E = (if weak = 0 then 1 else 0)"

definition sys_inv :: "sp_system \<Rightarrow> bool" where
  "sys_inv s \<longleftrightarrow> balanced (unat (s_use s)) (unat (s_weak s)) (shared_total s) (weak_total s) (tot leaving (s_threads s))
       (tot disposing (s_threads s)) (tot destroying (s_threads s)) (s_disposed s) (s_destroyed s)
     \<and> \<not> s_fault s \<and> (\<forall>t\<in>set (s_threads s). locking t \<longrightarrow> 0 < n_weak t \<and> at t \<noteq> Lock_Cas 0)"

text \<open>Whoever may touch the block finds it.\<close>

lemma block_there:
  assumes inv: "sys_inv s" and i: "i < length (s_threads s)"
    and t: "0 < n_shared (s_threads s ! i) + n_weak (s_threads s ! i) + leaving (s_threads s ! i) + destroying (s_threads s ! i)"
  shows "s_destroyed s = 0"
proof -
  note G = tot_ge [OF i, of n_shared] tot_ge [OF i, of n_weak] tot_ge [OF i, of leaving] tot_ge [OF i, of destroying]
  then have "0 < shared_total s + weak_total s + tot leaving (s_threads s) + tot destroying (s_threads s)" using t by linarith
  then show ?thesis using inv unfolding sys_inv_def balanced_def by (auto split: if_splits)
qed

text \<open>A step changes one thread.\<close>

lemma sys_inv_upd:
  assumes inv: "sys_inv s" and i: "i < length (s_threads s)" and t: "t = s_threads s ! i"
    and there: "0 < n_shared t + n_weak t + leaving t + destroying t"
    and new: "s_threads s' = (s_threads s)[i := t']" "s_fault s' \<longleftrightarrow> s_fault s \<or> 0 < s_destroyed s"
    and bal: "balanced (unat (s_use s')) (unat (s_weak s')) (shared_total s - n_shared t + n_shared t') (weak_total s - n_weak t + n_weak t')
        (tot leaving (s_threads s) - leaving t + leaving t') (tot disposing (s_threads s) - disposing t + disposing t')
        (tot destroying (s_threads s) - destroying t + destroying t') (s_disposed s') (s_destroyed s')"
    and lk: "locking t' \<Longrightarrow> 0 < n_weak t' \<and> at t' \<noteq> Lock_Cas 0"
  shows "sys_inv s'"
proof -
  have e: "tot f ((s_threads s)[i := t']) = tot f (s_threads s) - f t + f t'" for f
    using tot_upd [OF i, of f t'] tot_ge [OF i, of f] t by simp
  have "s_destroyed s = 0" using block_there [OF inv i] there t by simp
  moreover have "\<forall>x\<in>set ((s_threads s)[i := t']). locking x \<longrightarrow> 0 < n_weak x \<and> at x \<noteq> Lock_Cas 0"
    using inv lk set_update_subset_insert [of "s_threads s" i t'] by (auto simp: sys_inv_def)
  ultimately show ?thesis using inv bal by (simp add: sys_inv_def new e)
qed

lemmas at_simps = leaving_def disposing_def destroying_def locking_def

lemma step_inv:
  assumes inv: "sys_inv s" and i: "i < length (s_threads s)" and few: "few_refs s" and st: "sp_step i (s_threads s ! i) s s'"
  shows "sys_inv s'"
proof -
  define t where "t = s_threads s ! i"
  note G = tot_ge [OF i, of n_shared, folded t_def] tot_ge [OF i, of n_weak, folded t_def] tot_ge [OF i, of leaving, folded t_def]
    tot_ge [OF i, of disposing, folded t_def] tot_ge [OF i, of destroying, folded t_def]
  have B: "balanced (unat (s_use s)) (unat (s_weak s)) (shared_total s) (weak_total s) (tot leaving (s_threads s))
       (tot disposing (s_threads s)) (tot destroying (s_threads s)) (s_disposed s) (s_destroyed s)"
    and lk: "locking t \<Longrightarrow> 0 < n_weak t \<and> at t \<noteq> Lock_Cas 0" using inv i by (auto simp: sys_inv_def t_def)
  note upd = sys_inv_upd [OF inv i t_def]
  have lim: "unat (s_use s) + 1 < 2 ^ 32" "unat (s_weak s) + 1 < 2 ^ 32"
    using B few by (auto simp: balanced_def few_refs_def split: if_splits)
  note nums = balanced_def at_simps after_release_def after_weak_release_def
  have pos: "n_shared t > 0 \<Longrightarrow> s_use s \<noteq> 0" "n_weak t + leaving t > 0 \<Longrightarrow> s_weak s \<noteq> 0"
    using B G by (auto simp: balanced_def split: if_splits simp flip: unat_eq_0)
  from st [folded t_def] show ?thesis
  proof cases
    case copy
    show ?thesis unfolding copy(1)
      by (rule upd [where t' = "t\<lparr>n_shared := n_shared t + 1\<rparr>"]) (use B G copy inc_nat [OF lim(1)] in \<open>auto simp: touch_def nums atomic_inc32_def split: if_splits\<close>)
  next
    case lock
    have "s_destroyed s = 0" using block_there [OF inv i] lock by (simp flip: t_def)
    then show ?thesis unfolding lock(1)
      by - (rule upd [where t' = "t\<lparr>at := Lock_Load\<rparr>"], use B G lock in \<open>auto simp: nums split: if_splits\<close>)
  next
    case (lock_load tmp)
    show ?thesis unfolding lock_load(1)
      by (rule upd [where t' = "t\<lparr>at := if tmp = 0 then Outside else Lock_Cas tmp\<rparr>"]) (use B G lock_load lk in \<open>auto simp: touch_def nums split: if_splits\<close>)
  next
    case (lock_cas tmp new old)
    have c: "old = s_use s" "new = (if s_use s = tmp then tmp + 1 else s_use s)" using lock_cas by (auto simp: atomic_cas32_def)
    have "0 < n_weak t" "tmp \<noteq> 0" using lk lock_cas by (auto simp: locking_def)
    then have z: "s_use s = tmp \<Longrightarrow> 0 < unat (s_use s)" by (simp add: unat_gt_0)
    show ?thesis unfolding lock_cas(1)
      by (rule upd [where t' = "if old = tmp then t\<lparr>n_shared := n_shared t + 1, at := Outside\<rparr> else t\<lparr>at := Lock_Load\<rparr>"]) (use B G lock_cas lk c z inc_nat [OF lim(1)] in \<open>auto simp: touch_def nums split: if_splits\<close>)
  next
    case (release new old)
    have c: "old = s_use s" "new = s_use s - 1" using release by (auto simp: atomic_dec32_def)
    show ?thesis unfolding release(1)
      by (rule upd [where t' = "t\<lparr>n_shared := n_shared t - 1, at := after_release old\<rparr>"])
        (use B G release c dec_nat(1) [OF pos(1)] dec_nat(2) [of "s_use s"] in \<open>auto simp: touch_def nums split: if_splits\<close>)
  next
    case dispose
    show ?thesis unfolding dispose(1) by (rule upd [where t' = "t\<lparr>at := At_Weak_Release\<rparr>"]) (use B G dispose in \<open>auto simp: touch_def nums split: if_splits\<close>)
  next
    case (release_weak new old)
    have c: "old = s_weak s" "new = s_weak s - 1" using release_weak by (auto simp: atomic_dec32_def)
    show ?thesis unfolding release_weak(1)
      by (rule upd [where t' = "t\<lparr>at := after_weak_release old\<rparr>"])
        (use B G release_weak c dec_nat(1) [OF pos(2)] dec_nat(2) [of "s_weak s"] in \<open>auto simp: touch_def nums split: if_splits\<close>)
  next
    case weak_copy
    show ?thesis unfolding weak_copy(1)
      by (rule upd [where t' = "t\<lparr>n_weak := n_weak t + 1\<rparr>"]) (use B G weak_copy inc_nat [OF lim(2)] in \<open>auto simp: touch_def nums atomic_inc32_def split: if_splits\<close>)
  next
    case (weak_drop new old)
    have c: "old = s_weak s" "new = s_weak s - 1" using weak_drop by (auto simp: atomic_dec32_def)
    show ?thesis unfolding weak_drop(1)
      by (rule upd [where t' = "t\<lparr>n_weak := n_weak t - 1, at := after_weak_release old\<rparr>"])
        (use B G weak_drop c dec_nat(1) [OF pos(2)] dec_nat(2) [of "s_weak s"] in \<open>auto simp: touch_def nums split: if_splits\<close>)
  next
    case destroy
    show ?thesis unfolding destroy(1) by (rule upd [where t' = "t\<lparr>at := Outside\<rparr>"]) (use B G destroy in \<open>auto simp: touch_def nums split: if_splits\<close>)
  qed
qed

text \<open>A pointer handed to another thread changes no total.\<close>

lemma hand_over_inv:
  assumes inv: "sys_inv s" and i: "i < length (s_threads s)" "j < length (s_threads s)" "i \<noteq> j" and out: "at (s_threads s ! i) = Outside"
    and ab: "a \<le> n_shared (s_threads s ! i)" "b \<le> n_weak (s_threads s ! i)" and h: "hand_over (s_threads s ! i) (s_threads s ! j) a b = (t, u)"
  shows "sys_inv (s\<lparr>s_threads := (s_threads s)[i := t, j := u]\<rparr>)"
proof -
  note p = tot_pair [OF i]
  have e: "tot f ((s_threads s)[i := t, j := u]) = tot f (s_threads s)" if "f \<in> {n_shared, n_weak, leaving, disposing, destroying}" for f
    by (rule p) (use that h ab in \<open>auto simp: hand_over_def at_simps\<close>)
  have "\<forall>x\<in>set (s_threads s) \<union> {t, u}. locking x \<longrightarrow> 0 < n_weak x \<and> at x \<noteq> Lock_Cas 0"
  proof -
    have "at t = Outside" "at u = at (s_threads s ! j)" "n_weak (s_threads s ! j) \<le> n_weak u" using h out by (auto simp: hand_over_def)
    moreover have L: "\<forall>x\<in>set (s_threads s). locking x \<longrightarrow> 0 < n_weak x \<and> at x \<noteq> Lock_Cas 0" using inv by (simp add: sys_inv_def)
    moreover note bspec [OF L nth_mem [OF i(2)]]
    ultimately show ?thesis by (auto simp: locking_def)
  qed
  moreover have "set ((s_threads s)[i := t, j := u]) \<subseteq> set (s_threads s) \<union> {t, u}"
    using set_update_subset_insert [of "(s_threads s)[i := t]" j u] set_update_subset_insert [of "s_threads s" i t] by blast
  ultimately show ?thesis using inv by (auto simp: sys_inv_def e)
qed

lemma begin_inv: "sys_inv (sp_begin n)"
  by (simp add: sys_inv_def sp_begin_def tot_def at_simps balanced_def sum_list_replicate)

lemma sp_system_reach_inv: "sp_system_reach n s \<Longrightarrow> sys_inv s"
  by (induction rule: sp_system_reach.induct) (simp_all add: begin_inv step_inv hand_over_inv)

section \<open>What the threads may rely on\<close>

text \<open>
  C6: However the atomic instructions of the threads interleave, no thread touches the control block after it is
  destroyed; the use count is the number of shared pointers; the object is disposed at most once and only when no
  shared pointer is left, the block is destroyed at most once and only when no pointer at all is left; and when no
  operation is under way, the object is disposed exactly when the last shared pointer is gone and the block is
  destroyed exactly when the last pointer of either kind is gone.
\<close>

theorem shared_count_threads:
  assumes reach: "sp_system_reach n s"
  shows "\<not> s_fault s \<and> unat (s_use s) = shared_total s \<and>
    s_disposed s \<le> (if shared_total s = 0 then 1 else 0) \<and>
    s_destroyed s \<le> (if shared_total s = 0 \<and> weak_total s = 0 then 1 else 0) \<and>
    ((\<forall>t\<in>set (s_threads s). at t = Outside) \<longrightarrow>
      s_disposed s = (if shared_total s = 0 then 1 else 0) \<and>
      s_destroyed s = (if shared_total s = 0 \<and> weak_total s = 0 then 1 else 0))"
proof -
  note inv = sp_system_reach_inv [OF reach, unfolded sys_inv_def balanced_def]
  have q: "tot leaving (s_threads s) = 0 \<and> tot disposing (s_threads s) = 0 \<and> tot destroying (s_threads s) = 0"
    if "\<forall>t\<in>set (s_threads s). at t = Outside" using that by (simp add: tot_0 at_simps)
  show ?thesis using inv q by (auto split: if_splits)
qed

text \<open>A lock that loses the race: the second thread reads the use count 1, the first releases the last shared pointer,
  the exchange fails, and the second read finds 0.\<close>

lemma lost_race:
  "sp_system_reach 1 \<lparr>s_use = 0, s_weak = 1, s_disposed = 1, s_destroyed = 0, s_fault = False,
     s_threads = [\<lparr>n_shared = 0, n_weak = 0, at = Outside\<rparr>, \<lparr>n_shared = 0, n_weak = 1, at = Outside\<rparr>]\<rparr>"
proof -
  define S where "S u w d t0 t1 = \<lparr>s_use = u, s_weak = w, s_disposed = d, s_destroyed = 0, s_fault = False, s_threads = [t0, t1]\<rparr>"
    for u w d t0 t1
  define T where "T a b p = \<lparr>n_shared = a, n_weak = b, at = p\<rparr>" for a b p
  note go = sp_system_reach.step
  note ev = S_def T_def few_refs_def tot_def touch_def after_release_def after_weak_release_def atomic_inc32_def atomic_dec32_def atomic_cas32_def
  have "sp_system_reach 1 (S 1 1 0 (T 1 0 Outside) (T 0 0 Outside))" using sp_system_reach.start [of 1] by (simp add: ev sp_begin_def)
  then have "sp_system_reach 1 (S 1 2 0 (T 1 1 Outside) (T 0 0 Outside))"
    by (rule go [where i = 0]) (use sp_step.weak_copy [of "T 1 0 Outside" 0 "S 1 1 0 (T 1 0 Outside) (T 0 0 Outside)"] in \<open>simp_all add: ev\<close>)
  from sp_system_reach.give [OF this, of 0 1 0 1]
  have "sp_system_reach 1 (S 1 2 0 (T 1 0 Outside) (T 0 1 Outside))" by (simp add: ev hand_over_def)
  then have "sp_system_reach 1 (S 1 2 0 (T 1 0 Outside) (T 0 1 Lock_Load))"
    by (rule go [where i = 1]) (use sp_step.lock [of "T 0 1 Outside" 1 "S 1 2 0 (T 1 0 Outside) (T 0 1 Outside)"] in \<open>simp_all add: ev\<close>)
  then have "sp_system_reach 1 (S 1 2 0 (T 1 0 Outside) (T 0 1 (Lock_Cas 1)))"
    by (rule go [where i = 1]) (use sp_step.lock_load [of "T 0 1 Lock_Load" 1 "S 1 2 0 (T 1 0 Outside) (T 0 1 Lock_Load)" 1] in \<open>simp_all add: ev\<close>)
  then have "sp_system_reach 1 (S 0 2 0 (T 0 0 At_Dispose) (T 0 1 (Lock_Cas 1)))"
    by (rule go [where i = 0]) (use sp_step.release [of "T 1 0 Outside" "S 1 2 0 (T 1 0 Outside) (T 0 1 (Lock_Cas 1))" 0 1 0] in \<open>simp_all add: ev\<close>)
  then have "sp_system_reach 1 (S 0 2 0 (T 0 0 At_Dispose) (T 0 1 Lock_Load))"
    by (rule go [where i = 1]) (use sp_step.lock_cas [of "T 0 1 (Lock_Cas 1)" 1 "S 0 2 0 (T 0 0 At_Dispose) (T 0 1 (Lock_Cas 1))" 0 0 1] in \<open>simp_all add: ev\<close>)
  then have "sp_system_reach 1 (S 0 2 0 (T 0 0 At_Dispose) (T 0 1 Outside))"
    by (rule go [where i = 1]) (use sp_step.lock_load [of "T 0 1 Lock_Load" 0 "S 0 2 0 (T 0 0 At_Dispose) (T 0 1 Lock_Load)" 1] in \<open>simp_all add: ev\<close>)
  then have "sp_system_reach 1 (S 0 2 1 (T 0 0 At_Weak_Release) (T 0 1 Outside))"
    by (rule go [where i = 0]) (use sp_step.dispose [of "T 0 0 At_Dispose" 0 "S 0 2 0 (T 0 0 At_Dispose) (T 0 1 Outside)"] in \<open>simp_all add: ev\<close>)
  then have "sp_system_reach 1 (S 0 1 1 (T 0 0 Outside) (T 0 1 Outside))"
    by (rule go [where i = 0]) (use sp_step.release_weak [of "T 0 0 At_Weak_Release" "S 0 2 1 (T 0 0 At_Weak_Release) (T 0 1 Outside)" 1 2 0] in \<open>simp_all add: ev\<close>)
  then show ?thesis by (simp add: S_def T_def)
qed

theorem shared_count_threads_witness:
  "\<exists>s. sp_system_reach 1 s \<and> \<not> s_fault s \<and> unat (s_use s) = shared_total s \<and> s_disposed s = 1 \<and> s_destroyed s = 0"
  using shared_count_threads [OF lost_race] lost_race by (auto simp: tot_def)

end
