(* ===== verification/Spin_Mutex.thy ===== *)
theory Spin_Mutex
  imports Interleave
begin

text \<open>
  The mutex that waits in a loop, sync/spin/mutex.hpp, and the recursive mutex over it, sync/spin/recursive\_mutex.hpp,
  with the loops of sync/detail/common\_algorithms.hpp that they use (without the macro that limits the time of a
  lock). Every access to a shared variable is a step of its own.
\<close>

section \<open>Taking the mutex\<close>

text \<open>
  \<^verbatim>\<open>lock\<close> tries until it succeeds (\<^verbatim>\<open>try_based_lock\<close>), \<^verbatim>\<open>try_lock\<close> once, \<^verbatim>\<open>timed_lock\<close> until a time
  (\<^verbatim>\<open>try_based_timed_lock\<close>), or as \<^verbatim>\<open>lock\<close> if the time is infinite. A thread is about to exchange the variable, about to read
  it again with the old value in hand, or about to look at the clock.
\<close>

datatype lock_mode = Blocking | Trying | Timed

definition timed_mode :: "bool \<Rightarrow> lock_mode" where
  "timed_mode forever = (if forever then Blocking else Timed)"

datatype acquiring = Try_Cas | Try_Check uint32 | At_Clock

datatype acquired = Pending acquiring | Acquired | Refused

fun acquire_step :: "lock_mode \<Rightarrow> bool \<Rightarrow> acquiring \<Rightarrow> uint32 \<Rightarrow> uint32 \<times> acquired" where
  "acquire_step md late Try_Cas m_s = (case atomic_cas32 m_s 1 0 of (m_s', prev_s) \<Rightarrow> (m_s', Pending (Try_Check prev_s)))"
| "acquire_step md late (Try_Check prev_s) m_s =
     (m_s, if m_s = 1 \<and> prev_s = 0 then Acquired
           else (case md of Blocking \<Rightarrow> Pending Try_Cas | Trying \<Rightarrow> Refused | Timed \<Rightarrow> Pending At_Clock))"
| "acquire_step md late At_Clock m_s = (m_s, if late then Refused else Pending Try_Cas)"

definition spin_unlock :: "uint32 \<Rightarrow> uint32" where
  "spin_unlock m_s = fst (atomic_cas32 m_s 0 1)"

text \<open>A call of an operation, or the next step of the one under way; the flag says whether the time is over.\<close>

datatype spin_call = Lock | Try_lock | Timed_lock bool | Unlock | Go bool

fun call_mode :: "spin_call \<Rightarrow> lock_mode option" where
  "call_mode Lock = Some Blocking"
| "call_mode Try_lock = Some Trying"
| "call_mode (Timed_lock forever) = Some (timed_mode forever)"
| "call_mode _ = None"

section \<open>spin\_mutex\<close>

datatype spin_thread = Free | Locking lock_mode acquiring | Owner

fun after_acquire :: "lock_mode \<Rightarrow> acquired \<Rightarrow> spin_thread" where
  "after_acquire md (Pending a) = Locking md a"
| "after_acquire md Acquired = Owner"
| "after_acquire md Refused = Free"

fun spin_step :: "spin_call \<Rightarrow> nat \<Rightarrow> spin_thread \<Rightarrow> uint32 \<Rightarrow> (uint32 \<times> spin_thread) option" where
  "spin_step c i Free m_s = map_option (\<lambda>md. (m_s, Locking md Try_Cas)) (call_mode c)"
| "spin_step (Go late) i (Locking md a) m_s = (case acquire_step md late a m_s of (m_s', r) \<Rightarrow> Some (m_s', after_acquire md r))"
| "spin_step Unlock i Owner m_s = Some (spin_unlock m_s, Free)"
| "spin_step _ _ _ _ = None"

section \<open>spin\_recursive\_mutex\<close>

text \<open>An id is one word, as on all platforms but the fallback for unknown ones; -1 is no thread.\<close>

record rec_mutex =
  r_s :: uint32
  r_count :: uint32
  r_owner :: int

datatype rec_place = R_Out | R_Owner lock_mode | R_Again | R_Incr | R_Acquire lock_mode acquiring | R_Set_Owner | R_Set_Count
  | R_Assert | R_Failed | R_Dec | R_Test | R_Clear_Owner | R_Release

text \<open>The thread, with the number of locks it holds and whether its last call threw.\<close>

record rec_thread =
  r_at :: rec_place
  depth :: nat
  thrown :: bool

definition invalid_id :: int where
  "invalid_id = -1"

fun rec_after :: "lock_mode \<Rightarrow> acquired \<Rightarrow> rec_place" where
  "rec_after md (Pending a) = R_Acquire md a"
| "rec_after md Acquired = R_Set_Owner"
| "rec_after md Refused = R_Out"

definition rec_step :: "(nat \<Rightarrow> int) \<Rightarrow> spin_call \<Rightarrow> nat \<Rightarrow> rec_thread \<Rightarrow> rec_mutex \<Rightarrow> (rec_mutex \<times> rec_thread) option" where
  "rec_step ids c i t g =
     (case (c, r_at t) of
        (Unlock, R_Out) \<Rightarrow> if 0 < depth t then Some (g, t\<lparr>r_at := R_Assert, thrown := False\<rparr>) else None
      | (_, R_Out) \<Rightarrow> map_option (\<lambda>md. (g, t\<lparr>r_at := R_Owner md, thrown := False\<rparr>)) (call_mode c)
      | (Go late, R_Owner md) \<Rightarrow> Some (g, t\<lparr>r_at := if ids i = r_owner g then R_Again else R_Acquire md Try_Cas\<rparr>)
      | (Go late, R_Again) \<Rightarrow> Some (g, if r_count g + 1 = 0 then t\<lparr>r_at := R_Out, thrown := True\<rparr> else t\<lparr>r_at := R_Incr\<rparr>)
      | (Go late, R_Incr) \<Rightarrow> Some (g\<lparr>r_count := r_count g + 1\<rparr>, t\<lparr>r_at := R_Out, depth := depth t + 1\<rparr>)
      | (Go late, R_Acquire md a) \<Rightarrow> (case acquire_step md late a (r_s g) of (m_s, r) \<Rightarrow> Some (g\<lparr>r_s := m_s\<rparr>, t\<lparr>r_at := rec_after md r\<rparr>))
      | (Go late, R_Set_Owner) \<Rightarrow> Some (g\<lparr>r_owner := ids i\<rparr>, t\<lparr>r_at := R_Set_Count\<rparr>)
      | (Go late, R_Set_Count) \<Rightarrow> Some (g\<lparr>r_count := 1\<rparr>, t\<lparr>r_at := R_Out, depth := 1\<rparr>)
      | (Go late, R_Assert) \<Rightarrow> Some (g, t\<lparr>r_at := if ids i = r_owner g then R_Dec else R_Failed\<rparr>)
      | (Go late, R_Dec) \<Rightarrow> Some (g\<lparr>r_count := r_count g - 1\<rparr>, t\<lparr>r_at := R_Test, depth := depth t - 1\<rparr>)
      | (Go late, R_Test) \<Rightarrow> Some (g, t\<lparr>r_at := if r_count g = 0 then R_Clear_Owner else R_Out\<rparr>)
      | (Go late, R_Clear_Owner) \<Rightarrow> Some (g\<lparr>r_owner := invalid_id\<rparr>, t\<lparr>r_at := R_Release\<rparr>)
      | (Go late, R_Release) \<Rightarrow> Some (g\<lparr>r_s := spin_unlock (r_s g)\<rparr>, t\<lparr>r_at := R_Out\<rparr>)
      | _ \<Rightarrow> None)"

definition rec_begin :: rec_mutex where
  "rec_begin = \<lparr>r_s = 0, r_count = 0, r_owner = invalid_id\<rparr>"

definition rec_idle :: rec_thread where
  "rec_idle = \<lparr>r_at = R_Out, depth = 0, thrown = False\<rparr>"

section \<open>Who holds the variable\<close>

fun acq_holds :: "acquiring \<Rightarrow> nat" where
  "acq_holds (Try_Check prev_s) = (if prev_s = 0 then 1 else 0)"
| "acq_holds _ = 0"

fun res_holds :: "acquired \<Rightarrow> nat" where
  "res_holds (Pending a) = acq_holds a"
| "res_holds Acquired = 1"
| "res_holds Refused = 0"

lemma acq_holds_pos: "0 < acq_holds a \<longleftrightarrow> a = Try_Check 0"
  by (cases a) auto

text \<open>The variable is the number of holders, others and this thread, which is 0 or 1; a step of acquiring keeps that.\<close>

lemma acquire_keeps:
  assumes "acquire_step md late a m_s = (m_s', r)" "unat m_s = n + acq_holds a" "n + acq_holds a \<le> 1"
  shows "unat m_s' = n + res_holds r \<and> n + res_holds r \<le> 1"
proof (cases a)
  case Try_Cas
  then show ?thesis using assms by (auto simp: atomic_cas32_def unat_eq_0 split: if_splits)
next
  case (Try_Check prev)
  have "m_s = 1 \<longleftrightarrow> unat m_s = 1" using dec_nat(2) [of m_s] by auto
  then show ?thesis using assms Try_Check by (auto split: if_splits lock_mode.splits)
qed (use assms in \<open>auto split: if_splits\<close>)

lemma unlock_keeps: "unat m_s = n + 1 \<Longrightarrow> n + 1 \<le> 1 \<Longrightarrow> unat (spin_unlock m_s) = n"
  using dec_nat(2) [of m_s] by (auto simp: spin_unlock_def atomic_cas32_def)

fun spin_holds :: "spin_thread \<Rightarrow> nat" where
  "spin_holds Free = 0"
| "spin_holds (Locking md a) = acq_holds a"
| "spin_holds Owner = 1"

definition spin_inv :: "uint32 \<Rightarrow> spin_thread list \<Rightarrow> bool" where
  "spin_inv m_s ls \<longleftrightarrow> unat m_s = tot spin_holds ls \<and> tot spin_holds ls \<le> 1"

lemma after_acquire_holds [simp]: "spin_holds (after_acquire md r) = res_holds r"
  by (cases r) auto

text \<open>A thread of a total: the others and this one.\<close>

lemma others:
  assumes "i < length ls"
  obtains n where "tot f ls = n + f (ls ! i)" "\<And>l. tot f (ls[i := l]) = n + f l"
  using assms tot_ge [OF assms, of f] by (intro that [of "tot f ls - f (ls ! i)"]) (auto simp: tot_set)

lemma spin_keeps:
  assumes inv: "spin_inv g ls" and i: "i < length ls" and st: "spin_step c i (ls ! i) g = Some (g', l')"
  shows "spin_inv g' (ls[i := l'])"
proof -
  obtain n where n: "tot spin_holds ls = n + spin_holds (ls ! i)" "\<And>l. tot spin_holds (ls[i := l]) = n + spin_holds l"
    using others [OF i, of spin_holds] by metis
  have inv: "unat g = n + spin_holds (ls ! i)" "n + spin_holds (ls ! i) \<le> 1" using inv n by (simp_all add: spin_inv_def)
  have "unat g' = n + spin_holds l' \<and> n + spin_holds l' \<le> 1"
  proof (cases "ls ! i")
    case Free
    then show ?thesis using st inv by (auto split: option.splits)
  next
    case (Locking md a)
    obtain late where c: "c = Go late" using st Locking by (cases c) auto
    obtain m r where a: "acquire_step md late a g = (m, r)" by fastforce
    then show ?thesis using acquire_keeps [OF a, of n] inv st Locking c by auto
  next
    case Owner
    have "c = Unlock" using st Owner by (cases c) auto
    then show ?thesis using unlock_keeps [of g n] st inv Owner by auto
  qed
  then show ?thesis by (simp add: spin_inv_def n)
qed

interpretation spm: interleaving spin_step 0 "replicate n Free" spin_inv for n
  by unfold_locales (simp add: spin_inv_def, rule spin_keeps)

text \<open>
  C24: Any number of threads that call lock, try\_lock, timed\_lock and, while they own it, unlock: at most one owns the
  mutex. A thread that is about to exchange the variable either meets a thread that owns the mutex or is the next to
  own it, or two steps of its own make it the owner, so neither a lock waits for nobody nor a try\_lock is refused
  without reason.
\<close>

theorem spin_mutex_exclusion:
  assumes reach: "il_reach spin_step 0 (replicate n Free) (m_s, ls)"
  shows "(\<forall>i<length ls. \<forall>j<length ls. ls ! i = Owner \<and> ls ! j = Owner \<longrightarrow> i = j)
    \<and> (\<forall>i<length ls. \<forall>md. ls ! i = Locking md Try_Cas \<longrightarrow>
        (\<exists>j<length ls. j \<noteq> i \<and> (ls ! j = Owner \<or> (\<exists>md'. ls ! j = Locking md' (Try_Check 0))))
        \<or> il_run spin_step [(i, Go late), (i, Go late)] (m_s, ls) = Some (1, ls[i := Owner]))"
proof -
  have inv: "unat m_s = tot spin_holds ls" "tot spin_holds ls \<le> 1" using spm.reach_inv [OF reach] by (simp_all add: spin_inv_def)
  have "i = j" if "i < length ls" "j < length ls" "ls ! i = Owner" "ls ! j = Owner" for i j
    using tot_two [OF that(1,2), of spin_holds] that inv by fastforce
  moreover have "(\<exists>j<length ls. j \<noteq> i \<and> (ls ! j = Owner \<or> (\<exists>md'. ls ! j = Locking md' (Try_Check 0))))
      \<or> il_run spin_step [(i, Go late), (i, Go late)] (m_s, ls) = Some (1, ls[i := Owner])"
    if i: "i < length ls" "ls ! i = Locking md Try_Cas" for i md
  proof (cases "m_s = 0")
    case True
    then show ?thesis using i by (simp add: atomic_cas32_def)
  next
    case False
    then have "0 < tot spin_holds ls" using inv by (simp add: unat_gt_0 flip: inv(1))
    then obtain j where j: "j < length ls" "0 < spin_holds (ls ! j)" unfolding tot_pos by blast
    then have "j \<noteq> i" using i by auto
    moreover have "ls ! j = Owner \<or> (\<exists>md'. ls ! j = Locking md' (Try_Check 0))"
      using j(2) by (cases "ls ! j") (auto simp: acq_holds_pos)
    ultimately show ?thesis using j(1) by blast
  qed
  ultimately show ?thesis by blast
qed

theorem spin_mutex_exclusion_witness:
  "il_run spin_step [(0, Lock), (1, Try_lock), (0, Go False), (1, Go False), (0, Go False), (1, Go False), (0, Unlock), (1, Lock)]
     (0, replicate 2 Free) = Some (0, [Free, Locking Blocking Try_Cas])
   \<and> il_run spin_step [(1, Go False), (1, Go False)] (0, [Free, Locking Blocking Try_Cas]) = Some (1, [Free, Owner])"
proof -
  have e: "il_run spin_step [(0, Lock), (1, Try_lock), (0, Go False), (1, Go False), (0, Go False), (1, Go False), (0, Unlock), (1, Lock)]
     (0, replicate 2 Free) = Some (0, [Free, Locking Blocking Try_Cas])"
    by (simp add: numeral_2_eq_2 atomic_cas32_def spin_unlock_def)
  have r: "il_reach spin_step 0 (replicate 2 Free) (0, [Free, Locking Blocking Try_Cas])"
    by (rule il_run_reach [OF e il_start])
  have "(\<exists>j<2. j \<noteq> 1 \<and> ([Free, Locking Blocking Try_Cas] ! j = Owner \<or> (\<exists>md'. [Free, Locking Blocking Try_Cas] ! j = Locking md' (Try_Check 0))))
      \<or> il_run spin_step [(1, Go False), (1, Go False)] (0, [Free, Locking Blocking Try_Cas]) = Some (1, [Free, Owner])"
    using spin_mutex_exclusion [OF r, of False, THEN conjunct2, rule_format, of 1 Blocking] by (simp del: il_run.simps add: numeral_2_eq_2)
  moreover have "\<not> (\<exists>j<2. j \<noteq> 1 \<and> ([Free, Locking Blocking Try_Cas] ! j = Owner \<or> (\<exists>md'. [Free, Locking Blocking Try_Cas] ! j = Locking md' (Try_Check 0))))"
    by (auto simp: numeral_2_eq_2 less_Suc_eq)
  ultimately show ?thesis using e by blast
qed

section \<open>The recursive mutex\<close>

lemma inc_wraps: "x + 1 = 0 \<longleftrightarrow> \<not> unat x + 1 < 2 ^ 32" for x :: uint32
proof (cases "unat x + 1 < 2 ^ 32")
  case True
  then have "unat (x + 1) = unat x + 1" by (rule inc_nat)
  then show ?thesis using True by (auto simp flip: unat_eq_0)
next
  case False
  moreover have "unat x < 2 ^ LENGTH(32)" by (rule unsigned_less)
  ultimately have "unat x = 2 ^ 32 - 1" by simp
  then have "x = - 1" by (simp add: word_of_nat_unat_eq unsigned_minus_1_eq_mask mask_eq_exp_minus_1)
  then show ?thesis using False by simp
qed

definition rec_place_holds :: "rec_place \<Rightarrow> nat" where
  "rec_place_holds p = (case p of R_Acquire md a \<Rightarrow> acq_holds a | R_Set_Owner \<Rightarrow> 1 | R_Set_Count \<Rightarrow> 1 | R_Test \<Rightarrow> 1 | R_Clear_Owner \<Rightarrow> 1
     | R_Release \<Rightarrow> 1 | _ \<Rightarrow> 0)"

definition rec_holds :: "rec_thread \<Rightarrow> nat" where
  "rec_holds t = (if 0 < depth t then 1 else rec_place_holds (r_at t))"

text \<open>The owner variable names the thread, and the count is its number of locks.\<close>

definition owner_set :: "rec_thread \<Rightarrow> bool" where
  "owner_set t \<longleftrightarrow> 0 < depth t \<or> r_at t \<in> {R_Set_Count, R_Test, R_Clear_Owner}"

definition count_set :: "rec_thread \<Rightarrow> bool" where
  "count_set t \<longleftrightarrow> 0 < depth t \<or> r_at t = R_Test"

definition rec_wf :: "rec_thread \<Rightarrow> bool" where
  "rec_wf t \<longleftrightarrow> (case r_at t of
      R_Acquire md a \<Rightarrow> depth t = 0 | R_Set_Owner \<Rightarrow> depth t = 0 | R_Set_Count \<Rightarrow> depth t = 0 | R_Clear_Owner \<Rightarrow> depth t = 0
    | R_Release \<Rightarrow> depth t = 0 | R_Again \<Rightarrow> 0 < depth t | R_Incr \<Rightarrow> 0 < depth t \<and> depth t + 1 < 2 ^ 32 | R_Assert \<Rightarrow> 0 < depth t
    | R_Dec \<Rightarrow> 0 < depth t | R_Failed \<Rightarrow> False | _ \<Rightarrow> True)"

definition rec_inv :: "(nat \<Rightarrow> int) \<Rightarrow> rec_mutex \<Rightarrow> rec_thread list \<Rightarrow> bool" where
  "rec_inv ids g ls \<longleftrightarrow> unat (r_s g) = tot rec_holds ls \<and> tot rec_holds ls \<le> 1
     \<and> (\<forall>i<length ls. (r_owner g = ids i) = owner_set (ls ! i))
     \<and> (\<forall>t\<in>set ls. (count_set t \<longrightarrow> unat (r_count g) = depth t) \<and> rec_wf t)
     \<and> inj_on ids {..<length ls} \<and> (\<forall>i<length ls. ids i \<noteq> invalid_id)"

lemmas rec_simps = rec_holds_def rec_place_holds_def owner_set_def count_set_def rec_wf_def

lemma owner_holds: "owner_set t \<Longrightarrow> rec_wf t \<Longrightarrow> rec_holds t = 1" "count_set t \<Longrightarrow> owner_set t"
  by (auto simp: rec_simps split: rec_place.splits)

text \<open>What a step of thread \<open>i\<close> must show; the other threads own nothing if it holds the mutex.\<close>

lemma rec_inv_upd:
  assumes inv: "rec_inv ids g ls" and i: "i < length ls"
    and s: "\<And>n. unat (r_s g) = n + rec_holds (ls ! i) \<Longrightarrow> n + rec_holds (ls ! i) \<le> 1 \<Longrightarrow> unat (r_s g') = n + rec_holds l' \<and> n + rec_holds l' \<le> 1"
    and own: "r_owner g' = ids i \<longleftrightarrow> owner_set l'"
    and frame: "rec_holds (ls ! i) = 0 \<Longrightarrow> r_owner g' = r_owner g \<and> r_count g' = r_count g"
    and mine: "r_owner g' \<in> {r_owner g, ids i, invalid_id}"
    and l': "(count_set l' \<longrightarrow> unat (r_count g') = depth l') \<and> rec_wf l'"
  shows "rec_inv ids g' (ls[i := l'])"
proof -
  obtain n where n: "tot rec_holds ls = n + rec_holds (ls ! i)" "\<And>l. tot rec_holds (ls[i := l]) = n + rec_holds l"
    using others [OF i, of rec_holds] by metis
  have I: "unat (r_s g) = n + rec_holds (ls ! i)" "n + rec_holds (ls ! i) \<le> 1" "inj_on ids {..<length ls}"
    and O: "\<And>j. j < length ls \<Longrightarrow> (r_owner g = ids j) = owner_set (ls ! j)" "\<And>j. j < length ls \<Longrightarrow> ids j \<noteq> invalid_id"
    and T: "\<And>j. j < length ls \<Longrightarrow> (count_set (ls ! j) \<longrightarrow> unat (r_count g) = depth (ls ! j)) \<and> rec_wf (ls ! j)"
    using inv n by (auto simp: rec_inv_def)
  have other: "(r_owner g' = ids j) = owner_set (ls ! j) \<and> (count_set (ls ! j) \<longrightarrow> unat (r_count g') = depth (ls ! j))"
    if j: "j < length ls" "j \<noteq> i" for j
  proof (cases "rec_holds (ls ! i) = 0")
    case True
    then show ?thesis using frame O T j by auto
  next
    case False
    then have "rec_holds (ls ! j) = 0" using tot_two [OF j(1) i j(2), of rec_holds] I n by linarith
    then have no: "\<not> owner_set (ls ! j)" using owner_holds(1) T [OF j(1)] by fastforce
    moreover have "ids j \<noteq> ids i" using I(3) j i by (auto simp: inj_on_def)
    moreover have "r_owner g \<noteq> ids j" "ids j \<noteq> invalid_id" using O j(1) no by simp_all
    ultimately show ?thesis using mine owner_holds(2) by auto
  qed
  have "(r_owner g' = ids j) = owner_set (ls[i := l'] ! j)" if "j < length ls" for j
    using other own that by (cases "j = i") auto
  moreover have "(count_set t \<longrightarrow> unat (r_count g') = depth t) \<and> rec_wf t" if m: "t \<in> set (ls[i := l'])" for t
  proof -
    obtain j where "j < length ls" "t = ls[i := l'] ! j" using m by (auto simp: in_set_conv_nth)
    then show ?thesis using other [of j] l' T [of j] i by (cases "j = i") simp_all
  qed
  ultimately show ?thesis using s [OF I(1,2)] I(3) O(2) n(2) by (simp add: rec_inv_def)
qed

lemma rec_keeps:
  assumes inv: "rec_inv ids g ls" and i: "i < length ls" and st: "rec_step ids c i (ls ! i) g = Some (g', l')"
  shows "rec_inv ids g' (ls[i := l'])"
proof -
  define t where "t = ls ! i"
  have t: "t \<in> set ls" "(r_owner g = ids i) = owner_set t" "count_set t \<Longrightarrow> unat (r_count g) = depth t" "rec_wf t" "ids i \<noteq> invalid_id"
    using inv i by (auto simp: rec_inv_def t_def)
  note upd = rec_inv_upd [OF inv i, folded t_def]
  have up: "unat (r_count g) + 1 < 2 ^ 32" if "r_count g + 1 \<noteq> 0" using that inc_wraps [of "r_count g"] by blast
  note E = st [folded t_def, unfolded rec_step_def]
  show ?thesis
  proof (cases "r_at t")
    case R_Out
    then have e: "g' = g" "\<exists>p b. l' = t\<lparr>r_at := p, thrown := b\<rparr> \<and> (p = R_Assert \<and> 0 < depth t \<or> (\<exists>md. p = R_Owner md))"
      using E by (cases c; auto split: if_splits)+
    show ?thesis by (rule upd) (use t e R_Out in \<open>auto simp: rec_simps\<close>)
  next
    case (R_Acquire md a)
    then obtain late m r where c: "acquire_step md late a (r_s g) = (m, r)" "g' = g\<lparr>r_s := m\<rparr>" "l' = t\<lparr>r_at := rec_after md r\<rparr>"
      using E by (cases c) (auto split: prod.splits)
    have r: "rec_holds l' = res_holds r" "owner_set l' = owner_set t" "rec_wf l'" "\<not> count_set l'"
      using c t R_Acquire by (cases r; auto simp: rec_simps)+
    show ?thesis by (rule upd) (use acquire_keeps [OF c(1)] c(2) t R_Acquire r in \<open>auto simp: rec_holds_def rec_place_holds_def rec_wf_def\<close>)
  next
    case (R_Owner md)
    then have e: "g' = g" "l' = t\<lparr>r_at := if ids i = r_owner g then R_Again else R_Acquire md Try_Cas\<rparr>" using E by (cases c; simp)+
    show ?thesis by (rule upd) (use t e R_Owner in \<open>auto simp: rec_simps split: if_splits\<close>)
  next
    case R_Again
    then have e: "g' = g" "l' = (if r_count g + 1 = 0 then t\<lparr>r_at := R_Out, thrown := True\<rparr> else t\<lparr>r_at := R_Incr\<rparr>)" using E by (cases c; simp)+
    show ?thesis by (rule upd) (use t e R_Again up in \<open>auto simp: rec_simps split: if_splits\<close>)
  next
    case R_Incr
    then have e: "g' = g\<lparr>r_count := r_count g + 1\<rparr>" "l' = t\<lparr>r_at := R_Out, depth := depth t + 1\<rparr>" using E by (cases c; simp)+
    show ?thesis by (rule upd) (use t e R_Incr inc_nat [of "r_count g"] in \<open>auto simp: rec_simps split: if_splits\<close>)
  next
    case R_Set_Owner
    then have e: "g' = g\<lparr>r_owner := ids i\<rparr>" "l' = t\<lparr>r_at := R_Set_Count\<rparr>" using E by (cases c; simp)+
    show ?thesis by (rule upd) (use t e R_Set_Owner in \<open>auto simp: rec_simps split: if_splits\<close>)
  next
    case R_Set_Count
    then have e: "g' = g\<lparr>r_count := 1\<rparr>" "l' = t\<lparr>r_at := R_Out, depth := 1\<rparr>" using E by (cases c; simp)+
    show ?thesis by (rule upd) (use t e R_Set_Count in \<open>auto simp: rec_simps split: if_splits\<close>)
  next
    case R_Assert
    then have e: "g' = g" "l' = t\<lparr>r_at := if ids i = r_owner g then R_Dec else R_Failed\<rparr>" using E by (cases c; simp)+
    show ?thesis by (rule upd) (use t e R_Assert in \<open>auto simp: rec_simps split: if_splits\<close>)
  next
    case R_Dec
    then have e: "g' = g\<lparr>r_count := r_count g - 1\<rparr>" "l' = t\<lparr>r_at := R_Test, depth := depth t - 1\<rparr>" using E by (cases c; simp)+
    show ?thesis by (rule upd) (use t e R_Dec dec_nat(1) [of "r_count g"] unat_eq_0 [of "r_count g"] in \<open>auto simp: rec_simps split: if_splits\<close>)
  next
    case R_Test
    then have e: "g' = g" "l' = t\<lparr>r_at := if r_count g = 0 then R_Clear_Owner else R_Out\<rparr>" using E by (cases c; simp)+
    show ?thesis by (rule upd) (use t e R_Test unat_eq_0 [of "r_count g"] in \<open>auto simp: rec_simps split: if_splits\<close>)
  next
    case R_Clear_Owner
    then have e: "g' = g\<lparr>r_owner := invalid_id\<rparr>" "l' = t\<lparr>r_at := R_Release\<rparr>" using E by (cases c; simp)+
    show ?thesis by (rule upd) (use t e R_Clear_Owner in \<open>auto simp: rec_simps split: if_splits\<close>)
  next
    case R_Release
    then have e: "g' = g\<lparr>r_s := spin_unlock (r_s g)\<rparr>" "l' = t\<lparr>r_at := R_Out\<rparr>" using E by (cases c; simp)+
    show ?thesis by (rule upd) (use t e R_Release unlock_keeps [of "r_s g"] in \<open>auto simp: rec_simps split: if_splits\<close>)
  next
    case R_Failed
    then show ?thesis using t(4) by (simp add: rec_wf_def)
  qed
qed

lemma rec_start: "inj_on ids {..<n} \<Longrightarrow> \<forall>i<n. ids i \<noteq> invalid_id \<Longrightarrow> rec_inv ids rec_begin (replicate n rec_idle)"
  by (auto simp: rec_inv_def rec_begin_def rec_idle_def rec_simps)

lemma rec_interleaving:
  assumes "inj_on ids {..<n}" "\<forall>i<n. ids i \<noteq> invalid_id"
  shows "interleaving (rec_step ids) rec_begin (replicate n rec_idle) (rec_inv ids)"
  using assms by unfold_locales (rule rec_start, simp_all add: rec_keeps)

text \<open>
  C23: Threads with different ids that call lock, try\_lock, timed\_lock and, while they hold it, unlock: at most one of
  them holds the recursive mutex, and then the count is the number of its locks and the assertion in unlock
  holds. A thread that holds it takes another lock without waiting, or gets an exception and nothing changes when the
  count cannot go up; its last unlock leaves the mutex as it was constructed.
\<close>

theorem spin_recursive_exclusion:
  assumes ids: "inj_on ids {..<n}" "\<forall>i<n. ids i \<noteq> invalid_id"
    and reach: "il_reach (rec_step ids) rec_begin (replicate n rec_idle) (g, ls)"
  shows "(\<forall>i<n. \<forall>j<n. 0 < depth (ls ! i) \<and> 0 < depth (ls ! j) \<longrightarrow> i = j)
    \<and> (\<forall>i<n. r_at (ls ! i) \<noteq> R_Failed \<and> (0 < depth (ls ! i) \<longrightarrow> unat (r_count g) = depth (ls ! i)))
    \<and> (\<forall>i<n. r_at (ls ! i) = R_Out \<and> 0 < depth (ls ! i) \<longrightarrow>
        il_run (rec_step ids) ([(i, Lock)] @ replicate (if depth (ls ! i) = 2 ^ 32 - 1 then 2 else 3) (i, Go late)) (g, ls) =
          (if depth (ls ! i) = 2 ^ 32 - 1 then Some (g, ls[i := (ls ! i)\<lparr>thrown := True\<rparr>])
           else Some (g\<lparr>r_count := r_count g + 1\<rparr>, ls[i := (ls ! i)\<lparr>depth := depth (ls ! i) + 1, thrown := False\<rparr>])))
    \<and> (\<forall>i<n. r_at (ls ! i) = R_Out \<and> depth (ls ! i) = 1 \<longrightarrow>
        il_run (rec_step ids) ([(i, Unlock)] @ replicate 5 (i, Go late)) (g, ls) = Some (rec_begin, ls[i := rec_idle]))"
proof -
  note il = rec_interleaving [OF ids]
  have inv: "rec_inv ids g ls" using interleaving.reach_inv [OF il reach] by simp
  have len: "length ls = n" using interleaving.reach_length [OF il reach] by simp
  have I: "unat (r_s g) = tot rec_holds ls" "tot rec_holds ls \<le> 1"
    and T: "\<And>i. i < n \<Longrightarrow> (r_owner g = ids i) = owner_set (ls ! i) \<and> (count_set (ls ! i) \<longrightarrow> unat (r_count g) = depth (ls ! i)) \<and> rec_wf (ls ! i)"
    using inv len by (auto simp: rec_inv_def)
  have own: "r_owner g = ids i" "unat (r_count g) = depth (ls ! i)" if "i < n" "0 < depth (ls ! i)" for i
    using T [OF that(1)] that(2) by (simp_all add: owner_set_def count_set_def)
  have one: "i = j" if "i < n" "j < n" "0 < depth (ls ! i)" "0 < depth (ls ! j)" for i j
    using tot_two [of i ls j rec_holds] that I len by (fastforce simp: rec_holds_def)
  have again: "il_run (rec_step ids) ([(i, Lock)] @ replicate (if depth (ls ! i) = 2 ^ 32 - 1 then 2 else 3) (i, Go late)) (g, ls) =
      (if depth (ls ! i) = 2 ^ 32 - 1 then Some (g, ls[i := (ls ! i)\<lparr>thrown := True\<rparr>])
       else Some (g\<lparr>r_count := r_count g + 1\<rparr>, ls[i := (ls ! i)\<lparr>depth := depth (ls ! i) + 1, thrown := False\<rparr>]))"
    if i: "i < n" "r_at (ls ! i) = R_Out" "0 < depth (ls ! i)" for i
  proof -
    have "unat (r_count g) < 2 ^ LENGTH(32)" by (rule unsigned_less)
    then have w: "r_count g + 1 = 0 \<longleftrightarrow> depth (ls ! i) = 2 ^ 32 - 1" using inc_wraps [of "r_count g"] own [OF i(1,3)] by auto
    obtain d b where l: "ls ! i = \<lparr>r_at = R_Out, depth = d, thrown = b\<rparr>" using i by (cases "ls ! i") auto
    have r: "replicate 2 x = [x, x]" "replicate 3 x = [x, x, x]" for x :: "nat \<times> spin_call" by (simp_all add: numeral_eq_Suc)
    show ?thesis
    proof (cases "depth (ls ! i) = 2 ^ 32 - 1")
      case True
      then show ?thesis unfolding if_P [OF True] using own [OF i(1,3)] i len w l by (simp add: r rec_step_def)
    next
      case False
      then show ?thesis unfolding if_not_P [OF False] using own [OF i(1,3)] i len w l by (simp add: r rec_step_def)
    qed
  qed
  have last: "il_run (rec_step ids) ([(i, Unlock)] @ replicate 5 (i, Go late)) (g, ls) = Some (rec_begin, ls[i := rec_idle])"
    if i: "i < n" "r_at (ls ! i) = R_Out" "depth (ls ! i) = 1" for i
  proof -
    have "unat (r_s g) = 1" using I tot_ge [of i ls rec_holds] i len by (simp add: rec_holds_def)
    then have "r_s g = 1" "r_count g = 1" using dec_nat(2) [of "r_s g"] dec_nat(2) [of "r_count g"] own [of i] i by simp_all
    moreover obtain b where "ls ! i = \<lparr>r_at = R_Out, depth = 1, thrown = b\<rparr>" using i by (cases "ls ! i") auto
    moreover have "replicate 5 x = [x, x, x, x, x]" for x :: "nat \<times> spin_call" by (simp add: numeral_eq_Suc)
    ultimately show ?thesis using own [of i] i len
      by (simp add: rec_step_def spin_unlock_def atomic_cas32_def rec_begin_def rec_idle_def)
  qed
  have "r_at (ls ! i) \<noteq> R_Failed" if "i < n" for i using T [OF that] by (auto simp: rec_wf_def)
  then show ?thesis using one own(2) again last by blast
qed

theorem spin_recursive_exclusion_witness:
  "\<exists>g ls. il_run (rec_step int) ([(0, Lock)] @ replicate 5 (0, Go False)) (rec_begin, replicate 2 rec_idle) = Some (g, ls)
     \<and> depth (ls ! 0) = 1
     \<and> il_run (rec_step int) ([(0, Unlock)] @ replicate 5 (0, Go False)) (g, ls) = Some (rec_begin, ls[0 := rec_idle])"
proof -
  let ?g = "\<lparr>r_s = 1, r_count = 1, r_owner = 0\<rparr>" and ?ls = "[\<lparr>r_at = R_Out, depth = 1, thrown = False\<rparr>, rec_idle]"
  have r: "replicate 5 x = [x, x, x, x, x]" "replicate 2 y = [y, y]" for x :: "nat \<times> spin_call" and y :: rec_thread
    by (simp_all add: numeral_eq_Suc)
  have e: "il_run (rec_step int) ([(0, Lock)] @ replicate 5 (0, Go False)) (rec_begin, replicate 2 rec_idle) = Some (?g, ?ls)"
    by (simp add: r rec_step_def rec_begin_def rec_idle_def invalid_id_def atomic_cas32_def)
  have reach: "il_reach (rec_step int) rec_begin (replicate 2 rec_idle) (?g, ?ls)" by (rule il_run_reach [OF e il_start])
  have "inj_on int {..<2}" "\<forall>i<2. int i \<noteq> invalid_id" by (auto simp: invalid_id_def inj_on_def)
  from spin_recursive_exclusion [OF this reach, of False]
  have "il_run (rec_step int) ([(0, Unlock)] @ replicate 5 (0, Go False)) (?g, ?ls) = Some (rec_begin, ?ls[0 := rec_idle])" by force
  with e show ?thesis by (intro exI conjI) auto
qed

end
