(* ===== verification/Spin_Semaphore.thy ===== *)
theory Spin_Semaphore
  imports Spin_Mutex
begin

text \<open>
  The semaphore that waits in a loop, sync/spin/semaphore.hpp. A wait tries to take one from the count by
  \<^verbatim>\<open>atomic_add_unless32\<close> (detail/atomic.hpp), which reads the count and exchanges it until it is 0 or the exchange succeeds;
  the loops around it are those of the mutex. Every access to the count is a step.
\<close>

datatype sem_call = Post | Wait | Try_wait | Timed_wait bool | Sem_go bool

text \<open>About to read the count, about to exchange it with the value in hand, about to look at the clock.\<close>

datatype sem_place = Sem_Out | Sem_Read lock_mode | Sem_Cas lock_mode uint32 | Sem_Clock

text \<open>The count, and as a record of what happened the number of posts and of successful waits.\<close>

record sem =
  m_count :: uint32
  posted :: nat
  taken :: nat

definition sem_begin :: "uint32 \<Rightarrow> sem" where
  "sem_begin initialCount = \<lparr>m_count = initialCount, posted = 0, taken = 0\<rparr>"

fun wait_mode :: "sem_call \<Rightarrow> lock_mode option" where
  "wait_mode Wait = Some Blocking"
| "wait_mode Try_wait = Some Trying"
| "wait_mode (Timed_wait forever) = Some (timed_mode forever)"
| "wait_mode _ = None"

fun sem_failed :: "lock_mode \<Rightarrow> sem_place" where
  "sem_failed Blocking = Sem_Read Blocking"
| "sem_failed Trying = Sem_Out"
| "sem_failed Timed = Sem_Clock"

definition sem_with :: "lock_mode \<Rightarrow> uint32 \<Rightarrow> sem_place" where
  "sem_with md c = (if c \<noteq> 0 then Sem_Cas md c else sem_failed md)"

fun sem_step :: "sem_call \<Rightarrow> nat \<Rightarrow> sem_place \<Rightarrow> sem \<Rightarrow> (sem \<times> sem_place) option" where
  "sem_step Post i Sem_Out g = Some (g\<lparr>m_count := fst (atomic_inc32 (m_count g)), posted := posted g + 1\<rparr>, Sem_Out)"
| "sem_step c i Sem_Out g = map_option (\<lambda>md. (g, Sem_Read md)) (wait_mode c)"
| "sem_step (Sem_go late) i (Sem_Read md) g = Some (g, sem_with md (m_count g))"
| "sem_step (Sem_go late) i (Sem_Cas md c) g =
     (case atomic_cas32 (m_count g) (c + (- 1)) c of
        (new, old) \<Rightarrow> if old = c then Some (g\<lparr>m_count := new, taken := taken g + 1\<rparr>, Sem_Out)
                      else Some (g\<lparr>m_count := new\<rparr>, sem_with md old))"
| "sem_step (Sem_go late) i Sem_Clock g = Some (g, if late then Sem_Out else Sem_Read Timed)"
| "sem_step _ _ _ _ = None"

section \<open>The count is exact\<close>

fun cas_some :: "sem_place \<Rightarrow> bool" where
  "cas_some (Sem_Cas md c) = (c \<noteq> 0)"
| "cas_some _ = True"

definition sem_inv :: "uint32 \<Rightarrow> sem \<Rightarrow> sem_place list \<Rightarrow> bool" where
  "sem_inv k g ls \<longleftrightarrow> (unat k + posted g < 2 ^ 32 \<longrightarrow> unat (m_count g) + taken g = unat k + posted g) \<and> (\<forall>l\<in>set ls. cas_some l)"

lemma cas_some_with [simp]: "cas_some (sem_with md c)"
  by (cases md) (simp_all add: sem_with_def)

lemma sem_count_step:
  assumes "sem_step c i l g = Some (g', l')" "cas_some l"
    and "unat k + posted g < 2 ^ 32 \<Longrightarrow> unat (m_count g) + taken g = unat k + posted g" "unat k + posted g' < 2 ^ 32"
  shows "unat (m_count g') + taken g' = unat k + posted g'"
  using assms inc_nat [of "m_count g"] dec_nat(1) [of "m_count g"] unat_eq_0 [of "m_count g"]
  by (cases "(c, i, l, g)" rule: sem_step.cases) (auto simp: atomic_inc32_def atomic_cas32_def split: if_splits)

lemma sem_keeps:
  assumes inv: "sem_inv k g ls" and i: "i < length ls" and st: "sem_step c i (ls ! i) g = Some (g', l')"
  shows "sem_inv k g' (ls[i := l'])"
proof -
  have l: "cas_some (ls ! i)" "\<forall>l\<in>set ls. cas_some l" using inv i by (auto simp: sem_inv_def)
  have "cas_some l'" using st by (cases "(c, i, ls ! i, g)" rule: sem_step.cases) (auto split: prod.splits if_splits)
  then have "\<forall>l\<in>set (ls[i := l']). cas_some l" using l(2) set_update_subset_insert [of ls i l'] by blast
  then show ?thesis using sem_count_step [OF st l(1), of k] inv by (simp add: sem_inv_def)
qed

interpretation sps: interleaving sem_step "sem_begin k" "replicate n Sem_Out" "sem_inv k" for k n
  by unfold_locales (simp add: sem_inv_def sem_begin_def, rule sem_keeps)

text \<open>
  C38: Any number of threads that post and wait: as long as the initial count and the posts together stay below
  2^32, the count is their sum less the successful waits, so no more waits succeed than there were posts and
  initial count. A thread that waits and is not disturbed succeeds in two steps when the count is not 0. Beyond 2^32 the
  count wraps: a post to a semaphore with the count 2^32 - 1 leaves it empty, and a wait that follows is refused.
\<close>

theorem spin_semaphore_counts:
  assumes reach: "il_reach sem_step (sem_begin k) (replicate n Sem_Out) (g, ls)"
  shows "(unat k + posted g < 2 ^ 32 \<longrightarrow> unat (m_count g) + taken g = unat k + posted g)
    \<and> (\<forall>i<n. \<forall>md. ls ! i = Sem_Read md \<and> m_count g \<noteq> 0 \<longrightarrow>
        il_run sem_step [(i, Sem_go late), (i, Sem_go late)] (g, ls) =
          Some (g\<lparr>m_count := m_count g - 1, taken := taken g + 1\<rparr>, ls[i := Sem_Out]))
    \<and> (\<forall>i<n. ls ! i = Sem_Out \<and> m_count g = - 1 \<longrightarrow>
        il_run sem_step [(i, Post), (i, Try_wait), (i, Sem_go late)] (g, ls) = Some (g\<lparr>m_count := 0, posted := posted g + 1\<rparr>, ls))"
proof -
  have len: "length ls = n" using sps.reach_length [OF reach] by simp
  have "il_run sem_step [(i, Sem_go late), (i, Sem_go late)] (g, ls) =
      Some (g\<lparr>m_count := m_count g - 1, taken := taken g + 1\<rparr>, ls[i := Sem_Out])"
    if "i < n" "ls ! i = Sem_Read md" "m_count g \<noteq> 0" for i md
    using that len by (simp add: sem_with_def atomic_cas32_def)
  moreover have "il_run sem_step [(i, Post), (i, Try_wait), (i, Sem_go late)] (g, ls) = Some (g\<lparr>m_count := 0, posted := posted g + 1\<rparr>, ls)"
    if "i < n" "ls ! i = Sem_Out" "m_count g = - 1" for i
    using that len list_update_id [of ls i] by (simp add: sem_with_def atomic_inc32_def)
  ultimately show ?thesis using sps.reach_inv [OF reach] unfolding sem_inv_def by auto
qed

theorem spin_semaphore_counts_witness:
  "\<exists>g. il_run sem_step [(0, Post), (1, Wait)] (sem_begin 0, replicate 2 Sem_Out) = Some (g, [Sem_Out, Sem_Read Blocking])
    \<and> il_run sem_step [(1, Sem_go False), (1, Sem_go False)] (g, [Sem_Out, Sem_Read Blocking]) =
        Some (g\<lparr>m_count := m_count g - 1, taken := 1\<rparr>, [Sem_Out, Sem_Out])"
proof -
  let ?g = "\<lparr>m_count = 1, posted = 1, taken = 0\<rparr>" and ?ls = "[Sem_Out, Sem_Read Blocking]"
  have e: "il_run sem_step [(0, Post), (1, Wait)] (sem_begin 0, replicate 2 Sem_Out) = Some (?g, ?ls)"
    by (simp add: sem_begin_def numeral_2_eq_2 atomic_inc32_def)
  have reach: "il_reach sem_step (sem_begin 0) (replicate 2 Sem_Out) (?g, ?ls)" by (rule il_run_reach [OF e il_start])
  from spin_semaphore_counts [OF reach, of False, THEN conjunct2, THEN conjunct1, rule_format, of 1 Blocking]
  have "il_run sem_step [(1, Sem_go False), (1, Sem_go False)] (?g, ?ls) = Some (?g\<lparr>m_count := m_count ?g - 1, taken := 1\<rparr>, [Sem_Out, Sem_Out])"
    by (simp del: il_run.simps)
  with e show ?thesis by blast
qed

end
