(* ===== verification/Spin_Condition.thy ===== *)
theory Spin_Condition
  imports Spin_Mutex
begin

text \<open>
  The condition variable that waits in a loop, sync/spin/condition.hpp. The enter mutex is a spin mutex; a notification
  locks it, writes a command and returns with the mutex locked: the waiting thread that the command releases, the last
  one for \<^verbatim>\<open>notify_all\<close>, unlocks it. Every access to a variable of the condition or of the enter mutex is a step. The mutex
  of the user is given by its contract: locking it is one step, possible when it is free.
\<close>

section \<open>The model\<close>

abbreviation SLEEP :: uint32 where "SLEEP \<equiv> 0"
abbreviation NOTIFY_ONE :: uint32 where "NOTIFY_ONE \<equiv> 1"
abbreviation NOTIFY_ALL :: uint32 where "NOTIFY_ALL \<equiv> 2"

datatype cond_call = Mut_lock | Mut_unlock | Cond_wait bool | Notify_one | Notify_all | Cond_go bool

text \<open>
  Where a thread is: at home, without the user's mutex or with it (the flag is what its last wait returned); in a
  wait, timed or not, before each access; in a notification, which remembers the command and the home of the thread.
\<close>

datatype cond_place = C_Home "bool option"
  | W_Enter bool acquiring | W_Inc bool | W_Unlock bool | W_Leave bool | W_Read bool | W_Clock | W_Try acquiring | W_Timeout
  | W_Cas bool | W_One | W_All | W_Reset | W_Exit bool | W_Relock bool
  | N_Enter uint32 "bool option" acquiring | N_Read uint32 "bool option" | N_Unlock "bool option" | N_Cmd uint32 "bool option"

text \<open>
  The variables of the condition and the user's mutex, and as a record of what happened: the commands to release one
  thread, the threads released by them, and the threads a command to release all still has to release.
\<close>

record cond =
  c_enter :: uint32
  c_command :: uint32
  c_waiters :: uint32
  c_mut :: bool
  ones :: nat
  woken :: nat
  due :: nat

definition cond_begin :: cond where
  "cond_begin = \<lparr>c_enter = 0, c_command = SLEEP, c_waiters = 0, c_mut = False, ones = 0, woken = 0, due = 0\<rparr>"

text \<open>Calls from home. Waiting without the mutex throws and changes nothing.\<close>

fun cond_request :: "cond_call \<Rightarrow> bool option \<Rightarrow> cond \<Rightarrow> (cond \<times> cond_place) option" where
  "cond_request Mut_lock None g = (if c_mut g then None else Some (g\<lparr>c_mut := True\<rparr>, C_Home (Some True)))"
| "cond_request Mut_unlock (Some r) g = Some (g\<lparr>c_mut := False\<rparr>, C_Home None)"
| "cond_request (Cond_wait timed) None g = Some (g, C_Home None)"
| "cond_request (Cond_wait timed) (Some r) g = Some (g, W_Enter timed Try_Cas)"
| "cond_request Notify_one h g = Some (g, N_Enter NOTIFY_ONE h Try_Cas)"
| "cond_request Notify_all h g = Some (g, N_Enter NOTIFY_ALL h Try_Cas)"
| "cond_request _ _ _ = None"

fun entered :: "(acquiring \<Rightarrow> cond_place) \<Rightarrow> cond_place \<Rightarrow> cond_place \<Rightarrow> acquired \<Rightarrow> cond_place" where
  "entered p q r (Pending a) = p a"
| "entered p q r Acquired = q"
| "entered p q r Refused = r"

definition go_enter :: "lock_mode \<Rightarrow> bool \<Rightarrow> acquiring \<Rightarrow> (acquired \<Rightarrow> cond_place) \<Rightarrow> cond \<Rightarrow> (cond \<times> cond_place) option" where
  "go_enter md late a k g = (case acquire_step md late a (c_enter g) of (e, r) \<Rightarrow> Some (g\<lparr>c_enter := e\<rparr>, k r))"

definition after_cas :: "bool \<Rightarrow> uint32 \<Rightarrow> cond_place" where
  "after_cas timed result = (if result = SLEEP then W_Read timed else if result = NOTIFY_ONE then W_One else W_All)"

text \<open>The next step of a wait or of a notification.\<close>

fun cond_go :: "bool \<Rightarrow> cond_place \<Rightarrow> cond \<Rightarrow> (cond \<times> cond_place) option" where
  "cond_go late (C_Home h) g = None"
| "cond_go late (W_Enter timed a) g =
     go_enter (if timed then Timed else Blocking) late a (entered (W_Enter timed) (W_Inc timed) (C_Home (Some False))) g"
| "cond_go late (W_Inc timed) g = Some (g\<lparr>c_waiters := fst (atomic_inc32 (c_waiters g))\<rparr>, W_Unlock timed)"
| "cond_go late (W_Unlock timed) g = Some (g\<lparr>c_mut := False\<rparr>, W_Leave timed)"
| "cond_go late (W_Leave timed) g = Some (g\<lparr>c_enter := spin_unlock (c_enter g)\<rparr>, W_Read timed)"
| "cond_go late (W_Read timed) g =
     Some (g, if c_command g = SLEEP then (if timed then W_Clock else W_Read timed) else W_Cas timed)"
| "cond_go late W_Clock g = Some (g, if late then W_Try Try_Cas else W_Read True)"
| "cond_go late (W_Try a) g = go_enter Trying late a (entered W_Try W_Timeout (W_Read True)) g"
| "cond_go late W_Timeout g = Some (g\<lparr>c_waiters := fst (atomic_dec32 (c_waiters g))\<rparr>, W_Exit True)"
| "cond_go late (W_Cas timed) g =
     (case atomic_cas32 (c_command g) SLEEP NOTIFY_ONE of
        (new, result) \<Rightarrow> Some (g\<lparr>c_command := new, woken := woken g + (if result = NOTIFY_ONE then 1 else 0)\<rparr>, after_cas timed result))"
| "cond_go late W_One g = Some (g\<lparr>c_waiters := fst (atomic_dec32 (c_waiters g))\<rparr>, W_Exit False)"
| "cond_go late W_All g =
     (case atomic_dec32 (c_waiters g) of
        (new, old) \<Rightarrow> Some (g\<lparr>c_waiters := new, due := due g - 1\<rparr>, if 1 = old then W_Reset else W_Relock False))"
| "cond_go late W_Reset g = Some (g\<lparr>c_command := fst (atomic_cas32 (c_command g) SLEEP NOTIFY_ALL)\<rparr>, W_Exit False)"
| "cond_go late (W_Exit timed_out) g = Some (g\<lparr>c_enter := spin_unlock (c_enter g)\<rparr>, W_Relock timed_out)"
| "cond_go late (W_Relock timed_out) g = (if c_mut g then None else Some (g\<lparr>c_mut := True\<rparr>, C_Home (Some (\<not> timed_out))))"
| "cond_go late (N_Enter cmd h a) g = go_enter Blocking late a (entered (N_Enter cmd h) (N_Read cmd h) (C_Home h)) g"
| "cond_go late (N_Read cmd h) g = Some (g, if c_waiters g = 0 then N_Unlock h else N_Cmd cmd h)"
| "cond_go late (N_Unlock h) g = Some (g\<lparr>c_enter := spin_unlock (c_enter g)\<rparr>, C_Home h)"
| "cond_go late (N_Cmd cmd h) g =
     (case atomic_cas32 (c_command g) cmd SLEEP of
        (new, old) \<Rightarrow>
          if SLEEP \<noteq> old then Some (g\<lparr>c_command := new\<rparr>, N_Cmd cmd h)
          else if cmd = NOTIFY_ONE then Some (g\<lparr>c_command := new, ones := ones g + 1\<rparr>, C_Home h)
          else Some (g\<lparr>c_command := new, due := unat (c_waiters g)\<rparr>, C_Home h))"

definition cond_step :: "cond_call \<Rightarrow> nat \<Rightarrow> cond_place \<Rightarrow> cond \<Rightarrow> (cond \<times> cond_place) option" where
  "cond_step c i p g = (case c of Cond_go late \<Rightarrow> cond_go late p g | _ \<Rightarrow> (case p of C_Home h \<Rightarrow> cond_request c h g | _ \<Rightarrow> None))"

section \<open>The invariant\<close>

text \<open>What the thread holds: the enter mutex, a place among the waiters, the user's mutex; and where it is.\<close>

fun en_holds :: "cond_place \<Rightarrow> nat" where
  "en_holds (W_Enter timed a) = acq_holds a" | "en_holds (W_Inc timed) = 1" | "en_holds (W_Unlock timed) = 1"
| "en_holds (W_Leave timed) = 1" | "en_holds (W_Try a) = acq_holds a" | "en_holds W_Timeout = 1" | "en_holds W_One = 1"
| "en_holds (W_Exit timed_out) = 1" | "en_holds (N_Enter cmd h a) = acq_holds a" | "en_holds (N_Read cmd h) = 1"
| "en_holds (N_Unlock h) = 1" | "en_holds (N_Cmd cmd h) = 1" | "en_holds _ = 0"

fun waits :: "cond_place \<Rightarrow> nat" where
  "waits (W_Unlock timed) = 1" | "waits (W_Leave timed) = 1" | "waits (W_Read timed) = 1" | "waits W_Clock = 1" | "waits (W_Try a) = 1"
| "waits W_Timeout = 1" | "waits (W_Cas timed) = 1" | "waits W_One = 1" | "waits W_All = 1" | "waits _ = 0"

fun in_all :: "cond_place \<Rightarrow> nat" where "in_all W_All = 1" | "in_all _ = 0"

fun in_reset :: "cond_place \<Rightarrow> nat" where "in_reset W_Reset = 1" | "in_reset _ = 0"

fun in_cmd :: "cond_place \<Rightarrow> nat" where "in_cmd (N_Cmd cmd h) = 1" | "in_cmd _ = 0"

fun mut_holds :: "cond_place \<Rightarrow> nat" where
  "mut_holds (C_Home h) = (if h = None then 0 else 1)" | "mut_holds (W_Enter timed a) = 1" | "mut_holds (W_Inc timed) = 1"
| "mut_holds (W_Unlock timed) = 1" | "mut_holds (N_Enter cmd h a) = (if h = None then 0 else 1)"
| "mut_holds (N_Read cmd h) = (if h = None then 0 else 1)" | "mut_holds (N_Unlock h) = (if h = None then 0 else 1)"
| "mut_holds (N_Cmd cmd h) = (if h = None then 0 else 1)" | "mut_holds _ = 0"

fun cmd_ok :: "cond_place \<Rightarrow> bool" where
  "cmd_ok (N_Enter cmd h a) = (cmd \<in> {NOTIFY_ONE, NOTIFY_ALL})" | "cmd_ok (N_Read cmd h) = (cmd \<in> {NOTIFY_ONE, NOTIFY_ALL})"
| "cmd_ok (N_Cmd cmd h) = (cmd \<in> {NOTIFY_ONE, NOTIFY_ALL})" | "cmd_ok _ = True"

text \<open>The numbers: holders of the enter mutex, waiters, threads at the places, holders of the user's mutex.\<close>

definition cond_num :: "cond \<Rightarrow> nat \<Rightarrow> nat \<Rightarrow> nat \<Rightarrow> nat \<Rightarrow> nat \<Rightarrow> nat \<Rightarrow> bool" where
  "cond_num g H W A R N M \<longleftrightarrow>
     unat (c_enter g) = H + (if c_command g = SLEEP then 0 else 1) \<and> unat (c_enter g) \<le> 1 \<and> unat (c_waiters g) = W
     \<and> c_command g \<in> {SLEEP, NOTIFY_ONE, NOTIFY_ALL} \<and> (0 < A + R \<longrightarrow> c_command g = NOTIFY_ALL)
     \<and> (c_command g = NOTIFY_ALL \<longrightarrow> 0 < W \<and> R = 0 \<or> W = 0 \<and> R = 1)
     \<and> (c_command g = NOTIFY_ONE \<longrightarrow> 0 < W) \<and> (0 < N \<longrightarrow> 0 < W)
     \<and> M = (if c_mut g then 1 else 0)
     \<and> ones g = woken g + (if c_command g = NOTIFY_ONE then 1 else 0)
     \<and> due g = (if c_command g = NOTIFY_ALL then W else 0)"

definition cond_inv :: "cond \<Rightarrow> cond_place list \<Rightarrow> bool" where
  "cond_inv g ls \<longleftrightarrow> cond_num g (tot en_holds ls) (tot waits ls) (tot in_all ls) (tot in_reset ls) (tot in_cmd ls) (tot mut_holds ls)
     \<and> (\<forall>p\<in>set ls. cmd_ok p) \<and> length ls < 2 ^ 32"

lemma entered_holds [simp]:
  "en_holds (entered p q r x) = (case x of Pending a \<Rightarrow> en_holds (p a) | Acquired \<Rightarrow> en_holds q | Refused \<Rightarrow> en_holds r)"
  "waits (entered p q r x) = (case x of Pending a \<Rightarrow> waits (p a) | Acquired \<Rightarrow> waits q | Refused \<Rightarrow> waits r)"
  "in_all (entered p q r x) = (case x of Pending a \<Rightarrow> in_all (p a) | Acquired \<Rightarrow> in_all q | Refused \<Rightarrow> in_all r)"
  "in_reset (entered p q r x) = (case x of Pending a \<Rightarrow> in_reset (p a) | Acquired \<Rightarrow> in_reset q | Refused \<Rightarrow> in_reset r)"
  "in_cmd (entered p q r x) = (case x of Pending a \<Rightarrow> in_cmd (p a) | Acquired \<Rightarrow> in_cmd q | Refused \<Rightarrow> in_cmd r)"
  "mut_holds (entered p q r x) = (case x of Pending a \<Rightarrow> mut_holds (p a) | Acquired \<Rightarrow> mut_holds q | Refused \<Rightarrow> mut_holds r)"
  "cmd_ok (entered p q r x) = (case x of Pending a \<Rightarrow> cmd_ok (p a) | Acquired \<Rightarrow> cmd_ok q | Refused \<Rightarrow> cmd_ok r)"
  by (cases x; simp)+

text \<open>A step on the numbers: \<open>h\<close> to \<open>m\<close> are those of the other threads.\<close>

abbreviation cond_at :: "cond \<Rightarrow> nat \<Rightarrow> nat \<Rightarrow> nat \<Rightarrow> nat \<Rightarrow> nat \<Rightarrow> nat \<Rightarrow> cond_place \<Rightarrow> bool" where
  "cond_at g h w a r n m p \<equiv> cond_num g (h + en_holds p) (w + waits p) (a + in_all p) (r + in_reset p) (n + in_cmd p) (m + mut_holds p)"

lemma enter_step:
  assumes st: "go_enter md late x k g = Some (g', p')" and num: "cond_at g h w a r n m p" and x: "en_holds p = acq_holds x"
    and k: "\<And>y. en_holds (k y) = res_holds y \<and> waits (k y) = waits p \<and> in_all (k y) = in_all p \<and> in_reset (k y) = in_reset p
      \<and> in_cmd (k y) = in_cmd p \<and> mut_holds (k y) = mut_holds p \<and> cmd_ok (k y)"
  shows "cond_at g' h w a r n m p' \<and> cmd_ok p'"
proof -
  obtain e y where e: "acquire_step md late x (c_enter g) = (e, y)" "g' = g\<lparr>c_enter := e\<rparr>" "p' = k y"
    using st by (auto simp: go_enter_def split: prod.splits)
  have "unat e = h + (if c_command g = SLEEP then 0 else 1) + res_holds y \<and> h + (if c_command g = SLEEP then 0 else 1) + res_holds y \<le> 1"
    by (rule acquire_keeps [OF e(1)]) (use num x in \<open>auto simp: cond_num_def\<close>)
  then show ?thesis using num e k by (simp add: cond_num_def)
qed

lemma cond_go_num:
  assumes st: "cond_go late p g = Some (g', p')" and num: "cond_at g h w a r n m p"
    and o: "n \<le> h" "a \<le> w" "w + 1 < 2 ^ 32" and ok: "cmd_ok p"
  shows "cond_at g' h w a r n m p' \<and> cmd_ok p'"
proof -
  have E: "unat (c_enter g) = h + en_holds p + (if c_command g = SLEEP then 0 else 1)" "unat (c_enter g) \<le> 1" "unat (c_waiters g) = w + waits p"
    using num by (simp_all add: cond_num_def)
  have inc: "waits p = 0 \<Longrightarrow> unat (c_waiters g + 1) = w + 1" using inc_nat [of "c_waiters g"] E(3) o(3) by simp
  have dec: "waits p = 1 \<Longrightarrow> unat (c_waiters g - 1) = w" using dec_nat(1) [of "c_waiters g"] E(3) by (simp add: unat_gt_0 [symmetric])
  have un: "en_holds p = 1 \<Longrightarrow> unat (spin_unlock (c_enter g)) = 0 \<and> h = 0 \<and> c_command g = SLEEP"
    using unlock_keeps [of "c_enter g" 0] E by (auto split: if_splits)
  note steps = cond_num_def atomic_inc32_def atomic_dec32_def atomic_cas32_def after_cas_def
  have "case cond_go late p g of None \<Rightarrow> True | Some (g', p') \<Rightarrow> cond_at g' h w a r n m p' \<and> cmd_ok p'"
  proof (cases p)
    case (W_Enter timed x)
    then have "cond_at g' h w a r n m p' \<and> cmd_ok p'"
      by - (rule enter_step [OF st [unfolded W_Enter cond_go.simps] num], use W_Enter in \<open>auto split: acquired.splits\<close>)
    then show ?thesis using st by simp
  next
    case (W_Try x)
    then have "cond_at g' h w a r n m p' \<and> cmd_ok p'"
      by - (rule enter_step [OF st [unfolded W_Try cond_go.simps] num], use W_Try in \<open>auto split: acquired.splits\<close>)
    then show ?thesis using st by simp
  next
    case (N_Enter cmd h' x)
    then have "cond_at g' h w a r n m p' \<and> cmd_ok p'"
      by - (rule enter_step [OF st [unfolded N_Enter cond_go.simps] num], use N_Enter ok in \<open>auto split: acquired.splits\<close>)
    then show ?thesis using st by simp
  next
    case (C_Home h1)
    then show ?thesis using num o ok
      by (simp add: steps split: if_splits)
  next
    case (W_Inc b)
    then show ?thesis using num o ok inc un
      by (simp add: steps split: if_splits)
  next
    case (W_Unlock b)
    then show ?thesis using num o ok
      by (simp add: steps split: if_splits)
  next
    case (W_Leave b)
    then show ?thesis using num o ok un
      by (simp add: steps split: if_splits)
  next
    case (W_Read b)
    then show ?thesis using num o ok
      by (simp add: steps split: if_splits)
  next
    case W_Clock
    then show ?thesis using num o ok
      by (simp add: steps split: if_splits)
  next
    case W_Timeout
    then show ?thesis using num o ok dec un
      by (simp add: steps split: if_splits)
  next
    case (W_Cas b)
    then show ?thesis using num o ok
      by (simp add: steps split: if_splits)
  next
    case W_One
    then show ?thesis using num o ok dec un
      by (simp add: steps split: if_splits)
  next
    case W_All
    then show ?thesis using num o ok dec dec_nat(2) [of "c_waiters g"]
      by (simp add: steps split: if_splits)
  next
    case W_Reset
    then show ?thesis using num o ok
      by (simp add: steps split: if_splits)
  next
    case (W_Exit b)
    then show ?thesis using num o ok un
      by (simp add: steps split: if_splits)
  next
    case (W_Relock b)
    then show ?thesis using num o ok
      by (simp add: steps split: if_splits)
  next
    case (N_Read c h1)
    then show ?thesis using num o ok un unat_gt_0 [of "c_waiters g"]
      by (simp add: steps split: if_splits)
  next
    case (N_Unlock h1)
    then show ?thesis using num o ok un
      by (simp add: steps split: if_splits)
  next
    case (N_Cmd c h1)
    have "c = NOTIFY_ONE \<or> c = NOTIFY_ALL" using ok N_Cmd by simp
    then show ?thesis using num o un N_Cmd
      by (elim disjE) (simp_all add: steps split: if_splits)
  qed
  then show ?thesis using st by simp
qed

lemma cond_request_num:
  assumes st: "cond_request c h g = Some (g', p')" and num: "cond_at g h' w a r n m (C_Home h)"
  shows "cond_at g' h' w a r n m p' \<and> cmd_ok p'"
proof -
  have "case cond_request c h g of None \<Rightarrow> True | Some (g', p') \<Rightarrow> cond_at g' h' w a r n m p' \<and> cmd_ok p'"
    using num by (cases c; cases h) (simp_all add: cond_num_def split: if_splits)
  then show ?thesis using st by simp
qed

lemma tot_mono: "(\<And>x. f x \<le> g x) \<Longrightarrow> tot f xs \<le> tot g xs"
  by (simp add: tot_def sum_list_mono)

lemma tot_le_length: "(\<And>x. f x \<le> 1) \<Longrightarrow> tot f xs \<le> length xs"
  using tot_mono [of f "\<lambda>_. 1" xs] by (simp add: tot_def sum_list_triv)

lemma place_bounds: "in_cmd p \<le> en_holds p" "in_all p \<le> waits p" "waits p \<le> 1"
  by (cases p; simp)+

lemma cond_keeps:
  assumes inv: "cond_inv g ls" and i: "i < length ls" and st: "cond_step c i (ls ! i) g = Some (g', p')"
  shows "cond_inv g' (ls[i := p'])"
proof -
  let ?o = "ls[i := C_Home None]"
  have t: "tot f ls = tot f ?o + f (ls ! i)" "tot f (ls[i := p']) = tot f ?o + f p'" if "f (C_Home None) = 0" for f
    using tot_upd [OF i, of f "C_Home None"] tot_upd [OF i, of f p'] that by simp_all
  have num: "cond_at g (tot en_holds ?o) (tot waits ?o) (tot in_all ?o) (tot in_reset ?o) (tot in_cmd ?o) (tot mut_holds ?o) (ls ! i)"
    using inv by (simp add: cond_inv_def t)
  have w: "tot waits ?o + 1 < 2 ^ 32"
  proof -
    have "tot waits (ls[i := W_One]) \<le> length ls" using tot_le_length [of waits "ls[i := W_One]"] place_bounds(3) by simp
    then have "tot waits ?o + 1 \<le> length ls" using tot_upd [of i ?o waits W_One] i by simp
    then show ?thesis using inv by (simp add: cond_inv_def)
  qed
  have "cond_at g' (tot en_holds ?o) (tot waits ?o) (tot in_all ?o) (tot in_reset ?o) (tot in_cmd ?o) (tot mut_holds ?o) p' \<and> cmd_ok p'"
  proof (cases "\<exists>late. c = Cond_go late")
    case True
    then show ?thesis
      using cond_go_num [OF _ num tot_mono [OF place_bounds(1)] tot_mono [OF place_bounds(2)] w] st inv i by (auto simp: cond_step_def cond_inv_def)
  next
    case False
    then obtain h where h: "ls ! i = C_Home h" "cond_request c h g = Some (g', p')"
      using st by (cases c; cases "ls ! i") (simp_all add: cond_step_def)
    show ?thesis by (rule cond_request_num [OF h(2) num [unfolded h(1)]])
  qed
  moreover have "\<forall>p\<in>set (ls[i := p']). cmd_ok p" if "cmd_ok p'"
    using that inv set_update_subset_insert [of ls i p'] by (auto simp: cond_inv_def)
  ultimately show ?thesis using inv by (simp add: cond_inv_def t)
qed

lemma cond_start: "n < 2 ^ 32 \<Longrightarrow> cond_inv cond_begin (replicate n (C_Home None))"
  by (simp add: cond_inv_def cond_num_def cond_begin_def)

lemma cond_interleaving: "n < 2 ^ 32 \<Longrightarrow> interleaving cond_step cond_begin (replicate n (C_Home None)) cond_inv"
  by unfold_locales (simp_all add: cond_start cond_keeps)

section \<open>Progress\<close>

text \<open>How far a thread is from letting the enter mutex go, if nothing else moves.\<close>

fun rank :: "cond_place \<Rightarrow> nat" where
  "rank (N_Enter cmd h a) = 20" | "rank (N_Read cmd h) = 19" | "rank (N_Cmd cmd h) = 18" | "rank (N_Unlock h) = 18"
| "rank (W_Enter timed a) = 20" | "rank (W_Inc timed) = 19" | "rank (W_Unlock timed) = 18" | "rank (W_Leave timed) = 17"
| "rank (W_Try At_Clock) = 10" | "rank (W_Try Try_Cas) = 9" | "rank (W_Try (Try_Check prev_s)) = 8" | "rank W_Clock = 8" | "rank (W_Read timed) = 7"
| "rank (W_Cas timed) = 6" | "rank W_All = 5" | "rank W_One = 5" | "rank W_Timeout = 5" | "rank W_Reset = 4" | "rank (W_Exit timed_out) = 3"
| "rank (W_Relock timed_out) = 2" | "rank (C_Home h) = 0"

text \<open>A thread that holds the enter mutex, or that a command will release, gets closer with a step of its own.\<close>

lemma holder_steps:
  assumes "0 < en_holds p" "c_command g = SLEEP" "c_enter g = 1"
  shows "\<exists>g' p'. cond_go False p g = Some (g', p') \<and> rank p' < rank p"
  using assms by (cases p) (auto simp: acq_holds_pos go_enter_def atomic_cas32_def)

lemma released_steps:
  assumes "0 < waits p + in_reset p" "en_holds p = 0" "c_command g \<in> {NOTIFY_ONE, NOTIFY_ALL}" "c_enter g = 1"
  shows "\<exists>g' p'. cond_go False p g = Some (g', p') \<and> rank p' < rank p"
proof (cases p)
  case (W_Try a)
  then show ?thesis using assms by (cases a) (auto simp: go_enter_def atomic_cas32_def)
qed (use assms in \<open>auto simp: atomic_cas32_def after_cas_def atomic_dec32_def\<close>)

lemma someone_steps:
  assumes inv: "cond_inv g ls" and e: "c_enter g \<noteq> 0"
  shows "\<exists>i<length ls. \<exists>g' p'. cond_step (Cond_go False) i (ls ! i) g = Some (g', p') \<and> rank p' < rank (ls ! i)"
proof -
  have num: "cond_num g (tot en_holds ls) (tot waits ls) (tot in_all ls) (tot in_reset ls) (tot in_cmd ls) (tot mut_holds ls)"
    using inv by (simp add: cond_inv_def)
  have "0 < unat (c_enter g)" using e by (simp add: unat_gt_0)
  moreover have "unat (c_enter g) \<le> 1" using num by (simp add: cond_num_def)
  ultimately have u: "unat (c_enter g) = 1" by linarith
  then have one: "c_enter g = 1" using dec_nat(2) [of "c_enter g"] by simp
  show ?thesis
  proof (cases "c_command g = SLEEP")
    case True
    then have "0 < tot en_holds ls" using num u by (simp add: cond_num_def)
    then obtain i where "i < length ls" "0 < en_holds (ls ! i)" unfolding tot_pos by blast
    then show ?thesis using holder_steps [OF _ True one] by (auto simp: cond_step_def)
  next
    case False
    then have z: "tot en_holds ls = 0" and c: "c_command g \<in> {NOTIFY_ONE, NOTIFY_ALL}" and w: "0 < tot waits ls \<or> 0 < tot in_reset ls"
      using num u by (auto simp: cond_num_def)
    obtain i where i: "i < length ls" "0 < waits (ls ! i) + in_reset (ls ! i)" using w unfolding tot_pos by fastforce
    moreover have "en_holds (ls ! i) = 0" using z i(1) tot_ge [of i ls en_holds] by simp
    ultimately show ?thesis using released_steps [OF _ _ c one] by (auto simp: cond_step_def)
  qed
qed

lemma enter_released:
  assumes "cond_inv g ls"
  shows "\<exists>sch g' ls'. set sch \<subseteq> UNIV \<times> {Cond_go False} \<and> il_run cond_step sch (g, ls) = Some (g', ls') \<and> c_enter g' = 0"
  using assms
proof (induction "tot rank ls" arbitrary: g ls rule: less_induct)
  case less
  show ?case
  proof (cases "c_enter g = 0")
    case True
    then show ?thesis by (intro exI [of _ "[]"]) auto
  next
    case False
    then obtain i g1 p1 where s: "i < length ls" "cond_step (Cond_go False) i (ls ! i) g = Some (g1, p1)" "rank p1 < rank (ls ! i)"
      using someone_steps [OF less.prems] by blast
    have "tot rank (ls[i := p1]) < tot rank ls" using tot_upd [OF s(1), of rank p1] s(3) by linarith
    from less.hyps [OF this cond_keeps [OF less.prems s(1,2)]] obtain sch g' ls' where
      r: "set sch \<subseteq> UNIV \<times> {Cond_go False}" "il_run cond_step sch (g1, ls[i := p1]) = Some (g', ls')" "c_enter g' = 0" by blast
    then have "il_run cond_step ((i, Cond_go False) # sch) (g, ls) = Some (g', ls')" using s by simp
    moreover have "set ((i, Cond_go False) # sch) \<subseteq> UNIV \<times> {Cond_go False}" using r(1) by simp
    ultimately show ?thesis using r(3) by blast
  qed
qed

lemma il_run_inv: "il_run cond_step sch (g, ls) = Some (g', ls') \<Longrightarrow> cond_inv g ls \<Longrightarrow> cond_inv g' ls'"
proof (induction sch arbitrary: g ls)
  case (Cons a sch)
  then show ?case by (cases a) (auto split: if_splits option.splits dest: cond_keeps)
qed simp

section \<open>What the condition promises\<close>

text \<open>
  C9: Fewer than 2^32 threads that lock and unlock the user's mutex, wait with and without a time limit and notify: every
  command to release one thread that was given is still pending or has released exactly one thread, and a command
  to release all still has to release exactly the threads that wait. A thread that has begun to wait and is not
  released is seen by every notification that begins after, and the notification writes its command at once. At most
  one thread holds the user's mutex. When the enter mutex is free, no command is pending.
\<close>

theorem spin_condition_exact:
  assumes n: "n < 2 ^ 32" and reach: "il_reach cond_step cond_begin (replicate n (C_Home None)) (g, ls)"
  shows "ones g = woken g + (if c_command g = NOTIFY_ONE then 1 else 0)
    \<and> due g = (if c_command g = NOTIFY_ALL then tot waits ls else 0)
    \<and> (c_enter g = 0 \<longrightarrow> c_command g = SLEEP)
    \<and> (\<forall>i<n. \<forall>j<n. 0 < mut_holds (ls ! i) \<and> 0 < mut_holds (ls ! j) \<longrightarrow> i = j)
    \<and> (\<forall>i<n. \<forall>j<n. \<forall>cmd h. ls ! i = N_Read cmd h \<and> 0 < waits (ls ! j) \<longrightarrow> cond_go late (ls ! i) g = Some (g, N_Cmd cmd h))
    \<and> (\<forall>i<n. \<forall>cmd h. ls ! i = N_Cmd cmd h \<longrightarrow> (\<exists>g'. cond_go late (ls ! i) g = Some (g', C_Home h) \<and> c_command g' = cmd))"
proof -
  note il = cond_interleaving [OF n]
  have num: "cond_num g (tot en_holds ls) (tot waits ls) (tot in_all ls) (tot in_reset ls) (tot in_cmd ls) (tot mut_holds ls)"
    using interleaving.reach_inv [OF il reach] by (simp add: cond_inv_def)
  have len: "length ls = n" using interleaving.reach_length [OF il reach] by simp
  have acc: "ones g = woken g + (if c_command g = NOTIFY_ONE then 1 else 0)" "due g = (if c_command g = NOTIFY_ALL then tot waits ls else 0)"
    and w: "unat (c_waiters g) = tot waits ls" and m: "tot mut_holds ls \<le> 1"
    and e: "unat (c_enter g) = tot en_holds ls + (if c_command g = SLEEP then 0 else 1)" "unat (c_enter g) \<le> 1"
    using num by (simp_all add: cond_num_def)
  have "c_command g = SLEEP" if "c_enter g = 0" using e(1) that by (simp split: if_splits)
  moreover have "i = j" if "i < n" "j < n" "0 < mut_holds (ls ! i)" "0 < mut_holds (ls ! j)" for i j
    using tot_two [of i ls j mut_holds] that m len by fastforce
  moreover have "cond_go late (ls ! i) g = Some (g, N_Cmd cmd h)" if "ls ! i = N_Read cmd h" "j < n" "0 < waits (ls ! j)" for i j cmd h
  proof -
    have "0 < unat (c_waiters g)" using w tot_ge [of j ls waits] that len by simp
    then show ?thesis using that by (auto simp: unat_gt_0)
  qed
  moreover have "\<exists>g'. cond_go late (ls ! i) g = Some (g', C_Home h) \<and> c_command g' = cmd" if "i < n" "ls ! i = N_Cmd cmd h" for i cmd h
  proof -
    have "c_command g = SLEEP" using e tot_ge [of i ls en_holds] that len by (simp split: if_splits)
    then show ?thesis using that by (simp add: atomic_cas32_def)
  qed
  ultimately show ?thesis using acc by blast
qed

text \<open>
  C16: From every state the threads that wait and notify can bring the condition to rest by steps of their own, without
  another call, without the user's mutex and without a time running out: the enter mutex is free, and every command has
  released the threads it had to release.
\<close>

theorem spin_condition_progress:
  assumes n: "n < 2 ^ 32" and reach: "il_reach cond_step cond_begin (replicate n (C_Home None)) (g, ls)"
  shows "\<exists>sch g' ls'. set sch \<subseteq> UNIV \<times> {Cond_go False} \<and> il_run cond_step sch (g, ls) = Some (g', ls')
    \<and> c_enter g' = 0 \<and> c_command g' = SLEEP \<and> ones g' = woken g' \<and> due g' = 0"
proof -
  have inv: "cond_inv g ls" using interleaving.reach_inv [OF cond_interleaving [OF n] reach] by simp
  obtain sch g' ls' where r: "set sch \<subseteq> UNIV \<times> {Cond_go False}" "il_run cond_step sch (g, ls) = Some (g', ls')" "c_enter g' = 0"
    using enter_released [OF inv] by blast
  then have "cond_inv g' ls'" using il_run_inv inv by blast
  then have "c_command g' = SLEEP \<and> ones g' = woken g' \<and> due g' = 0" using r(3) by (auto simp: cond_inv_def cond_num_def split: if_splits)
  then show ?thesis using r by blast
qed

text \<open>One thread waits and another has given the command to release one.\<close>

definition notified_state :: "cond \<times> cond_place list" where
  "notified_state = (\<lparr>c_enter = 1, c_command = NOTIFY_ONE, c_waiters = 1, c_mut = False, ones = 1, woken = 0, due = 0\<rparr>,
     [W_Read False, C_Home None])"

lemma notified_state_reach: "il_reach cond_step cond_begin (replicate 2 (C_Home None)) notified_state"
proof -
  let ?go = "\<lambda>i. (i, Cond_go False)"
  have "il_run cond_step [(0, Mut_lock), (0, Cond_wait False), ?go 0, ?go 0, ?go 0, ?go 0, ?go 0, (1, Notify_one), ?go 1, ?go 1, ?go 1, ?go 1]
      (cond_begin, replicate 2 (C_Home None)) = Some notified_state"
    by (simp add: numeral_2_eq_2 cond_begin_def cond_step_def go_enter_def atomic_cas32_def atomic_inc32_def spin_unlock_def notified_state_def)
  from il_run_reach [OF this il_start] show ?thesis .
qed

theorem spin_condition_exact_witness:
  "il_reach cond_step cond_begin (replicate 2 (C_Home None)) notified_state
    \<and> ones (fst notified_state) = woken (fst notified_state) + 1"
  using spin_condition_exact [of 2 "fst notified_state" "snd notified_state"] notified_state_reach by (simp add: notified_state_def)

theorem spin_condition_progress_witness:
  "\<exists>sch g' ls'. il_run cond_step sch notified_state = Some (g', ls') \<and> c_enter g' = 0 \<and> ones g' = woken g'"
  using spin_condition_progress [of 2 "fst notified_state" "snd notified_state"] notified_state_reach by auto

end
