(* ===== verification/Spec2Isabelle.thy ===== *)
theory Spec2Isabelle
  imports Arith_Utils Offset_Ptr Message_Queue_Threads Message_Queue_Layout Seq_Fit_Props Segment_Props Lock_Guards Shared_Ptr_Props Shared_Count_Threads Spin_Semaphore Spin_Condition
begin

text \<open>
  Boost.Interprocess (src/include/boost/interprocess): shared memory for several processes, and what a program keeps in
  it. This development models the parts that have logic of their own and proves what makes them correct. Every
  definition follows the C++ code named with it, under the name the code uses where Isabelle allows it; the manifest
  maps each definition to its lines.

  \<^bold>\<open>The parts and how they interact.\<close> A managed segment is a range of memory mapped at different addresses in different
  processes. A \<^emph>\<open>memory algorithm\<close> in it hands out and takes back blocks; the \<^emph>\<open>segment manager\<close> constructs objects in these
  blocks and finds them again by name through an \<^emph>\<open>index\<close> that lies in the segment too; pointers inside the segment are
  \<^emph>\<open>offset pointers\<close>, which hold the distance to their target. The \<^emph>\<open>smart pointers\<close> share objects in a segment. The
  \<^emph>\<open>message queue\<close> has a shared memory of its own. Processes exclude each other by \<^emph>\<open>mutexes and conditions\<close>, held through \<^emph>\<open>lock
  objects\<close>.

  \<^bold>\<open>Shared vocabulary.\<close> \<open>Prelude\<close>: the machine types (64-bit \<^verbatim>\<open>size_t\<close>, 32-bit \<^verbatim>\<open>unsigned\<close>), error\_code\_t and the
  exceptions (errors.hpp, exceptions.hpp) as values of a result type, rewrite rules for words and lists. \<open>Arith_Utils\<close>: the
  integer helpers (detail/math\_functions.hpp, detail/utilities.hpp, detail/min\_max.hpp); they compute the
  mathematical functions in their range, the overflow tests are exact, and upper\_power\_of\_2 returns exactly up to 2^63.
  \<open>Interleave\<close>: the atomic instructions (detail/atomic.hpp), threads that interleave at every step, totals over
  threads; the locale \<open>interleaving\<close> turns an invariant of the step function into one of all reachable states.

  \<^bold>\<open>Offset pointers.\<close> \<open>Offset_Ptr\<close> (offset\_ptr.hpp): a store from the address of each pointer object to its offset. The
  branchless conversions agree with the documented ones, what is stored is read back except for one address, and
  the pointers of a segment mapped elsewhere point to the moved targets and compare as before.

  \<^bold>\<open>Memory algorithms.\<close> \<open>Mem_Algo_Common\<close> (mem\_algo/detail/mem\_algo\_common.hpp) is a template over the algorithm, here a record
  of its operations; the locale \<open>mem_algo\<close> of \<open>Mem_Algo_Laws\<close> is the contract, in which shrinking, over-aligned allocation and the
  deallocation of many buffers are proved once. \<open>Backwards_Needs\<close>: the size of a backwards expansion. Two algorithms
  provide the contract. \<open>Seq_Fit\<close> (mem\_algo/detail/simple\_seq\_fit\_impl.hpp) with \<open>Seq_Fit_Rep\<close> (the free list and the
  allocated blocks tile the segment), \<open>Seq_Fit_Search\<close> (first fit, else the biggest block), \<open>Seq_Fit_Correct\<close>, \<open>Seq_Fit_Expand\<close>,
  \<open>Seq_Fit_Shrink\<close> (shrink\_to\_fit), \<open>Seq_Fit_Contract\<close> (the interpretation) and \<open>Seq_Fit_Props\<close>. \<open>Rbtree_Best_Fit\<close> (mem\_algo/rbtree\_best\_fit.hpp), the default,
  with \<open>Rbtree_Rep\<close>, \<open>Rbtree_Correct\<close>, \<open>Rbtree_Alloc\<close>, \<open>Rbtree_Expand\<close>, \<open>Rbtree_Contract\<close>, \<open>Rbtree_Segment\<close>, \<open>Rbtree_Command\<close> and
  \<open>Rbtree_Props\<close>. Shown for both: allocation returns for every request, with the result on each branch (a request near
  2^64 wraps to a small block, which both algorithms grant); deallocation, and commands within the size bounds
  stated with them, return with the outcome on each branch; and for the sequences of allocate, allocate\_aligned, commands on owned
  blocks, deallocate, grow and shrink\_to\_fit from the constructor, that blocks in use are disjoint, aligned and inside the
  segment, that the accounting is exact and that the self check answers true. These sequences leave out the calls for which the
  code goes wrong, each shown by a lemma of its own or reported as a finding: shrink\_to\_fit in an empty segment of at most two units
  (sequential fit) or less than six (best fit), grow of the best fit algorithm by 16 to 47 bytes, commands of the best fit algorithm for
  alignments above 16. The multiple allocations (allocate\_many) are modelled, but no theorem is about them and they are not operations of these sequences.

  \<^bold>\<open>Segment manager.\<close> \<open>Block_Header\<close> (detail/segment\_manager\_helper.hpp): the bytes in front of and behind an object. \<open>Named_Index\<close>
  (indexes/iset\_index.hpp): the index, with the locale \<open>name_index\<close> as its contract. \<open>Segment_Manager\<close> (segment\_manager.hpp,
  detail/named\_proxy.hpp): the operations, over any algorithm and index. \<open>Segment_Rep\<close>: what a segment holds. \<open>Segment_Correct\<close>,
  \<open>Segment_Ops\<close> and \<open>Segment_Access\<close>: each operation, in the locale \<open>segment_parts\<close>, which extends \<open>mem_algo\<close> and \<open>name_index\<close>.
  \<open>Segment_Reach\<close>: programs of constructions, destructions, raw allocations and writes, with names below 65536 characters and objects
  below 2^62 bytes. \<open>Segment_Default\<close>: the locale interpreted on the default algorithm and index. \<open>Segment_Props\<close>: the
  outcome of construction (constructors that throw included) and destruction, lookup, disjointness, no leak.

  \<^bold>\<open>Smart pointers.\<close> \<open>Shared_Count\<close> (smart\_ptr/detail/sp\_counted\_base\_atomic.hpp, sp\_counted\_impl.hpp, shared\_count.hpp) and
  \<open>Shared_Ptr\<close> (smart\_ptr/shared\_ptr.hpp, weak\_ptr.hpp): control blocks in a store, the operations, programs over variables.
  \<open>Shared_Ptr_Props\<close>: no access to a freed control block, exact counts and each object deleted once, for programs that use the
  aliasing constructor and reset(r, p) only on pointers that own nothing; and that on an owning pointer they break this. \<open>Shared_Count_Threads\<close>: one control block under threads that interleave at every atomic
  instruction.

  \<^bold>\<open>Message queue.\<close> \<open>Message_Queue\<close> (ipc/message\_queue.hpp): the header with its circular index, send and receive split at the
  waits. \<open>Message_Queue_Spec\<close>: refinement of an abstract priority queue; through the locale \<open>priority_channel\<close>, every
  sequence of try\_send and try\_receive answers what a list in the order of arrival answers. \<open>Message_Queue_Threads\<close>: no wake-up is lost. \<open>Message_Queue_Layout\<close>: the memory it asks for and uses.

  \<^bold>\<open>Mutexes, conditions, locks.\<close> \<open>Gate_Threads\<close>: threads at two gates, with the locale \<open>gate_protocol\<close>. \<open>Upgradable_Mutex\<close>,
  \<open>Upgradable_Mutex_Correct\<close> (sync/interprocess\_upgradable\_mutex.hpp), \<open>Sharable_Mutex\<close> (sync/interprocess\_sharable\_mutex.hpp) and
  \<open>Mutex_Props\<close>: exclusion, exact reader counts, no thread left asleep. \<open>Lock_Guards\<close> (sync/scoped\_lock.hpp, sharable\_lock.hpp,
  upgradable\_lock.hpp): the lock objects over the locale \<open>mutex_contract\<close>, which both mutexes provide. It is the contract of mutexes that are not
  recursive; a thread that asks for no mutex twice owns exactly what its lock objects own, and only asking twice is a misuse. \<open>Spin_Mutex\<close> (sync/spin/mutex.hpp, recursive\_mutex.hpp, sync/detail/common\_algorithms.hpp),
  \<open>Spin_Semaphore\<close> (sync/spin/semaphore.hpp) and \<open>Spin_Condition\<close> (sync/spin/condition.hpp): the primitives for
  platforms without process-shared ones, at every access to a shared variable: exclusion, exact counts, each notification
  releases exactly the threads it has to, and the condition always can come to rest.

  \<^bold>\<open>Loops.\<close> A loop that ends on every input is a function with a termination proof. A loop over data in memory, which a
  corrupted segment could make endless, is a \<^theory_text>\<open>partial_function\<close> whose value is None when it does not return; the
  properties show that it returns in every state that keeps the invariant. No fuel is used. The endless loops of threads are steps,
  one per access. Searches in the containers of Boost.Intrusive are parameters.

  \<^bold>\<open>Assumptions.\<close> A 64-bit little-endian platform with the default layout (version 2) and \<^verbatim>\<open>char\<close> names. Operations under the
  mutex of a segment or queue are one step. Memory is sequentially consistent. Constructors, destructors and deleters of the user change
  only their object. The intrusive set and multiset, the allocator of control blocks and the user's mutex of a
  condition are parameters with their documented contracts, stated in locales or named predicates; each has a witness.
  Counts of smart pointers, and threads at a condition, stay below 2^32. The destructor of a condition is its call of
  notify\_all, which is a step.

  \<^bold>\<open>Not modelled.\<close> The wrappers of operating system calls (POSIX and Windows synchronisation, files, mapped regions, shared
  memory objects, named objects), whose behaviour is that of the system; the managed segment classes and allocators, which forward
  to the segment manager and to the pools of Boost.Container; containers and unique\_ptr, which are names for classes of
  other libraries; streams, decided by the standard library; intrusive\_ptr and scoped\_ptr, one-line wrappers; the
  condition algorithm over Windows semaphores; the emulation of robust mutexes, which rests on file locks; index types other than the default; macros and type
  traits. The manifest lists them with their files.
\<close>

end
